(* ===== verification/Prelude.thy ===== *)
theory Prelude
  imports Main "HOL-Library.Word" "HOL-Library.Monad_Syntax"
begin

text \<open>
  Shared material of the development: the C types of \<^verbatim>\<open>src/types.h\<close> as types of HOL,
  the status codes, small facts about lists, options and words that several
  components need, and the generic notion of a machine with an invariant.

  Pointers are \<open>addr option\<close>: \<open>None\<close> is the C \<open>NULL\<close>, \<open>Some a\<close> the address \<open>a\<close>.
  Unsigned 32 bit quantities whose wrap-around matters are \<open>32 word\<close>.
\<close>

unbundle bit_operations_syntax

type_synonym uint32 = "32 word"
type_synonym uint8 = "8 word"
type_synonym addr = nat
type_synonym ptr = "addr option"

text \<open>\<^verbatim>\<open>OS_STATUS\<close> of \<^verbatim>\<open>types.h\<close>: an \<open>int\<close> that is 0 or -1.\<close>

datatype OS_STATUS = OS_STATUS_OK | OS_STATUS_ERROR

text \<open>\<^verbatim>\<open>NO_WAIT\<close> and \<^verbatim>\<open>WAIT_FOREVER\<close> of \<^verbatim>\<open>task.h\<close>.\<close>

abbreviation (input) NO_WAIT :: uint32 where "NO_WAIT \<equiv> 0"
abbreviation (input) WAIT_FOREVER :: uint32 where "WAIT_FOREVER \<equiv> 0xffffffff"

named_theorems state_simps \<open>projections of updated model states\<close>
named_theorems queue_laws \<open>effect of an operation on the abstract queues\<close>

section \<open>First and last element as pointers\<close>

fun first :: "'a list \<Rightarrow> 'a option" where
  "first [] = None"
| "first (x # xs) = Some x"

definition final :: "'a list \<Rightarrow> 'a option" where
  "final xs = first (rev xs)"

lemma final_Nil [simp]: "final [] = None"
  by (simp add: final_def)

lemma final_snoc [simp]: "final (xs @ [x]) = Some x"
  by (simp add: final_def)

lemma first_append: "first (xs @ ys) = (if xs = [] then first ys else first xs)"
  by (cases xs) auto

lemma first_append_Cons [simp]: "first (xs @ y # ys) = (case first xs of None \<Rightarrow> Some y | Some x \<Rightarrow> Some x)"
  by (cases xs) auto

lemma final_append: "final (xs @ ys) = (if ys = [] then final xs else final ys)"
  by (simp add: final_def first_append)

lemma final_Cons: "final (x # xs) = (if xs = [] then Some x else final xs)"
  using final_append [of "[x]" xs] final_snoc [of "[]" x] by simp

lemma first_eq_None [simp]: "first xs = None \<longleftrightarrow> xs = []"
  by (cases xs) auto

lemma final_eq_None [simp]: "final xs = None \<longleftrightarrow> xs = []"
  by (simp add: final_def)

lemma first_in_set: "first xs = Some x \<Longrightarrow> x \<in> set xs"
  by (cases xs) auto

lemma final_in_set: "final xs = Some x \<Longrightarrow> x \<in> set xs"
  by (simp add: final_def) (metis first_in_set set_rev)

lemma first_eq_Some: "first xs = Some x \<longleftrightarrow> (\<exists>ys. xs = x # ys)"
  by (cases xs) auto

lemma final_eq_Some: "final xs = Some x \<longleftrightarrow> (\<exists>ys. xs = ys @ [x])"
  unfolding final_def first_eq_Some rev_eq_Cons_iff by (metis rev_rev_ident)

lemma in_set_split_distinct:
  assumes "a \<in> set xs" and "distinct xs"
  obtains ys zs where "xs = ys @ a # zs" and "a \<notin> set ys" and "a \<notin> set zs"
    and "remove1 a xs = ys @ zs"
proof -
  from assms(1) obtain ys zs where "xs = ys @ a # zs" and "a \<notin> set ys"
    using split_list_first by metis
  with assms(2) show thesis
    by (intro that [of ys zs]) (auto simp: remove1_append)
qed

section \<open>Words\<close>

lemma unat_minus_one_pos: "w \<noteq> 0 \<Longrightarrow> unat (w - 1) = unat w - 1" for w :: "'a::len word"
  by (simp add: unat_minus_one)

lemma unat_plus_one_less: "w < v \<Longrightarrow> unat (w + 1) = unat w + 1" for w v :: "'a::len word"
proof -
  assume "w < v"
  then have "unat w + 1 \<le> unat v" by (simp add: word_less_nat_alt)
  then have "unat w + 1 < 2 ^ LENGTH('a)" using unsigned_less [where 'a = nat, of v] by (rule le_less_trans)
  then show "unat (w + 1) = unat w + 1" by (simp add: unat_word_ariths)
qed

lemma bit_shift_one_iff: "bit (push_bit i (1 :: 'a::len word)) j \<longleftrightarrow> i = j \<and> j < LENGTH('a)"
  by (simp add: bit_exp_iff) (metis possible_bit_word)

lemma word_eq_0_iff_bits: "w = (0 :: 'a::len word) \<longleftrightarrow> (\<forall>n < LENGTH('a). \<not> bit w n)"
  by (auto simp: bit_eq_iff dest: bit_imp_le_length)

lemma unat_of_nat32 [simp]: "n < 4294967296 \<Longrightarrow> unat (of_nat n :: 32 word) = n"
  by (simp add: unat_of_nat take_bit_nat_eq_self)

lemma sint_of_nat32: "n < 2147483648 \<Longrightarrow> sint (of_nat n :: 32 word) = int n"
  by (simp add: signed_of_nat signed_take_bit_int_eq_self_iff)

lemma unat_drop_bit32: "unat (drop_bit n w) = unat w div 2 ^ n" for w :: "32 word"
  using unsigned_less [where 'a = nat, of w]
  by (simp add: unsigned_drop_bit_eq drop_bit_nat_def take_bit_nat_eq_self)

section \<open>Machines with an invariant\<close>

text \<open>
  The interface of every state machine of the development: an initial state, a
  step relation and a property that the start has and every step keeps. Its
  client lemma is that every reachable state has the property.
\<close>

inductive reachable :: "('s \<Rightarrow> bool) \<Rightarrow> ('s \<Rightarrow> 's \<Rightarrow> bool) \<Rightarrow> 's \<Rightarrow> bool" for start step where
  start: "start s \<Longrightarrow> reachable start step s"
| step: "reachable start step s \<Longrightarrow> step s t \<Longrightarrow> reachable start step t"

locale invariant_machine =
  fixes start :: "'s \<Rightarrow> bool" and step :: "'s \<Rightarrow> 's \<Rightarrow> bool" and inv :: "'s \<Rightarrow> bool"
  assumes start_inv: "start s \<Longrightarrow> inv s"
    and step_inv: "inv s \<Longrightarrow> step s t \<Longrightarrow> inv t"
begin

lemma reachable_inv: "reachable start step s \<Longrightarrow> inv s"
  by (induction rule: reachable.induct) (auto intro: start_inv step_inv)

lemma rtranclp_inv: "step\<^sup>*\<^sup>* s t \<Longrightarrow> inv s \<Longrightarrow> inv t"
  by (induction rule: rtranclp_induct) (auto intro: step_inv)

end

end
