(* ===== verification/Dlist.thy ===== *)
theory Dlist
  imports Prelude
begin

text \<open>
  The doubly linked list tool (\<^verbatim>\<open>src/dlist.h\<close>, \<^verbatim>\<open>src/dlist.c\<close>) on an explicit store.

  Every kernel object starts with a \<^verbatim>\<open>DL_NODE\<close> and every queue is a \<^verbatim>\<open>DL_LIST\<close>
  descriptor, so the store maps node addresses to nodes and list references to
  descriptors. A list reference stands for the C pointer to a descriptor; its type
  is a parameter, since each client has its own descriptors. The pointer
  operations are related to plain lists by \<open>dl_holds\<close>, and the locale
  \<open>list_store\<close> is the contract the clients of the tool use.
\<close>

section \<open>The store\<close>

record DL_NODE =
  dl_next :: ptr
  dl_previous :: ptr

record DL_LIST =
  dl_head :: ptr
  dl_tail :: ptr

record 'l dl_mem =
  nodes :: "addr \<Rightarrow> DL_NODE"
  lists :: "'l \<Rightarrow> DL_LIST"

definition DL_FIRST :: "'l \<Rightarrow> 'l dl_mem \<Rightarrow> ptr" where
  "DL_FIRST pList m = dl_head (lists m pList)"

definition DL_LAST :: "'l \<Rightarrow> 'l dl_mem \<Rightarrow> ptr" where
  "DL_LAST pList m = dl_tail (lists m pList)"

definition DL_NEXT :: "addr \<Rightarrow> 'l dl_mem \<Rightarrow> ptr" where
  "DL_NEXT pNode m = dl_next (nodes m pNode)"

definition DL_PREVIOUS :: "addr \<Rightarrow> 'l dl_mem \<Rightarrow> ptr" where
  "DL_PREVIOUS pNode m = dl_previous (nodes m pNode)"

definition DL_EMPTY :: "'l \<Rightarrow> 'l dl_mem \<Rightarrow> bool" where
  "DL_EMPTY pList m \<longleftrightarrow> dl_head (lists m pList) = None"

text \<open>Assignments to the four fields.\<close>

definition set_head :: "'l \<Rightarrow> ptr \<Rightarrow> 'l dl_mem \<Rightarrow> 'l dl_mem" where
  "set_head l p m = m\<lparr>lists := (lists m)(l := (lists m l)\<lparr>dl_head := p\<rparr>)\<rparr>"

definition set_tail :: "'l \<Rightarrow> ptr \<Rightarrow> 'l dl_mem \<Rightarrow> 'l dl_mem" where
  "set_tail l p m = m\<lparr>lists := (lists m)(l := (lists m l)\<lparr>dl_tail := p\<rparr>)\<rparr>"

definition set_next :: "addr \<Rightarrow> ptr \<Rightarrow> 'l dl_mem \<Rightarrow> 'l dl_mem" where
  "set_next a p m = m\<lparr>nodes := (nodes m)(a := (nodes m a)\<lparr>dl_next := p\<rparr>)\<rparr>"

definition set_previous :: "addr \<Rightarrow> ptr \<Rightarrow> 'l dl_mem \<Rightarrow> 'l dl_mem" where
  "set_previous a p m = m\<lparr>nodes := (nodes m)(a := (nodes m a)\<lparr>dl_previous := p\<rparr>)\<rparr>"

lemmas dl_assigns = set_head_def set_tail_def set_next_def set_previous_def
lemmas dl_macros = DL_FIRST_def DL_LAST_def DL_NEXT_def DL_PREVIOUS_def DL_EMPTY_def

section \<open>The operations of dlist.c\<close>

definition dlist_init :: "'l \<Rightarrow> 'l dl_mem \<Rightarrow> OS_STATUS \<times> 'l dl_mem" where
  "dlist_init pList m = (OS_STATUS_OK, set_tail pList None (set_head pList None m))"

definition dlist_insert :: "'l \<Rightarrow> ptr \<Rightarrow> addr \<Rightarrow> 'l dl_mem \<Rightarrow> 'l dl_mem" where
  "dlist_insert pList pPrev pNode m =
     (let (pNext, m1) =
            (case pPrev of
               None \<Rightarrow> (dl_head (lists m pList), set_head pList (Some pNode) m)
             | Some p \<Rightarrow> (dl_next (nodes m p), set_next p (Some pNode) m));
          m2 = (case pNext of
                  None \<Rightarrow> set_tail pList (Some pNode) m1
                | Some n \<Rightarrow> set_previous n (Some pNode) m1)
      in set_previous pNode pPrev (set_next pNode pNext m2))"

definition dlist_add :: "'l \<Rightarrow> addr \<Rightarrow> 'l dl_mem \<Rightarrow> 'l dl_mem" where
  "dlist_add pList pNode m = dlist_insert pList (dl_tail (lists m pList)) pNode m"

definition dlist_remove :: "'l \<Rightarrow> addr \<Rightarrow> 'l dl_mem \<Rightarrow> 'l dl_mem" where
  "dlist_remove pList pNode m =
     (let m1 = (case dl_previous (nodes m pNode) of
                  None \<Rightarrow> set_head pList (dl_next (nodes m pNode)) m
                | Some p \<Rightarrow> set_next p (dl_next (nodes m pNode)) m)
      in case dl_next (nodes m1 pNode) of
           None \<Rightarrow> set_tail pList (dl_previous (nodes m1 pNode)) m1
         | Some n \<Rightarrow> set_previous n (dl_previous (nodes m1 pNode)) m1)"

definition dlist_get :: "'l \<Rightarrow> 'l dl_mem \<Rightarrow> ptr \<times> 'l dl_mem" where
  "dlist_get pList m =
     (case dl_head (lists m pList) of
        None \<Rightarrow> (None, m)
      | Some pNode \<Rightarrow>
          (let m1 = set_head pList (dl_next (nodes m pNode)) m
           in (Some pNode,
               case dl_next (nodes m1 pNode) of
                 None \<Rightarrow> set_tail pList None m1
               | Some n \<Rightarrow> set_previous n None m1)))"

text \<open>
  The three loops follow \<^verbatim>\<open>next\<close> pointers; on a cyclic chain they do not return,
  so they are partial: \<open>None\<close> is "does not return".
\<close>

partial_function (option) count_loop :: "'l dl_mem \<Rightarrow> ptr \<Rightarrow> int \<Rightarrow> int option" where
  "count_loop m pNode count =
     (case pNode of
        None \<Rightarrow> Some count
      | Some a \<Rightarrow> count_loop m (DL_NEXT a m) (count + 1))"

definition dlist_count :: "'l \<Rightarrow> 'l dl_mem \<Rightarrow> int option" where
  "dlist_count pList m = count_loop m (DL_FIRST pList m) 0"

partial_function (option) check_loop :: "'l dl_mem \<Rightarrow> addr \<Rightarrow> ptr \<Rightarrow> int option" where
  "check_loop m pNode pListNode =
     (case pListNode of
        None \<Rightarrow> Some 0
      | Some a \<Rightarrow> if a \<noteq> pNode then check_loop m pNode (DL_NEXT a m) else Some 1)"

definition dlist_check :: "'l \<Rightarrow> addr \<Rightarrow> 'l dl_mem \<Rightarrow> int option" where
  "dlist_check pList pNode m = check_loop m pNode (DL_FIRST pList m)"

text \<open>
  \<^verbatim>\<open>dlist_each\<close> calls a routine that may change the whole state \<open>'s\<close>, and reads
  the \<^verbatim>\<open>next\<close> field of the node only after the call; \<open>mem\<close> is the list store
  inside \<open>'s\<close>.
\<close>

partial_function (option) each_loop ::
  "('s \<Rightarrow> 'l dl_mem) \<Rightarrow> (addr \<Rightarrow> 's \<Rightarrow> (OS_STATUS \<times> 's) option) \<Rightarrow> ptr \<Rightarrow> 's \<Rightarrow> (ptr \<times> 's) option"
where
  "each_loop mem routine pNode s =
     (case pNode of
        None \<Rightarrow> Some (None, s)
      | Some a \<Rightarrow>
          Option.bind (routine a s)
            (\<lambda>r. if fst r = OS_STATUS_OK
                  then each_loop mem routine (DL_NEXT a (mem (snd r))) (snd r)
                  else Some (Some a, snd r)))"

definition dlist_each ::
  "('s \<Rightarrow> 'l dl_mem) \<Rightarrow> 'l \<Rightarrow> (addr \<Rightarrow> 's \<Rightarrow> (OS_STATUS \<times> 's) option) \<Rightarrow> 's \<Rightarrow> (ptr \<times> 's) option"
where
  "dlist_each mem pList routine s = each_loop mem routine (DL_FIRST pList (mem s)) s"

declare count_loop.simps [code] check_loop.simps [code] each_loop.simps [code]

section \<open>Pointer chains as lists\<close>

text \<open>
  \<open>links h p xs e\<close>: the nodes of \<open>xs\<close> are chained both ways, the first one points
  back to \<open>p\<close> and the last one forward to \<open>e\<close>.
\<close>

fun links :: "(addr \<Rightarrow> DL_NODE) \<Rightarrow> ptr \<Rightarrow> addr list \<Rightarrow> ptr \<Rightarrow> bool" where
  "links h p [] e \<longleftrightarrow> True"
| "links h p (a # as) e \<longleftrightarrow>
     dl_previous (h a) = p \<and> dl_next (h a) = (case as of [] \<Rightarrow> e | b # _ \<Rightarrow> Some b) \<and>
     links h (Some a) as e"

definition dl_rep :: "'l dl_mem \<Rightarrow> 'l \<Rightarrow> addr list \<Rightarrow> bool" where
  "dl_rep m l xs \<longleftrightarrow>
     distinct xs \<and> dl_head (lists m l) = first xs \<and> dl_tail (lists m l) = final xs \<and>
     links (nodes m) None xs None"

text \<open>All descriptors at once: each represents its list and no node is in two lists.\<close>

definition dl_holds :: "'l dl_mem \<Rightarrow> ('l \<Rightarrow> addr list) \<Rightarrow> bool" where
  "dl_holds m A \<longleftrightarrow>
     (\<forall>l. dl_rep m l (A l)) \<and> (\<forall>l l' a. a \<in> set (A l) \<longrightarrow> a \<in> set (A l') \<longrightarrow> l = l')"

definition or_end :: "'a option \<Rightarrow> 'a option \<Rightarrow> 'a option" where
  "or_end p q = (case p of None \<Rightarrow> q | Some x \<Rightarrow> Some x)"

lemma or_end_simps [simp]: "or_end None q = q" "or_end (Some x) q = Some x" "or_end p None = p"
  by (auto simp: or_end_def split: option.splits)

lemma or_end_first_Cons [simp]: "(case as of [] \<Rightarrow> e | b # _ \<Rightarrow> Some b) = or_end (first as) e"
  by (cases as) auto

lemma links_append:
  "links h p (xs @ ys) e \<longleftrightarrow>
     links h p xs (or_end (first ys) e) \<and> links h (or_end (final xs) p) ys e"
  by (induction xs arbitrary: p)
    (auto simp: first_append final_Cons or_end_def split: option.splits if_splits)

lemma links_frame:
  "(\<And>a. a \<in> set xs \<Longrightarrow> h' a = h a) \<Longrightarrow> links h' p xs e = links h p xs e"
  by (induction xs arbitrary: p) auto

lemma links_Cons_next:
  "links h p (xs @ a # ys) None \<Longrightarrow> dl_next (h a) = first ys"
  by (simp add: links_append)

lemma links_Cons_previous:
  "links h None (xs @ a # ys) e \<Longrightarrow> dl_previous (h a) = final xs"
  by (simp add: links_append)

text \<open>Changing the forward pointer of the last or the back pointer of the first node.\<close>

lemma links_set_end:
  assumes "links h p xs e" and "final xs = Some z" and "distinct xs"
  shows "links (h(z := (h z)\<lparr>dl_next := e'\<rparr>)) p xs e'"
proof -
  from assms(2) obtain ys where xs: "xs = ys @ [z]"
    by (auto simp: final_eq_Some)
  with assms(3) have z: "z \<notin> set ys" by simp
  from assms(1) xs have "links h p ys (Some z)" and "dl_previous (h z) = or_end (final ys) p"
    by (auto simp: links_append)
  moreover from z have "links (h(z := (h z)\<lparr>dl_next := e'\<rparr>)) p ys (Some z) = links h p ys (Some z)"
    by (intro links_frame) auto
  ultimately show ?thesis by (simp add: xs links_append)
qed

lemma links_set_start:
  assumes "links h p xs e" and "first xs = Some z" and "distinct xs"
  shows "links (h(z := (h z)\<lparr>dl_previous := p'\<rparr>)) p' xs e"
proof -
  from assms(2) obtain ys where xs: "xs = z # ys"
    by (auto simp: first_eq_Some)
  with assms(3) have z: "z \<notin> set ys" by simp
  from assms(1) xs have "links h (Some z) ys e" by simp
  with z have "links (h(z := (h z)\<lparr>dl_previous := p'\<rparr>)) (Some z) ys e"
    by (subst links_frame) auto
  with assms(1) xs show ?thesis by simp
qed


section \<open>Effect on the represented lists\<close>

lemma dl_rep_D:
  assumes "dl_rep m l xs"
  shows "distinct xs" "dl_head (lists m l) = first xs" "dl_tail (lists m l) = final xs"
    "links (nodes m) None xs None"
  using assms by (auto simp: dl_rep_def)

lemma dl_rep_frame:
  "lists m' l = lists m l \<Longrightarrow> (\<And>a. a \<in> set xs \<Longrightarrow> nodes m' a = nodes m a) \<Longrightarrow>
   dl_rep m' l xs = dl_rep m l xs"
  by (simp add: dl_rep_def links_frame [of xs "nodes m'" "nodes m"])

lemma set_lists [simp]:
  "lists (set_next a p m) = lists m" "lists (set_previous a p m) = lists m"
  "nodes (set_head l p m) = nodes m" "nodes (set_tail l p m) = nodes m"
  by (simp_all add: dl_assigns)

lemma rep_next: "dl_rep m l (xs @ a # ys) \<Longrightarrow> dl_next (nodes m a) = first ys"
  by (auto dest!: dl_rep_D(4) links_Cons_next)

lemma rep_previous: "dl_rep m l (xs @ a # ys) \<Longrightarrow> dl_previous (nodes m a) = final xs"
  by (auto dest!: dl_rep_D(4) links_Cons_previous)

lemma dlist_insert_rep:
  assumes rep: "dl_rep m l (xs @ ys)" and new: "a \<notin> set (xs @ ys)"
  shows "dl_rep (dlist_insert l (final xs) a m) l (xs @ a # ys)"
proof -
  note d = dl_rep_D [OF rep]
  let ?m = "dlist_insert l (final xs) a m"
  let ?h = "nodes m"
  define h1 where "h1 = (case final xs of None \<Rightarrow> ?h | Some z \<Rightarrow> ?h(z := (?h z)\<lparr>dl_next := Some a\<rparr>))"
  define h2 where "h2 = (case first ys of None \<Rightarrow> h1 | Some n \<Rightarrow> h1(n := (h1 n)\<lparr>dl_previous := Some a\<rparr>))"
  have nodes': "nodes ?m = h2(a := (h2 a)\<lparr>dl_next := first ys, dl_previous := final xs\<rparr>)"
    and lists': "lists ?m l = \<lparr>dl_head = first (xs @ a # ys), dl_tail = final (xs @ a # ys)\<rparr>"
    using d(2,3,4)
    by (cases xs rule: rev_cases; cases ys;
        force simp: dlist_insert_def dl_assigns h1_def h2_def first_append final_append final_Cons
          links_append)+
  have disj: "set xs \<inter> set ys = {}" "distinct xs" "distinct ys" using d(1) by auto
  have xs: "links ?h None xs (first ys)" and ys: "links ?h (final xs) ys None"
    using d(4) by (simp_all add: links_append)
  have "links h1 None xs (Some a)"
    using xs disj by (cases "final xs") (auto simp: h1_def intro: links_set_end)
  then have "links (nodes ?m) None xs (Some a)"
    by (subst links_frame [where h = h1])
      (use new disj in \<open>auto simp: nodes' h2_def dest: first_in_set split: option.splits\<close>)
  moreover have "links h1 (final xs) ys None"
    by (subst links_frame [where h = ?h]) (use ys disj in \<open>auto simp: h1_def dest: final_in_set split: option.splits\<close>)
  then have "links h2 (Some a) ys None"
    using disj by (cases "first ys") (auto simp: h2_def intro: links_set_start)
  then have "links (nodes ?m) (Some a) ys None"
    by (subst links_frame [where h = h2]) (use new in \<open>auto simp: nodes'\<close>)
  ultimately have "links (nodes ?m) None (xs @ a # ys) None"
    by (simp add: links_append nodes')
  then show ?thesis
    using d(1) new lists' by (simp add: dl_rep_def)
qed

lemma dlist_insert_frame:
  "l' \<noteq> l \<Longrightarrow> lists (dlist_insert l p a m) l' = lists m l'"
  by (auto simp: dlist_insert_def dl_assigns Let_def split: option.splits)

lemma dlist_insert_nodes_frame:
  assumes "dl_rep m l (xs @ ys)" and "b \<notin> set (xs @ ys)" and "b \<noteq> a"
  shows "nodes (dlist_insert l (final xs) a m) b = nodes m b"
  using dl_rep_D [OF assms(1)] assms(2,3)
  by (cases xs rule: rev_cases; cases ys)
    (auto simp: dlist_insert_def dl_assigns first_append links_append)

lemma dlist_remove_rep:
  assumes rep: "dl_rep m l (xs @ a # ys)"
  shows "dl_rep (dlist_remove l a m) l (xs @ ys)"
proof -
  note d = dl_rep_D [OF rep]
  let ?m = "dlist_remove l a m"
  let ?h = "nodes m"
  have p: "dl_previous (?h a) = final xs" and n: "dl_next (?h a) = first ys"
    using rep by (simp_all add: rep_previous rep_next)
  have disj: "set xs \<inter> set ys = {}" "distinct xs" "distinct ys" "a \<notin> set xs" "a \<notin> set ys"
    using d(1) by auto
  define h1 where "h1 = (case final xs of None \<Rightarrow> ?h | Some z \<Rightarrow> ?h(z := (?h z)\<lparr>dl_next := first ys\<rparr>))"
  define h2 where "h2 = (case first ys of None \<Rightarrow> h1 | Some n \<Rightarrow> h1(n := (h1 n)\<lparr>dl_previous := final xs\<rparr>))"
  have nodes': "nodes ?m = h2"
    and lists': "lists ?m l = \<lparr>dl_head = first (xs @ ys), dl_tail = final (xs @ ys)\<rparr>"
    using d(2,3) p n disj
    by (cases xs rule: rev_cases; cases ys;
        force simp: dlist_remove_def dl_assigns h1_def h2_def first_append final_append final_Cons)+
  have xs: "links ?h None xs (Some a)" and ys: "links ?h (Some a) ys None"
    using d(4) by (simp_all add: links_append)
  have "links h1 None xs (first ys)"
    using xs disj by (cases "final xs") (auto simp: h1_def intro: links_set_end)
  then have 1: "links h2 None xs (first ys)"
    by (subst links_frame [where h = h1])
      (use disj in \<open>auto simp: h2_def dest: first_in_set split: option.splits\<close>)
  have "links h1 (Some a) ys None"
    by (subst links_frame [where h = ?h])
      (use ys disj in \<open>auto simp: h1_def dest: final_in_set split: option.splits\<close>)
  then have 2: "links h2 (final xs) ys None"
    using disj by (cases "first ys") (auto simp: h2_def intro: links_set_start)
  from 1 2 show ?thesis
    using d(1) lists' by (simp add: dl_rep_def nodes' links_append)
qed

lemma dlist_remove_frame:
  "l' \<noteq> l \<Longrightarrow> lists (dlist_remove l a m) l' = lists m l'"
  by (auto simp: dlist_remove_def dl_assigns Let_def split: option.splits)

lemma dlist_remove_nodes_frame:
  assumes "dl_rep m l (xs @ a # ys)" and "b \<notin> set (xs @ a # ys)"
  shows "nodes (dlist_remove l a m) b = nodes m b"
  using assms rep_previous [OF assms(1)] rep_next [OF assms(1)]
  by (auto simp: dlist_remove_def dl_assigns Let_def dest: first_in_set final_in_set split: option.splits)

lemma dlist_get_Cons:
  assumes "dl_rep m l (a # ys)"
  shows "dlist_get l m = (Some a, dlist_remove l a m)"
  using dl_rep_D [OF assms] by (auto simp: dlist_get_def dlist_remove_def dl_assigns Let_def split: option.splits)

lemma dlist_get_Nil: "dl_rep m l [] \<Longrightarrow> dlist_get l m = (None, m)"
  by (simp add: dlist_get_def dl_rep_def)

section \<open>The contract of the list tool\<close>

text \<open>
  What the clients rely on: \<open>holds s A\<close> says that in store \<open>s\<close> the list \<open>l\<close>
  consists of the nodes \<open>A l\<close>, with no node in two lists.
\<close>

locale list_store =
  fixes holds :: "'s \<Rightarrow> ('l \<Rightarrow> 'a list) \<Rightarrow> bool"
    and add :: "'l \<Rightarrow> 'a \<Rightarrow> 's \<Rightarrow> 's"
    and insert_after :: "'l \<Rightarrow> 'a option \<Rightarrow> 'a \<Rightarrow> 's \<Rightarrow> 's"
    and remove :: "'l \<Rightarrow> 'a \<Rightarrow> 's \<Rightarrow> 's"
    and get :: "'l \<Rightarrow> 's \<Rightarrow> 'a option \<times> 's"
    and first_of :: "'l \<Rightarrow> 's \<Rightarrow> 'a option"
    and last_of :: "'l \<Rightarrow> 's \<Rightarrow> 'a option"
    and next_of :: "'a \<Rightarrow> 's \<Rightarrow> 'a option"
    and previous_of :: "'a \<Rightarrow> 's \<Rightarrow> 'a option"
  assumes holds_distinct: "holds s A \<Longrightarrow> distinct (A l)"
    and holds_disjoint: "holds s A \<Longrightarrow> a \<in> set (A l) \<Longrightarrow> a \<in> set (A l') \<Longrightarrow> l = l'"
    and first_law: "holds s A \<Longrightarrow> first_of l s = first (A l)"
    and last_law: "holds s A \<Longrightarrow> last_of l s = final (A l)"
    and next_law: "holds s A \<Longrightarrow> A l = xs @ a # ys \<Longrightarrow> next_of a s = first ys"
    and previous_law: "holds s A \<Longrightarrow> A l = xs @ a # ys \<Longrightarrow> previous_of a s = final xs"
    and insert_law: "holds s A \<Longrightarrow> A l = xs @ ys \<Longrightarrow> \<forall>k. a \<notin> set (A k) \<Longrightarrow>
        holds (insert_after l (final xs) a s) (A(l := xs @ a # ys))"
    and add_def: "add l a s = insert_after l (last_of l s) a s"
    and remove_law: "holds s A \<Longrightarrow> a \<in> set (A l) \<Longrightarrow> holds (remove l a s) (A(l := remove1 a (A l)))"
    and get_law: "holds s A \<Longrightarrow>
        get l s = (case A l of [] \<Rightarrow> (None, s) | a # _ \<Rightarrow> (Some a, remove l a s))"
begin

lemma add_law: "holds s A \<Longrightarrow> \<forall>k. a \<notin> set (A k) \<Longrightarrow> holds (add l a s) (A(l := A l @ [a]))"
  using insert_law [of s A l "A l" "[]" a] by (simp add: add_def last_law)

lemma get_holds:
  assumes "holds s A" and "A l = a # xs"
  shows "get l s = (Some a, remove l a s)" and "holds (remove l a s) (A(l := xs))"
proof -
  show "get l s = (Some a, remove l a s)"
    by (subst get_law [OF assms(1)]) (simp add: assms(2))
  show "holds (remove l a s) (A(l := xs))"
    using remove_law [OF assms(1), of a l] unfolding assms(2) by simp
qed

lemma get_empty: "holds s A \<Longrightarrow> A l = [] \<Longrightarrow> get l s = (None, s)"
  by (simp add: get_law)

lemma removed_nowhere:
  assumes "holds s A" and "a \<in> set (A l)"
  shows "a \<notin> set ((A(l := remove1 a (A l))) k)"
proof (cases "k = l")
  case True
  then show ?thesis using holds_distinct [OF assms(1), of l] by simp
next
  case False
  then show ?thesis using holds_disjoint [OF assms(1,2), of k] by (metis fun_upd_other)
qed

text \<open>A node that is taken off one list and put at the end of another.\<close>

lemma move_law:
  assumes "holds s A" and "a \<in> set (A l)" and "l \<noteq> l'"
  shows "holds (add l' a (remove l a s)) (A(l := remove1 a (A l), l' := A l' @ [a]))"
proof -
  have "holds (remove l a s) (A(l := remove1 a (A l)))"
    using assms by (intro remove_law)
  from add_law [OF this, of a l'] show ?thesis
    using assms removed_nowhere [OF assms(1,2)] by (simp del: fun_upd_apply) simp
qed

text \<open>A node that goes to the end of its own list.\<close>

lemma rotate_law:
  assumes "holds s A" and "a \<in> set (A l)"
  shows "holds (add l a (remove l a s)) (A(l := remove1 a (A l) @ [a]))"
proof -
  have "holds (remove l a s) (A(l := remove1 a (A l)))"
    using assms by (intro remove_law)
  from add_law [OF this, of a l] show ?thesis
    using assms removed_nowhere [OF assms(1,2)] by (simp del: fun_upd_apply) simp
qed

lemma first_None_iff: "holds s A \<Longrightarrow> first_of l s = None \<longleftrightarrow> A l = []"
  by (simp add: first_law)

end

lemma dl_holds_D:
  assumes "dl_holds m A"
  shows "dl_rep m l (A l)" and "a \<in> set (A l) \<Longrightarrow> a \<in> set (A l') \<Longrightarrow> l = l'"
  using assms by (auto simp: dl_holds_def)

lemma dl_holds_insert:
  assumes h: "dl_holds m A" and l: "A l = xs @ ys" and new: "\<forall>k. a \<notin> set (A k)"
  shows "dl_holds (dlist_insert l (final xs) a m) (A(l := xs @ a # ys))"
  unfolding dl_holds_def
proof (intro conjI allI impI)
  have rep: "dl_rep m l (xs @ ys)" and newl: "a \<notin> set (xs @ ys)"
    using dl_holds_D(1) [OF h, of l] l new by (metis, metis)
  fix k
  show "dl_rep (dlist_insert l (final xs) a m) k ((A(l := xs @ a # ys)) k)"
  proof (cases "k = l")
    case True
    then show ?thesis using dlist_insert_rep [OF rep newl] by simp
  next
    case False
    have "b \<notin> set (xs @ ys) \<and> b \<noteq> a" if "b \<in> set (A k)" for b
      using that False dl_holds_D(2) [OF h, of b k l] l new by auto
    then have "dl_rep (dlist_insert l (final xs) a m) k (A k) = dl_rep m k (A k)"
      using False by (intro dl_rep_frame) (auto simp: dlist_insert_frame dlist_insert_nodes_frame [OF rep])
    with False show ?thesis using dl_holds_D(1) [OF h, of k] by simp
  qed
next
  fix k k' b
  assume b: "b \<in> set ((A(l := xs @ a # ys)) k)" "b \<in> set ((A(l := xs @ a # ys)) k')"
  have sub: "b = a \<and> i = l \<or> b \<in> set (A i)" if "b \<in> set ((A(l := xs @ a # ys)) i)" for i
    using that l by (auto split: if_splits)
  from sub [OF b(1)] sub [OF b(2)] show "k = k'"
    using new dl_holds_D(2) [OF h, of b k k'] by blast
qed

lemma dl_holds_remove:
  assumes h: "dl_holds m A" and a: "a \<in> set (A l)"
  shows "dl_holds (dlist_remove l a m) (A(l := remove1 a (A l)))"
  unfolding dl_holds_def
proof (intro conjI allI impI)
  have rep: "dl_rep m l (A l)" by (rule dl_holds_D(1) [OF h])
  obtain xs ys where l: "A l = xs @ a # ys" and r: "remove1 a (A l) = xs @ ys"
    using in_set_split_distinct [OF a dl_rep_D(1) [OF rep]] by metis
  fix k
  show "dl_rep (dlist_remove l a m) k ((A(l := remove1 a (A l))) k)"
  proof (cases "k = l")
    case True
    then show ?thesis using dlist_remove_rep [of m l xs a ys] rep l r by simp
  next
    case False
    have "b \<notin> set (xs @ a # ys)" if "b \<in> set (A k)" for b
      using that False dl_holds_D(2) [OF h, of b k l] l by auto
    then have "dl_rep (dlist_remove l a m) k (A k) = dl_rep m k (A k)"
      using False rep l by (intro dl_rep_frame) (auto simp: dlist_remove_frame dlist_remove_nodes_frame)
    with False show ?thesis using dl_holds_D(1) [OF h, of k] by simp
  qed
next
  fix k k' b
  assume "b \<in> set ((A(l := remove1 a (A l))) k)" "b \<in> set ((A(l := remove1 a (A l))) k')"
  then show "k = k'"
    using dl_holds_D(2) [OF h, of b k k'] by (auto split: if_splits dest: notin_set_remove1)
qed

interpretation dl: list_store dl_holds dlist_add dlist_insert dlist_remove dlist_get
  DL_FIRST DL_LAST DL_NEXT DL_PREVIOUS
proof unfold_locales
  fix m :: "'l dl_mem" and A l
  assume h: "dl_holds m A"
  show "dlist_get l m = (case A l of [] \<Rightarrow> (None, m) | a # _ \<Rightarrow> (Some a, dlist_remove l a m))"
    using dl_holds_D(1) [OF h, of l] by (auto simp: dlist_get_Cons dlist_get_Nil split: list.splits)
qed (auto simp: dl_macros dlist_add_def intro: dl_holds_insert dl_holds_remove
    dest: dl_rep_D dl_holds_D rep_next rep_previous, (metis dl_holds_D(1) dl_rep_D rep_next rep_previous)+)

section \<open>Traversals\<close>

lemma count_loop_chain:
  "links (nodes m) p xs None \<Longrightarrow> count_loop m (first xs) n = Some (n + int (length xs))"
proof (induction xs arbitrary: p n)
  case Nil
  then show ?case by (simp add: count_loop.simps)
next
  case (Cons a xs)
  then have "count_loop m (first xs) (n + 1) = Some (n + 1 + int (length xs))"
    by (metis links.simps(2))
  moreover have "DL_NEXT a m = first xs" using Cons.prems by (simp add: DL_NEXT_def)
  ultimately show ?case by (simp add: count_loop.simps [of m "Some a"])
qed

lemma check_loop_chain:
  "links (nodes m) p xs None \<Longrightarrow> check_loop m a (first xs) = Some (if a \<in> set xs then 1 else 0)"
proof (induction xs arbitrary: p)
  case Nil
  then show ?case by (simp add: check_loop.simps)
next
  case (Cons b xs)
  then have "check_loop m a (first xs) = Some (if a \<in> set xs then 1 else 0)"
    by (metis links.simps(2))
  moreover have "DL_NEXT b m = first xs" using Cons.prems by (simp add: DL_NEXT_def)
  ultimately show ?case by (simp add: check_loop.simps [of m a "Some b"])
qed

text \<open>
  A traversal whose routine may move the visited node elsewhere: if after each
  call the node still points to the rest of the list, the walk goes on; if its
  \<^verbatim>\<open>next\<close> has become \<^verbatim>\<open>NULL\<close> the walk ends there. \<open>P\<close> is the invariant, indexed
  by the nodes still to visit, \<open>Q\<close> what holds at the end.
\<close>

lemma each_loop_rule:
  assumes step: "\<And>a ys s. P (a # ys) s \<Longrightarrow>
      \<exists>s'. routine a s = Some (OS_STATUS_OK, s') \<and>
           (DL_NEXT a (mem s') = first ys \<and> P ys s' \<or> DL_NEXT a (mem s') = None \<and> Q s')"
    and stop: "\<And>s. P [] s \<Longrightarrow> Q s"
  shows "P ys s \<Longrightarrow> \<exists>s'. each_loop mem routine (first ys) s = Some (None, s') \<and> Q s'"
proof (induction ys arbitrary: s)
  case Nil
  then show ?case using stop by (simp add: each_loop.simps)
next
  case (Cons a ys)
  from step [OF Cons.prems] obtain s' where r: "routine a s = Some (OS_STATUS_OK, s')"
    and c: "DL_NEXT a (mem s') = first ys \<and> P ys s' \<or> DL_NEXT a (mem s') = None \<and> Q s'"
    by blast
  from r have "each_loop mem routine (first (a # ys)) s = each_loop mem routine (DL_NEXT a (mem s')) s'"
    by (simp add: each_loop.simps [of mem routine "Some a"])
  with c Cons.IH show ?case
    by (auto simp: each_loop.simps [of mem routine None])
qed

text \<open>A routine that leaves the list store alone visits every node, in order.\<close>

lemma each_loop_visits:
  assumes frame: "\<And>a s. routine a s = Some (OS_STATUS_OK, f a s) \<and> mem (f a s) = mem s"
  shows "links (nodes (mem s)) p xs None \<Longrightarrow> each_loop mem routine (first xs) s = Some (None, fold f xs s)"
proof (induction xs arbitrary: p s)
  case Nil
  then show ?case by (simp add: each_loop.simps)
next
  case (Cons a xs)
  have "each_loop mem routine (first xs) (f a s) = Some (None, fold f xs (f a s))"
    by (rule Cons.IH [of _ "Some a"]) (use Cons.prems frame in simp)
  moreover have "DL_NEXT a (mem (f a s)) = first xs"
    using Cons.prems frame by (simp add: DL_NEXT_def)
  ultimately show ?case
    using frame [of a s] by (simp add: each_loop.simps [of mem routine "Some a"])
qed

text \<open>A search: the routine answers \<^verbatim>\<open>OS_STATUS_ERROR\<close> at the node it looks for.\<close>

lemma each_loop_find:
  assumes routine: "\<And>a. routine a s = Some (if hit a then OS_STATUS_ERROR else OS_STATUS_OK, s)"
  shows "links (nodes (mem s)) p xs None \<Longrightarrow> each_loop mem routine (first xs) s = Some (List.find hit xs, s)"
proof (induction xs arbitrary: p)
  case Nil
  then show ?case by (simp add: each_loop.simps)
next
  case (Cons a xs)
  have "each_loop mem routine (first xs) s = Some (List.find hit xs, s)"
    by (rule Cons.IH [of "Some a"]) (use Cons.prems in simp)
  moreover have "DL_NEXT a (mem s) = first xs" using Cons.prems by (simp add: DL_NEXT_def)
  ultimately show ?case by (simp add: each_loop.simps [of mem routine "Some a"] routine)
qed

lemma dlist_each_visits:
  assumes "dl_holds (mem s) A" and "\<And>a s. routine a s = Some (OS_STATUS_OK, f a s) \<and> mem (f a s) = mem s"
  shows "dlist_each mem l routine s = Some (None, fold f (A l) s)"
  using dl_rep_D [OF dl_holds_D(1) [OF assms(1), of l]] assms(2)
  by (simp add: dlist_each_def DL_FIRST_def) (rule each_loop_visits)

lemma dlist_each_finds:
  assumes "dl_holds (mem s) A" and "\<And>a. routine a s = Some (if hit a then OS_STATUS_ERROR else OS_STATUS_OK, s)"
  shows "dlist_each mem l routine s = Some (List.find hit (A l), s)"
  using dl_rep_D [OF dl_holds_D(1) [OF assms(1), of l]] assms(2)
  by (simp add: dlist_each_def DL_FIRST_def) (rule each_loop_find)

section \<open>Properties\<close>

text \<open>C10: in a store whose lists are well linked and disjoint, the pointer operations
  do on the represented sequences what their names say: add appends, insert after a
  node splices behind it, remove deletes, get pops the head or answers NULL on an
  empty list; every other list of the store is untouched.\<close>

theorem dlist_refines_lists:
  assumes "dl_holds m A"
  shows "((\<forall>k. a \<notin> set (A k)) \<longrightarrow> dl_holds (dlist_add l a m) (A(l := A l @ [a]))) \<and>
         ((\<forall>k. a \<notin> set (A k)) \<and> A l = xs @ b # ys \<longrightarrow>
            dl_holds (dlist_insert l (Some b) a m) (A(l := xs @ b # a # ys))) \<and>
         (a \<in> set (A l) \<longrightarrow> dl_holds (dlist_remove l a m) (A(l := remove1 a (A l)))) \<and>
         (case A l of
            [] \<Rightarrow> dlist_get l m = (None, m)
          | c # zs \<Rightarrow> \<exists>m'. dlist_get l m = (Some c, m') \<and> dl_holds m' (A(l := zs)))"
  using dl.add_law [OF assms, of a l] dl.insert_law [OF assms, of l "xs @ [b]" ys a]
    dl.remove_law [OF assms, of a l] dl.get_holds [OF assms, of l] dl.get_empty [OF assms, of l]
  by (auto split: list.split)

definition example_mem :: "bool dl_mem" where
  "example_mem = \<lparr>nodes = (\<lambda>a. if a = 3 then \<lparr>dl_next = Some 5, dl_previous = None\<rparr>
                               else if a = 5 then \<lparr>dl_next = None, dl_previous = Some 3\<rparr>
                               else \<lparr>dl_next = None, dl_previous = None\<rparr>),
                  lists = (\<lambda>l. if l then \<lparr>dl_head = Some 3, dl_tail = Some 5\<rparr>
                               else \<lparr>dl_head = None, dl_tail = None\<rparr>)\<rparr>"

lemma example_mem_holds: "dl_holds example_mem (\<lambda>l. if l then [3, 5] else [])"
  by (simp add: dl_holds_def dl_rep_def example_mem_def final_def)

theorem dlist_refines_lists_witness:
  "dl_holds (dlist_add True 7 example_mem) ((\<lambda>l. if l then [3, 5] else [])(True := [3, 5] @ [7])) \<and>
   dl_holds (dlist_remove True 3 example_mem) ((\<lambda>l. if l then [3, 5] else [])(True := [5])) \<and>
   dlist_get False example_mem = (None, example_mem)"
  using dlist_refines_lists [OF example_mem_holds, of 7 True]
    dlist_refines_lists [OF example_mem_holds, of 3 True]
    dlist_refines_lists [OF example_mem_holds, of _ False] by simp

text \<open>on a well linked list the counting and the membership walk return (they do
  not run forever), with the number of nodes and with 1 exactly for members.\<close>

theorem dlist_count_check:
  assumes "dl_holds m A"
  shows "dlist_count l m = Some (int (length (A l))) \<and>
         dlist_check l a m = Some (if a \<in> set (A l) then 1 else 0)"
  using dl_rep_D [OF dl_holds_D(1) [OF assms, of l]]
  by (simp add: dlist_count_def dlist_check_def DL_FIRST_def check_loop_chain
      count_loop_chain [where n = 0, simplified])

theorem dlist_count_check_witness:
  "dlist_count True example_mem = Some 2 \<and> dlist_check True 5 example_mem = Some 1"
  using dlist_count_check [OF example_mem_holds, of True 5] by simp

end
