(* ===== verification/CMemory.thy ===== *)
theory CMemory
  imports Prelude
begin

text \<open>
  The memory block functions of \<^verbatim>\<open>src/string.c\<close>: \<^verbatim>\<open>bcopy\<close>, \<^verbatim>\<open>memcpy\<close>, \<^verbatim>\<open>memmove\<close>,
  \<^verbatim>\<open>bfill\<close>, \<^verbatim>\<open>memset\<close>, \<^verbatim>\<open>memcmp\<close>, \<^verbatim>\<open>memchr\<close> and \<^verbatim>\<open>memrchr\<close>, on a byte store. The
  word-at-a-time loops are kept as loops over 4 byte transfers (a \<^verbatim>\<open>long\<close> is four
  bytes, little endian, on the ARM target), with their alignment prologues; the
  theorems say that the result is the plain block copy or fill.
\<close>

type_synonym cmem = "addr \<Rightarrow> uint8"

section \<open>Copying\<close>

text \<open>\<^verbatim>\<open>*destination++ = *source++\<close> until the destination is word aligned.\<close>

function align_fwd :: "addr \<Rightarrow> addr \<Rightarrow> cmem \<Rightarrow> addr \<times> addr \<times> cmem" where
  "align_fwd source destination m =
     (if destination AND 3 \<noteq> 0
      then align_fwd (source + 1) (destination + 1) (m(destination := m source))
      else (source, destination, m))"
  by pat_completeness auto

text \<open>One \<^verbatim>\<open>*ldst++ = *lsrc++\<close>: four bytes are read, then four are written.\<close>

definition copy_long :: "addr \<Rightarrow> addr \<Rightarrow> cmem \<Rightarrow> cmem" where
  "copy_long src dst m =
     (let b0 = m src; b1 = m (src + 1); b2 = m (src + 2); b3 = m (src + 3)
      in m(dst := b0, dst + 1 := b1, dst + 2 := b2, dst + 3 := b3))"

function longs_fwd :: "addr \<Rightarrow> addr \<Rightarrow> addr \<Rightarrow> cmem \<Rightarrow> addr \<times> addr \<times> cmem" where
  "longs_fwd lsrc ldst dstend m =
     (let m' = copy_long lsrc ldst m
      in if ldst + 4 + 4 \<le> dstend
         then longs_fwd (lsrc + 4) (ldst + 4) dstend m'
         else (lsrc + 4, ldst + 4, m'))"
  by pat_completeness auto
termination by (relation "measure (\<lambda>(s, d, e, m). e - d)") auto

function bytes_fwd :: "addr \<Rightarrow> addr \<Rightarrow> addr \<Rightarrow> cmem \<Rightarrow> cmem" where
  "bytes_fwd source destination dstend m =
     (if destination < dstend
      then bytes_fwd (source + 1) (destination + 1) dstend (m(destination := m source))
      else m)"
  by pat_completeness auto
termination by (relation "measure (\<lambda>(s, d, e, m). e - d)") auto

text \<open>The same three loops with \<^verbatim>\<open>*--destination = *--source\<close>.\<close>

function align_bwd :: "addr \<Rightarrow> addr \<Rightarrow> cmem \<Rightarrow> addr \<times> addr \<times> cmem" where
  "align_bwd source destination m =
     (if destination AND 3 \<noteq> 0
      then align_bwd (source - 1) (destination - 1) (m(destination - 1 := m (source - 1)))
      else (source, destination, m))"
  by pat_completeness auto

function longs_bwd :: "addr \<Rightarrow> addr \<Rightarrow> addr \<Rightarrow> cmem \<Rightarrow> addr \<times> addr \<times> cmem" where
  "longs_bwd lsrc ldst dstend m =
     (let m' = copy_long (lsrc - 4) (ldst - 4) m
      in if int (ldst - 4) - 4 \<ge> int dstend
         then longs_bwd (lsrc - 4) (ldst - 4) dstend m'
         else (lsrc - 4, ldst - 4, m'))"
  by pat_completeness auto
termination by (relation "measure (\<lambda>(s, d, e, m). d)") auto

function bytes_bwd :: "addr \<Rightarrow> addr \<Rightarrow> addr \<Rightarrow> cmem \<Rightarrow> cmem" where
  "bytes_bwd source destination dstend m =
     (if destination > dstend
      then bytes_bwd (source - 1) (destination - 1) dstend (m(destination - 1 := m (source - 1)))
      else m)"
  by pat_completeness auto
termination by (relation "measure (\<lambda>(s, d, e, m). d)") auto

lemma and_3_mod: "n AND 3 = n mod 4" for n :: nat
  using take_bit_eq_mask [of 2 n] by (simp add: take_bit_eq_mod mask_eq_exp_minus_1)

termination align_fwd
  by (relation "measure (\<lambda>(s, d, m). (4 - d mod 4) mod 4)") (auto simp: and_3_mod mod_Suc)

termination align_bwd
  by (relation "measure (\<lambda>(s, d, m). d)") (auto simp: and_3_mod intro: gr0I)

text \<open>
  \<^verbatim>\<open>nbytes\<close> is an \<^verbatim>\<open>int\<close>; the word loop is used when at least ten bytes are to be
  copied and both pointers have the same alignment.
\<close>

definition bcopy :: "addr \<Rightarrow> addr \<Rightarrow> int \<Rightarrow> cmem \<Rightarrow> cmem" where
  "bcopy source destination nbytes m =
     (let tmp = int destination - int source
      in if tmp \<le> 0 \<or> tmp \<ge> nbytes
         then let dstend = nat (int destination + nbytes)
              in if nbytes < 10 \<or> (destination XOR source) AND 3 \<noteq> 0
                 then bytes_fwd source destination dstend m
                 else (case align_fwd source destination m of (source1, destination1, m1) \<Rightarrow>
                       case longs_fwd source1 destination1 dstend m1 of (source2, destination2, m2) \<Rightarrow>
                         bytes_fwd source2 destination2 dstend m2)
         else let dstend = destination;
                  destination0 = nat (int destination + nbytes);
                  source0 = nat (int source + nbytes)
              in if nbytes < 10 \<or> (destination0 XOR source0) AND 3 \<noteq> 0
                 then bytes_bwd source0 destination0 dstend m
                 else (case align_bwd source0 destination0 m of (source1, destination1, m1) \<Rightarrow>
                       case longs_bwd source1 destination1 dstend m1 of (source2, destination2, m2) \<Rightarrow>
                         bytes_bwd source2 destination2 dstend m2))"

definition memcpy :: "addr \<Rightarrow> addr \<Rightarrow> uint32 \<Rightarrow> cmem \<Rightarrow> addr \<times> cmem" where
  "memcpy destination source sz m = (destination, bcopy source destination (sint sz) m)"

definition memmove :: "addr \<Rightarrow> addr \<Rightarrow> uint32 \<Rightarrow> cmem \<Rightarrow> addr \<times> cmem" where
  "memmove destination source sz m = (destination, bcopy source destination (sint sz) m)"

section \<open>Filling\<close>

function align_fill :: "addr \<Rightarrow> uint8 \<Rightarrow> cmem \<Rightarrow> addr \<times> cmem" where
  "align_fill buf ch m =
     (if buf AND 3 \<noteq> 0 then align_fill (buf + 1) ch (m(buf := ch)) else (buf, m))"
  by pat_completeness auto
termination
  by (relation "measure (\<lambda>(d, c, m). (4 - d mod 4) mod 4)") (auto simp: and_3_mod mod_Suc)

definition store_long :: "addr \<Rightarrow> uint32 \<Rightarrow> cmem \<Rightarrow> cmem" where
  "store_long p val m =
     m(p := ucast val, p + 1 := ucast (drop_bit 8 val), p + 2 := ucast (drop_bit 16 val),
       p + 3 := ucast (drop_bit 24 val))"

function longs_fill :: "addr \<Rightarrow> addr \<Rightarrow> uint32 \<Rightarrow> cmem \<Rightarrow> addr \<times> cmem" where
  "longs_fill pBuf buftmp val m =
     (let m' = store_long pBuf val m
      in if pBuf + 4 < buftmp then longs_fill (pBuf + 4) buftmp val m' else (pBuf + 4, m'))"
  by pat_completeness auto
termination by (relation "measure (\<lambda>(d, e, v, m). e - d)") auto

function byte_fill :: "addr \<Rightarrow> addr \<Rightarrow> uint8 \<Rightarrow> cmem \<Rightarrow> cmem" where
  "byte_fill buf bufend ch m =
     (if buf < bufend then byte_fill (buf + 1) bufend ch (m(buf := ch)) else m)"
  by pat_completeness auto
termination by (relation "measure (\<lambda>(d, e, c, m). e - d)") auto

definition bfill :: "addr \<Rightarrow> int \<Rightarrow> uint32 \<Rightarrow> cmem \<Rightarrow> cmem" where
  "bfill buf nbytes ch m =
     (let bufend = nat (int buf + nbytes)
      in if nbytes < 10 then byte_fill buf bufend (ucast ch) m
         else let val = push_bit 24 ch OR push_bit 16 ch OR push_bit 8 ch OR ch
              in case align_fill buf (ucast ch) m of (buf1, m1) \<Rightarrow>
                 case longs_fill buf1 (bufend - 4) val m1 of (pBuf, m2) \<Rightarrow>
                   byte_fill (pBuf - 4) bufend (ucast ch) m2)"

definition memset :: "addr \<Rightarrow> uint32 \<Rightarrow> uint32 \<Rightarrow> cmem \<Rightarrow> addr \<times> cmem" where
  "memset p c sz m = (p, bfill p (sint sz) c m)"

section \<open>Comparing and searching\<close>

text \<open>\<^verbatim>\<open>while (*p1++ == *p2++) if (--n == 0) return 0\<close>, entered with \<^verbatim>\<open>n\<close> not 0.\<close>

fun memcmp_loop :: "nat \<Rightarrow> addr \<Rightarrow> addr \<Rightarrow> cmem \<Rightarrow> int" where
  "memcmp_loop 0 p1 p2 m = 0"
| "memcmp_loop (Suc n) p1 p2 m =
     (if m p1 = m p2 then memcmp_loop n (p1 + 1) (p2 + 1) m else uint (m p1) - uint (m p2))"

definition memcmp :: "addr \<Rightarrow> addr \<Rightarrow> uint32 \<Rightarrow> cmem \<Rightarrow> int" where
  "memcmp m1 m2 n m = (if n = 0 then 0 else memcmp_loop (unat n) m1 m2 m)"

fun memchr_loop :: "nat \<Rightarrow> addr \<Rightarrow> uint8 \<Rightarrow> cmem \<Rightarrow> ptr" where
  "memchr_loop 0 p c m = None"
| "memchr_loop (Suc n) p c m = (if m p = c then Some p else memchr_loop n (p + 1) c m)"

definition memchr :: "addr \<Rightarrow> uint32 \<Rightarrow> uint32 \<Rightarrow> cmem \<Rightarrow> ptr" where
  "memchr p c n m = (if n \<noteq> 0 then memchr_loop (unat n) p (ucast c) m else None)"

text \<open>
  \<^verbatim>\<open>memrchr\<close> compares the (unsigned) character with the \<^verbatim>\<open>int\<close> \<^verbatim>\<open>c\<close> itself; it
  starts at the last byte and goes down to the first.
\<close>

fun memrchr_loop :: "nat \<Rightarrow> addr \<Rightarrow> int \<Rightarrow> cmem \<Rightarrow> ptr" where
  "memrchr_loop 0 str c m = None"
| "memrchr_loop (Suc i) str c m =
     (if uint (m (str + i)) = c then Some (str + i) else memrchr_loop i str c m)"

definition memrchr :: "addr \<Rightarrow> int \<Rightarrow> uint32 \<Rightarrow> cmem \<Rightarrow> ptr" where
  "memrchr str c n m = memrchr_loop (unat n) str c m"

declare align_fwd.simps [simp del] longs_fwd.simps [simp del] bytes_fwd.simps [simp del]
  align_bwd.simps [simp del] longs_bwd.simps [simp del] bytes_bwd.simps [simp del]
  align_fill.simps [simp del] longs_fill.simps [simp del] byte_fill.simps [simp del]

section \<open>Block copies\<close>

text \<open>The specification of a copy: all reads happen before all writes.\<close>

definition blit :: "addr \<Rightarrow> addr \<Rightarrow> nat \<Rightarrow> cmem \<Rightarrow> cmem" where
  "blit s d k m = (\<lambda>a. if d \<le> a \<and> a < d + k then m (s + (a - d)) else m a)"

lemma blit_0 [simp]: "blit s d 0 m = m"
  by (auto simp: blit_def fun_eq_iff)

lemma byte_blit: "m(d := m s) = blit s d 1 m"
  by (auto simp: blit_def fun_eq_iff)

lemma copy_long_blit: "copy_long s d m = blit s d 4 m"
proof
  fix a
  consider "a < d" | "a = d" | "a = d + 1" | "a = d + 2" | "a = d + 3" | "d + 4 \<le> a" by linarith
  then show "copy_long s d m a = blit s d 4 m a"
    by cases (simp_all add: copy_long_def blit_def Let_def)
qed

lemma blit_blit_fwd:
  assumes "d \<le> s \<or> s + i + k \<le> d"
  shows "blit (s + i) (d + i) k (blit s d i m) = blit s d (i + k) m"
  using assms by (auto simp: blit_def fun_eq_iff)

lemma blit_blit_bwd:
  assumes "s \<le> d"
  shows "blit s d k (blit (s + k) (d + k) i m) = blit s d (k + i) m"
  using assms by (auto simp: blit_def fun_eq_iff)

lemma bytes_fwd_blit:
  "d \<le> s \<or> s + (e - d) \<le> d \<Longrightarrow> bytes_fwd s d e m = blit s d (e - d) m"
proof (induction s d e m rule: bytes_fwd.induct)
  case (1 s d e m)
  show ?case
  proof (cases "d < e")
    case True
    with "1.prems" have "d + 1 \<le> s + 1 \<or> s + 1 + (e - (d + 1)) \<le> d + 1" by linarith
    from "1.IH" [OF True this]
    have "bytes_fwd s d e m = blit (s + 1) (d + 1) (e - (d + 1)) (blit s d 1 m)"
      using True by (subst bytes_fwd.simps) (simp add: byte_blit)
    also have "\<dots> = blit s d (1 + (e - (d + 1))) m"
      using True "1.prems" by (intro blit_blit_fwd) linarith
    finally show ?thesis using True by (simp add: Suc_diff_Suc)
  qed (simp add: bytes_fwd.simps)
qed

definition pad :: "addr \<Rightarrow> nat" where
  "pad d = (4 - d mod 4) mod 4"

lemma pad_cases:
  obtains "d mod 4 = 0" "pad d = 0" | "d mod 4 = 1" "pad d = 3"
    | "d mod 4 = 2" "pad d = 2" | "d mod 4 = 3" "pad d = 1"
proof -
  consider "d mod 4 = 0" | "d mod 4 = 1" | "d mod 4 = 2" | "d mod 4 = 3" by linarith
  then show thesis by cases (auto simp: pad_def intro: that)
qed

lemma pad_Suc: "d mod 4 \<noteq> 0 \<Longrightarrow> pad d = Suc (pad (d + 1))"
  by (cases d rule: pad_cases) (auto simp: pad_def mod_Suc)

lemma pad_bounds: "pad d \<le> 3" "4 dvd d + pad d" "d mod 4 = 0 \<Longrightarrow> pad d = 0"
  by (cases d rule: pad_cases; simp; presburger)+

lemma align_fwd_blit:
  "d \<le> s \<or> s + pad d \<le> d \<Longrightarrow> align_fwd s d m = (s + pad d, d + pad d, blit s d (pad d) m)"
proof (induction s d m rule: align_fwd.induct)
  case (1 s d m)
  show ?case
  proof (cases "d mod 4 = 0")
    case False
    then have pd: "pad d = Suc (pad (d + 1))" by (rule pad_Suc)
    with "1.prems" have "d + 1 \<le> s + 1 \<or> s + 1 + pad (d + 1) \<le> d + 1" by linarith
    with "1.IH" False have "align_fwd s d m =
        (s + pad d, d + pad d, blit (s + 1) (d + 1) (pad (d + 1)) (blit s d 1 m))"
      by (subst align_fwd.simps) (simp add: and_3_mod byte_blit pd)
    also have "blit (s + 1) (d + 1) (pad (d + 1)) (blit s d 1 m) = blit s d (1 + pad (d + 1)) m"
      using "1.prems" pd by (intro blit_blit_fwd) linarith
    finally show ?thesis using pd by simp
  qed (simp add: align_fwd.simps and_3_mod pad_bounds)
qed

lemma longs_fwd_blit:
  "d + 4 \<le> e \<Longrightarrow> d \<le> s \<or> s + (e - d) \<le> d \<Longrightarrow>
   \<exists>j. longs_fwd s d e m = (s + j, d + j, blit s d j m) \<and> d + j \<le> e"
proof (induction s d e m rule: longs_fwd.induct)
  case (1 s d e m)
  show ?case
  proof (cases "d + 4 + 4 \<le> e")
    case True
    with "1.prems" have "d + 4 \<le> s + 4 \<or> s + 4 + (e - (d + 4)) \<le> d + 4" by linarith
    with "1.IH" [OF refl True] True obtain j where
      j: "longs_fwd (s + 4) (d + 4) e (copy_long s d m) =
          (s + 4 + j, d + 4 + j, blit (s + 4) (d + 4) j (copy_long s d m))" "d + 4 + j \<le> e" by blast
    have "blit (s + 4) (d + 4) j (copy_long s d m) = blit s d (4 + j) m"
      unfolding copy_long_blit using "1.prems" j(2) by (intro blit_blit_fwd) linarith
    with j True show ?thesis
      by (intro exI [of _ "4 + j"]) (simp add: longs_fwd.simps [of s d e m] add.assoc)
  next
    case False
    with "1.prems" show ?thesis
      by (intro exI [of _ 4]) (simp add: longs_fwd.simps [of s d e m] copy_long_blit)
  qed
qed

lemma bytes_bwd_blit: "s \<le> d \<Longrightarrow> bytes_bwd (s + n) (d + n) d m = blit s d n m"
proof (induction n arbitrary: m)
  case (Suc n)
  have "bytes_bwd (s + Suc n) (d + Suc n) d m = bytes_bwd (s + n) (d + n) d (blit (s + n) (d + n) 1 m)"
    by (subst bytes_bwd.simps) (simp add: byte_blit)
  also have "\<dots> = blit s d n (blit (s + n) (d + n) 1 m)"
    using Suc by blast
  also have "\<dots> = blit s d (Suc n) m"
    using Suc.prems blit_blit_bwd [of s d n 1 m] by simp
  finally show ?case .
qed (simp add: bytes_bwd.simps)

lemma align_bwd_blit:
  "s \<le> d \<Longrightarrow> d mod 4 = 0 \<Longrightarrow> n < 4 \<Longrightarrow> align_bwd (s + n) (d + n) m = (s, d, blit s d n m)"
proof (induction n arbitrary: m)
  case (Suc n)
  then have "(d + Suc n) mod 4 \<noteq> 0" by presburger
  then have "align_bwd (s + Suc n) (d + Suc n) m = align_bwd (s + n) (d + n) (blit (s + n) (d + n) 1 m)"
    by (subst align_bwd.simps) (simp add: byte_blit and_3_mod)
  also have "\<dots> = (s, d, blit s d n (blit (s + n) (d + n) 1 m))"
    using Suc by simp
  also have "blit s d n (blit (s + n) (d + n) 1 m) = blit s d (Suc n) m"
    using Suc.prems blit_blit_bwd [of s d n 1 m] by simp
  finally show ?case .
qed (simp add: align_bwd.simps and_3_mod)

lemma longs_bwd_blit:
  "s \<le> d \<Longrightarrow> 4 \<le> n \<Longrightarrow>
   \<exists>i j. n = i + j \<and> longs_bwd (s + n) (d + n) d m = (s + i, d + i, blit (s + i) (d + i) j m)"
proof (induction n arbitrary: m rule: less_induct)
  case (less n)
  define k where "k = n - 4"
  with less.prems have n: "n = k + 4" by simp
  have unf: "longs_bwd (s + n) (d + n) d m =
      (if 4 \<le> k then longs_bwd (s + k) (d + k) d (blit (s + k) (d + k) 4 m)
       else (s + k, d + k, blit (s + k) (d + k) 4 m))"
    by (subst longs_bwd.simps) (simp add: n copy_long_blit Let_def)
  show ?case
  proof (cases "4 \<le> k")
    case True
    with less.IH [of k "blit (s + k) (d + k) 4 m"] less.prems n obtain i j where
      ij: "k = i + j" "longs_bwd (s + k) (d + k) d (blit (s + k) (d + k) 4 m) =
           (s + i, d + i, blit (s + i) (d + i) j (blit (s + k) (d + k) 4 m))" by auto
    have "blit (s + i) (d + i) j (blit (s + k) (d + k) 4 m) = blit (s + i) (d + i) (j + 4) m"
      using blit_blit_bwd [of "s + i" "d + i" j 4 m] less.prems by (simp add: ij(1) add.assoc)
    with ij unf True n show ?thesis by (intro exI [of _ i] exI [of _ "j + 4"]) simp
  next
    case False
    with unf n show ?thesis by (intro exI [of _ k] exI [of _ 4]) simp
  qed
qed

lemma bcopy_fwd_words:
  assumes n: "10 \<le> n" and ok: "d \<le> s \<or> s + n \<le> d"
  shows "(case align_fwd s d m of (s1, d1, m1) \<Rightarrow> case longs_fwd s1 d1 (d + n) m1 of (s2, d2, m2) \<Rightarrow>
            bytes_fwd s2 d2 (d + n) m2) = blit s d n m"
proof -
  let ?p = "pad d"
  have p: "?p \<le> 3" by (rule pad_bounds)
  have 1: "align_fwd s d m = (s + ?p, d + ?p, blit s d ?p m)"
    using ok p n by (intro align_fwd_blit) linarith
  obtain j where 2: "longs_fwd (s + ?p) (d + ?p) (d + n) (blit s d ?p m) =
      (s + ?p + j, d + ?p + j, blit (s + ?p) (d + ?p) j (blit s d ?p m))" and j: "d + ?p + j \<le> d + n"
    using longs_fwd_blit [of "d + ?p" "d + n" "s + ?p" "blit s d ?p m"] ok p n by auto
  have 3: "blit (s + ?p) (d + ?p) j (blit s d ?p m) = blit s d (?p + j) m"
    using ok j by (intro blit_blit_fwd) linarith
  have 4: "bytes_fwd (s + (?p + j)) (d + (?p + j)) (d + n) (blit s d (?p + j) m)
      = blit (s + (?p + j)) (d + (?p + j)) (n - (?p + j)) (blit s d (?p + j) m)"
    using bytes_fwd_blit [of "d + (?p + j)" "s + (?p + j)" "d + n" "blit s d (?p + j) m"] ok j by auto
  have 5: "\<dots> = blit s d n m"
    using blit_blit_fwd [of d s "?p + j" "n - (?p + j)" m] ok j by auto
  from 1 2 3 4 5 show ?thesis by (simp add: add.assoc)
qed

lemma bcopy_bwd_words:
  assumes n: "10 \<le> n" and ok: "s \<le> d"
  shows "(case align_bwd (s + n) (d + n) m of (s1, d1, m1) \<Rightarrow> case longs_bwd s1 d1 d m1 of (s2, d2, m2) \<Rightarrow>
            bytes_bwd s2 d2 d m2) = blit s d n m"
proof -
  define k where "k = (d + n) mod 4"
  define r where "r = n - k"
  have k: "k < 4" "n = r + k" "4 \<le> r" "(d + r) mod 4 = 0"
    using n by (auto simp: k_def r_def minus_mod_eq_mult_div [symmetric])
  have 1: "align_bwd (s + n) (d + n) m = (s + r, d + r, blit (s + r) (d + r) k m)"
    using align_bwd_blit [of "s + r" "d + r" k m] k ok by (simp add: add.assoc)
  obtain i j where ij: "r = i + j" and 2: "longs_bwd (s + r) (d + r) d (blit (s + r) (d + r) k m) =
      (s + i, d + i, blit (s + i) (d + i) j (blit (s + r) (d + r) k m))"
    using longs_bwd_blit [OF ok k(3), of "blit (s + r) (d + r) k m"] by blast
  have 3: "blit (s + i) (d + i) j (blit (s + r) (d + r) k m) = blit (s + i) (d + i) (j + k) m"
    using blit_blit_bwd [of "s + i" "d + i" j k m] ok by (simp add: ij add.assoc)
  have 4: "blit s d i (blit (s + i) (d + i) (j + k) m) = blit s d n m"
    using blit_blit_bwd [OF ok, of i "j + k" m] k(2) by (simp add: ij add.assoc)
  from 1 2 3 4 show ?thesis by (simp add: bytes_bwd_blit [OF ok])
qed

lemma bcopy_blit: "bcopy s d n m = blit s d (nat n) m"
proof (cases "int d - int s \<le> 0 \<or> int d - int s \<ge> n")
  case True
  then have ok: "d \<le> s \<or> s + nat n \<le> d" by linarith
  have e: "nat (int d + n) - d = nat n" by linarith
  have bytes: "bytes_fwd s d (nat (int d + n)) m = blit s d (nat n) m"
    using bytes_fwd_blit [of d s "nat (int d + n)" m] ok e by simp
  show ?thesis
  proof (cases "n < 10 \<or> (d XOR s) AND 3 \<noteq> 0")
    case True
    then show ?thesis using \<open>int d - int s \<le> 0 \<or> int d - int s \<ge> n\<close> bytes
      by (simp add: bcopy_def Let_def)
  next
    case False
    then have "nat (int d + n) = d + nat n" and "10 \<le> nat n" by linarith+
    then show ?thesis using True False bcopy_fwd_words [of "nat n" d s m] ok
      by (simp add: bcopy_def Let_def)
  qed
next
  case False
  then have ok: "s \<le> d" and e: "nat (int d + n) = d + nat n" "nat (int s + n) = s + nat n"
    by linarith+
  then show ?thesis
    using False bcopy_bwd_words [of "nat n" s d m] by (auto simp: bcopy_def Let_def bytes_bwd_blit)
qed

section \<open>Block fills\<close>

definition splat :: "addr \<Rightarrow> nat \<Rightarrow> uint8 \<Rightarrow> cmem \<Rightarrow> cmem" where
  "splat d k c m = (\<lambda>a. if d \<le> a \<and> a < d + k then c else m a)"

lemma splat_0 [simp]: "splat d 0 c m = m"
  by (auto simp: splat_def fun_eq_iff)

lemma byte_splat: "m(d := c) = splat d 1 c m"
  by (auto simp: splat_def fun_eq_iff)

lemma splat_splat: "j \<le> i \<Longrightarrow> splat (d + j) k c (splat d i c m) = splat d (max i (j + k)) c m"
  by (auto simp: splat_def fun_eq_iff)

lemma byte_fill_splat: "byte_fill d e c m = splat d (e - d) c m"
proof (induction d e c m rule: byte_fill.induct)
  case (1 d e c m)
  then show ?case
    using splat_splat [of 1 1 d "e - (d + 1)" c m]
    by (subst byte_fill.simps) (auto simp: byte_splat max_def Suc_diff_Suc)
qed

lemma align_fill_splat: "align_fill d c m = (d + pad d, splat d (pad d) c m)"
proof (induction d c m rule: align_fill.induct)
  case (1 d c m)
  show ?case
  proof (cases "d mod 4 = 0")
    case False
    then have "align_fill d c m = (d + pad d, splat (d + 1) (pad (d + 1)) c (splat d 1 c m))"
      using "1.IH" by (subst align_fill.simps) (simp add: and_3_mod byte_splat pad_Suc)
    then show ?thesis using splat_splat [of 1 1 d "pad (d + 1)" c m] False by (simp add: pad_Suc)
  qed (simp add: align_fill.simps and_3_mod pad_bounds)
qed

lemma ucast_or_shift:
  fixes c :: uint32
  assumes "c < 256"
  shows "(ucast c :: uint8) = ucast (push_bit 24 c OR push_bit 16 c OR push_bit 8 c OR c)"
    "(ucast c :: uint8) = ucast (drop_bit 8 (push_bit 24 c OR push_bit 16 c OR push_bit 8 c OR c))"
    "(ucast c :: uint8) = ucast (drop_bit 16 (push_bit 24 c OR push_bit 16 c OR push_bit 8 c OR c))"
    "(ucast c :: uint8) = ucast (drop_bit 24 (push_bit 24 c OR push_bit 16 c OR push_bit 8 c OR c))"
proof -
  have hi: "\<not> bit c n" if "8 \<le> n" for n
  proof -
    have "unat (take_bit 8 c) = unat c"
      using assms by (simp add: unsigned_take_bit_eq take_bit_nat_eq_self_iff word_less_nat_alt)
    then have "c = take_bit 8 c" by (metis unsigned_word_eqI)
    then show ?thesis using that by (metis bit_take_bit_iff not_less)
  qed
  show "(ucast c :: uint8) = ucast (push_bit 24 c OR push_bit 16 c OR push_bit 8 c OR c)"
    "(ucast c :: uint8) = ucast (drop_bit 8 (push_bit 24 c OR push_bit 16 c OR push_bit 8 c OR c))"
    "(ucast c :: uint8) = ucast (drop_bit 16 (push_bit 24 c OR push_bit 16 c OR push_bit 8 c OR c))"
    "(ucast c :: uint8) = ucast (drop_bit 24 (push_bit 24 c OR push_bit 16 c OR push_bit 8 c OR c))"
    by (rule bit_word_eqI; auto simp: bit_ucast_iff bit_or_iff bit_push_bit_iff bit_drop_bit_eq hi)+
qed

lemma store_long_splat:
  assumes "c < 256"
  shows "store_long d (push_bit 24 c OR push_bit 16 c OR push_bit 8 c OR c) m = splat d 4 (ucast c) m"
proof
  fix a
  consider "a < d" | "a = d" | "a = d + 1" | "a = d + 2" | "a = d + 3" | "d + 4 \<le> a" by linarith
  then show "store_long d (push_bit 24 c OR push_bit 16 c OR push_bit 8 c OR c) m a = splat d 4 (ucast c) m a"
    using ucast_or_shift [OF assms]
    by cases (simp_all del: push_bit_of_1 add: store_long_def splat_def)
qed

lemma longs_fill_splat:
  assumes "c < 256"
  shows "\<exists>j. 4 \<le> j \<and> (d + j < e + 4 \<or> j = 4) \<and>
    longs_fill d e (push_bit 24 c OR push_bit 16 c OR push_bit 8 c OR c) m = (d + j, splat d j (ucast c) m)"
proof (induction "e - d" arbitrary: d m rule: less_induct)
  case less
  let ?v = "push_bit 24 c OR push_bit 16 c OR push_bit 8 c OR c"
  have unf: "longs_fill d e ?v m =
      (if d + 4 < e then longs_fill (d + 4) e ?v (splat d 4 (ucast c) m) else (d + 4, splat d 4 (ucast c) m))"
    by (subst longs_fill.simps) (simp add: store_long_splat [OF assms] Let_def)
  show ?case
  proof (cases "d + 4 < e")
    case True
    then have "e - (d + 4) < e - d" by linarith
    from less [OF this, of "splat d 4 (ucast c) m"] obtain j where j: "4 \<le> j" "d + 4 + j < e + 4 \<or> j = 4"
      "longs_fill (d + 4) e ?v (splat d 4 (ucast c) m) = (d + 4 + j, splat (d + 4) j (ucast c) (splat d 4 (ucast c) m))"
      by blast
    have "splat (d + 4) j (ucast c) (splat d 4 (ucast c) m) = splat d (4 + j) (ucast c) m"
      using splat_splat [of 4 4 d j "ucast c" m] by simp
    with j unf True show ?thesis by (intro exI [of _ "4 + j"]) auto
  next
    case False
    with unf show ?thesis by (intro exI [of _ 4]) simp
  qed
qed

lemma bfill_splat:
  assumes "c < 256"
  shows "bfill d n c m = splat d (nat n) (ucast c) m"
proof (cases "n < 10")
  case True
  have "nat (int d + n) - d = nat n" by linarith
  with True show ?thesis by (simp add: bfill_def byte_fill_splat)
next
  case False
  let ?p = "pad d" and ?v = "push_bit 24 c OR push_bit 16 c OR push_bit 8 c OR c"
  define N where "N = nat n"
  have N: "nat (int d + n) = d + N" "10 \<le> N" "?p \<le> 3" using False pad_bounds by (auto simp: N_def)
  obtain j where j: "4 \<le> j" "d + ?p + j < d + N - 4 + 4 \<or> j = 4"
    "longs_fill (d + ?p) (d + N - 4) ?v (splat d ?p (ucast c) m) =
       (d + ?p + j, splat (d + ?p) j (ucast c) (splat d ?p (ucast c) m))"
    using longs_fill_splat [OF assms, of "d + ?p" "d + N - 4" "splat d ?p (ucast c) m"] by blast
  have 1: "splat (d + ?p) j (ucast c) (splat d ?p (ucast c) m) = splat d (?p + j) (ucast c) m"
    using splat_splat [of ?p ?p d j "ucast c" m] by simp
  have 2: "splat (d + (?p + j - 4)) (d + N - (d + (?p + j - 4))) (ucast c) (splat d (?p + j) (ucast c) m)
      = splat d N (ucast c) m"
    using splat_splat [of "?p + j - 4" "?p + j" d "N - (?p + j - 4)" "ucast c" m] j(1,2) N(2,3)
    by (auto simp: max_def)
  have 3: "d + (?p + j) - 4 = d + (?p + j - 4)" using j(1) by simp
  have 4: "longs_fill (d + ?p) (d + N - 4) ?v (splat d ?p (ucast c) m) = (d + (?p + j), splat d (?p + j) (ucast c) m)"
    using j(3) by (simp only: 1 add.assoc)
  have "bfill d n c m = byte_fill (d + (?p + j) - 4) (d + N) (ucast c) (splat d (?p + j) (ucast c) m)"
    using False by (simp only: bfill_def Let_def align_fill_splat N(1) prod.case 4 if_False)
  also have "\<dots> = splat d N (ucast c) m" by (simp only: 3 byte_fill_splat 2)
  finally show ?thesis by (simp add: N_def)
qed

section \<open>Searching and comparing\<close>

lemma memcmp_loop_eq_0: "memcmp_loop n p q m = 0 \<longleftrightarrow> (\<forall>i < n. m (p + i) = m (q + i))"
proof (induction n arbitrary: p q)
  case (Suc n)
  have "(\<forall>i < Suc n. m (p + i) = m (q + i)) \<longleftrightarrow> m p = m q \<and> (\<forall>i < n. m (p + 1 + i) = m (q + 1 + i))"
    by (auto simp: all_conj_distrib less_Suc_eq_0_disj)
  with Suc show ?case by (auto simp: word_uint_eq_iff)
qed simp

lemma find_map_option: "List.find P (map f xs) = map_option f (List.find (P \<circ> f) xs)"
  by (induction xs) auto

lemma memchr_loop_spec:
  "memchr_loop n p c m = (case List.find (\<lambda>i. m (p + i) = c) [0..<n] of None \<Rightarrow> None | Some i \<Rightarrow> Some (p + i))"
proof (induction n arbitrary: p)
  case (Suc n)
  have shift: "List.find (\<lambda>i. m (p + i) = c) (map Suc [0..<n]) =
      map_option Suc (List.find (\<lambda>i. m (p + 1 + i) = c) [0..<n])"
    by (simp add: find_map_option comp_def)
  show ?case
    by (simp only: memchr_loop.simps upt_conv_Cons zero_less_Suc map_Suc_upt [symmetric] find.simps Suc.IH shift)
      (auto split: option.splits)
qed simp

lemma memrchr_loop_spec:
  "memrchr_loop n p c m = None \<and> (\<forall>i < n. uint (m (p + i)) \<noteq> c) \<or>
   (\<exists>i < n. memrchr_loop n p c m = Some (p + i) \<and> uint (m (p + i)) = c \<and>
      (\<forall>j < n. i < j \<longrightarrow> uint (m (p + j)) \<noteq> c))"
proof (induction n)
  case (Suc n)
  show ?case
  proof (cases "uint (m (p + n)) = c")
    case True
    then show ?thesis by (intro disjI2 exI [of _ n]) auto
  next
    case False
    with Suc show ?thesis by (auto simp: less_Suc_eq)
  qed
qed simp

section \<open>Properties\<close>

text \<open>C19: \<^verbatim>\<open>memmove\<close> (and \<^verbatim>\<open>memcpy\<close>, which is the same code) copies exactly the
  block, whether or not source and destination overlap, through the byte, word and
  backward paths of \<^verbatim>\<open>bcopy\<close>: every destination byte gets the value its source byte
  had before the call and no other byte changes. A byte count whose int value is
  negative copies nothing.\<close>

theorem memmove_copies_block:
  "snd (memmove d s n m) =
     (\<lambda>a. if d \<le> a \<and> a < d + nat (sint n) then m (s + (a - d)) else m a) \<and>
   memcpy d s n m = memmove d s n m \<and> fst (memmove d s n m) = d"
  by (simp add: memmove_def memcpy_def bcopy_blit blit_def)

text \<open>\<^verbatim>\<open>memset\<close> with a byte value fills exactly the block with that byte, on the
  byte path and on the word path with its alignment prologue and overlapping tail.\<close>

theorem memset_fills_block:
  assumes "c < 256"
  shows "snd (memset d c n m) = (\<lambda>a. if d \<le> a \<and> a < d + nat (sint n) then ucast c else m a)"
  using bfill_splat [OF assms, of d "sint n" m] by (simp add: memset_def splat_def)

theorem memset_fills_block_witness:
  "snd (memset 5 0xcc 20 (\<lambda>_. 0)) 24 = 0xcc \<and> snd (memset 5 0xcc 20 (\<lambda>_. 0)) 25 = 0"
  using memset_fills_block [of "0xcc" 5 20 "\<lambda>_. 0"] by simp

text \<open>\<^verbatim>\<open>memcmp\<close> is 0 exactly when the blocks are equal, \<^verbatim>\<open>memchr\<close> finds the
  first and \<^verbatim>\<open>memrchr\<close> the last matching byte of the block, or answers NULL.\<close>

theorem memcmp_memchr_memrchr:
  "(memcmp p q n m = 0 \<longleftrightarrow> (\<forall>i < unat n. m (p + i) = m (q + i))) \<and>
   memchr p c n m = (case List.find (\<lambda>i. m (p + i) = ucast c) [0..<unat n] of None \<Rightarrow> None | Some i \<Rightarrow> Some (p + i)) \<and>
   (case memrchr p k n m of
      None \<Rightarrow> \<forall>i < unat n. uint (m (p + i)) \<noteq> k
    | Some a \<Rightarrow> \<exists>i < unat n. a = p + i \<and> uint (m a) = k \<and> (\<forall>j < unat n. i < j \<longrightarrow> uint (m (p + j)) \<noteq> k))"
proof (intro conjI)
  show "memcmp p q n m = 0 \<longleftrightarrow> (\<forall>i < unat n. m (p + i) = m (q + i))"
    by (auto simp: memcmp_def memcmp_loop_eq_0)
  show "memchr p c n m = (case List.find (\<lambda>i. m (p + i) = ucast c) [0..<unat n] of None \<Rightarrow> None | Some i \<Rightarrow> Some (p + i))"
    by (auto simp: memchr_def memchr_loop_spec)
  show "case memrchr p k n m of
      None \<Rightarrow> \<forall>i < unat n. uint (m (p + i)) \<noteq> k
    | Some a \<Rightarrow> \<exists>i < unat n. a = p + i \<and> uint (m a) = k \<and> (\<forall>j < unat n. i < j \<longrightarrow> uint (m (p + j)) \<noteq> k)"
    using memrchr_loop_spec [of "unat n" p k m] by (auto simp: memrchr_def)
qed

theorem memcmp_memchr_memrchr_witness:
  "memchr 0 7 5 ((\<lambda>_. 0)(2 := 7)) = Some 2 \<and> memcmp 0 5 3 ((\<lambda>_. 0)(2 := 7)) \<noteq> 0"
  using memcmp_memchr_memrchr [of 0 5 3 "(\<lambda>_. 0)(2 := 7)" 7 7] memcmp_memchr_memrchr [of 0 5 5 "(\<lambda>_. 0)(2 := 7)" 7 7]
  by (auto simp: upt_rec)

end
