(* ===== verification/MemH.thy ===== *)
theory MemH
  imports CMemory
begin

text \<open>
  The memory heap of \<^verbatim>\<open>src/memH.c\<close>: a first fit allocator over one chain of blocks,
  each preceded by a \<^verbatim>\<open>_BLOCK_HEAD\<close>, with a record of totals. Block heads are kept
  in a store of their own, indexed by address (\<^verbatim>\<open>CONFIG_HEAP_START\<close> upwards); the
  bytes handed to the user are in \<open>bytes\<close>. \<^verbatim>\<open>malloc\<close> loops forever when nothing
  fits (\<^verbatim>\<open>FOREVER {}\<close>), so it is partial: \<open>None\<close> is "does not return". The chain
  is related to a list of blocks, on which the specification of the allocator is
  stated.
\<close>

section \<open>Data of memH.c\<close>

record HEAP_INFO =
  heap_start :: addr
  heap_size :: uint32
  block_num :: uint32
  alloced_num :: uint32
  alloced_size :: uint32
  free_num :: uint32
  free_size :: uint32
  max_free_block_size :: uint32

record BLOCK_HEAD =
  bh_prev :: ptr
  bh_next :: ptr
  bh_size :: uint32
  bh_is_alloced :: bool
  bh_owner_tcb :: ptr

record heap =
  G_sys_heap :: HEAP_INFO
  heads :: "addr \<Rightarrow> BLOCK_HEAD"
  bytes :: cmem

text \<open>\<^verbatim>\<open>CONFIG_MEM_HEAP_LOW\<close>, \<^verbatim>\<open>CONFIG_MEM_HEAP_HIGH\<close>, \<^verbatim>\<open>CONFIG_MEM_HEAP_SIZE\<close>,
  \<^verbatim>\<open>DEFAULT_ALIGN_BYTE\<close> of \<^verbatim>\<open>bsp_config.h\<close> and \<^verbatim>\<open>sizeof (_BLOCK_HEAD)\<close>: five 4 byte fields.\<close>

abbreviation (input) CONFIG_MEM_HEAP_LOW :: addr where "CONFIG_MEM_HEAP_LOW \<equiv> 0x51000000"
abbreviation (input) CONFIG_MEM_HEAP_HIGH :: addr where "CONFIG_MEM_HEAP_HIGH \<equiv> 0x56000000"
abbreviation (input) CONFIG_MEM_HEAP_SIZE :: uint32 where "CONFIG_MEM_HEAP_SIZE \<equiv> 0x5000000"
abbreviation (input) DEFAULT_ALIGN_BYTE :: uint32 where "DEFAULT_ALIGN_BYTE \<equiv> 4"
abbreviation (input) sizeof_BLOCK_HEAD :: nat where "sizeof_BLOCK_HEAD \<equiv> 20"

text \<open>Assignments through block pointers.\<close>

definition upd_head :: "addr \<Rightarrow> (BLOCK_HEAD \<Rightarrow> BLOCK_HEAD) \<Rightarrow> heap \<Rightarrow> heap" where
  "upd_head p f h = h\<lparr>heads := (heads h)(p := f (heads h p))\<rparr>"

definition upd_info :: "(HEAP_INFO \<Rightarrow> HEAP_INFO) \<Rightarrow> heap \<Rightarrow> heap" where
  "upd_info f h = h\<lparr>G_sys_heap := f (G_sys_heap h)\<rparr>"

lemma upd_simps [simp, state_simps]:
  "heads (upd_head p f h) = (heads h)(p := f (heads h p))"
  "G_sys_heap (upd_head p f h) = G_sys_heap h" "bytes (upd_head p f h) = bytes h"
  "heads (upd_info g h) = heads h" "G_sys_heap (upd_info g h) = g (G_sys_heap h)"
  "bytes (upd_info g h) = bytes h"
  by (simp_all add: upd_head_def upd_info_def)

section \<open>Operations of memH.c\<close>

definition heap_init :: "heap \<Rightarrow> heap" where
  "heap_init h =
     upd_head CONFIG_MEM_HEAP_LOW
       (\<lambda>_. \<lparr>bh_prev = None, bh_next = None, bh_size = CONFIG_MEM_HEAP_SIZE - of_nat sizeof_BLOCK_HEAD,
            bh_is_alloced = False, bh_owner_tcb = None\<rparr>)
       (upd_info
         (\<lambda>_. \<lparr>heap_start = CONFIG_MEM_HEAP_LOW, heap_size = CONFIG_MEM_HEAP_SIZE, block_num = 1,
              alloced_num = 0, alloced_size = 0, free_num = 1,
              free_size = CONFIG_MEM_HEAP_SIZE - of_nat sizeof_BLOCK_HEAD,
              max_free_block_size = CONFIG_MEM_HEAP_SIZE - of_nat sizeof_BLOCK_HEAD\<rparr>) h)"

definition align_up :: "uint32 \<Rightarrow> uint32" where
  "align_up nbytes = (nbytes + (DEFAULT_ALIGN_BYTE - 1)) AND NOT (DEFAULT_ALIGN_BYTE - 1)"

text \<open>The search loop; at the end of the chain \<^verbatim>\<open>malloc\<close> spins in \<^verbatim>\<open>FOREVER {}\<close>.\<close>

partial_function (option) malloc_find :: "(addr \<Rightarrow> BLOCK_HEAD) \<Rightarrow> uint32 \<Rightarrow> addr \<Rightarrow> addr option" where
  "malloc_find bl nbytes p =
     (if bh_is_alloced (bl p) \<or> bh_size (bl p) < nbytes
      then (case bh_next (bl p) of None \<Rightarrow> None | Some q \<Rightarrow> malloc_find bl nbytes q)
      else Some p)"

text \<open>The part of \<^verbatim>\<open>malloc\<close> behind the search: split the block or take it whole.\<close>

definition malloc_take :: "uint32 \<Rightarrow> ptr \<Rightarrow> addr \<Rightarrow> heap \<Rightarrow> heap" where
  "malloc_take nbytes current p h =
     (let need_size = nbytes + of_nat sizeof_BLOCK_HEAD;
          psize = bh_size (heads h p);
          h1 = (if sint (psize - need_size) \<ge> sint DEFAULT_ALIGN_BYTE
                then let new_p = (p + unat need_size) mod 2 ^ 32;
                         pnext = bh_next (heads h p);
                         ha = upd_head new_p
                                (\<lambda>_. \<lparr>bh_prev = Some p, bh_next = pnext, bh_size = psize - need_size,
                                     bh_is_alloced = False, bh_owner_tcb = None\<rparr>) h;
                         hb = (case bh_next (heads ha new_p) of
                                 None \<Rightarrow> ha
                               | Some q \<Rightarrow> upd_head q (\<lambda>b. b\<lparr>bh_prev := Some new_p\<rparr>) ha);
                         hc = upd_head p (\<lambda>b. b\<lparr>bh_next := Some new_p, bh_size := nbytes\<rparr>) hb
                     in upd_info (\<lambda>i. i\<lparr>block_num := block_num i + 1,
                                        free_size := free_size i - need_size\<rparr>) hc
                else upd_info (\<lambda>i. i\<lparr>free_num := free_num i - 1,
                                     free_size := free_size i - psize\<rparr>) h);
          h2 = upd_head p (\<lambda>b. b\<lparr>bh_is_alloced := True, bh_owner_tcb := current\<rparr>) h1
      in upd_info (\<lambda>i. i\<lparr>alloced_num := alloced_num i + 1,
                         alloced_size := alloced_size i + bh_size (heads h2 p)\<rparr>) h2)"

definition malloc :: "uint32 \<Rightarrow> ptr \<Rightarrow> heap \<Rightarrow> (addr \<times> heap) option" where
  "malloc nbytes current h =
     (let nbytes = align_up nbytes
      in case malloc_find (heads h) nbytes (heap_start (G_sys_heap h)) of
           None \<Rightarrow> None
         | Some p \<Rightarrow> Some (p + sizeof_BLOCK_HEAD, malloc_take nbytes current p h))"

definition calloc :: "uint32 \<Rightarrow> uint32 \<Rightarrow> ptr \<Rightarrow> heap \<Rightarrow> (addr \<times> heap) option" where
  "calloc elem_num elem_size current h =
     (let nbytes = elem_num * elem_size
      in case malloc nbytes current h of
           None \<Rightarrow> None
         | Some (p, h') \<Rightarrow> Some (p, h'\<lparr>bytes := snd (memset p 0 nbytes (bytes h'))\<rparr>))"

definition CAN_MERGE :: "(addr \<Rightarrow> BLOCK_HEAD) \<Rightarrow> ptr \<Rightarrow> bool" where
  "CAN_MERGE bl p = (case p of None \<Rightarrow> False | Some q \<Rightarrow> \<not> bh_is_alloced (bl q))"

text \<open>
  The search of \<^verbatim>\<open>free\<close>: \<open>Some None\<close> when the address is not the start of a block.
\<close>

partial_function (option) free_find :: "(addr \<Rightarrow> BLOCK_HEAD) \<Rightarrow> addr \<Rightarrow> addr \<Rightarrow> ptr option" where
  "free_find bl target p =
     (if p = target then Some (Some p)
      else (case bh_next (bl p) of None \<Rightarrow> Some None | Some q \<Rightarrow> free_find bl target q))"

definition free_block :: "addr \<Rightarrow> heap \<Rightarrow> heap" where
  "free_block p h0 =
     (let psize = bh_size (heads h0 p);
          h = upd_info (\<lambda>i. i\<lparr>alloced_size := alloced_size i - psize, alloced_num := alloced_num i - 1,
                              free_size := free_size i + psize\<rparr>) h0;
          prv = bh_prev (heads h p);
          nxt = bh_next (heads h p);
          B = of_nat sizeof_BLOCK_HEAD
      in case (CAN_MERGE (heads h) prv, CAN_MERGE (heads h) nxt) of
           (False, False) \<Rightarrow>
             upd_info (\<lambda>i. i\<lparr>free_num := free_num i + 1\<rparr>)
               (upd_head p (\<lambda>b. b\<lparr>bh_is_alloced := False, bh_owner_tcb := None\<rparr>) h)
         | (True, False) \<Rightarrow>
             (let q = the prv;
                  h1 = upd_head q (\<lambda>b. b\<lparr>bh_next := nxt, bh_size := bh_size b + (psize + B)\<rparr>) h;
                  h2 = (case nxt of None \<Rightarrow> h1 | Some n \<Rightarrow> upd_head n (\<lambda>b. b\<lparr>bh_prev := prv\<rparr>) h1)
              in upd_info (\<lambda>i. i\<lparr>block_num := block_num i - 1, free_size := free_size i + B\<rparr>) h2)
         | (False, True) \<Rightarrow>
             (let n = the nxt;
                  h1 = upd_head p (\<lambda>b. b\<lparr>bh_size := bh_size b + (bh_size (heads h n) + B),
                                         bh_next := bh_next (heads h n),
                                         bh_is_alloced := False, bh_owner_tcb := None\<rparr>) h;
                  h2 = (case bh_next (heads h1 p) of
                          None \<Rightarrow> h1
                        | Some n' \<Rightarrow> upd_head n' (\<lambda>b. b\<lparr>bh_prev := Some p\<rparr>) h1)
              in upd_info (\<lambda>i. i\<lparr>block_num := block_num i - 1, free_size := free_size i + B\<rparr>) h2)
         | (True, True) \<Rightarrow>
             (let q = the prv; n = the nxt; nn = bh_next (heads h n);
                  h1 = upd_head q (\<lambda>b. b\<lparr>bh_next := nn,
                                         bh_size := bh_size b + (psize + bh_size (heads h n) + 2 * B)\<rparr>) h;
                  h2 = (case nn of None \<Rightarrow> h1 | Some n' \<Rightarrow> upd_head n' (\<lambda>b. b\<lparr>bh_prev := prv\<rparr>) h1)
              in upd_info (\<lambda>i. i\<lparr>free_num := free_num i - 1, block_num := block_num i - 2,
                                 free_size := free_size i + 2 * B\<rparr>) h2))"

definition free :: "addr \<Rightarrow> heap \<Rightarrow> heap option" where
  "free usr_p h =
     (if usr_p < heap_start (G_sys_heap h) \<or>
         usr_p \<ge> heap_start (G_sys_heap h) + unat (heap_size (G_sys_heap h))
      then Some h
      else case free_find (heads h) (usr_p - sizeof_BLOCK_HEAD) (heap_start (G_sys_heap h)) of
             None \<Rightarrow> None
           | Some None \<Rightarrow> Some h
           | Some (Some p) \<Rightarrow> Some (free_block p h))"

definition realloc :: "ptr \<Rightarrow> uint32 \<Rightarrow> ptr \<Rightarrow> heap \<Rightarrow> (ptr \<times> heap) option" where
  "realloc pBlock newSize current h =
     (if newSize = 0
      then (case pBlock of
              None \<Rightarrow> Some (None, h)
            | Some b \<Rightarrow> map_option (\<lambda>h'. (None, h')) (free b h))
      else case malloc newSize current h of
             None \<Rightarrow> None
           | Some (p, h') \<Rightarrow>
               (case pBlock of
                  None \<Rightarrow> Some (Some p, h')
                | Some b \<Rightarrow>
                    map_option (\<lambda>h2. (Some p, h2))
                      (free b (h'\<lparr>bytes := bcopy b p (sint newSize) (bytes h')\<rparr>))))"

text \<open>\<^verbatim>\<open>memH_free\<close>: restart the search after every block that is freed.\<close>

partial_function (option) owner_find :: "(addr \<Rightarrow> BLOCK_HEAD) \<Rightarrow> ptr \<Rightarrow> ptr \<Rightarrow> ptr option" where
  "owner_find bl pTcb p =
     (case p of
        None \<Rightarrow> Some None
      | Some a \<Rightarrow> if bh_owner_tcb (bl a) = pTcb then Some (Some a) else owner_find bl pTcb (bh_next (bl a)))"

partial_function (option) memH_free :: "ptr \<Rightarrow> heap \<Rightarrow> heap option" where
  "memH_free pTcb h =
     (case owner_find (heads h) pTcb (Some (heap_start (G_sys_heap h))) of
        None \<Rightarrow> None
      | Some None \<Rightarrow> Some h
      | Some (Some a) \<Rightarrow>
          (case free (a + sizeof_BLOCK_HEAD) h of None \<Rightarrow> None | Some h' \<Rightarrow> memH_free pTcb h'))"


section \<open>The chain as a list of blocks\<close>

datatype blk = Blk (bsz: nat) (alloced: bool) (owner: ptr)

fun span :: "blk list \<Rightarrow> nat" where
  "span [] = 0"
| "span (b # bs) = sizeof_BLOCK_HEAD + bsz b + span bs"

definition blk_head :: "ptr \<Rightarrow> ptr \<Rightarrow> blk \<Rightarrow> BLOCK_HEAD" where
  "blk_head pv nx b = \<lparr>bh_prev = pv, bh_next = nx, bh_size = of_nat (bsz b),
     bh_is_alloced = alloced b, bh_owner_tcb = owner b\<rparr>"

lemma blk_head_simps [simp]:
  "bh_prev (blk_head pv nx b) = pv" "bh_next (blk_head pv nx b) = nx"
  "bh_size (blk_head pv nx b) = of_nat (bsz b)" "bh_is_alloced (blk_head pv nx b) = alloced b"
  "bh_owner_tcb (blk_head pv nx b) = owner b"
  "blk_head pv nx b\<lparr>bh_prev := pv'\<rparr> = blk_head pv' nx b"
  "blk_head pv nx b\<lparr>bh_next := nx'\<rparr> = blk_head pv nx' b"
  by (simp_all add: blk_head_def)

text \<open>
  \<open>chain bl pv a bs nx\<close>: from address \<open>a\<close> on, the blocks \<open>bs\<close> lie side by side, each
  behind its head; the first head points back to \<open>pv\<close>, the last one forward to \<open>nx\<close>.
\<close>

fun chain :: "(addr \<Rightarrow> BLOCK_HEAD) \<Rightarrow> ptr \<Rightarrow> addr \<Rightarrow> blk list \<Rightarrow> ptr \<Rightarrow> bool" where
  "chain bl pv a [] nx \<longleftrightarrow> True"
| "chain bl pv a (b # bs) nx \<longleftrightarrow>
     bl a = blk_head pv (if bs = [] then nx else Some (a + sizeof_BLOCK_HEAD + bsz b)) b \<and>
     chain bl (Some a) (a + sizeof_BLOCK_HEAD + bsz b) bs nx"

definition last_at :: "ptr \<Rightarrow> addr \<Rightarrow> blk list \<Rightarrow> ptr" where
  "last_at pv a bs = (if bs = [] then pv else Some (a + span (butlast bs)))"

lemma span_append [simp]: "span (xs @ ys) = span xs + span ys"
  by (induction xs) auto

lemma last_at_simps [simp]:
  "last_at pv a [] = pv" "last_at pv a (xs @ [x]) = Some (a + span xs)"
  by (simp_all add: last_at_def)

lemma last_at_Cons [simp]: "last_at pv a (b # bs) = last_at (Some a) (a + sizeof_BLOCK_HEAD + bsz b) bs"
  by (simp add: last_at_def)

lemma chain_append:
  "chain bl pv a (xs @ ys) nx \<longleftrightarrow>
     chain bl pv a xs (if ys = [] then nx else Some (a + span xs)) \<and>
     chain bl (last_at pv a xs) (a + span xs) ys nx"
  by (induction xs arbitrary: pv a) (auto simp: add.assoc)

lemma chain_frame:
  assumes "\<And>p. a \<le> p \<Longrightarrow> p < a + span bs \<Longrightarrow> bl' p = bl p"
  shows "chain bl' pv a bs nx = chain bl pv a bs nx"
  using assms
proof (induction bs arbitrary: a pv)
  case (Cons b bs)
  have "bl' a = bl a" using Cons.prems [of a] by simp
  moreover have "chain bl' (Some a) (a + 20 + bsz b) bs nx = chain bl (Some a) (a + 20 + bsz b) bs nx"
    by (rule Cons.IH) (use Cons.prems in auto)
  ultimately show ?case by simp
qed simp

text \<open>Only the back pointer of the first block changes.\<close>

lemma chain_set_prev:
  assumes "chain bl pv a bs nx" and "bs \<noteq> []"
    and "bl' a = bl a\<lparr>bh_prev := pv'\<rparr>"
    and "\<And>p. a < p \<Longrightarrow> p < a + span bs \<Longrightarrow> bl' p = bl p"
  shows "chain bl' pv' a bs nx"
proof -
  obtain b cs where bs: "bs = b # cs" using assms(2) by (cases bs) auto
  have "chain bl' (Some a) (a + 20 + bsz b) cs nx = chain bl (Some a) (a + 20 + bsz b) cs nx"
    by (rule chain_frame) (use assms(4) bs in auto)
  then show ?thesis using assms(1,3) by (simp add: bs)
qed

text \<open>The invariant: the blocks tile the heap, the totals are right, no two free
  blocks touch, sizes are multiples of four, free blocks have no owner, and the last
  block is not empty (an empty one would start at the end of the heap, where
  \<^verbatim>\<open>free\<close> refuses the pointer).\<close>

definition alloced_blks :: "blk list \<Rightarrow> blk list" where
  "alloced_blks bs = filter alloced bs"

definition free_blks :: "blk list \<Rightarrow> blk list" where
  "free_blks bs = filter (\<lambda>b. \<not> alloced b) bs"

lemmas blks_defs = alloced_blks_def free_blks_def

definition total :: "blk list \<Rightarrow> nat" where
  "total bs = sum_list (map bsz bs)"

lemma total_simps [simp]: "total [] = 0" "total (b # bs) = bsz b + total bs" "total (bs @ cs) = total bs + total cs"
  by (simp_all add: total_def)

definition info_ok :: "HEAP_INFO \<Rightarrow> blk list \<Rightarrow> bool" where
  "info_ok i bs \<longleftrightarrow>
     heap_start i = CONFIG_MEM_HEAP_LOW \<and> heap_size i = CONFIG_MEM_HEAP_SIZE \<and>
     block_num i = of_nat (length bs) \<and>
     alloced_num i = of_nat (length (alloced_blks bs)) \<and>
     alloced_size i = of_nat (total (alloced_blks bs)) \<and>
     free_num i = of_nat (length (free_blks bs)) \<and>
     free_size i = of_nat (total (free_blks bs))"

definition blks_ok :: "blk list \<Rightarrow> bool" where
  "blks_ok bs \<longleftrightarrow>
     span bs = unat CONFIG_MEM_HEAP_SIZE \<and>
     (\<forall>b \<in> set bs. 4 dvd bsz b \<and> (\<not> alloced b \<longrightarrow> owner b = None)) \<and>
     successively (\<lambda>b c. alloced b \<or> alloced c) bs \<and> 4 \<le> bsz (last bs)"

definition heap_holds :: "heap \<Rightarrow> blk list \<Rightarrow> bool" where
  "heap_holds h bs \<longleftrightarrow>
     chain (heads h) None CONFIG_MEM_HEAP_LOW bs None \<and> info_ok (G_sys_heap h) bs \<and> blks_ok bs"

lemma heap_init_holds:
  "heap_holds (heap_init h) [Blk (unat CONFIG_MEM_HEAP_SIZE - sizeof_BLOCK_HEAD) False None]"
  by (simp add: heap_holds_def heap_init_def info_ok_def blks_ok_def blks_defs blk_head_def)

section \<open>Specification on block lists\<close>

definition fits :: "nat \<Rightarrow> blk \<Rightarrow> bool" where
  "fits n b \<longleftrightarrow> \<not> alloced b \<and> n \<le> bsz b"

text \<open>First fit: the block is split when the rest can hold a head and four bytes.\<close>

definition carve :: "nat \<Rightarrow> ptr \<Rightarrow> blk \<Rightarrow> blk list" where
  "carve n t b =
     (if n + sizeof_BLOCK_HEAD + 4 \<le> bsz b
      then [Blk n True t, Blk (bsz b - n - sizeof_BLOCK_HEAD) False None]
      else [Blk (bsz b) True t])"

text \<open>Freeing: the block joins free neighbours.\<close>

definition join_left :: "blk list \<Rightarrow> blk \<Rightarrow> blk list" where
  "join_left xs b =
     (if xs \<noteq> [] \<and> \<not> alloced (last xs)
      then butlast xs @ [Blk (bsz (last xs) + sizeof_BLOCK_HEAD + bsz b) False None]
      else xs @ [Blk (bsz b) False None])"

definition join_right :: "blk list \<Rightarrow> blk list \<Rightarrow> blk list" where
  "join_right xs ys =
     (if xs \<noteq> [] \<and> ys \<noteq> [] \<and> \<not> alloced (hd ys)
      then butlast xs @ Blk (bsz (last xs) + sizeof_BLOCK_HEAD + bsz (hd ys)) False None # tl ys
      else xs @ ys)"

definition release :: "blk list \<Rightarrow> blk \<Rightarrow> blk list \<Rightarrow> blk list" where
  "release xs b ys = join_right (join_left xs b) ys"

lemma chain_find:
  assumes "chain bl pv a (xs @ b # ys) None" and "\<forall>x \<in> set xs. \<not> fits (unat n) x" and "fits (unat n) b"
    and "span (xs @ b # ys) < 2 ^ 32"
  shows "malloc_find bl n a = Some (a + span xs)"
  using assms
proof (induction xs arbitrary: pv a)
  case Nil
  then show ?case
    by (subst malloc_find.simps) (simp add: fits_def word_less_nat_alt)
next
  case (Cons x xs)
  have "bsz x < 2 ^ 32" using Cons.prems(4) by simp
  with Cons.prems(1,2) have "bh_is_alloced (bl a) \<or> bh_size (bl a) < n"
    by (auto simp: fits_def word_less_nat_alt)
  moreover have "malloc_find bl n (a + 20 + bsz x) = Some (a + 20 + bsz x + span xs)"
    by (rule Cons.IH) (use Cons.prems in auto)
  moreover have "bh_next (bl a) = Some (a + 20 + bsz x)" using Cons.prems(1) by simp
  ultimately show ?case by (subst malloc_find.simps) (simp add: add.assoc)
qed

lemma chain_find_none:
  assumes "chain bl pv a bs None" and "\<forall>x \<in> set bs. \<not> fits (unat n) x" and "bs \<noteq> []"
    and "span bs < 2 ^ 32"
  shows "malloc_find bl n a = None"
  using assms
proof (induction bs arbitrary: pv a)
  case (Cons x xs)
  have "bsz x < 2 ^ 32" using Cons.prems(4) by simp
  with Cons.prems(1,2) have c: "bh_is_alloced (bl a) \<or> bh_size (bl a) < n"
    by (auto simp: fits_def word_less_nat_alt)
  show ?case
  proof (cases "xs = []")
    case True
    with c Cons.prems(1) show ?thesis by (subst malloc_find.simps) simp
  next
    case False
    then have "malloc_find bl n (a + 20 + bsz x) = None"
      by (intro Cons.IH) (use Cons.prems in auto)
    with c False Cons.prems(1) show ?thesis by (subst malloc_find.simps) simp
  qed
qed simp

lemma chain_free_find:
  assumes "chain bl pv a (xs @ b # ys) None"
  shows "free_find bl (a + span xs) a = Some (Some (a + span xs))"
  using assms
proof (induction xs arbitrary: pv a)
  case Nil
  then show ?case by (subst free_find.simps) simp
next
  case (Cons x xs)
  have "free_find bl (a + 20 + bsz x + span xs) (a + 20 + bsz x) = Some (Some (a + 20 + bsz x + span xs))"
    by (rule Cons.IH) (use Cons.prems in auto)
  moreover have "bh_next (bl a) = Some (a + 20 + bsz x)" using Cons.prems(1) by simp
  ultimately show ?case by (subst free_find.simps) (simp add: add.assoc)
qed


lemma split_condition:
  fixes n :: uint32
  assumes "unat n \<le> m" and "m < 2 ^ 31"
  shows "sint DEFAULT_ALIGN_BYTE \<le> sint (of_nat m - (n + of_nat sizeof_BLOCK_HEAD))
           \<longleftrightarrow> unat n + sizeof_BLOCK_HEAD + 4 \<le> m"
proof -
  define k where "k = unat n"
  have n: "n = of_nat k" by (simp add: k_def)
  have "of_nat m - (n + of_nat sizeof_BLOCK_HEAD) = (word_of_int (int m - int k - 20) :: uint32)"
    by (simp add: n)
  moreover have "sint (word_of_int (int m - int k - 20) :: uint32) = int m - int k - 20"
    by (subst signed_of_int)
      (use assms in \<open>simp add: signed_take_bit_int_eq_self_iff flip: k_def\<close>)
  ultimately show ?thesis unfolding k_def [symmetric] by (auto simp: diff_diff_eq)
qed

lemma need_size_nat: "unat n + sizeof_BLOCK_HEAD < 2 ^ 32 \<Longrightarrow> unat (n + of_nat sizeof_BLOCK_HEAD) = unat n + sizeof_BLOCK_HEAD"
  for n :: uint32
  by (simp add: unat_word_ariths)

lemma malloc_take_chain:
  assumes c: "chain (heads h) None a (xs @ b # ys) None" and f: "fits (unat n) b"
    and s: "span (xs @ b # ys) < 2 ^ 31" "a + span (xs @ b # ys) < 2 ^ 32"
  shows "chain (heads (malloc_take n t (a + span xs) h)) None a (xs @ carve (unat n) t b @ ys) None"
proof -
  define p where "p = a + span xs"
  let ?h' = "malloc_take n t p h" and ?q = "p + 20 + bsz b"
  have nb: "unat n \<le> bsz b" "\<not> alloced b" using f by (auto simp: fits_def)
  have x: "chain (heads h) None a xs (Some p)" and y: "chain (heads h) (Some p) ?q ys None"
    and p: "heads h p = blk_head (last_at None a xs) (if ys = [] then None else Some ?q) b"
    using c by (simp_all add: chain_append p_def)
  have cond: "4 \<le> sint (of_nat (bsz b) - (n + 20)) \<longleftrightarrow> unat n + 24 \<le> bsz b"
    using split_condition [of n "bsz b"] nb s by (simp add: add.commute)
  have "chain (heads ?h') None a (xs @ carve (unat n) t b @ ys) None"
  proof (cases "unat n + 24 \<le> bsz b")
    case True
    define np where "np = p + 20 + unat n"
    define r where "r = bsz b - unat n - 20"
    have q: "np + 20 + r = ?q" using True by (simp add: np_def r_def)
    have np: "(p + unat (n + 20)) mod 2 ^ 32 = np"
      using need_size_nat [of n] True s by (simp add: np_def p_def)
    have rest: "of_nat (bsz b) - (n + 20) = (of_nat r :: uint32)"
      using True by (simp add: r_def)
    have order: "p < np" "np < ?q" using q by (auto simp: np_def)
    define g where "g = (heads h)(np := blk_head (Some p) (if ys = [] then None else Some ?q) (Blk r False None))"
    have heads': "heads ?h' =
        (if ys = [] then g else g(?q := g ?q\<lparr>bh_prev := Some np\<rparr>))
          (p := blk_head (last_at None a xs) (Some np) (Blk (unat n) True t))"
      unfolding malloc_take_def Let_def g_def using True cond [unfolded rest] np order
      by (simp add: p rest) (simp add: blk_head_def)
    have "chain (heads ?h') None a xs (Some p)"
      by (subst chain_frame [where bl = "heads h"]) (use x order in \<open>auto simp: heads' g_def simp flip: p_def\<close>)
    moreover have "chain (heads ?h') (Some np) ?q ys None"
    proof (cases "ys = []")
      case False
      show ?thesis
        by (rule chain_set_prev [OF y]) (use False order in \<open>auto simp: heads' g_def\<close>)
    qed simp
    moreover have "heads ?h' p = blk_head (last_at None a xs) (Some np) (Blk (unat n) True t)"
      "heads ?h' np = blk_head (Some p) (if ys = [] then None else Some ?q) (Blk r False None)"
      using order by (auto simp: heads' g_def)
    moreover have "carve (unat n) t b = [Blk (unat n) True t, Blk r False None]"
      using True by (simp add: carve_def r_def)
    ultimately show ?thesis by (simp add: chain_append q flip: p_def np_def)
  next
    case False
    then have heads': "heads ?h' = (heads h)(p := blk_head (last_at None a xs)
        (if ys = [] then None else Some ?q) (Blk (bsz b) True t))"
      unfolding malloc_take_def Let_def using cond by (simp add: p) (simp add: blk_head_def)
    have "chain (heads ?h') None a xs (Some p)"
      by (subst chain_frame [where bl = "heads h"]) (use x in \<open>auto simp: heads' simp flip: p_def\<close>)
    moreover have "chain (heads ?h') (Some p) ?q ys None"
      by (subst chain_frame [where bl = "heads h"]) (use y in \<open>auto simp: heads'\<close>)
    moreover have "heads ?h' p = blk_head (last_at None a xs) (if ys = [] then None else Some ?q) (Blk (bsz b) True t)"
      by (simp add: heads')
    ultimately show ?thesis using False
      by (simp add: carve_def chain_append flip: p_def)
  qed
  then show ?thesis by (simp add: p_def)
qed

lemma malloc_take_info:
  assumes i: "info_ok (G_sys_heap h) (xs @ b # ys)" and f: "fits (unat n) b" and s: "bsz b < 2 ^ 31"
    and p: "bh_size (heads h p) = of_nat (bsz b)"
  shows "info_ok (G_sys_heap (malloc_take n t p h)) (xs @ carve (unat n) t b @ ys)"
  using i f s p split_condition [of n "bsz b"]
  by (auto simp: info_ok_def blks_defs malloc_take_def Let_def carve_def fits_def of_nat_diff split: option.splits)

lemma carve_ok:
  assumes "blks_ok (xs @ b # ys)" and "fits n b" and "4 dvd n"
  shows "blks_ok (xs @ carve n t b @ ys)"
proof -
  have "n + 24 \<le> bsz b \<Longrightarrow> 4 dvd bsz b \<Longrightarrow> 4 dvd bsz b - n - 20"
    using assms(3) by (intro dvd_diff_nat) auto
  then show ?thesis
    using assms
    by (auto simp: blks_ok_def carve_def fits_def successively_append_iff successively_Cons)
qed


text \<open>One block \<open>c\<close> takes the place of the blocks between two stretches that stay.\<close>

lemma chain_splice:
  assumes x: "chain bl pv a xs (Some p)" and p: "p = a + span xs"
    and y: "chain bl pv' q ys None" and q: "q = p + sizeof_BLOCK_HEAD + bsz c"
    and new: "bl' p = blk_head (last_at pv a xs) (if ys = [] then None else Some q) c"
    and bk: "ys \<noteq> [] \<Longrightarrow> bl' q = bl q\<lparr>bh_prev := Some p\<rparr>"
    and low: "\<And>z. z < p \<Longrightarrow> bl' z = bl z" and high: "\<And>z. q < z \<Longrightarrow> bl' z = bl z"
  shows "chain bl' pv a (xs @ c # ys) None"
proof -
  have "chain bl' pv a xs (Some p)"
    by (subst chain_frame [where bl = bl]) (use x low in \<open>auto simp: p\<close>)
  moreover have "chain bl' (Some p) q ys None"
  proof (cases "ys = []")
    case False
    then show ?thesis by (intro chain_set_prev [OF y]) (use bk high in auto)
  qed simp
  ultimately show ?thesis using new by (simp add: chain_append flip: p q)
qed

lemma release_simps:
  "release xs b ys =
     (case (xs \<noteq> [] \<and> \<not> alloced (last xs), ys \<noteq> [] \<and> \<not> alloced (hd ys)) of
        (False, False) \<Rightarrow> xs @ Blk (bsz b) False None # ys
      | (True, False) \<Rightarrow> butlast xs @ Blk (bsz (last xs) + sizeof_BLOCK_HEAD + bsz b) False None # ys
      | (False, True) \<Rightarrow> xs @ Blk (bsz b + sizeof_BLOCK_HEAD + bsz (hd ys)) False None # tl ys
      | (True, True) \<Rightarrow> butlast xs @
          Blk (bsz (last xs) + sizeof_BLOCK_HEAD + bsz b + sizeof_BLOCK_HEAD + bsz (hd ys)) False None # tl ys)"
  by (auto simp: release_def join_left_def join_right_def split: bool.splits)

lemma chain_at:
  assumes "chain bl pv a (xs @ b # ys) None"
  shows "bl (a + span xs) = blk_head (last_at pv a xs)
           (if ys = [] then None else Some (a + span xs + sizeof_BLOCK_HEAD + bsz b)) b"
  using assms by (simp add: chain_append)

lemma can_merge:
  assumes "chain bl None a (xs @ b # ys) None"
  shows "CAN_MERGE bl (last_at None a xs) \<longleftrightarrow> xs \<noteq> [] \<and> \<not> alloced (last xs)"
    and "CAN_MERGE bl (if ys = [] then None else Some (a + span xs + sizeof_BLOCK_HEAD + bsz b))
           \<longleftrightarrow> ys \<noteq> [] \<and> \<not> alloced (hd ys)"
proof -
  show "CAN_MERGE bl (last_at None a xs) \<longleftrightarrow> xs \<noteq> [] \<and> \<not> alloced (last xs)"
    using assms by (cases xs rule: rev_cases) (simp_all add: CAN_MERGE_def chain_append)
  show "CAN_MERGE bl (if ys = [] then None else Some (a + span xs + sizeof_BLOCK_HEAD + bsz b))
      \<longleftrightarrow> ys \<noteq> [] \<and> \<not> alloced (hd ys)"
    using assms by (cases ys) (simp_all add: CAN_MERGE_def chain_append)
qed

lemma free_block_chain:
  assumes c: "chain (heads h) None a (xs @ b # ys) None"
    and ow: "\<forall>x \<in> set xs. \<not> alloced x \<longrightarrow> owner x = None"
  shows "chain (heads (free_block (a + span xs) h)) None a (release xs b ys) None"
proof -
  define p where "p = a + span xs"
  let ?h' = "free_block p h" and ?q = "p + 20 + bsz b"
  have x: "chain (heads h) None a xs (Some p)" and y: "chain (heads h) (Some p) ?q ys None"
    and at_p: "heads h p = blk_head (last_at None a xs) (if ys = [] then None else Some ?q) b"
    using c by (simp_all add: chain_append p_def)
  define nx where "nx = (if ys = [] then None else Some ?q)"
  have p: "heads h p = blk_head (last_at None a xs) nx b" by (simp add: at_p nx_def)
  have m: "CAN_MERGE (heads h) (last_at None a xs) \<longleftrightarrow> xs \<noteq> [] \<and> \<not> alloced (last xs)"
    "CAN_MERGE (heads h) nx \<longleftrightarrow> ys \<noteq> [] \<and> \<not> alloced (hd ys)"
    using can_merge [OF c] by (simp_all only: p_def nx_def)
  consider (none) "\<not> (xs \<noteq> [] \<and> \<not> alloced (last xs))" "\<not> (ys \<noteq> [] \<and> \<not> alloced (hd ys))"
    | (left) zs z where "xs = zs @ [z]" "\<not> alloced z" "\<not> (ys \<noteq> [] \<and> \<not> alloced (hd ys))"
    | (right) w ws where "\<not> (xs \<noteq> [] \<and> \<not> alloced (last xs))" "ys = w # ws" "\<not> alloced w"
    | (both) zs z w ws where "xs = zs @ [z]" "\<not> alloced z" "ys = w # ws" "\<not> alloced w"
    by (metis append_butlast_last_id list.collapse)
  then have "chain (heads ?h') None a (release xs b ys) None"
  proof cases
    case none
    have "heads ?h' = (heads h)(p := blk_head (last_at None a xs) (if ys = [] then None else Some ?q)
                                   (Blk (bsz b) False None))"
      using none m by (auto simp: free_block_def p Let_def) (auto simp: blk_head_def nx_def)
    moreover have "ys \<noteq> [] \<Longrightarrow> heads h ?q = heads h ?q\<lparr>bh_prev := Some p\<rparr>"
      using y by (cases ys) auto
    ultimately have "chain (heads ?h') None a (xs @ Blk (bsz b) False None # ys) None"
      by (intro chain_splice [OF x p_def y]) auto
    with none show ?thesis by (auto simp: release_simps split: bool.splits)
  next
    case left
    define u where "u = a + span zs"
    have pu: "p = u + 20 + bsz z" by (simp add: p_def u_def left)
    then have order: "u < p" "u \<noteq> ?q" by auto
    have xz: "chain (heads h) None a zs (Some u)" and u: "heads h u = blk_head (last_at None a zs) (Some p) z"
      using x by (simp_all add: left chain_append flip: u_def pu)
    have l: "last_at None a xs = Some u" by (simp add: left u_def)
    have m': "CAN_MERGE (heads h) (Some u)" "\<not> CAN_MERGE (heads h) nx"
      using m [unfolded l] left by auto
    have "heads ?h' =
        (let g = (heads h)(u := blk_head (last_at None a zs) (if ys = [] then None else Some ?q)
                                 (Blk (bsz z + 20 + bsz b) False (owner z)))
         in if ys = [] then g else g(?q := g ?q\<lparr>bh_prev := Some u\<rparr>))"
      using m' left(2) by (simp add: free_block_def p l Let_def u)
        (use left(2) order in \<open>auto simp: nx_def p l u blk_head_def ac_simps\<close>)
    then have "chain (heads ?h') None a (zs @ Blk (bsz z + 20 + bsz b) False (owner z) # ys) None"
      by (intro chain_splice [OF xz u_def y]) (auto simp: pu Let_def)
    moreover have "owner z = None" using ow left by simp
    ultimately show ?thesis using left by (auto simp: release_simps split: bool.splits)
  next
    case right
    define v where "v = ?q + 20 + bsz w"
    have yw: "chain (heads h) (Some ?q) v ws None"
      and w: "heads h ?q = blk_head (Some p) (if ws = [] then None else Some v) w"
      using y by (simp_all add: right v_def)
    have "heads ?h' =
        (let g = (heads h)(p := blk_head (last_at None a xs) (if ws = [] then None else Some v)
                                 (Blk (bsz b + 20 + bsz w) False None))
         in if ws = [] then g else g(v := g v\<lparr>bh_prev := Some p\<rparr>))"
      using right m by (auto simp: free_block_def p w Let_def nx_def)
    then have "chain (heads ?h') None a (xs @ Blk (bsz b + 20 + bsz w) False None # ws) None"
      by (intro chain_splice [OF x p_def yw]) (auto simp: v_def Let_def)
    with right show ?thesis by (auto simp: release_simps split: bool.splits)
  next
    case both
    define u v where "u = a + span zs" and "v = ?q + 20 + bsz w"
    have pu: "p = u + 20 + bsz z" by (simp add: p_def u_def both)
    then have order: "u < p" "u \<noteq> ?q" "u \<noteq> v" by (auto simp: v_def)
    have xz: "chain (heads h) None a zs (Some u)" and u: "heads h u = blk_head (last_at None a zs) (Some p) z"
      using x by (simp_all add: both chain_append flip: u_def pu)
    have yw: "chain (heads h) (Some ?q) v ws None"
      and w: "heads h ?q = blk_head (Some p) (if ws = [] then None else Some v) w"
      using y by (simp_all add: both v_def)
    have l: "last_at None a xs = Some u" by (simp add: both u_def)
    have m': "CAN_MERGE (heads h) (Some u)" "CAN_MERGE (heads h) nx" and nx: "nx = Some ?q"
      using m [unfolded l] both by (auto simp: nx_def)
    have "heads ?h' =
        (let g = (heads h)(u := blk_head (last_at None a zs) (if ws = [] then None else Some v)
                                 (Blk (bsz z + 20 + bsz b + 20 + bsz w) False (owner z)))
         in if ws = [] then g else g(v := g v\<lparr>bh_prev := Some u\<rparr>))"
      using m' both(2) by (simp add: free_block_def p l u nx w Let_def)
        (use both(2) order in \<open>auto simp: p l u w blk_head_def ac_simps\<close>)
    then have "chain (heads ?h') None a (zs @ Blk (bsz z + 20 + bsz b + 20 + bsz w) False (owner z) # ws) None"
      by (intro chain_splice [OF xz u_def yw]) (auto simp: v_def pu Let_def)
    moreover have "owner z = None" using ow both by simp
    ultimately show ?thesis using both by (auto simp: release_simps split: bool.splits)
  qed
  then show ?thesis by (simp add: p_def)
qed


lemma free_block_info:
  assumes c: "chain (heads h) None a (xs @ b # ys) None" and i: "info_ok (G_sys_heap h) (xs @ b # ys)"
    and al: "alloced b"
  shows "info_ok (G_sys_heap (free_block (a + span xs) h)) (release xs b ys)"
proof -
  define p where "p = a + span xs"
  define nx where "nx = (if ys = [] then None else Some (p + 20 + bsz b))"
  have p: "heads h p = blk_head (last_at None a xs) nx b"
    using chain_at [OF c] by (simp only: p_def nx_def)
  have m: "CAN_MERGE (heads h) (last_at None a xs) \<longleftrightarrow> xs \<noteq> [] \<and> \<not> alloced (last xs)"
    "CAN_MERGE (heads h) nx \<longleftrightarrow> ys \<noteq> [] \<and> \<not> alloced (hd ys)"
    using can_merge [OF c] by (simp_all only: p_def nx_def)
  have "info_ok (G_sys_heap (free_block p h)) (release xs b ys)"
    using i al m
    by (cases xs rule: rev_cases; cases ys)
      (auto simp: info_ok_def blks_defs release_simps free_block_def p Let_def split: bool.splits option.splits)
  then show ?thesis by (simp add: p_def)
qed

lemma release_ok:
  assumes "blks_ok (xs @ b # ys)"
  shows "blks_ok (release xs b ys)"
  using assms
  by (cases xs rule: rev_cases; cases ys)
    (auto simp: blks_ok_def release_simps successively_append_iff successively_Cons split: bool.splits)

section \<open>The allocator refines its specification\<close>

lemma align_up_shift: "align_up n = push_bit 2 (drop_bit 2 (n + 3))"
proof (rule bit_word_eqI)
  fix k :: nat
  assume "k < LENGTH(32)"
  moreover have "k < 2 \<or> Suc (Suc (k - 2)) = k" by arith
  moreover have "align_up n = (n + 3) AND NOT (mask 2)"
    by (simp add: align_up_def mask_eq_exp_minus_1)
  ultimately show "bit (align_up n) k = bit (push_bit 2 (drop_bit 2 (n + 3))) k"
    by (auto simp: bit_simps not_less)
qed

lemma align_up_dvd: "4 dvd unat (align_up n)"
proof -
  have "(4 :: nat) dvd 2 ^ 32" by simp
  then show ?thesis
    by (simp add: align_up_shift unsigned_push_bit_eq push_bit_nat_def take_bit_nat_def dvd_mod)
qed

lemma align_up_nat:
  assumes "unat n + 3 < 2 ^ 32"
  shows "unat (align_up n) = (unat n + 3) div 4 * 4"
proof -
  have "unat (n + 3) = unat n + 3"
    using assms by (simp add: unat_word_ariths)
  then have "unat (drop_bit 2 (n + 3)) = (unat n + 3) div 4"
    using assms by (simp add: unsigned_drop_bit_eq drop_bit_nat_def take_bit_nat_eq_self)
  moreover have "(unat n + 3) div 4 * 4 < 2 ^ 32" using assms by simp
  ultimately show ?thesis
    by (simp add: align_up_shift unsigned_push_bit_eq push_bit_nat_def take_bit_nat_def)
qed

text \<open>The specification of \<^verbatim>\<open>malloc\<close>: the first block that is big enough.\<close>

fun first_fit :: "nat \<Rightarrow> ptr \<Rightarrow> addr \<Rightarrow> blk list \<Rightarrow> (addr \<times> blk list) option" where
  "first_fit n t a [] = None"
| "first_fit n t a (b # bs) =
     (if fits n b then Some (a + sizeof_BLOCK_HEAD, carve n t b @ bs)
      else map_option (\<lambda>(p, cs). (p, b # cs)) (first_fit n t (a + sizeof_BLOCK_HEAD + bsz b) bs))"

lemma first_fit_Some:
  "first_fit n t a bs = Some (p, cs) \<Longrightarrow>
     \<exists>xs b ys. bs = xs @ b # ys \<and> (\<forall>x \<in> set xs. \<not> fits n x) \<and> fits n b \<and>
       p = a + span xs + sizeof_BLOCK_HEAD \<and> cs = xs @ carve n t b @ ys"
proof (induction bs arbitrary: a p cs)
  case (Cons c bs)
  show ?case
  proof (cases "fits n c")
    case True
    with Cons.prems show ?thesis by (intro exI [of _ "[]"]) auto
  next
    case False
    with Cons.prems obtain cs' where "first_fit n t (a + 20 + bsz c) bs = Some (p, cs')" and cs: "cs = c # cs'"
      by auto
    from Cons.IH [OF this(1)] obtain xs b ys where *: "bs = xs @ b # ys" "\<forall>x \<in> set xs. \<not> fits n x"
      "fits n b" "p = a + 20 + bsz c + span xs + sizeof_BLOCK_HEAD" "cs' = xs @ carve n t b @ ys" by blast
    with False cs show ?thesis
      by (intro exI [of _ "c # xs"] exI [of _ b] exI [of _ ys]) auto
  qed
qed simp

lemma first_fit_None: "first_fit n t a bs = None \<longleftrightarrow> (\<forall>b \<in> set bs. \<not> fits n b)"
  by (induction bs arbitrary: a) auto

lemma heap_holds_D:
  assumes "heap_holds h bs"
  shows "chain (heads h) None CONFIG_MEM_HEAP_LOW bs None" "info_ok (G_sys_heap h) bs" "blks_ok bs"
    "heap_start (G_sys_heap h) = CONFIG_MEM_HEAP_LOW" "heap_size (G_sys_heap h) = CONFIG_MEM_HEAP_SIZE"
    "span bs = unat CONFIG_MEM_HEAP_SIZE" "bs \<noteq> []"
  using assms by (auto simp: heap_holds_def info_ok_def blks_ok_def)

lemma malloc_take_bytes: "bytes (malloc_take n t p h) = bytes h"
  by (simp add: malloc_take_def Let_def split: option.splits)

lemma malloc_refines_fit:
  assumes h: "heap_holds h (xs @ b # ys)" and n: "\<forall>x \<in> set xs. \<not> fits (unat (align_up nbytes)) x"
    and f: "fits (unat (align_up nbytes)) b"
  shows "\<exists>h'. malloc nbytes t h = Some (CONFIG_MEM_HEAP_LOW + span xs + sizeof_BLOCK_HEAD, h') \<and>
           heap_holds h' (xs @ carve (unat (align_up nbytes)) t b @ ys) \<and> bytes h' = bytes h"
proof -
  note d = heap_holds_D [OF h]
  let ?p = "CONFIG_MEM_HEAP_LOW + span xs" and ?n = "align_up nbytes"
  have sp: "span (xs @ b # ys) < 2 ^ 31" "CONFIG_MEM_HEAP_LOW + span (xs @ b # ys) < 2 ^ 32" "bsz b < 2 ^ 31"
    using d(6) by simp_all
  have "malloc_find (heads h) ?n CONFIG_MEM_HEAP_LOW = Some ?p"
    using sp by (intro chain_find [OF d(1) n f]) simp
  moreover have "heap_holds (malloc_take ?n t ?p h) (xs @ carve (unat ?n) t b @ ys)"
    unfolding heap_holds_def
    using malloc_take_chain [OF d(1) f sp(1,2)] malloc_take_info [OF d(2) f sp(3)]
      carve_ok [OF d(3) f align_up_dvd] chain_at [OF d(1)] by simp
  ultimately show ?thesis
    by (simp add: malloc_def d(4) malloc_take_bytes)
qed

lemma malloc_spins:
  assumes h: "heap_holds h bs" and n: "\<forall>x \<in> set bs. \<not> fits (unat (align_up nbytes)) x"
  shows "malloc nbytes t h = None"
proof -
  note d = heap_holds_D [OF h]
  have "malloc_find (heads h) (align_up nbytes) CONFIG_MEM_HEAP_LOW = None"
    by (rule chain_find_none [OF d(1) n d(7)]) (simp add: d(6))
  then show ?thesis by (simp add: malloc_def d(4))
qed

lemma free_releases:
  assumes h: "heap_holds h (xs @ b # ys)" and al: "alloced b"
  shows "\<exists>h'. free (CONFIG_MEM_HEAP_LOW + span xs + sizeof_BLOCK_HEAD) h = Some h' \<and>
           heap_holds h' (release xs b ys) \<and> bytes h' = bytes h"
proof -
  note d = heap_holds_D [OF h]
  let ?p = "CONFIG_MEM_HEAP_LOW + span xs"
  have "free_find (heads h) ?p CONFIG_MEM_HEAP_LOW = Some (Some ?p)"
    by (rule chain_free_find [OF d(1)])
  moreover have "heap_holds (free_block ?p h) (release xs b ys)"
    unfolding heap_holds_def
    using free_block_chain [OF d(1)] free_block_info [OF d(1,2) al] release_ok [OF d(3)] d(3)
    by (simp add: blks_ok_def)
  moreover have "bytes (free_block ?p h) = bytes h"
    by (simp add: free_block_def Let_def split: bool.splits option.splits)
  moreover have "span xs + sizeof_BLOCK_HEAD < unat CONFIG_MEM_HEAP_SIZE"
    using d(3,6) by (cases ys) (auto simp: blks_ok_def)
  ultimately show ?thesis
    by (simp add: free_def d(4,5))
qed


section \<open>Regions in use and the allocator contract\<close>

text \<open>The regions handed out: user address, size in bytes, owner.\<close>

type_synonym region = "addr \<times> nat \<times> ptr"

fun regions :: "addr \<Rightarrow> blk list \<Rightarrow> region set" where
  "regions a [] = {}"
| "regions a (b # bs) =
     (if alloced b then {(a + sizeof_BLOCK_HEAD, bsz b, owner b)} else {}) \<union>
     regions (a + sizeof_BLOCK_HEAD + bsz b) bs"

definition apart :: "region \<Rightarrow> region \<Rightarrow> bool" where
  "apart r s \<longleftrightarrow> fst r + fst (snd r) \<le> fst s \<or> fst s + fst (snd s) \<le> fst r"

text \<open>
  What the clients of the heap rely on: a successful request yields a region at least
  as large as asked for, apart from every region in use; giving a region back removes
  exactly that region; a pointer that is not in use as a region start is ignored by a
  release when it lies outside of every block.
\<close>

locale allocator =
  fixes holds :: "'s \<Rightarrow> region set \<Rightarrow> bool"
    and alloc :: "uint32 \<Rightarrow> ptr \<Rightarrow> 's \<Rightarrow> (addr \<times> 's) option"
    and dealloc :: "addr \<Rightarrow> 's \<Rightarrow> 's option"
  assumes alloc_law: "holds s R \<Longrightarrow> alloc n t s = Some (p, s') \<Longrightarrow> unat n + 3 < 2 ^ 32 \<Longrightarrow>
      \<exists>k. unat n \<le> k \<and> holds s' (insert (p, k, t) R) \<and> (p, k, t) \<notin> R \<and> (\<forall>r \<in> R. apart (p, k, t) r)"
    and dealloc_law: "holds s R \<Longrightarrow> (p, k, t) \<in> R \<Longrightarrow>
      \<exists>s'. dealloc p s = Some s' \<and> holds s' (R - {(p, k, t)})"
begin

lemma alloc_keeps_apart:
  assumes "holds s R" and "pairwise apart R" and "alloc n t s = Some (p, s')" and "unat n + 3 < 2 ^ 32"
  shows "\<exists>R'. holds s' R' \<and> R \<subseteq> R' \<and> pairwise apart R'"
proof -
  from alloc_law [OF assms(1,3,4)] obtain k where "holds s' (insert (p, k, t) R)"
    and "\<forall>r \<in> R. apart (p, k, t) r" by blast
  then show ?thesis using assms(2)
    by (intro exI [of _ "insert (p, k, t) R"]) (auto simp: pairwise_insert apart_def)
qed

lemma alloc_dealloc:
  assumes "holds s R" and "alloc n t s = Some (p, s')" and "unat n + 3 < 2 ^ 32"
  shows "\<exists>s''. dealloc p s' = Some s'' \<and> holds s'' R"
proof -
  from alloc_law [OF assms] obtain k where h: "holds s' (insert (p, k, t) R)" and new: "(p, k, t) \<notin> R"
    by blast
  from dealloc_law [OF h, of p k t] new show ?thesis by simp
qed

end

lemma regions_append: "regions a (xs @ ys) = regions a xs \<union> regions (a + span xs) ys"
  by (induction xs arbitrary: a) (auto simp: add.assoc)

lemma regions_bounds:
  "(p, k, t) \<in> regions a bs \<Longrightarrow> a + sizeof_BLOCK_HEAD \<le> p \<and> p + k \<le> a + span bs"
proof (induction bs arbitrary: a)
  case (Cons b bs)
  then show ?case by (fastforce split: if_splits)
qed simp

lemma regions_split:
  assumes "(p, k, t) \<in> regions a bs"
  shows "\<exists>xs ys. bs = xs @ Blk k True t # ys \<and> p = a + span xs + sizeof_BLOCK_HEAD"
  using assms
proof (induction bs arbitrary: a)
  case (Cons b bs)
  show ?case
  proof (cases "alloced b \<and> p = a + 20 \<and> k = bsz b \<and> t = owner b")
    case True
    then show ?thesis by (intro exI [of _ "[]"] exI [of _ bs]) (cases b, auto)
  next
    case False
    with Cons.prems have "(p, k, t) \<in> regions (a + 20 + bsz b) bs" by (auto split: if_splits)
    from Cons.IH [OF this] obtain xs ys where "bs = xs @ Blk k True t # ys" "p = a + 20 + bsz b + span xs + 20"
      by blast
    then show ?thesis by (intro exI [of _ "b # xs"] exI [of _ ys]) auto
  qed
qed simp

lemma regions_aligned:
  "(p, k, t) \<in> regions a bs \<Longrightarrow> \<forall>b \<in> set bs. 4 dvd bsz b \<Longrightarrow> 4 dvd a \<Longrightarrow> 4 dvd p"
proof (induction bs arbitrary: a)
  case (Cons b bs)
  show ?case
  proof (cases "p = a + 20")
    case False
    with Cons.prems(1) have "(p, k, t) \<in> regions (a + 20 + bsz b) bs" by (auto split: if_splits)
    then show ?thesis by (rule Cons.IH) (use Cons.prems in auto)
  qed (use Cons.prems in simp)
qed simp

lemma regions_around:
  assumes "r \<in> regions a xs \<or> r \<in> regions (a + span xs + sizeof_BLOCK_HEAD + bsz b) ys"
  shows "apart (a + span xs + sizeof_BLOCK_HEAD, bsz b, t) r" and "fst r \<noteq> a + span xs + sizeof_BLOCK_HEAD"
  using assms regions_bounds [of "fst r" "fst (snd r)" "snd (snd r)" a xs]
    regions_bounds [of "fst r" "fst (snd r)" "snd (snd r)" "a + span xs + 20 + bsz b" ys]
  by (auto simp: apart_def)

lemma regions_carve:
  assumes "fits n b" 
  shows "regions a (xs @ carve n t b @ ys) =
           insert (a + span xs + sizeof_BLOCK_HEAD, bsz (hd (carve n t b)), t) (regions a (xs @ b # ys))"
  using assms by (auto simp: regions_append carve_def fits_def add.assoc)

lemma regions_release:
  "regions a (release xs b ys) = regions a xs \<union> regions (a + span xs + sizeof_BLOCK_HEAD + bsz b) ys"
  by (cases xs rule: rev_cases; cases ys)
    (auto simp: release_simps regions_append ac_simps split: bool.splits)

definition heap_uses :: "heap \<Rightarrow> region set \<Rightarrow> bool" where
  "heap_uses h R \<longleftrightarrow> (\<exists>bs. heap_holds h bs \<and> R = regions CONFIG_MEM_HEAP_LOW bs)"


lemma heap_malloc_law:
  assumes "heap_uses h R" and m: "malloc n t h = Some (p, h')" and n: "unat n + 3 < 2 ^ 32"
  shows "\<exists>k. unat n \<le> k \<and> heap_uses h' (insert (p, k, t) R) \<and> (p, k, t) \<notin> R \<and> (\<forall>r \<in> R. apart (p, k, t) r)"
proof -
  let ?n = "unat (align_up n)"
  from assms(1) obtain bs where h: "heap_holds h bs" and R: "R = regions CONFIG_MEM_HEAP_LOW bs"
    by (auto simp: heap_uses_def)
  obtain xs b ys where bs: "bs = xs @ b # ys" and x: "\<forall>x \<in> set xs. \<not> fits ?n x" and f: "fits ?n b"
    using malloc_spins [OF h, of n t] m split_list_first_prop [of bs "fits ?n"] by auto
  from malloc_refines_fit [OF h [unfolded bs] x f, of t] m
  have p: "p = CONFIG_MEM_HEAP_LOW + span xs + sizeof_BLOCK_HEAD"
    and h': "heap_holds h' (xs @ carve ?n t b @ ys)" by auto
  let ?k = "bsz (hd (carve ?n t b))"
  have "unat n \<le> ?n" using align_up_nat [OF n] by simp
  then have k: "unat n \<le> ?k" "?k \<le> bsz b" using f by (auto simp: carve_def fits_def)
  have "heap_uses h' (insert (p, ?k, t) R)"
    using h' regions_carve [OF f, of CONFIG_MEM_HEAP_LOW xs t ys] by (auto simp: heap_uses_def R bs p)
  moreover have "apart (p, ?k, t) r \<and> fst r \<noteq> p" if "r \<in> R" for r
  proof -
    have "r \<in> regions CONFIG_MEM_HEAP_LOW xs \<or> r \<in> regions (CONFIG_MEM_HEAP_LOW + span xs + 20 + bsz b) ys"
      using that f by (simp add: R bs regions_append fits_def)
    from regions_around(1) [OF this, of t] regions_around(2) [OF this] k(2) show ?thesis by (auto simp: apart_def p)
  qed
  ultimately show ?thesis using k(1) by (intro exI [of _ ?k]) fastforce
qed

lemma regions_remove:
  "regions a (xs @ Blk k True t # ys) - {(a + span xs + sizeof_BLOCK_HEAD, k, t)} =
   regions a xs \<union> regions (a + span xs + sizeof_BLOCK_HEAD + k) ys"
  using regions_around(2) [of "(a + span xs + sizeof_BLOCK_HEAD, k, t)" a xs "Blk k True t" ys]
  by (auto simp: regions_append)

lemma heap_free_law:
  assumes "heap_uses h R" and "(p, k, t) \<in> R"
  shows "\<exists>h'. free p h = Some h' \<and> heap_uses h' (R - {(p, k, t)})"
proof -
  from assms(1) obtain bs where h: "heap_holds h bs" and R: "R = regions CONFIG_MEM_HEAP_LOW bs"
    by (auto simp: heap_uses_def)
  obtain xs ys where bs: "bs = xs @ Blk k True t # ys" and p: "p = CONFIG_MEM_HEAP_LOW + span xs + sizeof_BLOCK_HEAD"
    using regions_split [OF assms(2) [unfolded R]] by blast
  from free_releases [OF h [unfolded bs]] obtain h' where "free p h = Some h'"
    and "heap_holds h' (release xs (Blk k True t) ys)" by (auto simp: p)
  then show ?thesis
    using regions_remove [of CONFIG_MEM_HEAP_LOW xs k t ys] regions_release [of CONFIG_MEM_HEAP_LOW xs "Blk k True t" ys]
    by (auto simp: heap_uses_def R bs p)
qed

interpretation hp: allocator heap_uses malloc free
  by unfold_locales (erule (2) heap_malloc_law, erule (1) heap_free_law)


lemma malloc_region_law:
  assumes "heap_uses h R" and "malloc n t h = Some (p, h')" and "unat n + 3 < 2 ^ 32"
  shows "\<exists>k. unat n \<le> k \<and> heap_uses h' (insert (p, k, t) R) \<and> (\<forall>r \<in> R. apart (p, k, t) r) \<and>
             CONFIG_MEM_HEAP_LOW < p \<and> p + k \<le> CONFIG_MEM_HEAP_HIGH \<and> 4 dvd p"
proof -
  from hp.alloc_law [OF assms] obtain k where k: "unat n \<le> k" "heap_uses h' (insert (p, k, t) R)"
    "\<forall>r \<in> R. apart (p, k, t) r" by blast
  from k(2) obtain bs where bs: "heap_holds h' bs" "(p, k, t) \<in> regions CONFIG_MEM_HEAP_LOW bs"
    by (auto simp: heap_uses_def)
  have "CONFIG_MEM_HEAP_LOW < p \<and> p + k \<le> CONFIG_MEM_HEAP_HIGH"
    using regions_bounds [OF bs(2)] heap_holds_D(6) [OF bs(1)] by simp
  moreover have "4 dvd p"
    using regions_aligned [OF bs(2)] heap_holds_D(3) [OF bs(1)] by (simp add: blks_ok_def)
  ultimately show ?thesis using k by blast
qed

lemma heap_uses_bytes [simp]: "heap_uses (h\<lparr>bytes := b\<rparr>) R = heap_uses h R"
  by (simp add: heap_uses_def heap_holds_def)

lemma malloc_bytes: "malloc n t h = Some (p, h') \<Longrightarrow> bytes h' = bytes h"
  by (auto simp: malloc_def Let_def malloc_take_bytes split: option.splits)

lemma free_bytes: "free p h = Some h' \<Longrightarrow> bytes h' = bytes h"
  by (auto simp: free_def free_block_def Let_def split: option.splits if_splits bool.splits)

section \<open>Releasing the memory of a task\<close>

definition owned :: "ptr \<Rightarrow> blk list \<Rightarrow> nat" where
  "owned t bs = length (filter (\<lambda>b. owner b = t) bs)"

lemma chain_owner_find:
  assumes "chain bl pv a bs None"
  shows "owner_find bl t (if bs = [] then None else Some a) =
     Some (if \<exists>b \<in> set bs. owner b = t then Some (a + span (takeWhile (\<lambda>b. owner b \<noteq> t) bs)) else None)"
  using assms
proof (induction bs arbitrary: pv a)
  case Nil
  then show ?case by (subst owner_find.simps) simp
next
  case (Cons b bs)
  from Cons.prems have "chain bl (Some a) (a + 20 + bsz b) bs None" by simp
  note IH = Cons.IH [OF this]
  show ?case
    by (subst owner_find.simps) (use Cons.prems IH in \<open>auto simp: add.assoc\<close>)
qed

lemma owned_release:
  assumes "\<forall>x \<in> set (xs @ ys). \<not> alloced x \<longrightarrow> owner x = None" and "t \<noteq> None"
  shows "owned t (release xs b ys) = owned t xs + owned t ys"
  using assms by (cases xs rule: rev_cases; cases ys)
    (auto simp: release_simps owned_def split: bool.splits)

lemma memH_free_releases:
  assumes "heap_holds h bs" and t: "t \<noteq> None"
  shows "\<exists>h' bs'. memH_free t h = Some h' \<and> heap_holds h' bs' \<and>
     regions CONFIG_MEM_HEAP_LOW bs' = {r \<in> regions CONFIG_MEM_HEAP_LOW bs. snd (snd r) \<noteq> t}"
  using assms(1)
proof (induction "owned t bs" arbitrary: h bs rule: less_induct)
  case less
  note d = heap_holds_D [OF less.prems]
  have ow: "\<forall>b \<in> set bs. \<not> alloced b \<longrightarrow> owner b = None" using d(3) by (simp add: blks_ok_def)
  have find: "owner_find (heads h) t (Some CONFIG_MEM_HEAP_LOW) =
     Some (if \<exists>b \<in> set bs. owner b = t
           then Some (CONFIG_MEM_HEAP_LOW + span (takeWhile (\<lambda>b. owner b \<noteq> t) bs)) else None)"
    using chain_owner_find [OF d(1), of t] d(7) by simp
  show ?case
  proof (cases "\<exists>b \<in> set bs. owner b = t")
    case False
    have "\<forall>r \<in> regions CONFIG_MEM_HEAP_LOW bs. snd (snd r) \<noteq> t"
      using False regions_split by fastforce
    moreover have "memH_free t h = Some h"
      by (subst memH_free.simps) (use False find d(4) in simp)
    ultimately show ?thesis using less.prems by auto
  next
    case True
    then obtain xs b ys where bs: "bs = xs @ b # ys" and x: "\<forall>x \<in> set xs. owner x \<noteq> t" and b: "owner b = t"
      using split_list_first_prop [of bs "\<lambda>b. owner b = t"] by auto
    have al: "alloced b" using ow b t by (auto simp: bs)
    obtain k where bk: "b = Blk k True t" using al b by (cases b) auto
    have tw: "takeWhile (\<lambda>b. owner b \<noteq> t) bs = xs" using x b by (simp add: bs)
    from free_releases [OF less.prems [unfolded bs] al] obtain h1
      where h1: "free (CONFIG_MEM_HEAP_LOW + span xs + 20) h = Some h1" "heap_holds h1 (release xs b ys)" by auto
    have "owned t (release xs b ys) < owned t bs"
      using owned_release [of xs ys t b] ow t b by (simp add: bs owned_def)
    from less.hyps [OF this h1(2)] obtain h' bs' where r: "memH_free t h1 = Some h'" "heap_holds h' bs'"
      "regions CONFIG_MEM_HEAP_LOW bs' = {r \<in> regions CONFIG_MEM_HEAP_LOW (release xs b ys). snd (snd r) \<noteq> t}"
      by blast
    have "memH_free t h = Some h'"
      by (subst memH_free.simps) (use True find d(4) tw h1(1) r(1) in simp)
    moreover have "regions CONFIG_MEM_HEAP_LOW bs' = {r \<in> regions CONFIG_MEM_HEAP_LOW bs. snd (snd r) \<noteq> t}"
    proof -
      have "regions CONFIG_MEM_HEAP_LOW bs = insert (CONFIG_MEM_HEAP_LOW + span xs + 20, k, t)
          (regions CONFIG_MEM_HEAP_LOW (release xs b ys))"
        by (simp only: regions_release bs regions_append bk) (simp add: Un_insert_right)
      then show ?thesis by (simp only: r(3)) force
    qed
    ultimately show ?thesis using r(2) by blast
  qed
qed


section \<open>Pointers that are not in use\<close>

fun user_addrs :: "addr \<Rightarrow> blk list \<Rightarrow> addr set" where
  "user_addrs a [] = {}"
| "user_addrs a (b # bs) = insert (a + sizeof_BLOCK_HEAD) (user_addrs (a + sizeof_BLOCK_HEAD + bsz b) bs)"

lemma chain_free_find_none:
  assumes "chain bl pv a bs None" and "p \<notin> user_addrs a bs" and "bs \<noteq> []" and "sizeof_BLOCK_HEAD \<le> p"
  shows "free_find bl (p - sizeof_BLOCK_HEAD) a = Some None"
  using assms
proof (induction bs arbitrary: pv a)
  case (Cons b bs)
  have "a \<noteq> p - 20" using Cons.prems(2,4) by auto
  moreover have "free_find bl (p - 20) (a + 20 + bsz b) = Some None" if "bs \<noteq> []"
    by (rule Cons.IH) (use Cons.prems that in auto)
  ultimately show ?case using Cons.prems(1) by (subst free_find.simps) auto
qed simp

lemma carve_release:
  assumes "blks_ok (xs @ b # ys)" and "\<not> alloced b" and "n \<le> bsz b"
  shows "release xs (hd (carve n t b)) (tl (carve n t b) @ ys) = xs @ b # ys"
proof -
  have "xs \<noteq> [] \<Longrightarrow> alloced (last xs)" "ys \<noteq> [] \<Longrightarrow> alloced (hd ys)" "owner b = None"
    using assms(1,2) by (auto simp: blks_ok_def successively_append_iff successively_Cons)
  then show ?thesis using assms(2,3)
    by (cases b; cases ys) (auto simp: carve_def release_simps split: bool.splits)
qed

section \<open>Properties\<close>

text \<open>C6: on every heap with the invariant, \<^verbatim>\<open>malloc\<close> is first fit: it takes the first free
  block that can hold the request rounded up to a multiple of four, splits off the rest
  if that leaves room for a head and four bytes, keeps the invariant (links, counters,
  no adjacent free blocks) and touches no user byte; if no block is large enough it
  does not return.\<close>

theorem malloc_first_fit:
  assumes "heap_holds h bs"
  shows "case first_fit (unat (align_up nbytes)) t CONFIG_MEM_HEAP_LOW bs of
           None \<Rightarrow> malloc nbytes t h = None
         | Some (p, cs) \<Rightarrow> \<exists>h'. malloc nbytes t h = Some (p, h') \<and> heap_holds h' cs \<and> bytes h' = bytes h"
proof (cases "first_fit (unat (align_up nbytes)) t CONFIG_MEM_HEAP_LOW bs")
  case None
  then have "malloc nbytes t h = None" by (intro malloc_spins [OF assms]) (simp add: first_fit_None)
  with None show ?thesis by simp
next
  case (Some r)
  obtain p cs where "r = (p, cs)" by (cases r)
  with Some obtain xs b ys where "bs = xs @ b # ys" "\<forall>x \<in> set xs. \<not> fits (unat (align_up nbytes)) x"
    "fits (unat (align_up nbytes)) b" "p = CONFIG_MEM_HEAP_LOW + span xs + sizeof_BLOCK_HEAD"
    "cs = xs @ carve (unat (align_up nbytes)) t b @ ys"
    using first_fit_Some by metis
  then show ?thesis using malloc_refines_fit [of h xs b ys nbytes t] assms Some \<open>r = (p, cs)\<close> by simp
qed

definition fresh_heap :: heap where
  "fresh_heap = heap_init \<lparr>G_sys_heap = \<lparr>heap_start = 0, heap_size = 0, block_num = 0, alloced_num = 0,
     alloced_size = 0, free_num = 0, free_size = 0, max_free_block_size = 0\<rparr>,
     heads = (\<lambda>_. blk_head None None (Blk 0 False None)), bytes = (\<lambda>_. 0)\<rparr>"

definition whole :: "blk list" where
  "whole = [Blk 0x4ffffec False None]"

lemma fresh_heap_holds: "heap_holds fresh_heap whole"
  using heap_init_holds by (simp add: fresh_heap_def whole_def)

theorem malloc_first_fit_witness:
  "\<exists>h'. malloc 10 (Some 7) fresh_heap = Some (0x51000014, h') \<and>
        heap_holds h' [Blk 12 True (Some 7), Blk 0x4ffffcc False None] \<and> bytes h' = bytes fresh_heap"
  using malloc_first_fit [OF fresh_heap_holds, of 10 "Some 7"]
  by (simp add: whole_def fits_def carve_def align_up_nat)

text \<open>C7: a region returned by \<^verbatim>\<open>malloc\<close> holds at least the requested bytes, is four byte
  aligned, lies inside of the heap and overlaps no region in use (the request must not
  be within three bytes of the top of the address space, where rounding wraps to 0).\<close>

theorem malloc_region:
  assumes "heap_uses h R" and "malloc n t h = Some (p, h')" and "unat n + 3 < 2 ^ 32"
  shows "\<exists>k. unat n \<le> k \<and> heap_uses h' (insert (p, k, t) R) \<and> (\<forall>r \<in> R. apart (p, k, t) r) \<and>
             CONFIG_MEM_HEAP_LOW < p \<and> p + k \<le> CONFIG_MEM_HEAP_HIGH \<and> 4 dvd p"
  using malloc_region_law [OF assms] .

theorem malloc_region_witness:
  "\<exists>p h' k. malloc 10 (Some 7) fresh_heap = Some (p, h') \<and> 10 \<le> k \<and> heap_uses h' {(p, k, Some 7)} \<and> 4 dvd p"
proof -
  have "heap_uses fresh_heap {}"
    using fresh_heap_holds by (auto simp: heap_uses_def whole_def intro!: exI [of _ "[Blk 0x4ffffec False None]"])
  moreover obtain h' where "malloc 10 (Some 7) fresh_heap = Some (0x51000014, h')"
    using malloc_refines_fit [of fresh_heap "[]" "Blk 0x4ffffec False None" "[]" 10 "Some 7"] fresh_heap_holds
    by (auto simp: whole_def fits_def align_up_nat)
  ultimately show ?thesis using malloc_region [of fresh_heap "{}" 10 "Some 7" "0x51000014" h'] by auto
qed

text \<open>C8: \<^verbatim>\<open>free\<close> of a region in use removes that region and no other, and keeps the
  invariant; a pointer that is not the start of a block changes nothing; both return.\<close>

theorem free_region:
  assumes "heap_holds h bs"
  shows "(\<forall>k t. (p, k, t) \<in> regions CONFIG_MEM_HEAP_LOW bs \<longrightarrow>
            (\<exists>h'. free p h = Some h' \<and> heap_uses h' (regions CONFIG_MEM_HEAP_LOW bs - {(p, k, t)}))) \<and>
         (p \<notin> user_addrs CONFIG_MEM_HEAP_LOW bs \<longrightarrow> free p h = Some h)"
proof -
  have "heap_uses h (regions CONFIG_MEM_HEAP_LOW bs)" using assms by (auto simp: heap_uses_def)
  moreover have "free p h = Some h" if "p \<notin> user_addrs CONFIG_MEM_HEAP_LOW bs"
    using chain_free_find_none [OF heap_holds_D(1) [OF assms] that heap_holds_D(7) [OF assms]]
      heap_holds_D(4,5) [OF assms] by (simp add: free_def)
  ultimately show ?thesis using hp.dealloc_law by blast
qed

theorem free_region_witness:
  "free 0x51000018 fresh_heap = Some fresh_heap"
  using free_region [OF fresh_heap_holds, of "0x51000018"] by (simp add: whole_def)

text \<open>C9: a block that is allocated and freed at once leaves the heap exactly as it was:
  the split and the two merges are inverse to each other.\<close>

theorem malloc_free_roundtrip:
  assumes "heap_holds h bs" and "malloc n t h = Some (p, h')"
  shows "\<exists>h''. free p h' = Some h'' \<and> heap_holds h'' bs \<and> bytes h'' = bytes h"
proof -
  let ?n = "unat (align_up n)"
  obtain xs b ys where bs: "bs = xs @ b # ys" and x: "\<forall>x \<in> set xs. \<not> fits ?n x" and f: "fits ?n b"
    using malloc_spins [OF assms(1), of n t] assms(2) split_list_first_prop [of bs "fits ?n"] by auto
  from malloc_refines_fit [OF assms(1) [unfolded bs] x f, of t] assms(2)
  have p: "p = CONFIG_MEM_HEAP_LOW + span xs + sizeof_BLOCK_HEAD" and b': "bytes h' = bytes h"
    and h': "heap_holds h' (xs @ hd (carve ?n t b) # tl (carve ?n t b) @ ys)"
    by (auto simp: carve_def split: if_splits)
  have "alloced (hd (carve ?n t b))" by (simp add: carve_def)
  from free_releases [OF h' this] show ?thesis
    using carve_release [of xs b ys ?n t] heap_holds_D(3) [OF assms(1)] f b' by (auto simp: bs p fits_def)
qed

theorem malloc_free_roundtrip_witness:
  "\<exists>p h' h''. malloc 10 (Some 7) fresh_heap = Some (p, h') \<and> free p h' = Some h'' \<and> heap_holds h'' whole"
proof -
  obtain h' where m: "malloc 10 (Some 7) fresh_heap = Some (0x51000014, h')"
    using malloc_refines_fit [of fresh_heap "[]" "Blk 0x4ffffec False None" "[]" 10 "Some 7"] fresh_heap_holds
    by (auto simp: whole_def fits_def align_up_nat)
  show ?thesis using malloc_free_roundtrip [OF fresh_heap_holds m] m by blast
qed

text \<open>\<^verbatim>\<open>memH_free\<close> returns, and afterwards exactly the regions of the given task are
  gone; every region of another owner is still in use.\<close>

theorem memH_free_task:
  assumes "heap_holds h bs"
  shows "\<exists>h' bs'. memH_free (Some t) h = Some h' \<and> heap_holds h' bs' \<and>
     regions CONFIG_MEM_HEAP_LOW bs' = {r \<in> regions CONFIG_MEM_HEAP_LOW bs. snd (snd r) \<noteq> Some t}"
  using memH_free_releases [OF assms, of "Some t"] by simp

theorem memH_free_task_witness:
  "\<exists>h' bs'. memH_free (Some 7) fresh_heap = Some h' \<and> heap_holds h' bs' \<and> regions CONFIG_MEM_HEAP_LOW bs' = {}"
  using memH_free_task [OF fresh_heap_holds, of 7] by (simp add: whole_def)

end
