(* ===== verification/Kernel_State.thy ===== *)
theory Kernel_State
  imports Dlist MemH
begin

text \<open>
  The state the kernel modules share: task control blocks (\<^verbatim>\<open>src/task.h\<close>), the ready
  queue structure (\<^verbatim>\<open>src/readyQ.c\<close>), the semaphore and message queue structures
  (\<^verbatim>\<open>src/semB.h\<close>, \<^verbatim>\<open>src/semC.h\<close>, \<^verbatim>\<open>src/semM.h\<close>, \<^verbatim>\<open>src/msgQ.h\<close>) and every list of
  the kernel. A list descriptor embedded in an object is named by a \<open>list_ref\<close>:
  the C address \<^verbatim>\<open>&pSemB->wait_list\<close> is \<open>SemB_wait pSemB\<close>. All lists live in one
  \<open>list_ref dl_mem\<close>, since a TCB moves between them by its single \<^verbatim>\<open>dlist_node\<close>.

  The kernel functions run with interrupts disabled (\<^verbatim>\<open>CPU_LOCK\<close>), so each is one
  transition; a function that blocks ends its first transition in \<^verbatim>\<open>CONTEXT_SWITCH\<close>
  (outcome \<open>Switch\<close>) and goes on, when its task is current again, in a second one.
\<close>

section \<open>Task control blocks\<close>

datatype task_status =
    TASK_STATUS_READY | TASK_STATUS_DELAY | TASK_STATUS_PEND_SEM_M | TASK_STATUS_PEND_SEM_B
  | TASK_STATUS_PEND_SEM_C | TASK_STATUS_PEND_MSG_S | TASK_STATUS_PEND_MSG_R

record OS_TCB =
  sp :: uint32
  task_name :: "uint8 list"
  task_entry :: uint32
  task_priority :: uint32
  stack_start :: uint32
  stack_size :: uint32
  arg1 :: uint32
  arg2 :: uint32
  delay_ticks :: uint32
  origin_pri :: uint32
  status :: task_status
  pend_obj :: ptr

section \<open>Queues and kernel objects\<close>

datatype list_ref =
    Ready_list nat | Delay_list
  | SemB_list | SemB_wait addr | SemC_list | SemC_wait addr | SemM_list | SemM_wait addr
  | MsgQ_list | MsgQ_msgs addr | MsgQ_send addr | MsgQ_recv addr

record READY_QUEUE =
  highest_tcb :: ptr
  metaBMap :: uint32
  bMap :: "uint32 list"

record SEM_BIN =
  semB_owner :: ptr

record SEM_CNT =
  count :: uint32
  max_count :: uint32

record SEM_MUX =
  semM_owner :: ptr
  take_count :: uint32
  wait_pri :: uint32

record MSG_QUE =
  max_num :: uint32
  max_len :: uint32
  cur_num :: uint32

record kernel =
  lmem :: "list_ref dl_mem"
  tcbs :: "addr \<Rightarrow> OS_TCB"
  G_readyQ :: READY_QUEUE
  G_p_current_tcb :: ptr
  G_Task_Num :: uint32
  G_tcb :: addr
  G_tcb_map :: "uint32 list"
  G_stack_map :: "uint32 list"
  G_ticks :: uint32
  semBs :: "addr \<Rightarrow> SEM_BIN"
  semCs :: "addr \<Rightarrow> SEM_CNT"
  semMs :: "addr \<Rightarrow> SEM_MUX"
  msgQs :: "addr \<Rightarrow> MSG_QUE"
  kheap :: heap

text \<open>What a kernel call does for its caller: return a status, or give up the processor.\<close>

datatype outcome = Return OS_STATUS | Switch

section \<open>Access\<close>

text \<open>A pointer that is followed: \<^verbatim>\<open>NULL\<close> reads address 0.\<close>

definition deref :: "ptr \<Rightarrow> addr" where
  "deref p = (case p of None \<Rightarrow> 0 | Some a \<Rightarrow> a)"

lemma deref_Some [simp]: "deref (Some a) = a"
  by (simp add: deref_def)

definition cur :: "kernel \<Rightarrow> addr" where
  "cur k = deref (G_p_current_tcb k)"

definition upd_tcb :: "addr \<Rightarrow> (OS_TCB \<Rightarrow> OS_TCB) \<Rightarrow> kernel \<Rightarrow> kernel" where
  "upd_tcb a f k = k\<lparr>tcbs := (tcbs k)(a := f (tcbs k a))\<rparr>"

definition upd_lists :: "(list_ref dl_mem \<Rightarrow> list_ref dl_mem) \<Rightarrow> kernel \<Rightarrow> kernel" where
  "upd_lists f k = k\<lparr>lmem := f (lmem k)\<rparr>"

definition upd_ready :: "(READY_QUEUE \<Rightarrow> READY_QUEUE) \<Rightarrow> kernel \<Rightarrow> kernel" where
  "upd_ready f k = k\<lparr>G_readyQ := f (G_readyQ k)\<rparr>"

text \<open>\<^verbatim>\<open>dlist_get\<close> on a list of the kernel.\<close>

definition list_get :: "list_ref \<Rightarrow> kernel \<Rightarrow> ptr \<times> kernel" where
  "list_get l k = (case dlist_get l (lmem k) of (p, m) \<Rightarrow> (p, k\<lparr>lmem := m\<rparr>))"

lemma upd_tcb_sel [simp, state_simps]:
  "tcbs (upd_tcb a f k) = (tcbs k)(a := f (tcbs k a))" "lmem (upd_tcb a f k) = lmem k"
  "G_readyQ (upd_tcb a f k) = G_readyQ k" "G_p_current_tcb (upd_tcb a f k) = G_p_current_tcb k"
  "G_Task_Num (upd_tcb a f k) = G_Task_Num k" "G_tcb (upd_tcb a f k) = G_tcb k"
  "G_tcb_map (upd_tcb a f k) = G_tcb_map k" "G_stack_map (upd_tcb a f k) = G_stack_map k"
  "G_ticks (upd_tcb a f k) = G_ticks k" "semBs (upd_tcb a f k) = semBs k" "semCs (upd_tcb a f k) = semCs k"
  "semMs (upd_tcb a f k) = semMs k" "msgQs (upd_tcb a f k) = msgQs k" "kheap (upd_tcb a f k) = kheap k"
  by (simp_all add: upd_tcb_def)

lemma upd_lists_sel [simp, state_simps]:
  "lmem (upd_lists g k) = g (lmem k)" "tcbs (upd_lists g k) = tcbs k"
  "G_readyQ (upd_lists g k) = G_readyQ k" "G_p_current_tcb (upd_lists g k) = G_p_current_tcb k"
  "G_Task_Num (upd_lists g k) = G_Task_Num k" "G_tcb (upd_lists g k) = G_tcb k"
  "G_tcb_map (upd_lists g k) = G_tcb_map k" "G_stack_map (upd_lists g k) = G_stack_map k"
  "G_ticks (upd_lists g k) = G_ticks k" "semBs (upd_lists g k) = semBs k" "semCs (upd_lists g k) = semCs k"
  "semMs (upd_lists g k) = semMs k" "msgQs (upd_lists g k) = msgQs k" "kheap (upd_lists g k) = kheap k"
  by (simp_all add: upd_lists_def)

lemma upd_ready_sel [simp, state_simps]:
  "G_readyQ (upd_ready q k) = q (G_readyQ k)" "lmem (upd_ready q k) = lmem k" "tcbs (upd_ready q k) = tcbs k"
  "G_p_current_tcb (upd_ready q k) = G_p_current_tcb k"
  "G_Task_Num (upd_ready q k) = G_Task_Num k" "G_tcb (upd_ready q k) = G_tcb k"
  "G_tcb_map (upd_ready q k) = G_tcb_map k" "G_stack_map (upd_ready q k) = G_stack_map k"
  "G_ticks (upd_ready q k) = G_ticks k" "semBs (upd_ready q k) = semBs k" "semCs (upd_ready q k) = semCs k"
  "semMs (upd_ready q k) = semMs k" "msgQs (upd_ready q k) = msgQs k" "kheap (upd_ready q k) = kheap k"
  by (simp_all add: upd_ready_def)

lemma cur_frame [simp]:
  "cur (upd_tcb a f k) = cur k" "cur (upd_lists g k) = cur k" "cur (upd_ready q k) = cur k"
  by (simp_all add: cur_def)

text \<open>The objects, the lists of objects and the heap are out of reach of the queue operations.\<close>

definition same_objects :: "kernel \<Rightarrow> kernel \<Rightarrow> bool" where
  "same_objects k k' \<longleftrightarrow>
     G_p_current_tcb k' = G_p_current_tcb k \<and> G_Task_Num k' = G_Task_Num k \<and> G_tcb k' = G_tcb k \<and>
     G_tcb_map k' = G_tcb_map k \<and> G_stack_map k' = G_stack_map k \<and> G_ticks k' = G_ticks k \<and>
     semBs k' = semBs k \<and> semCs k' = semCs k \<and> semMs k' = semMs k \<and> msgQs k' = msgQs k \<and> kheap k' = kheap k"

lemma same_objects_refl [simp]: "same_objects k k"
  by (simp add: same_objects_def)

lemma same_objects_trans [trans]: "same_objects k k' \<Longrightarrow> same_objects k' k'' \<Longrightarrow> same_objects k k''"
  by (simp add: same_objects_def)

lemma same_objects_upd [simp]:
  "same_objects k (upd_tcb a f k') \<longleftrightarrow> same_objects k k'"
  "same_objects k (upd_lists g k') \<longleftrightarrow> same_objects k k'"
  "same_objects k (upd_ready q k') \<longleftrightarrow> same_objects k k'"
  by (simp_all add: same_objects_def)

section \<open>The heap inside the kernel\<close>

text \<open>\<^verbatim>\<open>malloc\<close> and \<^verbatim>\<open>free\<close> as the kernel modules call them; blocks belong to the current task.\<close>

definition kmalloc :: "uint32 \<Rightarrow> kernel \<Rightarrow> (addr \<times> kernel) option" where
  "kmalloc n k = map_option (\<lambda>(p, h). (p, k\<lparr>kheap := h\<rparr>)) (malloc n (G_p_current_tcb k) (kheap k))"

definition kfree :: "addr \<Rightarrow> kernel \<Rightarrow> kernel option" where
  "kfree p k = map_option (\<lambda>h. k\<lparr>kheap := h\<rparr>) (free p (kheap k))"

text \<open>An object given by the caller, or a block of its size from the heap.\<close>

definition object_or_malloc :: "ptr \<Rightarrow> uint32 \<Rightarrow> kernel \<Rightarrow> (addr \<times> kernel) option" where
  "object_or_malloc obj n k = (case obj of None \<Rightarrow> kmalloc n k | Some p \<Rightarrow> Some (p, k))"

text \<open>Two kernel states with the same lists, ready queue and TCBs.\<close>

definition same_queues :: "kernel \<Rightarrow> kernel \<Rightarrow> bool" where
  "same_queues k k' \<longleftrightarrow> lmem k' = lmem k \<and> G_readyQ k' = G_readyQ k \<and> tcbs k' = tcbs k"

lemma same_queues_simps [simp]:
  "same_queues k k" "same_queues k (k\<lparr>semBs := b\<rparr>)" "same_queues k (k\<lparr>semCs := c\<rparr>)" "same_queues k (k\<lparr>semMs := m\<rparr>)"
  "same_queues k (k\<lparr>msgQs := q\<rparr>)" "same_queues k (k\<lparr>kheap := h\<rparr>)" "same_queues k (k\<lparr>G_ticks := t\<rparr>)"
  "same_queues k (k\<lparr>G_p_current_tcb := p\<rparr>)" "same_queues k (k\<lparr>G_Task_Num := n\<rparr>)"
  "same_queues k (k\<lparr>G_tcb_map := tm\<rparr>)" "same_queues k (k\<lparr>G_stack_map := sm\<rparr>)"
  by (simp_all add: same_queues_def)

lemma kmalloc_queues: "kmalloc n k = Some (p, k') \<Longrightarrow> same_queues k k'"
  by (auto simp: kmalloc_def)

lemma kfree_queues: "kfree p k = Some k' \<Longrightarrow> same_queues k k'"
  by (auto simp: kfree_def)

lemma object_or_malloc_queues: "object_or_malloc obj n k = Some (p, k') \<Longrightarrow> same_queues k k'"
  by (auto simp: object_or_malloc_def kmalloc_queues split: option.splits)

section \<open>Where a task is\<close>

text \<open>The list that the status of a task names.\<close>

definition home :: "OS_TCB \<Rightarrow> list_ref" where
  "home t = (case status t of
       TASK_STATUS_READY \<Rightarrow> Ready_list (unat (task_priority t))
     | TASK_STATUS_DELAY \<Rightarrow> Delay_list
     | TASK_STATUS_PEND_SEM_M \<Rightarrow> SemM_wait (deref (pend_obj t))
     | TASK_STATUS_PEND_SEM_B \<Rightarrow> SemB_wait (deref (pend_obj t))
     | TASK_STATUS_PEND_SEM_C \<Rightarrow> SemC_wait (deref (pend_obj t))
     | TASK_STATUS_PEND_MSG_S \<Rightarrow> MsgQ_send (deref (pend_obj t))
     | TASK_STATUS_PEND_MSG_R \<Rightarrow> MsgQ_recv (deref (pend_obj t)))"

text \<open>Lists whose nodes are TCBs.\<close>

fun task_list :: "list_ref \<Rightarrow> bool" where
  "task_list (Ready_list _) = True"
| "task_list Delay_list = True"
| "task_list (SemB_wait _) = True"
| "task_list (SemC_wait _) = True"
| "task_list (SemM_wait _) = True"
| "task_list (MsgQ_send _) = True"
| "task_list (MsgQ_recv _) = True"
| "task_list _ = False"

fun is_ready_list :: "list_ref \<Rightarrow> bool" where
  "is_ready_list (Ready_list _) = True"
| "is_ready_list _ = False"

lemma task_list_home [simp]: "task_list (home t)"
  by (simp add: home_def split: task_status.split)

end
