(* ===== verification/ReadyQ.thy ===== *)
theory ReadyQ
  imports Kernel_State
begin

text \<open>
  The ready queue (\<^verbatim>\<open>src/readyQ.c\<close>, with \<^verbatim>\<open>LSB\<close> of \<^verbatim>\<open>src/task.c\<close> and the two switches of
  \<^verbatim>\<open>src/bsp/scheduler.S\<close>): 256 lists, a two level bit map of the non-empty ones, and
  the cached highest task. The invariant \<open>queue_ok\<close> ties maps, cache and lists
  together and says that every TCB is in the list its status names.
\<close>

section \<open>Operations\<close>

abbreviation (input) PRIORITY_NUM_MAX :: nat where "PRIORITY_NUM_MAX \<equiv> 256"

text \<open>The loop of \<^verbatim>\<open>LSB\<close>; \<^verbatim>\<open>LSB\<close> enters it only with a non-zero map, the test for 0 makes
  the recursion total.\<close>

function LSB_loop :: "uint32 \<Rightarrow> int \<Rightarrow> int" where
  "LSB_loop bit_map i = (if bit_map = 0 \<or> bit_map AND 1 \<noteq> 0 then i else LSB_loop (drop_bit 1 bit_map) (i + 1))"
  by pat_completeness auto

termination
proof (relation "measure (unat \<circ> fst)")
  fix b :: uint32 and i :: int
  assume "\<not> (b = 0 \<or> b AND 1 \<noteq> 0)"
  then have "0 < unat b" by (simp add: unat_gt_0)
  then have "unat b div 2 < unat b" by simp
  then show "((drop_bit 1 b, i + 1), b, i) \<in> measure (unat \<circ> fst)"
    by (simp add: unat_drop_bit32)
qed simp

declare LSB_loop.simps [simp del]

definition LSB :: "uint32 \<Rightarrow> int" where
  "LSB bit_map = (if bit_map = 0 then -1 else LSB_loop bit_map 0)"

text \<open>
  With an empty queue \<^verbatim>\<open>LSB\<close> answers -1, and \<^verbatim>\<open>_readQ_highest_pri\<close> and its caller index
  \<^verbatim>\<open>bMap\<close> and \<^verbatim>\<open>listArray\<close> with it. In the layout of \<^verbatim>\<open>READY_QUEUE\<close> the word before
  \<^verbatim>\<open>bMap[0]\<close> is \<^verbatim>\<open>metaBMap\<close> and the list before \<^verbatim>\<open>listArray[0]\<close> is the pair
  \<^verbatim>\<open>bMap[6]\<close>, \<^verbatim>\<open>bMap[7]\<close>; the model reads what the machine reads.
\<close>

definition bMap_at :: "uint32 \<Rightarrow> READY_QUEUE \<Rightarrow> uint32" where
  "bMap_at i q = (if i = 0xffffffff then metaBMap q else bMap q ! unat i)"

definition word_ptr :: "uint32 \<Rightarrow> ptr" where
  "word_ptr w = (if w = 0 then None else Some (unat w))"

definition listArray_first :: "int \<Rightarrow> kernel \<Rightarrow> ptr" where
  "listArray_first i k =
     (if i = -1 then word_ptr (bMap (G_readyQ k) ! 6) else DL_FIRST (Ready_list (nat i)) (lmem k))"

definition readQ_highest_pri :: "READY_QUEUE \<Rightarrow> int" where
  "readQ_highest_pri q =
     (let highBits = word_of_int (LSB (metaBMap q)) :: uint32;
          lowBits = word_of_int (LSB (bMap_at highBits q)) :: uint32
      in sint ((push_bit 5 highBits) OR lowBits))"

definition readyQ_init :: "kernel \<Rightarrow> kernel" where
  "readyQ_init k = fold (\<lambda>i. upd_lists (\<lambda>m. snd (dlist_init (Ready_list i) m))) [0..<PRIORITY_NUM_MAX] k"

definition readyQ_put :: "addr \<Rightarrow> kernel \<Rightarrow> kernel" where
  "readyQ_put pTcb k =
     (let priority = task_priority (tcbs k pTcb);
          g = unat (drop_bit 5 priority);
          k1 = (if highest_tcb (G_readyQ k) = None \<or>
                   priority < task_priority (tcbs k (deref (highest_tcb (G_readyQ k))))
                then upd_ready (\<lambda>q. q\<lparr>highest_tcb := Some pTcb\<rparr>) k else k);
          k2 = upd_ready (\<lambda>q. q\<lparr>metaBMap := metaBMap q OR push_bit g 1\<rparr>) k1;
          k3 = upd_ready (\<lambda>q. q\<lparr>bMap := (bMap q)[g := bMap q ! g OR push_bit (unat (priority AND 0x1f)) 1]\<rparr>) k2;
          k4 = upd_tcb pTcb (\<lambda>t. t\<lparr>status := TASK_STATUS_READY, pend_obj := None\<rparr>) k3
      in upd_lists (dlist_add (Ready_list (unat priority)) pTcb) k4)"

definition readyQ_remove :: "addr \<Rightarrow> kernel \<Rightarrow> kernel" where
  "readyQ_remove pTcb k =
     (let priority = task_priority (tcbs k pTcb);
          g = unat (drop_bit 5 priority);
          pList = Ready_list (unat priority);
          k1 = upd_lists (dlist_remove pList pTcb) k
      in if DL_EMPTY pList (lmem k1)
         then let k2 = upd_ready (\<lambda>q. q\<lparr>bMap := (bMap q)[g := bMap q ! g AND
                                     NOT (push_bit (unat (priority AND 0x1f)) 1)]\<rparr>) k1;
                  k3 = (if bMap (G_readyQ k2) ! g = 0
                        then upd_ready (\<lambda>q. q\<lparr>metaBMap := metaBMap q AND NOT (push_bit g 1)\<rparr>) k2 else k2)
              in if Some pTcb = highest_tcb (G_readyQ k3)
                 then upd_ready (\<lambda>q. q\<lparr>highest_tcb := listArray_first (readQ_highest_pri q) k3\<rparr>) k3
                 else k3
         else if Some pTcb = highest_tcb (G_readyQ k1)
              then upd_ready (\<lambda>q. q\<lparr>highest_tcb := DL_FIRST pList (lmem k1)\<rparr>) k1
              else k1)"

text \<open>\<^verbatim>\<open>CONTEXT_SWITCH\<close> and \<^verbatim>\<open>LOAD_HIGHEST_TASK\<close>: the highest ready task becomes current.\<close>

definition LOAD_HIGHEST_TASK :: "kernel \<Rightarrow> kernel" where
  "LOAD_HIGHEST_TASK k = k\<lparr>G_p_current_tcb := highest_tcb (G_readyQ k)\<rparr>"

definition CONTEXT_SWITCH :: "kernel \<Rightarrow> kernel" where
  "CONTEXT_SWITCH k = LOAD_HIGHEST_TASK k"

section \<open>Bits\<close>

lemma LSB_loop_lowest:
  "b \<noteq> 0 \<Longrightarrow> \<exists>n < 32. LSB_loop b i = i + int n \<and> bit b n \<and> (\<forall>m < n. \<not> bit b m)"
proof (induction b i rule: LSB_loop.induct)
  case (1 b i)
  show ?case
  proof (cases "b AND 1 \<noteq> 0")
    case True
    then have "bit b 0" by (simp add: and_one_eq odd_iff_mod_2_eq_one bit_0)
    with True show ?thesis by (intro exI [of _ 0]) (simp add: LSB_loop.simps)
  next
    case False
    then have even: "\<not> bit b 0" by (simp add: and_one_eq odd_iff_mod_2_eq_one bit_0)
    have ne: "drop_bit 1 b \<noteq> 0"
    proof
      assume z: "drop_bit 1 b = 0"
      have "bit b (Suc n) = bit (drop_bit 1 b) n" for n by (simp add: bit_drop_bit_eq)
      then have "\<not> bit b (Suc n)" for n using z by simp
      with even have "\<not> bit b n" for n by (cases n) auto
      with 1(2) show False by (auto simp: bit_eq_iff)
    qed
    from 1(1) [OF _ ne] False 1(2) obtain n where n: "n < 32" "LSB_loop (drop_bit 1 b) (i + 1) = i + 1 + int n"
      "bit (drop_bit 1 b) n" "\<forall>m < n. \<not> bit (drop_bit 1 b) m" by auto
    from n(3) have bn: "bit b (Suc n)" by (simp add: bit_drop_bit_eq)
    then have "Suc n < 32" using bit_imp_le_length by fastforce
    moreover have "\<not> bit b m" if "m < Suc n" for m
      using that even n(4) by (cases m) (auto simp: bit_drop_bit_eq)
    ultimately show ?thesis using n(2) bn False 1(2)
      by (intro exI [of _ "Suc n"]) (auto simp: LSB_loop.simps [of b])
  qed
qed

lemma LSB_lowest:
  assumes "b \<noteq> 0"
  obtains n where "n < 32" "LSB b = int n" "bit b n" "\<And>m. m < n \<Longrightarrow> \<not> bit b m"
  using LSB_loop_lowest [OF assms, of 0] assms by (auto simp: LSB_def)

lemma prio_split:
  assumes "unat (w :: uint32) < 256"
  shows "unat (drop_bit 5 w) = unat w div 32" "unat (w AND 0x1f) = unat w mod 32"
    "unat w div 32 < 8" "unat w mod 32 < 32"
proof -
  show "unat (drop_bit 5 w) = unat w div 32"
    by (simp add: unat_drop_bit32)
  have "w AND 0x1f = take_bit 5 w" by (simp add: take_bit_eq_mask mask_eq_exp_minus_1)
  then show "unat (w AND 0x1f) = unat w mod 32"
    by (simp add: unsigned_take_bit_eq take_bit_nat_def)
qed (use assms in auto)


section \<open>The invariant\<close>

text \<open>The head of the first non-empty list, and \<^verbatim>\<open>NULL\<close> when all are empty.\<close>

definition is_top :: "(list_ref \<Rightarrow> addr list) \<Rightarrow> ptr \<Rightarrow> bool" where
  "is_top A h \<longleftrightarrow> (case h of
       None \<Rightarrow> \<forall>p < PRIORITY_NUM_MAX. A (Ready_list p) = []
     | Some a \<Rightarrow> \<exists>p < PRIORITY_NUM_MAX. first (A (Ready_list p)) = Some a \<and> (\<forall>q < p. A (Ready_list q) = []))"

definition maps_ok :: "READY_QUEUE \<Rightarrow> (list_ref \<Rightarrow> addr list) \<Rightarrow> bool" where
  "maps_ok q A \<longleftrightarrow>
     length (bMap q) = 8 \<and>
     (\<forall>p < PRIORITY_NUM_MAX. bit (bMap q ! (p div 32)) (p mod 32) \<longleftrightarrow> A (Ready_list p) \<noteq> []) \<and>
     (\<forall>i. bit (metaBMap q) i \<longleftrightarrow> i < 8 \<and> bMap q ! i \<noteq> 0)"

text \<open>
  A task may be in list \<open>l\<close> when its status names \<open>l\<close>, its priority is in range and,
  outside of the ready lists, some of its wait is left: \<^verbatim>\<open>delay_ticks\<close> is what tells a
  resumed task whether it was given the object or timed out.
\<close>

definition resident :: "OS_TCB \<Rightarrow> list_ref \<Rightarrow> bool" where
  "resident t l \<longleftrightarrow>
     home t = l \<and> unat (task_priority t) < PRIORITY_NUM_MAX \<and> (is_ready_list l \<or> delay_ticks t \<noteq> 0)"

definition homes_ok :: "(addr \<Rightarrow> OS_TCB) \<Rightarrow> (list_ref \<Rightarrow> addr list) \<Rightarrow> bool" where
  "homes_ok t A \<longleftrightarrow> (\<forall>l a. task_list l \<longrightarrow> a \<in> set (A l) \<longrightarrow> resident (t a) l)"

definition queue_ok :: "kernel \<Rightarrow> (list_ref \<Rightarrow> addr list) \<Rightarrow> bool" where
  "queue_ok k A \<longleftrightarrow>
     dl_holds (lmem k) A \<and> maps_ok (G_readyQ k) A \<and> is_top A (highest_tcb (G_readyQ k)) \<and>
     homes_ok (tcbs k) A"

abbreviation nowhere :: "addr \<Rightarrow> (list_ref \<Rightarrow> addr list) \<Rightarrow> bool" where
  "nowhere a A \<equiv> \<forall>l. a \<notin> set (A l)"

abbreviation prio :: "addr \<Rightarrow> kernel \<Rightarrow> nat" where
  "prio a k \<equiv> unat (task_priority (tcbs k a))"

lemma queue_ok_D:
  assumes "queue_ok k A"
  shows "dl_holds (lmem k) A" "maps_ok (G_readyQ k) A" "is_top A (highest_tcb (G_readyQ k))" "homes_ok (tcbs k) A"
  using assms by (auto simp: queue_ok_def)

lemma queue_ok_same: "same_queues k k' \<Longrightarrow> queue_ok k' A = queue_ok k A"
  by (simp add: same_queues_def queue_ok_def)

lemma homes_ok_D:
  "homes_ok t A \<Longrightarrow> task_list l \<Longrightarrow> a \<in> set (A l) \<Longrightarrow> resident (t a) l"
  by (auto simp: homes_ok_def)

lemma ready_prio:
  assumes "homes_ok t A" and "a \<in> set (A (Ready_list p))"
  shows "unat (task_priority (t a)) = p" "status (t a) = TASK_STATUS_READY" "p < PRIORITY_NUM_MAX"
  using homes_ok_D [OF assms(1) _ assms(2)]
  by (auto simp: resident_def home_def split: task_status.splits)

text \<open>A task in no list may change; any task may change as long as it may stay in its list.\<close>

lemma homes_ok_upd:
  assumes "homes_ok t A" and "nowhere a A \<or> (\<forall>l. resident (t a) l \<longrightarrow> resident u l)"
  shows "homes_ok (t(a := u)) A"
  using assms unfolding homes_ok_def by auto

lemma upd_tcb_ok:
  assumes "queue_ok k A" and "nowhere a A \<or> (\<forall>l. resident (tcbs k a) l \<longrightarrow> resident (f (tcbs k a)) l)"
  shows "queue_ok (upd_tcb a f k) A"
  using assms homes_ok_upd [of "tcbs k" A a "f (tcbs k a)"] by (simp add: queue_ok_def)

text \<open>Lists other than the ready lists.\<close>

lemma ready_same:
  assumes "\<And>p. B (Ready_list p) = A (Ready_list p)"
  shows "maps_ok q B = maps_ok q A" "is_top B h = is_top A h"
  using assms by (simp_all add: maps_ok_def is_top_def split: option.split)

lemma upd_lists_ok:
  assumes "queue_ok k A" and "dl_holds (f (lmem k)) B" and "\<And>p. B (Ready_list p) = A (Ready_list p)"
    and "\<And>l a. task_list l \<Longrightarrow> a \<in> set (B l) \<Longrightarrow> a \<notin> set (A l) \<Longrightarrow> resident (tcbs k a) l"
  shows "queue_ok (upd_lists f k) B"
proof -
  have "homes_ok (tcbs k) B"
    using assms(3,4) queue_ok_D(4) [OF assms(1)] unfolding homes_ok_def by (metis)
  then show ?thesis using assms by (simp add: queue_ok_def ready_same [of B A])
qed

lemma enqueue_ok:
  assumes ok: "queue_ok k A" and new: "nowhere a A" and l: "\<not> is_ready_list l"
    and h: "task_list l \<Longrightarrow> resident (tcbs k a) l"
  shows "queue_ok (upd_lists (dlist_add l a) k) (A(l := A l @ [a]))"
proof (rule upd_lists_ok [OF ok])
  show "dl_holds (dlist_add l a (lmem k)) (A(l := A l @ [a]))"
    using dl.add_law [OF queue_ok_D(1) [OF ok] new] .
  show "(A(l := A l @ [a])) (Ready_list p) = A (Ready_list p)" for p using l by auto
qed (use h in \<open>auto split: if_splits\<close>)

lemma insert_ok:
  assumes ok: "queue_ok k A" and new: "nowhere a A" and l: "\<not> is_ready_list l" "A l = xs @ ys"
    and h: "task_list l \<Longrightarrow> resident (tcbs k a) l"
  shows "queue_ok (upd_lists (dlist_insert l (final xs) a) k) (A(l := xs @ a # ys))"
proof (rule upd_lists_ok [OF ok])
  show "dl_holds (dlist_insert l (final xs) a (lmem k)) (A(l := xs @ a # ys))"
    using dl.insert_law [OF queue_ok_D(1) [OF ok] l(2) new] .
  show "(A(l := xs @ a # ys)) (Ready_list p) = A (Ready_list p)" for p using l by auto
qed (use h l in \<open>auto split: if_splits\<close>)

lemma dequeue_ok:
  assumes ok: "queue_ok k A" and a: "a \<in> set (A l)" and l: "\<not> is_ready_list l"
  shows "queue_ok (upd_lists (dlist_remove l a) k) (A(l := remove1 a (A l)))"
proof (rule upd_lists_ok [OF ok])
  show "dl_holds (dlist_remove l a (lmem k)) (A(l := remove1 a (A l)))"
    using dl.remove_law [OF queue_ok_D(1) [OF ok] a] .
  show "(A(l := remove1 a (A l))) (Ready_list p) = A (Ready_list p)" for p using l by auto
qed (auto split: if_splits dest: notin_set_remove1)

lemma dequeued_nowhere:
  "queue_ok k A \<Longrightarrow> a \<in> set (A l) \<Longrightarrow> nowhere a (A(l := remove1 a (A l)))"
  using dl.removed_nowhere [OF queue_ok_D(1)] by blast

lemma list_get_ok:
  assumes ok: "queue_ok k A" and l: "\<not> is_ready_list l"
  shows "case A l of
      [] \<Rightarrow> list_get l k = (None, k)
    | a # xs \<Rightarrow> list_get l k = (Some a, upd_lists (dlist_remove l a) k) \<and>
                 queue_ok (upd_lists (dlist_remove l a) k) (A(l := xs)) \<and> nowhere a (A(l := xs))"
proof (cases "A l")
  case Nil
  then show ?thesis using dl.get_empty [OF queue_ok_D(1) [OF ok] Nil] by (simp add: list_get_def)
next
  case (Cons a xs)
  then have "list_get l k = (Some a, upd_lists (dlist_remove l a) k)"
    using dl.get_holds(1) [OF queue_ok_D(1) [OF ok] Cons] by (simp add: list_get_def upd_lists_def)
  moreover have "queue_ok (upd_lists (dlist_remove l a) k) (A(l := xs))" "nowhere a (A(l := xs))"
    using dequeue_ok [OF ok _ l, of a] dequeued_nowhere [OF ok, of a l] Cons by simp_all
  ultimately show ?thesis using Cons by (simp del: fun_upd_apply)
qed

section \<open>Putting and removing\<close>

lemma bit_or_push: "i < LENGTH('a) \<Longrightarrow> bit (w OR push_bit i 1 :: 'a::len word) j \<longleftrightarrow> bit w j \<or> i = j"
  by (auto simp: bit_simps)

lemma bit_clear_push: "bit (w AND NOT (push_bit i 1) :: 'a::len word) j \<longleftrightarrow> bit w j \<and> i \<noteq> j"
  by (auto simp: bit_simps dest: bit_imp_le_length)

lemma word_ne_0: "bit w i \<Longrightarrow> w \<noteq> (0 :: 'a::len word)"
  by auto

lemma div_mod_eq: "(p :: nat) div 32 = q div 32 \<Longrightarrow> p mod 32 = q mod 32 \<Longrightarrow> p = q"
  by (metis div_mult_mod_eq)

lemma maps_put:
  fixes w :: uint32
  assumes m: "maps_ok q A" and w: "unat w = p" "p < PRIORITY_NUM_MAX"
    and B: "\<And>i. B (Ready_list i) = (if i = p then A (Ready_list p) @ [a] else A (Ready_list i))"
  shows "maps_ok (q\<lparr>metaBMap := metaBMap q OR push_bit (unat (drop_bit 5 w)) 1,
           bMap := (bMap q)[unat (drop_bit 5 w) := bMap q ! unat (drop_bit 5 w) OR push_bit (unat (w AND 0x1f)) 1]\<rparr>) B"
proof -
  have s: "unat (drop_bit 5 w) = p div 32" "unat (w AND 0x1f) = p mod 32" "p div 32 < 8" "p mod 32 < 32"
    using prio_split [of w] w by auto
  have "bMap q ! (p div 32) OR push_bit (p mod 32) 1 \<noteq> (0 :: uint32)"
    using s(4) by (intro word_ne_0 [of _ "p mod 32"]) (simp add: bit_or_push del: push_bit_of_1)
  then show ?thesis
    using m s unfolding maps_ok_def
    by (auto simp: B bit_or_push nth_list_update simp del: push_bit_of_1 dest: div_mod_eq)
qed


lemma maps_remove:
  fixes w :: uint32
  assumes m: "maps_ok q A" and w: "unat w = p" "p < PRIORITY_NUM_MAX"
    and B: "\<And>i. i \<noteq> p \<Longrightarrow> B (Ready_list i) = A (Ready_list i)" "B (Ready_list p) = []"
    and g: "g = unat (drop_bit 5 w)" "v = bMap q ! g AND NOT (push_bit (unat (w AND 0x1f)) 1)"
  shows "maps_ok (q\<lparr>bMap := (bMap q)[g := v],
           metaBMap := if v = 0 then metaBMap q AND NOT (push_bit g 1) else metaBMap q\<rparr>) B"
proof -
  have s: "unat (drop_bit 5 w) = p div 32" "unat (w AND 0x1f) = p mod 32" "p div 32 < 8" "p mod 32 < 32"
    using prio_split [of w] w by auto
  have v: "bit v j \<longleftrightarrow> bit (bMap q ! (p div 32)) j \<and> p mod 32 \<noteq> j" for j
    unfolding g s by (rule bit_clear_push)
  have "bMap q ! (p div 32) \<noteq> 0" if "v \<noteq> 0"
    using that v by (auto simp: bit_eq_iff)
  moreover have "bit (bMap q ! (i div 32)) (i mod 32) \<longleftrightarrow> A (Ready_list i) \<noteq> []" if "i < 256" for i
    using m that by (auto simp: maps_ok_def)
  ultimately have "bit ((bMap q)[p div 32 := v] ! (i div 32)) (i mod 32) \<longleftrightarrow> B (Ready_list i) \<noteq> []" if "i < 256" for i
    using that m s B v div_mod_eq [of i p] by (cases "i = p") (auto simp: maps_ok_def nth_list_update)
  moreover have "bit (if v = 0 then metaBMap q AND NOT (push_bit (p div 32) 1) else metaBMap q) i \<longleftrightarrow>
      i < 8 \<and> (bMap q)[p div 32 := v] ! i \<noteq> 0" for i
    using m s \<open>v \<noteq> 0 \<Longrightarrow> bMap q ! (p div 32) \<noteq> 0\<close>
    by (auto simp: maps_ok_def nth_list_update bit_clear_push simp del: push_bit_of_1)
  ultimately show ?thesis
    using m by (cases "v = 0") (simp_all add: maps_ok_def g(1) s(1) del: push_bit_of_1)
qed

text \<open>The two level search finds the first non-empty list.\<close>

lemma highest_pri_found:
  assumes m: "maps_ok q A" and p: "p < PRIORITY_NUM_MAX" "A (Ready_list p) \<noteq> []" "\<And>i. i < p \<Longrightarrow> A (Ready_list i) = []"
  shows "readQ_highest_pri q = int p"
proof -
  have bits: "bit (bMap q ! (i div 32)) (i mod 32) \<longleftrightarrow> A (Ready_list i) \<noteq> []" if "i < 256" for i
    using m that by (auto simp: maps_ok_def)
  have meta: "bit (metaBMap q) i \<longleftrightarrow> i < 8 \<and> bMap q ! i \<noteq> 0" for i using m by (simp add: maps_ok_def)
  have "bMap q ! (p div 32) \<noteq> 0" using bits [of p] p by (intro word_ne_0) auto
  then have mp: "bit (metaBMap q) (p div 32)" using meta p(1) by auto
  obtain i where i: "i < 32" "LSB (metaBMap q) = int i" "bit (metaBMap q) i" "\<And>m. m < i \<Longrightarrow> \<not> bit (metaBMap q) m"
    using LSB_lowest [OF word_ne_0 [OF mp]] by metis
  have i8: "i < 8" "bMap q ! i \<noteq> 0" using i(3) meta by auto
  have "i \<le> p div 32" using i(4) mp by (meson not_le)
  obtain j where j: "j < 32" "LSB (bMap q ! i) = int j" "bit (bMap q ! i) j" "\<And>m. m < j \<Longrightarrow> \<not> bit (bMap q ! i) m"
    using LSB_lowest [OF i8(2)] by metis
  have ij: "(32 * i + j) div 32 = i" "(32 * i + j) mod 32 = j" using j(1) by auto
  have "A (Ready_list (32 * i + j)) \<noteq> []" using bits [of "32 * i + j"] ij j(1,3) i8(1) by auto
  then have "p \<le> 32 * i + j" using p(3) by (meson not_le)
  with \<open>i \<le> p div 32\<close> have ip: "i = p div 32" using j(1) by auto
  have "j \<le> p mod 32" using j(4) bits [of p] p(1,2) ip by (meson not_le)
  with \<open>p \<le> 32 * i + j\<close> ip have jp: "j = p mod 32" by (metis add_le_cancel_left le_antisym mult_div_mod_eq)
  have "push_bit 5 (of_nat i) OR of_nat j = (of_nat (32 * i + j) :: uint32)"
  proof -
    have "push_bit 5 (of_nat i) OR of_nat j = (push_bit 5 (of_nat i) + of_nat j :: uint32)"
    proof (rule disjunctive_add [symmetric])
      fix n
      have "take_bit 5 (of_nat j :: uint32) = of_nat (take_bit 5 j)" by (simp add: of_nat_take_bit)
      then have "take_bit 5 (of_nat j :: uint32) = of_nat j" using j(1) by (simp add: take_bit_nat_eq_self)
      then have "\<not> bit (of_nat j :: uint32) n" if "5 \<le> n"
        using that by (metis bit_take_bit_iff not_le)
      then show "\<not> bit (push_bit 5 (of_nat i) :: uint32) n \<or> \<not> bit (of_nat j :: uint32) n"
        by (auto simp: bit_push_bit_iff)
    qed
    then show ?thesis by (simp add: push_bit_eq_mult)
  qed
  moreover have "bMap_at (word_of_int (int i)) q = bMap q ! i"
  proof -
    have "unat (of_nat i :: uint32) = i" using i8(1) by simp
    moreover have "(of_nat i :: uint32) \<noteq> 0xffffffff"
    proof
      assume "(of_nat i :: uint32) = 0xffffffff"
      from arg_cong [OF this, of unat] i8(1) show False by simp
    qed
    ultimately show ?thesis by (simp add: bMap_at_def)
  qed
  ultimately have "readQ_highest_pri q = sint (of_nat (32 * i + j) :: uint32)"
    by (simp add: readQ_highest_pri_def i(2) j(2))
  also have "\<dots> = int (32 * i + j)"
    using i8(1) j(1) by (intro sint_of_nat32) simp
  finally show ?thesis using ip jp by simp
qed


lemma highest_pri_none:
  assumes m: "maps_ok q A" and e: "\<And>p. p < PRIORITY_NUM_MAX \<Longrightarrow> A (Ready_list p) = []"
  shows "readQ_highest_pri q = -1" "bMap q ! 6 = 0"
proof -
  have z: "bMap q ! i = 0" if "i < 8" for i
  proof -
    have "\<not> bit (bMap q ! i) j" if "j < 32" for j
    proof -
      have "(32 * i + j) div 32 = i" "(32 * i + j) mod 32 = j" "32 * i + j < 256" using that \<open>i < 8\<close> by auto
      with m e [of "32 * i + j"] show ?thesis by (auto simp: maps_ok_def)
    qed
    then show ?thesis by (simp add: word_eq_0_iff_bits)
  qed
  then show "bMap q ! 6 = 0" by simp
  have "metaBMap q = 0" using m z by (auto simp: maps_ok_def word_eq_0_iff_bits)
  then show "readQ_highest_pri q = -1"
    by (simp add: readQ_highest_pri_def LSB_def bMap_at_def)
qed

lemma is_top_unique:
  assumes "is_top A h" and "is_top A h'"
  shows "h = h'"
proof -
  have "p = p'" if "A (Ready_list p) \<noteq> []" "\<forall>q < p. A (Ready_list q) = []"
    "A (Ready_list p') \<noteq> []" "\<forall>q < p'. A (Ready_list q) = []" for p p'
    using that by (metis nat_neq_iff)
  then show ?thesis using assms
    by (auto simp: is_top_def first_eq_Some split: option.splits) (metis list.distinct(1) list.inject)
qed

lemma readyQ_put_tcbs:
  "tcbs (readyQ_put a k) = (tcbs k)(a := (tcbs k a)\<lparr>status := TASK_STATUS_READY, pend_obj := None\<rparr>)"
  by (simp add: readyQ_put_def Let_def)

lemma readyQ_put_objects: "same_objects k (readyQ_put a k)"
  by (simp add: readyQ_put_def Let_def)

lemma readyQ_remove_tcbs: "tcbs (readyQ_remove a k) = tcbs k"
  by (simp add: readyQ_remove_def Let_def)

lemma readyQ_remove_objects: "same_objects k (readyQ_remove a k)"
  by (simp add: readyQ_remove_def Let_def)

lemma resident_ready:
  "resident (t\<lparr>status := TASK_STATUS_READY, pend_obj := None\<rparr>) l \<longleftrightarrow>
     l = Ready_list (unat (task_priority t)) \<and> unat (task_priority t) < PRIORITY_NUM_MAX"
  by (auto simp: resident_def home_def)

lemma readyQ_put_ok:
  assumes ok: "queue_ok k A" and new: "nowhere a A" and p: "prio a k < PRIORITY_NUM_MAX"
  shows "queue_ok (readyQ_put a k) (A(Ready_list (prio a k) := A (Ready_list (prio a k)) @ [a]))"
proof -
  note d = queue_ok_D [OF ok]
  let ?w = "task_priority (tcbs k a)" and ?p = "prio a k"
  let ?B = "A(Ready_list ?p := A (Ready_list ?p) @ [a])" and ?h = "highest_tcb (G_readyQ k)"
  have "dl_holds (lmem (readyQ_put a k)) ?B"
    using dl.add_law [OF d(1) new] by (simp add: readyQ_put_def Let_def)
  moreover have "maps_ok (G_readyQ (readyQ_put a k)) ?B"
    using maps_put [OF d(2) refl p, of ?B a]
    by (auto simp: readyQ_put_def Let_def maps_ok_def simp del: push_bit_of_1)
  moreover have "is_top ?B (highest_tcb (G_readyQ (readyQ_put a k)))"
  proof (cases ?h)
    case None
    then show ?thesis using d(3) p
      by (auto simp: readyQ_put_def Let_def is_top_def intro!: exI [of _ ?p])
  next
    case (Some b)
    with d(3) obtain q where q: "q < 256" "first (A (Ready_list q)) = Some b" "\<forall>i < q. A (Ready_list i) = []"
      by (auto simp: is_top_def)
    have bq: "prio b k = q" using ready_prio(1) [OF d(4)] first_in_set [OF q(2)] by simp
    show ?thesis
    proof (cases "?w < task_priority (tcbs k b)")
      case True
      then have "?p < q" by (simp add: word_less_nat_alt bq)
      with True Some q p show ?thesis
        by (auto simp: readyQ_put_def Let_def is_top_def intro!: exI [of _ ?p])
    next
      case False
      then have "q \<le> ?p" by (simp add: word_less_nat_alt bq)
      with False Some q p show ?thesis
        by (auto simp: readyQ_put_def Let_def is_top_def first_append intro!: exI [of _ q])
    qed
  qed
  moreover have "homes_ok (tcbs (readyQ_put a k)) ?B"
    using d(4) new p by (auto simp: readyQ_put_tcbs homes_ok_def resident_ready)
  ultimately show ?thesis by (simp add: queue_ok_def)
qed


text \<open>Recomputing the cached task from the maps.\<close>

lemma top_found:
  assumes m: "maps_ok (G_readyQ k) A" and f: "\<And>l. DL_FIRST l (lmem k) = first (A l)"
  shows "is_top A (listArray_first (readQ_highest_pri (G_readyQ k)) k)"
proof (cases "\<exists>p < 256. A (Ready_list p) \<noteq> []")
  case True
  then have "\<exists>p. (p < 256 \<and> A (Ready_list p) \<noteq> []) \<and> (\<forall>i < p. \<not> (i < 256 \<and> A (Ready_list i) \<noteq> []))"
    by (intro exists_least_iff [THEN iffD1]) auto
  then obtain p where p: "p < 256" "A (Ready_list p) \<noteq> []" "\<And>i. i < p \<Longrightarrow> A (Ready_list i) = []"
    by (metis less_trans)
  have "readQ_highest_pri (G_readyQ k) = int p" by (rule highest_pri_found [OF m p])
  then show ?thesis using p f
    by (cases "A (Ready_list p)") (auto simp: listArray_first_def is_top_def intro!: exI [of _ p])
next
  case False
  then have "readQ_highest_pri (G_readyQ k) = -1" "bMap (G_readyQ k) ! 6 = 0"
    using highest_pri_none [OF m] by auto
  with False show ?thesis by (auto simp: listArray_first_def is_top_def word_ptr_def)
qed

text \<open>A task other than the highest leaves.\<close>

lemma top_kept:
  assumes t: "is_top A h" and n: "Some a \<noteq> h" and a: "a \<in> set (A (Ready_list p))" "p < PRIORITY_NUM_MAX"
  shows "is_top (A(l := remove1 a (A l))) h"
proof (cases h)
  case None
  with t a show ?thesis by (auto simp: is_top_def)
next
  case (Some b)
  with t obtain q where "q < 256" "first (A (Ready_list q)) = Some b" "\<forall>i < q. A (Ready_list i) = []"
    by (auto simp: is_top_def)
  with n Some show ?thesis
    by (auto simp: is_top_def first_eq_Some intro!: exI [of _ q])
qed

lemma readyQ_remove_ok:
  assumes ok: "queue_ok k A" and a: "a \<in> set (A (Ready_list p))"
  shows "queue_ok (readyQ_remove a k) (A(Ready_list p := remove1 a (A (Ready_list p))))"
proof -
  note d = queue_ok_D [OF ok]
  have p: "prio a k = p" "p < 256" using ready_prio [OF d(4) a] by auto
  let ?w = "task_priority (tcbs k a)" and ?l = "Ready_list p"
  let ?B = "A(?l := remove1 a (A ?l))" and ?m = "dlist_remove ?l a (lmem k)"
  define g where "g = unat (drop_bit 5 ?w)"
  define v where "v = bMap (G_readyQ k) ! g AND NOT (push_bit (unat (?w AND 0x1f)) 1)"
  have g8: "g < length (bMap (G_readyQ k))"
    using prio_split [of ?w] p d(2) by (simp add: g_def maps_ok_def)
  have holds: "dl_holds ?m ?B" using dl.remove_law [OF d(1) a] .
  have first': "DL_FIRST l ?m = first (?B l)" for l using dl.first_law [OF holds] .
  have empty: "DL_EMPTY ?l ?m \<longleftrightarrow> remove1 a (A ?l) = []"
    using first' [of ?l] by (simp add: dl_macros)
  have homes: "homes_ok (tcbs k) ?B"
    using d(4) by (auto simp: homes_ok_def dest!: subsetD [OF set_remove1_subset])
  have "dl_holds (lmem (readyQ_remove a k)) ?B"
    using holds by (simp add: readyQ_remove_def Let_def p)
  moreover have "maps_ok (G_readyQ (readyQ_remove a k)) ?B \<and> is_top ?B (highest_tcb (G_readyQ (readyQ_remove a k)))"
  proof (cases "remove1 a (A ?l) = []")
    case True
    let ?q = "G_readyQ k\<lparr>bMap := (bMap (G_readyQ k))[g := v],
                metaBMap := if v = 0 then metaBMap (G_readyQ k) AND NOT (push_bit g 1) else metaBMap (G_readyQ k)\<rparr>"
    have maps: "maps_ok ?q ?B"
      by (rule maps_remove [OF d(2) p(1) p(2) _ _ g_def v_def]) (use True in auto)
    let ?k = "upd_ready (\<lambda>_. ?q) (upd_lists (dlist_remove ?l a) k)"
    have eq: "readyQ_remove a k = (if Some a = highest_tcb (G_readyQ k)
        then upd_ready (\<lambda>q. q\<lparr>highest_tcb := listArray_first (readQ_highest_pri ?q) ?k\<rparr>) ?k else ?k)"
      using True empty g8 unfolding readyQ_remove_def Let_def p(1) g_def [symmetric]
      by (simp add: upd_ready_def upd_lists_def v_def del: push_bit_of_1)
    have maps': "maps_ok (?q\<lparr>highest_tcb := h\<rparr>) ?B" for h using maps by (simp add: maps_ok_def)
    have top: "is_top ?B (listArray_first (readQ_highest_pri ?q) ?k)"
      using top_found [of ?k ?B] maps first' by (simp del: push_bit_of_1)
    show ?thesis
    proof (cases "Some a = highest_tcb (G_readyQ k)")
      case True
      then show ?thesis using maps' top by (simp add: eq del: push_bit_of_1)
    next
      case False
      have "is_top ?B (highest_tcb (G_readyQ k))"
        by (rule top_kept [OF d(3) False a p(2)])
      with False maps show ?thesis by (simp add: eq del: push_bit_of_1)
    qed
  next
    case False
    have "maps_ok (G_readyQ k) ?B"
      using d(2) False a by (auto simp: maps_ok_def)
    then have maps': "maps_ok (G_readyQ k\<lparr>highest_tcb := h\<rparr>) ?B" for h by (simp add: maps_ok_def)
    have eq: "G_readyQ (readyQ_remove a k) = (if Some a = highest_tcb (G_readyQ k)
        then G_readyQ k\<lparr>highest_tcb := first (remove1 a (A ?l))\<rparr> else G_readyQ k)"
      using False first' [of ?l] by (simp add: readyQ_remove_def Let_def empty p)
    show ?thesis
    proof (cases "Some a = highest_tcb (G_readyQ k)")
      case True
      obtain q where q: "q < 256" "first (A (Ready_list q)) = Some a" "\<forall>i < q. A (Ready_list i) = []"
        using d(3) by (auto simp: is_top_def simp flip: True)
      have "q = p" using dl.holds_disjoint [OF d(1) _ a] first_in_set [OF q(2)] by auto
      then have "is_top ?B (first (remove1 a (A ?l)))"
        using q False by (cases "remove1 a (A ?l)") (auto simp: is_top_def intro!: exI [of _ p])
      with maps' True show ?thesis by (simp add: eq)
    next
      case False
      have "is_top ?B (highest_tcb (G_readyQ k))"
        by (rule top_kept [OF d(3) False a p(2)])
      with False \<open>maps_ok (G_readyQ k) ?B\<close> show ?thesis by (simp add: eq)
    qed
  qed
  ultimately show ?thesis using homes by (simp add: queue_ok_def readyQ_remove_tcbs)
qed


section \<open>The contract of the task queues\<close>

text \<open>
  What the modules that block and wake tasks need: put, remove, and the list
  operations keep the invariant, each with its effect on the abstract queues. The
  three compositions every module uses are proved once.
\<close>

locale task_queues =
  fixes ok :: "'s \<Rightarrow> (list_ref \<Rightarrow> addr list) \<Rightarrow> bool"
    and tcb :: "addr \<Rightarrow> 's \<Rightarrow> OS_TCB"
    and put :: "addr \<Rightarrow> 's \<Rightarrow> 's"
    and remove :: "addr \<Rightarrow> 's \<Rightarrow> 's"
    and enq :: "list_ref \<Rightarrow> addr \<Rightarrow> 's \<Rightarrow> 's"
    and deq :: "list_ref \<Rightarrow> addr \<Rightarrow> 's \<Rightarrow> 's"
    and touch :: "addr \<Rightarrow> (OS_TCB \<Rightarrow> OS_TCB) \<Rightarrow> 's \<Rightarrow> 's"
  assumes put_law: "ok s A \<Longrightarrow> nowhere a A \<Longrightarrow> unat (task_priority (tcb a s)) < PRIORITY_NUM_MAX \<Longrightarrow>
      ok (put a s) (A(Ready_list (unat (task_priority (tcb a s))) := A (Ready_list (unat (task_priority (tcb a s)))) @ [a]))"
    and remove_law: "ok s A \<Longrightarrow> a \<in> set (A (Ready_list p)) \<Longrightarrow>
      ok (remove a s) (A(Ready_list p := remove1 a (A (Ready_list p))))"
    and enq_law: "ok s A \<Longrightarrow> nowhere a A \<Longrightarrow> \<not> is_ready_list l \<Longrightarrow> resident (tcb a s) l \<Longrightarrow>
      ok (enq l a s) (A(l := A l @ [a]))"
    and deq_law: "ok s A \<Longrightarrow> a \<in> set (A l) \<Longrightarrow> \<not> is_ready_list l \<Longrightarrow> ok (deq l a s) (A(l := remove1 a (A l)))"
    and touch_law: "ok s A \<Longrightarrow> nowhere a A \<Longrightarrow> ok (touch a f s) A"
    and gone: "ok s A \<Longrightarrow> a \<in> set (A l) \<Longrightarrow> nowhere a (A(l := remove1 a (A l)))"
    and residence: "ok s A \<Longrightarrow> task_list l \<Longrightarrow> a \<in> set (A l) \<Longrightarrow> resident (tcb a s) l"
    and tcb_frame: "tcb b (remove a s) = tcb b s" "tcb b (deq l a s) = tcb b s" "tcb a (touch a f s) = f (tcb a s)"
begin

lemma ready_priority:
  assumes "ok s A" and "a \<in> set (A (Ready_list p))"
  shows "unat (task_priority (tcb a s)) = p" "p < PRIORITY_NUM_MAX" "status (tcb a s) = TASK_STATUS_READY"
  using residence [OF assms(1) _ assms(2)] by (auto simp: resident_def home_def split: task_status.splits)

text \<open>A task of a waiting list is made ready; its fields may be changed on the way.\<close>

lemma wake_law:
  assumes "ok s A" and "a \<in> set (A l)" and "task_list l" and "\<not> is_ready_list l"
    and "task_priority (f (tcb a s)) = task_priority (tcb a s)"
  shows "ok (put a (touch a f (deq l a s)))
           (A(l := remove1 a (A l), Ready_list (unat (task_priority (tcb a s))) :=
              A (Ready_list (unat (task_priority (tcb a s)))) @ [a]))"
proof -
  define B where "B = A(l := remove1 a (A l))"
  have new: "nowhere a B" unfolding B_def by (rule gone [OF assms(1,2)])
  have "ok (deq l a s) B" unfolding B_def by (intro deq_law assms)
  from put_law [OF touch_law [OF this new] new, of f]
  have "ok (put a (touch a f (deq l a s))) (B(Ready_list (unat (task_priority (tcb a s))) :=
      B (Ready_list (unat (task_priority (tcb a s)))) @ [a]))"
    using assms(5) residence [OF assms(1,3,2)] by (simp add: tcb_frame resident_def)
  moreover have "B (Ready_list p) = A (Ready_list p)" for p using assms(4) by (auto simp: B_def)
  ultimately show ?thesis by (simp add: B_def)
qed

text \<open>The running task goes to the end of its ready list.\<close>

lemma rotate_law:
  assumes "ok s A" and "a \<in> set (A (Ready_list p))"
  shows "ok (put a (remove a s)) (A(Ready_list p := remove1 a (A (Ready_list p)) @ [a]))"
proof -
  define B where "B = A(Ready_list p := remove1 a (A (Ready_list p)))"
  have "ok (remove a s) B" unfolding B_def by (rule remove_law [OF assms])
  moreover have "nowhere a B" unfolding B_def by (rule gone [OF assms])
  ultimately have "ok (put a (remove a s)) (B(Ready_list p := B (Ready_list p) @ [a]))"
    using put_law [of "remove a s" B a] ready_priority [OF assms] by (simp add: tcb_frame)
  then show ?thesis by (simp add: B_def)
qed

text \<open>A ready task changes its fields and joins a waiting list.\<close>

lemma block_law:
  assumes "ok s A" and "a \<in> set (A (Ready_list p))" and "\<not> is_ready_list l" and "resident (f (tcb a s)) l"
  shows "ok (enq l a (touch a f (remove a s)))
           (A(Ready_list p := remove1 a (A (Ready_list p)), l := A l @ [a]))"
proof -
  define B where "B = A(Ready_list p := remove1 a (A (Ready_list p)))"
  have new: "nowhere a B" unfolding B_def by (rule gone [OF assms(1,2)])
  have "ok (remove a s) B" unfolding B_def by (rule remove_law [OF assms(1,2)])
  from enq_law [OF touch_law [OF this new] new assms(3), of f]
  have "ok (enq l a (touch a f (remove a s))) (B(l := B l @ [a]))"
    using assms(4) by (simp add: tcb_frame)
  moreover have "B l = A l" using assms(3) by (auto simp: B_def)
  ultimately show ?thesis by (simp add: B_def)
qed

end

interpretation tq: task_queues queue_ok "\<lambda>a k. tcbs k a" readyQ_put readyQ_remove
  "\<lambda>l a. upd_lists (dlist_add l a)" "\<lambda>l a. upd_lists (dlist_remove l a)" upd_tcb
proof unfold_locales
  fix k A a
  assume "queue_ok k A" "nowhere a A" "prio a k < 256"
  then show "queue_ok (readyQ_put a k) (A(Ready_list (prio a k) := A (Ready_list (prio a k)) @ [a]))"
    by (rule readyQ_put_ok)
next
  fix k A a p
  assume "queue_ok k A" "a \<in> set (A (Ready_list p))"
  then show "queue_ok (readyQ_remove a k) (A(Ready_list p := remove1 a (A (Ready_list p))))"
    by (rule readyQ_remove_ok)
next
  fix k A a l
  assume "queue_ok k A" "nowhere a A" "\<not> is_ready_list l" "resident (tcbs k a) l"
  then show "queue_ok (upd_lists (dlist_add l a) k) (A(l := A l @ [a]))"
    by (rule enqueue_ok)
next
  fix k A a l
  assume "queue_ok k A" "a \<in> set (A l)" "\<not> is_ready_list l"
  then show "queue_ok (upd_lists (dlist_remove l a) k) (A(l := remove1 a (A l)))"
    by (rule dequeue_ok)
next
  fix k A a l
  assume "queue_ok k A" "a \<in> set (A l)"
  then show "nowhere a (A(l := remove1 a (A l)))" by (rule dequeued_nowhere)
qed (auto simp: readyQ_remove_tcbs queue_ok_def homes_ok_def)

section \<open>What the ready queue does\<close>

text \<open>The order in which the ready tasks would run: by priority, first come first in each list.\<close>

definition schedule :: "(list_ref \<Rightarrow> addr list) \<Rightarrow> addr list" where
  "schedule A = concat (map (\<lambda>p. A (Ready_list p)) [0..<PRIORITY_NUM_MAX])"

lemma first_concat:
  "first (concat xss) = Some x \<longleftrightarrow> (\<exists>i < length xss. first (xss ! i) = Some x \<and> (\<forall>j < i. xss ! j = []))"
proof (induction xss)
  case (Cons xs xss)
  show ?case
  proof (cases "xs = []")
    case True
    then show ?thesis using Cons by (auto simp: Ex_less_Suc2 All_less_Suc2)
  next
    case False
    then show ?thesis by (auto simp: first_append Ex_less_Suc2 All_less_Suc2)
  qed
qed simp

lemma is_top_schedule: "is_top A h \<longleftrightarrow> h = first (schedule A)"
proof (cases h)
  case None
  then show ?thesis by (auto simp: is_top_def schedule_def eq_commute [of None])
next
  case (Some a)
  have "first (schedule A) = Some a \<longleftrightarrow> is_top A (Some a)"
    unfolding schedule_def first_concat is_top_def by auto
  with Some show ?thesis by auto
qed

lemma highest_first:
  assumes "queue_ok k A"
  shows "G_p_current_tcb (LOAD_HIGHEST_TASK k) = first (schedule A)"
  using queue_ok_D(3) [OF assms] by (simp add: is_top_schedule LOAD_HIGHEST_TASK_def)

text \<open>A kernel without tasks.\<close>

definition demo_tcb :: "addr \<Rightarrow> OS_TCB" where
  "demo_tcb a = \<lparr>sp = 0, task_name = [], task_entry = 0, task_priority = (if a = 100 then 3 else if a = 200 then 5 else 7),
     stack_start = 0, stack_size = 0, arg1 = 0, arg2 = 0, delay_ticks = 0,
     origin_pri = (if a = 100 then 3 else if a = 200 then 5 else 7), status = TASK_STATUS_READY, pend_obj = None\<rparr>"

definition empty_kernel :: kernel where
  "empty_kernel = \<lparr>lmem = \<lparr>nodes = (\<lambda>_. \<lparr>dl_next = None, dl_previous = None\<rparr>), lists = (\<lambda>_. \<lparr>dl_head = None, dl_tail = None\<rparr>)\<rparr>,
     tcbs = demo_tcb, G_readyQ = \<lparr>highest_tcb = None, metaBMap = 0, bMap = replicate 8 0\<rparr>, G_p_current_tcb = None,
     G_Task_Num = 0, G_tcb = 0, G_tcb_map = replicate 8 0xffffffff, G_stack_map = replicate 64 0xffffffff, G_ticks = 0,
     semBs = (\<lambda>_. \<lparr>semB_owner = None\<rparr>), semCs = (\<lambda>_. \<lparr>count = 0, max_count = 1\<rparr>),
     semMs = (\<lambda>_. \<lparr>semM_owner = None, take_count = 0, wait_pri = 255\<rparr>),
     msgQs = (\<lambda>_. \<lparr>max_num = 1, max_len = 4, cur_num = 0\<rparr>), kheap = fresh_heap\<rparr>"

lemma empty_kernel_ok: "queue_ok empty_kernel (\<lambda>_. [])"
proof -
  have "replicate 8 (0 :: uint32) ! i = 0" if "i < 8" for i using that by simp
  then show ?thesis
    by (auto simp: queue_ok_def empty_kernel_def dl_holds_def dl_rep_def maps_ok_def is_top_def homes_ok_def)
qed

text \<open>\<^verbatim>\<open>LSB\<close> returns the number of the lowest bit that is set, and -1 for 0.\<close>

theorem LSB_least: "LSB b = (if b = 0 then -1 else int (LEAST n. bit b n))"
proof (cases "b = 0")
  case False
  then obtain n where n: "LSB b = int n" "bit b n" "\<And>m. m < n \<Longrightarrow> \<not> bit b m"
    using LSB_lowest by metis
  then have "(LEAST n. bit b n) = n" by (intro Least_equality) (auto simp: not_less [symmetric])
  with n False show ?thesis by simp
qed (simp add: LSB_def)

text \<open>C2: a task with a priority below 256 that is in no queue is put at the end of the list
  of its priority; lists, both bit maps and the cached task stay consistent, and the
  task that is dispatched next is the first of all ready tasks by priority and arrival.\<close>

theorem readyQ_put_schedules:
  assumes "queue_ok k A" and "nowhere a A" and "prio a k < PRIORITY_NUM_MAX"
  defines "B \<equiv> A(Ready_list (prio a k) := A (Ready_list (prio a k)) @ [a])"
  shows "queue_ok (readyQ_put a k) B \<and> status (tcbs (readyQ_put a k) a) = TASK_STATUS_READY \<and>
     G_p_current_tcb (LOAD_HIGHEST_TASK (readyQ_put a k)) = first (schedule B)"
  using readyQ_put_ok [OF assms(1-3)] highest_first by (simp add: B_def readyQ_put_tcbs)

theorem readyQ_put_schedules_witness:
  "status (tcbs (readyQ_put 100 empty_kernel) 100) = TASK_STATUS_READY \<and>
   G_p_current_tcb (LOAD_HIGHEST_TASK (readyQ_put 100 empty_kernel)) =
     first (schedule ((\<lambda>_. [])(Ready_list 3 := [100])))"
  using readyQ_put_schedules [OF empty_kernel_ok, of 100] by (simp add: empty_kernel_def demo_tcb_def)

text \<open>C3: removing a ready task takes it out of its list and nothing else; the bits of a list
  that becomes empty are cleared, and the task dispatched next is the first of the
  remaining ones, \<^verbatim>\<open>NULL\<close> when there is none, although \<^verbatim>\<open>_readQ_highest_pri\<close> then
  indexes the maps with -1.\<close>

theorem readyQ_remove_schedules:
  assumes "queue_ok k A" and "a \<in> set (A (Ready_list p))"
  defines "B \<equiv> A(Ready_list p := remove1 a (A (Ready_list p)))"
  shows "queue_ok (readyQ_remove a k) B \<and> nowhere a B \<and>
     G_p_current_tcb (LOAD_HIGHEST_TASK (readyQ_remove a k)) = first (schedule B)"
  using readyQ_remove_ok [OF assms(1,2)] dequeued_nowhere [OF assms(1,2)] highest_first by (simp add: B_def)

theorem readyQ_remove_schedules_witness:
  "G_p_current_tcb (LOAD_HIGHEST_TASK (readyQ_remove 100 (readyQ_put 100 empty_kernel))) =
     first (schedule (\<lambda>_. []))"
proof -
  define A where "A = (\<lambda>_ :: list_ref. [] :: addr list)(Ready_list 3 := [100])"
  have "queue_ok (readyQ_put 100 empty_kernel) A"
    using readyQ_put_ok [OF empty_kernel_ok, of 100] by (simp add: empty_kernel_def demo_tcb_def A_def)
  from readyQ_remove_schedules [OF this, of 100 3] show ?thesis by (simp add: A_def fun_upd_idem)
qed

end
