(* ===== verification/Waiting.thy ===== *)
theory Waiting
  imports ReadyQ "HOL-Library.Sublist"
begin

text \<open>
  Tasks that wait: the delay queue (\<^verbatim>\<open>src/delayQ.c\<close>) and \<^verbatim>\<open>wait_to_ready\<close> of
  \<^verbatim>\<open>src/semB.c\<close>, which the semaphore and message queue modules share. Both are
  called by \<^verbatim>\<open>dlist_each\<close> on a list they may change. The walk reads the \<^verbatim>\<open>next\<close>
  field after the call, and a task that has just been put at the end of a ready list
  has no successor there: the walk ends at the first task that expires, and the tasks
  behind it do not get this tick. The lemmas state this behaviour exactly.
\<close>

section \<open>Operations\<close>

definition wait_to_ready :: "list_ref \<Rightarrow> addr \<Rightarrow> kernel \<Rightarrow> (OS_STATUS \<times> kernel) option" where
  "wait_to_ready pWait_list pTcb k =
     (let k1 = (if delay_ticks (tcbs k pTcb) \<noteq> WAIT_FOREVER
                then upd_tcb pTcb (\<lambda>t. t\<lparr>delay_ticks := delay_ticks t - 1\<rparr>) k else k);
          k2 = (if delay_ticks (tcbs k1 pTcb) = 0
                then readyQ_put pTcb (upd_lists (dlist_remove pWait_list pTcb) k1) else k1)
      in Some (OS_STATUS_OK, k2))"

definition delay_to_ready :: "addr \<Rightarrow> kernel \<Rightarrow> (OS_STATUS \<times> kernel) option" where
  "delay_to_ready pTcb k =
     (let k1 = upd_tcb pTcb (\<lambda>t. t\<lparr>delay_ticks := delay_ticks t - 1\<rparr>) k;
          k2 = (if delay_ticks (tcbs k1 pTcb) = 0
                then readyQ_put pTcb (upd_lists (dlist_remove Delay_list pTcb) k1) else k1)
      in Some (OS_STATUS_OK, k2))"

definition delayQ_decrease :: "kernel \<Rightarrow> kernel option" where
  "delayQ_decrease k = map_option snd (dlist_each lmem Delay_list delay_to_ready k)"

definition delayQ_delay :: "uint32 \<Rightarrow> kernel \<Rightarrow> kernel" where
  "delayQ_delay ticks k =
     (let me = cur k
      in CONTEXT_SWITCH
           (if ticks = NO_WAIT then readyQ_put me (readyQ_remove me k)
            else upd_lists (dlist_add Delay_list me)
                   (upd_tcb me (\<lambda>t. t\<lparr>delay_ticks := ticks, status := TASK_STATUS_DELAY, pend_obj := None\<rparr>)
                     (readyQ_remove me k))))"

definition delayQ_remove :: "addr \<Rightarrow> kernel \<Rightarrow> OS_STATUS \<times> kernel" where
  "delayQ_remove pTcb k = (OS_STATUS_OK, upd_lists (dlist_remove Delay_list pTcb) k)"

section \<open>One walk over a waiting list\<close>

text \<open>The two ways a tick counts: \<open>count_wait\<close> leaves \<^verbatim>\<open>WAIT_FOREVER\<close> alone.\<close>

definition count_wait :: "uint32 \<Rightarrow> uint32" where
  "count_wait d = (if d = WAIT_FOREVER then d else d - 1)"

definition count_delay :: "uint32 \<Rightarrow> uint32" where
  "count_delay d = d - 1"

definition tick_tcb :: "(uint32 \<Rightarrow> uint32) \<Rightarrow> OS_TCB \<Rightarrow> OS_TCB" where
  "tick_tcb D t = t\<lparr>delay_ticks := D (delay_ticks t)\<rparr>"

definition expires :: "(uint32 \<Rightarrow> uint32) \<Rightarrow> kernel \<Rightarrow> addr \<Rightarrow> bool" where
  "expires D k a \<longleftrightarrow> D (delay_ticks (tcbs k a)) = 0"

lemma tick_tcb_simps [simp]:
  "task_priority (tick_tcb D t) = task_priority t" "delay_ticks (tick_tcb D t) = D (delay_ticks t)"
  "status (tick_tcb D t) = status t" "pend_obj (tick_tcb D t) = pend_obj t" "home (tick_tcb D t) = home t"
  "origin_pri (tick_tcb D t) = origin_pri t"
  by (simp_all add: tick_tcb_def home_def split: task_status.split)

definition tick_step :: "(uint32 \<Rightarrow> uint32) \<Rightarrow> list_ref \<Rightarrow> addr \<Rightarrow> kernel \<Rightarrow> kernel" where
  "tick_step D l a k =
     (if expires D k a then readyQ_put a (upd_lists (dlist_remove l a) (upd_tcb a (tick_tcb D) k))
      else upd_tcb a (tick_tcb D) k)"

lemma wait_to_ready_step: "wait_to_ready l a k = Some (OS_STATUS_OK, tick_step count_wait l a k)"
proof -
  have "(if delay_ticks (tcbs k a) \<noteq> WAIT_FOREVER then upd_tcb a (\<lambda>t. t\<lparr>delay_ticks := delay_ticks t - 1\<rparr>) k else k)
      = upd_tcb a (tick_tcb count_wait) k"
  proof (cases "delay_ticks (tcbs k a) = WAIT_FOREVER")
    case True
    then have "tick_tcb count_wait (tcbs k a) = tcbs k a" by (simp add: tick_tcb_def count_wait_def flip: True)
    with True show ?thesis by (simp add: upd_tcb_def)
  qed (simp add: upd_tcb_def tick_tcb_def count_wait_def)
  then show ?thesis by (simp add: wait_to_ready_def tick_step_def expires_def Let_def)
qed

lemma delay_to_ready_step: "delay_to_ready a k = Some (OS_STATUS_OK, tick_step count_delay Delay_list a k)"
  by (simp add: delay_to_ready_def tick_step_def expires_def Let_def tick_tcb_def count_delay_def upd_tcb_def)

text \<open>The TCBs after a tick that reached the tasks in \<open>X\<close> without an expiry.\<close>

definition ticked :: "(uint32 \<Rightarrow> uint32) \<Rightarrow> addr set \<Rightarrow> kernel \<Rightarrow> kernel" where
  "ticked D X k = k\<lparr>tcbs := (\<lambda>a. if a \<in> X then tick_tcb D (tcbs k a) else tcbs k a)\<rparr>"

lemma ticked_simps [simp]:
  "lmem (ticked D X k) = lmem k" "G_readyQ (ticked D X k) = G_readyQ k" "ticked D {} k = k"
  "tcbs (ticked D X k) a = (if a \<in> X then tick_tcb D (tcbs k a) else tcbs k a)"
  "same_objects k (ticked D X k)"
  by (simp_all add: ticked_def same_objects_def)

lemma ticked_insert: "a \<notin> X \<Longrightarrow> upd_tcb a (tick_tcb D) (ticked D X k) = ticked D (insert a X) k"
  by (auto simp: ticked_def upd_tcb_def fun_eq_iff)

lemma ticked_ok:
  assumes "queue_ok k A" and "\<And>a. a \<in> X \<Longrightarrow> \<not> expires D k a"
  shows "queue_ok (ticked D X k) A"
proof -
  have "resident (tick_tcb D (tcbs k a)) l" if "a \<in> X" "resident (tcbs k a) l" for a l
    using assms(2) [OF that(1)] that(2) by (simp add: resident_def expires_def)
  then show ?thesis
    using assms(1) by (auto simp: queue_ok_def homes_ok_def)
qed

text \<open>The state in which the walk over \<open>l\<close> ends.\<close>

definition after_tick :: "(uint32 \<Rightarrow> uint32) \<Rightarrow> list_ref \<Rightarrow> addr list \<Rightarrow> kernel \<Rightarrow> kernel" where
  "after_tick D l xs k =
     (case dropWhile (\<lambda>a. \<not> expires D k a) xs of
        [] \<Rightarrow> ticked D (set xs) k
      | z # zs \<Rightarrow> tick_step D l z (ticked D (set (takeWhile (\<lambda>a. \<not> expires D k a) xs)) k))"

text \<open>... and the queues it leaves.\<close>

definition queues_after :: "(uint32 \<Rightarrow> uint32) \<Rightarrow> list_ref \<Rightarrow> kernel \<Rightarrow> (list_ref \<Rightarrow> addr list) \<Rightarrow> list_ref \<Rightarrow> addr list" where
  "queues_after D l k A =
     (case List.find (expires D k) (A l) of
        None \<Rightarrow> A
      | Some z \<Rightarrow> A(l := remove1 z (A l), Ready_list (prio z k) := A (Ready_list (prio z k)) @ [z]))"

lemma tick_step_expired:
  assumes ok: "queue_ok k A" and l: "task_list l" "\<not> is_ready_list l" and z: "z \<in> set (A l)" "expires D k z"
  shows "queue_ok (tick_step D l z k) (A(l := remove1 z (A l), Ready_list (prio z k) := A (Ready_list (prio z k)) @ [z]))"
    and "DL_NEXT z (lmem (tick_step D l z k)) = None"
proof -
  have swap: "upd_lists (dlist_remove l z) (upd_tcb z (tick_tcb D) k) = upd_tcb z (tick_tcb D) (upd_lists (dlist_remove l z) k)"
    by (simp add: upd_lists_def upd_tcb_def)
  show q: "queue_ok (tick_step D l z k) (A(l := remove1 z (A l), Ready_list (prio z k) := A (Ready_list (prio z k)) @ [z]))"
    using tq.wake_law [OF ok z(1) l, of "tick_tcb D"] z(2) by (simp add: tick_step_def swap)
  show "DL_NEXT z (lmem (tick_step D l z k)) = None"
    using dl.next_law [OF queue_ok_D(1) [OF q], of "Ready_list (prio z k)" "A (Ready_list (prio z k))" z "[]"] l(2)
    by auto
qed

lemma expires_ticked: "a \<notin> X \<Longrightarrow> expires D (ticked D X k) a = expires D k a"
  by (simp add: expires_def)

lemma each_tick:
  assumes ok: "queue_ok k A" and l: "task_list l" "\<not> is_ready_list l"
    and r: "\<And>a k. routine a k = Some (OS_STATUS_OK, tick_step D l a k)"
  shows "dlist_each lmem l routine k = Some (None, after_tick D l (A l) k)"
proof -
  define P where "P ys s \<longleftrightarrow> (\<exists>xs. A l = xs @ ys \<and> (\<forall>x \<in> set xs. \<not> expires D k x) \<and> s = ticked D (set xs) k)" for ys s
  define Q where "Q s \<longleftrightarrow> s = after_tick D l (A l) k" for s
  have d: "distinct (A l)" using dl.holds_distinct [OF queue_ok_D(1) [OF ok]] .
  have "\<exists>s'. each_loop lmem routine (first (A l)) k = Some (None, s') \<and> Q s'"
  proof (rule each_loop_rule)
    show "P (A l) k" by (simp add: P_def)
    show "Q s" if "P [] s" for s
    proof -
      from that have "s = ticked D (set (A l)) k" "dropWhile (\<lambda>a. \<not> expires D k a) (A l) = []"
        by (auto simp: P_def dropWhile_eq_Nil_conv)
      then show ?thesis by (simp add: Q_def after_tick_def del: dropWhile_eq_Nil_conv)
    qed
    fix a ys s
    assume "P (a # ys) s"
    then obtain xs where xs: "A l = xs @ a # ys" "\<forall>x \<in> set xs. \<not> expires D k x" "s = ticked D (set xs) k"
      by (auto simp: P_def)
    have a: "a \<notin> set xs" using d xs(1) by auto
    have ok_s: "queue_ok s A" using ticked_ok [OF ok] xs by auto
    show "\<exists>s'. routine a s = Some (OS_STATUS_OK, s') \<and>
      (DL_NEXT a (lmem s') = first ys \<and> P ys s' \<or> DL_NEXT a (lmem s') = None \<and> Q s')"
    proof (cases "expires D k a")
      case True
      then have e: "expires D s a" using a xs(3) by (simp add: expires_ticked)
      have "DL_NEXT a (lmem (tick_step D l a s)) = None"
        using tick_step_expired(2) [OF ok_s l _ e] xs(1) by simp
      moreover have "tick_step D l a s = after_tick D l (A l) k"
        using xs True by (simp add: after_tick_def dropWhile_append3 takeWhile_append2 dropWhile_append2)
      ultimately show ?thesis using r by (simp add: Q_def)
    next
      case False
      then have "\<not> expires D s a" using a xs(3) by (simp add: expires_ticked)
      then have step: "tick_step D l a s = ticked D (set (xs @ [a])) k"
        using a xs(3) by (simp add: tick_step_def ticked_insert)
      have "DL_NEXT a (lmem (tick_step D l a s)) = first ys"
        using dl.next_law [OF queue_ok_D(1) [OF ok] xs(1)] step by simp
      moreover have "P ys (tick_step D l a s)"
        unfolding P_def step using xs False by (intro exI [of _ "xs @ [a]"]) auto
      ultimately show ?thesis using r by simp
    qed
  qed
  then show ?thesis
    using dl.first_law [OF queue_ok_D(1) [OF ok], of l] by (simp add: dlist_each_def Q_def)
qed

lemma after_tick_cases:
  obtains (none) "\<forall>x \<in> set xs. \<not> expires D k x" "after_tick D l xs k = ticked D (set xs) k" "List.find (expires D k) xs = None"
  | (one) ys z zs where "xs = ys @ z # zs" "\<forall>x \<in> set ys. \<not> expires D k x" "expires D k z"
      "after_tick D l xs k = tick_step D l z (ticked D (set ys) k)" "List.find (expires D k) xs = Some z"
proof (cases "\<exists>x \<in> set xs. expires D k x")
  case True
  then obtain ys z zs where s: "xs = ys @ z # zs" "\<forall>x \<in> set ys. \<not> expires D k x" "expires D k z"
    using split_list_first_prop [of xs "expires D k"] by metis
  then have "List.find (expires D k) xs = Some z" by (induction ys arbitrary: xs) auto
  moreover have "after_tick D l xs k = tick_step D l z (ticked D (set ys) k)"
    using s by (simp add: after_tick_def dropWhile_append2 takeWhile_append2)
  ultimately show ?thesis using s one by blast
next
  case False
  then have "List.find (expires D k) xs = None" by (simp add: find_None_iff)
  moreover have "dropWhile (\<lambda>a. \<not> expires D k a) xs = []" using False by simp
  ultimately show ?thesis using False none
    by (auto simp: after_tick_def simp del: dropWhile_eq_Nil_conv)
qed

lemma after_tick_ok:
  assumes ok: "queue_ok k A" and l: "task_list l" "\<not> is_ready_list l"
  shows "queue_ok (after_tick D l (A l) k) (queues_after D l k A)"
proof (cases rule: after_tick_cases [of "A l" D k l])
  case none
  then show ?thesis using ticked_ok [OF ok] by (simp add: queues_after_def)
next
  case (one ys z zs)
  have "distinct (A l)" using dl.holds_distinct [OF queue_ok_D(1) [OF ok]] .
  then have z: "z \<notin> set ys" using one(1) by auto
  have "queue_ok (ticked D (set ys) k) A" using ticked_ok [OF ok] one(2) by blast
  from tick_step_expired(1) [OF this l, of z D] show ?thesis
    using one z by (simp add: queues_after_def expires_ticked)
qed

lemma after_tick_objects: "same_objects k (after_tick D l xs k)"
proof (cases rule: after_tick_cases [of xs D k l])
  case (one ys z zs)
  have "same_objects (ticked D (set ys) k) (tick_step D l z (ticked D (set ys) k))"
    using same_objects_trans [OF _ readyQ_put_objects] by (simp add: tick_step_def)
  then show ?thesis using one(4) same_objects_trans [OF ticked_simps(5)] by metis
qed simp


section \<open>A tick over all objects of a kind\<close>

text \<open>Queues after some tasks were made ready: lists of objects are as before, ready lists
  grow at the end, waiting lists shrink, and no task is lost.\<close>

definition only_wakes :: "(list_ref \<Rightarrow> addr list) \<Rightarrow> (list_ref \<Rightarrow> addr list) \<Rightarrow> bool" where
  "only_wakes A B \<longleftrightarrow>
     (\<forall>l. \<not> task_list l \<longrightarrow> B l = A l) \<and>
     (\<forall>p. prefix (A (Ready_list p)) (B (Ready_list p))) \<and>
     (\<forall>l. task_list l \<longrightarrow> \<not> is_ready_list l \<longrightarrow> subseq (B l) (A l)) \<and>
     (\<forall>a. (\<exists>l. task_list l \<and> a \<in> set (A l)) \<longleftrightarrow> (\<exists>l. task_list l \<and> a \<in> set (B l)))"

lemma only_wakes_refl [simp]: "only_wakes A A"
  by (simp add: only_wakes_def)

lemma only_wakes_trans: "only_wakes A B \<Longrightarrow> only_wakes B C \<Longrightarrow> only_wakes A C"
  unfolding only_wakes_def
  by (intro conjI allI impI) (simp, meson prefix_order.trans, meson subseq_order.trans, metis)

lemma only_wakes_D:
  "only_wakes A B \<Longrightarrow> \<not> task_list l \<Longrightarrow> B l = A l"
  "only_wakes A B \<Longrightarrow> a \<in> set (A (Ready_list p)) \<Longrightarrow> a \<in> set (B (Ready_list p))"
  by (auto simp: only_wakes_def dest: set_mono_prefix)

lemma subseq_remove1: "subseq (remove1 x xs) xs"
  by (induction xs) auto

lemma only_wakes_move:
  assumes "z \<in> set (A l)" and "task_list l" and "\<not> is_ready_list l" and "distinct (A l)"
  shows "only_wakes A (A(l := remove1 z (A l), Ready_list p := A (Ready_list p) @ [z]))"
proof -
  let ?B = "A(l := remove1 z (A l), Ready_list p := A (Ready_list p) @ [z])"
  have ne: "l \<noteq> Ready_list p" for p using assms(3) by auto
  have "(\<exists>l. task_list l \<and> a \<in> set (A l)) \<longleftrightarrow> (\<exists>l. task_list l \<and> a \<in> set (?B l))" for a
  proof
    assume "\<exists>l. task_list l \<and> a \<in> set (A l)"
    then obtain m where m: "task_list m" "a \<in> set (A m)" by blast
    show "\<exists>l. task_list l \<and> a \<in> set (?B l)"
    proof (cases "a = z")
      case True
      then show ?thesis by (intro exI [of _ "Ready_list p"]) simp
    next
      case False
      then show ?thesis using m by (intro exI [of _ m]) auto
    qed
  next
    assume "\<exists>l. task_list l \<and> a \<in> set (?B l)"
    then obtain m where m: "task_list m" "a \<in> set (?B m)" by blast
    then have "a = z \<or> a \<in> set (A m)" by (auto split: if_splits dest: notin_set_remove1)
    then show "\<exists>l. task_list l \<and> a \<in> set (A l)" using m(1) assms(1,2) by auto
  qed
  moreover have "?B m = A m" if "\<not> task_list m" for m using that assms(2) by auto
  moreover have "prefix (A (Ready_list q)) (?B (Ready_list q))" for q using ne [of q] by simp
  moreover have "subseq (?B m) (A m)" if "\<not> is_ready_list m" for m
    using that by (auto simp: subseq_remove1)
  ultimately show ?thesis unfolding only_wakes_def by blast
qed

text \<open>The stacks of the tasks are out of reach of all of this.\<close>

definition same_stacks :: "kernel \<Rightarrow> kernel \<Rightarrow> bool" where
  "same_stacks k k' \<longleftrightarrow>
     (\<forall>a. stack_start (tcbs k' a) = stack_start (tcbs k a) \<and> stack_size (tcbs k' a) = stack_size (tcbs k a))"

lemma same_stacks_refl [simp]: "same_stacks k k"
  by (simp add: same_stacks_def)

lemma same_stacks_trans: "same_stacks k k' \<Longrightarrow> same_stacks k' k'' \<Longrightarrow> same_stacks k k''"
  by (simp add: same_stacks_def)

lemma same_stacks_readyQ [simp]: "same_stacks k (readyQ_put a k') = same_stacks k k'" "same_stacks k (readyQ_remove a k') = same_stacks k k'"
  by (auto simp: same_stacks_def readyQ_put_tcbs readyQ_remove_tcbs)

lemma same_stacks_lists [simp]: "same_stacks k (upd_lists f k') = same_stacks k k'"
  by (simp add: same_stacks_def)

lemma same_stacks_ticked [simp]: "same_stacks k (ticked D X k)"
  by (auto simp: same_stacks_def ticked_def tick_tcb_def)

lemma after_tick_stacks: "same_stacks k (after_tick D l xs k)"
proof -
  have "same_stacks k' (tick_step D l a k')" for a k'
    by (simp add: tick_step_def) (auto simp: same_stacks_def tick_tcb_def)
  then show ?thesis by (cases rule: after_tick_cases [of xs D k l]) (auto intro: same_stacks_trans [OF same_stacks_ticked])
qed

definition wakes :: "kernel \<Rightarrow> (list_ref \<Rightarrow> addr list) \<Rightarrow> kernel \<Rightarrow> (list_ref \<Rightarrow> addr list) \<Rightarrow> bool" where
  "wakes k A k' B \<longleftrightarrow> queue_ok k' B \<and> same_objects k k' \<and> same_stacks k k' \<and> only_wakes A B"

lemma wakes_refl: "queue_ok k A \<Longrightarrow> wakes k A k A"
  by (simp add: wakes_def)

lemma wakes_trans: "wakes k A k' B \<Longrightarrow> wakes k' B k'' C \<Longrightarrow> wakes k A k'' C"
  unfolding wakes_def using same_objects_trans same_stacks_trans only_wakes_trans by blast

lemma after_tick_wakes:
  assumes ok: "queue_ok k A" and l: "task_list l" "\<not> is_ready_list l"
  shows "wakes k A (after_tick D l (A l) k) (queues_after D l k A)"
proof -
  have d: "distinct (A l)" using dl.holds_distinct [OF queue_ok_D(1) [OF ok]] .
  have "only_wakes A (queues_after D l k A)"
  proof (cases "List.find (expires D k) (A l)")
    case (Some z)
    then have "z \<in> set (A l)" by (auto simp: find_Some_iff)
    from only_wakes_move [where A = A and l = l, OF this l d] Some show ?thesis by (simp add: queues_after_def)
  qed (simp add: queues_after_def)
  then show ?thesis
    using after_tick_ok [OF ok l] after_tick_objects after_tick_stacks by (simp add: wakes_def)
qed

lemma each_tick_wakes:
  assumes "queue_ok k A" and "task_list l" "\<not> is_ready_list l"
    and "\<And>a k. routine a k = Some (OS_STATUS_OK, tick_step D l a k)"
  shows "\<exists>k' B. dlist_each lmem l routine k = Some (None, k') \<and> wakes k A k' B"
  using each_tick [OF assms] after_tick_wakes [OF assms(1-3)] by blast

text \<open>The walk over the waiting lists of one object, one after the other.\<close>

fun walk :: "list_ref list \<Rightarrow> kernel \<Rightarrow> kernel option" where
  "walk [] k = Some k"
| "walk (l # ls) k = Option.bind (dlist_each lmem l (wait_to_ready l) k) (\<lambda>r. walk ls (snd r))"

lemma walk_wakes:
  "queue_ok k A \<Longrightarrow> \<forall>l \<in> set ls. task_list l \<and> \<not> is_ready_list l \<Longrightarrow> \<exists>k' B. walk ls k = Some k' \<and> wakes k A k' B"
proof (induction ls arbitrary: k A)
  case Nil
  then show ?case using wakes_refl by auto
next
  case (Cons l ls)
  obtain k1 B1 where 1: "dlist_each lmem l (wait_to_ready l) k = Some (None, k1)" "wakes k A k1 B1"
    using each_tick_wakes [OF Cons.prems(1), of l "wait_to_ready l" count_wait] Cons.prems(2) wait_to_ready_step by auto
  then obtain k2 B2 where "walk ls k1 = Some k2" "wakes k1 B1 k2 B2"
    using Cons.IH [of k1 B1] Cons.prems(2) by (auto simp: wakes_def)
  moreover have "wakes k A k2 B2" by (rule wakes_trans [OF 1(2) \<open>wakes k1 B1 k2 B2\<close>])
  ultimately show ?case using 1 by auto
qed

text \<open>
  A walk over a list of objects with a routine that may move tasks but not objects: a
  relation \<open>W\<close> between the start and the current state that every call keeps holds at
  the end, and the walk ends.
\<close>

lemma each_object:
  assumes ok: "queue_ok k A" and start: "W k A"
    and step: "\<And>x s B. x \<in> set (A reg) \<Longrightarrow> W s B \<Longrightarrow> \<exists>s' C. f x s = Some (OS_STATUS_OK, s') \<and> W s' C"
    and keep: "\<And>s B. W s B \<Longrightarrow> queue_ok s B \<and> B reg = A reg"
  shows "\<exists>k' B. dlist_each lmem reg f k = Some (None, k') \<and> W k' B"
proof -
  define P where "P ys s \<longleftrightarrow> (\<exists>xs B. A reg = xs @ ys \<and> W s B)" for ys s
  define Q where "Q s \<longleftrightarrow> (\<exists>B. W s B)" for s
  have "\<exists>s'. each_loop lmem f (first (A reg)) k = Some (None, s') \<and> Q s'"
  proof (rule each_loop_rule)
    show "P (A reg) k" using start by (auto simp: P_def)
    show "Q s" if "P [] s" for s using that by (auto simp: P_def Q_def)
    fix x ys s
    assume "P (x # ys) s"
    then obtain xs B where xs: "A reg = xs @ x # ys" and w: "W s B" by (auto simp: P_def)
    obtain s' C where s': "f x s = Some (OS_STATUS_OK, s')" "W s' C" using step [OF _ w, of x] xs by auto
    have "DL_NEXT x (lmem s') = first ys"
      using keep [OF s'(2)] xs dl.next_law [OF queue_ok_D(1)] by metis
    moreover have "P ys s'" unfolding P_def using xs s'(2) by (intro exI [of _ "xs @ [x]"]) auto
    ultimately show "\<exists>s'. f x s = Some (OS_STATUS_OK, s') \<and>
      (DL_NEXT x (lmem s') = first ys \<and> P ys s' \<or> DL_NEXT x (lmem s') = None \<and> Q s')"
      using s'(1) by simp
  qed
  then show ?thesis
    using dl.first_law [OF queue_ok_D(1) [OF ok], of reg] by (auto simp: dlist_each_def Q_def)
qed

text \<open>
  Every kind of object has a list of its objects and per object its waiting lists;
  the tick routine of the module walks them all.
\<close>

locale object_kind =
  fixes registry :: list_ref
    and waits :: "addr \<Rightarrow> list_ref list"
    and update :: "addr \<Rightarrow> kernel \<Rightarrow> (OS_STATUS \<times> kernel) option"
  assumes registry_kind: "\<not> task_list registry"
    and waits_kind: "l \<in> set (waits x) \<Longrightarrow> task_list l \<and> \<not> is_ready_list l"
    and update_walks: "update x k = map_option (\<lambda>k'. (OS_STATUS_OK, k')) (walk (waits x) k)"
begin

lemma decrease_wakes:
  assumes ok: "queue_ok k A"
  shows "\<exists>k' B. dlist_each lmem registry update k = Some (None, k') \<and> wakes k A k' B"
proof (rule each_object [where W = "wakes k A", OF ok wakes_refl [OF ok]])
  fix x s B
  assume w: "wakes k A s B"
  then obtain s' C where s': "walk (waits x) s = Some s'" "wakes s B s' C"
    using walk_wakes [of s B "waits x"] waits_kind by (auto simp: wakes_def)
  then show "\<exists>s' C. update x s = Some (OS_STATUS_OK, s') \<and> wakes k A s' C"
    using wakes_trans [OF w s'(2)] update_walks by auto
next
  fix s B
  assume "wakes k A s B"
  then show "queue_ok s B \<and> B registry = A registry"
    using registry_kind only_wakes_D(1) by (auto simp: wakes_def)
qed

end

lemma delayQ_decrease_wakes:
  assumes "queue_ok k A"
  shows "delayQ_decrease k = Some (after_tick count_delay Delay_list (A Delay_list) k)"
    and "\<exists>B. wakes k A (after_tick count_delay Delay_list (A Delay_list) k) B"
  using each_tick [OF assms, of Delay_list delay_to_ready count_delay] delay_to_ready_step
    after_tick_wakes [OF assms, of Delay_list count_delay] by (auto simp: delayQ_decrease_def)


section \<open>Blocking the caller and waking a waiter\<close>

text \<open>The running task: it is in a ready list.\<close>

definition running :: "kernel \<Rightarrow> (list_ref \<Rightarrow> addr list) \<Rightarrow> bool" where
  "running k A \<longleftrightarrow> (\<forall>c. G_p_current_tcb k = Some c \<longrightarrow> (\<exists>p. c \<in> set (A (Ready_list p))))"

definition kernel_ok :: "kernel \<Rightarrow> (list_ref \<Rightarrow> addr list) \<Rightarrow> bool" where
  "kernel_ok k A \<longleftrightarrow> queue_ok k A \<and> running k A"

text \<open>The common part of the blocking calls: leave the ready queue, note timeout, status
  and object, join the waiting list, switch.\<close>

definition pend_current :: "list_ref \<Rightarrow> task_status \<Rightarrow> addr \<Rightarrow> uint32 \<Rightarrow> kernel \<Rightarrow> kernel" where
  "pend_current l st obj timeout k =
     (let me = cur k
      in CONTEXT_SWITCH
           (upd_lists (dlist_add l me)
             (upd_tcb me (\<lambda>t. t\<lparr>delay_ticks := timeout, status := st, pend_obj := Some obj\<rparr>)
               (readyQ_remove me k))))"

text \<open>\<^verbatim>\<open>pOutTcb = dlist_get(l); if (pOutTcb != NULL) readyQ_put(pOutTcb)\<close>.\<close>

definition wake_first :: "list_ref \<Rightarrow> kernel \<Rightarrow> kernel" where
  "wake_first l k = (case list_get l k of (None, k1) \<Rightarrow> k1 | (Some a, k1) \<Rightarrow> readyQ_put a k1)"

text \<open>The queues after the first waiter of \<open>l\<close> was made ready.\<close>

definition popped :: "list_ref \<Rightarrow> kernel \<Rightarrow> (list_ref \<Rightarrow> addr list) \<Rightarrow> list_ref \<Rightarrow> addr list" where
  "popped l k A = (case A l of [] \<Rightarrow> A
     | a # xs \<Rightarrow> A(l := xs, Ready_list (prio a k) := A (Ready_list (prio a k)) @ [a]))"

lemma popped_cong: "tcbs k' = tcbs k \<Longrightarrow> popped l k' A = popped l k A"
  by (simp add: popped_def split: list.split)

lemma is_top_ready:
  "is_top A (Some a) \<Longrightarrow> \<exists>p. a \<in> set (A (Ready_list p))"
  by (auto simp: is_top_def dest: first_in_set)

lemma switch_ok:
  assumes "queue_ok k A"
  shows "kernel_ok (CONTEXT_SWITCH k) A"
proof -
  have "queue_ok (CONTEXT_SWITCH k) A"
    using assms queue_ok_same [of k "CONTEXT_SWITCH k" A] by (simp add: CONTEXT_SWITCH_def LOAD_HIGHEST_TASK_def)
  moreover have "running (CONTEXT_SWITCH k) A"
    using is_top_ready queue_ok_D(3) [OF assms]
    by (auto simp: running_def CONTEXT_SWITCH_def LOAD_HIGHEST_TASK_def)
  ultimately show ?thesis by (simp add: kernel_ok_def)
qed

lemma switch_sel [simp]:
  "lmem (CONTEXT_SWITCH k) = lmem k" "tcbs (CONTEXT_SWITCH k) = tcbs k" "G_readyQ (CONTEXT_SWITCH k) = G_readyQ k"
  "semBs (CONTEXT_SWITCH k) = semBs k" "semCs (CONTEXT_SWITCH k) = semCs k" "semMs (CONTEXT_SWITCH k) = semMs k"
  "msgQs (CONTEXT_SWITCH k) = msgQs k" "kheap (CONTEXT_SWITCH k) = kheap k"
  "G_p_current_tcb (CONTEXT_SWITCH k) = highest_tcb (G_readyQ k)"
  by (simp_all add: CONTEXT_SWITCH_def LOAD_HIGHEST_TASK_def)

lemma current_ready:
  assumes "kernel_ok k A" and "G_p_current_tcb k = Some c"
  obtains p where "c \<in> set (A (Ready_list p))" and "prio c k = p"
  using assms tq.ready_priority(1) [of k A c] by (auto simp: kernel_ok_def running_def)

lemma home_delay [simp]: "home (t\<lparr>delay_ticks := d\<rparr>) = home t"
  by (simp add: home_def split: task_status.split)

text \<open>A call that succeeds clears \<^verbatim>\<open>delay_ticks\<close> of its caller.\<close>

lemma clear_delay_ok:
  assumes ok: "kernel_ok k A" and c: "G_p_current_tcb k = Some c"
  shows "kernel_ok (upd_tcb c (\<lambda>t. t\<lparr>delay_ticks := d\<rparr>) k) A"
proof -
  obtain p where p: "c \<in> set (A (Ready_list p))" using current_ready [OF ok c] .
  then have "home (tcbs k c) = Ready_list p"
    using tq.residence [of k A "Ready_list p" c] ok by (simp add: kernel_ok_def resident_def)
  then have "\<forall>l. resident (tcbs k c) l \<longrightarrow> resident ((tcbs k c)\<lparr>delay_ticks := d\<rparr>) l"
    by (auto simp: resident_def)
  then show ?thesis
    using upd_tcb_ok [of k A c "\<lambda>t. t\<lparr>delay_ticks := d\<rparr>"] ok by (simp add: kernel_ok_def running_def)
qed

lemma pend_current_ok:
  assumes ok: "kernel_ok k A" and c: "G_p_current_tcb k = Some c" and t: "timeout \<noteq> 0"
    and l: "\<not> is_ready_list l" "\<And>tcb. status tcb = st \<Longrightarrow> pend_obj tcb = Some obj \<Longrightarrow> home tcb = l"
  shows "kernel_ok (pend_current l st obj timeout k)
           (A(Ready_list (prio c k) := remove1 c (A (Ready_list (prio c k))), l := A l @ [c]))"
proof -
  obtain p where p: "c \<in> set (A (Ready_list p))" "prio c k = p" using current_ready [OF ok c] .
  let ?f = "\<lambda>t. t\<lparr>delay_ticks := timeout, status := st, pend_obj := Some obj\<rparr>"
  have q: "queue_ok k A" using ok by (simp add: kernel_ok_def)
  have "resident (?f (tcbs k c)) l"
    using t l(2) tq.ready_priority [OF q p(1)] by (simp add: resident_def)
  from tq.block_law [where f = ?f and A = A and p = p, OF q p(1) l(1) this] show ?thesis
    using switch_ok c p(2) by (simp add: pend_current_def cur_def)
qed

lemma pend_current_objects [simp]:
  "G_p_current_tcb (pend_current l st obj timeout k) = highest_tcb (G_readyQ (pend_current l st obj timeout k))"
  "semBs (pend_current l st obj timeout k) = semBs k" "semCs (pend_current l st obj timeout k) = semCs k"
  "semMs (pend_current l st obj timeout k) = semMs k" "msgQs (pend_current l st obj timeout k) = msgQs k"
  "kheap (pend_current l st obj timeout k) = kheap k"
  "tcbs (pend_current l st obj timeout k) =
     (tcbs k)(cur k := (tcbs k (cur k))\<lparr>delay_ticks := timeout, status := st, pend_obj := Some obj\<rparr>)"
  using readyQ_remove_objects [of k "cur k"]
  by (simp_all add: pend_current_def same_objects_def Let_def readyQ_remove_tcbs)

lemma wake_first_ok:
  assumes ok: "queue_ok k A" and l: "task_list l" "\<not> is_ready_list l"
  shows "queue_ok (wake_first l k) (popped l k A)" and "same_objects k (wake_first l k)"
proof -
  have "queue_ok (wake_first l k) (popped l k A) \<and> same_objects k (wake_first l k)"
  proof (cases "A l")
    case Nil
    then show ?thesis using list_get_ok [OF ok l(2)] ok by (simp add: wake_first_def popped_def)
  next
    case (Cons a xs)
    have g: "list_get l k = (Some a, upd_lists (dlist_remove l a) k)"
      using list_get_ok [OF ok l(2)] Cons by simp
    have id: "upd_tcb a (\<lambda>t. t) s = s" for s by (simp add: upd_tcb_def)
    have "same_objects k (readyQ_put a (upd_lists (dlist_remove l a) k))"
      using same_objects_trans [OF _ readyQ_put_objects] by simp
    then show ?thesis
      using tq.wake_law [OF ok _ l, of a "\<lambda>t. t"] Cons g by (simp add: wake_first_def popped_def id)
  qed
  then show "queue_ok (wake_first l k) (popped l k A)" "same_objects k (wake_first l k)" by auto
qed

lemma popped_ready: "\<not> is_ready_list l \<Longrightarrow> a \<in> set (A (Ready_list p)) \<Longrightarrow> a \<in> set (popped l k A (Ready_list p))"
  by (auto simp: popped_def split: list.split)

lemma wake_first_running:
  assumes "kernel_ok k A" and "task_list l" "\<not> is_ready_list l"
  shows "kernel_ok (wake_first l k) (popped l k A)"
  using wake_first_ok [OF _ assms(2,3), of k A] assms popped_ready [OF assms(3), of _ A]
  by (auto simp: kernel_ok_def running_def same_objects_def) blast

lemma kernel_ok_same: "same_queues k k' \<Longrightarrow> G_p_current_tcb k' = G_p_current_tcb k \<Longrightarrow> kernel_ok k' A = kernel_ok k A"
  by (simp add: kernel_ok_def running_def queue_ok_same)

text \<open>A list descriptor is set up, an object joins the list of its kind.\<close>

lemma dlist_init_holds: "dl_holds m A \<Longrightarrow> dl_holds (snd (dlist_init l m)) (A(l := []))"
  by (auto simp: dl_holds_def dl_rep_def dlist_init_def dl_assigns)

lemma init_list_ok:
  assumes "queue_ok k A" and "\<not> is_ready_list l"
  shows "queue_ok (upd_lists (\<lambda>m. snd (dlist_init l m)) k) (A(l := []))"
  by (rule upd_lists_ok [OF assms(1)])
    (use assms dlist_init_holds [OF queue_ok_D(1) [OF assms(1)]] in \<open>auto split: if_splits\<close>)


section \<open>Waking all waiters\<close>

text \<open>One turn of the flush loops: the waiter gets \<^verbatim>\<open>delay_ticks = 0\<close>, which its blocked call
  reads as a failure, and becomes ready.\<close>

definition wake_failed :: "list_ref \<Rightarrow> addr \<Rightarrow> kernel \<Rightarrow> kernel" where
  "wake_failed l a k = readyQ_put a (upd_tcb a (\<lambda>t. t\<lparr>delay_ticks := 0\<rparr>) (upd_lists (dlist_remove l a) k))"

definition drained :: "list_ref \<Rightarrow> kernel \<Rightarrow> (list_ref \<Rightarrow> addr list) \<Rightarrow> list_ref \<Rightarrow> addr list" where
  "drained l k A m =
     (if m = l then []
      else case m of Ready_list p \<Rightarrow> A m @ filter (\<lambda>a. prio a k = p) (A l) | _ \<Rightarrow> A m)"

lemma wake_failed_tcbs:
  "tcbs (wake_failed l a k) = (tcbs k)(a := (tcbs k a)\<lparr>delay_ticks := 0, status := TASK_STATUS_READY, pend_obj := None\<rparr>)"
  by (simp add: wake_failed_def readyQ_put_tcbs)

lemma wake_failed_objects: "same_objects k (wake_failed l a k)"
  using same_objects_trans [OF _ readyQ_put_objects] by (simp add: wake_failed_def)

lemma wake_failed_ok:
  assumes "queue_ok k A" and "A l = a # xs" and "task_list l" "\<not> is_ready_list l"
  shows "queue_ok (wake_failed l a k) (A(l := xs, Ready_list (prio a k) := A (Ready_list (prio a k)) @ [a]))"
  using tq.wake_law [OF assms(1) _ assms(3,4), of a "\<lambda>t. t\<lparr>delay_ticks := 0\<rparr>"] assms(2)
  by (simp add: wake_failed_def)

lemma drain_ok:
  assumes "queue_ok k A" and "A l = xs" and "task_list l" "\<not> is_ready_list l"
  shows "queue_ok (fold (wake_failed l) xs k) (drained l k A) \<and> same_objects k (fold (wake_failed l) xs k) \<and>
     tcbs (fold (wake_failed l) xs k) =
       (\<lambda>a. if a \<in> set xs then (tcbs k a)\<lparr>delay_ticks := 0, status := TASK_STATUS_READY, pend_obj := None\<rparr> else tcbs k a)"
  using assms(1,2)
proof (induction xs arbitrary: k A)
  case Nil
  then have "drained l k A = A" by (auto simp: drained_def fun_eq_iff split: list_ref.split)
  with Nil show ?case by simp
next
  case (Cons a xs)
  let ?k = "wake_failed l a k"
  define B where "B = A(l := xs, Ready_list (prio a k) := A (Ready_list (prio a k)) @ [a])"
  have ok: "queue_ok ?k B" unfolding B_def by (rule wake_failed_ok [OF Cons.prems assms(3,4)])
  have l: "B l = xs" "l \<noteq> Ready_list p" for p using assms(4) by (auto simp: B_def)
  have prio: "prio b ?k = prio b k" for b by (simp add: wake_failed_tcbs)
  have "a \<notin> set xs" using dl.holds_distinct [OF queue_ok_D(1) [OF Cons.prems(1)], of l] Cons.prems(2) by simp
  moreover have "drained l ?k B = drained l k A"
    using Cons.prems(2) l by (auto simp: drained_def fun_eq_iff prio B_def split: list_ref.split)
  ultimately show ?case
    using Cons.IH [OF ok l(1)] same_objects_trans [OF wake_failed_objects]
    by (auto simp: wake_failed_tcbs)
qed


section \<open>A small kernel state\<close>

text \<open>Two ready tasks, 100 (priority 3, running) and 200 (priority 5), nothing else.\<close>

definition demo :: kernel where
  "demo = (readyQ_put 200 (readyQ_put 100 empty_kernel))\<lparr>G_p_current_tcb := Some 100\<rparr>"

definition demo_queues :: "list_ref \<Rightarrow> addr list" where
  "demo_queues = (\<lambda>_. [])(Ready_list 3 := [100], Ready_list 5 := [200])"

lemma demo_ok: "kernel_ok demo demo_queues"
proof -
  let ?k1 = "readyQ_put 100 empty_kernel"
  have p: "prio 100 empty_kernel = 3" "prio 200 ?k1 = 5"
    by (simp_all add: empty_kernel_def demo_tcb_def readyQ_put_tcbs)
  have 1: "queue_ok ?k1 ((\<lambda>_. [])(Ready_list 3 := [100]))"
    using readyQ_put_ok [OF empty_kernel_ok, of 100] p by simp
  have "queue_ok (readyQ_put 200 ?k1) demo_queues"
    using readyQ_put_ok [OF 1, of 200] p by (simp add: demo_queues_def)
  then have "queue_ok demo demo_queues"
    using queue_ok_same [of "readyQ_put 200 ?k1" demo] by (simp add: demo_def)
  moreover have "running demo demo_queues"
    by (auto simp: running_def demo_def demo_queues_def intro: exI [of _ 3])
  ultimately show ?thesis by (simp add: kernel_ok_def)
qed

lemma demo_sel [simp]:
  "G_p_current_tcb demo = Some 100" "cur demo = 100" "semBs demo = semBs empty_kernel" "semCs demo = semCs empty_kernel"
  "semMs demo = semMs empty_kernel" "msgQs demo = msgQs empty_kernel" "kheap demo = fresh_heap"
  "tcbs demo = demo_tcb"
proof -
  have "same_objects empty_kernel (readyQ_put 200 (readyQ_put 100 empty_kernel))"
    using same_objects_trans [OF readyQ_put_objects readyQ_put_objects] .
  then show "semBs demo = semBs empty_kernel" "semCs demo = semCs empty_kernel"
    "semMs demo = semMs empty_kernel" "msgQs demo = msgQs empty_kernel" "kheap demo = fresh_heap"
    by (auto simp: demo_def same_objects_def empty_kernel_def)
qed (simp_all add: demo_def cur_def readyQ_put_tcbs empty_kernel_def demo_tcb_def fun_eq_iff)

section \<open>What the delay queue does\<close>

lemma delayQ_delay_ok:
  fixes ticks :: uint32
  assumes "kernel_ok k A" and "G_p_current_tcb k = Some c"
  defines "R \<equiv> Ready_list (prio c k)"
  defines "B \<equiv> (if ticks = NO_WAIT then A(R := remove1 c (A R) @ [c])
                else A(R := remove1 c (A R), Delay_list := A Delay_list @ [c]))"
  shows "kernel_ok (delayQ_delay ticks k) B \<and>
     G_p_current_tcb (delayQ_delay ticks k) = first (schedule B) \<and>
     (ticks \<noteq> NO_WAIT \<longrightarrow> delay_ticks (tcbs (delayQ_delay ticks k) c) = ticks)"
proof -
  obtain p where p: "c \<in> set (A (Ready_list p))" "prio c k = p" using current_ready [OF assms(1,2)] .
  have q: "queue_ok k A" using assms(1) by (simp add: kernel_ok_def)
  let ?f = "\<lambda>t. t\<lparr>delay_ticks := ticks, status := TASK_STATUS_DELAY, pend_obj := None\<rparr>"
  have f: "resident (?f (tcbs k c)) Delay_list" if "ticks \<noteq> NO_WAIT"
    using that tq.ready_priority [OF q p(1)] by (simp add: resident_def home_def)
  have "\<exists>k'. delayQ_delay ticks k = CONTEXT_SWITCH k' \<and> queue_ok k' B"
  proof (cases "ticks = NO_WAIT")
    case True
    then show ?thesis using tq.rotate_law [OF q p(1)] assms(2) p(2)
      by (auto simp: delayQ_delay_def B_def R_def cur_def)
  next
    case False
    then show ?thesis using tq.block_law [where f = ?f, OF q p(1) _ f] assms(2) p(2)
      by (auto simp: delayQ_delay_def B_def R_def cur_def)
  qed
  then obtain k' where k': "delayQ_delay ticks k = CONTEXT_SWITCH k'" "queue_ok k' B" by blast
  have "ticks \<noteq> NO_WAIT \<longrightarrow> delay_ticks (tcbs (delayQ_delay ticks k) c) = ticks"
    using assms(2) by (simp add: delayQ_delay_def cur_def)
  with k' show ?thesis using switch_ok [OF k'(2)] highest_first [OF k'(2)] by (simp add: CONTEXT_SWITCH_def)
qed

text \<open>\<^verbatim>\<open>delayQ_delay\<close> with \<^verbatim>\<open>NO_WAIT\<close> sends the caller to the end of the list of its
  priority; otherwise the caller leaves the ready queue and joins the delay queue with
  the requested number of ticks. In both cases the first ready task is dispatched.\<close>

theorem delayQ_delay_blocks:
  fixes ticks :: uint32
  assumes "kernel_ok k A" and "G_p_current_tcb k = Some c"
  defines "R \<equiv> Ready_list (prio c k)"
  defines "B \<equiv> (if ticks = NO_WAIT then A(R := remove1 c (A R) @ [c])
                else A(R := remove1 c (A R), Delay_list := A Delay_list @ [c]))"
  shows "kernel_ok (delayQ_delay ticks k) B \<and>
     G_p_current_tcb (delayQ_delay ticks k) = first (schedule B) \<and>
     (ticks \<noteq> NO_WAIT \<longrightarrow> delay_ticks (tcbs (delayQ_delay ticks k) c) = ticks)"
  using delayQ_delay_ok [OF assms(1,2), of ticks] unfolding B_def R_def .

text \<open>C14: a tick counts down every task of the delay queue up to and including the first one
  whose time is over, which becomes ready. The walk ends there: the tasks behind it keep
  their count, so each expiry makes them wait one tick longer.\<close>

theorem delayQ_decrease_counts:
  assumes "queue_ok k A" and "A Delay_list = ys @ z # zs"
    and "\<forall>y \<in> set ys. delay_ticks (tcbs k y) \<noteq> 1" and "delay_ticks (tcbs k z) = 1"
  shows "\<exists>k'. delayQ_decrease k = Some k' \<and>
     queue_ok k' (A(Delay_list := ys @ zs, Ready_list (prio z k) := A (Ready_list (prio z k)) @ [z])) \<and>
     (\<forall>y \<in> set ys. delay_ticks (tcbs k' y) = delay_ticks (tcbs k y) - 1) \<and>
     (\<forall>y \<in> set zs. delay_ticks (tcbs k' y) = delay_ticks (tcbs k y))"
proof -
  have e: "expires count_delay k a \<longleftrightarrow> delay_ticks (tcbs k a) = 1" for a
    by (simp add: expires_def count_delay_def)
  have d: "distinct (ys @ z # zs)" using dl.holds_distinct [OF queue_ok_D(1) [OF assms(1)], of Delay_list] assms(2) by simp
  have f: "List.find (expires count_delay k) (A Delay_list) = Some z"
    using assms(2-4) unfolding e by (induction ys arbitrary: A) auto
  have eq: "after_tick count_delay Delay_list (A Delay_list) k = tick_step count_delay Delay_list z (ticked count_delay (set ys) k)"
    using assms(2-4) by (simp add: after_tick_def e dropWhile_append2 takeWhile_append2)
  have ex: "expires count_delay (ticked count_delay (set ys) k) z" using d assms(4) by (simp add: expires_ticked e)
  have r: "remove1 z (A Delay_list) = ys @ zs" using d assms(2) by (simp add: remove1_append)
  have q: "queue_ok (after_tick count_delay Delay_list (A Delay_list) k)
      (A(Delay_list := ys @ zs, Ready_list (prio z k) := A (Ready_list (prio z k)) @ [z]))"
    using after_tick_ok [OF assms(1), of Delay_list count_delay] unfolding queues_after_def f by (simp add: r)
  have "\<forall>y \<in> set ys. delay_ticks (tcbs (after_tick count_delay Delay_list (A Delay_list) k) y) = delay_ticks (tcbs k y) - 1"
    "\<forall>y \<in> set zs. delay_ticks (tcbs (after_tick count_delay Delay_list (A Delay_list) k) y) = delay_ticks (tcbs k y)"
    using d ex unfolding eq by (auto simp: tick_step_def readyQ_put_tcbs count_delay_def)
  with q delayQ_decrease_wakes(1) [OF assms(1)] show ?thesis by blast
qed

text \<open>The demo kernel after task 100 asked for one tick, and task 200 then for three.\<close>

definition delay_demo :: kernel where
  "delay_demo = delayQ_delay 3 (delayQ_delay 1 demo)"

lemma delay_demo_ok: "queue_ok delay_demo ((\<lambda>_. [])(Delay_list := [100, 200]))"
  "delay_ticks (tcbs delay_demo 100) = 1" "delay_ticks (tcbs delay_demo 200) = 3"
proof -
  define A where "A = (\<lambda>_ :: list_ref. [] :: addr list)(Ready_list 5 := [200], Delay_list := [100])"
  let ?k = "delayQ_delay 1 demo"
  have "demo_queues(Ready_list 3 := [], Delay_list := [100]) = A"
    by (auto simp: demo_queues_def A_def fun_eq_iff)
  with delayQ_delay_ok [OF demo_ok demo_sel(1), of 1]
  have k: "kernel_ok ?k A" "G_p_current_tcb ?k = first (schedule A)" "delay_ticks (tcbs ?k 100) = 1"
    by (simp_all add: demo_tcb_def demo_queues_def)
  have t: "tcbs ?k 200 = demo_tcb 200" by (simp add: delayQ_delay_def readyQ_remove_tcbs)
  have "is_top A (Some 200)" by (auto simp: is_top_def A_def intro!: exI [of _ 5])
  then have c: "G_p_current_tcb ?k = Some 200" using k(2) is_top_schedule by metis
  have "A(Ready_list 5 := [], Delay_list := [100, 200]) = (\<lambda>_. [])(Delay_list := [100, 200])"
    by (auto simp: A_def fun_eq_iff)
  with delayQ_delay_ok [OF k(1) c, of 3]
  show "queue_ok delay_demo ((\<lambda>_. [])(Delay_list := [100, 200]))" "delay_ticks (tcbs delay_demo 200) = 3"
    by (simp_all add: delay_demo_def kernel_ok_def A_def t demo_tcb_def)
  show "delay_ticks (tcbs delay_demo 100) = 1"
    using k(3) c by (simp add: delay_demo_def delayQ_delay_def [of 3] cur_def readyQ_remove_tcbs)
qed

theorem delayQ_delay_blocks_witness:
  "G_p_current_tcb (delayQ_delay 5 demo) =
     first (schedule ((\<lambda>_. [])(Ready_list 3 := [], Ready_list 5 := [200], Delay_list := [100])))"
  using delayQ_delay_blocks [OF demo_ok, of 100 5] by (simp add: demo_tcb_def demo_queues_def fun_upd_twist)

theorem delayQ_decrease_counts_witness:
  "\<exists>k'. delayQ_decrease delay_demo = Some k' \<and> delay_ticks (tcbs k' 200) = 3"
  using delayQ_decrease_counts [OF delay_demo_ok(1), of "[]" 100 "[200]"] by (auto simp: delay_demo_ok)

end
