(* ===== verification/MsgQ.thy ===== *)
theory MsgQ
  imports Waiting
begin

text \<open>
  Message queues (\<^verbatim>\<open>src/msgQ.c\<close>). A message is a heap block: a list node followed by
  \<^verbatim>\<open>max_len\<close> bytes. Sending may spin in \<^verbatim>\<open>malloc\<close>, so the operations are partial. The
  theorems relate the queue to a sequence of messages in memory.
\<close>

section \<open>Operations\<close>

abbreviation (input) sizeof_MSG_QUE :: uint32 where "sizeof_MSG_QUE \<equiv> 44"
abbreviation (input) sizeof_DL_NODE :: uint32 where "sizeof_DL_NODE \<equiv> 8"

definition upd_msgQ :: "addr \<Rightarrow> (MSG_QUE \<Rightarrow> MSG_QUE) \<Rightarrow> kernel \<Rightarrow> kernel" where
  "upd_msgQ q f k = k\<lparr>msgQs := (msgQs k)(q := f (msgQs k q))\<rparr>"

definition upd_bytes :: "(cmem \<Rightarrow> cmem) \<Rightarrow> kernel \<Rightarrow> kernel" where
  "upd_bytes f k = k\<lparr>kheap := (kheap k)\<lparr>bytes := f (bytes (kheap k))\<rparr>\<rparr>"

definition msgQ_init :: "ptr \<Rightarrow> uint32 \<Rightarrow> uint32 \<Rightarrow> kernel \<Rightarrow> (ptr \<times> kernel) option" where
  "msgQ_init pNewMsgQ mnum mlen k =
     (if mnum = 0 \<or> mlen = 0 then Some (None, k)
      else case object_or_malloc pNewMsgQ sizeof_MSG_QUE k of
             None \<Rightarrow> None
           | Some (p, k1) \<Rightarrow>
               (let k2 = upd_msgQ p (\<lambda>q. q\<lparr>max_num := mnum, max_len := mlen, cur_num := 0\<rparr>) k1;
                    k3 = upd_lists (\<lambda>m. snd (dlist_init (MsgQ_msgs p) m)) k2;
                    k4 = upd_lists (\<lambda>m. snd (dlist_init (MsgQ_send p) m)) k3;
                    k5 = upd_lists (\<lambda>m. snd (dlist_init (MsgQ_recv p) m)) k4
                in Some (Some p, upd_lists (dlist_add MsgQ_list p) k5)))"

text \<open>\<^verbatim>\<open>MIN (buf_len, pMsgQ->max_len)\<close>.\<close>

definition msg_len :: "uint32 \<Rightarrow> MSG_QUE \<Rightarrow> uint32" where
  "msg_len buf_len q = (if buf_len > max_len q then max_len q else buf_len)"

definition msgQ_send :: "addr \<Rightarrow> addr \<Rightarrow> uint32 \<Rightarrow> uint32 \<Rightarrow> kernel \<Rightarrow> (outcome \<times> kernel) option" where
  "msgQ_send pMsgQ buffer buf_len timeout k =
     (if cur_num (msgQs k pMsgQ) < max_num (msgQs k pMsgQ)
      then let k1 = upd_tcb (cur k) (\<lambda>t. t\<lparr>delay_ticks := 0\<rparr>) (upd_msgQ pMsgQ (\<lambda>q. q\<lparr>cur_num := cur_num q + 1\<rparr>) k)
           in case kmalloc (sizeof_DL_NODE + max_len (msgQs k1 pMsgQ)) k1 of
                None \<Rightarrow> None
              | Some (pMsgNode, k2) \<Rightarrow>
                  (let k3 = upd_bytes (\<lambda>m. snd (memcpy (pMsgNode + unat sizeof_DL_NODE) buffer (msg_len buf_len (msgQs k2 pMsgQ)) m)) k2;
                       k4 = upd_lists (dlist_add (MsgQ_msgs pMsgQ) pMsgNode) k3
                   in Some (Return OS_STATUS_OK, wake_first (MsgQ_recv pMsgQ) k4))
      else if timeout \<noteq> 0
      then Some (Switch, pend_current (MsgQ_send pMsgQ) TASK_STATUS_PEND_MSG_S pMsgQ timeout k)
      else Some (Return OS_STATUS_ERROR, k))"

definition msgQ_send_resume :: "addr \<Rightarrow> addr \<Rightarrow> uint32 \<Rightarrow> kernel \<Rightarrow> (outcome \<times> kernel) option" where
  "msgQ_send_resume pMsgQ buffer buf_len k =
     (if delay_ticks (tcbs k (cur k)) \<noteq> 0 then msgQ_send pMsgQ buffer buf_len (delay_ticks (tcbs k (cur k))) k
      else Some (Return OS_STATUS_ERROR, k))"

definition msgQ_receive :: "addr \<Rightarrow> addr \<Rightarrow> uint32 \<Rightarrow> uint32 \<Rightarrow> kernel \<Rightarrow> (outcome \<times> kernel) option" where
  "msgQ_receive pMsgQ buffer buf_len timeout k =
     (if cur_num (msgQs k pMsgQ) > 0
      then let k1 = upd_tcb (cur k) (\<lambda>t. t\<lparr>delay_ticks := 0\<rparr>) (upd_msgQ pMsgQ (\<lambda>q. q\<lparr>cur_num := cur_num q - 1\<rparr>) k);
               (pMsgNode, k2) = list_get (MsgQ_msgs pMsgQ) k1;
               k3 = upd_bytes (\<lambda>m. snd (memcpy buffer (deref pMsgNode + unat sizeof_DL_NODE) (msg_len buf_len (msgQs k2 pMsgQ)) m)) k2
           in case kfree (deref pMsgNode) k3 of
                None \<Rightarrow> None
              | Some k4 \<Rightarrow> Some (Return OS_STATUS_OK, wake_first (MsgQ_send pMsgQ) k4)
      else if timeout \<noteq> 0
      then Some (Switch, pend_current (MsgQ_recv pMsgQ) TASK_STATUS_PEND_MSG_R pMsgQ timeout k)
      else Some (Return OS_STATUS_ERROR, k))"

definition msgQ_receive_resume :: "addr \<Rightarrow> addr \<Rightarrow> uint32 \<Rightarrow> kernel \<Rightarrow> (outcome \<times> kernel) option" where
  "msgQ_receive_resume pMsgQ buffer buf_len k =
     (if delay_ticks (tcbs k (cur k)) \<noteq> 0 then msgQ_receive pMsgQ buffer buf_len (delay_ticks (tcbs k (cur k))) k
      else Some (Return OS_STATUS_ERROR, k))"

text \<open>The loop of \<^verbatim>\<open>msgQ_delete\<close> that frees the messages.\<close>

partial_function (option) free_msgs :: "addr \<Rightarrow> ptr \<Rightarrow> kernel \<Rightarrow> kernel option" where
  "free_msgs pMsgQ pMsgNode k =
     (case pMsgNode of
        None \<Rightarrow> Some k
      | Some a \<Rightarrow>
          Option.bind (kfree a k)
            (\<lambda>k1. let (p, k2) = list_get (MsgQ_msgs pMsgQ) k1 in free_msgs pMsgQ p k2))"

text \<open>The two places where \<^verbatim>\<open>msgQ_delete\<close> wakes waiters: an \<^verbatim>\<open>if\<close>, where \<^verbatim>\<open>semB_flush\<close> has a
  \<^verbatim>\<open>while\<close>, and a second \<^verbatim>\<open>dlist_get\<close> whose task is dropped.\<close>

definition pop_waiter :: "list_ref \<Rightarrow> kernel \<Rightarrow> kernel" where
  "pop_waiter l k =
     (case list_get l k of
        (None, k1) \<Rightarrow> k1
      | (Some a, k1) \<Rightarrow> snd (list_get l (readyQ_put a (upd_tcb a (\<lambda>t. t\<lparr>delay_ticks := 0\<rparr>) k1))))"

definition msgQ_delete :: "addr \<Rightarrow> kernel \<Rightarrow> (OS_STATUS \<times> kernel) option" where
  "msgQ_delete pMsgQ k =
     (let (p, k0) = list_get (MsgQ_msgs pMsgQ) k
      in case free_msgs pMsgQ p k0 of
           None \<Rightarrow> None
         | Some k1 \<Rightarrow>
             (let k2 = pop_waiter (MsgQ_send pMsgQ) k1;
                  k3 = pop_waiter (MsgQ_recv pMsgQ) k2;
                  k4 = upd_lists (dlist_remove MsgQ_list pMsgQ) k3
              in if CONFIG_MEM_HEAP_LOW \<le> pMsgQ \<and> pMsgQ < CONFIG_MEM_HEAP_HIGH
                 then map_option (Pair OS_STATUS_OK) (kfree pMsgQ k4)
                 else Some (OS_STATUS_OK, k4)))"

definition msgQ_remove :: "addr \<Rightarrow> addr \<Rightarrow> kernel \<Rightarrow> OS_STATUS \<times> kernel" where
  "msgQ_remove pMsgQ pTcb k =
     (OS_STATUS_OK,
      if status (tcbs k pTcb) = TASK_STATUS_PEND_MSG_S then upd_lists (dlist_remove (MsgQ_send pMsgQ) pTcb) k
      else if status (tcbs k pTcb) = TASK_STATUS_PEND_MSG_R then upd_lists (dlist_remove (MsgQ_recv pMsgQ) pTcb) k
      else k)"

definition msgQ_update_wait_list :: "addr \<Rightarrow> kernel \<Rightarrow> (OS_STATUS \<times> kernel) option" where
  "msgQ_update_wait_list pMsgQ k =
     Option.bind (dlist_each lmem (MsgQ_send pMsgQ) (wait_to_ready (MsgQ_send pMsgQ)) k)
       (\<lambda>r. map_option (\<lambda>r. (OS_STATUS_OK, snd r))
              (dlist_each lmem (MsgQ_recv pMsgQ) (wait_to_ready (MsgQ_recv pMsgQ)) (snd r)))"

definition msgQ_decrease :: "kernel \<Rightarrow> kernel option" where
  "msgQ_decrease k = map_option snd (dlist_each lmem MsgQ_list msgQ_update_wait_list k)"

section \<open>Frames\<close>

interpretation kQ: object_kind MsgQ_list "\<lambda>q. [MsgQ_send q, MsgQ_recv q]" msgQ_update_wait_list
  by unfold_locales
    (auto simp: msgQ_update_wait_list_def map_option_case split: option.split bind_split)

lemma upd_msgQ_queues [simp]: "same_queues k (upd_msgQ q f k)" "same_queues k (upd_bytes g k)"
  by (simp_all add: upd_msgQ_def upd_bytes_def)

lemma upd_msgQ_sel [simp, state_simps]:
  "msgQs (upd_msgQ q f k) = (msgQs k)(q := f (msgQs k q))" "G_p_current_tcb (upd_msgQ q f k) = G_p_current_tcb k"
  "tcbs (upd_msgQ q f k) = tcbs k" "lmem (upd_msgQ q f k) = lmem k" "kheap (upd_msgQ q f k) = kheap k"
  "cur (upd_msgQ q f k) = cur k"
  "msgQs (upd_bytes g k) = msgQs k" "G_p_current_tcb (upd_bytes g k) = G_p_current_tcb k"
  "tcbs (upd_bytes g k) = tcbs k" "lmem (upd_bytes g k) = lmem k"
  "kheap (upd_bytes g k) = (kheap k)\<lparr>bytes := g (bytes (kheap k))\<rparr>"
  by (simp_all add: upd_msgQ_def upd_bytes_def cur_def)


section \<open>Messages in memory\<close>

text \<open>The heap is well formed and every list node inside of it is the start of a block in use.\<close>

definition store_ok :: "kernel \<Rightarrow> (list_ref \<Rightarrow> addr list) \<Rightarrow> region set \<Rightarrow> bool" where
  "store_ok k A R \<longleftrightarrow>
     heap_uses (kheap k) R \<and> pairwise apart R \<and>
     (\<forall>l a. a \<in> set (A l) \<longrightarrow> CONFIG_MEM_HEAP_LOW \<le> a \<longrightarrow> a < CONFIG_MEM_HEAP_HIGH \<longrightarrow>
        (\<exists>sz t. (a, sz, t) \<in> R \<and> unat sizeof_DL_NODE \<le> sz))"

text \<open>Node \<open>a\<close> is a block with room for \<open>n\<close> bytes behind the node, which begin with \<open>msg\<close>.\<close>

definition msg_at :: "cmem \<Rightarrow> region set \<Rightarrow> nat \<Rightarrow> addr \<Rightarrow> uint8 list \<Rightarrow> bool" where
  "msg_at m R n a msg \<longleftrightarrow>
     (\<exists>sz t. (a, sz, t) \<in> R \<and> unat sizeof_DL_NODE + n \<le> sz) \<and> length msg \<le> n \<and>
     (\<forall>j < length msg. m (a + unat sizeof_DL_NODE + j) = msg ! j)"

definition queue_holds :: "kernel \<Rightarrow> (list_ref \<Rightarrow> addr list) \<Rightarrow> region set \<Rightarrow> addr \<Rightarrow> uint8 list list \<Rightarrow> bool" where
  "queue_holds k A R q ms \<longleftrightarrow>
     unat (cur_num (msgQs k q)) = length ms \<and> unat (max_len (msgQs k q)) < 2 ^ 30 \<and>
     list_all2 (msg_at (bytes (kheap k)) R (unat (max_len (msgQs k q)))) (A (MsgQ_msgs q)) ms"

text \<open>The first \<open>n\<close> bytes at address \<open>a\<close>.\<close>

definition bytes_at :: "cmem \<Rightarrow> addr \<Rightarrow> nat \<Rightarrow> uint8 list" where
  "bytes_at m a n = map (\<lambda>j. m (a + j)) [0..<n]"

lemma bytes_at_simps [simp]: "length (bytes_at m a n) = n" "j < n \<Longrightarrow> bytes_at m a n ! j = m (a + j)"
  by (simp_all add: bytes_at_def)

text \<open>A message survives changes outside of its block.\<close>

lemma msg_at_frame:
  assumes "msg_at m R n a msg" and "\<And>sz t. (a, sz, t) \<in> R \<Longrightarrow> (a, sz, t) \<in> R'"
    and "\<And>sz t j. (a, sz, t) \<in> R \<Longrightarrow> unat sizeof_DL_NODE + n \<le> sz \<Longrightarrow> j < n \<Longrightarrow>
      m' (a + unat sizeof_DL_NODE + j) = m (a + unat sizeof_DL_NODE + j)"
  shows "msg_at m' R' n a msg"
proof -
  from assms(1) obtain sz t where r: "(a, sz, t) \<in> R" "8 + n \<le> sz" and len: "length msg \<le> n"
    and c: "\<And>j. j < length msg \<Longrightarrow> m (a + 8 + j) = msg ! j" by (auto simp: msg_at_def)
  have "m' (a + 8 + j) = msg ! j" if "j < length msg" for j
    using assms(3) [OF r(1), of j] r(2) c [OF that] that len by simp
  then show ?thesis using assms(2) [OF r(1)] r(2) len by (auto simp: msg_at_def)
qed

lemma msg_len_bound: "msg_len b q \<le> max_len q" "msg_len b q \<le> b"
  by (auto simp: msg_len_def not_less intro: order.strict_implies_order)

lemma memcpy_blit:
  assumes "unat n < 2 ^ 31"
  shows "snd (memcpy d s n m) = blit s d (unat n) m"
proof -
  have "sint n = int (unat n)" using sint_of_nat32 [of "unat n"] assms by simp
  then show ?thesis by (simp add: memcpy_def bcopy_blit)
qed

lemma fresh_node:
  assumes st: "store_ok k A R" and new: "\<forall>r \<in> R. apart (p, n, t) r" "0 < n"
    "CONFIG_MEM_HEAP_LOW < p" "p + n \<le> CONFIG_MEM_HEAP_HIGH"
  shows "nowhere p A"
proof (intro allI notI)
  fix l assume "p \<in> set (A l)"
  then obtain sz u where "(p, sz, u) \<in> R" "8 \<le> sz"
    using st new(2-4) by (fastforce simp: store_ok_def)
  with new(1,2) show False by (auto simp: apart_def)
qed

lemma store_ok_insert:
  assumes "store_ok k A R" and "heap_uses (kheap k') (insert (p, n, t) R)" and "\<forall>r \<in> R. apart (p, n, t) r"
    and "unat sizeof_DL_NODE \<le> n" and "\<And>l a. a \<in> set (B l) \<Longrightarrow> (\<exists>l. a \<in> set (A l)) \<or> a = p"
  shows "store_ok k' B (insert (p, n, t) R)"
proof -
  have "pairwise apart (insert (p, n, t) R)"
    using assms(1,3) by (auto simp: store_ok_def pairwise_insert apart_def)
  moreover have "\<exists>sz u. (a, sz, u) \<in> insert (p, n, t) R \<and> 8 \<le> sz"
    if "a \<in> set (B l)" "CONFIG_MEM_HEAP_LOW \<le> a" "a < CONFIG_MEM_HEAP_HIGH" for l a
    using assms(1,4) assms(5) [OF that(1)] that(2,3) by (auto simp: store_ok_def) blast
  ultimately show ?thesis using assms(2) by (auto simp: store_ok_def)
qed

lemma store_ok_remove:
  assumes "store_ok k A R" and "heap_uses (kheap k') (R - {(a, sz, t)})" and "nowhere a B"
    and "\<And>l b. b \<in> set (B l) \<Longrightarrow> \<exists>l. b \<in> set (A l)"
  shows "store_ok k' B (R - {(a, sz, t)})"
proof -
  have "pairwise apart (R - {(a, sz, t)})"
    using assms(1) by (auto simp: store_ok_def pairwise_def)
  moreover have "\<exists>n u. (b, n, u) \<in> R - {(a, sz, t)} \<and> 8 \<le> n"
    if b: "b \<in> set (B l)" "CONFIG_MEM_HEAP_LOW \<le> b" "b < CONFIG_MEM_HEAP_HIGH" for l b
  proof -
    have "b \<noteq> a" using assms(3) b(1) by auto
    with assms(1) assms(4) [OF b(1)] b(2,3) show ?thesis by (auto simp: store_ok_def)
  qed
  ultimately show ?thesis using assms(2) by (auto simp: store_ok_def)
qed

lemma popped_sub: "\<not> is_ready_list l \<Longrightarrow> a \<in> set (popped l k A m) \<Longrightarrow> \<exists>m. a \<in> set (A m)"
  by (auto simp: popped_def split: list.splits if_splits) (metis list.set_intros)+

lemma wake_first_frame:
  assumes "kernel_ok k A" and "task_list l" "\<not> is_ready_list l"
  shows "msgQs (wake_first l k) = msgQs k" "kheap (wake_first l k) = kheap k"
    "G_p_current_tcb (wake_first l k) = G_p_current_tcb k"
  using wake_first_ok(2) [OF _ assms(2,3), of k A] assms(1) by (auto simp: kernel_ok_def same_objects_def)


text \<open>The queue content after a change of the bytes outside of the messages.\<close>

lemma queue_holds_frame:
  assumes "list_all2 (msg_at m R n) as ms" and "\<And>a sz t. a \<in> set as \<Longrightarrow> (a, sz, t) \<in> R \<Longrightarrow> (a, sz, t) \<in> R'"
    and "\<And>a sz t j. a \<in> set as \<Longrightarrow> (a, sz, t) \<in> R \<Longrightarrow> unat sizeof_DL_NODE + n \<le> sz \<Longrightarrow> j < n \<Longrightarrow>
      m' (a + unat sizeof_DL_NODE + j) = m (a + unat sizeof_DL_NODE + j)"
  shows "list_all2 (msg_at m' R' n) as ms"
proof (rule list.rel_mono_strong [OF assms(1)])
  fix a msg
  assume a: "a \<in> set as" and m: "msg_at m R n a msg"
  show "msg_at m' R' n a msg" by (rule msg_at_frame [OF m assms(2) [OF a] assms(3) [OF a]])
qed

definition sent :: "addr \<Rightarrow> addr \<Rightarrow> (list_ref \<Rightarrow> addr list) \<Rightarrow> list_ref \<Rightarrow> addr list" where
  "sent q p A = A(MsgQ_msgs q := A (MsgQ_msgs q) @ [p])"

lemma msgQ_send_runs:
  assumes kok: "kernel_ok k A" and c: "G_p_current_tcb k = Some c" and nw: "nowhere p A"
    and sp: "cur_num (msgQs k q) < max_num (msgQs k q)"
    and m: "malloc (sizeof_DL_NODE + max_len (msgQs k q)) (Some c) (kheap k) = Some (p, h)"
  shows "\<exists>k'. msgQ_send q buffer buf_len timeout k = Some (Return OS_STATUS_OK, k') \<and>
     kernel_ok k' (popped (MsgQ_recv q) k (sent q p A)) \<and> G_p_current_tcb k' = Some c \<and>
     msgQs k' = (msgQs k)(q := (msgQs k q)\<lparr>cur_num := cur_num (msgQs k q) + 1\<rparr>) \<and>
     kheap k' = h\<lparr>bytes := snd (memcpy (p + unat sizeof_DL_NODE) buffer (msg_len buf_len (msgQs k q)) (bytes h))\<rparr>"
proof -
  define k1 where "k1 = upd_tcb c (\<lambda>t. t\<lparr>delay_ticks := 0\<rparr>) (upd_msgQ q (\<lambda>q. q\<lparr>cur_num := cur_num q + 1\<rparr>) k)"
  define k3 where "k3 = upd_bytes (\<lambda>b. snd (memcpy (p + unat sizeof_DL_NODE) buffer (msg_len buf_len (msgQs k q)) b)) (k1\<lparr>kheap := h\<rparr>)"
  define k4 where "k4 = upd_lists (dlist_add (MsgQ_msgs q) p) k3"
  have ok1: "kernel_ok k1 A"
    unfolding k1_def by (rule clear_delay_ok) (use kok c kernel_ok_same [OF upd_msgQ_queues(1)] in simp_all)
  have ok3: "kernel_ok k3 A"
    using ok1 kernel_ok_same [of k1 k3 A] by (simp add: k3_def same_queues_def upd_bytes_def)
  have ok4: "kernel_ok k4 (sent q p A)"
    using enqueue_ok [OF _ nw, of k3 "MsgQ_msgs q"] ok3
    by (auto simp: kernel_ok_def running_def k4_def sent_def)
  have "popped (MsgQ_recv q) k4 (sent q p A) = popped (MsgQ_recv q) k (sent q p A)"
    by (auto simp: popped_def k4_def k3_def k1_def split: list.split)
  then have "kernel_ok (wake_first (MsgQ_recv q) k4) (popped (MsgQ_recv q) k (sent q p A))"
    using wake_first_running [OF ok4, of "MsgQ_recv q"] by simp
  moreover have "msgQs (wake_first (MsgQ_recv q) k4) = msgQs k4" "kheap (wake_first (MsgQ_recv q) k4) = kheap k4"
    "G_p_current_tcb (wake_first (MsgQ_recv q) k4) = Some c"
    using wake_first_frame [OF ok4, of "MsgQ_recv q"] c by (simp_all add: k4_def k3_def k1_def)
  moreover have "msgQ_send q buffer buf_len timeout k = Some (Return OS_STATUS_OK, wake_first (MsgQ_recv q) k4)"
    using sp m c by (simp add: msgQ_send_def kmalloc_def Let_def cur_def k4_def k3_def k1_def msg_len_def)
  ultimately show ?thesis by (simp add: k4_def k3_def k1_def)
qed

lemma msgQ_send_ok:
  assumes kok: "kernel_ok k A" and c: "G_p_current_tcb k = Some c" and st: "store_ok k A R" and qh: "queue_holds k A R q ms"
    and sp: "cur_num (msgQs k q) < max_num (msgQs k q)"
    and m: "malloc (sizeof_DL_NODE + max_len (msgQs k q)) (Some c) (kheap k) = Some (p, h)"
  defines "B \<equiv> popped (MsgQ_recv q) k (sent q p A)"
  shows "\<exists>k' n. msgQ_send q buffer buf_len timeout k = Some (Return OS_STATUS_OK, k') \<and> kernel_ok k' B \<and>
     store_ok k' B (insert (p, n, Some c) R) \<and>
     queue_holds k' B (insert (p, n, Some c) R) q
       (ms @ [bytes_at (bytes (kheap k)) buffer (unat (msg_len buf_len (msgQs k q)))])"
proof -
  let ?n = "msg_len buf_len (msgQs k q)" and ?L = "unat (max_len (msgQs k q))"
  have L: "?L < 2 ^ 30" using qh by (simp add: queue_holds_def)
  have n8: "unat (sizeof_DL_NODE + max_len (msgQs k q)) = 8 + ?L" using L by (simp add: unat_word_ariths)
  have hu: "heap_uses (kheap k) R" using st by (simp add: store_ok_def)
  obtain n where n: "8 + ?L \<le> n" "heap_uses h (insert (p, n, Some c) R)" "\<forall>r \<in> R. apart (p, n, Some c) r"
    "CONFIG_MEM_HEAP_LOW < p" "p + n \<le> CONFIG_MEM_HEAP_HIGH"
    using malloc_region_law [OF hu m] n8 L by auto
  have nw: "nowhere p A" using fresh_node [OF st n(3) _ n(4,5)] n(1) by simp
  let ?m' = "snd (memcpy (p + unat sizeof_DL_NODE) buffer ?n (bytes h))"
  obtain k' where run: "msgQ_send q buffer buf_len timeout k = Some (Return OS_STATUS_OK, k')" "kernel_ok k' B"
    and q': "msgQs k' = (msgQs k)(q := (msgQs k q)\<lparr>cur_num := cur_num (msgQs k q) + 1\<rparr>)" and h': "kheap k' = h\<lparr>bytes := ?m'\<rparr>"
    using msgQ_send_runs [OF kok c nw sp m, of buffer buf_len timeout] unfolding B_def by auto
  have n31: "unat ?n \<le> ?L" using msg_len_bound(1) [of buf_len "msgQs k q"] by (simp add: word_le_nat_alt)
  have cp: "?m' = blit buffer (p + 8) (unat ?n) (bytes (kheap k))"
    using memcpy_blit [of ?n] n31 L malloc_bytes [OF m] by simp
  have BB: "B (MsgQ_msgs q) = A (MsgQ_msgs q) @ [p]" by (simp add: B_def popped_def sent_def split: list.split)
  have "store_ok k' B (insert (p, n, Some c) R)"
  proof (rule store_ok_insert [OF st])
    show "(\<exists>l. a \<in> set (A l)) \<or> a = p" if "a \<in> set (B l)" for l a
      using popped_sub [OF _ that [unfolded B_def]] by (auto simp: sent_def split: if_splits)
  qed (use n in \<open>auto simp: h'\<close>)
  moreover have "list_all2 (msg_at ?m' (insert (p, n, Some c) R) ?L) (A (MsgQ_msgs q)) ms"
  proof (rule queue_holds_frame [where m = "bytes (kheap k)" and R = R])
    show "list_all2 (msg_at (bytes (kheap k)) R ?L) (A (MsgQ_msgs q)) ms" using qh by (simp add: queue_holds_def)
    show "?m' (a + unat sizeof_DL_NODE + j) = bytes (kheap k) (a + unat sizeof_DL_NODE + j)"
      if "(a, sz, t) \<in> R" "unat sizeof_DL_NODE + ?L \<le> sz" "j < ?L" for a sz t j
      using n(1,3) that n31 unfolding cp by (fastforce simp: blit_def apart_def)
  qed auto
  moreover have "msg_at ?m' (insert (p, n, Some c) R) ?L p (bytes_at (bytes (kheap k)) buffer (unat ?n))"
    using n(1) n31 unfolding cp by (auto simp: msg_at_def blit_def)
  ultimately have "store_ok k' B (insert (p, n, Some c) R) \<and> queue_holds k' B (insert (p, n, Some c) R) q
      (ms @ [bytes_at (bytes (kheap k)) buffer (unat ?n)])"
    using qh unat_plus_one_less [OF sp] by (simp add: queue_holds_def q' h' BB list_all2_appendI)
  with run show ?thesis by blast
qed


lemma msgQ_receive_runs:
  assumes kok: "kernel_ok k A" and c: "G_p_current_tcb k = Some c" and a: "A (MsgQ_msgs q) = a # xs"
    and ne: "0 < cur_num (msgQs k q)"
    and f: "free a ((kheap k)\<lparr>bytes := snd (memcpy buffer (a + unat sizeof_DL_NODE) (msg_len buf_len (msgQs k q)) (bytes (kheap k)))\<rparr>) = Some h"
  shows "\<exists>k'. msgQ_receive q buffer buf_len timeout k = Some (Return OS_STATUS_OK, k') \<and>
     kernel_ok k' (popped (MsgQ_send q) k (A(MsgQ_msgs q := xs))) \<and>
     msgQs k' = (msgQs k)(q := (msgQs k q)\<lparr>cur_num := cur_num (msgQs k q) - 1\<rparr>) \<and> kheap k' = h"
proof -
  define k1 where "k1 = upd_tcb c (\<lambda>t. t\<lparr>delay_ticks := 0\<rparr>) (upd_msgQ q (\<lambda>q. q\<lparr>cur_num := cur_num q - 1\<rparr>) k)"
  define k2 where "k2 = upd_lists (dlist_remove (MsgQ_msgs q) a) k1"
  define k4 where "k4 = k2\<lparr>kheap := h\<rparr>"
  have ok1: "kernel_ok k1 A"
    unfolding k1_def by (rule clear_delay_ok) (use kok c kernel_ok_same [OF upd_msgQ_queues(1)] in simp_all)
  have g: "list_get (MsgQ_msgs q) k1 = (Some a, k2)" and "queue_ok k2 (A(MsgQ_msgs q := xs))"
    using list_get_ok [of k1 A "MsgQ_msgs q"] ok1 a by (auto simp: kernel_ok_def k2_def)
  then have "kernel_ok k2 (A(MsgQ_msgs q := xs))" using ok1 by (auto simp: kernel_ok_def running_def k2_def)
  then have ok4: "kernel_ok k4 (A(MsgQ_msgs q := xs))"
    using kernel_ok_same [of k2 k4] by (simp add: k4_def)
  have "popped (MsgQ_send q) k4 (A(MsgQ_msgs q := xs)) = popped (MsgQ_send q) k (A(MsgQ_msgs q := xs))"
    by (auto simp: popped_def k4_def k2_def k1_def split: list.split)
  then have "kernel_ok (wake_first (MsgQ_send q) k4) (popped (MsgQ_send q) k (A(MsgQ_msgs q := xs)))"
    using wake_first_running [OF ok4, of "MsgQ_send q"] by simp
  moreover have "msgQs (wake_first (MsgQ_send q) k4) = msgQs k4" "kheap (wake_first (MsgQ_send q) k4) = kheap k4"
    using wake_first_frame [OF ok4, of "MsgQ_send q"] by simp_all
  moreover have "msgQ_receive q buffer buf_len timeout k = Some (Return OS_STATUS_OK, wake_first (MsgQ_send q) k4)"
  proof -
    have "msg_len buf_len (msgQs k2 q) = msg_len buf_len (msgQs k q)" "kheap k2 = kheap k"
      by (simp_all add: msg_len_def k2_def k1_def)
    then have "kfree a (upd_bytes (\<lambda>m. snd (memcpy buffer (a + 8) (msg_len buf_len (msgQs k2 q)) m)) k2) = Some k4"
      using f by (simp add: kfree_def k4_def upd_bytes_def)
    then show ?thesis using ne c g by (simp add: msgQ_receive_def Let_def cur_def flip: k1_def)
  qed
  ultimately show ?thesis by (simp add: k4_def k2_def k1_def)
qed

text \<open>The buffer of the caller is apart from the blocks of the queue.\<close>

definition buffer_apart :: "addr \<Rightarrow> nat \<Rightarrow> addr list \<Rightarrow> nat \<Rightarrow> bool" where
  "buffer_apart b n as sz \<longleftrightarrow> (\<forall>a \<in> set as. b + n \<le> a \<or> a + sz \<le> b)"

lemma msgQ_receive_ok:
  assumes kok: "kernel_ok k A" and c: "G_p_current_tcb k = Some c" and st: "store_ok k A R" and qh: "queue_holds k A R q (m # ms)"
    and ba: "buffer_apart buffer (unat (msg_len buf_len (msgQs k q))) (A (MsgQ_msgs q)) (8 + unat (max_len (msgQs k q)))"
  shows "\<exists>k' a as n t. A (MsgQ_msgs q) = a # as \<and> (a, n, t) \<in> R \<and>
     msgQ_receive q buffer buf_len timeout k = Some (Return OS_STATUS_OK, k') \<and>
     kernel_ok k' (popped (MsgQ_send q) k (A(MsgQ_msgs q := as))) \<and>
     store_ok k' (popped (MsgQ_send q) k (A(MsgQ_msgs q := as))) (R - {(a, n, t)}) \<and>
     queue_holds k' (popped (MsgQ_send q) k (A(MsgQ_msgs q := as))) (R - {(a, n, t)}) q ms \<and>
     (\<forall>j < min (unat (msg_len buf_len (msgQs k q))) (length m). bytes (kheap k') (buffer + j) = m ! j) \<and>
     (\<forall>b. b < buffer \<or> buffer + unat (msg_len buf_len (msgQs k q)) \<le> b \<longrightarrow> bytes (kheap k') b = bytes (kheap k) b)"
proof -
  let ?n = "msg_len buf_len (msgQs k q)" and ?L = "unat (max_len (msgQs k q))"
  have L: "?L < 2 ^ 30" and num: "unat (cur_num (msgQs k q)) = Suc (length ms)"
    and all: "list_all2 (msg_at (bytes (kheap k)) R ?L) (A (MsgQ_msgs q)) (m # ms)"
    using qh by (auto simp: queue_holds_def)
  obtain a xs where a: "A (MsgQ_msgs q) = a # xs" and ma: "msg_at (bytes (kheap k)) R ?L a m"
    and mx: "list_all2 (msg_at (bytes (kheap k)) R ?L) xs ms" using all by (auto simp: list_all2_Cons2)
  obtain sz t where r: "(a, sz, t) \<in> R" "8 + ?L \<le> sz" using ma by (auto simp: msg_at_def)
  let ?m' = "snd (memcpy buffer (a + unat sizeof_DL_NODE) ?n (bytes (kheap k)))"
  have n31: "unat ?n \<le> ?L" using msg_len_bound(1) [of buf_len "msgQs k q"] by (simp add: word_le_nat_alt)
  have cp: "?m' = blit (a + 8) buffer (unat ?n) (bytes (kheap k))" using memcpy_blit [of ?n] n31 L by simp
  have "heap_uses ((kheap k)\<lparr>bytes := ?m'\<rparr>) R" using st by (simp add: store_ok_def)
  from heap_free_law [OF this r(1)] obtain h where h: "free a ((kheap k)\<lparr>bytes := ?m'\<rparr>) = Some h" "heap_uses h (R - {(a, sz, t)})"
    by blast
  have bh: "bytes h = ?m'" using free_bytes [OF h(1)] by simp
  have "0 < cur_num (msgQs k q)" using num by (simp add: word_less_nat_alt)
  from msgQ_receive_runs [OF kok c a this h(1)] obtain k' where
    run: "msgQ_receive q buffer buf_len timeout k = Some (Return OS_STATUS_OK, k')"
    and kok': "kernel_ok k' (popped (MsgQ_send q) k (A(MsgQ_msgs q := xs)))"
    and q': "msgQs k' = (msgQs k)(q := (msgQs k q)\<lparr>cur_num := cur_num (msgQs k q) - 1\<rparr>)" and h': "kheap k' = h" by blast
  define B where "B = popped (MsgQ_send q) k (A(MsgQ_msgs q := xs))"
  have nw: "nowhere a (A(MsgQ_msgs q := xs))"
    using list_get_ok [of k A "MsgQ_msgs q"] kok a by (auto simp: kernel_ok_def)
  have ax: "a \<notin> set xs" using spec [OF nw, of "MsgQ_msgs q"] by simp
  have nB: "nowhere a B" using popped_sub [of "MsgQ_send q" a k "A(MsgQ_msgs q := xs)"] nw unfolding B_def by auto
  have "store_ok k' B (R - {(a, sz, t)})"
  proof (rule store_ok_remove [OF st _ nB])
    show "\<exists>l. b \<in> set (A l)" if "b \<in> set (B l)" for l b
      using popped_sub [OF _ that [unfolded B_def]] a by (auto split: if_splits) (metis list.set_intros(2))
  qed (use h h' in simp)
  moreover have "list_all2 (msg_at ?m' (R - {(a, sz, t)}) ?L) xs ms"
  proof (rule queue_holds_frame [OF mx])
    fix b sz' t' j
    assume b: "b \<in> set xs"
    show "(b, sz', t') \<in> R - {(a, sz, t)}" if "(b, sz', t') \<in> R" using that b ax by auto
    show "?m' (b + unat sizeof_DL_NODE + j) = bytes (kheap k) (b + unat sizeof_DL_NODE + j)" if "j < ?L"
      using that b ba n31 a unfolding cp by (auto simp: blit_def buffer_apart_def)
  qed
  moreover have "B (MsgQ_msgs q) = xs" by (simp add: B_def popped_def split: list.split)
  moreover have "unat (cur_num (msgQs k q) - 1) = length ms"
  proof -
    have "cur_num (msgQs k q) \<noteq> 0" using num by auto
    from unat_minus_one_pos [OF this] num show ?thesis by simp
  qed
  ultimately have "store_ok k' B (R - {(a, sz, t)})" "queue_holds k' B (R - {(a, sz, t)}) q ms"
    using L by (simp_all add: queue_holds_def q' h' bh)
  moreover have "bytes (kheap k') (buffer + j) = m ! j" if "j < min (unat ?n) (length m)" for j
    using that ma unfolding h' bh cp by (simp add: blit_def msg_at_def)
  moreover have "bytes (kheap k') b = bytes (kheap k) b" if "b < buffer \<or> buffer + unat ?n \<le> b" for b
    using that unfolding h' bh cp by (auto simp: blit_def)
  ultimately show ?thesis using run kok' a r(1) unfolding B_def by blast
qed


section \<open>Deleting a queue\<close>

text \<open>What one of the two wake-ups of \<^verbatim>\<open>msgQ_delete\<close> leaves: the first waiter is ready, the
  second one is in no list at all, the others stay where they are.\<close>

lemma pop_waiter_ok:
  assumes ok: "queue_ok k A" and l: "task_list l" "\<not> is_ready_list l" and w: "A l = a # xs"
  shows "\<exists>B. queue_ok (pop_waiter l k) B \<and> B l = tl xs \<and> a \<in> set (B (Ready_list (prio a k))) \<and>
     (\<forall>b zs. xs = b # zs \<longrightarrow> nowhere b B) \<and> tcbs (pop_waiter l k) = tcbs (wake_failed l a k)"
proof -
  define C where "C = A(l := xs, Ready_list (prio a k) := A (Ready_list (prio a k)) @ [a])"
  let ?k = "wake_failed l a k"
  have okC: "queue_ok ?k C" unfolding C_def by (rule wake_failed_ok [OF ok w l])
  have Cl: "C l = xs" using l(2) by (auto simp: C_def)
  have pw: "pop_waiter l k = snd (list_get l ?k)"
    using list_get_ok [OF ok l(2)] w by (simp add: pop_waiter_def wake_failed_def)
  have aC: "a \<in> set (C (Ready_list (prio a k)))" by (simp add: C_def)
  show ?thesis
  proof (cases xs)
    case Nil
    then show ?thesis using list_get_ok [OF okC l(2)] Cl pw okC aC by (intro exI [of _ C]) simp
  next
    case (Cons b zs)
    then have g: "pop_waiter l k = upd_lists (dlist_remove l b) ?k" "queue_ok (upd_lists (dlist_remove l b) ?k) (C(l := zs))"
      "nowhere b (C(l := zs))"
      using list_get_ok [OF okC l(2)] Cl pw by auto
    moreover have "a \<in> set ((C(l := zs)) (Ready_list (prio a k)))" using aC l(2) by auto
    ultimately show ?thesis using Cons by (intro exI [of _ "C(l := zs)"]) auto
  qed
qed

section \<open>Properties\<close>

text \<open>C11: message queues are first in, first out. If the queue holds the messages \<open>ms\<close> and
  has room, and the heap can serve the node, then sending succeeds and the queue holds
  \<open>ms\<close> followed by the first \<open>min buf_len max_len\<close> bytes of the buffer; the first waiting
  receiver becomes ready; kernel, heap and queue invariants hold again.\<close>

theorem msgQ_send_appends:
  assumes "kernel_ok k A" and "G_p_current_tcb k = Some c" and "store_ok k A R" and "queue_holds k A R q ms"
    and "cur_num (msgQs k q) < max_num (msgQs k q)"
    and "malloc (sizeof_DL_NODE + max_len (msgQs k q)) (Some c) (kheap k) = Some (p, h)"
  shows "\<exists>k' R'. msgQ_send q buffer buf_len timeout k = Some (Return OS_STATUS_OK, k') \<and>
     kernel_ok k' (popped (MsgQ_recv q) k (sent q p A)) \<and> store_ok k' (popped (MsgQ_recv q) k (sent q p A)) R' \<and>
     queue_holds k' (popped (MsgQ_recv q) k (sent q p A)) R' q
       (ms @ [bytes_at (bytes (kheap k)) buffer (unat (msg_len buf_len (msgQs k q)))])"
  using msgQ_send_ok [OF assms] by blast

lemma demo_store: "store_ok demo demo_queues {}" "queue_holds demo demo_queues {} 4000 []"
proof -
  have "regions CONFIG_MEM_HEAP_LOW whole = {}" by (simp add: whole_def)
  then have "heap_uses fresh_heap {}" using fresh_heap_holds by (auto simp: heap_uses_def)
  then show "store_ok demo demo_queues {}"
    by (auto simp: store_ok_def demo_queues_def pairwise_def split: if_splits)
  show "queue_holds demo demo_queues {} 4000 []"
    by (simp add: queue_holds_def demo_queues_def empty_kernel_def)
qed

lemma demo_malloc: "\<exists>h. malloc 12 (Some 100) fresh_heap = Some (0x51000014, h)"
  using malloc_refines_fit [of fresh_heap "[]" "Blk 0x4ffffec False None" "[]" 12 "Some 100"] fresh_heap_holds
  by (auto simp: whole_def fits_def align_up_nat)

theorem msgQ_send_appends_witness:
  "\<exists>k' A R. msgQ_send 4000 7 3 0 demo = Some (Return OS_STATUS_OK, k') \<and> queue_holds k' A R 4000 [[0, 0, 0]]"
proof -
  obtain h where "malloc 12 (Some 100) fresh_heap = Some (0x51000014, h)" using demo_malloc by blast
  then have m: "malloc (8 + max_len (msgQs demo 4000)) (Some 100) (kheap demo) = Some (0x51000014, h)"
    by (simp add: empty_kernel_def)
  have room: "cur_num (msgQs demo 4000) < max_num (msgQs demo 4000)" "unat (msg_len 3 (msgQs demo 4000)) = 3"
    by (simp_all add: empty_kernel_def msg_len_def)
  have "bytes_at (bytes (kheap demo)) 7 3 = [0, 0, 0]"
    by (simp add: bytes_at_def fresh_heap_def heap_init_def upt_rec)
  then show ?thesis
    using msgQ_send_appends [OF demo_ok _ demo_store room(1) m, of 7 3 0] room(2) by auto
qed

text \<open>C12: and receiving takes the oldest message. It succeeds, copies the message (cut to the
  length of the buffer) to the caller and writes nothing else; the node of that message leaves the queue and
  its block, no other, is free again; the first task that waits to send is ready; the queue holds the
  rest of the messages. The buffer must not overlap the blocks of the queue.\<close>

theorem msgQ_receive_oldest:
  assumes "kernel_ok k A" and "G_p_current_tcb k = Some c" and "store_ok k A R" and "queue_holds k A R q (m # ms)"
    and "buffer_apart buffer (unat (msg_len buf_len (msgQs k q))) (A (MsgQ_msgs q)) (8 + unat (max_len (msgQs k q)))"
  shows "\<exists>k' a as n t. A (MsgQ_msgs q) = a # as \<and> (a, n, t) \<in> R \<and>
     msgQ_receive q buffer buf_len timeout k = Some (Return OS_STATUS_OK, k') \<and>
     kernel_ok k' (popped (MsgQ_send q) k (A(MsgQ_msgs q := as))) \<and>
     store_ok k' (popped (MsgQ_send q) k (A(MsgQ_msgs q := as))) (R - {(a, n, t)}) \<and>
     queue_holds k' (popped (MsgQ_send q) k (A(MsgQ_msgs q := as))) (R - {(a, n, t)}) q ms \<and>
     (\<forall>j < min (unat (msg_len buf_len (msgQs k q))) (length m). bytes (kheap k') (buffer + j) = m ! j) \<and>
     (\<forall>b. b < buffer \<or> buffer + unat (msg_len buf_len (msgQs k q)) \<le> b \<longrightarrow> bytes (kheap k') b = bytes (kheap k) b)"
  using msgQ_receive_ok [OF assms] .

lemma demo_sent:
  obtains k A R where "kernel_ok k A" "G_p_current_tcb k = Some 100" "store_ok k A R" "queue_holds k A R 4000 [[0, 0, 0]]"
    "A (MsgQ_msgs 4000) = [0x51000014]" "msgQs k 4000 = \<lparr>max_num = 1, max_len = 4, cur_num = 1\<rparr>"
proof -
  obtain h where "malloc 12 (Some 100) fresh_heap = Some (0x51000014, h)" using demo_malloc by blast
  then have m: "malloc (8 + max_len (msgQs demo 4000)) (Some 100) (kheap demo) = Some (0x51000014, h)"
    by (simp add: empty_kernel_def)
  have room: "cur_num (msgQs demo 4000) < max_num (msgQs demo 4000)" "unat (msg_len 3 (msgQs demo 4000)) = 3"
    by (simp_all add: empty_kernel_def msg_len_def)
  have b: "bytes_at (bytes (kheap demo)) 7 3 = [0, 0, 0]"
    by (simp add: bytes_at_def fresh_heap_def heap_init_def upt_rec)
  have nw: "nowhere 0x51000014 demo_queues" by (simp add: demo_queues_def)
  obtain k where k: "msgQ_send 4000 7 3 0 demo = Some (Return OS_STATUS_OK, k)" "G_p_current_tcb k = Some 100"
    "msgQs k = (msgQs demo)(4000 := (msgQs demo 4000)\<lparr>cur_num := cur_num (msgQs demo 4000) + 1\<rparr>)"
    using msgQ_send_runs [OF demo_ok _ nw room(1) m, of 7 3 0] by auto
  let ?B = "popped (MsgQ_recv 4000) demo (sent 4000 0x51000014 demo_queues)"
  obtain R where "kernel_ok k ?B" "store_ok k ?B R" "queue_holds k ?B R 4000 [[0, 0, 0]]"
    using msgQ_send_ok [OF demo_ok _ demo_store room(1) m, of 7 3 0] k(1) room(2) b by auto
  moreover have "?B (MsgQ_msgs 4000) = [0x51000014]" by (simp add: popped_def sent_def demo_queues_def)
  ultimately show thesis using that k(2,3) by (simp add: empty_kernel_def)
qed

theorem msgQ_receive_oldest_witness:
  "\<exists>k k'. msgQ_receive 4000 9 3 0 k = Some (Return OS_STATUS_OK, k') \<and> bytes (kheap k') 10 = 0"
proof -
  obtain k A R where k: "kernel_ok k A" "G_p_current_tcb k = Some 100" "store_ok k A R" "queue_holds k A R 4000 [[0, 0, 0]]"
    "A (MsgQ_msgs 4000) = [0x51000014]" "msgQs k 4000 = \<lparr>max_num = 1, max_len = 4, cur_num = 1\<rparr>"
    using demo_sent .
  have n: "unat (msg_len 3 (msgQs k 4000)) = 3" by (simp add: k msg_len_def)
  have ba: "buffer_apart 9 (unat (msg_len 3 (msgQs k 4000))) (A (MsgQ_msgs 4000)) (8 + unat (max_len (msgQs k 4000)))"
    by (simp add: buffer_apart_def k(5) n)
  obtain k' where r: "msgQ_receive 4000 9 3 0 k = Some (Return OS_STATUS_OK, k')"
    and b: "\<forall>j < 3. bytes (kheap k') (9 + j) = [0, 0, 0] ! j"
    using msgQ_receive_oldest [OF k(1-4) ba, of 0] n by auto
  have "bytes (kheap k') 10 = 0" using spec [OF b, of 1] by simp
  with r show ?thesis by blast
qed

text \<open>when a queue with two waiting senders is deleted, only the first one is made ready;
  the second is taken off the list and put nowhere: no later operation on any queue can
  make it run again. The comment of the function promises that all waiters are popped.\<close>

theorem msgQ_delete_drops_waiter:
  assumes "queue_ok k A" and "A (MsgQ_send q) = a # b # xs"
  shows "\<exists>B. queue_ok (pop_waiter (MsgQ_send q) k) B \<and> a \<in> set (B (Ready_list (prio a k))) \<and>
     (\<forall>l. b \<notin> set (B l)) \<and> status (tcbs (pop_waiter (MsgQ_send q) k) b) = TASK_STATUS_PEND_MSG_S"
proof -
  obtain B where B: "queue_ok (pop_waiter (MsgQ_send q) k) B" "a \<in> set (B (Ready_list (prio a k)))" "nowhere b B"
    "tcbs (pop_waiter (MsgQ_send q) k) = tcbs (wake_failed (MsgQ_send q) a k)"
    using pop_waiter_ok [OF assms(1) _ _ assms(2)] by auto
  have "a \<noteq> b" using dl.holds_distinct [OF queue_ok_D(1) [OF assms(1)], of "MsgQ_send q"] assms(2) by simp
  moreover have "status (tcbs k b) = TASK_STATUS_PEND_MSG_S"
    using tq.residence [OF assms(1), of "MsgQ_send q" b] assms(2)
    by (simp add: resident_def home_def split: task_status.splits)
  ultimately show ?thesis using B by (auto simp: wake_failed_tcbs)
qed

text \<open>Tasks 300 and 400 wait to send to queue 4000.\<close>

definition msgQ_two :: kernel where
  "msgQ_two = (let f = upd_tcb 300 (\<lambda>t. t\<lparr>status := TASK_STATUS_PEND_MSG_S, pend_obj := Some 4000, delay_ticks := 8\<rparr>);
                   g = upd_tcb 400 (\<lambda>t. t\<lparr>status := TASK_STATUS_PEND_MSG_S, pend_obj := Some 4000, delay_ticks := 8\<rparr>)
               in upd_lists (dlist_add (MsgQ_send 4000) 400) (upd_lists (dlist_add (MsgQ_send 4000) 300) (g (f demo))))"

lemma msgQ_two_ok: "queue_ok msgQ_two (demo_queues(MsgQ_send 4000 := [300, 400]))"
proof -
  let ?f = "upd_tcb 300 (\<lambda>t. t\<lparr>status := TASK_STATUS_PEND_MSG_S, pend_obj := Some 4000, delay_ticks := 8\<rparr>)"
  let ?g = "upd_tcb 400 (\<lambda>t. t\<lparr>status := TASK_STATUS_PEND_MSG_S, pend_obj := Some 4000, delay_ticks := 8\<rparr>)"
  have n: "nowhere 300 demo_queues" "nowhere 400 demo_queues" by (simp_all add: demo_queues_def)
  have "queue_ok (?g (?f demo)) demo_queues"
    using demo_ok n upd_tcb_ok [of _ demo_queues 300] upd_tcb_ok [of _ demo_queues 400] by (simp add: kernel_ok_def)
  moreover have r: "resident (tcbs (?g (?f demo)) 300) (MsgQ_send 4000)" "resident (tcbs (?g (?f demo)) 400) (MsgQ_send 4000)"
    by (simp_all add: resident_def home_def demo_tcb_def)
  moreover define D where "D = demo_queues(MsgQ_send 4000 := [300])"
  ultimately have 1: "queue_ok (upd_lists (dlist_add (MsgQ_send 4000) 300) (?g (?f demo))) D"
    using enqueue_ok [of "?g (?f demo)" demo_queues 300 "MsgQ_send 4000"] n by (simp add: demo_queues_def)
  have "nowhere 400 D" using n by (simp add: D_def)
  from enqueue_ok [OF 1 this, of "MsgQ_send 4000"] r(2) have "queue_ok msgQ_two (D(MsgQ_send 4000 := D (MsgQ_send 4000) @ [400]))"
    by (simp add: msgQ_two_def)
  then show ?thesis by (simp add: D_def)
qed

theorem msgQ_delete_drops_waiter_witness:
  "status (tcbs (pop_waiter (MsgQ_send 4000) msgQ_two) 400) = TASK_STATUS_PEND_MSG_S \<and>
   (\<exists>B. queue_ok (pop_waiter (MsgQ_send 4000) msgQ_two) B \<and> (\<forall>l. 400 \<notin> set (B l)))"
  using msgQ_delete_drops_waiter [OF msgQ_two_ok, of 4000 300 400 "[]"] by auto

end
