(* ===== verification/Task_Store.thy ===== *)
theory Task_Store
  imports MsgQ
begin

text \<open>
  The two stores of \<^verbatim>\<open>src/task.c\<close>: the array of 256 TCBs with its bit map, and the
  2048 stack pages of 4096 bytes with theirs. A bit is 1 while its TCB or page is
  available. The abstract state of a map is the set of its available numbers
  (\<open>avail\<close>); the operations are shown to be first fit searches and updates on it.
\<close>

section \<open>Operations\<close>

abbreviation (input) TASK_NUM_MAX :: nat where "TASK_NUM_MAX \<equiv> 256"
abbreviation (input) sizeof_OS_TCB :: nat where "sizeof_OS_TCB \<equiv> 84"
abbreviation (input) CONFIG_MEM_STACK_LOW :: uint32 where "CONFIG_MEM_STACK_LOW \<equiv> 0x50800000"
abbreviation (input) CONFIG_MEM_STACK_PAGE_SIZE :: uint32 where "CONFIG_MEM_STACK_PAGE_SIZE \<equiv> 4096"
abbreviation (input) CONFIG_MEM_STACK_PAGE_NUM :: nat where "CONFIG_MEM_STACK_PAGE_NUM \<equiv> 2048"

text \<open>\<^verbatim>\<open>BIT_SET\<close>, \<^verbatim>\<open>BIT_CLEAR\<close> and \<^verbatim>\<open>BIT_VALUE\<close> of \<^verbatim>\<open>config.h\<close> on a word of an array.\<close>

definition BIT_SET :: "nat \<Rightarrow> nat \<Rightarrow> uint32 list \<Rightarrow> uint32 list" where
  "BIT_SET i pos m = m[i := m ! i OR push_bit pos 1]"

definition BIT_CLEAR :: "nat \<Rightarrow> nat \<Rightarrow> uint32 list \<Rightarrow> uint32 list" where
  "BIT_CLEAR i pos m = m[i := m ! i AND NOT (push_bit pos 1)]"

definition BIT_VALUE :: "nat \<Rightarrow> nat \<Rightarrow> uint32 list \<Rightarrow> uint32" where
  "BIT_VALUE i pos m = drop_bit pos (m ! i) AND 1"

definition task_init :: "kernel \<Rightarrow> kernel" where
  "task_init k =
     (let tcb_map = replicate ((TASK_NUM_MAX + 31) div 32) 0xffffffff;
          idle_num = length tcb_map * 32 - TASK_NUM_MAX
      in k\<lparr>G_tcb_map := fold (\<lambda>i. BIT_CLEAR ((TASK_NUM_MAX + 31) div 32 - 1) (31 - i)) [0..<idle_num] tcb_map,
           G_stack_map := replicate ((CONFIG_MEM_STACK_PAGE_NUM + 31) div 32) 0xffffffff\<rparr>)"

text \<open>The search loop of \<^verbatim>\<open>_alloc_tcb\<close>: the triple is
  \<^verbatim>\<open>index_tcb_map\<close>, \<^verbatim>\<open>lowest_available\<close>, \<^verbatim>\<open>index_tcb\<close>.\<close>

function alloc_tcb_loop :: "uint32 list \<Rightarrow> nat \<Rightarrow> int \<Rightarrow> nat \<Rightarrow> nat \<times> int \<times> nat" where
  "alloc_tcb_loop m index_tcb_map lowest_available index_tcb =
     (if index_tcb_map < (TASK_NUM_MAX + 31) div 32
      then let low = LSB (m ! index_tcb_map)
           in if low \<noteq> -1 then (index_tcb_map, low, index_tcb + nat low)
              else alloc_tcb_loop m (index_tcb_map + 1) low (index_tcb + 32)
      else (index_tcb_map, lowest_available, index_tcb))"
  by pat_completeness auto
termination by (relation "measure (\<lambda>(m, i, l, t). 8 - i)") auto

declare alloc_tcb_loop.simps [simp del]

definition alloc_tcb :: "kernel \<Rightarrow> ptr \<times> kernel" where
  "alloc_tcb k =
     (case alloc_tcb_loop (G_tcb_map k) 0 (-1) 0 of (index_tcb_map, lowest_available, index_tcb) \<Rightarrow>
        if lowest_available = -1 then (None, k)
        else (Some (G_tcb k + sizeof_OS_TCB * index_tcb),
              k\<lparr>G_tcb_map := BIT_CLEAR index_tcb_map (nat lowest_available) (G_tcb_map k)\<rparr>))"

definition release_tcb :: "addr \<Rightarrow> kernel \<Rightarrow> kernel" where
  "release_tcb pTcb k =
     (let n = (pTcb - G_tcb k) div sizeof_OS_TCB
      in k\<lparr>G_tcb_map := BIT_SET (drop_bit 5 n) (n AND 0x1f) (G_tcb_map k)\<rparr>)"

text \<open>The inner loop of \<^verbatim>\<open>_alloc_stack\<close>, by the number of pages still to match: it stops with 0
  left, or behind the first page that is taken.\<close>

fun match_pages :: "uint32 list \<Rightarrow> nat \<Rightarrow> nat \<Rightarrow> nat \<times> nat" where
  "match_pages m 0 current_page = (0, current_page)"
| "match_pages m (Suc left) current_page =
     (if BIT_VALUE (drop_bit 5 current_page) (current_page AND 0x1f) m = 0 then (Suc left, current_page + 1)
      else match_pages m left (current_page + 1))"

lemma match_pages_progress: "match_pages m n c = (Suc r, e) \<Longrightarrow> c < e"
  by (induction m n c rule: match_pages.induct) (auto split: if_splits)

text \<open>The outer loop; \<open>None\<close> when no run of pages is found.\<close>

function find_pages :: "uint32 list \<Rightarrow> nat \<Rightarrow> nat \<Rightarrow> nat option" where
  "find_pages m need_stack_pages current_page =
     (if current_page + need_stack_pages \<le> CONFIG_MEM_STACK_PAGE_NUM
      then case match_pages m need_stack_pages current_page of
             (0, page) \<Rightarrow> Some page
           | (Suc _, page) \<Rightarrow> find_pages m need_stack_pages page
      else None)"
  by pat_completeness auto
termination
  by (relation "measure (\<lambda>(m, n, c). 2049 - c)")
    (auto dest!: match_pages_progress [OF sym])

declare find_pages.simps [simp del]

text \<open>\<^verbatim>\<open>while (need_stack_pages-- > 0)\<close> with a bit operation on the page below.\<close>

fun each_page :: "(nat \<Rightarrow> nat \<Rightarrow> uint32 list \<Rightarrow> uint32 list) \<Rightarrow> nat \<Rightarrow> nat \<Rightarrow> uint32 list \<Rightarrow> uint32 list" where
  "each_page f 0 page m = m"
| "each_page f (Suc n) page m = each_page f n (page - 1) (f (drop_bit 5 (page - 1)) ((page - 1) AND 0x1f) m)"

definition need_pages :: "uint32 \<Rightarrow> nat" where
  "need_pages sz = unat ((sz + CONFIG_MEM_STACK_PAGE_SIZE - 1) div CONFIG_MEM_STACK_PAGE_SIZE)"

definition alloc_stack :: "uint32 \<Rightarrow> kernel \<Rightarrow> uint32 \<times> kernel" where
  "alloc_stack sz k =
     (case find_pages (G_stack_map k) (need_pages sz) 0 of
        None \<Rightarrow> (0, k)
      | Some current_page \<Rightarrow>
          let p = CONFIG_MEM_STACK_LOW + of_nat current_page * CONFIG_MEM_STACK_PAGE_SIZE;
              k1 = upd_bytes (\<lambda>m. snd (memset (unat (p - sz)) 0xcc sz m)) k
          in (p, k1\<lparr>G_stack_map := each_page BIT_CLEAR (need_pages sz) current_page (G_stack_map k1)\<rparr>))"

definition release_stack :: "addr \<Rightarrow> kernel \<Rightarrow> kernel" where
  "release_stack pTcb k =
     (let top_page = unat ((stack_start (tcbs k pTcb) - CONFIG_MEM_STACK_LOW) div CONFIG_MEM_STACK_PAGE_SIZE)
      in k\<lparr>G_stack_map := each_page BIT_SET (need_pages (stack_size (tcbs k pTcb))) top_page (G_stack_map k)\<rparr>)"

text \<open>A 32 bit load, lowest byte first.\<close>

definition load_long :: "addr \<Rightarrow> cmem \<Rightarrow> uint32" where
  "load_long p m = of_nat (unat (m p) + 2 ^ 8 * unat (m (p + 1)) + 2 ^ 16 * unat (m (p + 2)) + 2 ^ 24 * unat (m (p + 3)))"

text \<open>The binary search of \<^verbatim>\<open>_stack_used_percent\<close>; the pointers are to 4 byte words.\<close>

definition mid_ptr :: "addr \<Rightarrow> addr \<Rightarrow> addr" where
  "mid_ptr low high = low + 4 * ((high - low) div 4 div 2)"

function used_search :: "cmem \<Rightarrow> addr \<Rightarrow> addr \<Rightarrow> addr" where
  "used_search m low high =
     (if low < high \<and> 4 dvd high - low
      then if load_long (mid_ptr low high) m = 0xcccccccc then used_search m (mid_ptr low high + 4) high
           else used_search m low (mid_ptr low high)
      else mid_ptr low high)"
  by pat_completeness auto
termination
  by (relation "measure (\<lambda>(m, l, h). h - l)") (auto simp: mid_ptr_def elim!: dvdE)

declare used_search.simps [simp del]

definition stack_used_percent :: "addr \<Rightarrow> kernel \<Rightarrow> uint32" where
  "stack_used_percent pTcb k =
     (let t = tcbs k pTcb;
          mid = used_search (bytes (kheap k)) (unat (stack_start t - stack_size t)) (unat (stack_start t - 4))
      in 1 + ((stack_start t - of_nat mid) * 100) div stack_size t)"

section \<open>Bit maps as sets\<close>

definition avail :: "uint32 list \<Rightarrow> nat set" where
  "avail m = {i. i < 32 * length m \<and> bit (m ! (i div 32)) (i mod 32)}"

lemma page_index [simp]: "drop_bit 5 (n :: nat) = n div 32" "n AND 31 = n mod 32"
proof -
  show "drop_bit 5 n = n div 32" by (simp add: drop_bit_nat_def)
  have "n AND 31 = take_bit 5 n" by (simp add: take_bit_eq_mask mask_eq_exp_minus_1)
  then show "n AND 31 = n mod 32" by (simp add: take_bit_nat_def)
qed

lemma BIT_length [simp]: "length (BIT_SET i b m) = length m" "length (BIT_CLEAR i b m) = length m"
  by (simp_all add: BIT_SET_def BIT_CLEAR_def)

lemma avail_BIT_CLEAR:
  assumes "n < 32 * length m"
  shows "avail (BIT_CLEAR (n div 32) (n mod 32) m) = avail m - {n}"
proof -
  have "n div 32 < length m" using assms by auto
  then show ?thesis unfolding avail_def BIT_CLEAR_def
    by (auto simp: nth_list_update bit_clear_push simp del: push_bit_of_1 dest: div_mod_eq)
qed

lemma avail_BIT_SET:
  assumes "n < 32 * length m"
  shows "avail (BIT_SET (n div 32) (n mod 32) m) = insert n (avail m)"
proof -
  have "n div 32 < length m" using assms by auto
  then show ?thesis using assms unfolding avail_def BIT_SET_def
    by (auto simp: nth_list_update bit_or_push simp del: push_bit_of_1 dest: div_mod_eq)
qed

lemma BIT_VALUE_avail:
  assumes "n < 32 * length m"
  shows "BIT_VALUE (n div 32) (n mod 32) m = 0 \<longleftrightarrow> n \<notin> avail m"
  using assms by (simp add: BIT_VALUE_def avail_def and_one_eq bit_iff_odd_drop_bit odd_iff_mod_2_eq_one)

lemma avail_eqI:
  assumes "avail m = avail m'" and "length m = length m'"
  shows "m = m'"
proof (rule nth_equalityI [OF assms(2)])
  fix i assume i: "i < length m"
  have "bit (m ! i) j = bit (m' ! i) j" if "j < 32" for j
  proof -
    have "32 * i + j \<in> avail m \<longleftrightarrow> 32 * i + j \<in> avail m'" using assms(1) by simp
    then show ?thesis using i that assms(2) by (simp add: avail_def)
  qed
  then show "m ! i = m' ! i" by (auto simp: bit_eq_iff dest: bit_imp_le_length)
qed

section \<open>The TCB store\<close>

lemma LSB_avail:
  assumes "i < length m"
  shows "if LSB (m ! i) = -1 then avail m \<inter> {32 * i..<32 * Suc i} = {}
         else 0 \<le> LSB (m ! i) \<and> LSB (m ! i) < 32 \<and> 32 * i + nat (LSB (m ! i)) \<in> avail m \<and>
              avail m \<inter> {32 * i..<32 * i + nat (LSB (m ! i))} = {}"
proof -
  have n: "n \<in> avail m \<longleftrightarrow> bit (m ! i) (n - 32 * i)" if "n \<in> {32 * i..<32 * Suc i}" for n
  proof -
    have d: "n div 32 = i" using that by auto
    moreover have "n mod 32 = n - 32 * i" by (simp add: modulo_nat_def d mult.commute)
    moreover have "n < 32 * length m" using that assms by auto
    ultimately show ?thesis by (simp add: avail_def)
  qed
  show ?thesis
  proof (cases "m ! i = 0")
    case True
    then show ?thesis using n by (auto simp: LSB_def)
  next
    case False
    obtain j where j: "j < 32" "LSB (m ! i) = int j" "bit (m ! i) j" "\<And>b. b < j \<Longrightarrow> \<not> bit (m ! i) b"
      by (rule LSB_lowest [OF False]) (rule that)
    have "32 * i + j \<in> avail m" using n [of "32 * i + j"] j by simp
    moreover have "a \<notin> avail m" if "a \<in> {32 * i..<32 * i + j}" for a using n [of a] j that by auto
    ultimately have "avail m \<inter> {32 * i..<32 * i + j} = {}" "32 * i + j \<in> avail m" by blast+
    then show ?thesis using j(1,2) by simp
  qed
qed

lemma alloc_tcb_loop_spec:
  assumes "length m = 8" and "i \<le> 8" and "avail m \<inter> {..<32 * i} = {}" and "l = -1"
  shows "if avail m = {} then fst (snd (alloc_tcb_loop m i l (32 * i))) = -1
         else let n = (LEAST n. n \<in> avail m) in alloc_tcb_loop m i l (32 * i) = (n div 32, int (n mod 32), n)"
  using assms
proof (induction "8 - i" arbitrary: i l)
  case 0
  then have "avail m = {}" by (auto simp: avail_def)
  with 0 show ?case by (simp add: alloc_tcb_loop.simps)
next
  case (Suc d)
  have i: "i < length m" using Suc.hyps(2) Suc.prems(1) by simp
  show ?case
  proof (cases "LSB (m ! i) = -1")
    case True
    then have "avail m \<inter> {..<32 * (i + 1)} = {}"
      using LSB_avail [OF i] Suc.prems(3) by (force simp: lessThan_def)
    moreover have "alloc_tcb_loop m i l (32 * i) = alloc_tcb_loop m (i + 1) (-1) (32 * (i + 1))"
      using True i Suc.prems(1) by (simp add: alloc_tcb_loop.simps [of m i] add.commute)
    moreover have "d = 8 - (i + 1)" "i + 1 \<le> 8" using Suc.hyps(2) by auto
    ultimately show ?thesis using Suc.hyps(1) [of "i + 1" "-1"] Suc.prems(1) by metis
  next
    case False
    define n where "n = 32 * i + nat (LSB (m ! i))"
    have n: "n \<in> avail m" "0 \<le> LSB (m ! i)" "LSB (m ! i) < 32" "avail m \<inter> {32 * i..<n} = {}"
      using LSB_avail [OF i] False by (auto simp: n_def)
    have "(LEAST n. n \<in> avail m) = n"
    proof (rule Least_equality)
      show "n \<in> avail m" by (rule n(1))
      fix y assume "y \<in> avail m"
      with n(4) Suc.prems(3) show "n \<le> y" by (meson atLeastLessThan_iff disjoint_iff lessThan_iff not_le)
    qed
    moreover have "n div 32 = i" "int (n mod 32) = LSB (m ! i)" using n(2,3) by (auto simp: n_def)
    ultimately show ?thesis using n(1) False i Suc.prems(1)
      by (auto simp: alloc_tcb_loop.simps [of m i] Let_def n_def)
  qed
qed

lemma alloc_tcb_ok:
  assumes "length (G_tcb_map k) = 8"
  shows "if avail (G_tcb_map k) = {} then alloc_tcb k = (None, k)
         else let n = (LEAST n. n \<in> avail (G_tcb_map k))
              in \<exists>m. alloc_tcb k = (Some (G_tcb k + 84 * n), k\<lparr>G_tcb_map := m\<rparr>) \<and>
                     length m = 8 \<and> avail m = avail (G_tcb_map k) - {n} \<and> n \<in> avail (G_tcb_map k)"
proof (cases "avail (G_tcb_map k) = {}")
  case True
  then show ?thesis using alloc_tcb_loop_spec [OF assms, of 0 "-1"]
    by (auto simp: alloc_tcb_def split: prod.split)
next
  case False
  define n where "n = (LEAST n. n \<in> avail (G_tcb_map k))"
  have n: "n \<in> avail (G_tcb_map k)" using False unfolding n_def by (auto intro: LeastI)
  then have "n < 32 * length (G_tcb_map k)" by (simp add: avail_def)
  from avail_BIT_CLEAR [OF this] n False show ?thesis
    using alloc_tcb_loop_spec [OF assms, of 0 "-1"] assms unfolding Let_def n_def [symmetric]
    by (intro if_not_P [THEN iffD2] exI [of _ "BIT_CLEAR (n div 32) (n mod 32) (G_tcb_map k)"]) (simp_all add: alloc_tcb_def)
qed

lemma release_tcb_ok:
  assumes "n < 32 * length (G_tcb_map k)"
  shows "\<exists>m. release_tcb (G_tcb k + 84 * n) k = k\<lparr>G_tcb_map := m\<rparr> \<and> length m = length (G_tcb_map k) \<and>
     avail m = insert n (avail (G_tcb_map k))"
  using avail_BIT_SET [OF assms]
  by (intro exI [of _ "BIT_SET (n div 32) (n mod 32) (G_tcb_map k)"]) (simp add: release_tcb_def Let_def)

section \<open>The stack pages\<close>

lemma match_pages_spec:
  assumes "match_pages m n c = (r, e)" and "c + n \<le> 32 * length m"
  shows "if r = 0 then e = c + n \<and> {c..<c + n} \<subseteq> avail m
         else \<exists>q. c \<le> q \<and> q < c + n \<and> q \<notin> avail m \<and> e = q + 1"
  using assms
proof (induction m n c rule: match_pages.induct)
  case (2 m left c)
  have c: "c < 32 * length m" using 2(3) by simp
  show ?case
  proof (cases "c \<in> avail m")
    case False
    then show ?thesis using 2(2) BIT_VALUE_avail [OF c] by (auto intro!: exI [of _ c])
  next
    case True
    then have v: "BIT_VALUE (c div 32) (c mod 32) m \<noteq> 0" using BIT_VALUE_avail [OF c] by simp
    then have "if r = 0 then e = c + 1 + left \<and> {c + 1..<c + 1 + left} \<subseteq> avail m
         else \<exists>q \<ge> c + 1. q < c + 1 + left \<and> q \<notin> avail m \<and> e = q + 1"
      using 2 by simp
    moreover have "{c..<c + Suc left} = insert c {c + 1..<c + 1 + left}" by auto
    ultimately show ?thesis using True by (auto split: if_splits dest: Suc_leD)
  qed
qed auto

text \<open>A run of \<open>n\<close> available pages that begins at \<open>s\<close>.\<close>

definition run_at :: "uint32 list \<Rightarrow> nat \<Rightarrow> nat \<Rightarrow> bool" where
  "run_at m n s \<longleftrightarrow> s + n \<le> CONFIG_MEM_STACK_PAGE_NUM \<and> {s..<s + n} \<subseteq> avail m"

lemma find_pages_spec:
  assumes "length m = 64"
  shows "case find_pages m n c of
       None \<Rightarrow> \<forall>s \<ge> c. \<not> run_at m n s
     | Some e \<Rightarrow> \<exists>s \<ge> c. e = s + n \<and> run_at m n s \<and> (\<forall>s' \<ge> c. s' < s \<longrightarrow> \<not> run_at m n s')"
  using assms
proof (induction m n c rule: find_pages.induct)
  case (1 m n c)
  show ?case
  proof (cases "c + n \<le> 2048")
    case False
    then have "find_pages m n c = None" by (simp add: find_pages.simps)
    with False show ?thesis by (auto simp: run_at_def)
  next
    case True
    obtain r e where re: "match_pages m n c = (r, e)" by fastforce
    note s = match_pages_spec [OF re]
    show ?thesis
    proof (cases r)
      case 0
      then have "find_pages m n c = Some (c + n)" using True re s 1(2) by (simp add: find_pages.simps)
      moreover have "run_at m n c" using s 0 True 1(2) by (simp add: run_at_def)
      ultimately show ?thesis by (auto intro!: exI [of _ c])
    next
      case (Suc r')
      then obtain q where q: "c \<le> q" "q < c + n" "q \<notin> avail m" "e = q + 1" using s True 1(2) by auto
      have skip: "\<not> run_at m n s" if "c \<le> s" "s \<le> q" for s
      using that q(1-3) by (meson atLeastLessThan_iff le_less_trans less_le_trans nat_add_left_cancel_le add_le_mono1 run_at_def subsetD)
      have eq: "find_pages m n c = find_pages m n e" using True re Suc by (simp add: find_pages.simps [of m n c])
      show ?thesis
      proof (cases "find_pages m n e")
        case None
        with 1(1) [OF True] re Suc 1(2) have "\<forall>s \<ge> e. \<not> run_at m n s" by simp
        then have "\<not> run_at m n s" if "s \<ge> c" for s using skip [OF that] q(4) by (cases "s \<le> q") auto
        with None eq show ?thesis by simp
      next
        case (Some f)
        with 1(1) [OF True] re Suc 1(2)
        obtain s where s: "s \<ge> e" "f = s + n" "run_at m n s" "\<forall>s' \<ge> e. s' < s \<longrightarrow> \<not> run_at m n s'" by auto
        have "\<not> run_at m n s'" if "c \<le> s'" "s' < s" for s'
          using skip s(4) that q(4) by (cases "s' \<le> q") auto
        then show ?thesis using s q eq Some by (auto intro!: exI [of _ s])
      qed
    qed
  qed
qed

lemma each_page_length [simp]:
  "length (each_page BIT_SET n page m) = length m" "length (each_page BIT_CLEAR n page m) = length m"
  by (induction n arbitrary: page m) simp_all

lemma each_page_CLEAR:
  "n \<le> page \<Longrightarrow> page \<le> 32 * length m \<Longrightarrow> avail (each_page BIT_CLEAR n page m) = avail m - {page - n..<page}"
proof (induction n arbitrary: page m)
  case (Suc n)
  then have "{page - Suc n..<page} = insert (page - 1) {page - 1 - n..<page - 1}" by auto
  with Suc show ?case by (simp add: avail_BIT_CLEAR) blast
qed simp

lemma each_page_SET:
  "n \<le> page \<Longrightarrow> page \<le> 32 * length m \<Longrightarrow> avail (each_page BIT_SET n page m) = avail m \<union> {page - n..<page}"
proof (induction n arbitrary: page m)
  case (Suc n)
  then have "{page - Suc n..<page} = insert (page - 1) {page - 1 - n..<page - 1}" by auto
  with Suc show ?case by (simp add: avail_BIT_SET)
qed simp

text \<open>Where a stack of \<open>sz\<close> bytes that ends at page \<open>e\<close> lies.\<close>

definition stack_top :: "nat \<Rightarrow> uint32" where
  "stack_top e = CONFIG_MEM_STACK_LOW + of_nat e * CONFIG_MEM_STACK_PAGE_SIZE"

lemma unat_word_eq: "w = of_nat n \<Longrightarrow> n < 4294967296 \<Longrightarrow> unat w = n" for w :: uint32
  by simp

lemma word_unat_eq: "of_nat (unat w) = (w :: uint32)"
  by simp

lemma unat_one_plus: "unat w < 4294967295 \<Longrightarrow> unat (1 + w) = 1 + unat w" for w :: uint32
  by (rule unat_word_eq) simp_all

lemma need_pages_eq: "unat sz \<le> 0x800000 \<Longrightarrow> need_pages sz = (unat sz + 4095) div 4096"
proof -
  assume "unat sz \<le> 0x800000"
  then have "unat (4095 + sz) = unat sz + 4095" by (intro unat_word_eq) simp_all
  then show ?thesis by (simp add: need_pages_def unat_div)
qed

lemma unat_stack_top: "e \<le> 2048 \<Longrightarrow> unat (stack_top e) = 0x50800000 + 4096 * e"
  by (rule unat_word_eq) (simp_all add: stack_top_def mult.commute)

lemma stack_top_page: "e \<le> 2048 \<Longrightarrow> unat ((stack_top e - CONFIG_MEM_STACK_LOW) div CONFIG_MEM_STACK_PAGE_SIZE) = e"
proof -
  assume "e \<le> 2048"
  then have "unat (stack_top e - 0x50800000) = 4096 * e"
    by (intro unat_word_eq) (simp_all add: stack_top_def mult.commute)
  then show ?thesis by (simp add: unat_div)
qed

lemma alloc_stack_ok:
  assumes m: "length (G_stack_map k) = 64" and sz: "unat sz \<le> 0x800000"
  shows "if \<exists>s. run_at (G_stack_map k) (need_pages sz) s
     then let s = (LEAST s. run_at (G_stack_map k) (need_pages sz) s); e = s + need_pages sz
          in run_at (G_stack_map k) (need_pages sz) s \<and>
             (\<exists>m. alloc_stack sz k = (stack_top e, upd_bytes (splat (unat (stack_top e) - unat sz) (unat sz) 0xcc) k\<lparr>G_stack_map := m\<rparr>) \<and>
                  length m = 64 \<and> avail m = avail (G_stack_map k) - {s..<e})
     else alloc_stack sz k = (0, k)"
proof (cases "\<exists>s. run_at (G_stack_map k) (need_pages sz) s")
  case False
  then have "find_pages (G_stack_map k) (need_pages sz) 0 = None"
    using find_pages_spec [OF m, where n = "need_pages sz" and c = 0] by (auto split: option.splits)
  with False show ?thesis by (simp add: alloc_stack_def)
next
  case True
  let ?n = "need_pages sz"
  obtain s where s: "find_pages (G_stack_map k) ?n 0 = Some (s + ?n)" "run_at (G_stack_map k) ?n s"
    "\<And>s'. s' < s \<Longrightarrow> \<not> run_at (G_stack_map k) ?n s'"
    using find_pages_spec [OF m, where n = ?n and c = 0] True by (auto split: option.splits)
  have L: "(LEAST s. run_at (G_stack_map k) ?n s) = s"
    using s(2,3) by (intro Least_equality) (auto simp: not_less [symmetric])
  have e: "s + ?n \<le> 2048" using s(2) by (simp add: run_at_def)
  have "unat sz \<le> 4096 * ?n" by (simp add: need_pages_eq [OF sz])
  then have le: "unat sz \<le> unat (stack_top (s + ?n))" using unat_stack_top [OF e] by simp
  then have sub: "unat (stack_top (s + ?n) - sz) = unat (stack_top (s + ?n)) - unat sz"
    by (simp add: unat_sub word_le_nat_alt)
  have "sint sz = int (unat sz)" using sz sint_of_nat32 [of "unat sz"] by simp
  then have set: "snd (memset a 0xcc sz b) = splat a (unat sz) 0xcc b" for a b
    by (simp add: memset_def bfill_splat)
  let ?m = "each_page BIT_CLEAR ?n (s + ?n) (G_stack_map k)"
  have "avail ?m = avail (G_stack_map k) - {s..<s + ?n}" using each_page_CLEAR [of ?n "s + ?n" "G_stack_map k"] e m by simp
  moreover have "alloc_stack sz k =
      (stack_top (s + ?n), upd_bytes (splat (unat (stack_top (s + ?n)) - unat sz) (unat sz) 0xcc) k\<lparr>G_stack_map := ?m\<rparr>)"
    unfolding alloc_stack_def s(1) option.case stack_top_def [symmetric] Let_def set sub upd_bytes_def by simp
  ultimately show ?thesis using True s(2) m unfolding L Let_def
    by (intro if_P [THEN iffD2] conjI exI [of _ ?m]) simp_all
qed

lemma release_stack_ok:
  assumes m: "length (G_stack_map k) = 64" and t: "stack_size (tcbs k t) = sz" "stack_start (tcbs k t) = stack_top e"
    and e: "need_pages sz \<le> e" "e \<le> 2048"
  shows "\<exists>m. release_stack t k = k\<lparr>G_stack_map := m\<rparr> \<and> length m = 64 \<and>
     avail m = avail (G_stack_map k) \<union> {e - need_pages sz..<e}"
  using each_page_SET [OF e(1), of "G_stack_map k"] e(2) m stack_top_page [OF e(2)]
  by (intro exI [of _ "each_page BIT_SET (need_pages sz) e (G_stack_map k)"]) (simp add: release_stack_def t)

section \<open>The stack meter\<close>

lemma mid_ptr_words: "i \<le> j \<Longrightarrow> mid_ptr (b + 4 * i) (b + 4 * j) = b + 4 * (i + (j - i) div 2)"
proof -
  assume "i \<le> j"
  then have "b + 4 * j - (b + 4 * i) = 4 * (j - i)" by simp
  then show ?thesis by (simp add: mid_ptr_def)
qed

lemma used_search_spec:
  assumes "i \<le> w" "w \<le> j" and "\<And>x. i \<le> x \<Longrightarrow> x < j \<Longrightarrow> load_long (b + 4 * x) m = 0xcccccccc \<longleftrightarrow> x < w"
  shows "used_search m (b + 4 * i) (b + 4 * j) = b + 4 * w"
  using assms
proof (induction "j - i" arbitrary: i j rule: less_induct)
  case less
  let ?c = "i + (j - i) div 2"
  have mid: "mid_ptr (b + 4 * i) (b + 4 * j) = b + 4 * ?c" using less.prems by (intro mid_ptr_words) simp
  show ?case
  proof (cases "i < j")
    case False
    with less.prems have "w = i" "j = i" by auto
    then show ?thesis by (simp add: used_search.simps mid_ptr_def)
  next
    case True
    then have c: "i \<le> ?c" "?c < j" by auto
    have d: "4 dvd (b + 4 * j - (b + 4 * i))" by (metis diff_mult_distrib2 dvd_triv_left add_diff_cancel_left)
    show ?thesis
    proof (cases "?c < w")
      case True
      have "b + 4 * ?c + 4 = b + 4 * (?c + 1)" by simp
      moreover have "used_search m (b + 4 * (?c + 1)) (b + 4 * j) = b + 4 * w"
        using less.hyps [of j "?c + 1"] less.prems True c by auto
      ultimately show ?thesis using less.prems(3) [OF c] True \<open>i < j\<close> d mid
        by (subst used_search.simps) (simp only: if_True add_less_cancel_left nat_mult_less_cancel1 zero_less_numeral simp_thms)
    next
      case False
      have "used_search m (b + 4 * i) (b + 4 * ?c) = b + 4 * w"
        using less.hyps [of ?c i] less.prems False c by auto
      then show ?thesis using less.prems(3) [OF c] False \<open>i < j\<close> d mid
        by (subst used_search.simps) (simp only: if_True if_False add_less_cancel_left nat_mult_less_cancel1 zero_less_numeral simp_thms)
    qed
  qed
qed

lemma digit_eq: "a < 256 \<Longrightarrow> a + 256 * x = 0xcc + 256 * y \<longleftrightarrow> a = 0xcc \<and> x = y" for a x y :: nat
proof -
  assume a: "a < 256"
  have "(a + 256 * x) mod 256 = a" "(a + 256 * x) div 256 = x" using a by simp_all
  moreover have "(0xcc + 256 * y) mod 256 = 0xcc" "(0xcc + 256 * y) div 256 = y" by simp_all
  ultimately show ?thesis by metis
qed

lemma load_long_cc:
  "load_long p m = 0xcccccccc \<longleftrightarrow> m p = 0xcc \<and> m (p + 1) = 0xcc \<and> m (p + 2) = 0xcc \<and> m (p + 3) = 0xcc"
proof -
  define b where "b i = unat (m (p + i))" for i
  have b: "b i < 256" for i using unsigned_less [where 'a = nat, of "m (p + i)"] by (simp add: b_def)
  have cc: "m (p + i) = 0xcc \<longleftrightarrow> b i = 0xcc" for i
  proof -
    have "b i = 0xcc \<longleftrightarrow> unat (m (p + i)) = unat (0xcc :: uint8)" by (simp add: b_def)
    then show ?thesis by (metis unsigned_word_eqI)
  qed
  let ?s = "b 0 + 2 ^ 8 * b 1 + 2 ^ 16 * b 2 + 2 ^ 24 * b 3"
  have "?s < 4294967296" using b [of 0] b [of 1] b [of 2] b [of 3] by simp
  then have u: "unat (load_long p m) = ?s" by (intro unat_word_eq) (simp_all add: load_long_def b_def)
  have "load_long p m = 0xcccccccc \<longleftrightarrow> unat (load_long p m) = unat (0xcccccccc :: uint32)"
    by (metis unsigned_word_eqI)
  also have "\<dots> \<longleftrightarrow> ?s = 0xcccccccc" by (simp add: u)
  also have "\<dots> \<longleftrightarrow> b 0 + 256 * (b 1 + 256 * (b 2 + 256 * b 3)) = 0xcc + 256 * (0xcc + 256 * (0xcc + 256 * 0xcc))"
    by (simp add: add.assoc)
  also have "\<dots> \<longleftrightarrow> b 0 = 0xcc \<and> b 1 = 0xcc \<and> b 2 = 0xcc \<and> b 3 = 0xcc"
    using b by (simp only: digit_eq)
  finally show ?thesis using cc [of 0] cc [of 1] cc [of 2] cc [of 3] by simp
qed

lemma stack_used_percent_ok:
  assumes t: "stack_start (tcbs k t) = stack_top e" "unat (stack_size (tcbs k t)) = 4 * n" "0 < n" "n \<le> 0x200000" "e \<le> 2048"
    and m: "\<And>x. x < n \<Longrightarrow> load_long (unat (stack_top e) - 4 * n + 4 * x) (bytes (kheap k)) = 0xcccccccc \<longleftrightarrow> x < w"
    and w: "w < n"
  shows "unat (stack_used_percent t k) = 1 + (4 * (n - w) * 100) div (4 * n)"
proof -
  let ?b = "unat (stack_top e) - 4 * n" and ?s = "stack_size (tcbs k t)"
  have top: "unat (stack_top e) = 0x50800000 + 4096 * e" using unat_stack_top t(5) .
  have le: "4 * n \<le> unat (stack_top e)" using t(4) top by simp
  have low: "unat (stack_top e - ?s) = ?b" using le t(2) by (simp add: unat_sub word_le_nat_alt)
  have high: "unat (stack_top e - 4) = ?b + 4 * (n - 1)" using top le t(3) by (simp add: unat_sub word_le_nat_alt)
  have search: "used_search (bytes (kheap k)) (?b + 4 * 0) (?b + 4 * (n - 1)) = ?b + 4 * w"
    by (rule used_search_spec) (use m w in auto)
  define mid :: uint32 where "mid = of_nat (?b + 4 * w)"
  have "?b + 4 * w < 4294967296" using top t(5) w le by linarith
  then have "unat mid = ?b + 4 * w" by (rule unat_word_eq [OF mid_def])
  then have d: "unat (stack_top e - mid) = 4 * (n - w)" using le w by (simp add: unat_sub word_le_nat_alt)
  have "4 * (n - w) * 100 < 4294967296" using t(4) by simp
  moreover have "(stack_top e - mid) * 100 = of_nat (4 * (n - w) * 100)"
    by (metis of_nat_mult of_nat_numeral word_unat_eq d)
  ultimately have "unat ((stack_top e - mid) * 100) = 4 * (n - w) * 100" by (rule unat_word_eq [rotated])
  then have q: "unat (((stack_top e - mid) * 100) div ?s) = 4 * (n - w) * 100 div (4 * n)"
    by (simp add: unat_div t(2))
  have "4 * (n - w) * 100 div (4 * n) \<le> 100" using t(3) by (simp add: div_le_dividend less_Suc_eq_le [symmetric] div_less_iff_less_mult)
  then have "unat (1 + ((stack_top e - mid) * 100) div ?s) = 1 + 4 * (n - w) * 100 div (4 * n)"
    using unat_one_plus [of "((stack_top e - mid) * 100) div ?s"] unfolding q by simp
  then show ?thesis using search unfolding stack_used_percent_def Let_def t(1) low high mid_def by simp
qed

section \<open>What the stores do\<close>

lemma avail_full: "avail (replicate n 0xffffffff) = {..<32 * n}"
proof -
  have "avail (replicate n (- 1)) = {..<32 * n}" by (auto simp: avail_def)
  moreover have "(0xffffffff :: uint32) = - 1" by simp
  ultimately show ?thesis by (simp only:)
qed

lemma task_init_avail:
  "avail (G_tcb_map (task_init k)) = {..<TASK_NUM_MAX}" "avail (G_stack_map (task_init k)) = {..<CONFIG_MEM_STACK_PAGE_NUM}"
  using avail_full [of 8] avail_full [of 64] by (simp_all add: task_init_def)

lemma no_less: "(\<forall>i < n. \<not> i < m) \<longleftrightarrow> n = 0 \<or> m = 0" for n m :: nat
  by (metis gr0I not_less0)

text \<open>\<^verbatim>\<open>_alloc_tcb\<close> returns the first available TCB of the array and marks it, and fails
  without a change exactly when none is left; \<^verbatim>\<open>_release_tcb\<close> undoes it.\<close>

theorem tcb_alloc_release:
  assumes "length (G_tcb_map k) = 8"
  shows "if avail (G_tcb_map k) = {} then alloc_tcb k = (None, k)
     else \<exists>n k'. n \<in> avail (G_tcb_map k) \<and> (\<forall>i < n. i \<notin> avail (G_tcb_map k)) \<and>
            alloc_tcb k = (Some (G_tcb k + sizeof_OS_TCB * n), k') \<and>
            avail (G_tcb_map k') = avail (G_tcb_map k) - {n} \<and>
            release_tcb (G_tcb k + sizeof_OS_TCB * n) k' = k"
proof (cases "avail (G_tcb_map k) = {}")
  case True
  then show ?thesis using alloc_tcb_ok [OF assms] by simp
next
  case False
  define n where "n = (LEAST n. n \<in> avail (G_tcb_map k))"
  obtain m where m: "alloc_tcb k = (Some (G_tcb k + 84 * n), k\<lparr>G_tcb_map := m\<rparr>)" "length m = 8"
    "avail m = avail (G_tcb_map k) - {n}" "n \<in> avail (G_tcb_map k)"
    using alloc_tcb_ok [OF assms] False by (auto simp: n_def Let_def)
  have "n < 256" using m(4) assms by (simp add: avail_def)
  then obtain m' where m': "release_tcb (G_tcb k + 84 * n) (k\<lparr>G_tcb_map := m\<rparr>) = k\<lparr>G_tcb_map := m'\<rparr>"
    "length m' = 8" "avail m' = insert n (avail m)"
    using release_tcb_ok [of n "k\<lparr>G_tcb_map := m\<rparr>"] m(2) by auto
  have "m' = G_tcb_map k" using m'(2,3) m(3,4) assms by (intro avail_eqI) auto
  moreover have "\<forall>i < n. i \<notin> avail (G_tcb_map k)" using not_less_Least n_def by blast
  ultimately show ?thesis using False m m'(1) by auto
qed

theorem tcb_alloc_release_witness:
  "\<exists>k'. alloc_tcb (task_init empty_kernel) = (Some 0, k') \<and> release_tcb 0 k' = task_init empty_kernel"
proof -
  have l: "length (G_tcb_map (task_init empty_kernel)) = 8" by (simp add: task_init_def)
  have "G_tcb (task_init empty_kernel) = 0" by (simp add: task_init_def empty_kernel_def)
  with tcb_alloc_release [OF l] show ?thesis unfolding task_init_avail by (auto simp: lessThan_empty_iff no_less)
qed

text \<open>\<^verbatim>\<open>_alloc_stack\<close> finds the first run of free pages that is long enough, marks exactly
  these pages, fills the stack with \<^verbatim>\<open>0xcc\<close> and nothing else, and returns its top; the
  stack lies inside its pages. It answers 0 and changes nothing exactly when there is no
  such run. \<^verbatim>\<open>_release_stack\<close> of a task with this stack gives the pages back.\<close>

theorem stack_first_fit:
  assumes "length (G_stack_map k) = 64" and "unat sz \<le> 0x800000"
  defines "n \<equiv> (unat sz + 4095) div 4096"
  shows "if \<exists>s. run_at (G_stack_map k) n s
     then \<exists>s k'. run_at (G_stack_map k) n s \<and> (\<forall>r < s. \<not> run_at (G_stack_map k) n r) \<and>
            alloc_stack sz k = (stack_top (s + n), k') \<and>
            avail (G_stack_map k') = avail (G_stack_map k) - {s..<s + n} \<and>
            (\<forall>a. bytes (kheap k') a = (if unat (stack_top (s + n)) - unat sz \<le> a \<and> a < unat (stack_top (s + n))
                                     then 0xcc else bytes (kheap k) a)) \<and>
            (\<forall>t. stack_size (tcbs k' t) = sz \<longrightarrow> stack_start (tcbs k' t) = stack_top (s + n) \<longrightarrow>
               G_stack_map (release_stack t k') = G_stack_map k)
     else alloc_stack sz k = (0, k)"
proof -
  have n: "need_pages sz = n" unfolding n_def by (rule need_pages_eq [OF assms(2)])
  note a = alloc_stack_ok [OF assms(1,2), unfolded n]
  show ?thesis
  proof (cases "\<exists>s. run_at (G_stack_map k) n s")
    case False
    with a show ?thesis by simp
  next
    case True
    define s where "s = (LEAST s. run_at (G_stack_map k) n s)"
    have s: "run_at (G_stack_map k) n s" "\<forall>r < s. \<not> run_at (G_stack_map k) n r"
      using True not_less_Least unfolding s_def by (auto intro: LeastI_ex)
    then have e: "s + n \<le> 2048" by (simp add: run_at_def)
    let ?top = "stack_top (s + n)"
    obtain m where m: "alloc_stack sz k = (?top, upd_bytes (splat (unat ?top - unat sz) (unat sz) 0xcc) k\<lparr>G_stack_map := m\<rparr>)"
      "length m = 64" "avail m = avail (G_stack_map k) - {s..<s + n}"
      using a True unfolding Let_def s_def [symmetric] by auto
    let ?k = "upd_bytes (splat (unat ?top - unat sz) (unat sz) 0xcc) k\<lparr>G_stack_map := m\<rparr>"
    have "unat sz \<le> unat ?top" using assms(2) unat_stack_top [OF e] by simp
    then have b: "\<forall>a. bytes (kheap ?k) a = (if unat ?top - unat sz \<le> a \<and> a < unat ?top then 0xcc else bytes (kheap k) a)"
      by (simp add: upd_bytes_def splat_def)
    have "G_stack_map (release_stack t ?k) = G_stack_map k"
      if tsz: "stack_size (tcbs ?k t) = sz" "stack_start (tcbs ?k t) = ?top" for t
    proof -
      obtain m' where "release_stack t ?k = ?k\<lparr>G_stack_map := m'\<rparr>" "length m' = 64" "avail m' = avail m \<union> {s..<s + n}"
        using release_stack_ok [OF _ tsz] m(2) e unfolding n by auto
      moreover have "{s..<s + n} \<subseteq> avail (G_stack_map k)" using s(1) by (simp add: run_at_def)
      ultimately show ?thesis using m(3) assms(1) by (auto intro!: avail_eqI)
    qed
    with s m b True show ?thesis by (auto intro!: exI [of _ s] exI [of _ ?k])
  qed
qed

theorem stack_first_fit_witness:
  "fst (alloc_stack 5000 (task_init empty_kernel)) = stack_top 2"
proof -
  let ?k = "task_init empty_kernel"
  have l: "length (G_stack_map ?k) = 64" by (simp add: task_init_def)
  have r: "run_at (G_stack_map ?k) 2 s \<longleftrightarrow> s \<le> 2046" for s
    unfolding run_at_def task_init_avail by auto
  have n: "(unat (5000 :: uint32) + 4095) div 4096 = 2" "unat (5000 :: uint32) \<le> 0x800000" by simp_all
  have ex: "\<exists>s :: nat. s \<le> 2046" by auto
  obtain s k' where s: "\<forall>q < s. \<not> q \<le> (2046 :: nat)" "alloc_stack 5000 ?k = (stack_top (s + 2), k')"
    using stack_first_fit [OF l n(2)] unfolding n r if_P [OF ex] by blast
  have "s = 0" using s(1) by (metis le0 gr0I)
  with s(2) show ?thesis by (simp add: numeral_2_eq_2)
qed

text \<open>when the words of a stack of \<open>n\<close> words are \<^verbatim>\<open>0xcccccccc\<close> below word \<open>w\<close> and not from
  there on, the binary search of \<^verbatim>\<open>_stack_used_percent\<close> ends, finds \<open>w\<close>, and the answer is one
  more than the used part in percent, between 1 and 101.\<close>

theorem stack_used_percent_exact:
  assumes "stack_start (tcbs k t) = stack_top e" and "e \<le> CONFIG_MEM_STACK_PAGE_NUM"
    and "unat (stack_size (tcbs k t)) = 4 * n" and "n \<le> 0x200000" and "w < n"
    and "\<forall>x < n. load_long (unat (stack_top e) - 4 * n + 4 * x) (bytes (kheap k)) = 0xcccccccc \<longleftrightarrow> x < w"
  shows "unat (stack_used_percent t k) = 1 + 100 * (n - w) div n \<and> unat (stack_used_percent t k) \<le> 101"
proof -
  have n: "0 < n" using assms(5) by simp
  have "unat (stack_used_percent t k) = 1 + (4 * (n - w) * 100) div (4 * n)"
    using stack_used_percent_ok [OF assms(1,3) n assms(4,2) _ assms(5)] assms(6) by blast
  moreover have "(4 * (n - w) * 100) div (4 * n) = 100 * (n - w) div n" by (simp add: mult.commute mult.left_commute)
  moreover have "100 * (n - w) div n \<le> 100 * n div n" by (intro div_le_mono) simp
  ultimately show ?thesis using n by simp
qed

text \<open>A task with a stack of four words, of which the topmost was used.\<close>

definition meter_demo :: kernel where
  "meter_demo = upd_bytes (\<lambda>_ a. if a < unat (stack_top 1) - 4 then 0xcc else 0)
     (upd_tcb 100 (\<lambda>t. t\<lparr>stack_start := stack_top 1, stack_size := 16\<rparr>) empty_kernel)"

theorem stack_used_percent_exact_witness: "unat (stack_used_percent 100 meter_demo) = 26"
proof -
  have top: "unat (stack_top 1) = 0x50801000" by (simp add: unat_stack_top)
  have "\<forall>x < 4. load_long (unat (stack_top 1) - 4 * 4 + 4 * x) (bytes (kheap meter_demo)) = 0xcccccccc \<longleftrightarrow> x < 3"
    by (auto simp: load_long_cc meter_demo_def upd_bytes_def top simp del: One_nat_def)
  from stack_used_percent_exact [of meter_demo 100 1 4 3, OF _ _ _ _ _ this] show ?thesis
    by (simp add: meter_demo_def upd_bytes_def del: One_nat_def)
qed

end
