(* ===== verification/CString.thy ===== *)
theory CString
  imports CMemory "HOL-Library.Sublist"
begin

text \<open>
  The string routines of \<^verbatim>\<open>src/string.c\<close> over the byte memory of \<open>CMemory\<close>. A C string is the
  bytes up to the first NUL (\<open>cstr\<close>). Loops that run to a NUL are partial: over a memory
  without one they do not return, which is \<open>None\<close>; the lemmas show that on strings they do
  return. \<^verbatim>\<open>char\<close> is unsigned, as the ARM compilers have it.
\<close>

section \<open>Copying and length\<close>

partial_function (option) strcpy_loop :: "addr \<Rightarrow> addr \<Rightarrow> cmem \<Rightarrow> cmem option" where
  "strcpy_loop d s2 m = (let m' = m(d := m s2) in if m s2 \<noteq> 0 then strcpy_loop (d + 1) (s2 + 1) m' else Some m')"

definition strcpy :: "addr \<Rightarrow> addr \<Rightarrow> cmem \<Rightarrow> (addr \<times> cmem) option" where
  "strcpy s1 s2 m = map_option (\<lambda>m'. (s1, m')) (strcpy_loop s1 s2 m)"

text \<open>The two loops of \<^verbatim>\<open>strncpy\<close>, by the number of characters left.\<close>

fun strncpy_pad :: "nat \<Rightarrow> addr \<Rightarrow> cmem \<Rightarrow> cmem" where
  "strncpy_pad 0 d m = m"
| "strncpy_pad (Suc n) d m = strncpy_pad n (d + 1) (m(d := 0))"

fun strncpy_loop :: "nat \<Rightarrow> addr \<Rightarrow> addr \<Rightarrow> cmem \<Rightarrow> cmem" where
  "strncpy_loop 0 d s2 m = m"
| "strncpy_loop (Suc n) d s2 m =
     (let m' = m(d := m s2)
      in if m s2 \<noteq> 0 then strncpy_loop n (d + 1) (s2 + 1) m' else strncpy_pad n (d + 1) m')"

definition strncpy :: "addr \<Rightarrow> addr \<Rightarrow> uint32 \<Rightarrow> cmem \<Rightarrow> addr \<times> cmem" where
  "strncpy s1 s2 n m = (s1, if n \<noteq> 0 then strncpy_loop (unat n) s1 s2 m else m)"

partial_function (option) strlen_loop :: "addr \<Rightarrow> cmem \<Rightarrow> addr option" where
  "strlen_loop sc m = (if m sc \<noteq> 0 then strlen_loop (sc + 1) m else Some sc)"

definition strlen :: "addr \<Rightarrow> cmem \<Rightarrow> nat option" where
  "strlen s m = map_option (\<lambda>sc. sc - s) (strlen_loop s m)"

text \<open>\<^verbatim>\<open>while (*p != 0 && siz > 1)\<close>, by \<^verbatim>\<open>siz - 1\<close>: the final pointers and the memory.\<close>

fun strlcpy_loop :: "nat \<Rightarrow> addr \<Rightarrow> addr \<Rightarrow> cmem \<Rightarrow> addr \<times> addr \<times> cmem" where
  "strlcpy_loop 0 dst p m = (dst, p, m)"
| "strlcpy_loop (Suc n) dst p m =
     (if m p \<noteq> 0 then strlcpy_loop n (dst + 1) (p + 1) (m(dst := m p)) else (dst, p, m))"

definition strlcpy :: "addr \<Rightarrow> addr \<Rightarrow> uint32 \<Rightarrow> cmem \<Rightarrow> (nat \<times> cmem) option" where
  "strlcpy dst src siz m =
     (let (p, m1) = (if siz > 0
                     then case strlcpy_loop (unat siz - 1) dst src m of (d, p, m') \<Rightarrow> (p, m'(d := 0))
                     else (src, m))
      in map_option (\<lambda>p'. (p' - src, m1)) (strlen_loop p m1))"

definition strcat :: "addr \<Rightarrow> addr \<Rightarrow> cmem \<Rightarrow> (addr \<times> cmem) option" where
  "strcat dest app m =
     Option.bind (strlen_loop dest m) (\<lambda>s. map_option (\<lambda>m'. (dest, m')) (strcpy_loop s app m))"

text \<open>The copy loop of \<^verbatim>\<open>strncat\<close>; \<^verbatim>\<open>n\<close> is unsigned and 0 wraps.\<close>

partial_function (option) strncat_loop :: "uint32 \<Rightarrow> addr \<Rightarrow> addr \<Rightarrow> cmem \<Rightarrow> cmem option" where
  "strncat_loop n s app m =
     (let m' = m(s := m app)
      in if m app \<noteq> 0
         then if n - 1 = 0 then Some (m'(s + 1 := 0)) else strncat_loop (n - 1) (s + 1) (app + 1) m'
         else Some m')"

definition strncat :: "addr \<Rightarrow> addr \<Rightarrow> uint32 \<Rightarrow> cmem \<Rightarrow> (addr \<times> cmem) option" where
  "strncat dest app n m =
     Option.bind (strlen_loop dest m) (\<lambda>s. map_option (\<lambda>m'. (dest, m')) (strncat_loop n s app m))"

section \<open>Comparing\<close>

partial_function (option) strcmp :: "addr \<Rightarrow> addr \<Rightarrow> cmem \<Rightarrow> int option" where
  "strcmp s1 s2 m =
     (if m s1 \<noteq> 0 \<and> m s2 \<noteq> 0 \<and> m s1 = m s2 then strcmp (s1 + 1) (s2 + 1) m
      else Some (uint (m s1) - uint (m s2)))"

fun strncmp_loop :: "nat \<Rightarrow> addr \<Rightarrow> addr \<Rightarrow> cmem \<Rightarrow> int" where
  "strncmp_loop 0 s1 s2 m = 0"
| "strncmp_loop (Suc n) s1 s2 m =
     (if m s1 = m s2
      then if m s1 = 0 then 0 else strncmp_loop n (s1 + 1) (s2 + 1) m
      else uint (m s1) - uint (m s2))"

definition strncmp :: "addr \<Rightarrow> addr \<Rightarrow> nat \<Rightarrow> cmem \<Rightarrow> int" where
  "strncmp s1 s2 n m = (if n = 0 then 0 else strncmp_loop n s1 s2 m)"

definition tolower :: "int \<Rightarrow> int" where
  "tolower c = (if c \<ge> 0x41 \<and> c \<le> 0x5a then c OR 0x20 else c)"

definition toupper :: "int \<Rightarrow> int" where
  "toupper c = (if c \<ge> 0x61 \<and> c \<le> 0x7a then c - 0x20 else c)"

fun strncasecmp_loop :: "nat \<Rightarrow> addr \<Rightarrow> addr \<Rightarrow> int \<Rightarrow> cmem \<Rightarrow> int" where
  "strncasecmp_loop 0 s1 s2 c m = c"
| "strncasecmp_loop (Suc n) s1 s2 c m =
     (let c' = tolower (uint (m s1)) - tolower (uint (m s2))
      in if c' = 0 \<and> m s1 \<noteq> 0 then strncasecmp_loop n (s1 + 1) (s2 + 1) c' m else c')"

definition strncasecmp :: "addr \<Rightarrow> addr \<Rightarrow> uint32 \<Rightarrow> cmem \<Rightarrow> int" where
  "strncasecmp s1 s2 n m = strncasecmp_loop (unat n) s1 s2 0 m"

section \<open>Searching\<close>

partial_function (option) strchr :: "addr \<Rightarrow> uint8 \<Rightarrow> cmem \<Rightarrow> ptr option" where
  "strchr s c m = (if m s \<noteq> c then if m s = 0 then Some None else strchr (s + 1) c m else Some (Some s))"

partial_function (option) strrchr_loop :: "addr \<Rightarrow> uint8 \<Rightarrow> ptr \<Rightarrow> cmem \<Rightarrow> ptr option" where
  "strrchr_loop s c save m =
     (let save' = (if m s = c then Some s else save)
      in if m s \<noteq> 0 then strrchr_loop (s + 1) c save' m else Some save')"

definition strrchr :: "addr \<Rightarrow> uint8 \<Rightarrow> cmem \<Rightarrow> ptr option" where
  "strrchr s c m = strrchr_loop s c None m"

partial_function (option) strstr_loop :: "addr \<Rightarrow> addr \<Rightarrow> nat \<Rightarrow> cmem \<Rightarrow> ptr option" where
  "strstr_loop s1 s2 len2 m =
     (if m s1 \<noteq> 0
      then if m s1 = m s2 \<and> strncmp s1 s2 len2 m = 0 then Some (Some s1) else strstr_loop (s1 + 1) s2 len2 m
      else Some None)"

definition strstr :: "ptr \<Rightarrow> ptr \<Rightarrow> cmem \<Rightarrow> ptr option" where
  "strstr s1 s2 m =
     (case (s1, s2) of
        (Some a, Some b) \<Rightarrow>
          Option.bind (strlen b m) (\<lambda>len2. if len2 = 0 then Some (Some a) else strstr_loop a b len2 m)
      | _ \<Rightarrow> Some None)"

text \<open>The inner loop of \<^verbatim>\<open>strspn\<close>: whether \<open>c1\<close> occurs in \<open>sep\<close> before its end. The inner loops
  of \<^verbatim>\<open>strcspn\<close> and \<^verbatim>\<open>strpbrk\<close> test for the end first.\<close>

partial_function (option) in_sep :: "addr \<Rightarrow> uint8 \<Rightarrow> cmem \<Rightarrow> bool option" where
  "in_sep p c1 m = (if m p \<noteq> c1 then if m p = 0 then Some False else in_sep (p + 1) c1 m else Some True)"

partial_function (option) in_set :: "addr \<Rightarrow> uint8 \<Rightarrow> cmem \<Rightarrow> bool option" where
  "in_set p c1 m = (if m p \<noteq> 0 then if c1 = m p then Some True else in_set (p + 1) c1 m else Some False)"

partial_function (option) strspn_loop :: "addr \<Rightarrow> addr \<Rightarrow> cmem \<Rightarrow> addr option" where
  "strspn_loop s sep m =
     (if m s \<noteq> 0 then Option.bind (in_sep sep (m s) m) (\<lambda>b. if b then strspn_loop (s + 1) sep m else Some (s + 1))
      else Some (s + 1))"

definition strspn :: "addr \<Rightarrow> addr \<Rightarrow> cmem \<Rightarrow> nat option" where
  "strspn s sep m = map_option (\<lambda>s'. s' - (s + 1)) (strspn_loop s sep m)"

partial_function (option) strcspn_loop :: "addr \<Rightarrow> addr \<Rightarrow> cmem \<Rightarrow> addr option" where
  "strcspn_loop s1 s2 m =
     (if m s1 \<noteq> 0 then Option.bind (in_set s2 (m s1) m) (\<lambda>b. if b then Some (s1 + 1) else strcspn_loop (s1 + 1) s2 m)
      else Some (s1 + 1))"

definition strcspn :: "addr \<Rightarrow> addr \<Rightarrow> cmem \<Rightarrow> nat option" where
  "strcspn s1 s2 m = map_option (\<lambda>s'. s' - (s1 + 1)) (strcspn_loop s1 s2 m)"

partial_function (option) strpbrk :: "addr \<Rightarrow> addr \<Rightarrow> cmem \<Rightarrow> ptr option" where
  "strpbrk s1 s2 m =
     (if m s1 \<noteq> 0 then Option.bind (in_set s2 (m s1) m) (\<lambda>b. if b then Some (Some s1) else strpbrk (s1 + 1) s2 m)
      else Some None)"

text \<open>The pair is the result and the new \<^verbatim>\<open>*ppLast\<close>.\<close>

definition strtok_r :: "ptr \<Rightarrow> addr \<Rightarrow> ptr \<Rightarrow> cmem \<Rightarrow> (ptr \<times> ptr \<times> cmem) option" where
  "strtok_r string separators pLast m =
     (case (case string of None \<Rightarrow> pLast | Some a \<Rightarrow> Some a) of
        None \<Rightarrow> Some (None, pLast, m)
      | Some a \<Rightarrow>
          Option.bind (strspn a separators m) (\<lambda>n.
            let s = a + n
            in if m s = 0 then Some (None, None, m)
               else Option.bind (strpbrk s separators m) (\<lambda>p.
                 Some (case p of None \<Rightarrow> (Some s, None, m) | Some b \<Rightarrow> (Some s, Some (b + 1), m(b := 0))))))"

text \<open>\<^verbatim>\<open>strtok\<close> keeps \<^verbatim>\<open>pLast\<close> in a static variable.\<close>

definition strtok :: "ptr \<Rightarrow> addr \<Rightarrow> ptr \<times> cmem \<Rightarrow> (ptr \<times> ptr \<times> cmem) option" where
  "strtok string separator = (\<lambda>(pLast, m). strtok_r string separator pLast m)"

declare strcpy_loop.simps [code] strlen_loop.simps [code] strncat_loop.simps [code] strcmp.simps [code] strchr.simps [code]
  strrchr_loop.simps [code] strstr_loop.simps [code] in_sep.simps [code] in_set.simps [code] strspn_loop.simps [code]
  strcspn_loop.simps [code] strpbrk.simps [code]

section \<open>Strings in memory\<close>

fun cstr :: "cmem \<Rightarrow> addr \<Rightarrow> uint8 list \<Rightarrow> bool" where
  "cstr m a [] \<longleftrightarrow> m a = 0"
| "cstr m a (x # xs) \<longleftrightarrow> x \<noteq> 0 \<and> m a = x \<and> cstr m (a + 1) xs"

lemma cstr_append: "cstr m a (xs @ ys) \<longleftrightarrow> 0 \<notin> set xs \<and> (\<forall>i < length xs. m (a + i) = xs ! i) \<and> cstr m (a + length xs) ys"
  by (induction xs arbitrary: a) (auto simp: All_less_Suc2)

lemma cstr_iff: "cstr m a xs \<longleftrightarrow> 0 \<notin> set xs \<and> (\<forall>i < length xs. m (a + i) = xs ! i) \<and> m (a + length xs) = 0"
  using cstr_append [of m a xs "[]"] by simp

lemma cstr_unique: "cstr m a xs \<Longrightarrow> cstr m a ys \<Longrightarrow> xs = ys"
  by (induction xs arbitrary: a ys) (case_tac ys; auto)+

lemma cstr_frame: "(\<And>i. i \<le> length xs \<Longrightarrow> m' (a + i) = m (a + i)) \<Longrightarrow> cstr m' a xs = cstr m a xs"
  by (simp add: cstr_iff)

section \<open>The loops on strings\<close>

lemma strlen_loop_cstr: "cstr m a xs \<Longrightarrow> strlen_loop a m = Some (a + length xs)"
  by (induction xs arbitrary: a) (simp_all add: strlen_loop.simps)

text \<open>Writing a byte list to memory.\<close>

definition put_bytes :: "addr \<Rightarrow> uint8 list \<Rightarrow> cmem \<Rightarrow> cmem" where
  "put_bytes d xs m = (\<lambda>a. if d \<le> a \<and> a < d + length xs then xs ! (a - d) else m a)"

lemma put_bytes_Nil [simp]: "put_bytes d [] m = m"
  by (auto simp: put_bytes_def fun_eq_iff)

lemma put_bytes_Cons: "put_bytes d (x # xs) m = put_bytes (d + 1) xs (m(d := x))"
proof
  fix a
  have "(x # xs) ! (a - d) = xs ! (a - Suc d)" if "d < a"
    using that nth_Cons_Suc [of x xs "a - Suc d"] by (simp add: Suc_diff_Suc)
  then show "put_bytes d (x # xs) m a = put_bytes (d + 1) xs (m(d := x)) a"
    by (cases "d < a") (auto simp: put_bytes_def)
qed

lemma put_bytes_at [simp]: "i < length xs \<Longrightarrow> put_bytes d xs m (d + i) = xs ! i"
  by (simp add: put_bytes_def)

lemma put_bytes_other: "a < d \<or> d + length xs \<le> a \<Longrightarrow> put_bytes d xs m a = m a"
  by (auto simp: put_bytes_def)

lemma cstr_put: "0 \<notin> set xs \<Longrightarrow> cstr (put_bytes d (xs @ [0]) m) d xs"
  by (auto simp: cstr_iff put_bytes_def nth_append)

text \<open>A forward copy is right when the destination is not inside the source behind its start.\<close>

lemma strcpy_loop_cstr:
  "cstr m s xs \<Longrightarrow> d + length xs < s \<or> s + length xs < d \<or> d \<le> s \<Longrightarrow> strcpy_loop d s m = Some (put_bytes d (xs @ [0]) m)"
proof (induction xs arbitrary: d s m)
  case Nil
  then show ?case by (auto simp: strcpy_loop.simps put_bytes_Cons fun_eq_iff)
next
  case (Cons x xs)
  define m' where "m' = m(d := x)"
  have "cstr m' (s + 1) xs"
    unfolding m'_def using Cons.prems by (subst cstr_frame [of _ _ _ m]) auto
  then have "strcpy_loop (d + 1) (s + 1) m' = Some (put_bytes (d + 1) (xs @ [0]) m')"
    using Cons.prems by (intro Cons.IH) auto
  then show ?case using Cons.prems(1) by (simp add: strcpy_loop.simps [of d s] put_bytes_Cons Let_def m'_def)
qed

lemma strncpy_pad_bytes: "strncpy_pad n d m = put_bytes d (replicate n 0) m"
  by (induction n arbitrary: d m) (simp_all add: put_bytes_Cons)

lemma strncpy_loop_cstr:
  "cstr m s xs \<Longrightarrow> d + n \<le> s \<or> s + length xs < d \<or> d \<le> s \<Longrightarrow>
     strncpy_loop n d s m = put_bytes d (take n (xs @ replicate n 0)) m"
proof (induction xs arbitrary: n d s m)
  case Nil
  then show ?case by (cases n) (auto simp: strncpy_pad_bytes put_bytes_Cons)
next
  case (Cons x xs)
  show ?case
  proof (cases n)
    case (Suc n')
    define m' where "m' = m(d := x)"
    have "cstr m' (s + 1) xs"
      unfolding m'_def using Cons.prems by (subst cstr_frame [of _ _ _ m]) auto
    then have "strncpy_loop n' (d + 1) (s + 1) m' = put_bytes (d + 1) (take n' (xs @ replicate n' 0)) m'"
      using Cons.prems Suc by (intro Cons.IH) auto
    moreover have "take n' (xs @ replicate (Suc n') 0) = take n' (xs @ replicate n' (0 :: uint8))"
      by (simp add: min_def del: replicate_Suc)
    ultimately show ?thesis using Cons.prems(1) Suc by (simp add: put_bytes_Cons Let_def m'_def del: replicate_Suc)
  qed simp
qed

lemma strlcpy_loop_cstr:
  "cstr m s xs \<Longrightarrow> d + n < s \<or> s + length xs < d \<Longrightarrow>
     strlcpy_loop n d s m = (d + min n (length xs), s + min n (length xs), put_bytes d (take n xs) m)"
proof (induction xs arbitrary: n d s m)
  case Nil
  then show ?case by (cases n) auto
next
  case (Cons x xs)
  show ?case
  proof (cases n)
    case (Suc n')
    define m' where "m' = m(d := x)"
    have "cstr m' (s + 1) xs"
      unfolding m'_def using Cons.prems Suc by (subst cstr_frame [of _ _ _ m]) auto
    then have "strlcpy_loop n' (d + 1) (s + 1) m' =
        (d + 1 + min n' (length xs), s + 1 + min n' (length xs), put_bytes (d + 1) (take n' xs) m')"
      using Cons.prems Suc by (intro Cons.IH) auto
    then show ?thesis using Cons.prems(1) Suc by (simp add: put_bytes_Cons m'_def)
  qed simp
qed

lemma strncat_loop_cstr:
  "cstr m s xs \<Longrightarrow> s + length xs < d \<or> d + unat n < s \<Longrightarrow> n \<noteq> 0 \<Longrightarrow>
     strncat_loop n d s m = Some (put_bytes d (take (unat n) xs @ [0]) m)"
proof (induction xs arbitrary: n d s m)
  case Nil
  then show ?case by (auto simp: strncat_loop.simps put_bytes_Cons fun_eq_iff)
next
  case (Cons x xs)
  have n: "unat n = Suc (unat (n - 1))" using Cons.prems(3) unat_minus_one_pos [of n] by (simp add: unat_gt_0 Suc_pred)
  define m' where "m' = m(d := x)"
  have c: "cstr m' (s + 1) xs"
    unfolding m'_def using Cons.prems n by (subst cstr_frame [of _ _ _ m]) auto
  show ?case
  proof (cases "n - 1 = 0")
    case True
    then have "take (unat n) (x # xs) = [x]" using n by simp
    moreover have "strncat_loop n d s m = Some ((m(d := x))(d + 1 := 0))"
      using True Cons.prems(1) by (subst strncat_loop.simps) (simp add: Let_def)
    ultimately show ?thesis by (simp add: put_bytes_Cons fun_eq_iff)
  next
    case False
    then have "strncat_loop (n - 1) (d + 1) (s + 1) m' = Some (put_bytes (d + 1) (take (unat (n - 1)) xs @ [0]) m')"
      using Cons.prems n c by (intro Cons.IH) auto
    moreover have "strncat_loop n d s m = strncat_loop (n - 1) (d + 1) (s + 1) m'"
      using False Cons.prems(1) by (subst strncat_loop.simps) (simp add: Let_def m'_def)
    ultimately show ?thesis unfolding n by (simp add: put_bytes_Cons m'_def)
  qed
qed

section \<open>Comparing and searching strings\<close>

text \<open>Two byte strings compared as the C functions do.\<close>

fun cmp_bytes :: "uint8 list \<Rightarrow> uint8 list \<Rightarrow> int" where
  "cmp_bytes [] [] = 0"
| "cmp_bytes [] (y # ys) = - uint y"
| "cmp_bytes (x # xs) [] = uint x"
| "cmp_bytes (x # xs) (y # ys) = (if x = y then cmp_bytes xs ys else uint x - uint y)"

lemma strcmp_cstr: "cstr m a xs \<Longrightarrow> cstr m b ys \<Longrightarrow> strcmp a b m = Some (cmp_bytes xs ys)"
  by (induction xs ys arbitrary: a b rule: cmp_bytes.induct) (auto simp: strcmp.simps)

lemma strncmp_loop_cstr: "cstr m a xs \<Longrightarrow> cstr m b ys \<Longrightarrow> strncmp_loop n a b m = cmp_bytes (take n xs) (take n ys)"
proof (induction n arbitrary: a b xs ys)
  case (Suc n)
  then show ?case by (cases xs; cases ys) auto
qed simp

lemma cmp_bytes_0: "0 \<notin> set xs \<Longrightarrow> 0 \<notin> set ys \<Longrightarrow> cmp_bytes xs ys = 0 \<longleftrightarrow> xs = ys"
  by (induction xs ys rule: cmp_bytes.induct) (auto simp: word_uint_eq_iff)

lemma cmp_bytes_neg: "0 \<notin> set xs \<Longrightarrow> 0 \<notin> set ys \<Longrightarrow> cmp_bytes xs ys < 0 \<longleftrightarrow> ord_class.lexordp xs ys"
  by (induction xs ys rule: cmp_bytes.induct)
    (auto simp: word_less_def word_uint_eq_iff less_le not_le uint_ge_0)

lemma cstr_no0: "cstr m a xs \<Longrightarrow> 0 \<notin> set xs"
  by (simp add: cstr_iff)

lemma in_sep_cstr: "cstr m p ss \<Longrightarrow> c \<noteq> 0 \<Longrightarrow> in_sep p c m = Some (c \<in> set ss)"
  by (induction ss arbitrary: p) (auto simp: in_sep.simps)

lemma in_set_cstr: "cstr m p ss \<Longrightarrow> in_set p c m = Some (c \<in> set ss)"
  by (induction ss arbitrary: p) (auto simp: in_set.simps)

lemma strspn_cstr:
  assumes "cstr m p ss"
  shows "cstr m a xs \<Longrightarrow> strspn_loop a p m = Some (a + 1 + length (takeWhile (\<lambda>c. c \<in> set ss) xs))"
  by (induction xs arbitrary: a) (auto simp: strspn_loop.simps in_sep_cstr [OF assms])

lemma strcspn_cstr:
  assumes "cstr m p ss"
  shows "cstr m a xs \<Longrightarrow> strcspn_loop a p m = Some (a + 1 + length (takeWhile (\<lambda>c. c \<notin> set ss) xs))"
  by (induction xs arbitrary: a) (auto simp: strcspn_loop.simps in_set_cstr [OF assms])

lemma strpbrk_cstr:
  assumes "cstr m p ss"
  shows "cstr m a xs \<Longrightarrow> strpbrk a p m =
     Some (if set xs \<inter> set ss = {} then None else Some (a + length (takeWhile (\<lambda>c. c \<notin> set ss) xs)))"
  by (induction xs arbitrary: a) (auto simp: strpbrk.simps in_set_cstr [OF assms])

lemma strchr_cstr:
  "cstr m a xs \<Longrightarrow> strchr a c m =
     Some (if c = 0 \<or> c \<in> set xs then Some (a + length (takeWhile (\<lambda>x. x \<noteq> c) xs)) else None)"
  by (induction xs arbitrary: a) (auto simp: strchr.simps)

lemma strrchr_loop_cstr:
  "cstr m a xs \<Longrightarrow> strrchr_loop a c save m =
     Some (if c = 0 then Some (a + length xs)
           else if c \<in> set xs then Some (a + length xs - 1 - length (takeWhile (\<lambda>x. x \<noteq> c) (rev xs))) else save)"
proof (induction xs arbitrary: a save)
  case (Cons x xs)
  let ?P = "\<lambda>x. x \<noteq> c"
  have x: "x \<noteq> 0" "m a = x" "cstr m (a + 1) xs" using Cons.prems by auto
  have step: "strrchr_loop a c save m = strrchr_loop (a + 1) c (if x = c then Some a else save) m"
    using x by (subst strrchr_loop.simps) (simp add: Let_def)
  consider "c = 0" | "c \<in> set xs" "c \<noteq> 0" | "c \<notin> set xs" "c \<noteq> 0" by blast
  then show ?case
  proof cases
    case 2
    then have "takeWhile ?P (rev (x # xs)) = takeWhile ?P (rev xs)" by (simp add: takeWhile_append1)
    moreover have "length (takeWhile ?P (rev xs)) < length xs"
    proof -
      have "0 < length (dropWhile ?P (rev xs))" using 2 by auto
      then show ?thesis
        using arg_cong [OF takeWhile_dropWhile_id [of ?P "rev xs"], of length] unfolding length_append length_rev by linarith
    qed
    ultimately show ?thesis using 2 Cons.IH [OF x(3)] by (simp add: step)
  next
    case 3
    then have "takeWhile ?P (rev (x # xs)) = (if x = c then rev xs else rev xs @ [x])" by (auto simp: takeWhile_append)
    then show ?thesis using 3 Cons.IH [OF x(3)] by (auto simp: step)
  next
    case 1
    then show ?thesis using step Cons.IH [OF x(3)] by simp
  qed
qed (simp add: strrchr_loop.simps)

text \<open>The position of the first occurrence of \<open>ys\<close> in \<open>xs\<close>.\<close>

fun occurrence :: "uint8 list \<Rightarrow> uint8 list \<Rightarrow> nat option" where
  "occurrence ys [] = (if ys = [] then Some 0 else None)"
| "occurrence ys (x # xs) = (if prefix ys (x # xs) then Some 0 else map_option Suc (occurrence ys xs))"

lemma occurrence_first:
  "case occurrence ys xs of
     None \<Rightarrow> \<forall>i \<le> length xs. \<not> prefix ys (drop i xs)
   | Some i \<Rightarrow> i \<le> length xs \<and> prefix ys (drop i xs) \<and> (\<forall>j < i. \<not> prefix ys (drop j xs))"
proof (induction xs)
  case (Cons x xs)
  then show ?case
    by (cases "occurrence ys xs") (auto simp: less_Suc_eq_0_disj le_Suc_eq split: if_splits, (metis drop_Cons' gr0_implies_Suc less_Suc_eq_le not_less_eq drop_Suc_Cons drop0 not0_implies_Suc le_SucI Suc_le_mono)+)
qed auto

lemma strstr_loop_cstr:
  assumes "cstr m b ys" and "ys \<noteq> []"
  shows "cstr m a xs \<Longrightarrow> strstr_loop a b (length ys) m = Some (map_option (\<lambda>i. a + i) (occurrence ys xs))"
proof (induction xs arbitrary: a)
  case Nil
  then show ?case using assms(2) by (simp add: strstr_loop.simps)
next
  case (Cons x xs)
  obtain y ys' where ys: "ys = y # ys'" using assms(2) by (cases ys) auto
  have n0: "0 \<notin> set ys" "0 \<notin> set (take (length ys) (x # xs))"
    using cstr_no0 [OF assms(1)] cstr_no0 [OF Cons.prems] by (auto dest: in_set_takeD)
  have "strncmp a b (length ys) m = 0 \<longleftrightarrow> take (length ys) (x # xs) = ys"
    using strncmp_loop_cstr [OF Cons.prems assms(1), of "length ys"] cmp_bytes_0 [OF n0(2,1)] assms(2)
    by (simp add: strncmp_def)
  also have "\<dots> \<longleftrightarrow> prefix ys (x # xs)"
    by (metis prefix_def append_eq_conv_conj append_take_drop_id)
  finally have p: "m a = m b \<and> strncmp a b (length ys) m = 0 \<longleftrightarrow> prefix ys (x # xs)"
    using assms(1) Cons.prems by (auto simp: ys)
  have "m a \<noteq> 0" using Cons.prems by simp
  then have "strstr_loop a b (length ys) m =
      (if prefix ys (x # xs) then Some (Some a) else strstr_loop (a + 1) b (length ys) m)"
    by (subst strstr_loop.simps) (simp only: p if_True simp_thms)
  with Cons show ?case by (auto simp: option.map_comp comp_def)
qed

section \<open>What the string routines do\<close>

text \<open>on strings that do not overlap, \<^verbatim>\<open>strcat\<close> appends the whole second string and
  \<^verbatim>\<open>strncat\<close> with \<open>n \<noteq> 0\<close> at most its first \<open>n\<close> characters, both with a terminating NUL and no
  other change. The comment of \<^verbatim>\<open>strncat\<close> speaks of at most \<open>n - 1\<close> characters.\<close>

theorem strcat_appends:
  assumes "cstr m d xs" and "cstr m s ys" and "n \<noteq> 0"
    and "s + length ys < d \<or> d + length xs + max (length ys) (unat n) < s"
  shows "(\<exists>m'. strcat d s m = Some (d, m') \<and> cstr m' d (xs @ ys) \<and>
            (\<forall>a. a < d + length xs \<or> d + length xs + length ys < a \<longrightarrow> m' a = m a)) \<and>
         (\<exists>m'. strncat d s n m = Some (d, m') \<and> cstr m' d (xs @ take (unat n) ys) \<and>
            (\<forall>a. a < d + length xs \<or> d + length xs + min (unat n) (length ys) < a \<longrightarrow> m' a = m a))"
proof -
  let ?e = "d + length xs"
  have put: "cstr (put_bytes ?e (zs @ [0]) m) d (xs @ zs)" if "0 \<notin> set zs" for zs
    using assms(1) [unfolded cstr_iff] cstr_put [OF that, of ?e m] by (simp add: cstr_append put_bytes_other)
  have "strcat d s m = Some (d, put_bytes ?e (ys @ [0]) m)"
    using strcpy_loop_cstr [OF assms(2), of ?e] assms(4) strlen_loop_cstr [OF assms(1)] by (auto simp: strcat_def)
  moreover have "strncat d s n m = Some (d, put_bytes ?e (take (unat n) ys @ [0]) m)"
    using strncat_loop_cstr [OF assms(2) _ assms(3), of ?e] assms(4) strlen_loop_cstr [OF assms(1)] by (auto simp: strncat_def)
  moreover have "0 \<notin> set ys" "0 \<notin> set (take (unat n) ys)" using cstr_no0 [OF assms(2)] by (auto dest: in_set_takeD)
  ultimately show ?thesis using put by (auto simp: put_bytes_other)
qed

theorem strcat_appends_witness:
  "\<exists>m'. strncat 0 10 1 (put_bytes 10 [66, 67, 0] (put_bytes 0 [65, 0] (\<lambda>_. 1))) = Some (0, m') \<and> cstr m' 0 [65, 66]"
proof -
  let ?m = "put_bytes 10 [66, 67, 0] (put_bytes 0 [65, 0] (\<lambda>_. 1))"
  have "cstr ?m 0 [65]" "cstr ?m 10 [66, 67]" by (simp_all add: put_bytes_def)
  from strcat_appends [OF this, of 1] show ?thesis by auto
qed

text \<open>\<^verbatim>\<open>strcmp\<close> returns on strings; its result is 0 exactly for equal strings and negative
  exactly when the first is lexicographically smaller; \<^verbatim>\<open>strncmp\<close> is the same on the
  first \<open>n\<close> characters.\<close>

theorem strcmp_orders:
  assumes "cstr m a xs" and "cstr m b ys"
  shows "(\<exists>r. strcmp a b m = Some r \<and> (r = 0 \<longleftrightarrow> xs = ys) \<and> (r < 0 \<longleftrightarrow> ord_class.lexordp xs ys)) \<and>
         (strncmp a b n m = 0 \<longleftrightarrow> take n xs = take n ys) \<and>
         (strncmp a b n m < 0 \<longleftrightarrow> ord_class.lexordp (take n xs) (take n ys))"
proof -
  have z: "0 \<notin> set xs" "0 \<notin> set ys" "0 \<notin> set (take n xs)" "0 \<notin> set (take n ys)"
    using assms cstr_no0 by (auto dest: in_set_takeD)
  show ?thesis
    using strcmp_cstr [OF assms] cmp_bytes_0 [OF z(1,2)] cmp_bytes_neg [OF z(1,2)] strncmp_loop_cstr [OF assms, of n] cmp_bytes_0 [OF z(3,4)] cmp_bytes_neg [OF z(3,4)]
    by (simp add: strncmp_def)
qed

theorem strcmp_orders_witness:
  "\<exists>r. strcmp 0 10 (put_bytes 10 [66, 67, 0] (put_bytes 0 [65, 0] (\<lambda>_. 1))) = Some r \<and> r < 0"
proof -
  let ?m = "put_bytes 10 [66, 67, 0] (put_bytes 0 [65, 0] (\<lambda>_. 1))"
  have "cstr ?m 0 [65]" "cstr ?m 10 [66, 67]" by (simp_all add: put_bytes_def)
  from strcmp_orders [OF this, of 1] show ?thesis by auto
qed

text \<open>\<^verbatim>\<open>strstr\<close> returns on strings and finds the first place where the second string
  occurs, \<^verbatim>\<open>NULL\<close> when it occurs nowhere.\<close>

theorem strstr_finds_first:
  assumes "cstr m a xs" and "cstr m b ys"
  shows "\<exists>r. strstr (Some a) (Some b) m = Some r \<and>
     (case r of None \<Rightarrow> \<forall>i \<le> length xs. \<not> prefix ys (drop i xs)
      | Some p \<Rightarrow> \<exists>i \<le> length xs. p = a + i \<and> prefix ys (drop i xs) \<and> (\<forall>j < i. \<not> prefix ys (drop j xs)))"
proof -
  have l: "strlen b m = Some (length ys)" using strlen_loop_cstr [OF assms(2)] by (simp add: strlen_def)
  show ?thesis
  proof (cases "ys = []")
    case True
    then show ?thesis using l by (auto simp: strstr_def)
  next
    case False
    then have "strstr (Some a) (Some b) m = Some (map_option (\<lambda>i. a + i) (occurrence ys xs))"
      using strstr_loop_cstr [OF assms(2) False assms(1)] l by (simp add: strstr_def)
    then show ?thesis using occurrence_first [where ys = ys and xs = xs] by (auto split: option.splits)
  qed
qed

theorem strstr_finds_first_witness:
  "\<exists>r. strstr (Some 0) (Some 10) (put_bytes 10 [66, 67, 0] (put_bytes 0 [65, 66, 67, 0] (\<lambda>_. 1))) = Some r \<and> r \<noteq> None"
proof -
  let ?m = "put_bytes 10 [66, 67, 0] (put_bytes 0 [65, 66, 67, 0] (\<lambda>_. 1))"
  have "cstr ?m 0 [65, 66, 67]" "cstr ?m 10 [66, 67]" by (simp_all add: put_bytes_def)
  from strstr_finds_first [OF this] show ?thesis
    by (auto split: option.splits dest: spec [of _ 1])
qed

text \<open>C18: one call of \<^verbatim>\<open>strtok_r\<close> skips the separators in front, returns the next token as a
  string of its own, and leaves in \<^verbatim>\<open>*ppLast\<close> the rest behind the separator; it answers
  \<^verbatim>\<open>NULL\<close> exactly when only separators are left.\<close>

theorem strtok_r_next_token:
  assumes "cstr m a xs" and "cstr m p seps"
    and "p + length seps < a \<or> a + length xs < p"
  defines "ys \<equiv> dropWhile (\<lambda>c. c \<in> set seps) xs"
  defines "t \<equiv> takeWhile (\<lambda>c. c \<notin> set seps) ys"
  defines "s \<equiv> a + (length xs - length ys)"
  shows "if ys = [] then strtok_r (Some a) p l m = Some (None, None, m)
     else \<exists>m' l'. strtok_r (Some a) p l m = Some (Some s, l', m') \<and> t \<noteq> [] \<and> cstr m' s t \<and> cstr m' p seps \<and>
            (case l' of None \<Rightarrow> ys = t | Some b \<Rightarrow> \<exists>c zs. ys = t @ c # zs \<and> c \<in> set seps \<and> cstr m' b zs)"
proof -
  let ?k = "length (takeWhile (\<lambda>c. c \<in> set seps) xs)"
  have xs: "xs = takeWhile (\<lambda>c. c \<in> set seps) xs @ ys" by (simp add: ys_def)
  then have k: "s = a + ?k" by (metis add_diff_cancel_right' length_append s_def)
  have span: "strspn a p m = Some ?k" using strspn_cstr [OF assms(2,1)] by (simp add: strspn_def)
  have cy: "cstr m s ys" using assms(1) xs k cstr_append by metis
  show ?thesis
  proof (cases "ys = []")
    case True
    then show ?thesis using span cy by (simp add: strtok_r_def k)
  next
    case False
    have "hd ys \<notin> set seps" using hd_dropWhile False ys_def by blast
    then have t: "t \<noteq> []" using False by (cases ys) (auto simp: t_def)
    have s0: "m s \<noteq> 0" using cy False by (cases ys) auto
    have brk: "strpbrk s p m = Some (if set ys \<inter> set seps = {} then None else Some (s + length t))"
      using strpbrk_cstr [OF assms(2) cy] by (simp add: t_def)
    show ?thesis
    proof (cases "set ys \<inter> set seps = {}")
      case True
      then have "t = ys" unfolding t_def by (auto simp: takeWhile_eq_all_conv)
      then show ?thesis using False t span s0 brk True cy assms(2) by (simp add: strtok_r_def k)
    next
      case b: False
      define zs where "zs = dropWhile (\<lambda>c. c \<notin> set seps) ys"
      have z: "ys = t @ zs" by (simp add: t_def zs_def)
      have "zs \<noteq> []" using b by (auto simp: zs_def dropWhile_eq_Nil_conv)
      then obtain c rest where c: "zs = c # rest" "c \<in> set seps"
        using hd_dropWhile [of "\<lambda>c. c \<notin> set seps" ys] by (cases zs) (auto simp: zs_def)
      let ?m = "m(s + length t := 0)"
      have ct: "cstr m s (t @ c # rest)" using cy z c by simp
      then have "cstr ?m s t" unfolding cstr_append by (simp add: cstr_iff [of ?m s t])
      moreover have "cstr ?m (s + length t + 1) rest"
        using ct by (subst cstr_frame [of _ _ _ m]) (auto simp: cstr_append)
      moreover have "cstr ?m p seps"
      proof -
        have "length xs = ?k + length t + Suc (length rest)" using arg_cong [OF xs, of length] z c(1) by simp
        then show ?thesis using assms(2,3) k by (subst cstr_frame [of _ _ _ m]) auto
      qed
      ultimately show ?thesis using False t span s0 brk b z c
        by (auto simp: strtok_r_def k Let_def)
    qed
  qed
qed

theorem strtok_r_next_token_witness:
  "\<exists>m' l'. strtok_r (Some 0) 10 None (put_bytes 10 [32, 0] (put_bytes 0 [32, 65, 32, 66, 0] (\<lambda>_. 1))) = Some (Some 1, l', m') \<and>
     cstr m' 1 [65]"
proof -
  let ?m = "put_bytes 10 [32, 0] (put_bytes 0 [32, 65, 32, 66, 0] (\<lambda>_. 1))"
  have "cstr ?m 0 [32, 65, 32, 66]" "cstr ?m 10 [32]" by (simp_all add: put_bytes_def)
  from strtok_r_next_token [OF this, of None] show ?thesis by auto
qed

end
