(* ===== verification/SemB.thy ===== *)
theory SemB
  imports Waiting
begin

text \<open>
  Binary semaphores (\<^verbatim>\<open>src/semB.c\<close>). \<^verbatim>\<open>semB_take\<close> is split where it blocks:
  \<open>semB_take\<close> runs up to the return or the switch, \<open>semB_take_resume\<close> is what follows
  when the task runs again (the \<^verbatim>\<open>goto again\<close> with the rest of the timeout).
\<close>

section \<open>Operations\<close>

abbreviation (input) sizeof_SEM_BIN :: uint32 where "sizeof_SEM_BIN \<equiv> 20"

definition upd_semB :: "addr \<Rightarrow> (SEM_BIN \<Rightarrow> SEM_BIN) \<Rightarrow> kernel \<Rightarrow> kernel" where
  "upd_semB s f k = k\<lparr>semBs := (semBs k)(s := f (semBs k s))\<rparr>"

definition semB_init :: "ptr \<Rightarrow> kernel \<Rightarrow> (addr \<times> kernel) option" where
  "semB_init pNewSemB k =
     (case object_or_malloc pNewSemB sizeof_SEM_BIN k of
        None \<Rightarrow> None
      | Some (p, k1) \<Rightarrow>
          (let k2 = upd_semB p (\<lambda>s. s\<lparr>semB_owner := None\<rparr>) k1;
               k3 = upd_lists (\<lambda>m. snd (dlist_init (SemB_wait p) m)) k2
           in Some (p, upd_lists (dlist_add SemB_list p) k3)))"

definition semB_take :: "addr \<Rightarrow> uint32 \<Rightarrow> kernel \<Rightarrow> outcome \<times> kernel" where
  "semB_take pSemB timeout k =
     (if semB_owner (semBs k pSemB) = None
      then (Return OS_STATUS_OK,
            upd_tcb (cur k) (\<lambda>t. t\<lparr>delay_ticks := 0\<rparr>) (upd_semB pSemB (\<lambda>s. s\<lparr>semB_owner := G_p_current_tcb k\<rparr>) k))
      else if timeout \<noteq> 0
      then (Switch, pend_current (SemB_wait pSemB) TASK_STATUS_PEND_SEM_B pSemB timeout k)
      else (Return OS_STATUS_ERROR, k))"

definition semB_take_resume :: "addr \<Rightarrow> kernel \<Rightarrow> outcome \<times> kernel" where
  "semB_take_resume pSemB k =
     (if delay_ticks (tcbs k (cur k)) \<noteq> 0 then semB_take pSemB (delay_ticks (tcbs k (cur k))) k
      else (Return OS_STATUS_ERROR, k))"

definition semB_give :: "addr \<Rightarrow> kernel \<Rightarrow> OS_STATUS \<times> kernel" where
  "semB_give pSemB k = (OS_STATUS_OK, wake_first (SemB_wait pSemB) (upd_semB pSemB (\<lambda>s. s\<lparr>semB_owner := None\<rparr>) k))"

text \<open>\<^verbatim>\<open>pSemB->owner_tcb = dlist_get (&pSemB->wait_list)\<close>, the step of the flush loop.\<close>

definition semB_next_owner :: "addr \<Rightarrow> kernel \<Rightarrow> kernel" where
  "semB_next_owner pSemB k =
     (case list_get (SemB_wait pSemB) k of (p, k1) \<Rightarrow> upd_semB pSemB (\<lambda>s. s\<lparr>semB_owner := p\<rparr>) k1)"

partial_function (option) semB_flush_loop :: "addr \<Rightarrow> kernel \<Rightarrow> kernel option" where
  "semB_flush_loop pSemB k =
     (case semB_owner (semBs k pSemB) of
        None \<Rightarrow> Some k
      | Some a \<Rightarrow>
          semB_flush_loop pSemB
            (semB_next_owner pSemB (readyQ_put a (upd_tcb a (\<lambda>t. t\<lparr>delay_ticks := 0\<rparr>) k))))"

definition semB_flush :: "addr \<Rightarrow> kernel \<Rightarrow> (OS_STATUS \<times> kernel) option" where
  "semB_flush pSemB k = map_option (Pair OS_STATUS_OK) (semB_flush_loop pSemB (semB_next_owner pSemB k))"

definition semB_delete :: "addr \<Rightarrow> kernel \<Rightarrow> (OS_STATUS \<times> kernel) option" where
  "semB_delete pSemB k =
     (case semB_flush pSemB k of
        None \<Rightarrow> None
      | Some (_, k1) \<Rightarrow>
          (let k2 = upd_lists (dlist_remove SemB_list pSemB) k1
           in if CONFIG_MEM_HEAP_LOW \<le> pSemB \<and> pSemB \<le> CONFIG_MEM_HEAP_HIGH
              then map_option (Pair OS_STATUS_OK) (kfree pSemB k2)
              else Some (OS_STATUS_OK, k2)))"

definition semB_remove :: "addr \<Rightarrow> addr \<Rightarrow> kernel \<Rightarrow> OS_STATUS \<times> kernel" where
  "semB_remove pSemB pTcb k = (OS_STATUS_OK, upd_lists (dlist_remove (SemB_wait pSemB) pTcb) k)"

definition semB_update_wait_list :: "addr \<Rightarrow> kernel \<Rightarrow> (OS_STATUS \<times> kernel) option" where
  "semB_update_wait_list pSemB k =
     map_option (\<lambda>r. (OS_STATUS_OK, snd r)) (dlist_each lmem (SemB_wait pSemB) (wait_to_ready (SemB_wait pSemB)) k)"

definition semB_decrease :: "kernel \<Rightarrow> kernel option" where
  "semB_decrease k = map_option snd (dlist_each lmem SemB_list semB_update_wait_list k)"

section \<open>Lemmas\<close>

interpretation kB: object_kind SemB_list "\<lambda>s. [SemB_wait s]" semB_update_wait_list
  by unfold_locales
    (auto simp: semB_update_wait_list_def map_option_case split: option.split)

lemma upd_semB_queues [simp]: "same_queues k (upd_semB s f k)"
  by (simp add: upd_semB_def)

lemma upd_semB_sel [simp, state_simps]:
  "semBs (upd_semB s f k) = (semBs k)(s := f (semBs k s))" "G_p_current_tcb (upd_semB s f k) = G_p_current_tcb k"
  "tcbs (upd_semB s f k) = tcbs k" "lmem (upd_semB s f k) = lmem k" "kheap (upd_semB s f k) = kheap k"
  "cur (upd_semB s f k) = cur k"
  by (simp_all add: upd_semB_def cur_def)

lemma upd_semB_commute:
  "upd_lists g (upd_semB s f k) = upd_semB s f (upd_lists g k)"
  "upd_tcb a h (upd_semB s f k) = upd_semB s f (upd_tcb a h k)"
  "readyQ_put a (upd_semB s f k) = upd_semB s f (readyQ_put a k)"
  by (simp_all add: upd_semB_def upd_lists_def upd_tcb_def readyQ_put_def upd_ready_def Let_def)

lemma wake_failed_semB: "wake_failed l a (upd_semB s f k) = upd_semB s f (wake_failed l a k)"
  by (simp add: wake_failed_def upd_semB_commute)

lemma semB_flush_drains:
  assumes "queue_ok k A" and "A (SemB_wait s) = xs"
  shows "semB_flush_loop s (semB_next_owner s k) =
     Some (upd_semB s (\<lambda>b. b\<lparr>semB_owner := None\<rparr>) (fold (wake_failed (SemB_wait s)) xs k))"
  using assms
proof (induction xs arbitrary: k A)
  case Nil
  then have "semB_next_owner s k = upd_semB s (\<lambda>b. b\<lparr>semB_owner := None\<rparr>) k"
    using list_get_ok [OF Nil.prems(1), of "SemB_wait s"] by (simp add: semB_next_owner_def)
  then show ?case by (simp add: semB_flush_loop.simps)
next
  case (Cons a xs)
  let ?k = "wake_failed (SemB_wait s) a k"
  have n: "semB_next_owner s k = upd_semB s (\<lambda>b. b\<lparr>semB_owner := Some a\<rparr>) (upd_lists (dlist_remove (SemB_wait s) a) k)"
    using list_get_ok [OF Cons.prems(1), of "SemB_wait s"] Cons.prems(2) by (simp add: semB_next_owner_def)
  have "queue_ok ?k (A(SemB_wait s := xs, Ready_list (prio a k) := A (Ready_list (prio a k)) @ [a]))"
    by (rule wake_failed_ok [OF Cons.prems]) simp_all
  then have ok: "queue_ok (upd_semB s (\<lambda>b. b\<lparr>semB_owner := Some a\<rparr>) ?k)
      (A(SemB_wait s := xs, Ready_list (prio a k) := A (Ready_list (prio a k)) @ [a]))"
    using queue_ok_same [OF upd_semB_queues] by blast
  have "semB_flush_loop s (semB_next_owner s k) =
      semB_flush_loop s (semB_next_owner s (upd_semB s (\<lambda>b. b\<lparr>semB_owner := Some a\<rparr>) ?k))"
    unfolding n by (subst semB_flush_loop.simps) (simp add: upd_semB_commute wake_failed_def)
  also have "\<dots> = Some (upd_semB s (\<lambda>b. b\<lparr>semB_owner := None\<rparr>)
      (fold (wake_failed (SemB_wait s)) xs (upd_semB s (\<lambda>b. b\<lparr>semB_owner := Some a\<rparr>) ?k)))"
    by (rule Cons.IH [OF ok]) simp
  also have "fold (wake_failed (SemB_wait s)) xs (upd_semB s (\<lambda>b. b\<lparr>semB_owner := Some a\<rparr>) ?k) =
      upd_semB s (\<lambda>b. b\<lparr>semB_owner := Some a\<rparr>) (fold (wake_failed (SemB_wait s)) xs ?k)"
    by (induction xs arbitrary: k rule: rev_induct) (simp_all add: wake_failed_semB)
  finally show ?case by (simp add: upd_semB_def)
qed

lemma semB_flush_ok:
  assumes "queue_ok k A"
  shows "\<exists>k'. semB_flush s k = Some (OS_STATUS_OK, k') \<and> queue_ok k' (drained (SemB_wait s) k A) \<and>
     semB_owner (semBs k' s) = None \<and> G_p_current_tcb k' = G_p_current_tcb k \<and> kheap k' = kheap k \<and>
     (\<forall>a \<in> set (A (SemB_wait s)). delay_ticks (tcbs k' a) = 0) \<and>
     (\<forall>a. a \<notin> set (A (SemB_wait s)) \<longrightarrow> tcbs k' a = tcbs k a)"
proof -
  let ?k = "fold (wake_failed (SemB_wait s)) (A (SemB_wait s)) k"
  have d: "queue_ok ?k (drained (SemB_wait s) k A)" "same_objects k ?k"
    "tcbs ?k = (\<lambda>a. if a \<in> set (A (SemB_wait s))
       then (tcbs k a)\<lparr>delay_ticks := 0, status := TASK_STATUS_READY, pend_obj := None\<rparr> else tcbs k a)"
    using drain_ok [OF assms refl, of "SemB_wait s"] by auto
  show ?thesis
    using semB_flush_drains [OF assms refl, of s] d queue_ok_same [OF upd_semB_queues, of s _ ?k]
    by (simp add: semB_flush_def same_objects_def)
qed


lemma semB_take_ok:
  assumes "kernel_ok k A" and "G_p_current_tcb k = Some c"
  shows "case semB_take s timeout k of (r, k') \<Rightarrow>
     if semB_owner (semBs k s) = None
     then r = Return OS_STATUS_OK \<and> semB_owner (semBs k' s) = Some c \<and> kernel_ok k' A \<and> G_p_current_tcb k' = Some c
     else if timeout = NO_WAIT then r = Return OS_STATUS_ERROR \<and> k' = k
     else r = Switch \<and> semBs k' = semBs k \<and>
          kernel_ok k' (A(Ready_list (prio c k) := remove1 c (A (Ready_list (prio c k))),
                          SemB_wait s := A (SemB_wait s) @ [c])) \<and>
          tcbs k' c = (tcbs k c)\<lparr>delay_ticks := timeout, status := TASK_STATUS_PEND_SEM_B, pend_obj := Some s\<rparr> \<and>
          G_p_current_tcb k' = highest_tcb (G_readyQ k')"
proof -
  have "kernel_ok (upd_tcb c (\<lambda>t. t\<lparr>delay_ticks := 0\<rparr>) (upd_semB s f k)) A" for f
    using clear_delay_ok [of "upd_semB s f k" A c 0] assms kernel_ok_same [OF upd_semB_queues] by simp
  moreover have "timeout \<noteq> 0 \<Longrightarrow> kernel_ok (pend_current (SemB_wait s) TASK_STATUS_PEND_SEM_B s timeout k)
     (A(Ready_list (prio c k) := remove1 c (A (Ready_list (prio c k))), SemB_wait s := A (SemB_wait s) @ [c]))"
    by (rule pend_current_ok [OF assms]) (auto simp: home_def)
  ultimately show ?thesis using assms(2)
    by (auto simp: semB_take_def cur_def)
qed

text \<open>Task 100 owns semaphore 1000 and blocks in a second take of it; task 200 runs.\<close>

definition semB_blocked :: kernel where
  "semB_blocked = snd (semB_take 1000 5 (snd (semB_take 1000 0 demo)))"

lemma semB_blocked_ok:
  "kernel_ok semB_blocked ((\<lambda>_. [])(Ready_list 5 := [200], SemB_wait 1000 := [100]))"
proof -
  let ?k = "snd (semB_take 1000 0 demo)"
  have k: "?k = upd_tcb 100 (\<lambda>t. t\<lparr>delay_ticks := 0\<rparr>) (upd_semB 1000 (\<lambda>s. s\<lparr>semB_owner := Some 100\<rparr>) demo)"
    by (simp add: semB_take_def empty_kernel_def)
  have 1: "kernel_ok ?k demo_queues"
    using semB_take_ok [OF demo_ok, of 100 1000 0] by (simp add: split_def empty_kernel_def)
  have 2: "semB_owner (semBs ?k 1000) = Some 100" "G_p_current_tcb ?k = Some 100" "prio 100 ?k = 3"
    by (simp_all add: k demo_tcb_def)
  have eq: "demo_queues(Ready_list 3 := remove1 100 (demo_queues (Ready_list 3)), SemB_wait 1000 := demo_queues (SemB_wait 1000) @ [100]) =
      (\<lambda>_. [])(Ready_list 5 := [200], SemB_wait 1000 := [100])"
    by (auto simp: demo_queues_def fun_eq_iff)
  show ?thesis
    using semB_take_ok [OF 1 2(2), of 1000 5] 2(1) eq unfolding semB_blocked_def 2(3) by (simp add: split_def)
qed

section \<open>Properties\<close>

text \<open>\<^verbatim>\<open>semB_take\<close> on every branch. A free semaphore is owned by the caller afterwards
  and the call succeeds; with \<^verbatim>\<open>NO_WAIT\<close> a taken one is refused and nothing changes;
  otherwise the caller leaves its ready list, is last in the waiting list of the
  semaphore with its status, object and timeout noted, and the highest ready task runs.\<close>

theorem semB_take_branches:
  assumes "kernel_ok k A" and "G_p_current_tcb k = Some c"
  shows "case semB_take s timeout k of (r, k') \<Rightarrow>
     if semB_owner (semBs k s) = None
     then r = Return OS_STATUS_OK \<and> semB_owner (semBs k' s) = Some c \<and> kernel_ok k' A \<and> G_p_current_tcb k' = Some c
     else if timeout = NO_WAIT then r = Return OS_STATUS_ERROR \<and> k' = k
     else r = Switch \<and> semBs k' = semBs k \<and>
          kernel_ok k' (A(Ready_list (prio c k) := remove1 c (A (Ready_list (prio c k))),
                          SemB_wait s := A (SemB_wait s) @ [c])) \<and>
          tcbs k' c = (tcbs k c)\<lparr>delay_ticks := timeout, status := TASK_STATUS_PEND_SEM_B, pend_obj := Some s\<rparr> \<and>
          G_p_current_tcb k' = highest_tcb (G_readyQ k')"
  using semB_take_ok [OF assms] .

theorem semB_take_branches_witness:
  "kernel_ok (snd (semB_take 1000 0 demo)) demo_queues \<and> semB_owner (semBs (snd (semB_take 1000 0 demo)) 1000) = Some 100"
  using semB_take_branches [OF demo_ok, of 100 1000 0]
  by (simp add: split_def empty_kernel_def)

text \<open>a give leaves the semaphore free and makes the longest waiting task ready. That
  task, when it runs and nobody has taken the semaphore in between, goes through the
  retry with success and is the owner; the wait list is served in order of arrival.\<close>

theorem semB_give_hands_over:
  assumes "kernel_ok k A" and "A (SemB_wait s) = a # xs"
  shows "let k1 = snd (semB_give s k); (r, k2) = semB_take_resume s (k1\<lparr>G_p_current_tcb := Some a\<rparr>)
         in kernel_ok k1 (A(SemB_wait s := xs, Ready_list (prio a k) := A (Ready_list (prio a k)) @ [a])) \<and>
            semB_owner (semBs k1 s) = None \<and> r = Return OS_STATUS_OK \<and> semB_owner (semBs k2 s) = Some a"
proof -
  let ?k0 = "upd_semB s (\<lambda>b. b\<lparr>semB_owner := None\<rparr>) k"
  have ok: "kernel_ok ?k0 A" using assms(1) kernel_ok_same [OF upd_semB_queues] by simp
  have 1: "kernel_ok (wake_first (SemB_wait s) ?k0) (popped (SemB_wait s) ?k0 A)"
    by (rule wake_first_running [OF ok]) simp_all
  have o: "semBs (wake_first (SemB_wait s) ?k0) = semBs ?k0"
    using wake_first_ok(2) [of ?k0 A "SemB_wait s"] ok by (simp add: kernel_ok_def same_objects_def)
  have "delay_ticks (tcbs k a) \<noteq> 0"
    using tq.residence [of k A "SemB_wait s" a] assms by (simp add: kernel_ok_def resident_def)
  moreover have "list_get (SemB_wait s) ?k0 = (Some a, upd_lists (dlist_remove (SemB_wait s) a) ?k0)"
    using list_get_ok [of ?k0 A "SemB_wait s"] ok assms(2) by (simp add: kernel_ok_def)
  ultimately have "delay_ticks (tcbs (wake_first (SemB_wait s) ?k0) a) \<noteq> 0"
    by (simp add: wake_first_def readyQ_put_tcbs)
  then show ?thesis using 1 o assms(2)
    by (simp add: semB_give_def semB_take_resume_def semB_take_def popped_def Let_def cur_def)
qed

theorem semB_give_hands_over_witness:
  "semB_owner (semBs (snd (semB_give 1000 semB_blocked)) 1000) = None \<and>
   fst (semB_take_resume 1000 ((snd (semB_give 1000 semB_blocked))\<lparr>G_p_current_tcb := Some 100\<rparr>)) = Return OS_STATUS_OK"
  using semB_give_hands_over [OF semB_blocked_ok, of 1000 100 "[]"] by (simp add: Let_def split_def)

text \<open>C13: a flush returns, frees the semaphore, empties its wait list and makes all waiters
  ready in their order of arrival, behind the tasks that were ready before; each of them
  finds \<^verbatim>\<open>delay_ticks\<close> 0, so that its blocked call returns an error.\<close>

theorem semB_flush_all:
  assumes "queue_ok k A"
  shows "\<exists>k'. semB_flush s k = Some (OS_STATUS_OK, k') \<and> queue_ok k' (drained (SemB_wait s) k A) \<and>
     semB_owner (semBs k' s) = None \<and>
     (\<forall>a \<in> set (A (SemB_wait s)). semB_take_resume s (k'\<lparr>G_p_current_tcb := Some a\<rparr>) =
        (Return OS_STATUS_ERROR, k'\<lparr>G_p_current_tcb := Some a\<rparr>))"
  using semB_flush_ok [OF assms, of s] by (auto simp: semB_take_resume_def cur_def)

theorem semB_flush_all_witness:
  "\<exists>k'. semB_flush 1000 semB_blocked = Some (OS_STATUS_OK, k') \<and>
     semB_take_resume 1000 (k'\<lparr>G_p_current_tcb := Some 100\<rparr>) = (Return OS_STATUS_ERROR, k'\<lparr>G_p_current_tcb := Some 100\<rparr>)"
  using semB_flush_all [of semB_blocked "(\<lambda>_. [])(Ready_list 5 := [200], SemB_wait 1000 := [100])" 1000] semB_blocked_ok
  by (auto simp: kernel_ok_def)

end
