(* ===== verification/SemC.thy ===== *)
theory SemC
  imports Waiting
begin

text \<open>
  Counting semaphores (\<^verbatim>\<open>src/semC.c\<close>), with the blocking take split as in \<^verbatim>\<open>semB.c\<close>.
\<close>

section \<open>Operations\<close>

abbreviation (input) sizeof_SEM_CNT :: uint32 where "sizeof_SEM_CNT \<equiv> 24"

definition upd_semC :: "addr \<Rightarrow> (SEM_CNT \<Rightarrow> SEM_CNT) \<Rightarrow> kernel \<Rightarrow> kernel" where
  "upd_semC s f k = k\<lparr>semCs := (semCs k)(s := f (semCs k s))\<rparr>"

definition semC_init :: "ptr \<Rightarrow> uint32 \<Rightarrow> uint32 \<Rightarrow> kernel \<Rightarrow> (ptr \<times> kernel) option" where
  "semC_init pNewSemC init_count mx k =
     (if mx = 0 then Some (None, k)
      else case object_or_malloc pNewSemC sizeof_SEM_CNT k of
             None \<Rightarrow> None
           | Some (p, k1) \<Rightarrow>
               (let k2 = upd_semC p (\<lambda>s. s\<lparr>count := init_count, max_count := mx\<rparr>) k1;
                    k3 = upd_lists (\<lambda>m. snd (dlist_init (SemC_wait p) m)) k2
                in Some (Some p, upd_lists (dlist_add SemC_list p) k3)))"

definition semC_take :: "addr \<Rightarrow> uint32 \<Rightarrow> kernel \<Rightarrow> outcome \<times> kernel" where
  "semC_take pSemC timeout k =
     (if count (semCs k pSemC) > 0
      then (Return OS_STATUS_OK,
            upd_tcb (cur k) (\<lambda>t. t\<lparr>delay_ticks := 0\<rparr>) (upd_semC pSemC (\<lambda>s. s\<lparr>count := count s - 1\<rparr>) k))
      else if timeout \<noteq> 0
      then (Switch, pend_current (SemC_wait pSemC) TASK_STATUS_PEND_SEM_C pSemC timeout k)
      else (Return OS_STATUS_ERROR, k))"

definition semC_take_resume :: "addr \<Rightarrow> kernel \<Rightarrow> outcome \<times> kernel" where
  "semC_take_resume pSemC k =
     (if delay_ticks (tcbs k (cur k)) \<noteq> 0 then semC_take pSemC (delay_ticks (tcbs k (cur k))) k
      else (Return OS_STATUS_ERROR, k))"

definition semC_give :: "addr \<Rightarrow> kernel \<Rightarrow> OS_STATUS \<times> kernel" where
  "semC_give pSemC k =
     (if count (semCs k pSemC) < max_count (semCs k pSemC)
      then (OS_STATUS_OK, wake_first (SemC_wait pSemC) (upd_semC pSemC (\<lambda>s. s\<lparr>count := count s + 1\<rparr>) k))
      else (OS_STATUS_ERROR, k))"

text \<open>The loop of \<^verbatim>\<open>semC_flush\<close>, entered with the result of \<^verbatim>\<open>dlist_get\<close>.\<close>

partial_function (option) semC_flush_loop :: "addr \<Rightarrow> ptr \<Rightarrow> kernel \<Rightarrow> kernel option" where
  "semC_flush_loop pSemC pOutTcb k =
     (case pOutTcb of
        None \<Rightarrow> Some k
      | Some a \<Rightarrow>
          (let (p, k1) = list_get (SemC_wait pSemC) (readyQ_put a (upd_tcb a (\<lambda>t. t\<lparr>delay_ticks := 0\<rparr>) k))
           in semC_flush_loop pSemC p k1))"

definition semC_flush :: "addr \<Rightarrow> kernel \<Rightarrow> (OS_STATUS \<times> kernel) option" where
  "semC_flush pSemC k =
     (let (p, k1) = list_get (SemC_wait pSemC) k
      in map_option (\<lambda>k2. (OS_STATUS_OK, upd_semC pSemC (\<lambda>s. s\<lparr>count := 0\<rparr>) k2)) (semC_flush_loop pSemC p k1))"

definition semC_delete :: "addr \<Rightarrow> kernel \<Rightarrow> (OS_STATUS \<times> kernel) option" where
  "semC_delete pSemC k =
     (case semC_flush pSemC k of
        None \<Rightarrow> None
      | Some (_, k1) \<Rightarrow>
          (let k2 = upd_lists (dlist_remove SemC_list pSemC) k1
           in if CONFIG_MEM_HEAP_LOW \<le> pSemC \<and> pSemC \<le> CONFIG_MEM_HEAP_HIGH
              then map_option (Pair OS_STATUS_OK) (kfree pSemC k2)
              else Some (OS_STATUS_OK, k2)))"

definition semC_remove :: "addr \<Rightarrow> addr \<Rightarrow> kernel \<Rightarrow> OS_STATUS \<times> kernel" where
  "semC_remove pSemC pTcb k = (OS_STATUS_OK, upd_lists (dlist_remove (SemC_wait pSemC) pTcb) k)"

definition semC_update_wait_list :: "addr \<Rightarrow> kernel \<Rightarrow> (OS_STATUS \<times> kernel) option" where
  "semC_update_wait_list pSemC k =
     map_option (\<lambda>r. (OS_STATUS_OK, snd r)) (dlist_each lmem (SemC_wait pSemC) (wait_to_ready (SemC_wait pSemC)) k)"

definition semC_decrease :: "kernel \<Rightarrow> kernel option" where
  "semC_decrease k = map_option snd (dlist_each lmem SemC_list semC_update_wait_list k)"

section \<open>Lemmas\<close>

interpretation kC: object_kind SemC_list "\<lambda>s. [SemC_wait s]" semC_update_wait_list
  by unfold_locales
    (auto simp: semC_update_wait_list_def map_option_case split: option.split)

lemma upd_semC_queues [simp]: "same_queues k (upd_semC s f k)"
  by (simp add: upd_semC_def)

lemma upd_semC_sel [simp, state_simps]:
  "semCs (upd_semC s f k) = (semCs k)(s := f (semCs k s))" "G_p_current_tcb (upd_semC s f k) = G_p_current_tcb k"
  "tcbs (upd_semC s f k) = tcbs k" "lmem (upd_semC s f k) = lmem k" "kheap (upd_semC s f k) = kheap k"
  "cur (upd_semC s f k) = cur k"
  by (simp_all add: upd_semC_def cur_def)

lemma semC_flush_drains:
  assumes "queue_ok k A" and "A (SemC_wait s) = xs"
  shows "(let (p, k1) = list_get (SemC_wait s) k in semC_flush_loop s p k1) = Some (fold (wake_failed (SemC_wait s)) xs k)"
  using assms
proof (induction xs arbitrary: k A)
  case Nil
  then show ?case
    using list_get_ok [OF Nil.prems(1), of "SemC_wait s"] by (simp add: semC_flush_loop.simps)
next
  case (Cons a xs)
  have g: "list_get (SemC_wait s) k = (Some a, upd_lists (dlist_remove (SemC_wait s) a) k)"
    using list_get_ok [OF Cons.prems(1), of "SemC_wait s"] Cons.prems(2) by simp
  have ok: "queue_ok (wake_failed (SemC_wait s) a k)
      (A(SemC_wait s := xs, Ready_list (prio a k) := A (Ready_list (prio a k)) @ [a]))"
    by (rule wake_failed_ok [OF Cons.prems]) simp_all
  have "(let (p, k1) = list_get (SemC_wait s) (wake_failed (SemC_wait s) a k) in semC_flush_loop s p k1) =
      Some (fold (wake_failed (SemC_wait s)) xs (wake_failed (SemC_wait s) a k))"
    by (rule Cons.IH [OF ok]) simp
  then show ?case
    unfolding g by (simp add: semC_flush_loop.simps [of s "Some a"] flip: wake_failed_def)
qed

lemma semC_flush_ok:
  assumes "queue_ok k A"
  shows "\<exists>k'. semC_flush s k = Some (OS_STATUS_OK, k') \<and> queue_ok k' (drained (SemC_wait s) k A) \<and>
     count (semCs k' s) = 0 \<and> max_count (semCs k' s) = max_count (semCs k s) \<and>
     G_p_current_tcb k' = G_p_current_tcb k \<and> (\<forall>a \<in> set (A (SemC_wait s)). delay_ticks (tcbs k' a) = 0)"
proof -
  let ?k = "fold (wake_failed (SemC_wait s)) (A (SemC_wait s)) k"
  have d: "queue_ok ?k (drained (SemC_wait s) k A)" "same_objects k ?k"
    "tcbs ?k = (\<lambda>a. if a \<in> set (A (SemC_wait s))
       then (tcbs k a)\<lparr>delay_ticks := 0, status := TASK_STATUS_READY, pend_obj := None\<rparr> else tcbs k a)"
    using drain_ok [OF assms refl, of "SemC_wait s"] by auto
  have "semC_flush s k = Some (OS_STATUS_OK, upd_semC s (\<lambda>s. s\<lparr>count := 0\<rparr>) ?k)"
    using semC_flush_drains [OF assms refl, of s] by (simp add: semC_flush_def split_def Let_def)
  then show ?thesis
    using d queue_ok_same [OF upd_semC_queues, of s _ ?k] by (simp add: same_objects_def)
qed

lemma semC_take_ok:
  assumes "kernel_ok k A" and "G_p_current_tcb k = Some c"
  shows "case semC_take s timeout k of (r, k') \<Rightarrow>
     if 0 < count (semCs k s)
     then r = Return OS_STATUS_OK \<and> semCs k' = (semCs k)(s := (semCs k s)\<lparr>count := count (semCs k s) - 1\<rparr>) \<and> kernel_ok k' A
     else if timeout = NO_WAIT then r = Return OS_STATUS_ERROR \<and> k' = k
     else r = Switch \<and> semCs k' = semCs k \<and>
          kernel_ok k' (A(Ready_list (prio c k) := remove1 c (A (Ready_list (prio c k))),
                          SemC_wait s := A (SemC_wait s) @ [c]))"
proof -
  have "kernel_ok (upd_tcb c (\<lambda>t. t\<lparr>delay_ticks := 0\<rparr>) (upd_semC s f k)) A" for f
    using clear_delay_ok [of "upd_semC s f k" A c 0] assms kernel_ok_same [OF upd_semC_queues] by simp
  moreover have "timeout \<noteq> 0 \<Longrightarrow> kernel_ok (pend_current (SemC_wait s) TASK_STATUS_PEND_SEM_C s timeout k)
     (A(Ready_list (prio c k) := remove1 c (A (Ready_list (prio c k))), SemC_wait s := A (SemC_wait s) @ [c]))"
    by (rule pend_current_ok [OF assms]) (auto simp: home_def)
  ultimately show ?thesis using assms(2)
    by (auto simp: semC_take_def cur_def)
qed

lemma semC_give_ok:
  assumes "kernel_ok k A"
  shows "case semC_give s k of (r, k') \<Rightarrow>
     if count (semCs k s) < max_count (semCs k s)
     then r = OS_STATUS_OK \<and> semCs k' = (semCs k)(s := (semCs k s)\<lparr>count := count (semCs k s) + 1\<rparr>) \<and>
          kernel_ok k' (popped (SemC_wait s) k A)
     else r = OS_STATUS_ERROR \<and> k' = k"
proof -
  let ?k = "upd_semC s (\<lambda>s. s\<lparr>count := count s + 1\<rparr>) k"
  have "kernel_ok ?k A" using assms kernel_ok_same [OF upd_semC_queues] by simp
  then have "kernel_ok (wake_first (SemC_wait s) ?k) (popped (SemC_wait s) ?k A)"
    "semCs (wake_first (SemC_wait s) ?k) = semCs ?k"
    using wake_first_running [of ?k A "SemC_wait s"] wake_first_ok(2) [of ?k A "SemC_wait s"]
    by (auto simp: kernel_ok_def same_objects_def)
  then show ?thesis using popped_cong [of ?k k] by (simp add: semC_give_def)
qed

section \<open>Properties\<close>

text \<open>\<^verbatim>\<open>semC_take\<close> on every branch: with tokens left it takes one, otherwise it fails at
  once with \<^verbatim>\<open>NO_WAIT\<close> and else queues the caller behind the other waiters.\<close>

theorem semC_take_branches:
  assumes "kernel_ok k A" and "G_p_current_tcb k = Some c"
  shows "case semC_take s timeout k of (r, k') \<Rightarrow>
     if 0 < count (semCs k s)
     then r = Return OS_STATUS_OK \<and> semCs k' = (semCs k)(s := (semCs k s)\<lparr>count := count (semCs k s) - 1\<rparr>) \<and> kernel_ok k' A
     else if timeout = NO_WAIT then r = Return OS_STATUS_ERROR \<and> k' = k
     else r = Switch \<and> semCs k' = semCs k \<and>
          kernel_ok k' (A(Ready_list (prio c k) := remove1 c (A (Ready_list (prio c k))),
                          SemC_wait s := A (SemC_wait s) @ [c]))"
  using semC_take_ok [OF assms] .

theorem semC_take_branches_witness:
  "semC_take 2000 0 demo = (Return OS_STATUS_ERROR, demo) \<and> fst (semC_take 2000 4 demo) = Switch"
  using semC_take_branches [OF demo_ok, of 100 2000 0] semC_take_branches [OF demo_ok, of 100 2000 4]
  by (simp add: split_def empty_kernel_def prod_eq_iff)

text \<open>\<^verbatim>\<open>semC_give\<close> adds a token and wakes the longest waiting task, and refuses when the
  count is at its maximum; so neither take nor give nor flush moves the count out of
  \<open>0 \<dots> max_count\<close>, and the machine word never wraps.\<close>

theorem semC_count_bounded:
  assumes "kernel_ok k A" and "G_p_current_tcb k = Some c" and "count (semCs k s) \<le> max_count (semCs k s)"
  shows "(let (r, k') = semC_give s k
          in count (semCs k' s) \<le> max_count (semCs k' s) \<and> (r = OS_STATUS_ERROR \<longleftrightarrow> count (semCs k s) = max_count (semCs k s)) \<and>
             (r = OS_STATUS_OK \<longrightarrow> unat (count (semCs k' s)) = unat (count (semCs k s)) + 1 \<and>
                kernel_ok k' (popped (SemC_wait s) k A))) \<and>
         (let (r, k') = semC_take s timeout k
          in count (semCs k' s) \<le> max_count (semCs k' s) \<and>
             (r = Return OS_STATUS_OK \<longrightarrow> unat (count (semCs k' s)) + 1 = unat (count (semCs k s)))) \<and>
         (\<exists>k'. semC_flush s k = Some (OS_STATUS_OK, k') \<and> count (semCs k' s) \<le> max_count (semCs k' s))"
proof -
  let ?n = "count (semCs k s)" and ?m = "max_count (semCs k s)"
  have inc: "unat (?n + 1) = unat ?n + 1 \<and> ?n + 1 \<le> ?m" if "?n < ?m"
    using unat_plus_one_less [OF that] that by (simp add: word_less_nat_alt word_le_nat_alt)
  have dec: "unat (?n - 1) + 1 = unat ?n \<and> ?n - 1 \<le> ?m" if "0 < ?n"
  proof -
    have "?n \<noteq> 0" using that by auto
    then show ?thesis using that assms(3) unat_minus_one_pos [of ?n] by (simp add: word_less_nat_alt word_le_nat_alt)
  qed
  have "let (r, k') = semC_give s k
     in count (semCs k' s) \<le> max_count (semCs k' s) \<and> (r = OS_STATUS_ERROR \<longleftrightarrow> ?n = ?m) \<and>
        (r = OS_STATUS_OK \<longrightarrow> unat (count (semCs k' s)) = unat ?n + 1 \<and> kernel_ok k' (popped (SemC_wait s) k A))"
    using semC_give_ok [OF assms(1), of s] inc assms(3)
    by (cases "?n < ?m") (auto simp: split_def Let_def)
  moreover have "let (r, k') = semC_take s timeout k
     in count (semCs k' s) \<le> max_count (semCs k' s) \<and>
        (r = Return OS_STATUS_OK \<longrightarrow> unat (count (semCs k' s)) + 1 = unat ?n)"
    using semC_take_ok [OF assms(1,2), of s timeout] dec assms(3)
    by (cases "0 < ?n") (auto simp: split_def Let_def split: if_splits)
  moreover have "\<exists>k'. semC_flush s k = Some (OS_STATUS_OK, k') \<and> count (semCs k' s) \<le> max_count (semCs k' s)"
    using semC_flush_ok [of k A s] assms(1) by (auto simp: kernel_ok_def)
  ultimately show ?thesis by blast
qed

theorem semC_count_bounded_witness:
  "unat (count (semCs (snd (semC_give 2000 demo)) 2000)) = 1"
  using semC_count_bounded [OF demo_ok, of 100 2000 0]
  by (simp add: Let_def split_def empty_kernel_def) (metis OS_STATUS.exhaust)

end
