(* ===== verification/SemM.thy ===== *)
theory SemM
  imports Waiting
begin

text \<open>
  Mutexes with priority inheritance (\<^verbatim>\<open>src/semM.c\<close>). \<^verbatim>\<open>_up_owner_pri\<close> follows the chain of
  owners, which need not end in a damaged state, so it is partial; the theorems prove
  that it returns. The blocking take is split as in \<^verbatim>\<open>semB.c\<close>; a give that lowers the
  caller ends in a switch and returns \<^verbatim>\<open>OS_STATUS_OK\<close> when it runs again.
\<close>

section \<open>Operations\<close>

abbreviation (input) sizeof_SEM_MUX :: uint32 where "sizeof_SEM_MUX \<equiv> 28"

definition upd_semM :: "addr \<Rightarrow> (SEM_MUX \<Rightarrow> SEM_MUX) \<Rightarrow> kernel \<Rightarrow> kernel" where
  "upd_semM s f k = k\<lparr>semMs := (semMs k)(s := f (semMs k s))\<rparr>"

definition semM_init :: "ptr \<Rightarrow> kernel \<Rightarrow> (addr \<times> kernel) option" where
  "semM_init pNewSemM k =
     (case object_or_malloc pNewSemM sizeof_SEM_MUX k of
        None \<Rightarrow> None
      | Some (p, k1) \<Rightarrow>
          (let k2 = upd_semM p (\<lambda>s. s\<lparr>semM_owner := None, take_count := 0, wait_pri := 255\<rparr>) k1;
               k3 = upd_lists (\<lambda>m. snd (dlist_init (SemM_wait p) m)) k2
           in Some (p, upd_lists (dlist_add SemM_list p) k3)))"

definition set_prio :: "uint32 \<Rightarrow> OS_TCB \<Rightarrow> OS_TCB" where
  "set_prio p t = t\<lparr>task_priority := p\<rparr>"

partial_function (option) up_owner_pri :: "addr \<Rightarrow> addr \<Rightarrow> kernel \<Rightarrow> kernel option" where
  "up_owner_pri pTcb_wait pSemM k =
     (let pTcb_owner = deref (semM_owner (semMs k pSemM));
          p = task_priority (tcbs k pTcb_wait)
      in Option.bind
          (if p < task_priority (tcbs k pTcb_owner)
           then if status (tcbs k pTcb_owner) = TASK_STATUS_READY
                then Some (readyQ_put pTcb_owner (upd_tcb pTcb_owner (set_prio p) (readyQ_remove pTcb_owner k)))
                else if status (tcbs k pTcb_owner) = TASK_STATUS_PEND_SEM_M
                then up_owner_pri pTcb_owner (deref (pend_obj (tcbs k pTcb_owner))) (upd_tcb pTcb_owner (set_prio p) k)
                else Some (upd_tcb pTcb_owner (set_prio p) k)
           else Some k)
          (\<lambda>k1. Some (if task_priority (tcbs k1 pTcb_wait) < wait_pri (semMs k1 pSemM)
                       then upd_semM pSemM (\<lambda>s. s\<lparr>wait_pri := task_priority (tcbs k1 pTcb_wait)\<rparr>) k1 else k1)))"

text \<open>The search of \<^verbatim>\<open>_sort_pri_put\<close> for the first node with a priority that is not smaller.\<close>

partial_function (option) sort_find :: "kernel \<Rightarrow> uint32 \<Rightarrow> ptr \<Rightarrow> ptr option" where
  "sort_find k p pPrev =
     (case pPrev of
        None \<Rightarrow> Some None
      | Some a \<Rightarrow> if task_priority (tcbs k a) < p then sort_find k p (DL_NEXT a (lmem k)) else Some (Some a))"

definition sort_pri_put :: "list_ref \<Rightarrow> addr \<Rightarrow> kernel \<Rightarrow> kernel option" where
  "sort_pri_put pTcb_list pTcb k =
     (if DL_EMPTY pTcb_list (lmem k) \<or>
         task_priority (tcbs k (deref (DL_LAST pTcb_list (lmem k)))) < task_priority (tcbs k pTcb)
      then Some (upd_lists (dlist_add pTcb_list pTcb) k)
      else map_option
             (\<lambda>pPrev. upd_lists (dlist_insert pTcb_list (DL_PREVIOUS (deref pPrev) (lmem k)) pTcb) k)
             (sort_find k (task_priority (tcbs k pTcb)) (DL_FIRST pTcb_list (lmem k))))"

definition update_wait_pri :: "addr \<Rightarrow> kernel \<Rightarrow> kernel" where
  "update_wait_pri pSemM k =
     upd_semM pSemM
       (\<lambda>s. s\<lparr>wait_pri := if DL_EMPTY (SemM_wait pSemM) (lmem k) then 255
                          else task_priority (tcbs k (deref (DL_FIRST (SemM_wait pSemM) (lmem k))))\<rparr>) k"

definition semM_take :: "addr \<Rightarrow> uint32 \<Rightarrow> kernel \<Rightarrow> (outcome \<times> kernel) option" where
  "semM_take pSemM timeout k =
     (if semM_owner (semMs k pSemM) = None
      then Some (Return OS_STATUS_OK,
                 upd_semM pSemM (\<lambda>s. s\<lparr>semM_owner := G_p_current_tcb k, take_count := 1\<rparr>) k)
      else if semM_owner (semMs k pSemM) = G_p_current_tcb k
      then Some (Return OS_STATUS_ERROR, upd_semM pSemM (\<lambda>s. s\<lparr>take_count := take_count s + 1\<rparr>) k)
      else if timeout \<noteq> 0
      then Option.bind (up_owner_pri (cur k) pSemM k)
             (\<lambda>k1. Option.bind
                (sort_pri_put (SemM_wait pSemM) (cur k)
                  (upd_tcb (cur k)
                    (\<lambda>t. t\<lparr>delay_ticks := timeout, status := TASK_STATUS_PEND_SEM_M, pend_obj := Some pSemM\<rparr>)
                    (readyQ_remove (cur k) k1)))
                (\<lambda>k2. Some (Switch, CONTEXT_SWITCH k2)))
      else Some (Return OS_STATUS_ERROR, k))"

definition semM_take_resume :: "kernel \<Rightarrow> outcome \<times> kernel" where
  "semM_take_resume k =
     (if delay_ticks (tcbs k (cur k)) \<noteq> 0
      then (Return OS_STATUS_OK, upd_tcb (cur k) (\<lambda>t. t\<lparr>delay_ticks := 0\<rparr>) k)
      else (Return OS_STATUS_ERROR, k))"

text \<open>\<^verbatim>\<open>_check_owner\<close> writes through \<^verbatim>\<open>int *p_highest_wait_pri\<close>, the second part of the state.\<close>

definition check_owner :: "addr \<Rightarrow> kernel \<times> uint32 \<Rightarrow> (OS_STATUS \<times> kernel \<times> uint32) option" where
  "check_owner pSemM = (\<lambda>(k, highest_wait_pri).
     Some (OS_STATUS_OK, k,
           if semM_owner (semMs k pSemM) = G_p_current_tcb k \<and> highest_wait_pri > wait_pri (semMs k pSemM)
           then wait_pri (semMs k pSemM) else highest_wait_pri))"

definition get_highest_wait_pri :: "kernel \<Rightarrow> uint32 option" where
  "get_highest_wait_pri k =
     map_option (\<lambda>r. snd (snd r)) (dlist_each (\<lambda>s. lmem (fst s)) SemM_list check_owner (k, 255))"

definition semM_give :: "addr \<Rightarrow> kernel \<Rightarrow> (outcome \<times> kernel) option" where
  "semM_give pSemM k =
     (let k0 = upd_semM pSemM (\<lambda>s. s\<lparr>take_count := take_count s - 1\<rparr>) k
      in if take_count (semMs k0 pSemM) \<noteq> 0 then Some (Return OS_STATUS_OK, k0)
         else
           let (pNextOwner, k1) = list_get (SemM_wait pSemM) k0;
               k2 = (case pNextOwner of
                       Some a \<Rightarrow> update_wait_pri pSemM
                                  (readyQ_put a (upd_semM pSemM (\<lambda>s. s\<lparr>semM_owner := Some a\<rparr>) k1))
                     | None \<Rightarrow> upd_semM pSemM (\<lambda>s. s\<lparr>semM_owner := None\<rparr>) k1);
               me = cur k2
           in map_option
                (\<lambda>highest_wait_pri.
                   let task_next_pri = (if highest_wait_pri > origin_pri (tcbs k2 me) then origin_pri (tcbs k2 me)
                                        else highest_wait_pri)
                   in if task_next_pri > task_priority (tcbs k2 me)
                      then (Switch, CONTEXT_SWITCH
                              (readyQ_put me (upd_tcb me (set_prio task_next_pri) (readyQ_remove me k2))))
                      else (Return OS_STATUS_OK, k2))
                (get_highest_wait_pri k2))"

definition free_semM :: "addr \<Rightarrow> addr \<Rightarrow> kernel \<Rightarrow> (OS_STATUS \<times> kernel) option" where
  "free_semM pTcb pSemM k =
     Some (OS_STATUS_OK,
       if semM_owner (semMs k pSemM) = Some pTcb
       then let (pNextOwner, k1) = list_get (SemM_wait pSemM) (upd_semM pSemM (\<lambda>s. s\<lparr>take_count := 0\<rparr>) k)
            in case pNextOwner of
                 Some a \<Rightarrow> update_wait_pri pSemM (readyQ_put a k1)
               | None \<Rightarrow> upd_semM pSemM (\<lambda>s. s\<lparr>semM_owner := None\<rparr>) k1
       else k)"

definition semM_free :: "addr \<Rightarrow> kernel \<Rightarrow> kernel option" where
  "semM_free pTcb k = map_option snd (dlist_each lmem SemM_list (free_semM pTcb) k)"

definition semM_remove :: "addr \<Rightarrow> addr \<Rightarrow> kernel \<Rightarrow> OS_STATUS \<times> kernel" where
  "semM_remove pSemM pTcb k = (OS_STATUS_OK, update_wait_pri pSemM (upd_lists (dlist_remove (SemM_wait pSemM) pTcb) k))"

definition semM_update_wait_list :: "addr \<Rightarrow> kernel \<Rightarrow> (OS_STATUS \<times> kernel) option" where
  "semM_update_wait_list pSemM k =
     map_option (\<lambda>r. (OS_STATUS_OK, snd r)) (dlist_each lmem (SemM_wait pSemM) (wait_to_ready (SemM_wait pSemM)) k)"

definition semM_decrease :: "kernel \<Rightarrow> kernel option" where
  "semM_decrease k = map_option snd (dlist_each lmem SemM_list semM_update_wait_list k)"

section \<open>Frames\<close>

interpretation kM: object_kind SemM_list "\<lambda>s. [SemM_wait s]" semM_update_wait_list
  by unfold_locales
    (auto simp: semM_update_wait_list_def map_option_case split: option.split)

lemma upd_semM_queues [simp]: "same_queues k (upd_semM s f k)"
  by (simp add: upd_semM_def)

lemma upd_semM_sel [simp, state_simps]:
  "semMs (upd_semM s f k) = (semMs k)(s := f (semMs k s))" "G_p_current_tcb (upd_semM s f k) = G_p_current_tcb k"
  "tcbs (upd_semM s f k) = tcbs k" "lmem (upd_semM s f k) = lmem k" "kheap (upd_semM s f k) = kheap k"
  "G_readyQ (upd_semM s f k) = G_readyQ k" "cur (upd_semM s f k) = cur k"
  by (simp_all add: upd_semM_def cur_def)

lemma update_wait_pri_queues [simp]: "same_queues k (update_wait_pri s k)"
  by (simp add: update_wait_pri_def)

lemma set_prio_simps [simp]:
  "task_priority (set_prio p t) = p" "status (set_prio p t) = status t" "pend_obj (set_prio p t) = pend_obj t"
  "delay_ticks (set_prio p t) = delay_ticks t" "origin_pri (set_prio p t) = origin_pri t"
  by (simp_all add: set_prio_def)


section \<open>Priority inheritance\<close>

abbreviation pri :: "kernel \<Rightarrow> addr \<Rightarrow> uint32" where
  "pri k a \<equiv> task_priority (tcbs k a)"

definition owners :: "kernel \<Rightarrow> addr set" where
  "owners k = {x. \<exists>s. semM_owner (semMs k s) = Some x}"

text \<open>
  Owners are live tasks, a mutex with waiters has an owner, and there are finitely many
  owners.
\<close>

definition mutexes_ok :: "kernel \<Rightarrow> (list_ref \<Rightarrow> addr list) \<Rightarrow> bool" where
  "mutexes_ok k A \<longleftrightarrow>
     (\<forall>x \<in> owners k. x \<in> set (A (home (tcbs k x)))) \<and>
     (\<forall>s. A (SemM_wait s) \<noteq> [] \<longrightarrow> semM_owner (semMs k s) \<noteq> None) \<and> finite (owners k)"

text \<open>The inheritance property, but for task \<open>w\<close>: an owner runs at least at the priority of
  each task that waits for it.\<close>

definition inherits_but :: "addr set \<Rightarrow> kernel \<Rightarrow> (list_ref \<Rightarrow> addr list) \<Rightarrow> bool" where
  "inherits_but W k A \<longleftrightarrow>
     (\<forall>s a x. a \<in> set (A (SemM_wait s)) \<longrightarrow> a \<notin> W \<longrightarrow> semM_owner (semMs k s) = Some x \<longrightarrow> pri k x \<le> pri k a)"

text \<open>Some tasks were raised to priority \<open>p\<close>, nothing else of interest has changed.\<close>

definition raised :: "uint32 \<Rightarrow> kernel \<Rightarrow> kernel \<Rightarrow> bool" where
  "raised p k k' \<longleftrightarrow>
     (\<forall>a. status (tcbs k' a) = status (tcbs k a) \<and> delay_ticks (tcbs k' a) = delay_ticks (tcbs k a) \<and>
          origin_pri (tcbs k' a) = origin_pri (tcbs k a) \<and>
          (status (tcbs k a) \<noteq> TASK_STATUS_READY \<longrightarrow> pend_obj (tcbs k' a) = pend_obj (tcbs k a)) \<and>
          (pri k' a = pri k a \<or> pri k' a = p \<and> p < pri k a)) \<and>
     (\<forall>s. semM_owner (semMs k' s) = semM_owner (semMs k s) \<and> take_count (semMs k' s) = take_count (semMs k s)) \<and>
     G_p_current_tcb k' = G_p_current_tcb k"

lemma raised_refl [simp]: "raised p k k"
  by (simp add: raised_def)

lemma raised_trans: "raised p k k' \<Longrightarrow> raised p k' k'' \<Longrightarrow> raised p k k''"
  unfolding raised_def by (metis)

lemma raised_wait_pri [simp]: "raised p k (upd_semM s (\<lambda>m. m\<lparr>wait_pri := w\<rparr>) k') \<longleftrightarrow> raised p k k'"
  by (auto simp: raised_def)

lemma raised_upd: "p < pri k x \<Longrightarrow> raised p k (upd_tcb x (set_prio p) k)"
  by (simp add: raised_def)

lemma raised_le: "raised p k k' \<Longrightarrow> pri k' a \<le> pri k a"
  by (auto simp: raised_def) (metis order.strict_implies_order order_refl)

text \<open>What raising does to the queues: only ready tasks may have changed their ready list.\<close>

definition requeued :: "(list_ref \<Rightarrow> addr list) \<Rightarrow> (list_ref \<Rightarrow> addr list) \<Rightarrow> bool" where
  "requeued A B \<longleftrightarrow>
     (\<forall>l. \<not> is_ready_list l \<longrightarrow> B l = A l) \<and>
     (\<forall>a. (\<exists>p. a \<in> set (B (Ready_list p))) \<longleftrightarrow> (\<exists>p. a \<in> set (A (Ready_list p))))"

lemma requeued_refl [simp]: "requeued A A"
  by (simp add: requeued_def)

lemma requeued_ready: "requeued A B \<Longrightarrow> a \<in> set (A (Ready_list i)) \<Longrightarrow> \<exists>j. a \<in> set (B (Ready_list j))"
  unfolding requeued_def by blast

lemma requeue_ready:
  assumes ok: "queue_ok k A" and x: "x \<in> set (A (Ready_list q))" and p: "unat p < PRIORITY_NUM_MAX" "p \<noteq> pri k x"
  defines "k' \<equiv> readyQ_put x (upd_tcb x (set_prio p) (readyQ_remove x k))"
  shows "\<exists>B. queue_ok k' B \<and> requeued A B"
proof -
  note r = tq.ready_priority [OF ok x]
  define C where "C = A(Ready_list q := remove1 x (A (Ready_list q)))"
  define B where "B = C(Ready_list (unat p) := C (Ready_list (unat p)) @ [x])"
  have new: "nowhere x C" unfolding C_def by (rule dequeued_nowhere [OF ok x])
  have "queue_ok (readyQ_remove x k) C" unfolding C_def by (rule readyQ_remove_ok [OF ok x])
  then have "queue_ok (upd_tcb x (set_prio p) (readyQ_remove x k)) C" using upd_tcb_ok new by blast
  then have "queue_ok k' B"
    using readyQ_put_ok [of "upd_tcb x (set_prio p) (readyQ_remove x k)" C x] new p(1)
    by (simp add: k'_def B_def)
  moreover have "requeued A B"
  proof -
    have "q \<noteq> unat p" using r(1) p(2) by (auto simp: word_unat_eq_iff)
    then have "a \<in> set (B (Ready_list i)) \<longleftrightarrow>
        (if a = x then i = unat p \<or> i \<noteq> q \<and> a \<in> set (A (Ready_list i)) else a \<in> set (A (Ready_list i)))" for a i
      using dl.holds_distinct [OF queue_ok_D(1) [OF ok], of "Ready_list q"] by (auto simp: B_def C_def)
    then have "(\<exists>i. a \<in> set (B (Ready_list i))) \<longleftrightarrow> (\<exists>i. a \<in> set (A (Ready_list i)))" for a
      using x by metis
    moreover have "B l = A l" if "\<not> is_ready_list l" for l using that by (auto simp: B_def C_def)
    ultimately show ?thesis by (simp add: requeued_def)
  qed
  ultimately show ?thesis by blast
qed

lemma raised_ready:
  assumes "p < pri k x" and "status (tcbs k x) = TASK_STATUS_READY"
  shows "raised p k (readyQ_put x (upd_tcb x (set_prio p) (readyQ_remove x k)))"
  using assms readyQ_remove_objects [of k x] readyQ_put_objects [of "upd_tcb x (set_prio p) (readyQ_remove x k)" x]
  by (auto simp: raised_def readyQ_put_tcbs readyQ_remove_tcbs same_objects_def)

lemma raise_waiting:
  assumes ok: "queue_ok k A" and s: "status (tcbs k x) \<noteq> TASK_STATUS_READY" and p: "unat p < PRIORITY_NUM_MAX"
  shows "queue_ok (upd_tcb x (set_prio p) k) A"
proof (rule upd_tcb_ok [OF ok], rule disjI2, intro allI impI)
  fix l
  have "home (set_prio p (tcbs k x)) = home (tcbs k x)"
    using s by (simp add: home_def split: task_status.split)
  then show "resident (set_prio p (tcbs k x)) l" if "resident (tcbs k x) l"
    using that p by (simp add: resident_def)
qed

text \<open>Raising owners keeps the inheritance property of every waiter that was not raised.\<close>

lemma inherits_raised:
  assumes "inherits_but W k A" and "raised p k k'" and "\<forall>l. \<not> is_ready_list l \<longrightarrow> B l = A l"
    and "\<And>s a. a \<in> set (A (SemM_wait s)) \<Longrightarrow> a \<notin> W \<Longrightarrow> pri k' a = pri k a"
  shows "inherits_but W k' B"
proof -
  have "semM_owner (semMs k' s) = semM_owner (semMs k s)" for s using assms(2) by (simp add: raised_def)
  moreover have "B (SemM_wait s) = A (SemM_wait s)" for s using assms(3) by simp
  ultimately show ?thesis
    using assms(1,4) raised_le [OF assms(2)] unfolding inherits_but_def by (metis order.trans)
qed


lemma waiting_home:
  assumes "queue_ok k A" and "a \<in> set (A (SemM_wait s))"
  shows "status (tcbs k a) = TASK_STATUS_PEND_SEM_M" "deref (pend_obj (tcbs k a)) = s"
  using tq.residence [OF assms(1) _ assms(2)]
  by (auto simp: resident_def home_def split: task_status.splits)

text \<open>
  \<^verbatim>\<open>_up_owner_pri\<close> returns, and afterwards every owner on the chain runs at least at the
  priority of the tasks that wait for it. \<open>w\<close> is the waiter, which waits for \<open>s\<close> or is
  about to.
\<close>

lemma up_owner_pri_spec:
  assumes "queue_ok k A" "mutexes_ok k A" "semM_owner (semMs k s) = Some x"
    "prio w k < PRIORITY_NUM_MAX" "\<And>s'. w \<in> set (A (SemM_wait s')) \<Longrightarrow> s' = s"
  shows "\<exists>k' B. up_owner_pri w s k = Some k' \<and> queue_ok k' B \<and> requeued A B \<and> raised (pri k w) k k' \<and>
    (inherits_but {w} k A \<longrightarrow> inherits_but {} k' B) \<and> pri k' x \<le> pri k w"
  using assms
proof (induction "card {y \<in> owners k. pri k w < pri k y}" arbitrary: k w s x rule: less_induct)
  case less
  note ok = less.prems(1) and mok = less.prems(2) and own = less.prems(3) and w256 = less.prems(4) and wh = less.prems(5)
  let ?p = "pri k w"
  have xo: "x \<in> owners k" using own by (auto simp: owners_def)
  then have xh: "x \<in> set (A (home (tcbs k x)))" using mok by (auto simp: mutexes_ok_def)
  define cont where "cont k1 = (if pri k1 w < wait_pri (semMs k1 s) then upd_semM s (\<lambda>s. s\<lparr>wait_pri := pri k1 w\<rparr>) k1 else k1)" for k1
  have finish: "\<exists>k' B. up_owner_pri w s k = Some k' \<and> queue_ok k' B \<and> requeued A B \<and> raised ?p k k' \<and>
      (inherits_but {w} k A \<longrightarrow> inherits_but {} k' B) \<and> pri k' x \<le> ?p"
    if "up_owner_pri w s k = Some (cont k1)" "queue_ok k1 B" "requeued A B" "raised ?p k k1"
      "inherits_but {w} k A \<longrightarrow> inherits_but {w} k1 B" "pri k1 x \<le> ?p" for k1 B
  proof -
    have same: "same_queues k1 (cont k1)" by (simp add: cont_def)
    then have t: "tcbs (cont k1) = tcbs k1" by (simp add: same_queues_def)
    have r: "raised ?p k (cont k1)" using that(4) by (simp add: cont_def)
    have w: "pri k1 w = ?p" using that(4) by (auto simp: raised_def)
    have o: "semM_owner (semMs (cont k1) s') = semM_owner (semMs k s')" "semM_owner (semMs k1 s') = semM_owner (semMs k s')" for s'
      using r that(4) by (auto simp: raised_def)
    have "B (SemM_wait s') = A (SemM_wait s')" for s' using that(3) by (simp add: requeued_def)
    then have "inherits_but {} (cont k1) B" if "inherits_but {w} k1 B"
      using that \<open>pri k1 x \<le> ?p\<close> wh own w unfolding inherits_but_def t o by (metis empty_iff insert_iff option.inject)
    moreover have "queue_ok (cont k1) B" using that(2) queue_ok_same [OF same] by simp
    ultimately show ?thesis using that(1,3,5,6) r t by metis
  qed
  have unfold: "up_owner_pri w s k = Option.bind (if ?p < pri k x
       then if status (tcbs k x) = TASK_STATUS_READY
            then Some (readyQ_put x (upd_tcb x (set_prio ?p) (readyQ_remove x k)))
            else if status (tcbs k x) = TASK_STATUS_PEND_SEM_M
            then up_owner_pri x (deref (pend_obj (tcbs k x))) (upd_tcb x (set_prio ?p) k)
            else Some (upd_tcb x (set_prio ?p) k)
       else Some k) (\<lambda>k1. Some (cont k1))"
    by (subst up_owner_pri.simps) (simp add: own Let_def cont_def)
  consider (low) "\<not> ?p < pri k x" | (ready) "?p < pri k x" "status (tcbs k x) = TASK_STATUS_READY"
    | (pend) "?p < pri k x" "status (tcbs k x) = TASK_STATUS_PEND_SEM_M"
    | (other) "?p < pri k x" "status (tcbs k x) \<noteq> TASK_STATUS_READY" "status (tcbs k x) \<noteq> TASK_STATUS_PEND_SEM_M"
    by blast
  then show ?case
  proof cases
    case low
    then show ?thesis using finish [of k A] unfold ok by simp
  next
    case ready
    then have "x \<in> set (A (Ready_list (prio x k)))" using xh by (simp add: home_def)
    moreover have "?p \<noteq> pri k x" using ready(1) by auto
    ultimately obtain B where B:
      "queue_ok (readyQ_put x (upd_tcb x (set_prio ?p) (readyQ_remove x k))) B" "requeued A B"
      using requeue_ready [OF ok _ w256] by metis
    have r: "raised ?p k (readyQ_put x (upd_tcb x (set_prio ?p) (readyQ_remove x k)))" by (rule raised_ready [OF ready])
    have "inherits_but {w} (readyQ_put x (upd_tcb x (set_prio ?p) (readyQ_remove x k))) B" if inh: "inherits_but {w} k A"
    proof (rule inherits_raised [OF inh r])
      show "\<forall>l. \<not> is_ready_list l \<longrightarrow> B l = A l" using B(2) by (simp add: requeued_def)
      fix s' a
      assume "a \<in> set (A (SemM_wait s'))"
      then have "a \<noteq> x" using waiting_home(1) [OF ok] ready(2) by force
      then show "pri (readyQ_put x (upd_tcb x (set_prio ?p) (readyQ_remove x k))) a = pri k a"
        by (simp add: readyQ_put_tcbs readyQ_remove_tcbs)
    qed
    then show ?thesis using finish [OF _ B r] unfold ready by (simp add: readyQ_put_tcbs)
  next
    case other
    let ?k = "upd_tcb x (set_prio ?p) k"
    have "queue_ok ?k A" by (rule raise_waiting [OF ok other(2) w256])
    moreover have r: "raised ?p k ?k" by (rule raised_upd [OF other(1)])
    moreover have "inherits_but {w} ?k A" if inh: "inherits_but {w} k A"
    proof (rule inherits_raised [OF inh r])
      fix s' a
      assume "a \<in> set (A (SemM_wait s'))"
      then have "a \<noteq> x" using waiting_home(1) [OF ok] other(3) by force
      then show "pri ?k a = pri k a" by simp
    qed simp
    ultimately show ?thesis using finish [of ?k A] unfold other by simp
  next
    case pend
    let ?k = "upd_tcb x (set_prio ?p) k" and ?s = "deref (pend_obj (tcbs k x))"
    have hx: "home (set_prio ?p (tcbs k x)) = home (tcbs k x)" using pend(2) by (simp add: home_def)
    have xw: "x \<in> set (A (SemM_wait ?s))" using xh pend(2) by (simp add: home_def)
    have ok': "queue_ok ?k A" using raise_waiting [OF ok _ w256] pend(2) by simp
    have ow: "owners ?k = owners k" by (simp add: owners_def)
    have mok': "mutexes_ok ?k A" using mok hx by (simp add: mutexes_ok_def ow)
    have "A (SemM_wait ?s) \<noteq> []" using xw by auto
    then have "semM_owner (semMs k ?s) \<noteq> None" using mok by (simp add: mutexes_ok_def)
    then obtain y where y: "semM_owner (semMs k ?s) = Some y" by blast
    have le: "pri ?k a \<le> pri k a" for a using raised_le [OF raised_upd [OF pend(1)]] .
    have inh': "inherits_but {x} ?k A" if inh: "inherits_but {w} k A"
      unfolding inherits_but_def
    proof (intro allI impI)
      fix s' a z
      assume a: "a \<in> set (A (SemM_wait s'))" "a \<notin> {x}" "semM_owner (semMs ?k s') = Some z"
      show "pri ?k z \<le> pri ?k a"
      proof (cases "a = w")
        case True
        then have "z = x" using wh [of s'] a own by simp
        with True a show ?thesis by simp
      next
        case False
        then have "pri k z \<le> pri k a" using inh a by (auto simp: inherits_but_def)
        then show ?thesis using le [of z] a by (auto intro: order.trans)
      qed
    qed
    have "{y \<in> owners ?k. pri ?k x < pri ?k y} \<subset> {y \<in> owners k. ?p < pri k y}"
      using pend(1) xo by (auto simp: ow)
    then have "card {y \<in> owners ?k. pri ?k x < pri ?k y} < card {y \<in> owners k. ?p < pri k y}"
      using mok by (intro psubset_card_mono) (auto simp: mutexes_ok_def)
    note IH = less.hyps [OF this ok' mok', of ?s y]
    have "s' = ?s" if "x \<in> set (A (SemM_wait s'))" for s' using waiting_home(2) [OF ok that] by simp
    with IH obtain k1 B where
      1: "up_owner_pri x ?s ?k = Some k1" "queue_ok k1 B" "requeued A B" "raised ?p ?k k1"
        "inherits_but {x} ?k A \<longrightarrow> inherits_but {} k1 B"
      using y w256 by auto
    have "raised ?p k k1" using raised_trans [OF raised_upd [OF pend(1)] 1(4)] .
    moreover have "pri k1 x \<le> ?p" using raised_le [OF 1(4), of x] by simp
    moreover have "inherits_but {w} k1 B" if "inherits_but {w} k A" using 1(5) inh' [OF that] by (auto simp: inherits_but_def)
    ultimately show ?thesis using finish [OF _ 1(2,3)] unfold pend 1(1) by simp
  qed
qed


section \<open>The sorted wait list\<close>

definition pri_insert :: "kernel \<Rightarrow> addr \<Rightarrow> addr list \<Rightarrow> addr list" where
  "pri_insert k c xs =
     (if xs = [] \<or> pri k (last xs) < pri k c then xs @ [c]
      else takeWhile (\<lambda>a. pri k a < pri k c) xs @ c # dropWhile (\<lambda>a. pri k a < pri k c) xs)"

lemma set_pri_insert [simp]: "set (pri_insert k c xs) = insert c (set xs)"
proof -
  have "set xs = set (takeWhile (\<lambda>a. pri k a < pri k c) xs) \<union> set (dropWhile (\<lambda>a. pri k a < pri k c) xs)"
    by (metis set_append takeWhile_dropWhile_id)
  then show ?thesis by (auto simp: pri_insert_def)
qed

lemma pri_insert_sorted:
  assumes "sorted (map (pri k) xs)"
  shows "sorted (map (pri k) (pri_insert k c xs))"
proof (cases "xs = [] \<or> pri k (last xs) < pri k c")
  case True
  have "pri k a \<le> pri k c" if "a \<in> set xs" for a
  proof -
    have "pri k a \<le> pri k (last xs)"
      using that assms by (cases xs rule: rev_cases) (auto simp: sorted_append)
    with True that show ?thesis by auto
  qed
  with True assms show ?thesis by (auto simp: pri_insert_def sorted_append)
next
  case False
  let ?P = "\<lambda>a. pri k a < pri k c"
  have xs: "xs = takeWhile ?P xs @ dropWhile ?P xs" by simp
  then have "sorted (map (pri k) (takeWhile ?P xs) @ map (pri k) (dropWhile ?P xs))"
    using assms by (metis map_append)
  moreover have "\<forall>a \<in> set (takeWhile ?P xs). pri k a \<le> pri k c"
    using set_takeWhileD by (fastforce intro: order.strict_implies_order)
  moreover have "\<forall>a \<in> set (dropWhile ?P xs). pri k c \<le> pri k a"
  proof (cases "dropWhile ?P xs")
    case (Cons b bs)
    then have "\<not> ?P b" by (metis hd_dropWhile list.distinct(1) list.sel(1))
    with Cons calculation(1) show ?thesis by (auto simp: sorted_append)
  next
    case Nil
    then show ?thesis by (simp del: dropWhile_eq_Nil_conv)
  qed
  ultimately show ?thesis using False
    by (auto simp: pri_insert_def sorted_append intro: order.trans)
qed

lemma sort_find_spec:
  assumes "dl_holds (lmem k) A" and "A l = xs @ ys"
  shows "sort_find k p (first ys) = Some (List.find (\<lambda>a. \<not> pri k a < p) ys)"
  using assms(2)
proof (induction ys arbitrary: xs)
  case Nil
  then show ?case by (simp add: sort_find.simps)
next
  case (Cons a ys)
  have "DL_NEXT a (lmem k) = first ys" by (rule dl.next_law [OF assms(1) Cons.prems])
  moreover have "sort_find k p (first ys) = Some (List.find (\<lambda>a. \<not> pri k a < p) ys)"
    by (rule Cons.IH [of "xs @ [a]"]) (simp add: Cons.prems)
  ultimately show ?case by (simp add: sort_find.simps [of k p "Some a"])
qed

lemma find_dropWhile: "List.find (\<lambda>a. \<not> P a) xs = first (dropWhile P xs)"
  by (induction xs) auto

lemma sort_pri_put_ok:
  assumes ok: "queue_ok k A" and new: "nowhere c A" and l: "\<not> is_ready_list l" and r: "resident (tcbs k c) l"
  shows "\<exists>f. sort_pri_put l c k = Some (upd_lists f k) \<and> queue_ok (upd_lists f k) (A(l := pri_insert k c (A l)))"
proof -
  note h = queue_ok_D(1) [OF ok]
  have e: "DL_EMPTY l (lmem k) \<longleftrightarrow> A l = []" using dl.first_law [OF h, of l] by (simp add: dl_macros)
  have la: "DL_LAST l (lmem k) = final (A l)" by (rule dl.last_law [OF h])
  show ?thesis
  proof (cases "A l = [] \<or> pri k (last (A l)) < pri k c")
    case True
    have "deref (final (A l)) = last (A l)" if "A l \<noteq> []"
      using that by (cases "A l" rule: rev_cases) auto
    then have "sort_pri_put l c k = Some (upd_lists (dlist_add l c) k)"
      using True by (auto simp: sort_pri_put_def e la)
    moreover have "pri_insert k c (A l) = A l @ [c]" using True by (auto simp: pri_insert_def)
    ultimately show ?thesis using enqueue_ok [OF ok new l] r by auto
  next
    case False
    let ?P = "\<lambda>a. pri k a < pri k c"
    have d: "deref (final (A l)) = last (A l)" using False by (cases "A l" rule: rev_cases) auto
    obtain b bs where b: "dropWhile ?P (A l) = b # bs"
      using False by (metis (mono_tags, lifting) dropWhile_eq_Nil_conv last_in_set list.exhaust)
    have split: "A l = takeWhile ?P (A l) @ b # bs" using b by (metis takeWhile_dropWhile_id)
    have "sort_find k (pri k c) (DL_FIRST l (lmem k)) = Some (Some b)"
      using sort_find_spec [OF h, of l "[]" "A l"] b by (simp add: dl.first_law [OF h] find_dropWhile)
    moreover have "DL_PREVIOUS b (lmem k) = final (takeWhile ?P (A l))"
      by (rule dl.previous_law [OF h split])
    ultimately have "sort_pri_put l c k = Some (upd_lists (dlist_insert l (final (takeWhile ?P (A l))) c) k)"
      using False by (simp add: sort_pri_put_def e la d)
    moreover have "pri_insert k c (A l) = takeWhile ?P (A l) @ c # b # bs"
      using False b by (simp add: pri_insert_def)
    ultimately show ?thesis using insert_ok [OF ok new l split] r by auto
  qed
qed


section \<open>Take and give\<close>

text \<open>The invariant of the mutexes: owners are live, and each runs at least at the priority
  of its waiters.\<close>

definition mutex_inv :: "kernel \<Rightarrow> (list_ref \<Rightarrow> addr list) \<Rightarrow> bool" where
  "mutex_inv k A \<longleftrightarrow> kernel_ok k A \<and> mutexes_ok k A \<and> inherits_but {} k A"

lemma owners_raised: "raised p k k' \<Longrightarrow> owners k' = owners k"
  by (simp add: raised_def owners_def)

lemma raised_mutexes_ok:
  assumes ok: "queue_ok k' B" and m: "mutexes_ok k A" and r: "raised p k k'" "requeued A B"
  shows "mutexes_ok k' B"
proof -
  have "x \<in> set (B (home (tcbs k' x)))" if "x \<in> owners k" for x
  proof (cases "status (tcbs k x) = TASK_STATUS_READY")
    case True
    have "x \<in> set (A (home (tcbs k x)))" using that m by (simp add: mutexes_ok_def)
    then obtain i where i: "x \<in> set (B (Ready_list i))"
      using True requeued_ready [OF r(2)] by (auto simp: home_def)
    then have "home (tcbs k' x) = Ready_list i" using tq.residence [OF ok _ i] by (simp add: resident_def)
    with i show ?thesis by simp
  next
    case False
    then have "home (tcbs k' x) = home (tcbs k x)" "\<not> is_ready_list (home (tcbs k x))"
      using r(1) by (auto simp: raised_def home_def split: task_status.split)
    then show ?thesis using that m r(2) by (simp add: mutexes_ok_def requeued_def)
  qed
  then show ?thesis
    using m r owners_raised [OF r(1)] by (simp add: mutexes_ok_def requeued_def raised_def)
qed

text \<open>The second half of a blocking take: \<open>c\<close> leaves its ready list and is sorted into the
  wait list of \<open>s\<close>.\<close>

lemma join_wait_list:
  fixes s :: addr
  assumes ok: "queue_ok k A" and c: "c \<in> set (A (Ready_list q))" and t: "timeout \<noteq> 0"
  defines "k2 \<equiv> upd_tcb c (\<lambda>t. t\<lparr>delay_ticks := timeout, status := TASK_STATUS_PEND_SEM_M, pend_obj := Some s\<rparr>)
                  (readyQ_remove c k)"
    and "C \<equiv> A(Ready_list q := remove1 c (A (Ready_list q)), SemM_wait s := pri_insert k c (A (SemM_wait s)))"
  shows "\<exists>f. sort_pri_put (SemM_wait s) c k2 = Some (upd_lists f k2) \<and> kernel_ok (CONTEXT_SWITCH (upd_lists f k2)) C"
proof -
  define D where "D = A(Ready_list q := remove1 c (A (Ready_list q)))"
  have new: "nowhere c D" unfolding D_def by (rule dequeued_nowhere [OF ok c])
  have "queue_ok (readyQ_remove c k) D" unfolding D_def by (rule readyQ_remove_ok [OF ok c])
  then have ok2: "queue_ok k2 D" unfolding k2_def using upd_tcb_ok new by blast
  have res: "resident (tcbs k2 c) (SemM_wait s)"
    using t tq.ready_priority(1,2) [OF ok c] by (simp add: k2_def resident_def home_def readyQ_remove_tcbs)
  obtain f where f: "sort_pri_put (SemM_wait s) c k2 = Some (upd_lists f k2)"
    "queue_ok (upd_lists f k2) (D(SemM_wait s := pri_insert k2 c (D (SemM_wait s))))"
    using sort_pri_put_ok [OF ok2 new _ res] by auto
  have "pri k2 a = pri k a" for a by (simp add: k2_def readyQ_remove_tcbs)
  then have "D(SemM_wait s := pri_insert k2 c (D (SemM_wait s))) = C"
    by (simp add: C_def D_def pri_insert_def)
  with f switch_ok show ?thesis by auto
qed

lemma semM_block_state:
  assumes kok: "kernel_ok k A" and m: "mutexes_ok k A"
    and c: "G_p_current_tcb k = Some c" and x: "semM_owner (semMs k s) = Some x" "x \<noteq> c"
    and t: "timeout \<noteq> 0"
  obtains k1 B q k' where "queue_ok k1 B" "requeued A B" "raised (pri k c) k k1" "inherits_but {} k A \<longrightarrow> inherits_but {} k1 B"
    "pri k1 x \<le> pri k c" "c \<in> set (B (Ready_list q))" "semM_take s timeout k = Some (Switch, k')"
    "kernel_ok k' (B(Ready_list q := remove1 c (B (Ready_list q)), SemM_wait s := pri_insert k1 c (B (SemM_wait s))))"
    "semMs k' = semMs k1" "\<And>a. pri k' a = pri k1 a"
    "\<And>a. home (tcbs k' a) = (if a = c then SemM_wait s else home (tcbs k1 a))"
proof -
  have ok: "queue_ok k A" using kok by (simp add: kernel_ok_def)
  obtain i where i: "c \<in> set (A (Ready_list i))" using current_ready [OF kok c] .
  have nw: "c \<notin> set (A (SemM_wait s'))" for s'
    using dl.holds_disjoint [OF queue_ok_D(1) [OF ok] i, of "SemM_wait s'"] by auto
  have inh: "inherits_but {} k A \<Longrightarrow> inherits_but {c} k A" by (auto simp: inherits_but_def)
  obtain k1 B where 1: "up_owner_pri c s k = Some k1" "queue_ok k1 B" "requeued A B" "raised (pri k c) k k1"
      "inherits_but {} k A \<longrightarrow> inherits_but {} k1 B" "pri k1 x \<le> pri k c"
    using up_owner_pri_spec [OF ok m x(1), of c] tq.ready_priority [OF ok i] nw inh by blast
  obtain q where q: "c \<in> set (B (Ready_list q))" using requeued_ready [OF 1(3) i] by blast
  let ?k2 = "upd_tcb c (\<lambda>t. t\<lparr>delay_ticks := timeout, status := TASK_STATUS_PEND_SEM_M, pend_obj := Some s\<rparr>)
                  (readyQ_remove c k1)"
  obtain f where f: "sort_pri_put (SemM_wait s) c ?k2 = Some (upd_lists f ?k2)"
    "kernel_ok (CONTEXT_SWITCH (upd_lists f ?k2))
       (B(Ready_list q := remove1 c (B (Ready_list q)), SemM_wait s := pri_insert k1 c (B (SemM_wait s))))"
    using join_wait_list [OF 1(2) q t, of s] by blast
  show thesis
  proof (rule that [OF 1(2-6) q _ f(2)])
    show "semM_take s timeout k = Some (Switch, CONTEXT_SWITCH (upd_lists f ?k2))"
      using x c t f(1) 1(1) by (simp add: semM_take_def cur_def)
    show "semMs (CONTEXT_SWITCH (upd_lists f ?k2)) = semMs k1"
      using readyQ_remove_objects [of k1 c] by (simp add: same_objects_def)
  qed (simp_all add: readyQ_remove_tcbs home_def)
qed

text \<open>What a call of a mutex may do to the queues: ready tasks may change their list, the wait list
  of \<open>s\<close> may change, no task appears or is lost.\<close>

definition shifts :: "addr \<Rightarrow> (list_ref \<Rightarrow> addr list) \<Rightarrow> (list_ref \<Rightarrow> addr list) \<Rightarrow> bool" where
  "shifts s A B \<longleftrightarrow>
     (\<forall>l. \<not> is_ready_list l \<longrightarrow> l \<noteq> SemM_wait s \<longrightarrow> B l = A l) \<and>
     (\<forall>a. (\<exists>l. task_list l \<and> a \<in> set (A l)) \<longleftrightarrow> (\<exists>l. task_list l \<and> a \<in> set (B l)))"

lemma shifts_refl [simp]: "shifts s A A"
  by (simp add: shifts_def)

lemma shifts_trans: "shifts s A B \<Longrightarrow> shifts s B C \<Longrightarrow> shifts s A C"
  by (simp add: shifts_def)

lemma requeued_shifts:
  assumes "requeued A B"
  shows "shifts s A B"
proof -
  have "(\<exists>l. task_list l \<and> a \<in> set (X l)) \<longleftrightarrow> (\<exists>p. a \<in> set (X (Ready_list p))) \<or> (\<exists>l. task_list l \<and> \<not> is_ready_list l \<and> a \<in> set (X l))"
    for a and X :: "list_ref \<Rightarrow> addr list"
    by (metis is_ready_list.elims(2) task_list.simps(1))
  moreover have "\<forall>l. \<not> is_ready_list l \<longrightarrow> B l = A l" using assms by (simp add: requeued_def)
  ultimately show ?thesis using assms unfolding shifts_def requeued_def by metis
qed

lemma joins_shifts:
  assumes "c \<in> set (A (Ready_list q))" and "set ys = insert c (set (A (SemM_wait s)))"
  shows "shifts s A (A(Ready_list q := remove1 c (A (Ready_list q)), SemM_wait s := ys))"
proof -
  let ?B = "A(Ready_list q := remove1 c (A (Ready_list q)), SemM_wait s := ys)"
  have "\<exists>l. task_list l \<and> a \<in> set (?B l)" if "task_list l" "a \<in> set (A l)" for a l
  proof (cases "a = c")
    case True
    then show ?thesis using assms(2) by (intro exI [of _ "SemM_wait s"]) simp
  next
    case False
    then show ?thesis using that assms(2) by (intro exI [of _ l]) auto
  qed
  moreover have "\<exists>l. task_list l \<and> a \<in> set (A l)" if l: "task_list l" "a \<in> set (?B l)" for a l
  proof (cases "a = c")
    case True
    then show ?thesis using assms(1) by (intro exI [of _ "Ready_list q"]) simp
  next
    case False
    then show ?thesis using l assms(2) by (intro exI [of _ l]) (auto split: if_splits dest: notin_set_remove1)
  qed
  moreover have "\<forall>l. \<not> is_ready_list l \<longrightarrow> l \<noteq> SemM_wait s \<longrightarrow> ?B l = A l" by auto
  ultimately show ?thesis unfolding shifts_def by blast
qed

lemma semM_block:
  assumes kok: "kernel_ok k A" "mutexes_ok k A"
    and c: "G_p_current_tcb k = Some c" and x: "semM_owner (semMs k s) = Some x" "x \<noteq> c"
    and t: "timeout \<noteq> 0"
  shows "\<exists>k' C. semM_take s timeout k = Some (Switch, k') \<and> kernel_ok k' C \<and> mutexes_ok k' C \<and>
     (inherits_but {} k A \<longrightarrow> inherits_but {} k' C) \<and> shifts s A C \<and>
     C (SemM_wait s) = pri_insert k' c (A (SemM_wait s)) \<and> semM_owner (semMs k' s) = Some x \<and>
     pri k' c = pri k c \<and> pri k' x \<le> pri k c"
proof -
  obtain k1 B q k' where 1: "queue_ok k1 B" "requeued A B" "raised (pri k c) k k1"
    "inherits_but {} k A \<longrightarrow> inherits_but {} k1 B"
    "pri k1 x \<le> pri k c" "c \<in> set (B (Ready_list q))" and take: "semM_take s timeout k = Some (Switch, k')"
    and kok': "kernel_ok k' (B(Ready_list q := remove1 c (B (Ready_list q)), SemM_wait s := pri_insert k1 c (B (SemM_wait s))))"
    and sem: "semMs k' = semMs k1" and pri: "\<And>a. pri k' a = pri k1 a"
    and hm: "\<And>a. home (tcbs k' a) = (if a = c then SemM_wait s else home (tcbs k1 a))"
    using semM_block_state [OF assms] by metis
  define C where "C = B(Ready_list q := remove1 c (B (Ready_list q)), SemM_wait s := pri_insert k1 c (B (SemM_wait s)))"
  have pc: "pri k1 c = pri k c" and ox: "semM_owner (semMs k1 s) = Some x"
    using 1(3) x(1) by (auto simp: raised_def)
  have BA: "B (SemM_wait s') = A (SemM_wait s')" for s' using 1(2) by (simp add: requeued_def)
  have nw: "c \<notin> set (B (SemM_wait s'))" for s'
    using dl.holds_disjoint [OF queue_ok_D(1) [OF 1(1)] 1(6), of "SemM_wait s'"] by auto
  have m1: "mutexes_ok k1 B" using raised_mutexes_ok [OF 1(1) kok(2) 1(3,2)] .
  have ow: "owners k' = owners k1" by (simp add: owners_def sem)
  have "z \<in> set (C (home (tcbs k' z)))" if "z \<in> owners k1" for z
    using that m1 by (cases "z = c") (auto simp: hm C_def mutexes_ok_def)
  moreover have "semM_owner (semMs k1 s') \<noteq> None" if "C (SemM_wait s') \<noteq> []" for s'
    using that m1 ox by (cases "s' = s") (auto simp: C_def mutexes_ok_def)
  ultimately have "mutexes_ok k' C" using m1 by (simp add: mutexes_ok_def ow sem)
  moreover have "inherits_but {} k' C" if inh: "inherits_but {} k A"
  proof -
    have "pri k1 z \<le> pri k1 a" if "a \<in> set (C (SemM_wait s'))" "semM_owner (semMs k1 s') = Some z" for s' a z
    proof (cases "a = c")
      case True
      then have "s' = s" using that(1) nw by (auto simp: C_def split: if_splits)
      with True that(2) ox show ?thesis using 1(5) pc by simp
    next
      case False
      then have "a \<in> set (B (SemM_wait s'))" using that(1) by (auto simp: C_def split: if_splits)
      then show ?thesis using 1(4) inh that(2) by (auto simp: inherits_but_def)
    qed
    then show ?thesis by (auto simp: inherits_but_def pri sem)
  qed
  moreover have "shifts s A C"
    unfolding C_def by (rule shifts_trans [OF requeued_shifts [OF 1(2)] joins_shifts [where A = B, OF 1(6) set_pri_insert]])
  moreover have "C (SemM_wait s) = pri_insert k' c (A (SemM_wait s))" by (simp add: C_def BA pri_insert_def pri)
  ultimately show ?thesis using take 1(5) pc pri sem ox kok' unfolding C_def [symmetric] by metis
qed

lemma semM_take_moves:
  assumes kok: "kernel_ok k A" and m: "mutexes_ok k A" and c: "G_p_current_tcb k = Some c"
  shows "\<exists>r k' C. semM_take s timeout k = Some (r, k') \<and> kernel_ok k' C \<and> mutexes_ok k' C \<and>
     (inherits_but {} k A \<longrightarrow> inherits_but {} k' C) \<and> shifts s A C \<and>
     (case semM_owner (semMs k s) of
        None \<Rightarrow> r = Return OS_STATUS_OK \<and> semM_owner (semMs k' s) = Some c \<and> take_count (semMs k' s) = 1
      | Some x \<Rightarrow>
          if x = c then r = Return OS_STATUS_ERROR \<and> take_count (semMs k' s) = take_count (semMs k s) + 1
          else if timeout = NO_WAIT then r = Return OS_STATUS_ERROR \<and> k' = k
          else r = Switch \<and> C (SemM_wait s) = pri_insert k' c (A (SemM_wait s)) \<and>
               semM_owner (semMs k' s) = Some x \<and> pri k' x \<le> pri k' c)"
proof -
  have upd: "kernel_ok (upd_semM s f k) A" for f using kok kernel_ok_same [OF upd_semM_queues] by simp
  consider (free) "semM_owner (semMs k s) = None" | (mine) "semM_owner (semMs k s) = Some c"
    | (busy) x where "semM_owner (semMs k s) = Some x" "x \<noteq> c" by fastforce
  then show ?thesis
  proof cases
    case free
    let ?k = "upd_semM s (\<lambda>s. s\<lparr>semM_owner := Some c, take_count := 1\<rparr>) k"
    obtain i where "c \<in> set (A (Ready_list i))" using current_ready [OF kok c] .
    then have "c \<in> set (A (home (tcbs k c)))"
      using tq.residence [of k A "Ready_list i" c] kok by (simp add: kernel_ok_def resident_def)
    moreover have "owners ?k \<subseteq> insert c (owners k)" by (auto simp: owners_def split: if_splits)
    moreover have e: "A (SemM_wait s) = []" using m free by (auto simp: mutexes_ok_def)
    ultimately have "mutexes_ok ?k A" using m by (auto simp: mutexes_ok_def intro: finite_subset)
    moreover have "inherits_but {} k A \<longrightarrow> inherits_but {} ?k A" using e by (auto simp: inherits_but_def)
    ultimately show ?thesis using free upd c
      by (intro exI [of _ "Return OS_STATUS_OK"] exI [of _ ?k] exI [of _ A]) (simp add: semM_take_def)
  next
    case mine
    let ?k = "upd_semM s (\<lambda>s. s\<lparr>take_count := take_count s + 1\<rparr>) k"
    have o: "semM_owner (semMs ?k s') = semM_owner (semMs k s')" for s' by simp
    then have "owners ?k = owners k" by (simp add: owners_def)
    then have "mutexes_ok ?k A" "inherits_but {} k A \<longrightarrow> inherits_but {} ?k A"
      using m o by (auto simp: mutexes_ok_def inherits_but_def)
    then show ?thesis using mine upd c
      by (intro exI [of _ "Return OS_STATUS_ERROR"] exI [of _ ?k] exI [of _ A]) (simp add: semM_take_def)
  next
    case busy
    show ?thesis
    proof (cases "timeout = 0")
      case True
      then show ?thesis using busy kok m c
        by (intro exI [of _ "Return OS_STATUS_ERROR"] exI [of _ k] exI [of _ A]) (simp add: semM_take_def)
    next
      case False
      then show ?thesis using semM_block [OF kok m c busy False] busy by fastforce
    qed
  qed
qed

lemma semM_take_all:
  assumes inv: "mutex_inv k A" and c: "G_p_current_tcb k = Some c"
  shows "\<exists>r k' C. semM_take s timeout k = Some (r, k') \<and> mutex_inv k' C \<and>
     (case semM_owner (semMs k s) of
        None \<Rightarrow> r = Return OS_STATUS_OK \<and> semM_owner (semMs k' s) = Some c \<and> take_count (semMs k' s) = 1
      | Some x \<Rightarrow>
          if x = c then r = Return OS_STATUS_ERROR \<and> take_count (semMs k' s) = take_count (semMs k s) + 1
          else if timeout = NO_WAIT then r = Return OS_STATUS_ERROR \<and> k' = k
          else r = Switch \<and> C (SemM_wait s) = pri_insert k' c (A (SemM_wait s)) \<and>
               semM_owner (semMs k' s) = Some x \<and> pri k' x \<le> pri k' c)"
  using semM_take_moves [of k A c s timeout] assms unfolding mutex_inv_def by blast

text \<open>The lowest (most urgent) wait priority of the registered mutexes the current task owns.\<close>

definition owned_wait_pri :: "kernel \<Rightarrow> addr list \<Rightarrow> uint32" where
  "owned_wait_pri k ss = foldl (\<lambda>h s. if semM_owner (semMs k s) = G_p_current_tcb k then min h (wait_pri (semMs k s)) else h) 255 ss"

lemma owned_wait_pri_le: "owned_wait_pri k ss \<le> 255"
proof -
  have "foldl (\<lambda>h s. if semM_owner (semMs k s) = G_p_current_tcb k then min h (wait_pri (semMs k s)) else h) h ss \<le> h" for h
    by (induction ss arbitrary: h) (auto intro: order.trans [OF _ min.cobounded1])
  then show ?thesis by (simp add: owned_wait_pri_def)
qed

lemma get_highest_wait_pri_spec:
  assumes "queue_ok k A"
  shows "get_highest_wait_pri k = Some (owned_wait_pri k (A SemM_list))"
proof -
  let ?f = "\<lambda>s (k', h). (k', if semM_owner (semMs k' s) = G_p_current_tcb k' then min h (wait_pri (semMs k' s)) else h)"
  have "check_owner a x = Some (OS_STATUS_OK, ?f a x) \<and> lmem (fst (?f a x)) = lmem (fst x)" for a x
    by (cases x) (auto simp: check_owner_def min_def not_le)
  moreover have "fold ?f ss (k, h) =
      (k, foldl (\<lambda>h s. if semM_owner (semMs k s) = G_p_current_tcb k then min h (wait_pri (semMs k s)) else h) h ss)" for ss h
    by (induction ss arbitrary: h) auto
  ultimately show ?thesis
    using dlist_each_visits [of "\<lambda>s. lmem (fst s)" "(k, 255)" A check_owner ?f SemM_list] queue_ok_D(1) [OF assms]
    by (simp add: get_highest_wait_pri_def owned_wait_pri_def)
qed

text \<open>The state after the hand-over, before the caller reconsiders its own priority.\<close>

definition handed_over :: "addr \<Rightarrow> addr list \<Rightarrow> kernel \<Rightarrow> kernel" where
  "handed_over s xs k =
     (let k0 = upd_semM s (\<lambda>m. m\<lparr>take_count := take_count m - 1\<rparr>) k
      in case xs of
           [] \<Rightarrow> upd_semM s (\<lambda>m. m\<lparr>semM_owner := None\<rparr>) k0
         | a # _ \<Rightarrow> update_wait_pri s (readyQ_put a (upd_semM s (\<lambda>m. m\<lparr>semM_owner := Some a\<rparr>)
                       (upd_lists (dlist_remove (SemM_wait s) a) k0))))"

lemma handed_over_ok:
  assumes kok: "kernel_ok k A"
  shows "kernel_ok (handed_over s (A (SemM_wait s)) k) (popped (SemM_wait s) k A)"
    and "semM_owner (semMs (handed_over s (A (SemM_wait s)) k) s) = first (A (SemM_wait s))"
    and "take_count (semMs (handed_over s (A (SemM_wait s)) k) s) = take_count (semMs k s) - 1"
    and "G_p_current_tcb (handed_over s (A (SemM_wait s)) k) = G_p_current_tcb k"
    and "pri (handed_over s (A (SemM_wait s)) k) c = pri k c"
    and "origin_pri (tcbs (handed_over s (A (SemM_wait s)) k) c) = origin_pri (tcbs k c)"
proof -
  let ?j = "upd_semM s (\<lambda>m. m\<lparr>take_count := take_count m - 1\<rparr>) k" and ?k = "handed_over s (A (SemM_wait s)) k"
  have ok0: "kernel_ok ?j A" using kok kernel_ok_same [OF upd_semM_queues] by simp
  have com: "readyQ_put a (upd_semM s f j) = upd_semM s f (readyQ_put a j)" for a f j
    by (simp add: upd_semM_def readyQ_put_def upd_ready_def upd_tcb_def upd_lists_def Let_def)
  have pop: "popped (SemM_wait s) ?j A = popped (SemM_wait s) k A" by (rule popped_cong) simp
  have "kernel_ok (wake_first (SemM_wait s) ?j) (popped (SemM_wait s) ?j A)"
    by (rule wake_first_running [OF ok0]) simp_all
  moreover have same: "same_queues (wake_first (SemM_wait s) ?j) ?k \<and>
      G_p_current_tcb ?k = G_p_current_tcb (wake_first (SemM_wait s) ?j)"
    using list_get_ok [of ?j A "SemM_wait s"] ok0
    by (cases "A (SemM_wait s)")
      (simp_all add: kernel_ok_def handed_over_def Let_def wake_first_def com same_queues_def update_wait_pri_def)
  ultimately show "kernel_ok ?k (popped (SemM_wait s) k A)"
    using kernel_ok_same [of "wake_first (SemM_wait s) ?j" ?k] pop by simp
  show "semM_owner (semMs ?k s) = first (A (SemM_wait s))" "take_count (semMs ?k s) = take_count (semMs k s) - 1"
    "G_p_current_tcb ?k = G_p_current_tcb k" "pri ?k c = pri k c" "origin_pri (tcbs ?k c) = origin_pri (tcbs k c)"
    using readyQ_put_objects [of "upd_lists (dlist_remove (SemM_wait s) (hd (A (SemM_wait s)))) ?j" "hd (A (SemM_wait s))"]
    by (auto simp: handed_over_def Let_def com update_wait_pri_def readyQ_put_tcbs same_objects_def split: list.split)
qed


text \<open>The last part of \<^verbatim>\<open>semM_give\<close>: the caller may fall back to a lower priority.\<close>

definition settle :: "uint32 \<Rightarrow> addr \<Rightarrow> kernel \<Rightarrow> outcome \<times> kernel" where
  "settle next c k =
     (if next > pri k c
      then (Switch, CONTEXT_SWITCH (readyQ_put c (upd_tcb c (set_prio next) (readyQ_remove c k))))
      else (Return OS_STATUS_OK, k))"

lemma semM_give_settles:
  assumes kok: "kernel_ok k A" and c: "G_p_current_tcb k = Some c" and n: "take_count (semMs k s) = 1"
  defines "k2 \<equiv> handed_over s (A (SemM_wait s)) k"
  shows "semM_give s k =
     Some (settle (min (origin_pri (tcbs k c)) (owned_wait_pri k2 (popped (SemM_wait s) k A SemM_list))) c k2)"
proof -
  let ?j = "upd_semM s (\<lambda>m. m\<lparr>take_count := take_count m - 1\<rparr>) k"
  note h = handed_over_ok [OF kok, of s, folded k2_def]
  have okj: "queue_ok ?j A" using kok queue_ok_same [OF upd_semM_queues] by (simp add: kernel_ok_def)
  have g: "get_highest_wait_pri k2 = Some (owned_wait_pri k2 (popped (SemM_wait s) k A SemM_list))"
    using get_highest_wait_pri_spec h(1) by (simp add: kernel_ok_def)
  have "(let (pNextOwner, k1) = list_get (SemM_wait s) ?j
      in case pNextOwner of
           Some a \<Rightarrow> update_wait_pri s (readyQ_put a (upd_semM s (\<lambda>s. s\<lparr>semM_owner := Some a\<rparr>) k1))
         | None \<Rightarrow> upd_semM s (\<lambda>s. s\<lparr>semM_owner := None\<rparr>) k1) = k2"
    using list_get_ok [OF okj, of "SemM_wait s"]
    by (cases "A (SemM_wait s)") (simp_all add: k2_def handed_over_def Let_def)
  moreover have "cur k2 = c" using h(4) c by (simp add: cur_def)
  moreover have "(if y > x then x else y) = min x y" for x y :: uint32 by (auto simp: min_def)
  ultimately show ?thesis
    using n g h(5,6) [of c] by (simp add: semM_give_def split_def Let_def settle_def)
qed

lemma settle_ok:
  assumes kok: "kernel_ok k A" and c: "G_p_current_tcb k = Some c" and n: "unat next < PRIORITY_NUM_MAX"
  shows "case settle next c k of (r, k') \<Rightarrow> pri k' c = max (pri k c) next \<and> semMs k' = semMs k \<and>
     (\<exists>B. kernel_ok k' B \<and> requeued A B)"
proof (cases "pri k c < next")
  case True
  let ?k = "readyQ_put c (upd_tcb c (set_prio next) (readyQ_remove c k))"
  obtain i where "c \<in> set (A (Ready_list i))" using current_ready [OF kok c] .
  moreover have "next \<noteq> pri k c" using True by auto
  ultimately obtain B where "queue_ok ?k B" "requeued A B"
    using requeue_ready [of k A c i "next"] kok n by (auto simp: kernel_ok_def)
  then show ?thesis
    using True switch_ok readyQ_remove_objects [of k c] readyQ_put_objects [of "upd_tcb c (set_prio next) (readyQ_remove c k)" c]
    by (auto simp: settle_def readyQ_put_tcbs max_def same_objects_def not_le intro: order.strict_implies_order)
next
  case False
  then show ?thesis using kok by (auto simp: settle_def max_def not_less)
qed

text \<open>A give keeps the owners live and leaves no waiter without an owner.\<close>

lemma popped_shifts:
  assumes "queue_ok k A"
  shows "shifts s A (popped (SemM_wait s) k' A)"
proof -
  have "only_wakes A (popped (SemM_wait s) k' A)"
    using only_wakes_move [of "hd (A (SemM_wait s))" A "SemM_wait s"] dl.holds_distinct [OF queue_ok_D(1) [OF assms], of "SemM_wait s"]
    by (cases "A (SemM_wait s)") (simp_all add: popped_def)
  then show ?thesis by (auto simp: only_wakes_def shifts_def popped_def split: list.split)
qed

lemma mutexes_ok_members:
  assumes q: "queue_ok k' B" and m: "mutexes_ok k A" and s: "\<And>s. semM_owner (semMs k' s) = semM_owner (semMs k s)"
    and x: "\<And>x l. x \<in> owners k \<Longrightarrow> task_list l \<Longrightarrow> x \<in> set (A l) \<Longrightarrow> \<exists>l. task_list l \<and> x \<in> set (B l)"
    and w: "\<And>s. B (SemM_wait s) \<noteq> [] \<Longrightarrow> A (SemM_wait s) \<noteq> []"
  shows "mutexes_ok k' B"
proof -
  have o: "owners k' = owners k" by (simp add: owners_def s)
  have "x \<in> set (B (home (tcbs k' x)))" if "x \<in> owners k" for x
  proof -
    have "x \<in> set (A (home (tcbs k x)))" using that m by (simp add: mutexes_ok_def)
    from x [OF that task_list_home this] obtain l where "task_list l" "x \<in> set (B l)" by blast
    then show ?thesis using tq.residence [OF q] by (auto simp: resident_def)
  qed
  then show ?thesis using m w by (simp add: mutexes_ok_def o s)
qed

lemma handed_over_mutexes:
  assumes kok: "kernel_ok k A" and m: "mutexes_ok k A"
  shows "mutexes_ok (handed_over s (A (SemM_wait s)) k) (popped (SemM_wait s) k A)"
proof -
  let ?k = "handed_over s (A (SemM_wait s)) k" and ?B = "popped (SemM_wait s) k A"
  note h = handed_over_ok [OF kok, of s]
  have q: "queue_ok k A" "queue_ok ?k ?B" using kok h(1) by (simp_all add: kernel_ok_def)
  have "semMs (readyQ_put a (upd_semM s f (upd_lists g j))) = semMs (upd_semM s f j)" for a f g j
    using readyQ_put_objects [of "upd_semM s f (upd_lists g j)" a] by (simp add: same_objects_def upd_semM_def)
  then have other: "semM_owner (semMs ?k s') = (if s' = s then first (A (SemM_wait s)) else semM_owner (semMs k s'))" for s'
    using h(2) by (auto simp: handed_over_def Let_def update_wait_pri_def split: list.split)
  then have own: "owners ?k \<subseteq> set (A (SemM_wait s)) \<union> owners k"
    by (auto simp: owners_def dest: first_in_set split: if_splits)
  have "x \<in> set (?B (home (tcbs ?k x)))" if "x \<in> owners ?k" for x
  proof -
    have "x \<in> set (A (SemM_wait s)) \<or> x \<in> set (A (home (tcbs k x)))" using own that m by (auto simp: mutexes_ok_def)
    then have "\<exists>l. task_list l \<and> x \<in> set (A l)" by (metis task_list.simps(5) task_list_home)
    then obtain l where "task_list l" "x \<in> set (?B l)" using popped_shifts [OF q(1), of s k] unfolding shifts_def by metis
    then show ?thesis using tq.residence [OF q(2)] by (auto simp: resident_def)
  qed
  moreover have "semM_owner (semMs ?k s') \<noteq> None" if "?B (SemM_wait s') \<noteq> []" for s'
    using that m other [of s'] by (auto simp: popped_def mutexes_ok_def split: list.splits if_splits)
  moreover have "finite (owners ?k)" using own m by (auto simp: mutexes_ok_def intro: finite_subset)
  ultimately show ?thesis by (simp add: mutexes_ok_def)
qed

lemma requeued_mutexes:
  assumes q: "queue_ok k' B" and m: "mutexes_ok k A" and s: "semMs k' = semMs k" and r: "requeued A B"
  shows "mutexes_ok k' B"
proof (rule mutexes_ok_members [OF q m])
  show "\<exists>l. task_list l \<and> x \<in> set (B l)" if "task_list l" "x \<in> set (A l)" for x l
    using that requeued_shifts [OF r, of undefined] unfolding shifts_def by blast
  show "A (SemM_wait s) \<noteq> []" if "B (SemM_wait s) \<noteq> []" for s using that r by (simp add: requeued_def)
qed (simp add: s)

lemma semM_give_moves:
  assumes kok: "kernel_ok k A" and m: "mutexes_ok k A" and c: "G_p_current_tcb k = Some c"
  shows "\<exists>r k' B. semM_give s k = Some (r, k') \<and> kernel_ok k' B \<and> mutexes_ok k' B \<and> shifts s A B \<and>
    (B (SemM_wait s) \<noteq> [] \<longrightarrow> A (SemM_wait s) \<noteq> [])"
proof (cases "take_count (semMs k s) = 1")
  case True
  let ?k = "handed_over s (A (SemM_wait s)) k" and ?A = "popped (SemM_wait s) k A"
  note h = handed_over_ok [OF kok, of s]
  let ?n = "min (origin_pri (tcbs k c)) (owned_wait_pri ?k (?A SemM_list))"
  have "?n \<le> 255" using owned_wait_pri_le min.coboundedI2 by blast
  then have n: "unat ?n < 256" by (simp add: word_le_nat_alt)
  obtain r k' B where k': "settle ?n c ?k = (r, k')" "semMs k' = semMs ?k" "kernel_ok k' B" "requeued ?A B"
    using settle_ok [OF h(1) _ n, of c] h(4) c by (cases "settle ?n c ?k") auto
  have "mutexes_ok k' B"
    using requeued_mutexes [OF _ handed_over_mutexes [OF kok m, of s] k'(2,4)] k'(3) by (simp add: kernel_ok_def)
  moreover have "shifts s A B"
    by (rule shifts_trans [OF popped_shifts [of k] requeued_shifts [OF k'(4)]]) (use kok in \<open>simp add: kernel_ok_def\<close>)
  moreover have "B (SemM_wait s) = ?A (SemM_wait s)" using k'(4) by (simp add: requeued_def)
  then have "B (SemM_wait s) \<noteq> [] \<longrightarrow> A (SemM_wait s) \<noteq> []" by (auto simp: popped_def split: list.splits)
  ultimately show ?thesis using semM_give_settles [OF kok c True] k'(1,3) by auto
next
  case False
  let ?k = "upd_semM s (\<lambda>m. m\<lparr>take_count := take_count m - 1\<rparr>) k"
  have "owners ?k = owners k" "\<And>s'. semM_owner (semMs ?k s') = semM_owner (semMs k s')" by (auto simp: owners_def)
  then have "mutexes_ok ?k A" using m by (simp add: mutexes_ok_def)
  moreover have "kernel_ok ?k A" using kok kernel_ok_same [OF upd_semM_queues] by simp
  ultimately show ?thesis using False
    by (intro exI [of _ "Return OS_STATUS_OK"] exI [of _ ?k] exI [of _ A]) (simp add: semM_give_def Let_def)
qed

section \<open>Properties\<close>

text \<open>C4: \<^verbatim>\<open>semM_take\<close> keeps the mutex invariant on every branch and always returns: a free
  mutex is owned with count 1; the owner only counts up (and is told
  \<^verbatim>\<open>OS_STATUS_ERROR\<close>, see the findings); with \<^verbatim>\<open>NO_WAIT\<close> a busy mutex is refused without
  effect; otherwise the caller is sorted into the wait list by priority, and after the
  walk along the chain of owners every owner runs at least at the priority of every task
  waiting for it: priority inheritance, over any chain of nested mutexes.\<close>

theorem semM_take_inherits:
  assumes "mutex_inv k A" and "G_p_current_tcb k = Some c"
  shows "\<exists>r k' C. semM_take s timeout k = Some (r, k') \<and> mutex_inv k' C \<and>
     (case semM_owner (semMs k s) of
        None \<Rightarrow> r = Return OS_STATUS_OK \<and> semM_owner (semMs k' s) = Some c \<and> take_count (semMs k' s) = 1
      | Some x \<Rightarrow>
          if x = c then r = Return OS_STATUS_ERROR \<and> take_count (semMs k' s) = take_count (semMs k s) + 1
          else if timeout = NO_WAIT then r = Return OS_STATUS_ERROR \<and> k' = k
          else r = Switch \<and> C (SemM_wait s) = pri_insert k' c (A (SemM_wait s)) \<and>
               semM_owner (semMs k' s) = Some x \<and> pri k' x \<le> pri k' c)"
  using semM_take_all [OF assms] .

text \<open>The demo kernel in which the lower task 200 owns mutex 3000 and task 100 runs.\<close>

definition semM_busy :: kernel where
  "semM_busy = upd_semM 3000 (\<lambda>m. m\<lparr>semM_owner := Some 200, take_count := 1\<rparr>) demo"

lemma semM_busy_inv: "mutex_inv semM_busy demo_queues"
proof -
  have "kernel_ok semM_busy demo_queues"
    using demo_ok kernel_ok_same [OF upd_semM_queues] by (simp add: semM_busy_def)
  moreover have "owners semM_busy = {200}" by (auto simp: owners_def semM_busy_def empty_kernel_def)
  moreover have "home (tcbs semM_busy 200) = Ready_list 5" by (simp add: semM_busy_def demo_tcb_def home_def)
  ultimately show ?thesis by (simp add: mutex_inv_def mutexes_ok_def inherits_but_def demo_queues_def)
qed

theorem semM_take_inherits_witness:
  "\<exists>k'. semM_take 3000 9 semM_busy = Some (Switch, k') \<and> task_priority (tcbs k' 200) \<le> task_priority (tcbs k' 100)"
  using semM_take_inherits [OF semM_busy_inv, of 100 3000 9] by (auto simp: semM_busy_def)

text \<open>the wait list of a mutex stays sorted: inserting a task into a list sorted by
  priority keeps it sorted and adds exactly that task.\<close>

theorem sort_pri_put_sorts:
  assumes "queue_ok k A" and "\<forall>l. c \<notin> set (A l)" and "resident (tcbs k c) (SemM_wait s)"
    and "sorted (map (pri k) (A (SemM_wait s)))"
  shows "\<exists>k' xs. sort_pri_put (SemM_wait s) c k = Some k' \<and> queue_ok k' (A(SemM_wait s := xs)) \<and>
     sorted (map (pri k') xs) \<and> set xs = insert c (set (A (SemM_wait s)))"
proof -
  obtain f where "sort_pri_put (SemM_wait s) c k = Some (upd_lists f k)"
    "queue_ok (upd_lists f k) (A(SemM_wait s := pri_insert k c (A (SemM_wait s))))"
    using sort_pri_put_ok [OF assms(1,2) _ assms(3)] by auto
  then show ?thesis using pri_insert_sorted [OF assms(4), of c] set_pri_insert by fastforce
qed

theorem sort_pri_put_sorts_witness:
  "\<exists>k' xs. sort_pri_put (SemM_wait 3000) 300
      (upd_tcb 300 (\<lambda>t. t\<lparr>status := TASK_STATUS_PEND_SEM_M, pend_obj := Some 3000, delay_ticks := 8\<rparr>) demo) = Some k' \<and>
    queue_ok k' (demo_queues(SemM_wait 3000 := xs)) \<and> sorted (map (pri k') xs) \<and> set xs = {300}"
proof -
  let ?k = "upd_tcb 300 (\<lambda>t. t\<lparr>status := TASK_STATUS_PEND_SEM_M, pend_obj := Some 3000, delay_ticks := 8\<rparr>) demo"
  have n: "\<forall>l. 300 \<notin> set (demo_queues l)" by (simp add: demo_queues_def)
  have "queue_ok ?k demo_queues" using upd_tcb_ok [of demo demo_queues 300] n demo_ok by (auto simp: kernel_ok_def)
  moreover have "resident (tcbs ?k 300) (SemM_wait 3000)" by (simp add: resident_def home_def demo_tcb_def)
  ultimately show ?thesis
    using sort_pri_put_sorts [of ?k demo_queues 300 3000] n by (simp add: demo_queues_def)
qed

text \<open>C5: \<^verbatim>\<open>semM_give\<close>. A nested give only counts down. The last one hands the mutex to the
  first waiter, which becomes ready, or frees it; and the caller falls back to the lower
  of its own priority and the most urgent wait priority of the mutexes it still owns
  (never below its present number), switching when that lowers it. It always returns.\<close>

theorem semM_give_hands_over:
  assumes "kernel_ok k A" and "G_p_current_tcb k = Some c"
  shows "if take_count (semMs k s) = 1
     then \<exists>r k' B. semM_give s k = Some (r, k') \<and> kernel_ok k' B \<and> requeued (popped (SemM_wait s) k A) B \<and>
            semM_owner (semMs k' s) = first (A (SemM_wait s)) \<and>
            pri k' c = max (pri k c) (min (origin_pri (tcbs k c))
              (owned_wait_pri (handed_over s (A (SemM_wait s)) k) (A SemM_list)))
     else semM_give s k = Some (Return OS_STATUS_OK, upd_semM s (\<lambda>m. m\<lparr>take_count := take_count m - 1\<rparr>) k)"
proof (cases "take_count (semMs k s) = 1")
  case True
  let ?k = "handed_over s (A (SemM_wait s)) k"
  let ?n = "min (origin_pri (tcbs k c)) (owned_wait_pri ?k (A SemM_list))"
  note h = handed_over_ok [OF assms(1), of s]
  have "popped (SemM_wait s) k A SemM_list = A SemM_list" by (simp add: popped_def split: list.split)
  then have give: "semM_give s k = Some (settle ?n c ?k)"
    using semM_give_settles [OF assms True] by simp
  have "?n \<le> 255" using owned_wait_pri_le min.coboundedI2 by blast
  then have "unat ?n < 256" by (simp add: word_le_nat_alt)
  from settle_ok [OF h(1) _ this, of c] show ?thesis
    using True give h(2) h(4) h(5) [of c] assms(2) by (auto simp: split_def) (metis prod.collapse)
next
  case False
  then show ?thesis by (simp add: semM_give_def Let_def)
qed

theorem semM_give_hands_over_witness:
  "\<exists>r k'. semM_give 3000 (snd (the (semM_take 3000 0 demo))) = Some (r, k') \<and> semM_owner (semMs k' 3000) = None"
proof -
  let ?k = "upd_semM 3000 (\<lambda>m. m\<lparr>semM_owner := Some 100, take_count := 1\<rparr>) demo"
  have "kernel_ok ?k demo_queues" using demo_ok kernel_ok_same [OF upd_semM_queues] by simp
  moreover have "snd (the (semM_take 3000 0 demo)) = ?k" by (simp add: semM_take_def empty_kernel_def)
  ultimately show ?thesis
    using semM_give_hands_over [of ?k demo_queues 100 3000] by (auto simp: demo_queues_def)
qed

text \<open>the hand-over leaves \<^verbatim>\<open>take_count\<close> at 0, so the next give of the new owner wraps the
  counter to \<^verbatim>\<open>0xffffffff\<close> and takes the nested branch: the mutex keeps its owner and the
  remaining waiters are not served.\<close>

theorem semM_handover_count:
  assumes "kernel_ok k A" and "A (SemM_wait s) = a # xs" and "take_count (semMs k s) = 1"
  shows "let k1 = handed_over s (A (SemM_wait s)) k
     in take_count (semMs k1 s) = 0 \<and> semM_owner (semMs k1 s) = Some a \<and>
        (\<exists>k2. semM_give s (k1\<lparr>G_p_current_tcb := Some a\<rparr>) = Some (Return OS_STATUS_OK, k2) \<and>
              semM_owner (semMs k2 s) = Some a \<and> take_count (semMs k2 s) = 0xffffffff)"
  using handed_over_ok(2,3) [OF assms(1), of s] assms(2,3) by (simp add: semM_give_def Let_def)

definition semM_waiting :: kernel where
  "semM_waiting = upd_lists (dlist_add (SemM_wait 3000) 300)
     (upd_tcb 300 (\<lambda>t. t\<lparr>status := TASK_STATUS_PEND_SEM_M, pend_obj := Some 3000, delay_ticks := 8\<rparr>) semM_busy)"

lemma semM_waiting_ok: "kernel_ok semM_waiting (demo_queues(SemM_wait 3000 := [300]))"
proof -
  let ?k = "upd_tcb 300 (\<lambda>t. t\<lparr>status := TASK_STATUS_PEND_SEM_M, pend_obj := Some 3000, delay_ticks := 8\<rparr>) semM_busy"
  have n: "nowhere 300 demo_queues" by (simp add: demo_queues_def)
  have "queue_ok semM_busy demo_queues" using semM_busy_inv by (simp add: mutex_inv_def kernel_ok_def)
  then have "queue_ok ?k demo_queues" using upd_tcb_ok n by blast
  moreover have "resident (tcbs ?k 300) (SemM_wait 3000)" by (simp add: semM_busy_def resident_def home_def demo_tcb_def)
  moreover have "demo_queues (SemM_wait 3000) = []" by (simp add: demo_queues_def)
  ultimately have "queue_ok semM_waiting (demo_queues(SemM_wait 3000 := [300]))"
    using enqueue_ok [OF _ n, of ?k "SemM_wait 3000"] by (simp add: semM_waiting_def)
  moreover have "running semM_waiting (demo_queues(SemM_wait 3000 := [300]))"
    by (auto simp: running_def semM_waiting_def semM_busy_def demo_queues_def intro: exI [of _ 3])
  ultimately show ?thesis by (simp add: kernel_ok_def)
qed

theorem semM_handover_count_witness:
  "take_count (semMs (handed_over 3000 [300] semM_waiting) 3000) = 0 \<and>
   semM_owner (semMs (handed_over 3000 [300] semM_waiting) 3000) = Some 300"
  using semM_handover_count [OF semM_waiting_ok, of 3000 300 "[]"]
  by (simp add: Let_def semM_waiting_def semM_busy_def)

end
