(* ===== verification/Task.thy ===== *)
theory Task
  imports Task_Store CString SemB SemC SemM
begin

text \<open>
  Creation, deletion and end of tasks (\<^verbatim>\<open>src/task.c\<close>). \<^verbatim>\<open>CPU_STACK_INIT\<close>, which puts a first
  context frame on the new stack, is not part of the repository; it is the parameter
  \<open>stack_init\<close>: from the TCB, the stack top and the memory to the stack pointer and the
  new memory. The invariant \<open>tasks_ok\<close> ties the two stores to the queues: an available
  TCB is in no list, and the pages of live tasks are disjoint and marked.
\<close>

section \<open>Operations\<close>

text \<open>\<^verbatim>\<open>strncpy(&pTcb->task_name[0], task_name, NAME_LEN_MAX - 1)\<close>; the field is at offset 12 of the TCB.\<close>

definition name_field :: "addr \<Rightarrow> addr \<Rightarrow> kernel \<Rightarrow> uint8 list" where
  "name_field pTcb nm k =
     (let m = put_bytes (pTcb + 12) (task_name (tcbs k pTcb)) (bytes (kheap k));
          m' = snd (strncpy (pTcb + 12) nm 31 m)
      in map (\<lambda>i. m' (pTcb + 12 + i)) [0..<32])"

definition task_create ::
  "(addr \<Rightarrow> uint32 \<Rightarrow> cmem \<Rightarrow> uint32 \<times> cmem) \<Rightarrow> addr \<Rightarrow> uint32 \<Rightarrow> uint32 \<Rightarrow> uint32 \<Rightarrow> uint32 \<Rightarrow> uint32 \<Rightarrow> kernel \<Rightarrow> ptr \<times> kernel"
where
  "task_create stack_init nm sz prty entry a1 a2 k =
     (case alloc_tcb k of
        (None, k1) \<Rightarrow> (None, k1)
      | (Some pTcb, k1) \<Rightarrow>
          let k2 = upd_tcb pTcb (\<lambda>t. t\<lparr>task_name := name_field pTcb nm k1, task_entry := entry,
                     stack_size := align_up sz,
                     task_priority := prty, origin_pri := prty, arg1 := a1, arg2 := a2,
                     status := TASK_STATUS_READY, pend_obj := None\<rparr>) k1
          in case alloc_stack (stack_size (tcbs k2 pTcb)) k2 of (pStack, k3) \<Rightarrow>
               if pStack = 0 then (None, release_tcb pTcb k3)
               else
                 let k4 = upd_tcb pTcb (\<lambda>t. t\<lparr>stack_start := pStack\<rparr>) k3;
                     (sp0, m) = stack_init pTcb pStack (bytes (kheap k4));
                     k5 = upd_tcb pTcb (\<lambda>t. t\<lparr>sp := sp0\<rparr>) (upd_bytes (\<lambda>_. m) k4);
                     k6 = readyQ_put pTcb k5
                 in (Some pTcb, k6\<lparr>G_Task_Num := G_Task_Num k6 + 1\<rparr>))"

text \<open>The \<^verbatim>\<open>switch\<close> of \<^verbatim>\<open>task_delete\<close>.\<close>

definition leave_queue :: "addr \<Rightarrow> kernel \<Rightarrow> kernel" where
  "leave_queue pTcb k =
     (let obj = deref (pend_obj (tcbs k pTcb))
      in case status (tcbs k pTcb) of
           TASK_STATUS_READY \<Rightarrow> readyQ_remove pTcb k
         | TASK_STATUS_DELAY \<Rightarrow> snd (delayQ_remove pTcb k)
         | TASK_STATUS_PEND_SEM_B \<Rightarrow> snd (semB_remove obj pTcb k)
         | TASK_STATUS_PEND_SEM_C \<Rightarrow> snd (semC_remove obj pTcb k)
         | TASK_STATUS_PEND_SEM_M \<Rightarrow> snd (semM_remove obj pTcb k)
         | TASK_STATUS_PEND_MSG_S \<Rightarrow> snd (msgQ_remove obj pTcb k)
         | TASK_STATUS_PEND_MSG_R \<Rightarrow> snd (msgQ_remove obj pTcb k))"

definition task_delete :: "addr \<Rightarrow> kernel \<Rightarrow> (OS_STATUS \<times> kernel) option" where
  "task_delete pTcb k =
     map_option
       (\<lambda>k1. let k2 = release_tcb pTcb (release_stack pTcb k1)
             in (OS_STATUS_OK, k2\<lparr>G_Task_Num := G_Task_Num k2 - 1\<rparr>))
       (semM_free pTcb (leave_queue pTcb k))"

text \<open>\<^verbatim>\<open>_task_entry\<close> after the entry function of the task returned.\<close>

definition task_entry_exit :: "addr \<Rightarrow> kernel \<Rightarrow> kernel" where
  "task_entry_exit pTcb k =
     (let k1 = release_tcb pTcb (release_stack pTcb k);
          k2 = k1\<lparr>G_Task_Num := G_Task_Num k1 - 1\<rparr>
      in LOAD_HIGHEST_TASK (readyQ_remove (cur k2) k2))"

section \<open>The stores and the queues\<close>

text \<open>The pages of a task.\<close>

definition pages :: "OS_TCB \<Rightarrow> nat set" where
  "pages t = (let e = unat ((stack_start t - CONFIG_MEM_STACK_LOW) div CONFIG_MEM_STACK_PAGE_SIZE)
              in {e - need_pages (stack_size t)..<e})"

abbreviation tcb_at :: "kernel \<Rightarrow> nat \<Rightarrow> addr" where
  "tcb_at k i \<equiv> G_tcb k + sizeof_OS_TCB * i"

text \<open>The task in slot \<open>i\<close> has a stack inside the stack area.\<close>

definition stack_ok :: "OS_TCB \<Rightarrow> bool" where
  "stack_ok t \<longleftrightarrow> (\<exists>e \<le> CONFIG_MEM_STACK_PAGE_NUM. stack_start t = stack_top e \<and> need_pages (stack_size t) \<le> e)"

definition live :: "kernel \<Rightarrow> nat set" where
  "live k = {i. i < TASK_NUM_MAX \<and> i \<notin> avail (G_tcb_map k)}"

definition tasks_ok :: "kernel \<Rightarrow> (list_ref \<Rightarrow> addr list) \<Rightarrow> bool" where
  "tasks_ok k A \<longleftrightarrow>
     length (G_tcb_map k) = 8 \<and> length (G_stack_map k) = 64 \<and>
     (\<forall>i \<in> avail (G_tcb_map k). nowhere (tcb_at k i) A) \<and>
     (\<forall>i \<in> live k. stack_ok (tcbs k (tcb_at k i)) \<and> pages (tcbs k (tcb_at k i)) \<inter> avail (G_stack_map k) = {}) \<and>
     (\<forall>i \<in> live k. \<forall>j \<in> live k. i \<noteq> j \<longrightarrow> pages (tcbs k (tcb_at k i)) \<inter> pages (tcbs k (tcb_at k j)) = {})"

lemma pages_eq: "stack_start t = stack_top e \<Longrightarrow> e \<le> CONFIG_MEM_STACK_PAGE_NUM \<Longrightarrow> pages t = {e - need_pages (stack_size t)..<e}"
  by (simp add: pages_def stack_top_page Let_def)

lemma pages_cong: "stack_start t' = stack_start t \<Longrightarrow> stack_size t' = stack_size t \<Longrightarrow> pages t' = pages t \<and> stack_ok t' = stack_ok t"
  by (simp add: pages_def stack_ok_def)

text \<open>Steps that leave the two stores, the heap and the stacks of all tasks as they are.\<close>

definition same_store :: "kernel \<Rightarrow> kernel \<Rightarrow> bool" where
  "same_store k k' \<longleftrightarrow>
     G_p_current_tcb k' = G_p_current_tcb k \<and> G_Task_Num k' = G_Task_Num k \<and> G_tcb k' = G_tcb k \<and>
     G_tcb_map k' = G_tcb_map k \<and> G_stack_map k' = G_stack_map k \<and> kheap k' = kheap k \<and>
     (\<forall>a. stack_start (tcbs k' a) = stack_start (tcbs k a) \<and> stack_size (tcbs k' a) = stack_size (tcbs k a) \<and>
          task_priority (tcbs k' a) = task_priority (tcbs k a))"

lemma same_store_refl [simp]: "same_store k k"
  by (simp add: same_store_def)

lemma same_store_trans: "same_store k k' \<Longrightarrow> same_store k' k'' \<Longrightarrow> same_store k k''"
  by (simp add: same_store_def)

lemma same_store_semM [simp]: "same_store k (upd_semM s f k') \<longleftrightarrow> same_store k k'" "same_store k (update_wait_pri s k') \<longleftrightarrow> same_store k k'"
  by (auto simp: same_store_def upd_semM_def update_wait_pri_def)

lemma same_store_lists [simp]: "same_store k (upd_lists f k') \<longleftrightarrow> same_store k k'"
  by (simp add: same_store_def)

lemma same_store_queue [simp]: "same_store k (readyQ_put a k)" "same_store k (readyQ_remove a k)"
  using readyQ_put_objects [of k a] readyQ_remove_objects [of k a]
  by (auto simp: same_store_def same_objects_def readyQ_put_tcbs readyQ_remove_tcbs)

lemma same_store_wake_first: "same_store k (wake_first l k)"
proof -
  have "same_store k (snd (list_get l k))" by (simp add: list_get_def same_store_def split: prod.split)
  then show ?thesis using same_store_trans [OF _ same_store_queue(1)]
    by (auto simp: wake_first_def split: prod.split option.split)
qed

text \<open>The part of it the invariant of the stores depends on.\<close>

definition stores_kept :: "kernel \<Rightarrow> kernel \<Rightarrow> bool" where
  "stores_kept k k' \<longleftrightarrow> G_tcb k' = G_tcb k \<and> G_tcb_map k' = G_tcb_map k \<and> G_stack_map k' = G_stack_map k \<and>
     (\<forall>a. stack_start (tcbs k' a) = stack_start (tcbs k a) \<and> stack_size (tcbs k' a) = stack_size (tcbs k a))"

lemma same_store_kept: "same_store k k' \<Longrightarrow> stores_kept k k'"
  by (simp add: same_store_def stores_kept_def)

lemma tasks_ok_kept:
  assumes "tasks_ok k A" and "stores_kept k k'" and "\<And>a l. a \<in> set (B l) \<Longrightarrow> \<exists>m. a \<in> set (A m)"
  shows "tasks_ok k' B"
proof -
  have "pages (tcbs k' a) = pages (tcbs k a)" "stack_ok (tcbs k' a) = stack_ok (tcbs k a)" for a
    using assms(2) pages_cong [of "tcbs k' a" "tcbs k a"] by (auto simp: stores_kept_def)
  moreover have "live k' = live k" using assms(2) by (simp add: live_def stores_kept_def)
  ultimately show ?thesis using assms unfolding tasks_ok_def stores_kept_def by (simp, metis)
qed

lemmas tasks_ok_same = tasks_ok_kept [OF _ same_store_kept]

section \<open>Leaving the queues\<close>

lemma leave_queue_ok:
  assumes ok: "queue_ok k A" and l: "task_list l" "t \<in> set (A l)"
  shows "queue_ok (leave_queue t k) (A(l := remove1 t (A l)))" and "same_store k (leave_queue t k)"
proof -
  have h: "home (tcbs k t) = l" using tq.residence [OF ok l] by (simp add: resident_def)
  have d: "queue_ok (upd_lists (dlist_remove l t) k) (A(l := remove1 t (A l)))" if "\<not> is_ready_list l"
    using dequeue_ok [OF ok l(2) that] .
  have r: "queue_ok (readyQ_remove t k) (A(l := remove1 t (A l)))" if "l = Ready_list p" for p
    using readyQ_remove_ok [OF ok] l(2) that by simp
  have m: "queue_ok (update_wait_pri s k') B = queue_ok k' B" for s k' B
    by (rule queue_ok_same) simp
  show "queue_ok (leave_queue t k) (A(l := remove1 t (A l)))"
    using h d r by (cases "status (tcbs k t)")
      (auto simp: leave_queue_def home_def delayQ_remove_def semB_remove_def semC_remove_def semM_remove_def msgQ_remove_def m)
  show "same_store k (leave_queue t k)"
    by (cases "status (tcbs k t)")
      (auto simp: leave_queue_def delayQ_remove_def semB_remove_def semC_remove_def semM_remove_def msgQ_remove_def Let_def)
qed

text \<open>Giving the mutexes of a task away.\<close>

definition frees :: "kernel \<Rightarrow> (list_ref \<Rightarrow> addr list) \<Rightarrow> kernel \<Rightarrow> (list_ref \<Rightarrow> addr list) \<Rightarrow> bool" where
  "frees k A k' B \<longleftrightarrow> queue_ok k' B \<and> same_store k k' \<and> only_wakes A B"

lemma popped_wakes:
  assumes "queue_ok k A" and "task_list l" "\<not> is_ready_list l"
  shows "only_wakes A (popped l k' A)"
proof (cases "A l")
  case (Cons a xs)
  then show ?thesis
    using only_wakes_move [of a A l] assms dl.holds_distinct [OF queue_ok_D(1) [OF assms(1)], of l]
    by (simp add: popped_def)
qed (simp add: popped_def)

lemma free_semM_frees:
  assumes "queue_ok k A"
  shows "\<exists>k' B. free_semM t s k = Some (OS_STATUS_OK, k') \<and> frees k A k' B"
proof (cases "semM_owner (semMs k s) = Some t")
  case True
  let ?k = "upd_semM s (\<lambda>m. m\<lparr>take_count := 0\<rparr>) k" and ?l = "SemM_wait s"
  have q: "queue_ok ?k A" using assms queue_ok_same [of k ?k A] by simp
  obtain g where g: "free_semM t s k = Some (OS_STATUS_OK, g (wake_first ?l ?k))" "\<And>k'. same_queues k' (g k')"
    "\<And>k'. same_store k k' \<Longrightarrow> same_store k (g k')"
  proof (cases "fst (list_get ?l ?k)")
    case None
    then show ?thesis using True
      by (intro that [of "upd_semM s (\<lambda>m. m\<lparr>semM_owner := None\<rparr>)"]) (auto simp: free_semM_def wake_first_def split: prod.split)
  next
    case (Some a)
    then show ?thesis using True
      by (intro that [of "update_wait_pri s"]) (auto simp: free_semM_def wake_first_def split: prod.split)
  qed
  have "queue_ok (g (wake_first ?l ?k)) (popped ?l ?k A)"
    using wake_first_ok(1) [OF q] queue_ok_same [OF g(2)] by simp
  moreover have "same_store k (g (wake_first ?l ?k))"
    using g(3) same_store_trans [OF _ same_store_wake_first [of ?k ?l]] by simp
  ultimately show ?thesis using g(1) popped_wakes [OF q, of ?l ?k] by (auto simp: frees_def)
next
  case False
  then show ?thesis using assms by (auto simp: free_semM_def frees_def)
qed

lemma semM_free_frees:
  assumes ok: "queue_ok k A"
  shows "\<exists>k' B. semM_free t k = Some k' \<and> frees k A k' B"
proof -
  have "\<exists>k' B. dlist_each lmem SemM_list (free_semM t) k = Some (None, k') \<and> frees k A k' B"
  proof (rule each_object [where W = "frees k A", OF ok])
    show "frees k A k A" using ok by (simp add: frees_def)
  next
    fix x s B
    assume w: "frees k A s B"
    then obtain s' C where s': "free_semM t x s = Some (OS_STATUS_OK, s')" "frees s B s' C"
      using free_semM_frees [of s B t x] unfolding frees_def by blast
    then show "\<exists>s' C. free_semM t x s = Some (OS_STATUS_OK, s') \<and> frees k A s' C"
      using w same_store_trans only_wakes_trans unfolding frees_def by blast
  next
    fix s B
    assume "frees k A s B"
    then show "queue_ok s B \<and> B SemM_list = A SemM_list"
      using only_wakes_D(1) [of A B SemM_list] by (auto simp: frees_def)
  qed
  then show ?thesis by (auto simp: semM_free_def)
qed

section \<open>Creating and deleting\<close>

lemma tasks_ok_cong:
  assumes "tasks_ok k A" and "G_tcb k' = G_tcb k" "G_tcb_map k' = G_tcb_map k" "G_stack_map k' = G_stack_map k"
    and "\<And>i. i \<in> live k \<Longrightarrow> tcbs k' (tcb_at k i) = tcbs k (tcb_at k i)"
  shows "tasks_ok k' A"
proof -
  have "live k' = live k" using assms(3) by (simp add: live_def)
  then show ?thesis using assms by (simp add: tasks_ok_def)
qed

text \<open>The stores after a slot and its pages were taken.\<close>

lemma tasks_ok_take:
  assumes ok: "tasks_ok k A" and n: "n \<in> avail (G_tcb_map k)" and s: "run_at (G_stack_map k) (need_pages (stack_size t)) s"
    and t: "stack_start t = stack_top (s + need_pages (stack_size t))"
    and k': "G_tcb k' = G_tcb k" "length (G_tcb_map k') = 8" "avail (G_tcb_map k') = avail (G_tcb_map k) - {n}"
      "length (G_stack_map k') = 64" "avail (G_stack_map k') = avail (G_stack_map k) - {s..<s + need_pages (stack_size t)}"
      "\<And>a. a \<noteq> tcb_at k n \<Longrightarrow> tcbs k' a = tcbs k a" "pages (tcbs k' (tcb_at k n)) = pages t"
      "stack_ok (tcbs k' (tcb_at k n)) = stack_ok t"
    and B: "\<And>a l. a \<in> set (B l) \<Longrightarrow> a = tcb_at k n \<or> (\<exists>m. a \<in> set (A m))"
  shows "tasks_ok k' B"
proof -
  let ?need = "need_pages (stack_size t)"
  have e: "s + ?need \<le> 2048" "{s..<s + ?need} \<subseteq> avail (G_stack_map k)" using s by (auto simp: run_at_def)
  have p: "pages t = {s..<s + ?need}" "stack_ok t" using pages_eq [OF t] e(1) t by (auto simp: stack_ok_def)
  have n256: "n < 256" using n ok by (simp add: avail_def tasks_ok_def)
  have live: "live k' = insert n (live k)" using n n256 k'(3) by (auto simp: live_def)
  have old: "tcbs k' (tcb_at k i) = tcbs k (tcb_at k i)" if "i \<in> live k" for i
    using that n k'(6) [of "tcb_at k i"] by (auto simp: live_def)
  have sep: "pages (tcbs k (tcb_at k i)) \<inter> pages t = {}" if "i \<in> live k" for i
    using that ok e(2) unfolding tasks_ok_def p(1) by blast
  have "\<forall>i \<in> avail (G_tcb_map k'). nowhere (tcb_at k i) B"
    using ok B k'(3) unfolding tasks_ok_def by (metis Diff_iff add_left_cancel insertCI nat_mult_eq_cancel_disj zero_neq_numeral)
  moreover have "\<forall>i \<in> live k'. stack_ok (tcbs k' (tcb_at k i)) \<and> pages (tcbs k' (tcb_at k i)) \<inter> avail (G_stack_map k') = {}"
    using ok old p k'(5,7,8) unfolding tasks_ok_def live by auto
  moreover have "\<forall>i \<in> live k'. \<forall>j \<in> live k'. i \<noteq> j \<longrightarrow> pages (tcbs k' (tcb_at k i)) \<inter> pages (tcbs k' (tcb_at k j)) = {}"
    using ok old sep k'(7) unfolding tasks_ok_def live by (auto simp: Int_commute)
  ultimately show ?thesis using k'(1,2,4) by (simp add: tasks_ok_def)
qed

text \<open>... and after they were given back.\<close>

lemma tasks_ok_release:
  assumes ok: "tasks_ok k A" and n: "n \<in> live k" and B: "nowhere (tcb_at k n) B" "\<And>a l. a \<in> set (B l) \<Longrightarrow> \<exists>m. a \<in> set (A m)"
  shows "tasks_ok (release_tcb (tcb_at k n) (release_stack (tcb_at k n) k)) B"
    and "\<exists>tm sm. release_tcb (tcb_at k n) (release_stack (tcb_at k n) k) = k\<lparr>G_stack_map := sm, G_tcb_map := tm\<rparr> \<and>
      avail tm = insert n (avail (G_tcb_map k)) \<and> avail sm = avail (G_stack_map k) \<union> pages (tcbs k (tcb_at k n))"
proof -
  let ?t = "tcbs k (tcb_at k n)"
  have l: "length (G_tcb_map k) = 8" "length (G_stack_map k) = 64" using ok by (auto simp: tasks_ok_def)
  obtain e where e: "e \<le> 2048" "stack_start ?t = stack_top e" "need_pages (stack_size ?t) \<le> e"
    using ok n by (auto simp: tasks_ok_def stack_ok_def)
  obtain sm where sm: "release_stack (tcb_at k n) k = k\<lparr>G_stack_map := sm\<rparr>" "length sm = 64"
    "avail sm = avail (G_stack_map k) \<union> pages ?t"
    using release_stack_ok [OF l(2) refl e(2,3,1)] pages_eq [OF e(2,1)] by auto
  obtain tm where tm: "release_tcb (tcb_at k n) (k\<lparr>G_stack_map := sm\<rparr>) = k\<lparr>G_stack_map := sm, G_tcb_map := tm\<rparr>" "length tm = 8"
    "avail tm = insert n (avail (G_tcb_map k))"
    using release_tcb_ok [of n "k\<lparr>G_stack_map := sm\<rparr>"] n l(1) by (auto simp: live_def)
  show "\<exists>tm sm. release_tcb (tcb_at k n) (release_stack (tcb_at k n) k) = k\<lparr>G_stack_map := sm, G_tcb_map := tm\<rparr> \<and>
      avail tm = insert n (avail (G_tcb_map k)) \<and> avail sm = avail (G_stack_map k) \<union> pages ?t"
    using sm(1,3) tm(1,3) by auto
  have "live (k\<lparr>G_stack_map := sm, G_tcb_map := tm\<rparr>) = live k - {n}" using tm(3) by (auto simp: live_def)
  moreover have "\<forall>i \<in> avail tm. nowhere (tcb_at k i) B"
  proof -
    have "\<forall>i \<in> avail (G_tcb_map k). nowhere (tcb_at k i) A" using ok by (simp add: tasks_ok_def)
    then have "\<forall>i \<in> avail (G_tcb_map k). nowhere (tcb_at k i) B" using B(2) by metis
    then show ?thesis using B(1) tm(3) by simp
  qed
  moreover have "\<forall>i \<in> live k - {n}. pages (tcbs k (tcb_at k i)) \<inter> avail sm = {}"
  proof
    fix i assume i: "i \<in> live k - {n}"
    then have "pages (tcbs k (tcb_at k i)) \<inter> avail (G_stack_map k) = {}" "pages (tcbs k (tcb_at k i)) \<inter> pages ?t = {}"
      using ok n by (simp_all add: tasks_ok_def)
    then show "pages (tcbs k (tcb_at k i)) \<inter> avail sm = {}" unfolding sm(3) by blast
  qed
  ultimately show "tasks_ok (release_tcb (tcb_at k n) (release_stack (tcb_at k n) k)) B"
    using ok sm(1,2) tm(1,2) by (simp add: tasks_ok_def)
qed

lemma upd_bytes_sel [simp]:
  "G_tcb (upd_bytes g k) = G_tcb k" "G_tcb_map (upd_bytes g k) = G_tcb_map k" "G_stack_map (upd_bytes g k) = G_stack_map k"
  "G_Task_Num (upd_bytes g k) = G_Task_Num k" "G_readyQ (upd_bytes g k) = G_readyQ k"
  by (simp_all add: upd_bytes_def)

lemma new_task_kernel:
  assumes ok: "kernel_ok k A" and new: "nowhere t A"
    and k': "lmem k' = lmem k" "G_readyQ k' = G_readyQ k" "tcbs k' = (tcbs k)(t := T)" "G_p_current_tcb k' = G_p_current_tcb k"
  shows "kernel_ok k' A"
    and "unat (task_priority T) < PRIORITY_NUM_MAX \<Longrightarrow>
      kernel_ok (readyQ_put t k') (A(Ready_list (unat (task_priority T)) := A (Ready_list (unat (task_priority T))) @ [t]))"
proof -
  have "queue_ok (upd_tcb t (\<lambda>_. T) k) A" using ok new by (intro upd_tcb_ok) (simp_all add: kernel_ok_def)
  moreover have "same_queues (upd_tcb t (\<lambda>_. T) k) k'" using k' by (simp add: same_queues_def)
  ultimately have q: "queue_ok k' A" using queue_ok_same by blast
  then show "kernel_ok k' A" using ok k'(4) by (simp add: kernel_ok_def running_def)
  assume "unat (task_priority T) < 256"
  then have "queue_ok (readyQ_put t k') (A(Ready_list (unat (task_priority T)) := A (Ready_list (unat (task_priority T))) @ [t]))"
    using readyQ_put_ok [OF q new] k'(3) by simp
  moreover have "G_p_current_tcb (readyQ_put t k') = G_p_current_tcb k"
    using readyQ_put_objects [of k' t] k'(4) by (simp add: same_objects_def)
  ultimately show "kernel_ok (readyQ_put t k') (A(Ready_list (unat (task_priority T)) := A (Ready_list (unat (task_priority T))) @ [t]))"
    using ok by (auto simp: kernel_ok_def running_def) metis
qed

text \<open>The new TCB as \<^verbatim>\<open>task_create\<close> leaves it.\<close>

definition new_tcb :: "uint8 list \<Rightarrow> uint32 \<Rightarrow> uint32 \<Rightarrow> uint32 \<Rightarrow> uint32 \<Rightarrow> uint32 \<Rightarrow> OS_TCB \<Rightarrow> OS_TCB" where
  "new_tcb nm sz prty entry a1 a2 t = t\<lparr>task_name := nm, task_entry := entry, stack_size := sz, task_priority := prty,
     origin_pri := prty, arg1 := a1, arg2 := a2, status := TASK_STATUS_READY, pend_obj := None\<rparr>"

text \<open>From \<open>k\<close> to \<open>k'\<close>, slot \<open>n\<close> and a stack of \<open>sz\<close> bytes on free pages were taken, the stack was filled with
  \<^verbatim>\<open>0xcc\<close> and then given to \<open>stack_init\<close>; no other TCB, page or byte has changed.\<close>

definition takes_store :: "(addr \<Rightarrow> uint32 \<Rightarrow> cmem \<Rightarrow> uint32 \<times> cmem) \<Rightarrow> kernel \<Rightarrow> nat \<Rightarrow> uint32 \<Rightarrow> kernel \<Rightarrow> bool" where
  "takes_store stack_init k n sz k' \<longleftrightarrow>
     (let t = tcb_at k n; T = tcbs k' t; top = unat (stack_start T)
      in avail (G_tcb_map k') = avail (G_tcb_map k) - {n} \<and> (\<forall>a. a \<noteq> t \<longrightarrow> tcbs k' a = tcbs k a) \<and>
         stack_size T = sz \<and> stack_ok T \<and> pages T \<subseteq> avail (G_stack_map k) \<and>
         avail (G_stack_map k') = avail (G_stack_map k) - pages T \<and>
         (sp T, bytes (kheap k')) = stack_init t (stack_start T) (splat (top - unat sz) (unat sz) 0xcc (bytes (kheap k))))"

lemma task_create_ok:
  assumes ok: "kernel_ok k A" "tasks_ok k A" and prty: "unat prty < PRIORITY_NUM_MAX" and sz: "unat sz \<le> 0x800000"
  shows "case task_create stack_init nm sz prty entry a1 a2 k of
       (None, k') \<Rightarrow> kernel_ok k' A \<and> tasks_ok k' A \<and> live k' = live k \<and> G_tcb k' = G_tcb k \<and>
          (avail (G_tcb_map k) = {} \<and> k' = k \<or>
           (\<nexists>s. run_at (G_stack_map k) (need_pages (align_up sz)) s) \<and>
           (\<exists>n \<in> avail (G_tcb_map k). \<exists>T. k' = k\<lparr>tcbs := (tcbs k)(tcb_at k n := T)\<rparr>))
     | (Some t, k') \<Rightarrow> \<exists>n \<in> avail (G_tcb_map k). t = tcb_at k n \<and>
          kernel_ok k' (A(Ready_list (unat prty) := A (Ready_list (unat prty)) @ [t])) \<and>
          tasks_ok k' (A(Ready_list (unat prty) := A (Ready_list (unat prty)) @ [t])) \<and>
          live k' = insert n (live k) \<and> G_Task_Num k' = G_Task_Num k + 1 \<and> G_p_current_tcb k' = G_p_current_tcb k \<and> G_tcb k' = G_tcb k \<and>
          task_priority (tcbs k' t) = prty \<and> task_entry (tcbs k' t) = entry \<and> arg1 (tcbs k' t) = a1 \<and> arg2 (tcbs k' t) = a2 \<and>
          takes_store stack_init k n (align_up sz) k'"
proof -
  note q = ok(1) [unfolded kernel_ok_def]
  have l: "length (G_tcb_map k) = 8" "length (G_stack_map k) = 64" using ok(2) by (auto simp: tasks_ok_def)
  show ?thesis
  proof (cases "avail (G_tcb_map k) = {}")
    case True
    then have "task_create stack_init nm sz prty entry a1 a2 k = (None, k)"
      using alloc_tcb_ok [OF l(1)] by (simp add: task_create_def)
    with True ok show ?thesis by simp
  next
    case False
    define n where "n = (LEAST n. n \<in> avail (G_tcb_map k))"
    define t where "t = tcb_at k n"
    obtain m where m: "alloc_tcb k = (Some t, k\<lparr>G_tcb_map := m\<rparr>)" "length m = 8"
      "avail m = avail (G_tcb_map k) - {n}" "n \<in> avail (G_tcb_map k)"
      using alloc_tcb_ok [OF l(1)] False by (auto simp: n_def t_def Let_def)
    have new: "nowhere t A" using ok(2) m(4) by (auto simp: tasks_ok_def t_def)
    let ?g = "new_tcb (name_field t nm (k\<lparr>G_tcb_map := m\<rparr>)) (align_up sz) prty entry a1 a2"
    let ?k2 = "upd_tcb t ?g (k\<lparr>G_tcb_map := m\<rparr>)" and ?n = "need_pages (align_up sz)"
    have eq: "task_create stack_init nm sz prty entry a1 a2 k =
      (case alloc_stack (align_up sz) ?k2 of (pStack, k3) \<Rightarrow>
         if pStack = 0 then (None, release_tcb t k3)
         else let k4 = upd_tcb t (\<lambda>t. t\<lparr>stack_start := pStack\<rparr>) k3;
                  (sp0, mm) = stack_init t pStack (bytes (kheap k4));
                  k5 = upd_tcb t (\<lambda>t. t\<lparr>sp := sp0\<rparr>) (upd_bytes (\<lambda>_. mm) k4);
                  k6 = readyQ_put t k5
              in (Some t, k6\<lparr>G_Task_Num := G_Task_Num k6 + 1\<rparr>))"
      using m(1) by (simp add: task_create_def new_tcb_def [abs_def] Let_def)
    have z: "unat (align_up sz) \<le> 0x800000" using sz by (simp add: align_up_nat)
    have st: "length (G_stack_map ?k2) = 64" using l(2) by simp
    show ?thesis
    proof (cases "\<exists>s. run_at (G_stack_map k) ?n s")
      case False
      then have a: "alloc_stack (align_up sz) ?k2 = (0, ?k2)" using alloc_stack_ok [OF st z] by simp
      have n: "n < 32 * length (G_tcb_map ?k2)" using m(2,4) l(1) by (simp add: avail_def)
      obtain m' where m': "release_tcb t ?k2 = ?k2\<lparr>G_tcb_map := m'\<rparr>" "length m' = length (G_tcb_map ?k2)" "avail m' = insert n (avail m)"
        using release_tcb_ok [OF n] by (auto simp: t_def)
      have "m' = G_tcb_map k" using m' m l(1) by (intro avail_eqI) auto
      moreover have "kernel_ok (?k2\<lparr>G_tcb_map := m'\<rparr>) A" by (rule new_task_kernel(1) [OF ok(1) new]) simp_all
      moreover have "tasks_ok (?k2\<lparr>G_tcb_map := G_tcb_map k\<rparr>) A"
        by (rule tasks_ok_cong [OF ok(2)]) (use m(4) in \<open>auto simp: live_def t_def\<close>)
      moreover have "\<exists>n \<in> avail (G_tcb_map k). \<exists>T. ?k2\<lparr>G_tcb_map := G_tcb_map k\<rparr> = k\<lparr>tcbs := (tcbs k)(tcb_at k n := T)\<rparr>"
        by (rule bexI [OF _ m(4)], rule exI [of _ "?g (tcbs k t)"]) (simp add: upd_tcb_def t_def)
      ultimately show ?thesis using False by (simp add: eq a m'(1)) (simp add: live_def)
    next
      case True
      define s where "s = (LEAST s. run_at (G_stack_map k) ?n s)"
      obtain sm where sm: "alloc_stack (align_up sz) ?k2 = (stack_top (s + ?n),
          upd_bytes (splat (unat (stack_top (s + ?n)) - unat (align_up sz)) (unat (align_up sz)) 0xcc) ?k2\<lparr>G_stack_map := sm\<rparr>)"
        "length sm = 64" "avail sm = avail (G_stack_map k) - {s..<s + ?n}" "run_at (G_stack_map k) ?n s"
        using alloc_stack_ok [OF st z] True by (auto simp: s_def Let_def)
      have "unat (stack_top (s + ?n)) \<noteq> 0" using unat_stack_top [of "s + ?n"] sm(4) by (simp add: run_at_def)
      then have p: "stack_top (s + ?n) \<noteq> 0" by auto
      define k3 where "k3 = snd (alloc_stack (align_up sz) ?k2)"
      obtain sp0 mm where si: "stack_init t (stack_top (s + ?n)) (bytes (kheap k3)) = (sp0, mm)" by fastforce
      define k5 where "k5 = upd_tcb t (\<lambda>t. t\<lparr>sp := sp0\<rparr>) (upd_bytes (\<lambda>_. mm) (upd_tcb t (\<lambda>t. t\<lparr>stack_start := stack_top (s + ?n)\<rparr>) k3))"
      define T where "T = tcbs k5 t"
      have T: "task_priority T = prty" "task_entry T = entry" "arg1 T = a1" "arg2 T = a2" "stack_size T = align_up sz"
        "stack_start T = stack_top (s + ?n)"
        by (simp_all add: T_def k5_def k3_def sm(1) new_tcb_def)
      have k5: "lmem k5 = lmem k" "G_readyQ k5 = G_readyQ k" "tcbs k5 = (tcbs k)(t := T)" "G_p_current_tcb k5 = G_p_current_tcb k"
        "G_tcb k5 = G_tcb k" "G_tcb_map k5 = m" "G_stack_map k5 = sm" "G_Task_Num k5 = G_Task_Num k"
        by (simp_all add: T_def k5_def k3_def sm(1))
      have eq': "task_create stack_init nm sz prty entry a1 a2 k =
          (Some t, (readyQ_put t k5)\<lparr>G_Task_Num := G_Task_Num (readyQ_put t k5) + 1\<rparr>)"
        using eq p si by (simp add: k3_def sm(1) k5_def Let_def)
      let ?B = "A(Ready_list (unat prty) := A (Ready_list (unat prty)) @ [t])"
      define k6 where "k6 = (readyQ_put t k5)\<lparr>G_Task_Num := G_Task_Num (readyQ_put t k5) + 1\<rparr>"
      have ss: "same_store k5 (readyQ_put t k5)" by simp
      have "kernel_ok (readyQ_put t k5) ?B" using new_task_kernel(2) [OF ok(1) new k5(1-4)] T(1) prty by simp
      then have "kernel_ok k6 ?B" using kernel_ok_same [of "readyQ_put t k5" k6 ?B] by (simp add: k6_def)
      moreover have "tasks_ok k6 ?B"
      proof (rule tasks_ok_take [where t = T and s = s, OF ok(2) m(4)])
        show "run_at (G_stack_map k) (need_pages (stack_size T)) s" using sm(4) T(5) by simp
        show "pages (tcbs k6 (tcb_at k n)) = pages T" "stack_ok (tcbs k6 (tcb_at k n)) = stack_ok T"
          using pages_cong [of "tcbs k6 t" T] by (simp_all add: k6_def readyQ_put_tcbs k5(3) t_def)
      qed (use ss k5 T m sm in \<open>auto simp: k6_def same_store_def readyQ_put_tcbs t_def split: if_splits\<close>)
      moreover have "live k6 = insert n (live k)"
        using m(3,4) l(1) ss k5(6) by (auto simp: live_def k6_def same_store_def avail_def)
      moreover have "takes_store stack_init k n (align_up sz) k6"
      proof -
        have top: "stack_start (tcbs k6 t) = stack_top (s + ?n)" "stack_size (tcbs k6 t) = align_up sz" "sp (tcbs k6 t) = sp0"
          using T by (simp_all add: k6_def readyQ_put_tcbs k5(3)) (simp add: T_def k5_def)
        have e: "s + ?n \<le> 2048" "{s..<s + ?n} \<subseteq> avail (G_stack_map k)" using sm(4) by (auto simp: run_at_def)
        have p: "pages (tcbs k6 t) = {s..<s + ?n}" "stack_ok (tcbs k6 t)"
          using pages_eq [OF top(1) e(1)] top e(1) by (auto simp: stack_ok_def)
        have "bytes (kheap k3) = splat (unat (stack_top (s + ?n)) - unat (align_up sz)) (unat (align_up sz)) 0xcc (bytes (kheap k))"
          by (simp add: k3_def sm(1))
        moreover have "bytes (kheap k6) = mm" using ss by (simp add: k6_def same_store_def) (simp add: k5_def)
        moreover have "G_tcb_map k6 = m" "G_stack_map k6 = sm" using ss k5 by (auto simp: k6_def same_store_def)
        moreover have "tcbs k6 a = tcbs k a" if "a \<noteq> t" for a using that k5(3) by (simp add: k6_def readyQ_put_tcbs)
        ultimately show ?thesis using si sm(3) m(3) e(2) p
          by (simp add: takes_store_def Let_def t_def [symmetric] top)
      qed
      ultimately show ?thesis using m(4) ss k5 T unfolding eq' k6_def [symmetric]
        by (auto simp: k6_def same_store_def readyQ_put_tcbs t_def intro!: bexI [of _ n])
    qed
  qed
qed

lemma kernel_ok_maps:
  "kernel_ok (k\<lparr>G_stack_map := sm, G_tcb_map := tm, G_Task_Num := n\<rparr>) A = kernel_ok k A"
  by (simp add: kernel_ok_def running_def queue_ok_def)

lemma task_delete_ok:
  assumes ok: "kernel_ok k A" "tasks_ok k A" and n: "n \<in> live k" and t: "t = tcb_at k n"
    and l: "task_list l" "t \<in> set (A l)" and c: "G_p_current_tcb k \<noteq> Some t"
  shows "\<exists>k' B. task_delete t k = Some (OS_STATUS_OK, k') \<and> kernel_ok k' B \<and> tasks_ok k' B \<and> nowhere t B \<and>
     only_wakes (A(l := remove1 t (A l))) B \<and> live k' = live k - {n} \<and> G_tcb k' = G_tcb k \<and> G_Task_Num k' = G_Task_Num k - 1 \<and>
     avail (G_tcb_map k') = insert n (avail (G_tcb_map k)) \<and>
     avail (G_stack_map k') = avail (G_stack_map k) \<union> pages (tcbs k t) \<and> kheap k' = kheap k"
proof -
  define A1 where "A1 = A(l := remove1 t (A l))"
  have q: "queue_ok k A" using ok(1) by (simp add: kernel_ok_def)
  have k1: "queue_ok (leave_queue t k) A1" "same_store k (leave_queue t k)"
    unfolding A1_def by (rule leave_queue_ok [OF q l])+
  obtain k2 B where k2: "semM_free t (leave_queue t k) = Some k2" "frees (leave_queue t k) A1 k2 B"
    using semM_free_frees [OF k1(1)] by blast
  have ss: "same_store k k2" using k1(2) k2(2) same_store_trans by (auto simp: frees_def)
  have w: "only_wakes A1 B" "queue_ok k2 B" using k2(2) by (auto simp: frees_def)
  have new: "nowhere t A1" unfolding A1_def by (rule dequeued_nowhere [OF q l(2)])
  then have new': "nowhere t B" using w(1) unfolding only_wakes_def by metis
  have sub: "\<exists>m. a \<in> set (A m)" if "a \<in> set (B m)" for a m
  proof -
    have "\<exists>m. a \<in> set (A1 m)" using that w(1) unfolding only_wakes_def by metis
    then show ?thesis unfolding A1_def using notin_set_remove1 by (metis fun_upd_apply)
  qed
  have "tasks_ok k2 A" using tasks_ok_same [OF ok(2) ss] by blast
  moreover have "n \<in> live k2" "t = tcb_at k2 n" using n t ss by (auto simp: live_def same_store_def)
  ultimately have tk: "tasks_ok (release_tcb t (release_stack t k2)) B"
    "\<exists>tm sm. release_tcb t (release_stack t k2) = k2\<lparr>G_stack_map := sm, G_tcb_map := tm\<rparr> \<and>
      avail tm = insert n (avail (G_tcb_map k2)) \<and> avail sm = avail (G_stack_map k2) \<union> pages (tcbs k2 t)"
    using tasks_ok_release [of k2 A n B] new' sub by auto
  then obtain tm sm where r: "release_tcb t (release_stack t k2) = k2\<lparr>G_stack_map := sm, G_tcb_map := tm\<rparr>"
    and given: "avail tm = insert n (avail (G_tcb_map k2))" "avail sm = avail (G_stack_map k2) \<union> pages (tcbs k2 t)" by blast
  define k' where "k' = k2\<lparr>G_stack_map := sm, G_tcb_map := tm, G_Task_Num := G_Task_Num k2 - 1\<rparr>"
  have "running k2 B"
    unfolding running_def
  proof (intro allI impI)
    fix c' assume "G_p_current_tcb k2 = Some c'"
    then have c': "G_p_current_tcb k = Some c'" using ss by (simp add: same_store_def)
    then obtain p where "c' \<in> set (A (Ready_list p))" using ok(1) by (auto simp: kernel_ok_def running_def)
    moreover have "c' \<noteq> t" using c c' by auto
    ultimately have "c' \<in> set (A1 (Ready_list p))" by (auto simp: A1_def)
    then show "\<exists>p. c' \<in> set (B (Ready_list p))" using only_wakes_D(2) [OF w(1)] by blast
  qed
  then have "kernel_ok k' B" using w(2) by (simp add: k'_def kernel_ok_maps) (simp add: kernel_ok_def)
  moreover have "tasks_ok k' B" using tk(1) r tasks_ok_cong [of "k2\<lparr>G_stack_map := sm, G_tcb_map := tm\<rparr>" B k'] by (simp add: k'_def)
  moreover have "task_delete t k = Some (OS_STATUS_OK, k')" by (simp add: task_delete_def k2(1) r k'_def Let_def)
  moreover have maps: "avail (G_tcb_map k') = insert n (avail (G_tcb_map k))"
    "avail (G_stack_map k') = avail (G_stack_map k) \<union> pages (tcbs k t)" "kheap k' = kheap k"
    using given ss pages_cong [of "tcbs k2 t" "tcbs k t"] by (simp_all add: k'_def same_store_def)
  moreover have "live k' = live k - {n}" using maps(1) by (auto simp: live_def)
  moreover have "G_tcb k' = G_tcb k" using ss by (simp add: k'_def same_store_def)
  moreover have "G_Task_Num k' = G_Task_Num k - 1" using ss by (simp add: k'_def same_store_def)
  ultimately show ?thesis using new' w(1) unfolding A1_def by blast
qed

lemma task_entry_exit_ok:
  assumes ok: "kernel_ok k A" "tasks_ok k A" and n: "n \<in> live k" and c: "G_p_current_tcb k = Some (tcb_at k n)"
  defines "B \<equiv> A(Ready_list (prio (tcb_at k n) k) := remove1 (tcb_at k n) (A (Ready_list (prio (tcb_at k n) k))))"
  shows "kernel_ok (task_entry_exit (tcb_at k n) k) B" "tasks_ok (task_entry_exit (tcb_at k n) k) B" "nowhere (tcb_at k n) B"
    "G_p_current_tcb (task_entry_exit (tcb_at k n) k) = first (schedule B)"
    "live (task_entry_exit (tcb_at k n) k) = live k - {n}" "G_tcb (task_entry_exit (tcb_at k n) k) = G_tcb k"
proof -
  let ?t = "tcb_at k n"
  obtain p where p: "?t \<in> set (A (Ready_list p))" "prio ?t k = p" using current_ready [OF ok(1) c] .
  have q: "queue_ok k A" using ok(1) by (simp add: kernel_ok_def)
  show new: "nowhere ?t B" using dequeued_nowhere [OF q p(1)] unfolding B_def p(2) .
  have sub: "\<exists>m. a \<in> set (A m)" if "a \<in> set (B m)" for a m
    using that notin_set_remove1 unfolding B_def by (metis fun_upd_apply)
  obtain tm sm where r: "release_tcb ?t (release_stack ?t k) = k\<lparr>G_stack_map := sm, G_tcb_map := tm\<rparr>"
    and given: "avail tm = insert n (avail (G_tcb_map k))"
    using tasks_ok_release(2) [OF ok(2) n new] sub by blast
  have "tasks_ok (release_tcb ?t (release_stack ?t k)) B" by (rule tasks_ok_release(1) [OF ok(2) n new]) (rule sub)
  then have tk: "tasks_ok (k\<lparr>G_stack_map := sm, G_tcb_map := tm\<rparr>) B" by (simp only: r)
  define k2 where "k2 = k\<lparr>G_stack_map := sm, G_tcb_map := tm, G_Task_Num := G_Task_Num k - 1\<rparr>"
  have e: "task_entry_exit ?t k = LOAD_HIGHEST_TASK (readyQ_remove ?t k2)"
    using c by (simp add: task_entry_exit_def r k2_def Let_def cur_def)
  have "queue_ok k2 A" using queue_ok_same [of k k2 A] q by (simp add: k2_def same_queues_def)
  then have q2: "queue_ok (readyQ_remove ?t k2) B" using readyQ_remove_ok p unfolding B_def by blast
  have ss: "same_store k2 (readyQ_remove ?t k2)" by simp
  show "G_tcb (task_entry_exit ?t k) = G_tcb k" using ss by (simp add: e LOAD_HIGHEST_TASK_def same_store_def k2_def)
  show "live (task_entry_exit ?t k) = live k - {n}"
    using ss given by (auto simp: e LOAD_HIGHEST_TASK_def same_store_def k2_def live_def)
  show "kernel_ok (task_entry_exit ?t k) B" using switch_ok [OF q2] by (simp add: e CONTEXT_SWITCH_def)
  show "G_p_current_tcb (task_entry_exit ?t k) = first (schedule B)" using highest_first [OF q2] by (simp add: e)
  have "tasks_ok k2 B" using tasks_ok_cong [OF tk, of k2] by (simp add: k2_def)
  then have "tasks_ok (readyQ_remove ?t k2) B" using tasks_ok_same [of k2 B "readyQ_remove ?t k2" B] by auto
  then show "tasks_ok (task_entry_exit ?t k) B"
    using tasks_ok_cong [of "readyQ_remove ?t k2" B] by (simp add: e LOAD_HIGHEST_TASK_def)
qed

text \<open>The name of a new task: at most 31 characters of the given string, padded with NULs; the
  last byte of the field is not written.\<close>

lemma name_field_cstr:
  assumes "cstr (bytes (kheap k)) nm xs" and "nm + length xs < t + 12 \<or> t + 44 \<le> nm"
    and "length (task_name (tcbs k t)) = 32"
  shows "name_field t nm k = take 31 (xs @ replicate 31 0) @ [task_name (tcbs k t) ! 31]"
proof -
  let ?m = "put_bytes (t + 12) (task_name (tcbs k t)) (bytes (kheap k))"
  have "cstr ?m nm xs" using assms by (subst cstr_frame [of _ _ _ "bytes (kheap k)"]) (auto simp: put_bytes_other)
  then have "snd (strncpy (t + 12) nm 31 ?m) = put_bytes (t + 12) (take 31 (xs @ replicate 31 0)) ?m"
    using strncpy_loop_cstr [of ?m nm xs "t + 12" 31] assms(2) by (auto simp: strncpy_def)
  then have n: "name_field t nm k = map (\<lambda>i. put_bytes (t + 12) (take 31 (xs @ replicate 31 0)) ?m (t + 12 + i)) [0..<32]"
    by (simp only: name_field_def Let_def)
  show ?thesis unfolding n
  proof (rule nth_equalityI)
    fix i assume "i < length (map (\<lambda>i. put_bytes (t + 12) (take 31 (xs @ replicate 31 0)) ?m (t + 12 + i)) [0..<32])"
    then have "i < 31 \<or> i = 31" by auto
    then show "map (\<lambda>i. put_bytes (t + 12) (take 31 (xs @ replicate 31 0)) ?m (t + 12 + i)) [0..<32] ! i =
        (take 31 (xs @ replicate 31 0) @ [task_name (tcbs k t) ! 31]) ! i"
      using assms(3) by (auto simp: put_bytes_def nth_append)
  qed simp
qed

section \<open>What the task module does\<close>

text \<open>C16: with a priority below 256 and a stack of at most 8 MB, \<^verbatim>\<open>task_create\<close> either fails or
  returns a new task. It fails for want of a TCB and changes nothing, or for want of stack pages and
  changes nothing but the contents of a TCB that was free and stays free. The task it returns is in a slot that
  was free, with its fields set, at the end of the ready list of its priority, on pages that were free;
  exactly this slot and these pages are taken from the stores, the stack is filled with \<^verbatim>\<open>0xcc\<close> and handed to
  \<open>stack_init\<close>, no other TCB or byte changes, and the invariants of queues and stores hold after.\<close>

theorem task_create_safe:
  assumes "kernel_ok k A" and "tasks_ok k A" and "unat prty < PRIORITY_NUM_MAX" and "unat sz \<le> 0x800000"
  shows "case task_create stack_init nm sz prty entry a1 a2 k of
       (None, k') \<Rightarrow> kernel_ok k' A \<and> tasks_ok k' A \<and> live k' = live k \<and> G_tcb k' = G_tcb k \<and>
          (avail (G_tcb_map k) = {} \<and> k' = k \<or>
           (\<nexists>s. run_at (G_stack_map k) (need_pages (align_up sz)) s) \<and>
           (\<exists>n \<in> avail (G_tcb_map k). \<exists>T. k' = k\<lparr>tcbs := (tcbs k)(tcb_at k n := T)\<rparr>))
     | (Some t, k') \<Rightarrow> \<exists>n \<in> avail (G_tcb_map k). t = tcb_at k n \<and>
          kernel_ok k' (A(Ready_list (unat prty) := A (Ready_list (unat prty)) @ [t])) \<and>
          tasks_ok k' (A(Ready_list (unat prty) := A (Ready_list (unat prty)) @ [t])) \<and>
          live k' = insert n (live k) \<and> G_Task_Num k' = G_Task_Num k + 1 \<and> G_p_current_tcb k' = G_p_current_tcb k \<and> G_tcb k' = G_tcb k \<and>
          task_priority (tcbs k' t) = prty \<and> task_entry (tcbs k' t) = entry \<and> arg1 (tcbs k' t) = a1 \<and> arg2 (tcbs k' t) = a2 \<and>
          takes_store stack_init k n (align_up sz) k'"
  using task_create_ok [OF assms] .

text \<open>The demo kernel with all TCBs from address 1000 on and all pages available.\<close>

definition task_demo :: kernel where
  "task_demo = demo\<lparr>G_tcb := 1000\<rparr>"

lemma task_demo_maps: "G_tcb_map task_demo = replicate 8 0xffffffff" "G_stack_map task_demo = replicate 64 0xffffffff"
proof -
  have "same_objects empty_kernel (readyQ_put 200 (readyQ_put 100 empty_kernel))"
    using same_objects_trans [OF readyQ_put_objects readyQ_put_objects] .
  then show "G_tcb_map task_demo = replicate 8 0xffffffff" "G_stack_map task_demo = replicate 64 0xffffffff"
    by (simp_all add: task_demo_def demo_def same_objects_def empty_kernel_def)
qed

lemma task_demo_ok: "kernel_ok task_demo demo_queues" "tasks_ok task_demo demo_queues"
proof -
  have s: "same_queues demo task_demo" by (simp add: same_queues_def task_demo_def)
  then show "kernel_ok task_demo demo_queues" using demo_ok kernel_ok_same [OF s] by (simp add: task_demo_def)
  have "live task_demo = {}" using avail_full [of 8] by (auto simp: live_def task_demo_maps)
  then show "tasks_ok task_demo demo_queues"
    by (simp add: tasks_ok_def task_demo_maps) (simp add: demo_queues_def task_demo_def)
qed

lemma task_demo_room: "avail (G_tcb_map task_demo) \<noteq> {}" "run_at (G_stack_map task_demo) (need_pages (align_up 4000)) 0"
proof -
  have "unat (align_up 4000) = 4000" by (simp add: align_up_nat)
  then have "need_pages (align_up 4000) = 1" by (simp add: need_pages_eq)
  then show "run_at (G_stack_map task_demo) (need_pages (align_up 4000)) 0"
    using avail_full [of 64] by (auto simp: task_demo_maps run_at_def)
  show "avail (G_tcb_map task_demo) \<noteq> {}" using avail_full [of 8] by (simp add: task_demo_maps lessThan_empty_iff)
qed

theorem task_create_safe_witness:
  "\<exists>t k'. task_create (\<lambda>t p m. (p - 64, m)) 0 4000 7 0x1000 1 2 task_demo = (Some t, k') \<and> task_priority (tcbs k' t) = 7"
  using task_create_safe [where stack_init = "\<lambda>t p m. (p - 64, m)" and prty = 7 and sz = 4000 and nm = 0 and
    entry = "0x1000" and ?a1.0 = 1 and ?a2.0 = 2, OF task_demo_ok] task_demo_room
  by (auto split: prod.splits option.splits)



end
