(* ===== verification/Tick.thy ===== *)
theory Tick
  imports SemB SemC SemM MsgQ
begin

text \<open>
  The clock (\<^verbatim>\<open>src/tick.c\<close>): a tick counts down every waiting list of the system and then
  sends the running task to the end of its ready list; the timer interrupt
  (\<^verbatim>\<open>src/bsp/timer_asm.S\<close>) does this and dispatches the highest task.
\<close>

definition tick_announce :: "kernel \<Rightarrow> kernel option" where
  "tick_announce k = do {
     k1 \<leftarrow> semB_decrease (k\<lparr>G_ticks := G_ticks k + 1\<rparr>);
     k2 \<leftarrow> semC_decrease k1;
     k3 \<leftarrow> semM_decrease k2;
     k4 \<leftarrow> msgQ_decrease k3;
     k5 \<leftarrow> delayQ_decrease k4;
     let k6 = readyQ_remove (cur k5) k5;
     Some (readyQ_put (cur k6) k6)
   }"

definition tick_get :: "kernel \<Rightarrow> int" where
  "tick_get k = sint (G_ticks k)"

text \<open>The end of the timer interrupt.\<close>

definition timer_isr :: "kernel \<Rightarrow> kernel option" where
  "timer_isr k = map_option LOAD_HIGHEST_TASK (tick_announce k)"

lemma decrease_all:
  assumes "queue_ok k A"
  shows "\<exists>k' B. semB_decrease k = Some k' \<and> wakes k A k' B" "\<exists>k' B. semC_decrease k = Some k' \<and> wakes k A k' B"
    "\<exists>k' B. semM_decrease k = Some k' \<and> wakes k A k' B" "\<exists>k' B. msgQ_decrease k = Some k' \<and> wakes k A k' B"
    "\<exists>k' B. delayQ_decrease k = Some k' \<and> wakes k A k' B"
  using kB.decrease_wakes [OF assms] kC.decrease_wakes [OF assms] kM.decrease_wakes [OF assms] kQ.decrease_wakes [OF assms]
    delayQ_decrease_wakes [OF assms]
  by (auto simp: semB_decrease_def semC_decrease_def semM_decrease_def msgQ_decrease_def)

lemma wakes_bind:
  assumes "\<exists>k' B. f k = Some k' \<and> wakes k A k' B" and "\<And>k' B. wakes k A k' B \<Longrightarrow> \<exists>k'' C. g k' = Some k'' \<and> wakes k' B k'' C"
  shows "\<exists>k' B. Option.bind (f k) g = Some k' \<and> wakes k A k' B"
  using assms wakes_trans by (metis bind.bind_lunit)

lemma tick_announce_ok:
  assumes ok: "kernel_ok k A" and c: "G_p_current_tcb k = Some c"
  shows "\<exists>k' B. tick_announce k = Some k' \<and> only_wakes A B \<and> same_objects (k\<lparr>G_ticks := G_ticks k + 1\<rparr>) k' \<and> same_stacks k k' \<and>
     kernel_ok k' (B(Ready_list (prio c k) := remove1 c (B (Ready_list (prio c k))) @ [c]))"
proof -
  let ?k = "k\<lparr>G_ticks := G_ticks k + 1\<rparr>"
  define f where "f k = Option.bind (semB_decrease k) (\<lambda>k. Option.bind (semC_decrease k) (\<lambda>k. Option.bind (semM_decrease k)
    (\<lambda>k. Option.bind (msgQ_decrease k) delayQ_decrease)))" for k
  have "queue_ok ?k A" using ok queue_ok_same [of k ?k A] by (simp add: kernel_ok_def)
  then have "\<exists>k' B. f ?k = Some k' \<and> wakes ?k A k' B"
    unfolding f_def by (intro wakes_bind decrease_all) (auto simp: wakes_def)
  then obtain k5 B where k5: "f ?k = Some k5" "wakes ?k A k5 B" by blast
  have q: "queue_ok k5 B" and w: "only_wakes A B" and s: "same_objects ?k k5" and ss: "same_stacks ?k k5"
    using k5(2) by (auto simp: wakes_def)
  obtain p where p: "c \<in> set (A (Ready_list p))" "prio c k = p" using current_ready [OF ok c] .
  have pB: "c \<in> set (B (Ready_list p))" using only_wakes_D(2) [OF w p(1)] .
  have c5: "G_p_current_tcb k5 = Some c" using s c by (simp add: same_objects_def)
  let ?k6 = "readyQ_put c (readyQ_remove c k5)"
  have s6: "same_objects k5 ?k6" using same_objects_trans [OF readyQ_remove_objects readyQ_put_objects] .
  have "tick_announce k = Some ?k6"
  proof -
    have "cur k5 = c" "cur (readyQ_remove c k5) = c" using c5 readyQ_remove_objects [of k5 c] by (simp_all add: cur_def same_objects_def)
    then show ?thesis using k5(1) by (auto simp: tick_announce_def f_def Let_def split: bind_split bind_split_asm)
  qed
  moreover have "kernel_ok ?k6 (B(Ready_list p := remove1 c (B (Ready_list p)) @ [c]))"
    using tq.rotate_law [OF q pB] c5 s6 by (auto simp: kernel_ok_def running_def same_objects_def)
  moreover have "same_stacks k ?k6" using ss by (simp add: same_stacks_def readyQ_put_tcbs readyQ_remove_tcbs)
  ultimately show ?thesis using w same_objects_trans [OF s s6] p(2) by blast
qed

text \<open>C15: a timer interrupt ends. It advances the clock by one (modulo 2 to the 32), wakes tasks
  and nothing else: no task is lost, ready lists only grow at their ends, waiting lists
  only lose tasks; the interrupted task goes behind all tasks of its priority, and the first
  ready task is dispatched.\<close>

theorem timer_isr_round_robin:
  assumes "kernel_ok k A" and "G_p_current_tcb k = Some c"
  shows "\<exists>k' B. timer_isr k = Some k' \<and> G_ticks k' = G_ticks k + 1 \<and> only_wakes A B \<and>
     (let C = B(Ready_list (prio c k) := remove1 c (B (Ready_list (prio c k))) @ [c])
      in kernel_ok k' C \<and> G_p_current_tcb k' = first (schedule C))"
proof -
  obtain k1 B where 1: "tick_announce k = Some k1" "only_wakes A B" "same_objects (k\<lparr>G_ticks := G_ticks k + 1\<rparr>) k1"
    "kernel_ok k1 (B(Ready_list (prio c k) := remove1 c (B (Ready_list (prio c k))) @ [c]))"
    using tick_announce_ok [OF assms] by blast
  then have q: "queue_ok k1 (B(Ready_list (prio c k) := remove1 c (B (Ready_list (prio c k))) @ [c]))" by (simp add: kernel_ok_def)
  have "G_ticks (LOAD_HIGHEST_TASK k1) = G_ticks k + 1" using 1(3) by (simp add: LOAD_HIGHEST_TASK_def same_objects_def)
  then show ?thesis using 1 switch_ok [OF q] highest_first [OF q]
    by (auto simp: timer_isr_def CONTEXT_SWITCH_def)
qed

theorem timer_isr_round_robin_witness:
  "\<exists>k'. timer_isr demo = Some k' \<and> G_ticks k' = G_ticks demo + 1"
  using timer_isr_round_robin [OF demo_ok demo_sel(1)] by auto

end
