(* ===== verification/Objects.thy ===== *)
theory Objects
  imports Task Tick
begin

text \<open>
  The invariant of the whole kernel state and the calls that work on kernel objects. A semaphore,
  mutex or message queue is registered by its \<^verbatim>\<open>init\<close> in the list of its kind; from then on
  tasks and messages may be in its lists. The state invariant \<open>all_ok\<close> joins that of
  the queues, the tasks and their stores, the mutexes, the heap and the objects; one lemma
  (\<open>all_ok_change\<close>) says what a call has to keep.
\<close>

section \<open>The invariant\<close>

definition slots :: "kernel \<Rightarrow> addr set" where
  "slots k = tcb_at k ` {..<TASK_NUM_MAX}"

text \<open>The addresses that the \<^verbatim>\<open>delete\<close> functions give to \<^verbatim>\<open>free\<close>.\<close>

definition in_heap :: "addr \<Rightarrow> bool" where
  "in_heap a \<longleftrightarrow> CONFIG_MEM_HEAP_LOW \<le> a \<and> a \<le> CONFIG_MEM_HEAP_HIGH"

text \<open>The task lists hold the live tasks and nothing else.\<close>

definition placed :: "kernel \<Rightarrow> (list_ref \<Rightarrow> addr list) \<Rightarrow> bool" where
  "placed k A \<longleftrightarrow> (\<forall>a. (\<exists>l. task_list l \<and> a \<in> set (A l)) \<longleftrightarrow> a \<in> tcb_at k ` live k)"

text \<open>The object of a list is registered in the list of its kind.\<close>

fun registered :: "(list_ref \<Rightarrow> addr list) \<Rightarrow> list_ref \<Rightarrow> bool" where
  "registered A (SemB_wait s) \<longleftrightarrow> s \<in> set (A SemB_list)"
| "registered A (SemC_wait s) \<longleftrightarrow> s \<in> set (A SemC_list)"
| "registered A (SemM_wait s) \<longleftrightarrow> s \<in> set (A SemM_list)"
| "registered A (MsgQ_msgs q) \<longleftrightarrow> q \<in> set (A MsgQ_list)"
| "registered A (MsgQ_send q) \<longleftrightarrow> q \<in> set (A MsgQ_list)"
| "registered A (MsgQ_recv q) \<longleftrightarrow> q \<in> set (A MsgQ_list)"
| "registered A _ \<longleftrightarrow> True"

fun is_registry :: "list_ref \<Rightarrow> bool" where
  "is_registry SemB_list = True"
| "is_registry SemC_list = True"
| "is_registry SemM_list = True"
| "is_registry MsgQ_list = True"
| "is_registry _ = False"

definition queues_count :: "kernel \<Rightarrow> (list_ref \<Rightarrow> addr list) \<Rightarrow> bool" where
  "queues_count k A \<longleftrightarrow>
     (\<forall>q \<in> set (A MsgQ_list). unat (cur_num (msgQs k q)) = length (A (MsgQ_msgs q)) \<and> unat (max_len (msgQs k q)) < 2 ^ 30)"

text \<open>Lists of unregistered objects are empty; messages are in the heap, TCBs are not.\<close>

definition objects_ok :: "kernel \<Rightarrow> (list_ref \<Rightarrow> addr list) \<Rightarrow> bool" where
  "objects_ok k A \<longleftrightarrow>
     (\<forall>l. A l \<noteq> [] \<longrightarrow> registered A l) \<and> queues_count k A \<and>
     (\<forall>q. \<forall>a \<in> set (A (MsgQ_msgs q)). in_heap a) \<and> (\<forall>l. CONFIG_MEM_HEAP_HIGH \<notin> set (A l)) \<and>
     (\<forall>a \<in> slots k. \<not> in_heap a)"

definition all_ok :: "kernel \<Rightarrow> (list_ref \<Rightarrow> addr list) \<Rightarrow> region set \<Rightarrow> bool" where
  "all_ok k A R \<longleftrightarrow> kernel_ok k A \<and> tasks_ok k A \<and> placed k A \<and> mutexes_ok k A \<and> store_ok k A R \<and> objects_ok k A"

definition system_ok :: "kernel \<Rightarrow> bool" where
  "system_ok k \<longleftrightarrow> (\<exists>A R. all_ok k A R)"

lemma all_ok_D:
  assumes "all_ok k A R"
  shows "kernel_ok k A" "queue_ok k A" "tasks_ok k A" "placed k A" "mutexes_ok k A" "store_ok k A R" "objects_ok k A"
    "heap_uses (kheap k) R" "dl_holds (lmem k) A"
  using assms queue_ok_D(1) by (auto simp: all_ok_def kernel_ok_def store_ok_def)

lemma live_slots: "tcb_at k ` live k \<subseteq> slots k"
  by (auto simp: live_def slots_def)

lemma placed_slots: "placed k A \<Longrightarrow> task_list l \<Longrightarrow> a \<in> set (A l) \<Longrightarrow> a \<in> slots k"
  using live_slots unfolding placed_def by blast

lemma list_kinds: "task_list l \<or> is_registry l \<or> (\<exists>q. l = MsgQ_msgs q)"
  by (cases l) auto

text \<open>What the steps of the kernel leave alone.\<close>

definition quiet :: "kernel \<Rightarrow> kernel \<Rightarrow> bool" where
  "quiet k k' \<longleftrightarrow> stores_kept k k' \<and> kheap k' = kheap k \<and> msgQs k' = msgQs k"

definition same_members :: "(list_ref \<Rightarrow> addr list) \<Rightarrow> (list_ref \<Rightarrow> addr list) \<Rightarrow> bool" where
  "same_members A B \<longleftrightarrow> (\<forall>a. (\<exists>l. task_list l \<and> a \<in> set (A l)) \<longleftrightarrow> (\<exists>l. task_list l \<and> a \<in> set (B l)))"

text \<open>Only lists of registered objects can come into use.\<close>

definition waits_kept :: "(list_ref \<Rightarrow> addr list) \<Rightarrow> (list_ref \<Rightarrow> addr list) \<Rightarrow> bool" where
  "waits_kept A B \<longleftrightarrow>
     (\<forall>l. \<not> task_list l \<longrightarrow> B l = A l) \<and> (\<forall>l. B l \<noteq> [] \<longrightarrow> A l \<noteq> [] \<or> registered A l)"

lemma same_members_refl [simp]: "same_members A A"
  by (simp add: same_members_def)

lemma same_members_trans: "same_members A B \<Longrightarrow> same_members B C \<Longrightarrow> same_members A C"
  by (simp add: same_members_def)

lemma same_members_cong: "(\<And>l. task_list l \<Longrightarrow> B l = A l) \<Longrightarrow> same_members A B"
  unfolding same_members_def by metis

lemma registered_cong: "(\<And>l. is_registry l \<Longrightarrow> B l = A l) \<Longrightarrow> registered B l = registered A l"
  by (cases l) auto

text \<open>The master lemma for all calls that create or destroy no task and no object.\<close>

lemma all_ok_change:
  assumes ok: "all_ok k A R" and kok: "kernel_ok k' B" and st: "stores_kept k k'" and mu: "mutexes_ok k' B" and ho: "store_ok k' B R'"
    and mem: "same_members A B" and reg: "\<And>l. is_registry l \<Longrightarrow> B l = A l"
    and wait: "\<And>l. B l \<noteq> [] \<Longrightarrow> A l \<noteq> [] \<or> registered A l"
    and cnt: "queues_count k' B" and node: "\<And>q a. a \<in> set (B (MsgQ_msgs q)) \<Longrightarrow> a \<in> set (A (MsgQ_msgs q)) \<or> in_heap a \<and> a < CONFIG_MEM_HEAP_HIGH"
  shows "all_ok k' B R'"
proof -
  note d = all_ok_D [OF ok]
  have g: "G_tcb k' = G_tcb k" "live k' = live k" "slots k' = slots k" using st by (simp_all add: stores_kept_def live_def slots_def)
  have pl: "placed k' B" using d(4) mem unfolding placed_def same_members_def g by blast
  have from_A: "a \<in> set (B l) \<Longrightarrow> (\<exists>l. a \<in> set (A l)) \<or> in_heap a \<and> a < CONFIG_MEM_HEAP_HIGH" for a l
    using list_kinds [of l] mem reg node unfolding same_members_def by metis
  have "tasks_ok k' A" using tasks_ok_kept [OF d(3) st, of A] by blast
  moreover have "nowhere (tcb_at k' i) B" if "i \<in> avail (G_tcb_map k')" for i
  proof -
    have i: "i \<in> avail (G_tcb_map k)" "tcb_at k' i = tcb_at k i" using that st by (simp_all add: stores_kept_def)
    then have "nowhere (tcb_at k i) A" "i < 256" using d(3) by (auto simp: tasks_ok_def avail_def)
    moreover have "\<not> in_heap (tcb_at k i)" using d(7) \<open>i < 256\<close> by (auto simp: objects_ok_def slots_def)
    ultimately show ?thesis using from_A i(2) by metis
  qed
  ultimately have tk: "tasks_ok k' B" by (simp add: tasks_ok_def)
  have "registered B l" if "B l \<noteq> []" for l
    using wait [OF that] d(7) registered_cong [of B A l] reg by (auto simp: objects_ok_def)
  moreover have "in_heap a" if "a \<in> set (B (MsgQ_msgs q))" for q a using node [OF that] d(7) by (auto simp: objects_ok_def)
  moreover have "CONFIG_MEM_HEAP_HIGH \<notin> set (B l)" for l
    using from_A [of CONFIG_MEM_HEAP_HIGH l] d(7) by (auto simp: objects_ok_def)
  ultimately have "objects_ok k' B" using d(7) cnt by (simp add: objects_ok_def g(3))
  with kok tk pl mu ho show ?thesis by (simp add: all_ok_def)
qed

lemma waits_kept_D: "waits_kept A B \<Longrightarrow> is_registry l \<Longrightarrow> B l = A l"
  by (cases l) (simp_all add: waits_kept_def)

lemma all_ok_quiet:
  assumes ok: "all_ok k A R" and kok: "kernel_ok k' B" and q: "quiet k k'" and mu: "mutexes_ok k' B"
    and mem: "same_members A B" and w: "waits_kept A B"
  shows "all_ok k' B R"
proof (rule all_ok_change [OF ok kok _ mu _ mem])
  note d = all_ok_D [OF ok]
  have h: "kheap k' = kheap k" "msgQs k' = msgQs k" using q by (simp_all add: quiet_def)
  show "stores_kept k k'" using q by (simp add: quiet_def)
  have m: "B (MsgQ_msgs q) = A (MsgQ_msgs q)" for q using w by (simp add: waits_kept_def)
  show "queues_count k' B" using d(7) m waits_kept_D [OF w] h by (simp add: objects_ok_def queues_count_def)
  show "a \<in> set (A (MsgQ_msgs q)) \<or> in_heap a \<and> a < CONFIG_MEM_HEAP_HIGH" if "a \<in> set (B (MsgQ_msgs q))" for q a
    using that m by simp
  have "\<exists>l. a \<in> set (A l)" if "a \<in> set (B l)" for a l
    using that mem w unfolding same_members_def waits_kept_def by (cases "task_list l") metis+
  then show "store_ok k' B R" using d(6) h(1) unfolding store_ok_def by (metis)
qed (use w waits_kept_D [OF w] in \<open>auto simp: waits_kept_def\<close>)

text \<open>Calls that leave the owners of the mutexes alone.\<close>

definition moves :: "(list_ref \<Rightarrow> addr list) \<Rightarrow> (list_ref \<Rightarrow> addr list) \<Rightarrow> bool" where
  "moves A B \<longleftrightarrow> same_members A B \<and> waits_kept A B \<and> (\<forall>s. B (SemM_wait s) \<noteq> [] \<longrightarrow> A (SemM_wait s) \<noteq> [])"

lemma all_ok_step:
  assumes ok: "all_ok k A R" and kok: "kernel_ok k' B" and q: "quiet k k'"
    and own: "\<And>s. semM_owner (semMs k' s) = semM_owner (semMs k s)" and mv: "moves A B"
  shows "all_ok k' B R"
proof (rule all_ok_quiet [OF ok kok q])
  note d = all_ok_D [OF ok]
  show "mutexes_ok k' B"
  proof (rule mutexes_ok_members [OF _ d(5) own])
    show "queue_ok k' B" using kok by (simp add: kernel_ok_def)
  qed (use mv in \<open>auto simp: same_members_def moves_def\<close>)
qed (use mv in \<open>simp_all add: moves_def\<close>)

section \<open>How tasks move\<close>

lemma moves_refl [simp]: "moves A A"
  by (simp add: moves_def waits_kept_def)

lemma moves_trans:
  assumes "moves A B" and "moves B C"
  shows "moves A C"
proof -
  have "registered B l = registered A l" for l
    using assms(1) waits_kept_D by (intro registered_cong) (auto simp: moves_def)
  then show ?thesis using assms same_members_trans unfolding moves_def waits_kept_def by metis
qed

lemma only_wakes_moves:
  assumes "only_wakes A B"
  shows "moves A B"
proof -
  have "A l \<noteq> [] \<or> registered A l" if "B l \<noteq> []" for l
  proof (cases "is_ready_list l")
    case True
    then show ?thesis by (cases l) auto
  next
    case False
    then show ?thesis using assms that unfolding only_wakes_def by (cases "task_list l") fastforce+
  qed
  moreover have "A (SemM_wait s) \<noteq> []" if "B (SemM_wait s) \<noteq> []" for s
  proof -
    have "subseq (B (SemM_wait s)) (A (SemM_wait s))" using assms by (simp add: only_wakes_def)
    with that show ?thesis by auto
  qed
  ultimately show ?thesis using assms by (simp add: moves_def waits_kept_def only_wakes_def same_members_def)
qed

lemma moves_popped:
  "queue_ok k A \<Longrightarrow> task_list l \<Longrightarrow> \<not> is_ready_list l \<Longrightarrow> moves A (popped l k' A)"
  by (intro only_wakes_moves popped_wakes)

lemma members_upd:
  assumes "task_list l" "task_list m" "c \<in> set (A l)" and "set ys = insert c (set (A m) - (if m = l then {c} else {}))"
  shows "same_members A (A(l := remove1 c (A l), m := ys))"
proof -
  let ?B = "A(l := remove1 c (A l), m := ys)"
  have "\<exists>l. task_list l \<and> a \<in> set (?B l)" if "a \<in> set (A n)" "task_list n" for a n
  proof (cases "a = c")
    case True
    then show ?thesis using assms(2,4) by (intro exI [of _ m]) simp
  next
    case False
    then show ?thesis using that assms(4) by (intro exI [of _ n]) auto
  qed
  moreover have "\<exists>l. task_list l \<and> a \<in> set (A l)" if "a \<in> set (?B n)" "task_list n" for a n
    using that assms by (auto split: if_splits dest: notin_set_remove1)
  ultimately show ?thesis unfolding same_members_def by blast
qed

text \<open>The running task joins a waiting list, or goes to the end of its ready list.\<close>

lemma moves_block:
  assumes "c \<in> set (A (Ready_list p))" and "task_list l" "\<not> is_ready_list l" and "registered A l" and "\<And>s. l \<noteq> SemM_wait s"
  shows "moves A (A(Ready_list p := remove1 c (A (Ready_list p)), l := A l @ [c]))"
proof -
  let ?B = "A(Ready_list p := remove1 c (A (Ready_list p)), l := A l @ [c])"
  have "same_members A ?B" using assms(1-3) by (intro members_upd) auto
  moreover have "A n \<noteq> [] \<or> registered A n" if "?B n \<noteq> []" for n
    using that assms(4) by (cases "n = l"; cases "n = Ready_list p") auto
  moreover have "A (SemM_wait s) \<noteq> []" if "?B (SemM_wait s) \<noteq> []" for s
    using that assms(5) [of s] by (cases "SemM_wait s = l") auto
  moreover have "?B n = A n" if "\<not> task_list n" for n using that assms(2) by auto
  ultimately show ?thesis unfolding moves_def waits_kept_def by blast
qed

lemma moves_rotate:
  assumes "c \<in> set (A (Ready_list p))"
  shows "moves A (A(Ready_list p := remove1 c (A (Ready_list p)) @ [c]))"
proof -
  have "set (remove1 c xs @ [c]) = set xs" if "c \<in> set xs" for xs using that by (induction xs) auto
  then have s: "set ((A(Ready_list p := remove1 c (A (Ready_list p)) @ [c])) l) = set (A l)" for l using assms by auto
  then have "(A(Ready_list p := remove1 c (A (Ready_list p)) @ [c])) l \<noteq> [] \<longleftrightarrow> A l \<noteq> []" for l by (metis set_empty)
  then show ?thesis unfolding moves_def waits_kept_def same_members_def s by auto
qed

lemma moves_drained:
  assumes "task_list l" and "\<not> is_ready_list l"
  shows "moves A (drained l k A)"
proof -
  have r: "drained l k A (Ready_list p) = A (Ready_list p) @ filter (\<lambda>a. prio a k = p) (A l)" for p
    using assms(2) by (auto simp: drained_def)
  have o: "drained l k A n = A n" if "n \<noteq> l" "\<not> is_ready_list n" for n
    using that by (cases n) (auto simp: drained_def)
  have e: "drained l k A l = []" by (simp add: drained_def)
  have "\<exists>l'. task_list l' \<and> a \<in> set (drained l k A l')" if "a \<in> set (A n)" "task_list n" for a n
  proof (cases "n = l")
    case True
    then show ?thesis using that r by (intro exI [of _ "Ready_list (prio a k)"]) auto
  next
    case False
    then show ?thesis using that r o by (intro exI [of _ n], cases "is_ready_list n"; cases n) auto
  qed
  moreover have "\<exists>l'. task_list l' \<and> a \<in> set (A l')" if "a \<in> set (drained l k A n)" "task_list n" for a n
  proof (cases "is_ready_list n")
    case True
    then obtain p where "n = Ready_list p" by (cases n) auto
    with that r have "a \<in> set (A n) \<or> a \<in> set (A l)" by auto
    then show ?thesis using that assms(1) by blast
  next
    case False
    then show ?thesis using that o e by (cases "n = l") auto
  qed
  ultimately have "same_members A (drained l k A)" unfolding same_members_def by blast
  moreover have "drained l k A n = A n" if "\<not> task_list n" for n
    using that assms by (intro o) (auto, cases n, auto)
  moreover have "A n \<noteq> [] \<or> registered A n" if "drained l k A n \<noteq> []" for n
  proof (cases "is_ready_list n")
    case True
    then show ?thesis by (cases n) auto
  next
    case False
    then show ?thesis using that o [of n] e by (cases "n = l") auto
  qed
  moreover have "A (SemM_wait s) \<noteq> []" if "drained l k A (SemM_wait s) \<noteq> []" for s
    using that o [of "SemM_wait s"] e by (cases "SemM_wait s = l") auto
  ultimately show ?thesis unfolding moves_def waits_kept_def by blast
qed

section \<open>Frames\<close>

lemma same_objects_D: "same_objects k k' \<Longrightarrow> kheap k' = kheap k \<and> msgQs k' = msgQs k \<and> semMs k' = semMs k"
  by (simp add: same_objects_def)

lemma queue_frames [simp]:
  "semMs (readyQ_put a k) = semMs k" "semMs (readyQ_remove a k) = semMs k"
  "msgQs (readyQ_put a k) = msgQs k" "msgQs (readyQ_remove a k) = msgQs k"
  "kheap (readyQ_put a k) = kheap k" "kheap (readyQ_remove a k) = kheap k"
  "G_p_current_tcb (readyQ_put a k) = G_p_current_tcb k" "G_p_current_tcb (readyQ_remove a k) = G_p_current_tcb k"
  using readyQ_put_objects [of k a] readyQ_remove_objects [of k a] by (simp_all add: same_objects_def)

lemma stores_kept_trans: "stores_kept k k' \<Longrightarrow> stores_kept k' k'' \<Longrightarrow> stores_kept k k''"
  by (simp add: stores_kept_def)

lemma quiet_trans: "quiet k k' \<Longrightarrow> quiet k' k'' \<Longrightarrow> quiet k k''"
  using stores_kept_trans by (auto simp: quiet_def)

lemma quiet_objects: "same_objects k k' \<Longrightarrow> same_stacks k k' \<Longrightarrow> quiet k k'"
  by (simp add: same_objects_def same_stacks_def stores_kept_def quiet_def)

lemma quiet_upd [simp]:
  "quiet k (upd_lists f k') = quiet k k'" "quiet k (CONTEXT_SWITCH k') = quiet k k'" "quiet k (LOAD_HIGHEST_TASK k') = quiet k k'"
  "quiet k (upd_semB s g k') = quiet k k'" "quiet k (upd_semC s h k') = quiet k k'" "quiet k (upd_semM s i k') = quiet k k'"
  "quiet k (readyQ_remove a k') = quiet k k'" "quiet k (readyQ_put a k') = quiet k k'"
  "quiet k (update_wait_pri s k') = quiet k k'" "quiet k k"
  using readyQ_put_objects [of k' a] readyQ_remove_objects [of k' a]
  by (auto simp: quiet_def stores_kept_def upd_semB_def upd_semC_def upd_semM_def update_wait_pri_def CONTEXT_SWITCH_def
    LOAD_HIGHEST_TASK_def readyQ_put_tcbs readyQ_remove_tcbs same_objects_def)

lemma quiet_tcb:
  "(\<And>t. stack_start (f t) = stack_start t \<and> stack_size (f t) = stack_size t) \<Longrightarrow> quiet k (upd_tcb a f k') = quiet k k'"
  by (auto simp: quiet_def stores_kept_def)

lemma quiet_tcbs [simp]:
  "quiet k (upd_tcb a (\<lambda>t. t\<lparr>delay_ticks := d\<rparr>) k') = quiet k k'" "quiet k (upd_tcb a (set_prio p) k') = quiet k k'"
  "quiet k (upd_tcb a (\<lambda>t. t\<lparr>delay_ticks := d, status := s, pend_obj := b\<rparr>) k') = quiet k k'"
  by (simp_all add: quiet_tcb set_prio_def)

lemma quiet_pend [simp]: "quiet k (pend_current l st obj timeout k)" "semMs (pend_current l st obj timeout k) = semMs k"
  by (simp_all add: pend_current_def Let_def)

lemma quiet_get: "quiet k (snd (list_get l k))" "semMs (snd (list_get l k)) = semMs k"
  "G_p_current_tcb (snd (list_get l k)) = G_p_current_tcb k"
  by (simp_all add: list_get_def quiet_def stores_kept_def split: prod.split)

lemma quiet_wake [simp]:
  "quiet k (wake_first l k)" "semMs (wake_first l k) = semMs k" "G_p_current_tcb (wake_first l k) = G_p_current_tcb k"
  using quiet_get [where k = k and l = l] by (auto simp: wake_first_def split: prod.split option.split)

lemma upd_semB_frames [simp]: "semMs (upd_semB s f k) = semMs k" "semMs (upd_semC s g k) = semMs k"
  by (simp_all add: upd_semB_def upd_semC_def)

lemma quiet_drain: "quiet k k' \<Longrightarrow> quiet k (fold (wake_failed l) xs k')" "semMs (fold (wake_failed l) xs k') = semMs k'"
  by (induction xs arbitrary: k') (simp_all add: wake_failed_def)

section \<open>The heap\<close>

lemma all_ok_heap:
  assumes ok: "all_ok k A R" and s: "store_ok (k\<lparr>kheap := h\<rparr>) A R'"
  shows "all_ok (k\<lparr>kheap := h\<rparr>) A R'"
proof (rule all_ok_change [OF ok])
  note d = all_ok_D [OF ok]
  have q: "same_queues k (k\<lparr>kheap := h\<rparr>)" by simp
  show "kernel_ok (k\<lparr>kheap := h\<rparr>) A" using d(1) kernel_ok_same [OF q] by simp
  show "stores_kept k (k\<lparr>kheap := h\<rparr>)" by (simp add: stores_kept_def)
  show "mutexes_ok (k\<lparr>kheap := h\<rparr>) A" using d(5) by (simp add: mutexes_ok_def owners_def)
  show "queues_count (k\<lparr>kheap := h\<rparr>) A" using d(7) by (simp add: objects_ok_def queues_count_def)
qed (use s in simp_all)

lemma all_ok_malloc:
  assumes ok: "all_ok k A R" and m: "kmalloc n k = Some (p, k1)" and n: "unat n + 3 < 2 ^ 32"
  shows "\<exists>sz t. all_ok k1 A (insert (p, sz, t) R) \<and> unat n \<le> sz \<and> CONFIG_MEM_HEAP_LOW < p \<and> p + sz \<le> CONFIG_MEM_HEAP_HIGH \<and>
     (\<forall>r \<in> R. apart (p, sz, t) r)"
proof -
  note d = all_ok_D [OF ok]
  obtain h where h: "malloc n (G_p_current_tcb k) (kheap k) = Some (p, h)" "k1 = k\<lparr>kheap := h\<rparr>" using m by (auto simp: kmalloc_def)
  obtain sz where sz: "unat n \<le> sz" "heap_uses h (insert (p, sz, G_p_current_tcb k) R)" "\<forall>r \<in> R. apart (p, sz, G_p_current_tcb k) r"
    "CONFIG_MEM_HEAP_LOW < p" "p + sz \<le> CONFIG_MEM_HEAP_HIGH"
    using malloc_region_law [OF d(8) h(1) n] by blast
  have "pairwise apart (insert (p, sz, G_p_current_tcb k) R)"
    using d(6) sz(3) by (auto simp: store_ok_def pairwise_insert apart_def)
  then have "store_ok k1 A (insert (p, sz, G_p_current_tcb k) R)"
    using d(6) sz(2) h(2) unfolding store_ok_def by (simp, metis)
  then have "all_ok k1 A (insert (p, sz, G_p_current_tcb k) R)" using all_ok_heap [OF ok] h(2) by simp
  with sz show ?thesis by blast
qed

lemma all_ok_free:
  assumes ok: "all_ok k A R" and f: "kfree p k = Some k1" and p: "(p, sz, t) \<in> R" and nw: "nowhere p A"
  shows "all_ok k1 A (R - {(p, sz, t)})"
proof -
  note d = all_ok_D [OF ok]
  obtain h where h: "free p (kheap k) = Some h" "k1 = k\<lparr>kheap := h\<rparr>" using f by (auto simp: kfree_def)
  have "heap_uses h (R - {(p, sz, t)})" using heap_free_law [OF d(8) p] h(1) by simp
  then have "store_ok k1 A (R - {(p, sz, t)})" by (intro store_ok_remove [OF d(6) _ nw]) (auto simp: h(2))
  then show ?thesis using all_ok_heap [OF ok] h(2) by simp
qed

section \<open>Creating objects\<close>

text \<open>An object that may be registered, and one the caller provides: outside of the heap and of the TCBs.\<close>

definition usable :: "kernel \<Rightarrow> (list_ref \<Rightarrow> addr list) \<Rightarrow> region set \<Rightarrow> addr \<Rightarrow> bool" where
  "usable k A R p \<longleftrightarrow> nowhere p A \<and> p \<notin> slots k \<and> p \<noteq> CONFIG_MEM_HEAP_HIGH \<and>
     (in_heap p \<longrightarrow> (\<exists>sz t. (p, sz, t) \<in> R \<and> unat sizeof_DL_NODE \<le> sz))"

definition static_object :: "kernel \<Rightarrow> (list_ref \<Rightarrow> addr list) \<Rightarrow> ptr \<Rightarrow> bool" where
  "static_object k A obj \<longleftrightarrow> (\<forall>p. obj = Some p \<longrightarrow> nowhere p A \<and> p \<notin> slots k \<and> \<not> in_heap p)"

lemma fresh_object:
  assumes ok: "all_ok k A R" and m: "object_or_malloc obj n k = Some (p, k1)" and n: "8 \<le> unat n" "unat n < 100"
    and st: "static_object k A obj"
  shows "\<exists>R1. all_ok k1 A R1 \<and> usable k1 A R1 p"
proof (cases obj)
  case None
  then have m': "kmalloc n k = Some (p, k1)" using m by (simp add: object_or_malloc_def)
  obtain sz t where r: "all_ok k1 A (insert (p, sz, t) R)" "unat n \<le> sz" "CONFIG_MEM_HEAP_LOW < p" "p + sz \<le> CONFIG_MEM_HEAP_HIGH"
    "\<forall>r \<in> R. apart (p, sz, t) r"
    using all_ok_malloc [OF ok m'] n by auto
  have "nowhere p A" using fresh_node [OF all_ok_D(6) [OF ok] r(5) _ r(3,4)] r(2) n by simp
  moreover have "in_heap p" "p \<noteq> CONFIG_MEM_HEAP_HIGH" using r(2-4) n by (auto simp: in_heap_def)
  moreover have "\<forall>a \<in> slots k1. \<not> in_heap a" using all_ok_D(7) [OF r(1)] by (simp add: objects_ok_def)
  ultimately show ?thesis using r(1,2) n by (intro exI [of _ "insert (p, sz, t) R"]) (auto simp: usable_def)
next
  case (Some q)
  then show ?thesis using m ok st
    by (auto simp: object_or_malloc_def static_object_def usable_def in_heap_def intro!: exI [of _ R])
qed

lemma all_ok_init_list:
  assumes ok: "all_ok k A R" and l: "A l = []" "\<not> is_ready_list l"
  shows "all_ok (upd_lists (\<lambda>m. snd (dlist_init l m)) k) A R"
proof (rule all_ok_step [OF ok])
  note d = all_ok_D [OF ok]
  have "dl_holds (snd (dlist_init l (lmem k))) (A(l := []))" by (rule dlist_init_holds [OF d(9)])
  moreover have "A(l := []) = A" using l(1) by auto
  ultimately have "queue_ok (upd_lists (\<lambda>m. snd (dlist_init l m)) k) A" by (intro upd_lists_ok [OF d(2)]) auto
  then show "kernel_ok (upd_lists (\<lambda>m. snd (dlist_init l m)) k) A" using d(1) by (simp add: kernel_ok_def running_def)
qed simp_all

lemma all_ok_fields:
  assumes ok: "all_ok k A R"
  shows "all_ok (upd_semB s f k) A R" "all_ok (upd_semC s g k) A R"
    "A (SemM_wait s) = [] \<Longrightarrow> all_ok (upd_semM s (\<lambda>m. m\<lparr>semM_owner := None, take_count := tc, wait_pri := wp\<rparr>) k) A R"
    "s \<notin> set (A MsgQ_list) \<Longrightarrow> all_ok (upd_msgQ s h k) A R"
proof -
  note d = all_ok_D [OF ok]
  show "all_ok (upd_semB s f k) A R"
    by (rule all_ok_step [OF ok]) (use d(1) kernel_ok_same [of k "upd_semB s f k" A] in \<open>simp_all\<close>)
  show "all_ok (upd_semC s g k) A R"
    by (rule all_ok_step [OF ok]) (use d(1) kernel_ok_same [of k "upd_semC s g k" A] in \<open>simp_all\<close>)
  let ?m = "upd_semM s (\<lambda>m. m\<lparr>semM_owner := None, take_count := tc, wait_pri := wp\<rparr>) k"
  show "all_ok ?m A R" if "A (SemM_wait s) = []"
  proof (rule all_ok_quiet [OF ok])
    have sub: "owners ?m \<subseteq> owners k" by (auto simp: owners_def split: if_splits)
    then show "mutexes_ok ?m A" using d(5) that by (auto simp: mutexes_ok_def intro: finite_subset)
    show "kernel_ok ?m A" using d(1) kernel_ok_same [of k ?m A] by simp
  qed (simp_all add: waits_kept_def)
  show "all_ok (upd_msgQ s h k) A R" if "s \<notin> set (A MsgQ_list)"
  proof (rule all_ok_change [OF ok])
    show "queues_count (upd_msgQ s h k) A" using d(7) that by (auto simp: objects_ok_def queues_count_def)
    show "kernel_ok (upd_msgQ s h k) A" using d(1) kernel_ok_same [of k "upd_msgQ s h k" A] by simp
    show "mutexes_ok (upd_msgQ s h k) A" using d(5) by (simp add: mutexes_ok_def owners_def upd_msgQ_def)
    show "stores_kept k (upd_msgQ s h k)" by (simp add: stores_kept_def upd_msgQ_def)
    show "store_ok (upd_msgQ s h k) A R" using d(6) by (simp add: store_ok_def)
  qed simp_all
qed

lemma usable_cong: "G_tcb k' = G_tcb k \<Longrightarrow> usable k' A R p = usable k A R p"
  by (simp add: usable_def slots_def)

lemma unregistered_empty:
  assumes "objects_ok k A" and "nowhere p A"
  shows "A (SemB_wait p) = []" "A (SemC_wait p) = []" "A (SemM_wait p) = []" "A (MsgQ_msgs p) = []" "A (MsgQ_send p) = []" "A (MsgQ_recv p) = []"
proof -
  have "registered A l" if "A l \<noteq> []" for l using assms(1) that by (simp add: objects_ok_def)
  then show "A (SemB_wait p) = []" "A (SemC_wait p) = []" "A (SemM_wait p) = []" "A (MsgQ_msgs p) = []" "A (MsgQ_send p) = []"
    "A (MsgQ_recv p) = []"
    using assms(2) by fastforce+
qed

lemma all_ok_register:
  assumes ok: "all_ok k A R" and u: "usable k A R p" and reg: "is_registry reg"
    and q: "reg = MsgQ_list \<Longrightarrow> cur_num (msgQs k p) = 0 \<and> unat (max_len (msgQs k p)) < 2 ^ 30"
  shows "all_ok (upd_lists (dlist_add reg p) k) (A(reg := A reg @ [p])) R"
proof -
  let ?k = "upd_lists (dlist_add reg p) k" and ?B = "A(reg := A reg @ [p])"
  note d = all_ok_D [OF ok]
  have r: "\<not> is_ready_list reg" "\<not> task_list reg" using reg by (cases reg; simp)+
  have B: "?B l = A l" if "task_list l" for l using that r(2) by auto
  have Bm: "?B (MsgQ_msgs q) = A (MsgQ_msgs q)" for q using reg by (cases reg) simp_all
  have nw: "nowhere p A" using u by (simp add: usable_def)
  have "queue_ok ?k ?B" using enqueue_ok [OF d(2) nw r(1)] r(2) by simp
  moreover have "running ?k ?B" using d(1) B [of "Ready_list _"] unfolding kernel_ok_def running_def by simp
  ultimately have kok: "kernel_ok ?k ?B" by (simp add: kernel_ok_def)
  have tk: "tasks_ok ?k ?B"
  proof -
    have "tcb_at k i \<noteq> p" if "i \<in> avail (G_tcb_map k)" for i
    proof -
      have "i < 256" using that d(3) by (auto simp: tasks_ok_def avail_def)
      then show ?thesis using u by (auto simp: usable_def slots_def)
    qed
    then show ?thesis using d(3) by (auto simp: tasks_ok_def live_def)
  qed
  have "mutexes_ok ?k ?B"
    using d(5) B [OF task_list_home] B [of "SemM_wait _"] unfolding mutexes_ok_def owners_def by simp
  moreover have "same_members A ?B" using B by (rule same_members_cong)
  then have "placed ?k ?B" using d(4) unfolding placed_def same_members_def by (simp add: live_def)
  moreover have "store_ok ?k ?B R"
    using d(6) u unfolding store_ok_def usable_def in_heap_def by (auto simp: order.strict_implies_order)
  moreover have "registered ?B l" if "?B l \<noteq> []" for l
  proof (cases "l = reg")
    case False
    then have "registered A l" using that d(7) by (simp add: objects_ok_def)
    then show ?thesis by (cases l) auto
  qed (use reg in \<open>cases reg; simp\<close>)
  moreover have "queues_count ?k ?B"
    using d(7) q Bm unregistered_empty(4) [OF d(7) nw] unfolding objects_ok_def queues_count_def by (cases "reg = MsgQ_list") auto
  moreover have "CONFIG_MEM_HEAP_HIGH \<notin> set (?B l)" for l using d(7) u by (auto simp: objects_ok_def usable_def)
  moreover have "slots ?k = slots k" by (simp add: slots_def)
  ultimately show ?thesis using d(7) kok tk Bm unfolding all_ok_def objects_ok_def by simp
qed

lemma semB_init_system:
  assumes ok: "all_ok k A R" and st: "static_object k A obj" and i: "semB_init obj k = Some (p, k')"
  shows "system_ok k'"
proof -
  obtain k1 where m: "object_or_malloc obj 20 k = Some (p, k1)"
    and k': "k' = upd_lists (dlist_add SemB_list p) (upd_lists (\<lambda>m. snd (dlist_init (SemB_wait p) m)) (upd_semB p (\<lambda>s. s\<lparr>semB_owner := None\<rparr>) k1))"
    using i by (auto simp: semB_init_def Let_def split: option.splits)
  obtain R1 where r: "all_ok k1 A R1" "usable k1 A R1 p" using fresh_object [OF ok m _ _ st] by auto
  have e: "A (SemB_wait p) = []" using unregistered_empty [OF all_ok_D(7) [OF r(1)]] r(2) by (simp add: usable_def)
  note 1 = all_ok_init_list [OF all_ok_fields(1) [OF r(1), of p "\<lambda>s. s\<lparr>semB_owner := None\<rparr>"] e]
  have u: "usable (upd_lists (\<lambda>m. snd (dlist_init (SemB_wait p) m)) (upd_semB p (\<lambda>s. s\<lparr>semB_owner := None\<rparr>) k1)) A R1 p"
    using r(2) by (simp add: usable_def slots_def upd_semB_def)
  show ?thesis using all_ok_register [OF 1 u, of SemB_list] unfolding system_ok_def k' by auto
qed

lemma semC_init_system:
  assumes ok: "all_ok k A R" and st: "static_object k A obj" and i: "semC_init obj n mx k = Some (r, k')"
  shows "system_ok k'"
proof (cases "mx = 0")
  case True
  then show ?thesis using ok i by (auto simp: semC_init_def system_ok_def)
next
  case False
  obtain p k1 where m: "object_or_malloc obj 24 k = Some (p, k1)"
    and k': "k' = upd_lists (dlist_add SemC_list p) (upd_lists (\<lambda>m. snd (dlist_init (SemC_wait p) m))
      (upd_semC p (\<lambda>s. s\<lparr>count := n, max_count := mx\<rparr>) k1))"
    using i False by (auto simp: semC_init_def Let_def split: option.splits)
  obtain R1 where r: "all_ok k1 A R1" "usable k1 A R1 p" using fresh_object [OF ok m _ _ st] by auto
  have e: "A (SemC_wait p) = []" using unregistered_empty [OF all_ok_D(7) [OF r(1)]] r(2) by (simp add: usable_def)
  note 1 = all_ok_init_list [OF all_ok_fields(2) [OF r(1), of p "\<lambda>s. s\<lparr>count := n, max_count := mx\<rparr>"] e]
  have u: "usable (upd_lists (\<lambda>m. snd (dlist_init (SemC_wait p) m)) (upd_semC p (\<lambda>s. s\<lparr>count := n, max_count := mx\<rparr>) k1)) A R1 p"
    using r(2) by (simp add: usable_def slots_def upd_semC_def)
  show ?thesis using all_ok_register [OF 1 u, of SemC_list] unfolding system_ok_def k' by auto
qed

lemma semM_init_system:
  assumes ok: "all_ok k A R" and st: "static_object k A obj" and i: "semM_init obj k = Some (p, k')"
  shows "system_ok k'"
proof -
  obtain k1 where m: "object_or_malloc obj 28 k = Some (p, k1)"
    and k': "k' = upd_lists (dlist_add SemM_list p) (upd_lists (\<lambda>m. snd (dlist_init (SemM_wait p) m))
      (upd_semM p (\<lambda>s. s\<lparr>semM_owner := None, take_count := 0, wait_pri := 255\<rparr>) k1))"
    using i by (auto simp: semM_init_def Let_def split: option.splits)
  obtain R1 where r: "all_ok k1 A R1" "usable k1 A R1 p" using fresh_object [OF ok m _ _ st] by auto
  have e: "A (SemM_wait p) = []" using unregistered_empty [OF all_ok_D(7) [OF r(1)]] r(2) by (simp add: usable_def)
  note 1 = all_ok_init_list [OF all_ok_fields(3) [OF r(1) e] e]
  have u: "usable (upd_lists (\<lambda>m. snd (dlist_init (SemM_wait p) m)) (upd_semM p f k1)) A R1 p" for f
    using r(2) by (simp add: usable_def slots_def upd_semM_def)
  show ?thesis using all_ok_register [OF 1 u, of SemM_list] unfolding system_ok_def k' by auto
qed

lemma msgQ_init_system:
  assumes ok: "all_ok k A R" and st: "static_object k A obj" and n: "unat mlen < 2 ^ 30" and i: "msgQ_init obj mnum mlen k = Some (r, k')"
  shows "system_ok k'"
proof (cases "mnum = 0 \<or> mlen = 0")
  case True
  then show ?thesis using ok i by (auto simp: msgQ_init_def system_ok_def)
next
  case False
  obtain p k1 where m: "object_or_malloc obj 44 k = Some (p, k1)"
    and k': "k' = upd_lists (dlist_add MsgQ_list p) (upd_lists (\<lambda>m. snd (dlist_init (MsgQ_recv p) m))
      (upd_lists (\<lambda>m. snd (dlist_init (MsgQ_send p) m)) (upd_lists (\<lambda>m. snd (dlist_init (MsgQ_msgs p) m))
      (upd_msgQ p (\<lambda>q. q\<lparr>max_num := mnum, max_len := mlen, cur_num := 0\<rparr>) k1))))"
    using i False by (auto simp: msgQ_init_def Let_def split: option.splits)
  obtain R1 where r: "all_ok k1 A R1" "usable k1 A R1 p" using fresh_object [OF ok m _ _ st] by auto
  have nw: "nowhere p A" using r(2) by (simp add: usable_def)
  note e = unregistered_empty [OF all_ok_D(7) [OF r(1)] nw]
  let ?k = "upd_lists (\<lambda>m. snd (dlist_init (MsgQ_recv p) m)) (upd_lists (\<lambda>m. snd (dlist_init (MsgQ_send p) m))
    (upd_lists (\<lambda>m. snd (dlist_init (MsgQ_msgs p) m)) (upd_msgQ p (\<lambda>q. q\<lparr>max_num := mnum, max_len := mlen, cur_num := 0\<rparr>) k1)))"
  have "all_ok ?k A R1" using nw e by (intro all_ok_init_list all_ok_fields(4) r(1)) simp_all
  moreover have "usable ?k A R1 p" using r(2) by (simp add: usable_def slots_def upd_msgQ_def)
  ultimately show ?thesis using all_ok_register [of ?k A R1 p MsgQ_list] n unfolding system_ok_def k' by auto
qed

section \<open>Deleting semaphores\<close>

lemma all_ok_unregister:
  assumes ok: "all_ok k A R" and reg: "is_registry reg" and s: "s \<in> set (A reg)"
    and e: "\<And>l. A l \<noteq> [] \<Longrightarrow> registered A l \<Longrightarrow> registered (A(reg := remove1 s (A reg))) l"
  shows "all_ok (upd_lists (dlist_remove reg s) k) (A(reg := remove1 s (A reg))) R" and "nowhere s (A(reg := remove1 s (A reg)))"
proof -
  let ?k = "upd_lists (dlist_remove reg s) k" and ?B = "A(reg := remove1 s (A reg))"
  note d = all_ok_D [OF ok]
  have r: "\<not> is_ready_list reg" "\<not> task_list reg" using reg by (cases reg; simp)+
  have B: "?B l = A l" if "task_list l" for l using that r(2) by auto
  have Bm: "?B (MsgQ_msgs q) = A (MsgQ_msgs q)" for q using reg by (cases reg) simp_all
  have sub: "a \<in> set (A l)" if "a \<in> set (?B l)" for a l using that notin_set_remove1 by (metis fun_upd_apply)
  show "nowhere s ?B" by (rule dequeued_nowhere [OF d(2) s])
  have "queue_ok ?k ?B" by (rule dequeue_ok [OF d(2) s r(1)])
  moreover have "running ?k ?B" using d(1) B [of "Ready_list _"] unfolding kernel_ok_def running_def by simp
  ultimately have kok: "kernel_ok ?k ?B" by (simp add: kernel_ok_def)
  have tk: "tasks_ok ?k ?B" using tasks_ok_kept [OF d(3), of ?k ?B] sub by (auto simp: stores_kept_def)
  have "mutexes_ok ?k ?B"
    using d(5) B [OF task_list_home] B [of "SemM_wait _"] unfolding mutexes_ok_def owners_def by simp
  moreover have "same_members A ?B" using B by (rule same_members_cong)
  then have "placed ?k ?B" using d(4) unfolding placed_def same_members_def by (simp add: live_def)
  moreover have "store_ok ?k ?B R" using d(6) sub unfolding store_ok_def by (metis upd_lists_sel(14))
  moreover have "registered ?B l" if l: "?B l \<noteq> []" for l
  proof -
    have "A l \<noteq> []" using l by (auto split: if_splits)
    then show ?thesis using e d(7) by (simp add: objects_ok_def)
  qed
  moreover have "queues_count ?k ?B" using d(7) sub Bm unfolding objects_ok_def queues_count_def by simp
  moreover have "CONFIG_MEM_HEAP_HIGH \<notin> set (?B l)" for l using d(7) sub by (auto simp: objects_ok_def)
  moreover have "slots ?k = slots k" by (simp add: slots_def)
  ultimately show "all_ok ?k ?B R" using d(7) kok tk Bm unfolding all_ok_def objects_ok_def by simp
qed

lemma flush_step:
  assumes ok: "all_ok k A R" and k': "quiet k k'" "queue_ok k' (drained l k A)" "G_p_current_tcb k' = G_p_current_tcb k"
    and own: "semMs k' = semMs k" and l: "task_list l" "\<not> is_ready_list l"
  shows "all_ok k' (drained l k A) R"
proof (rule all_ok_step [OF ok _ k'(1) _ moves_drained [OF l]])
  have "running k' (drained l k A)"
    using all_ok_D(1) [OF ok] k'(3) l(2) by (fastforce simp: kernel_ok_def running_def drained_def)
  then show "kernel_ok k' (drained l k A)" using k'(2) by (simp add: kernel_ok_def)
qed (simp add: own)

lemma semB_flush_step:
  assumes ok: "all_ok k A R" and f: "semB_flush s k = Some (r, k')"
  shows "all_ok k' (drained (SemB_wait s) k A) R" "G_p_current_tcb k' = G_p_current_tcb k"
proof -
  note d = all_ok_D [OF ok]
  have q: "quiet k k'" "semMs k' = semMs k"
    using f semB_flush_drains [OF d(2) refl, of s] by (auto simp: semB_flush_def quiet_drain)
  show "all_ok k' (drained (SemB_wait s) k A) R" "G_p_current_tcb k' = G_p_current_tcb k"
    using flush_step [OF ok q(1) _ _ q(2), of "SemB_wait s"] semB_flush_ok [OF d(2), of s] f by auto
qed

lemma semC_flush_step:
  assumes ok: "all_ok k A R" and f: "semC_flush s k = Some (r, k')"
  shows "all_ok k' (drained (SemC_wait s) k A) R" "G_p_current_tcb k' = G_p_current_tcb k"
proof -
  note d = all_ok_D [OF ok]
  have q: "quiet k k'" "semMs k' = semMs k"
    using f semC_flush_drains [OF d(2) refl, of s] by (auto simp: semC_flush_def quiet_drain split_def Let_def)
  show "all_ok k' (drained (SemC_wait s) k A) R" "G_p_current_tcb k' = G_p_current_tcb k"
    using flush_step [OF ok q(1) _ _ q(2), of "SemC_wait s"] semC_flush_ok [OF d(2), of s] f by auto
qed

text \<open>The end of both \<^verbatim>\<open>delete\<close> functions.\<close>

lemma delete_step:
  assumes ok: "all_ok k A R" and reg: "is_registry reg" and s: "s \<in> set (A reg)"
    and e: "\<And>l. A l \<noteq> [] \<Longrightarrow> registered A l \<Longrightarrow> registered (A(reg := remove1 s (A reg))) l"
    and k': "(if in_heap s then kfree s (upd_lists (dlist_remove reg s) k) else Some (upd_lists (dlist_remove reg s) k)) = Some k'"
  shows "system_ok k'"
proof -
  note u = all_ok_unregister [OF ok reg s e]
  show ?thesis
  proof (cases "in_heap s")
    case True
    have "s \<noteq> CONFIG_MEM_HEAP_HIGH" using all_ok_D(7) [OF ok] s by (auto simp: objects_ok_def)
    with True have "CONFIG_MEM_HEAP_LOW \<le> s" "s < CONFIG_MEM_HEAP_HIGH" by (auto simp: in_heap_def)
    then obtain sz t where "(s, sz, t) \<in> R" using all_ok_D(6) [OF ok] s unfolding store_ok_def by blast
    then show ?thesis using all_ok_free [OF u(1) _ _ u(2)] k' True unfolding system_ok_def by (simp only: if_True) blast
  next
    case False
    then show ?thesis using u(1) k' by (auto simp: system_ok_def)
  qed
qed

lemma semB_delete_system:
  assumes ok: "all_ok k A R" and s: "s \<in> set (A SemB_list)" and f: "semB_delete s k = Some (r, k')"
  shows "system_ok k'"
proof -
  obtain r1 k1 where k1: "semB_flush s k = Some (r1, k1)"
    and k': "(if in_heap s then kfree s (upd_lists (dlist_remove SemB_list s) k1) else Some (upd_lists (dlist_remove SemB_list s) k1)) = Some k'"
    using f by (auto simp: semB_delete_def in_heap_def Let_def split: option.splits if_splits)
  let ?B = "drained (SemB_wait s) k A"
  have w: "?B (SemB_wait s) = []" "?B SemB_list = A SemB_list" by (simp_all add: drained_def)
  have "registered (?B(SemB_list := remove1 s (?B SemB_list))) l" if "?B l \<noteq> []" "registered ?B l" for l
  proof -
    have "l \<noteq> SemB_wait s" using that(1) w(1) by auto
    then show ?thesis using that(2) by (cases l) auto
  qed
  then show ?thesis using delete_step [OF semB_flush_step(1) [OF ok k1] _ _ _ k'] s w(2) by auto
qed

lemma semC_delete_system:
  assumes ok: "all_ok k A R" and s: "s \<in> set (A SemC_list)" and f: "semC_delete s k = Some (r, k')"
  shows "system_ok k'"
proof -
  obtain r1 k1 where k1: "semC_flush s k = Some (r1, k1)"
    and k': "(if in_heap s then kfree s (upd_lists (dlist_remove SemC_list s) k1) else Some (upd_lists (dlist_remove SemC_list s) k1)) = Some k'"
    using f by (auto simp: semC_delete_def in_heap_def Let_def split: option.splits if_splits)
  let ?B = "drained (SemC_wait s) k A"
  have w: "?B (SemC_wait s) = []" "?B SemC_list = A SemC_list" by (simp_all add: drained_def)
  have "registered (?B(SemC_list := remove1 s (?B SemC_list))) l" if "?B l \<noteq> []" "registered ?B l" for l
  proof -
    have "l \<noteq> SemC_wait s" using that(1) w(1) by auto
    then show ?thesis using that(2) by (cases l) auto
  qed
  then show ?thesis using delete_step [OF semC_flush_step(1) [OF ok k1] _ _ _ k'] s w(2) by auto
qed

end
