(* ===== verification/Kernel_Steps.thy ===== *)
theory Kernel_Steps
  imports Objects
begin

text \<open>
  What each kernel call does to the invariant \<open>all_ok\<close> of \<open>Objects\<close>: the blocking calls of semaphores,
  mutexes and message queues and their continuations, gives and flushes, the tick, and the
  creation, deletion and end of tasks.
\<close>

section \<open>Semaphores\<close>

lemma block_step:
  assumes ok: "all_ok k A R" and c: "G_p_current_tcb k = Some c" and k': "quiet k k'" "semMs k' = semMs k"
    and l: "task_list l" "\<not> is_ready_list l" "registered A l" "\<And>s. l \<noteq> SemM_wait s"
    and or: "kernel_ok k' A \<or> kernel_ok k' (A(Ready_list (prio c k) := remove1 c (A (Ready_list (prio c k))), l := A l @ [c]))"
  shows "system_ok k'"
proof -
  obtain p where "c \<in> set (A (Ready_list p))" "prio c k = p" using current_ready [OF all_ok_D(1) [OF ok] c] .
  then have "\<exists>B. kernel_ok k' B \<and> moves A B" using or moves_block [of c A p l] l by auto
  then show ?thesis using all_ok_step [OF ok _ k'(1)] k'(2) unfolding system_ok_def by metis
qed

lemma semB_take_step:
  assumes ok: "all_ok k A R" and c: "G_p_current_tcb k = Some c" and s: "s \<in> set (A SemB_list)" and t: "semB_take s timeout k = (r, k')"
  shows "system_ok k'"
proof (rule block_step [OF ok c, of _ "SemB_wait s"])
  show "quiet k k'" "semMs k' = semMs k" using t by (auto simp: semB_take_def split: if_splits)
  show "kernel_ok k' A \<or> kernel_ok k' (A(Ready_list (prio c k) := remove1 c (A (Ready_list (prio c k))), SemB_wait s := A (SemB_wait s) @ [c]))"
    using semB_take_ok [OF all_ok_D(1) [OF ok] c, of s timeout] all_ok_D(1) [OF ok] t by (auto split: if_splits)
qed (simp_all add: s)

lemma semC_take_step:
  assumes ok: "all_ok k A R" and c: "G_p_current_tcb k = Some c" and s: "s \<in> set (A SemC_list)" and t: "semC_take s timeout k = (r, k')"
  shows "system_ok k'"
proof (rule block_step [OF ok c, of _ "SemC_wait s"])
  show "quiet k k'" "semMs k' = semMs k" using t by (auto simp: semC_take_def split: if_splits)
  show "kernel_ok k' A \<or> kernel_ok k' (A(Ready_list (prio c k) := remove1 c (A (Ready_list (prio c k))), SemC_wait s := A (SemC_wait s) @ [c]))"
    using semC_take_ok [OF all_ok_D(1) [OF ok] c, of s timeout] all_ok_D(1) [OF ok] t by (auto split: if_splits)
qed (simp_all add: s)

lemma pop_step:
  assumes ok: "all_ok k A R" and k': "quiet k k'" "semMs k' = semMs k" "kernel_ok k' (popped l k'' A)" and l: "task_list l" "\<not> is_ready_list l"
  shows "system_ok k'"
  using all_ok_step [OF ok k'(3,1) _ moves_popped [OF all_ok_D(2) [OF ok] l]] k'(2) unfolding system_ok_def by metis

lemma semB_give_step:
  assumes ok: "all_ok k A R" and g: "semB_give s k = (r, k')"
  shows "system_ok k'"
proof -
  let ?k = "upd_semB s (\<lambda>b. b\<lparr>semB_owner := None\<rparr>) k"
  have "kernel_ok ?k A" using all_ok_D(1) [OF ok] kernel_ok_same [OF upd_semB_queues] by simp
  then have "kernel_ok k' (popped (SemB_wait s) ?k A)"
    using wake_first_running [of ?k A "SemB_wait s"] g by (simp add: semB_give_def)
  moreover have "quiet k k'" "semMs k' = semMs k" using g quiet_trans [OF _ quiet_wake(1) [of ?k]] by (auto simp: semB_give_def)
  ultimately show ?thesis using pop_step [OF ok] by simp
qed

lemma semC_give_step:
  assumes ok: "all_ok k A R" and g: "semC_give s k = (r, k')"
  shows "system_ok k'"
proof -
  have "quiet k k'" "semMs k' = semMs k" using g quiet_trans [OF _ quiet_wake(1)]
    by (auto simp: semC_give_def split: if_splits)
  then show ?thesis using semC_give_ok [OF all_ok_D(1) [OF ok], of s] g ok pop_step [OF ok, of k' "SemC_wait s"]
    by (auto simp: system_ok_def split: if_splits)
qed

lemma delay_step:
  assumes ok: "all_ok k A R" and c: "G_p_current_tcb k = Some c"
  shows "system_ok (delayQ_delay ticks k)"
proof -
  obtain p where p: "c \<in> set (A (Ready_list p))" "prio c k = p" using current_ready [OF all_ok_D(1) [OF ok] c] .
  have q: "quiet k (delayQ_delay ticks k)" "semMs (delayQ_delay ticks k) = semMs k"
    by (simp_all add: delayQ_delay_def Let_def quiet_tcb)
  have "\<exists>B. kernel_ok (delayQ_delay ticks k) B \<and> moves A B"
    using delayQ_delay_ok [OF all_ok_D(1) [OF ok] c, of ticks] p moves_block [of c A p Delay_list] moves_rotate [of c A p]
    by (auto split: if_splits)
  then show ?thesis using all_ok_step [OF ok _ q(1)] q(2) unfolding system_ok_def by metis
qed

lemma tick_step:
  assumes ok: "all_ok k A R" and c: "G_p_current_tcb k = Some c" and t: "timer_isr k = Some k'"
  shows "system_ok k'"
proof -
  obtain k1 B where 1: "tick_announce k = Some k1" "only_wakes A B" "same_objects (k\<lparr>G_ticks := G_ticks k + 1\<rparr>) k1"
    "same_stacks k k1" "kernel_ok k1 (B(Ready_list (prio c k) := remove1 c (B (Ready_list (prio c k))) @ [c]))"
    using tick_announce_ok [OF all_ok_D(1) [OF ok] c] by auto
  define C where "C = B(Ready_list (prio c k) := remove1 c (B (Ready_list (prio c k))) @ [c])"
  have "kernel_ok k' C" using switch_ok [of k1 C] 1 t by (auto simp: timer_isr_def CONTEXT_SWITCH_def C_def kernel_ok_def)
  moreover have "quiet k k'" "semMs k' = semMs k"
    using 1 t by (auto simp: timer_isr_def LOAD_HIGHEST_TASK_def quiet_def stores_kept_def same_objects_def same_stacks_def)
  moreover have "moves A C"
  proof -
    obtain p where p: "c \<in> set (A (Ready_list p))" "prio c k = p" using current_ready [OF all_ok_D(1) [OF ok] c] .
    then show ?thesis
      using moves_trans [OF only_wakes_moves [OF 1(2)] moves_rotate [of c B p]] only_wakes_D(2) [OF 1(2) p(1)]
      by (simp add: C_def)
  qed
  ultimately show ?thesis using all_ok_step [OF ok] unfolding system_ok_def by metis
qed

section \<open>Mutexes\<close>

lemma up_owner_pri_quiet:
  assumes "up_owner_pri a s k = Some k'"
  shows "quiet k k'"
proof (rule up_owner_pri.raw_induct [where P = "\<lambda>a s k k'. quiet k k'", OF _ assms])
  fix up :: "addr \<Rightarrow> addr \<Rightarrow> kernel \<Rightarrow> kernel option" and a s :: addr and k k' :: kernel
  let ?x = "deref (semM_owner (semMs k s))" and ?p = "task_priority (tcbs k a)"
  assume ih: "\<And>a s k k'. up a s k = Some k' \<Longrightarrow> quiet k k'"
    and run: "(let pTcb_owner = ?x; p = ?p
      in Option.bind
          (if p < task_priority (tcbs k pTcb_owner)
           then if status (tcbs k pTcb_owner) = TASK_STATUS_READY
                then Some (readyQ_put pTcb_owner (upd_tcb pTcb_owner (set_prio p) (readyQ_remove pTcb_owner k)))
                else if status (tcbs k pTcb_owner) = TASK_STATUS_PEND_SEM_M
                then up pTcb_owner (deref (pend_obj (tcbs k pTcb_owner))) (upd_tcb pTcb_owner (set_prio p) k)
                else Some (upd_tcb pTcb_owner (set_prio p) k)
           else Some k)
          (\<lambda>k1. Some (if task_priority (tcbs k1 a) < wait_pri (semMs k1 s)
                       then upd_semM s (\<lambda>s. s\<lparr>wait_pri := task_priority (tcbs k1 a)\<rparr>) k1 else k1))) = Some k'"
  have rec: "quiet k k1" if "up ?x (deref (pend_obj (tcbs k ?x))) (upd_tcb ?x (set_prio ?p) k) = Some k1" for k1
    using ih [OF that] by (rule quiet_trans [rotated]) simp
  show "quiet k k'" using run rec by (auto simp: Let_def bind_eq_Some_conv split: if_splits)
qed

lemma sort_pri_put_quiet: "sort_pri_put l a k = Some k' \<Longrightarrow> \<exists>f. k' = upd_lists f k"
  by (auto simp: sort_pri_put_def split: if_splits)

lemma semM_take_quiet: "semM_take s timeout k = Some (r, k') \<Longrightarrow> quiet k k'"
  using sort_pri_put_quiet up_owner_pri_quiet
  by (fastforce simp: semM_take_def bind_eq_Some_conv split: if_splits)

lemma semM_give_quiet:
  assumes "kernel_ok k A" and "G_p_current_tcb k = Some c" and "semM_give s k = Some (r, k')"
  shows "quiet k k'"
proof (cases "take_count (semMs k s) = 1")
  case True
  have "quiet k (handed_over s xs k)" for xs by (simp add: handed_over_def Let_def split: list.split)
  then show ?thesis using assms(3) semM_give_settles [OF assms(1,2) True] by (auto simp: settle_def split: if_splits)
next
  case False
  then show ?thesis using assms(3) by (auto simp: semM_give_def Let_def)
qed

lemma shifts_members: "shifts s A B \<Longrightarrow> same_members A B"
  by (simp add: shifts_def same_members_def)

lemma shifts_waits:
  assumes "shifts s A B" and "registered A (SemM_wait s) \<or> (B (SemM_wait s) \<noteq> [] \<longrightarrow> A (SemM_wait s) \<noteq> [])"
  shows "waits_kept A B"
proof -
  have "A l \<noteq> [] \<or> registered A l" if "B l \<noteq> []" for l
  proof (cases "is_ready_list l \<or> l = SemM_wait s")
    case True
    then show ?thesis using assms(2) that by (cases l) auto
  next
    case False
    then show ?thesis using assms(1) that by (simp add: shifts_def)
  qed
  moreover have "B l = A l" if "\<not> task_list l" for l using assms(1) that by (auto simp: shifts_def) (cases l; force)
  ultimately show ?thesis by (simp add: waits_kept_def)
qed

lemma semM_take_step:
  assumes ok: "all_ok k A R" and c: "G_p_current_tcb k = Some c" and s: "s \<in> set (A SemM_list)" and t: "semM_take s timeout k = Some (r, k')"
  shows "system_ok k'"
proof -
  note d = all_ok_D [OF ok]
  obtain C where C: "kernel_ok k' C" "mutexes_ok k' C" "shifts s A C"
    using semM_take_moves [OF d(1,5) c, of s timeout] t by auto
  then show ?thesis
    using all_ok_quiet [OF ok C(1) semM_take_quiet [OF t] C(2) shifts_members [OF C(3)] shifts_waits [OF C(3)]] s
    by (auto simp: system_ok_def)
qed

lemma semM_give_step:
  assumes ok: "all_ok k A R" and c: "G_p_current_tcb k = Some c" and t: "semM_give s k = Some (r, k')"
  shows "system_ok k'"
proof -
  note d = all_ok_D [OF ok]
  obtain C where C: "kernel_ok k' C" "mutexes_ok k' C" "shifts s A C" "C (SemM_wait s) \<noteq> [] \<longrightarrow> A (SemM_wait s) \<noteq> []"
    using semM_give_moves [OF d(1,5) c, of s] t by auto
  then show ?thesis
    using all_ok_quiet [OF ok C(1) semM_give_quiet [OF d(1) c t] C(2) shifts_members [OF C(3)] shifts_waits [OF C(3)]]
    by (auto simp: system_ok_def)
qed

lemma semM_take_resume_step:
  assumes ok: "all_ok k A R" and c: "G_p_current_tcb k = Some c" and t: "semM_take_resume k = (r, k')"
  shows "system_ok k'"
proof (cases "delay_ticks (tcbs k c) = 0")
  case True
  then show ?thesis using ok c t by (auto simp: semM_take_resume_def cur_def system_ok_def)
next
  case False
  then have k': "k' = upd_tcb c (\<lambda>t. t\<lparr>delay_ticks := 0\<rparr>) k" using c t by (simp add: semM_take_resume_def cur_def)
  have "all_ok k' A R" using clear_delay_ok [OF all_ok_D(1) [OF ok] c, of 0] by (intro all_ok_step [OF ok]) (simp_all add: k')
  then show ?thesis by (auto simp: system_ok_def)
qed

section \<open>Message queues\<close>

lemma stores_kept_upd [simp]:
  "stores_kept k (upd_lists f k') = stores_kept k k'" "stores_kept k (upd_msgQ q g k') = stores_kept k k'"
  "stores_kept k (upd_bytes h k') = stores_kept k k'" "stores_kept k (k'\<lparr>kheap := b\<rparr>) = stores_kept k k'"
  "stores_kept k (wake_first l k') = stores_kept k k'" "stores_kept k (upd_tcb a (\<lambda>t. t\<lparr>delay_ticks := d\<rparr>) k') = stores_kept k k'"
  "stores_kept k k"
  using quiet_wake(1) [of k' l] by (auto simp: stores_kept_def quiet_def upd_msgQ_def upd_bytes_def)

lemma msgQ_frames [simp]: "semMs (upd_msgQ q g k) = semMs k" "semMs (upd_bytes h k) = semMs k"
  by (simp_all add: upd_msgQ_def upd_bytes_def)

lemma msgQ_send_frame:
  "msgQ_send q buf n timeout k = Some (r, k') \<Longrightarrow> cur_num (msgQs k q) < max_num (msgQs k q) \<Longrightarrow> stores_kept k k' \<and> semMs k' = semMs k"
  by (auto simp: msgQ_send_def Let_def kmalloc_def split: option.splits if_splits)

lemma msgQ_receive_frame:
  assumes "msgQ_receive q buf n timeout k = Some (r, k')" and "0 < cur_num (msgQs k q)"
  shows "stores_kept k k' \<and> semMs k' = semMs k"
proof -
  let ?k = "upd_tcb (cur k) (\<lambda>t. t\<lparr>delay_ticks := 0\<rparr>) (upd_msgQ q (\<lambda>q. q\<lparr>cur_num := cur_num q - 1\<rparr>) k)"
  have "stores_kept k y \<and> semMs y = semMs k" if "list_get l ?k = (x, y)" for l x y
    using quiet_get [where k = ?k and l = l] stores_kept_trans [of k ?k] that by (simp add: quiet_def)
  then show ?thesis using assms
    by (auto simp: msgQ_receive_def Let_def kfree_def split: option.splits if_splits prod.splits)
qed

lemma popped_only_wakes:
  "distinct (A l) \<Longrightarrow> task_list l \<Longrightarrow> \<not> is_ready_list l \<Longrightarrow> only_wakes A (popped l k A)"
  using only_wakes_move [of "hd (A l)" A l] by (cases "A l") (simp_all add: popped_def)

text \<open>A message joins or leaves the queue \<open>q\<close> and the first task waiting for that is woken.\<close>

lemma message_step:
  assumes ok: "all_ok k A R" and q: "q \<in> set (A MsgQ_list)" and l: "l = MsgQ_send q \<or> l = MsgQ_recv q"
    and ys: "\<And>a. a \<in> set ys \<Longrightarrow> a \<in> set (A (MsgQ_msgs q)) \<or> in_heap a \<and> a < CONFIG_MEM_HEAP_HIGH"
    and kok: "kernel_ok k' (popped l k (A(MsgQ_msgs q := ys)))" and st: "stores_kept k k'" "semMs k' = semMs k"
    and ho: "store_ok k' (popped l k (A(MsgQ_msgs q := ys))) R'"
    and mq: "msgQs k' = (msgQs k)(q := (msgQs k q)\<lparr>cur_num := n\<rparr>)" "unat n = length ys"
  shows "system_ok k'"
proof -
  let ?A = "A(MsgQ_msgs q := ys)" and ?B = "popped l k (A(MsgQ_msgs q := ys))"
  note d = all_ok_D [OF ok]
  have l': "task_list l" "\<not> is_ready_list l" "?A l = A l" using l by auto
  then have "only_wakes ?A ?B" using popped_only_wakes [of ?A l k] dl.holds_distinct [OF d(9), of l] by auto
  then have mv: "moves ?A ?B" by (rule only_wakes_moves)
  have mA: "same_members A ?A" by (rule same_members_cong) auto
  then have mB: "same_members A ?B" using mv same_members_trans by (auto simp: moves_def)
  have nB: "?B m = ?A m" if "\<not> task_list m" for m using mv that by (simp add: moves_def waits_kept_def)
  have rB: "?B m = A m" if "is_registry m" for m using nB [of m] that by (cases m) auto
  have "all_ok k' ?B R'"
  proof (rule all_ok_change [OF ok kok st(1) _ ho mB rB])
    show "mutexes_ok k' ?B"
    proof (rule mutexes_ok_members [OF _ d(5)])
      show "queue_ok k' ?B" using kok by (simp add: kernel_ok_def)
      show "\<exists>l. task_list l \<and> x \<in> set (?B l)" if "task_list m" "x \<in> set (A m)" for x m
        using that mB unfolding same_members_def by blast
      show "A (SemM_wait s) \<noteq> []" if "?B (SemM_wait s) \<noteq> []" for s using that mv by (simp add: moves_def)
    qed (simp add: st)
    show "A m \<noteq> [] \<or> registered A m" if "?B m \<noteq> []" for m
    proof (cases "m = MsgQ_msgs q")
      case False
      have "registered ?A m = registered A m" by (rule registered_cong) auto
      then show ?thesis using that mv False by (auto simp: moves_def waits_kept_def)
    qed (simp add: q)
    show "queues_count k' ?B"
      using d(7) rB [of MsgQ_list] nB [of "MsgQ_msgs _"] mq by (auto simp: objects_ok_def queues_count_def)
    show "a \<in> set (A (MsgQ_msgs p)) \<or> in_heap a \<and> a < CONFIG_MEM_HEAP_HIGH" if "a \<in> set (?B (MsgQ_msgs p))" for p a
      using that nB [of "MsgQ_msgs p"] ys by (auto split: if_splits)
  qed
  then show ?thesis by (auto simp: system_ok_def)
qed

lemma msgQ_send_step:
  assumes ok: "all_ok k A R" and c: "G_p_current_tcb k = Some c" and q: "q \<in> set (A MsgQ_list)"
    and s: "msgQ_send q buf n timeout k = Some (r, k')"
  shows "system_ok k'"
proof (cases "cur_num (msgQs k q) < max_num (msgQs k q)")
  case True
  note d = all_ok_D [OF ok]
  let ?L = "max_len (msgQs k q)"
  obtain p h where m: "malloc (sizeof_DL_NODE + ?L) (Some c) (kheap k) = Some (p, h)"
    using s True c by (auto simp: msgQ_send_def Let_def kmalloc_def split: option.splits)
  have L: "unat ?L < 2 ^ 30" using d(7) q by (simp add: objects_ok_def queues_count_def)
  have n8: "unat (sizeof_DL_NODE + ?L) = 8 + unat ?L" using L by (simp add: unat_word_ariths)
  obtain sz where sz: "8 + unat ?L \<le> sz" "heap_uses h (insert (p, sz, Some c) R)" "\<forall>r \<in> R. apart (p, sz, Some c) r"
    "CONFIG_MEM_HEAP_LOW < p" "p + sz \<le> CONFIG_MEM_HEAP_HIGH"
    using malloc_region_law [OF d(8) m] n8 L by auto
  have nw: "nowhere p A" using fresh_node [OF d(6) sz(3) _ sz(4,5)] sz(1) by simp
  let ?B = "popped (MsgQ_recv q) k (A(MsgQ_msgs q := A (MsgQ_msgs q) @ [p]))"
  have k': "kernel_ok k' ?B" "msgQs k' = (msgQs k)(q := (msgQs k q)\<lparr>cur_num := cur_num (msgQs k q) + 1\<rparr>)"
    and hp: "heap_uses (kheap k') (insert (p, sz, Some c) R)"
    using msgQ_send_runs [OF d(1) c nw True m, of buf n timeout] s sz(2) by (auto simp: sent_def)
  show ?thesis
  proof (rule message_step [OF ok q _ _ k'(1) _ _ _ k'(2)])
    show "store_ok k' ?B (insert (p, sz, Some c) R)"
    proof (rule store_ok_insert [OF d(6) hp sz(3)])
      show "(\<exists>l. a \<in> set (A l)) \<or> a = p" if "a \<in> set (?B l)" for l a
        using popped_sub [OF _ that] by (auto split: if_splits)
    qed (use sz(1) in simp)
    show "unat (cur_num (msgQs k q) + 1) = length (A (MsgQ_msgs q) @ [p])"
      using unat_plus_one_less [OF True] d(7) q by (simp add: objects_ok_def queues_count_def)
    show "a \<in> set (A (MsgQ_msgs q)) \<or> in_heap a \<and> a < CONFIG_MEM_HEAP_HIGH" if "a \<in> set (A (MsgQ_msgs q) @ [p])" for a
      using that sz by (auto simp: in_heap_def)
  qed (use msgQ_send_frame [OF s True] in auto)
next
  case False
  show ?thesis
  proof (rule block_step [OF ok c, of _ "MsgQ_send q"])
    show "quiet k k'" "semMs k' = semMs k" using s False by (auto simp: msgQ_send_def split: if_splits)
    show "kernel_ok k' A \<or> kernel_ok k' (A(Ready_list (prio c k) := remove1 c (A (Ready_list (prio c k))), MsgQ_send q := A (MsgQ_send q) @ [c]))"
      using s False pend_current_ok [OF all_ok_D(1) [OF ok] c, of timeout "MsgQ_send q" TASK_STATUS_PEND_MSG_S q] all_ok_D(1) [OF ok]
      by (auto simp: msgQ_send_def home_def split: if_splits)
  qed (simp_all add: q)
qed

lemma msgQ_receive_step:
  assumes ok: "all_ok k A R" and c: "G_p_current_tcb k = Some c" and q: "q \<in> set (A MsgQ_list)"
    and s: "msgQ_receive q buf n timeout k = Some (r, k')"
  shows "system_ok k'"
proof (cases "0 < cur_num (msgQs k q)")
  case True
  note d = all_ok_D [OF ok]
  let ?m = "snd (memcpy buf (hd (A (MsgQ_msgs q)) + unat sizeof_DL_NODE) (msg_len n (msgQs k q)) (bytes (kheap k)))"
  have len: "unat (cur_num (msgQs k q)) = length (A (MsgQ_msgs q))" using d(7) q by (simp add: objects_ok_def queues_count_def)
  then obtain a xs where a: "A (MsgQ_msgs q) = a # xs" using True by (cases "A (MsgQ_msgs q)") (auto simp: unat_eq_0)
  have "in_heap a" "a \<noteq> CONFIG_MEM_HEAP_HIGH"
    using d(7) a unfolding objects_ok_def by (metis list.set_intros(1))+
  then have "CONFIG_MEM_HEAP_LOW \<le> a" "a < CONFIG_MEM_HEAP_HIGH" by (auto simp: in_heap_def)
  moreover have "a \<in> set (A (MsgQ_msgs q))" using a by simp
  ultimately obtain sz t where r: "(a, sz, t) \<in> R" using d(6) unfolding store_ok_def by blast
  have "heap_uses ((kheap k)\<lparr>bytes := ?m\<rparr>) R" using d(8) by simp
  from heap_free_law [OF this r] obtain h where h: "free a ((kheap k)\<lparr>bytes := ?m\<rparr>) = Some h" "heap_uses h (R - {(a, sz, t)})"
    by blast
  let ?B = "popped (MsgQ_send q) k (A(MsgQ_msgs q := xs))"
  have k': "kernel_ok k' ?B" "msgQs k' = (msgQs k)(q := (msgQs k q)\<lparr>cur_num := cur_num (msgQs k q) - 1\<rparr>)" "kheap k' = h"
    using msgQ_receive_runs [OF d(1) c a True, of buf n h timeout] h(1) s a by auto
  have nw: "nowhere a (A(MsgQ_msgs q := xs))"
    using list_get_ok [OF d(2), of "MsgQ_msgs q"] a by auto
  show ?thesis
  proof (rule message_step [OF ok q _ _ k'(1) _ _ _ k'(2)])
    show "store_ok k' ?B (R - {(a, sz, t)})"
    proof (rule store_ok_remove [OF d(6)])
      show "nowhere a ?B" using popped_sub [of "MsgQ_send q" a k "A(MsgQ_msgs q := xs)"] nw by auto
      show "\<exists>l. b \<in> set (A l)" if "b \<in> set (?B l)" for l b
        using popped_sub [OF _ that] a by (auto split: if_splits) (metis list.set_intros(2))
    qed (use h(2) k'(3) in simp)
    have "cur_num (msgQs k q) \<noteq> 0" using True by auto
    then show "unat (cur_num (msgQs k q) - 1) = length xs" using unat_minus_one_pos len a by fastforce
    show "b \<in> set (A (MsgQ_msgs q)) \<or> in_heap b \<and> b < CONFIG_MEM_HEAP_HIGH" if "b \<in> set xs" for b using that a by simp
  qed (use msgQ_receive_frame [OF s True] in auto)
next
  case False
  show ?thesis
  proof (rule block_step [OF ok c, of _ "MsgQ_recv q"])
    show "quiet k k'" "semMs k' = semMs k" using s False by (auto simp: msgQ_receive_def split: if_splits)
    show "kernel_ok k' A \<or> kernel_ok k' (A(Ready_list (prio c k) := remove1 c (A (Ready_list (prio c k))), MsgQ_recv q := A (MsgQ_recv q) @ [c]))"
      using s False pend_current_ok [OF all_ok_D(1) [OF ok] c, of timeout "MsgQ_recv q" TASK_STATUS_PEND_MSG_R q] all_ok_D(1) [OF ok]
      by (auto simp: msgQ_receive_def home_def split: if_splits)
  qed (simp_all add: q)
qed

section \<open>Memory\<close>

lemma malloc_step:
  assumes ok: "all_ok k A R" and n: "unat n + 3 < 2 ^ 32" and m: "kmalloc n k = Some (p, k')"
  shows "system_ok k'"
  using all_ok_malloc [OF ok m n] by (auto simp: system_ok_def)

lemma free_step:
  assumes ok: "all_ok k A R" and p: "(p, sz, t) \<in> R" "nowhere p A" and f: "kfree p k = Some k'"
  shows "system_ok k'"
  using all_ok_free [OF ok f p] by (auto simp: system_ok_def)

lemma write_step:
  assumes ok: "all_ok k A R"
  shows "system_ok (upd_bytes f k)"
proof -
  have "store_ok (upd_bytes f k) A R" using all_ok_D(6) [OF ok] by (simp add: store_ok_def)
  then show ?thesis using all_ok_heap [OF ok, of "(kheap k)\<lparr>bytes := f (bytes (kheap k))\<rparr>" R]
    by (auto simp: upd_bytes_def system_ok_def)
qed

section \<open>Tasks\<close>

lemma all_ok_tasks:
  assumes ok: "all_ok k A R" and kok: "kernel_ok k' B" and tk: "tasks_ok k' B" and pl: "placed k' B"
    and fr: "G_tcb k' = G_tcb k" "msgQs k' = msgQs k" "kheap k' = (kheap k)\<lparr>bytes := b\<rparr>" "\<And>s. semM_owner (semMs k' s) = semM_owner (semMs k s)"
    and own: "\<And>x l. x \<in> owners k \<Longrightarrow> task_list l \<Longrightarrow> x \<in> set (A l) \<Longrightarrow> \<exists>l. task_list l \<and> x \<in> set (B l)"
    and w: "waits_kept A B" "\<And>s. B (SemM_wait s) \<noteq> [] \<Longrightarrow> A (SemM_wait s) \<noteq> []"
  shows "all_ok k' B R"
proof -
  note d = all_ok_D [OF ok]
  have sl: "slots k' = slots k" using fr(1) by (simp add: slots_def)
  have o: "B l = A l" if "\<not> task_list l" for l using w(1) that by (simp add: waits_kept_def)
  have out: "\<not> in_heap a" if "task_list l" "a \<in> set (B l)" for l a
    using placed_slots [OF pl that] d(7) by (simp add: sl objects_ok_def)
  have "mutexes_ok k' B"
  proof (rule mutexes_ok_members [OF _ d(5) fr(4) own w(2)])
    show "queue_ok k' B" using kok by (simp add: kernel_ok_def)
  qed
  moreover have "store_ok k' B R"
    unfolding store_ok_def
  proof (intro conjI allI impI)
    fix l a assume a: "a \<in> set (B l)" "CONFIG_MEM_HEAP_LOW \<le> a" "a < CONFIG_MEM_HEAP_HIGH"
    then have "\<not> task_list l" using out [of l a] by (auto simp: in_heap_def)
    then have "a \<in> set (A l)" using a(1) o by simp
    then show "\<exists>sz t. (a, sz, t) \<in> R \<and> unat sizeof_DL_NODE \<le> sz" using d(6) a(2,3) unfolding store_ok_def by blast
  qed (use d(6,8) fr(3) in \<open>simp_all add: store_ok_def\<close>)
  moreover have "CONFIG_MEM_HEAP_HIGH \<notin> set (B l)" for l
    using out [of l CONFIG_MEM_HEAP_HIGH] o [of l] d(7) by (cases "task_list l") (auto simp: objects_ok_def in_heap_def)
  moreover have "registered B l" if "B l \<noteq> []" for l
    using that w(1) d(7) registered_cong [of B A l] waits_kept_D [OF w(1)] by (auto simp: objects_ok_def waits_kept_def)
  ultimately show ?thesis using kok tk pl d(7) o fr(2) by (simp add: all_ok_def objects_ok_def queues_count_def sl)
qed

lemma task_create_frame:
  assumes "task_create stack_init nm sz prty entry a1 a2 k = (r, k')"
  shows "semMs k' = semMs k" "msgQs k' = msgQs k" "\<exists>b. kheap k' = (kheap k)\<lparr>bytes := b\<rparr>"
    "G_p_current_tcb k' = G_p_current_tcb k"
proof -
  have id: "\<exists>b. h = h\<lparr>bytes := b\<rparr>" for h :: heap by (rule exI [of _ "bytes h"]) simp
  have upd: "\<exists>b. h\<lparr>bytes := b'\<rparr> = h\<lparr>bytes := b\<rparr>" for h :: heap and b' by blast
  show "semMs k' = semMs k" "msgQs k' = msgQs k" "\<exists>b. kheap k' = (kheap k)\<lparr>bytes := b\<rparr>"
    "G_p_current_tcb k' = G_p_current_tcb k"
    using assms id upd
    by (auto simp: task_create_def alloc_tcb_def alloc_stack_def release_tcb_def Let_def split: prod.splits option.splits if_splits)
qed

lemma create_step:
  assumes ok: "all_ok k A R" and p: "unat prty < PRIORITY_NUM_MAX" "unat sz \<le> 0x800000"
    and c: "task_create stack_init nm sz prty entry a1 a2 k = (r, k')"
  shows "\<exists>B. all_ok k' B R \<and>
    (\<forall>t. r = Some t \<longrightarrow> B = A(Ready_list (unat prty) := A (Ready_list (unat prty)) @ [t]) \<and> G_p_current_tcb k' = G_p_current_tcb k)"
proof -
  note d = all_ok_D [OF ok]
  note tc = task_create_ok [where stack_init = stack_init and nm = nm and entry = entry and ?a1.0 = a1 and ?a2.0 = a2,
    OF d(1,3) p, unfolded c]
  obtain b where fr: "semMs k' = semMs k" "msgQs k' = msgQs k" "kheap k' = (kheap k)\<lparr>bytes := b\<rparr>"
    using task_create_frame [OF c] by blast
  show ?thesis
  proof (cases r)
    case None
    then have n: "kernel_ok k' A" "tasks_ok k' A" "live k' = live k" "G_tcb k' = G_tcb k" using tc by auto
    have "placed k' A" using d(4) n(3,4) by (simp add: placed_def)
    then have "all_ok k' A R"
      by (intro all_ok_tasks [OF ok n(1,2) _ n(4) fr(2,3)]) (auto simp: fr(1) waits_kept_def)
    with None show ?thesis by auto
  next
    case (Some t)
    let ?B = "A(Ready_list (unat prty) := A (Ready_list (unat prty)) @ [t])"
    obtain n where n: "t = tcb_at k n" "kernel_ok k' ?B" "tasks_ok k' ?B" "live k' = insert n (live k)" "G_tcb k' = G_tcb k"
      "G_p_current_tcb k' = G_p_current_tcb k"
      using tc Some by auto
    have m: "(\<exists>l. task_list l \<and> a \<in> set (?B l)) \<longleftrightarrow> a = t \<or> (\<exists>l. task_list l \<and> a \<in> set (A l))" for a
    proof (cases "a = t")
      case True
      then show ?thesis by (auto intro: exI [of _ "Ready_list (unat prty)"])
    next
      case False
      then have "a \<in> set (?B l) \<longleftrightarrow> a \<in> set (A l)" for l by auto
      then show ?thesis using False by simp
    qed
    have "placed k' ?B" using d(4) n(1,4,5) m unfolding placed_def by auto
    then have "all_ok k' ?B R"
      by (intro all_ok_tasks [OF ok n(2,3) _ n(5) fr(2,3)]) (use m fr(1) in \<open>auto simp: waits_kept_def\<close>)
    with Some n(6) show ?thesis by auto
  qed
qed

lemma members_without:
  assumes "nowhere t (A(l := remove1 t (A l)))"
  shows "(\<exists>m. task_list m \<and> a \<in> set ((A(l := remove1 t (A l))) m)) \<longleftrightarrow> a \<noteq> t \<and> (\<exists>m. task_list m \<and> a \<in> set (A m))"
proof (cases "a = t")
  case True
  then show ?thesis using assms by auto
next
  case False
  then have "a \<in> set ((A(l := remove1 t (A l))) m) \<longleftrightarrow> a \<in> set (A m)" for m by auto
  then show ?thesis using False by simp
qed

lemma placed_without:
  assumes "placed k A" and "\<And>a. (\<exists>l. task_list l \<and> a \<in> set (B l)) \<longleftrightarrow> a \<noteq> tcb_at k n \<and> (\<exists>l. task_list l \<and> a \<in> set (A l))"
  shows "\<forall>a. (\<exists>l. task_list l \<and> a \<in> set (B l)) \<longleftrightarrow> a \<in> tcb_at k ` (live k - {n})"
proof
  fix a
  have "tcb_at k ` (live k - {n}) = tcb_at k ` live k - {tcb_at k n}" by auto
  then show "(\<exists>l. task_list l \<and> a \<in> set (B l)) \<longleftrightarrow> a \<in> tcb_at k ` (live k - {n})"
    using assms(1) unfolding assms(2) placed_def by auto
qed

text \<open>A task that owns no mutex leaves the mutexes alone when it is deleted.\<close>

lemma semM_free_none:
  assumes q: "queue_ok k A" and t: "t \<notin> owners k"
  shows "semM_free t k = Some k"
proof -
  have "\<exists>k' B. dlist_each lmem SemM_list (free_semM t) k = Some (None, k') \<and> k' = k \<and> B = A"
  proof (rule each_object [where W = "\<lambda>s B. s = k \<and> B = A", OF q])
    show "\<exists>s' C. free_semM t x s = Some (OS_STATUS_OK, s') \<and> s' = k \<and> C = A" if "s = k \<and> B = A" for x s B
      using that t by (auto simp: free_semM_def owners_def)
  qed (use q in auto)
  then show ?thesis by (simp add: semM_free_def)
qed

lemma leave_queue_frame:
  "semM_owner (semMs (leave_queue t k) s) = semM_owner (semMs k s)" "msgQs (leave_queue t k) = msgQs k"
  "G_p_current_tcb (leave_queue t k) = G_p_current_tcb k"
proof -
  have "msgQs (update_wait_pri x k') = msgQs k'" "G_p_current_tcb (update_wait_pri x k') = G_p_current_tcb k'"
    "semM_owner (semMs (update_wait_pri x k') s) = semM_owner (semMs k' s)" for x k'
    by (simp_all add: update_wait_pri_def upd_semM_def)
  then show "semM_owner (semMs (leave_queue t k) s) = semM_owner (semMs k s)" "msgQs (leave_queue t k) = msgQs k"
    "G_p_current_tcb (leave_queue t k) = G_p_current_tcb k"
    by (cases "status (tcbs k t)";
      simp add: leave_queue_def Let_def delayQ_remove_def semB_remove_def semC_remove_def semM_remove_def msgQ_remove_def)+
qed

lemma delete_task_step:
  assumes ok: "all_ok k A R" and n: "n \<in> live k" and c: "G_p_current_tcb k \<noteq> Some (tcb_at k n)" and o: "tcb_at k n \<notin> owners k"
    and x: "task_delete (tcb_at k n) k = Some (r, k')"
  shows "system_ok k'" "G_p_current_tcb k' = G_p_current_tcb k"
proof -
  let ?t = "tcb_at k n"
  note d = all_ok_D [OF ok]
  obtain l where l: "task_list l" "?t \<in> set (A l)" using d(4) n unfolding placed_def by blast
  let ?A = "A(l := remove1 ?t (A l))"
  obtain B where B: "kernel_ok k' B" "tasks_ok k' B" "nowhere ?t B" "only_wakes ?A B" "live k' = live k - {n}" "G_tcb k' = G_tcb k"
    "kheap k' = kheap k"
    using task_delete_ok [OF d(1,3) n refl l c] x by auto
  let ?j = "leave_queue ?t k"
  have qj: "queue_ok ?j ?A" using leave_queue_ok(1) [OF d(2) l] .
  have "?t \<notin> owners ?j" using o by (simp add: owners_def leave_queue_frame)
  from semM_free_none [OF qj this] have fr: "semMs k' = semMs ?j" "msgQs k' = msgQs ?j" and cj: "G_p_current_tcb k' = G_p_current_tcb ?j"
    using x by (auto simp: task_delete_def release_tcb_def release_stack_def Let_def)
  show "G_p_current_tcb k' = G_p_current_tcb k" using cj by (simp add: leave_queue_frame)
  have gone: "nowhere ?t ?A" by (rule dequeued_nowhere [OF d(2) l(2)])
  have mem: "(\<exists>l. task_list l \<and> a \<in> set (B l)) \<longleftrightarrow> a \<noteq> ?t \<and> (\<exists>l. task_list l \<and> a \<in> set (A l))" for a
  proof -
    have "(\<exists>l. task_list l \<and> a \<in> set (B l)) \<longleftrightarrow> (\<exists>l. task_list l \<and> a \<in> set (?A l))" using B(4) unfolding only_wakes_def by blast
    then show ?thesis unfolding members_without [OF gone] .
  qed
  have "placed k' B" using placed_without [OF d(4) mem] B(5,6) by (simp add: placed_def)
  note pl = this
  have mv: "moves ?A B" by (rule only_wakes_moves [OF B(4)])
  have sub: "A m \<noteq> []" if "?A m \<noteq> []" for m using that by (auto split: if_splits)
  have reg: "registered ?A m = registered A m" for m using l(1) by (intro registered_cong) (cases l; auto)
  have w: "waits_kept A B" using mv sub l(1) unfolding moves_def waits_kept_def reg by (metis fun_upd_apply)
  have "all_ok k' B R"
  proof (rule all_ok_tasks [OF ok B(1,2) pl B(6), of "bytes (kheap k)"])
    show "msgQs k' = msgQs k" "semM_owner (semMs k' s) = semM_owner (semMs k s)" for s by (simp_all add: fr leave_queue_frame)
    show "\<exists>l. task_list l \<and> y \<in> set (B l)" if "y \<in> owners k" "task_list m" "y \<in> set (A m)" for y m
      using that o mem [of y] by blast
    show "A (SemM_wait s) \<noteq> []" if "B (SemM_wait s) \<noteq> []" for s using that mv sub by (auto simp: moves_def)
  qed (simp_all add: B(7) w)
  then show "system_ok k'" by (auto simp: system_ok_def)
qed

lemma exit_step:
  assumes ok: "all_ok k A R" and n: "n \<in> live k" and c: "G_p_current_tcb k = Some (tcb_at k n)" and o: "tcb_at k n \<notin> owners k"
  shows "system_ok (task_entry_exit (tcb_at k n) k)"
proof -
  let ?t = "tcb_at k n" and ?k = "task_entry_exit (tcb_at k n) k"
  let ?l = "Ready_list (prio ?t k)"
  let ?B = "A(?l := remove1 ?t (A ?l))"
  note d = all_ok_D [OF ok]
  note e = task_entry_exit_ok [OF d(1,3) n c]
  have fr: "semMs ?k = semMs k" "msgQs ?k = msgQs k" "kheap ?k = kheap k"
    by (simp_all add: task_entry_exit_def release_tcb_def release_stack_def LOAD_HIGHEST_TASK_def Let_def)
  have mem: "(\<exists>l. task_list l \<and> a \<in> set (?B l)) \<longleftrightarrow> a \<noteq> ?t \<and> (\<exists>l. task_list l \<and> a \<in> set (A l))" for a
    by (rule members_without [OF e(3)])
  have pl: "placed ?k ?B" using placed_without [OF d(4) mem] e(5,6) unfolding placed_def by simp
  have "all_ok ?k ?B R"
  proof (rule all_ok_tasks [OF ok e(1,2) pl e(6), of "bytes (kheap k)"])
    show "\<exists>l. task_list l \<and> y \<in> set (?B l)" if "y \<in> owners k" "task_list m" "y \<in> set (A m)" for y m
      using that o mem [of y] by blast
  qed (simp_all add: fr waits_kept_def)
  then show ?thesis by (auto simp: system_ok_def)
qed

end
