(* ===== verification/System.thy ===== *)
theory System
  imports Kernel_Steps
begin

text \<open>
  The kernel as a machine: a step is one kernel call of the running task, the return of a
  blocked call, a timer interrupt, the creation, deletion or end of a task, or a use of the heap or the
  memory by a task. Every public operation of the semaphores, mutexes, message queues, delay
  queue and tasks that changes the state is a step, but for \<^verbatim>\<open>msgQ_delete\<close>, which can lose a task
  (\<open>msgQ_delete_drops_waiter\<close>); of the heap \<^verbatim>\<open>malloc\<close> and \<^verbatim>\<open>free\<close> are.
  A call has the guards a correct client keeps: the object that a call may block on or delete is registered, a new static
  object is outside of the heap and of the TCBs and in no list, messages are shorter than 1 GB, a task has a priority below 256
  and a stack of at most 8 MB, a task that is deleted or returns owns no mutex (the code
  leaves it the owner: \<^verbatim>\<open>_free_semM\<close> wakes a waiter without making it the owner, \<^verbatim>\<open>_task_entry\<close> does not free mutexes),
  a request to \<^verbatim>\<open>malloc\<close> does not wrap when it is rounded up, and a block that is freed is in use and is no kernel object.
  The memory a task writes to is that outside of the kernel's own structures.
  The invariant \<open>system_ok\<close> holds in every reachable state, so no task is ever lost.
\<close>

section \<open>What the lists and the heap hold\<close>

text \<open>The guards speak of the one reading of the lists and of the heap there is.\<close>

lemma links_unique: "links h p xs None \<Longrightarrow> links h p' ys None \<Longrightarrow> first xs = first ys \<Longrightarrow> xs = ys"
proof (induction xs arbitrary: p p' ys)
  case Nil
  then show ?case by (cases ys) auto
next
  case (Cons x xs)
  then obtain ys' where ys: "ys = x # ys'" by (cases ys) auto
  then have "first xs = first ys'" using Cons.prems(1,2) by (auto split: list.splits)
  then show ?case using Cons.IH [of "Some x" "Some x" ys'] Cons.prems ys by simp
qed

lemma dl_holds_unique:
  assumes "dl_holds m A" and "dl_holds m B"
  shows "A = B"
proof
  fix l
  have "links (nodes m) None (A l) None" "links (nodes m) None (B l) None" "first (A l) = first (B l)"
    using assms by (simp_all add: dl_holds_def dl_rep_def)
  then show "A l = B l" by (rule links_unique)
qed

lemma chain_unique:
  assumes "chain bl pv a bs None" "chain bl pv' a cs None" "span bs < 2 ^ 32" "span cs < 2 ^ 32" "bs \<noteq> []" "cs \<noteq> []"
  shows "bs = cs"
  using assms
proof (induction bs arbitrary: a pv pv' cs)
  case (Cons b bs)
  then obtain c cs' where cs: "cs = c # cs'" by (cases cs) auto
  have h: "blk_head pv (if bs = [] then None else Some (a + 20 + bsz b)) b =
      blk_head pv' (if cs' = [] then None else Some (a + 20 + bsz c)) c"
    using Cons.prems(1,2) by (simp add: cs)
  have "(of_nat (bsz b) :: uint32) = of_nat (bsz c)" using arg_cong [OF h, of bh_size] by simp
  then have "unat (of_nat (bsz b) :: uint32) = unat (of_nat (bsz c) :: uint32)" by simp
  moreover have "bsz b < 2 ^ 32" "bsz c < 2 ^ 32" using Cons.prems(3,4) by (simp_all add: cs)
  ultimately have sz: "bsz b = bsz c" by (simp add: unat_of_nat take_bit_nat_eq_self)
  have "alloced b = alloced c" "owner b = owner c" "bs = [] \<longleftrightarrow> cs' = []"
    using arg_cong [OF h, of bh_is_alloced] arg_cong [OF h, of bh_owner_tcb] arg_cong [OF h, of bh_next] by (auto split: if_splits)
  with sz have bc: "b = c" and e: "bs = [] \<longleftrightarrow> cs' = []" by (cases b; cases c; simp)+
  show ?case
  proof (cases "bs = []")
    case False
    then show ?thesis using Cons.IH [of "Some a" "a + 20 + bsz b" "Some a" cs'] Cons.prems e bc by (simp add: cs)
  qed (use e bc in \<open>simp add: cs\<close>)
qed simp

lemma heap_uses_unique:
  assumes "heap_uses h R" and "heap_uses h S"
  shows "R = S"
proof -
  obtain bs where b: "heap_holds h bs" "R = regions CONFIG_MEM_HEAP_LOW bs" using assms(1) by (auto simp: heap_uses_def)
  obtain cs where c: "heap_holds h cs" "S = regions CONFIG_MEM_HEAP_LOW cs" using assms(2) by (auto simp: heap_uses_def)
  note heap_holds_D [OF b(1)] heap_holds_D [OF c(1)]
  then have "bs = cs" by (intro chain_unique [of "heads h" None CONFIG_MEM_HEAP_LOW bs None cs]) simp_all
  with b c show ?thesis by simp
qed

definition linked :: "kernel \<Rightarrow> list_ref \<Rightarrow> addr \<Rightarrow> bool" where
  "linked k l a \<longleftrightarrow> (\<exists>A. dl_holds (lmem k) A \<and> a \<in> set (A l))"

definition unlinked :: "kernel \<Rightarrow> addr \<Rightarrow> bool" where
  "unlinked k a \<longleftrightarrow> (\<exists>A. dl_holds (lmem k) A \<and> nowhere a A)"

definition in_use :: "kernel \<Rightarrow> addr \<Rightarrow> bool" where
  "in_use k p \<longleftrightarrow> (\<exists>R sz t. heap_uses (kheap k) R \<and> (p, sz, t) \<in> R)"

text \<open>\<^verbatim>\<open>NULL\<close>, or an object of the caller in static memory that is in no list.\<close>

definition new_object :: "kernel \<Rightarrow> ptr \<Rightarrow> bool" where
  "new_object k obj \<longleftrightarrow> (\<forall>p. obj = Some p \<longrightarrow> unlinked k p \<and> p \<notin> slots k \<and> \<not> in_heap p)"

lemma guards:
  assumes "all_ok k A R"
  shows "linked k l a \<longleftrightarrow> a \<in> set (A l)" "unlinked k a \<longleftrightarrow> nowhere a A" "in_use k p \<longleftrightarrow> (\<exists>sz t. (p, sz, t) \<in> R)"
    "new_object k obj \<longleftrightarrow> static_object k A obj"
proof -
  note d = all_ok_D [OF assms]
  have one: "(\<exists>B. dl_holds (lmem k) B \<and> P B) \<longleftrightarrow> P A" for P using dl_holds_unique [OF d(9)] d(9) by blast
  show "linked k l a \<longleftrightarrow> a \<in> set (A l)" unfolding linked_def by (rule one)
  have u: "unlinked k b \<longleftrightarrow> nowhere b A" for b unfolding unlinked_def by (rule one)
  then show "unlinked k a \<longleftrightarrow> nowhere a A" .
  have "(\<exists>S. heap_uses (kheap k) S \<and> P S) \<longleftrightarrow> P R" for P using heap_uses_unique [OF d(8)] d(8) by blast
  from this [of "\<lambda>S. \<exists>sz t. (p, sz, t) \<in> S"] show "in_use k p \<longleftrightarrow> (\<exists>sz t. (p, sz, t) \<in> R)" by (simp add: in_use_def)
  show "new_object k obj \<longleftrightarrow> static_object k A obj" by (simp add: new_object_def static_object_def u)
qed

section \<open>Steps\<close>

inductive kstep :: "(addr \<Rightarrow> uint32 \<Rightarrow> cmem \<Rightarrow> uint32 \<times> cmem) \<Rightarrow> kernel \<Rightarrow> kernel \<Rightarrow> bool" for stack_init where
  dispatch: "G_p_current_tcb k = None \<Longrightarrow> kstep stack_init k (LOAD_HIGHEST_TASK k)"
| delay: "G_p_current_tcb k = Some c \<Longrightarrow> kstep stack_init k (delayQ_delay ticks k)"
| tick: "G_p_current_tcb k = Some c \<Longrightarrow> timer_isr k = Some k' \<Longrightarrow> kstep stack_init k k'"
| semB_init: "new_object k obj \<Longrightarrow> semB_init obj k = Some (p, k') \<Longrightarrow> kstep stack_init k k'"
| semB_take: "G_p_current_tcb k = Some c \<Longrightarrow> linked k SemB_list s \<Longrightarrow> semB_take s timeout k = (r, k') \<Longrightarrow> kstep stack_init k k'"
| semB_resume: "G_p_current_tcb k = Some c \<Longrightarrow> linked k SemB_list s \<or> delay_ticks (tcbs k c) = 0 \<Longrightarrow>
     semB_take_resume s k = (r, k') \<Longrightarrow> kstep stack_init k k'"
| semB_give: "semB_give s k = (r, k') \<Longrightarrow> kstep stack_init k k'"
| semB_flush: "semB_flush s k = Some (r, k') \<Longrightarrow> kstep stack_init k k'"
| semB_delete: "linked k SemB_list s \<Longrightarrow> semB_delete s k = Some (r, k') \<Longrightarrow> kstep stack_init k k'"
| semC_init: "new_object k obj \<Longrightarrow> semC_init obj n mx k = Some (p, k') \<Longrightarrow> kstep stack_init k k'"
| semC_take: "G_p_current_tcb k = Some c \<Longrightarrow> linked k SemC_list s \<Longrightarrow> semC_take s timeout k = (r, k') \<Longrightarrow> kstep stack_init k k'"
| semC_resume: "G_p_current_tcb k = Some c \<Longrightarrow> linked k SemC_list s \<or> delay_ticks (tcbs k c) = 0 \<Longrightarrow>
     semC_take_resume s k = (r, k') \<Longrightarrow> kstep stack_init k k'"
| semC_give: "semC_give s k = (r, k') \<Longrightarrow> kstep stack_init k k'"
| semC_flush: "semC_flush s k = Some (r, k') \<Longrightarrow> kstep stack_init k k'"
| semC_delete: "linked k SemC_list s \<Longrightarrow> semC_delete s k = Some (r, k') \<Longrightarrow> kstep stack_init k k'"
| semM_init: "new_object k obj \<Longrightarrow> semM_init obj k = Some (p, k') \<Longrightarrow> kstep stack_init k k'"
| semM_take: "G_p_current_tcb k = Some c \<Longrightarrow> linked k SemM_list s \<Longrightarrow> semM_take s timeout k = Some (r, k') \<Longrightarrow> kstep stack_init k k'"
| semM_resume: "G_p_current_tcb k = Some c \<Longrightarrow> semM_take_resume k = (r, k') \<Longrightarrow> kstep stack_init k k'"
| semM_give: "G_p_current_tcb k = Some c \<Longrightarrow> semM_give s k = Some (r, k') \<Longrightarrow> kstep stack_init k k'"
| msgQ_init: "new_object k obj \<Longrightarrow> unat mlen < 2 ^ 30 \<Longrightarrow> msgQ_init obj mnum mlen k = Some (p, k') \<Longrightarrow> kstep stack_init k k'"
| msgQ_send: "G_p_current_tcb k = Some c \<Longrightarrow> linked k MsgQ_list q \<Longrightarrow> msgQ_send q buf len timeout k = Some (r, k') \<Longrightarrow>
     kstep stack_init k k'"
| msgQ_send_resume: "G_p_current_tcb k = Some c \<Longrightarrow> linked k MsgQ_list q \<or> delay_ticks (tcbs k c) = 0 \<Longrightarrow>
     msgQ_send_resume q buf len k = Some (r, k') \<Longrightarrow> kstep stack_init k k'"
| msgQ_receive: "G_p_current_tcb k = Some c \<Longrightarrow> linked k MsgQ_list q \<Longrightarrow> msgQ_receive q buf len timeout k = Some (r, k') \<Longrightarrow>
     kstep stack_init k k'"
| msgQ_receive_resume: "G_p_current_tcb k = Some c \<Longrightarrow> linked k MsgQ_list q \<or> delay_ticks (tcbs k c) = 0 \<Longrightarrow>
     msgQ_receive_resume q buf len k = Some (r, k') \<Longrightarrow> kstep stack_init k k'"
| malloc: "unat n + 3 < 2 ^ 32 \<Longrightarrow> kmalloc n k = Some (p, k') \<Longrightarrow> kstep stack_init k k'"
| free: "in_use k p \<Longrightarrow> unlinked k p \<Longrightarrow> kfree p k = Some k' \<Longrightarrow> kstep stack_init k k'"
| store: "kstep stack_init k (upd_bytes f k)"
| create: "unat prty < PRIORITY_NUM_MAX \<Longrightarrow> unat sz \<le> 0x800000 \<Longrightarrow>
     task_create stack_init nm sz prty entry a1 a2 k = (r, k') \<Longrightarrow> kstep stack_init k k'"
| delete: "n \<in> live k \<Longrightarrow> G_p_current_tcb k \<noteq> Some (tcb_at k n) \<Longrightarrow> tcb_at k n \<notin> owners k \<Longrightarrow>
     task_delete (tcb_at k n) k = Some (r, k') \<Longrightarrow> kstep stack_init k k'"
| exit: "n \<in> live k \<Longrightarrow> G_p_current_tcb k = Some (tcb_at k n) \<Longrightarrow> tcb_at k n \<notin> owners k \<Longrightarrow>
     kstep stack_init k (task_entry_exit (tcb_at k n) k)"

lemma kstep_ok:
  assumes ok: "all_ok k A R" and "kstep stack_init k k'"
  shows "system_ok k'"
  using assms(2)
proof cases
  case dispatch
  have "kernel_ok k' A" using switch_ok [OF all_ok_D(2) [OF ok]] dispatch by (simp add: CONTEXT_SWITCH_def)
  moreover have "quiet k k'" unfolding dispatch by simp
  moreover have "semMs k' = semMs k" unfolding dispatch by (simp add: LOAD_HIGHEST_TASK_def)
  ultimately have "all_ok k' A R" by (intro all_ok_step [OF ok]) simp_all
  then show ?thesis by (auto simp: system_ok_def)
next
  case (delay c ticks)
  then show ?thesis using delay_step [OF ok] by simp
next
  case (tick c)
  then show ?thesis using tick_step [OF ok] by blast
next
  case (semB_init obj p)
  then show ?thesis using semB_init_system [OF ok] guards(4) [OF ok] by blast
next
  case (semB_take c s timeout r)
  then show ?thesis using semB_take_step [OF ok] guards(1) [OF ok] by blast
next
  case (semB_resume c s r)
  then show ?thesis using semB_take_step [OF ok] guards(1) [OF ok] ok
    by (auto simp: semB_take_resume_def cur_def system_ok_def split: if_splits)
next
  case (semB_give s r)
  then show ?thesis using semB_give_step [OF ok] by blast
next
  case (semB_flush s r)
  then show ?thesis using semB_flush_step(1) [OF ok semB_flush] unfolding system_ok_def by blast
next
  case (semB_delete s r)
  then show ?thesis using semB_delete_system [OF ok] guards(1) [OF ok] by blast
next
  case (semC_init obj n mx p)
  then show ?thesis using semC_init_system [OF ok] guards(4) [OF ok] by blast
next
  case (semC_take c s timeout r)
  then show ?thesis using semC_take_step [OF ok] guards(1) [OF ok] by blast
next
  case (semC_resume c s r)
  then show ?thesis using semC_take_step [OF ok] guards(1) [OF ok] ok
    by (auto simp: semC_take_resume_def cur_def system_ok_def split: if_splits)
next
  case (semC_give s r)
  then show ?thesis using semC_give_step [OF ok] by blast
next
  case (semC_flush s r)
  then show ?thesis using semC_flush_step(1) [OF ok semC_flush] unfolding system_ok_def by blast
next
  case (semC_delete s r)
  then show ?thesis using semC_delete_system [OF ok] guards(1) [OF ok] by blast
next
  case (semM_init obj p)
  then show ?thesis using semM_init_system [OF ok] guards(4) [OF ok] by blast
next
  case (semM_take c s timeout r)
  then show ?thesis using semM_take_step [OF ok] guards(1) [OF ok] by blast
next
  case (semM_resume c r)
  then show ?thesis using semM_take_resume_step [OF ok] by blast
next
  case (semM_give c s r)
  then show ?thesis using semM_give_step [OF ok] by blast
next
  case (msgQ_init obj mlen mnum p)
  then show ?thesis using msgQ_init_system [OF ok] guards(4) [OF ok] by blast
next
  case (msgQ_send c q buf len timeout r)
  then show ?thesis using msgQ_send_step [OF ok] guards(1) [OF ok] by blast
next
  case (msgQ_send_resume c q buf len r)
  then show ?thesis using msgQ_send_step [OF ok] guards(1) [OF ok] ok
    by (auto simp: msgQ_send_resume_def cur_def system_ok_def split: if_splits)
next
  case (msgQ_receive c q buf len timeout r)
  then show ?thesis using msgQ_receive_step [OF ok] guards(1) [OF ok] by blast
next
  case (msgQ_receive_resume c q buf len r)
  then show ?thesis using msgQ_receive_step [OF ok] guards(1) [OF ok] ok
    by (auto simp: msgQ_receive_resume_def cur_def system_ok_def split: if_splits)
next
  case (malloc n p)
  then show ?thesis using malloc_step [OF ok] by blast
next
  case (free p)
  then show ?thesis using free_step [OF ok] guards(2,3) [OF ok] by blast
next
  case (store f)
  then show ?thesis using write_step [OF ok] by blast
next
  case (create prty sz nm entry a1 a2 r)
  from create_step [OF ok this] show ?thesis unfolding system_ok_def by blast
next
  case (delete n r)
  then show ?thesis using delete_task_step(1) [OF ok] by blast
next
  case (exit n)
  then show ?thesis using exit_step [OF ok] by simp
qed

text \<open>A step leaves the processor to its task, or gives it to the task that \<^verbatim>\<open>LOAD_HIGHEST_TASK\<close> finds.\<close>

lemma current_frames:
  "object_or_malloc obj n k = Some (p, k') \<Longrightarrow> G_p_current_tcb k' = G_p_current_tcb k"
  "kmalloc n k = Some (p, k') \<Longrightarrow> G_p_current_tcb k' = G_p_current_tcb k"
  "kfree p k = Some k' \<Longrightarrow> G_p_current_tcb k' = G_p_current_tcb k"
  "list_get l k = (x, k') \<Longrightarrow> G_p_current_tcb k' = G_p_current_tcb k"
  "G_p_current_tcb (upd_semC s f k) = G_p_current_tcb k"
  using quiet_get(3) [of l k]
  by (auto simp: object_or_malloc_def kmalloc_def kfree_def upd_semC_def split: option.splits)

definition dispatches :: "kernel \<Rightarrow> kernel \<Rightarrow> bool" where
  "dispatches k k' \<longleftrightarrow> G_p_current_tcb k' = G_p_current_tcb k \<or> G_p_current_tcb k' = highest_tcb (G_readyQ k')"

lemma dispatches_simps [simp]:
  "dispatches k k" "dispatches k (CONTEXT_SWITCH k')" "dispatches k (LOAD_HIGHEST_TASK k')" "dispatches k (pend_current l st obj t k')"
  by (auto simp: dispatches_def LOAD_HIGHEST_TASK_def pend_current_def Let_def)

lemma dispatchesI: "G_p_current_tcb k' = G_p_current_tcb k \<Longrightarrow> dispatches k k'"
  by (simp add: dispatches_def)

lemma sem_dispatches:
  "semB_take s timeout k = (r, k') \<Longrightarrow> dispatches k k'" "semC_take s timeout k = (r, k') \<Longrightarrow> dispatches k k'"
  "semB_give s k = (st, k') \<Longrightarrow> dispatches k k'" "semC_give s k = (st, k') \<Longrightarrow> dispatches k k'"
  "semM_take s timeout k = Some (r, k') \<Longrightarrow> dispatches k k'" "semM_take_resume k = (r, k') \<Longrightarrow> dispatches k k'"
  by (auto simp: semB_take_def semC_take_def semB_give_def semC_give_def semM_take_def semM_take_resume_def
    bind_eq_Some_conv current_frames intro: dispatchesI split: if_splits)

lemma msgQ_dispatches:
  "msgQ_send q buf n timeout k = Some (r, k') \<Longrightarrow> dispatches k k'" "msgQ_receive q buf n timeout k = Some (r, k') \<Longrightarrow> dispatches k k'"
  by (auto simp: msgQ_send_def msgQ_receive_def Let_def dest!: current_frames(1-4) intro: dispatchesI
    split: option.splits prod.splits if_splits)

lemma init_dispatches:
  "semB_init obj k = Some (p, k') \<Longrightarrow> dispatches k k'" "semM_init obj k = Some (p, k') \<Longrightarrow> dispatches k k'"
  "semC_init obj n mx k = Some (c, k') \<Longrightarrow> dispatches k k'" "msgQ_init obj mnum mlen k = Some (c, k') \<Longrightarrow> dispatches k k'"
  by (auto simp: semB_init_def semC_init_def semM_init_def msgQ_init_def Let_def current_frames(5) dest!: current_frames(1-4)
    intro!: dispatchesI split: option.splits if_splits)

lemma semM_give_dispatches:
  assumes "kernel_ok k A" and c: "G_p_current_tcb k = Some c" and "semM_give s k = Some (r, k')"
  shows "dispatches k k'"
proof (cases "take_count (semMs k s) = 1")
  case True
  have "G_p_current_tcb (handed_over s (A (SemM_wait s)) k) = G_p_current_tcb k" by (rule handed_over_ok(4) [OF assms(1)])
  then show ?thesis using assms(3) semM_give_settles [OF assms(1) c True] by (auto simp: settle_def intro: dispatchesI split: if_splits)
next
  case False
  then show ?thesis using assms(3) by (auto simp: semM_give_def Let_def intro: dispatchesI)
qed

lemma kstep_dispatches:
  assumes ok: "all_ok k A R" and "kstep stack_init k k'"
  shows "dispatches k k'"
  using assms(2)
proof cases
  case (tick c)
  then show ?thesis by (auto simp: timer_isr_def)
next
  case (delay c ticks)
  then show ?thesis by (simp add: delayQ_delay_def Let_def)
next
  case (semB_flush s r)
  then show ?thesis using semB_flush_step(2) [OF ok] by (auto intro: dispatchesI)
next
  case (semC_flush s r)
  then show ?thesis using semC_flush_step(2) [OF ok] by (auto intro: dispatchesI)
next
  case (semB_delete s r)
  then show ?thesis using semB_flush_step(2) [OF ok]
    by (auto simp: semB_delete_def Let_def dest!: current_frames(3) intro!: dispatchesI split: option.splits if_splits)
next
  case (semC_delete s r)
  then show ?thesis using semC_flush_step(2) [OF ok]
    by (auto simp: semC_delete_def Let_def dest!: current_frames(3) intro!: dispatchesI split: option.splits if_splits)
next
  case (semM_give c s r)
  then show ?thesis using semM_give_dispatches [OF all_ok_D(1) [OF ok]] by blast
next
  case (delete n r)
  then show ?thesis using delete_task_step(2) [OF ok] by (auto intro: dispatchesI)
next
  case (create prty sz nm entry a1 a2 r)
  then show ?thesis using task_create_frame(4) by (auto intro: dispatchesI)
next
  case (malloc n p)
  then show ?thesis using current_frames(2) by (auto intro: dispatchesI)
next
  case (free p)
  then show ?thesis using current_frames(3) by (auto intro: dispatchesI)
next
  case (store f)
  then show ?thesis by (auto intro: dispatchesI)
next
  case (exit n)
  then show ?thesis by (simp add: task_entry_exit_def Let_def)
qed (auto simp: semB_take_resume_def semC_take_resume_def msgQ_send_resume_def msgQ_receive_resume_def
      dest: sem_dispatches msgQ_dispatches init_dispatches split: if_splits)

section \<open>Start\<close>

text \<open>The state in which \<^verbatim>\<open>main\<close> begins to create tasks: zeroed kernel variables and an array of TCBs
  outside of the heap, after \<^verbatim>\<open>heap_init\<close>, \<^verbatim>\<open>task_init\<close> and \<^verbatim>\<open>readyQ_init\<close>.\<close>

definition zeroed :: "kernel \<Rightarrow> bool" where
  "zeroed k \<longleftrightarrow> (\<forall>l. lists (lmem k) l = \<lparr>dl_head = None, dl_tail = None\<rparr>) \<and>
     G_readyQ k = \<lparr>highest_tcb = None, metaBMap = 0, bMap = replicate 8 0\<rparr> \<and> G_p_current_tcb k = None \<and>
     (\<forall>s. semM_owner (semMs k s) = None) \<and> (\<forall>a \<in> slots k. \<not> in_heap a)"

definition boot :: "kernel \<Rightarrow> kernel" where
  "boot k = readyQ_init (task_init (k\<lparr>kheap := heap_init (kheap k)\<rparr>))"

lemma init_lists_empty:
  assumes "dl_holds (lmem k) (\<lambda>_. [])"
  shows "\<exists>m. dl_holds m (\<lambda>_. []) \<and> fold (\<lambda>i. upd_lists (\<lambda>m. snd (dlist_init (Ready_list i) m))) xs k = k\<lparr>lmem := m\<rparr>"
  using assms
proof (induction xs arbitrary: k)
  case Nil
  then show ?case by (intro exI [of _ "lmem k"]) simp
next
  case (Cons i xs)
  have "dl_holds (snd (dlist_init (Ready_list i) (lmem k))) ((\<lambda>_. [])(Ready_list i := []))" by (rule dlist_init_holds [OF Cons.prems])
  then have "dl_holds (lmem (upd_lists (\<lambda>m. snd (dlist_init (Ready_list i) m)) k)) (\<lambda>_. [])" by (simp add: fun_upd_idem)
  from Cons.IH [OF this] show ?case by (auto simp: upd_lists_def)
qed

lemma boot_frame:
  assumes "zeroed k"
  shows "\<exists>m. dl_holds m (\<lambda>_. []) \<and> boot k = (task_init (k\<lparr>kheap := heap_init (kheap k)\<rparr>))\<lparr>lmem := m\<rparr>"
proof -
  let ?k = "task_init (k\<lparr>kheap := heap_init (kheap k)\<rparr>)"
  have "dl_holds (lmem ?k) (\<lambda>_. [])" using assms by (simp add: task_init_def zeroed_def dl_holds_def dl_rep_def)
  then show ?thesis using init_lists_empty [of ?k] by (auto simp: boot_def readyQ_init_def)
qed

lemma boot_maps:
  assumes "zeroed k"
  shows "avail (G_tcb_map (boot k)) = {..<256}" "avail (G_stack_map (boot k)) = {..<2048}" "length (G_tcb_map (boot k)) = 8"
    "length (G_stack_map (boot k)) = 64"
proof -
  let ?k = "task_init (k\<lparr>kheap := heap_init (kheap k)\<rparr>)"
  have sel: "G_tcb_map (j\<lparr>lmem := m\<rparr>) = G_tcb_map j" "G_stack_map (j\<lparr>lmem := m\<rparr>) = G_stack_map j" for j :: kernel and m by simp_all
  obtain m where m: "boot k = ?k\<lparr>lmem := m\<rparr>" using boot_frame [OF assms] by blast
  have g: "G_tcb_map (boot k) = G_tcb_map ?k" "G_stack_map (boot k) = G_stack_map ?k" unfolding m by (rule sel)+
  show "avail (G_tcb_map (boot k)) = {..<256}" "avail (G_stack_map (boot k)) = {..<2048}"
    unfolding g by (rule task_init_avail)+
  show "length (G_tcb_map (boot k)) = 8" "length (G_stack_map (boot k)) = 64" unfolding g by (simp_all add: task_init_def)
qed

lemma boot_ok:
  assumes "zeroed k"
  shows "all_ok (boot k) (\<lambda>_. []) {}"
proof -
  obtain m where m: "dl_holds m (\<lambda>_. [])" "boot k = (task_init (k\<lparr>kheap := heap_init (kheap k)\<rparr>))\<lparr>lmem := m\<rparr>"
    using boot_frame [OF assms] by blast
  note maps = boot_maps [OF assms]
  have r: "G_readyQ (boot k) = \<lparr>highest_tcb = None, metaBMap = 0, bMap = replicate 8 0\<rparr>" "G_p_current_tcb (boot k) = None"
    "kheap (boot k) = heap_init (kheap k)" "owners (boot k) = {}" "slots (boot k) = slots k"
    using assms by (simp_all add: m(2) task_init_def zeroed_def owners_def slots_def)
  have "maps_ok (G_readyQ (boot k)) (\<lambda>_. [])" using empty_kernel_ok r by (simp add: queue_ok_def empty_kernel_def)
  then have "queue_ok (boot k) (\<lambda>_. [])" using m r by (simp add: queue_ok_def is_top_def homes_ok_def)
  then have "kernel_ok (boot k) (\<lambda>_. [])" by (simp add: kernel_ok_def running_def r(2))
  moreover have live: "live (boot k) = {}" using maps(1) by (auto simp: live_def)
  then have "tasks_ok (boot k) (\<lambda>_. [])" "placed (boot k) (\<lambda>_. [])" by (simp_all add: tasks_ok_def placed_def maps(3,4))
  moreover have "mutexes_ok (boot k) (\<lambda>_. [])" by (simp add: mutexes_ok_def r(4))
  moreover have "heap_holds (heap_init (kheap k)) [Blk 0x4ffffec False None]" using heap_init_holds [of "kheap k"] by simp
  then have "heap_uses (kheap (boot k)) {}" unfolding heap_uses_def r(3) by (intro exI [of _ "[Blk 0x4ffffec False None]"]) simp
  then have "store_ok (boot k) (\<lambda>_. []) {}" by (simp add: store_ok_def pairwise_def)
  moreover have "\<forall>a \<in> slots k. \<not> in_heap a" using assms by (simp add: zeroed_def)
  then have "objects_ok (boot k) (\<lambda>_. [])" by (simp add: objects_ok_def queues_count_def r(5))
  ultimately show ?thesis by (simp add: all_ok_def)
qed

text \<open>The kernel machine keeps its invariant.\<close>

interpretation km: invariant_machine "\<lambda>k. \<exists>k0. zeroed k0 \<and> k = boot k0" "kstep stack_init" system_ok for stack_init
proof unfold_locales
  fix k
  assume "\<exists>k0. zeroed k0 \<and> k = boot k0"
  then show "system_ok k" using boot_ok by (auto simp: system_ok_def)
next
  fix k k'
  assume "system_ok k" "kstep stack_init k k'"
  then show "system_ok k'" using kstep_ok by (auto simp: system_ok_def)
qed

lemma current_task_ready: "all_ok k A R \<Longrightarrow> G_p_current_tcb k = Some c \<Longrightarrow> \<exists>p. c \<in> set (A (Ready_list p))"
  by (auto simp: all_ok_def kernel_ok_def running_def)

lemma step_dispatches_first:
  assumes "all_ok k A R" and "kstep stack_init k k'"
  shows "G_p_current_tcb k' = G_p_current_tcb k \<or> (\<exists>B. queue_ok k' B \<and> G_p_current_tcb k' = first (schedule B))"
proof -
  obtain B S where "all_ok k' B S" using kstep_ok [OF assms] by (auto simp: system_ok_def)
  then have "queue_ok k' B" by (rule all_ok_D(2))
  then show ?thesis using kstep_dispatches [OF assms] is_top_schedule queue_ok_D(3) unfolding dispatches_def by metis
qed

text \<open>C1: after any sequence of the calls of \<open>kstep\<close> the kernel is consistent. The lists are well formed,
  bit maps and cached task agree with them; every live task is in the list its status names and in
  no other, and no list holds anything but live tasks; no two live tasks share stack pages;
  the running task is in a ready list, and a call that changes the running task gives the processor to the
  first task of the ready queue it leaves behind. The owner of a mutex is a live task and a mutex with waiters has an owner;
  a registered message queue holds as many messages as it counts; the heap is a chain of blocks.\<close>

theorem kernel_reachable_ok:
  assumes "zeroed k0" and "reachable (\<lambda>k. k = boot k0) (kstep stack_init) k"
  shows "\<exists>A R. queue_ok k A \<and> tasks_ok k A \<and> heap_uses (kheap k) R \<and>
     (\<forall>i \<in> live k. tcb_at k i \<in> set (A (home (tcbs k (tcb_at k i)))) \<and> (\<exists>!l. task_list l \<and> tcb_at k i \<in> set (A l))) \<and>
     (\<forall>l a. task_list l \<and> a \<in> set (A l) \<longrightarrow> a \<in> tcb_at k ` live k) \<and>
     (\<forall>i \<in> live k. \<forall>j \<in> live k. i \<noteq> j \<longrightarrow> pages (tcbs k (tcb_at k i)) \<inter> pages (tcbs k (tcb_at k j)) = {}) \<and>
     (\<forall>c. G_p_current_tcb k = Some c \<longrightarrow> (\<exists>p. c \<in> set (A (Ready_list p)))) \<and>
     (\<forall>k'. kstep stack_init k k' \<longrightarrow> G_p_current_tcb k' = G_p_current_tcb k \<or>
        (\<exists>B. queue_ok k' B \<and> G_p_current_tcb k' = first (schedule B))) \<and>
     (\<forall>s x. semM_owner (semMs k s) = Some x \<longrightarrow> x \<in> tcb_at k ` live k) \<and>
     (\<forall>s. A (SemM_wait s) \<noteq> [] \<longrightarrow> semM_owner (semMs k s) \<noteq> None) \<and>
     (\<forall>q \<in> set (A MsgQ_list). unat (cur_num (msgQs k q)) = length (A (MsgQ_msgs q)))"
proof -
  have "reachable (\<lambda>k. \<exists>k0. zeroed k0 \<and> k = boot k0) (kstep stack_init) k"
    using assms(2) by (induction rule: reachable.induct) (use assms(1) in \<open>auto intro: reachable.intros\<close>)
  then obtain A R where ok: "all_ok k A R"
    using km.reachable_inv [of stack_init k] by (auto simp: system_ok_def)
  note d = all_ok_D [OF ok]
  have place: "(\<exists>l. task_list l \<and> a \<in> set (A l)) \<longleftrightarrow> a \<in> tcb_at k ` live k" for a using d(4) by (simp add: placed_def)
  have "tcb_at k i \<in> set (A (home (tcbs k (tcb_at k i)))) \<and> (\<exists>!l. task_list l \<and> tcb_at k i \<in> set (A l))" if i: "i \<in> live k" for i
  proof -
    obtain l where l: "task_list l" "tcb_at k i \<in> set (A l)" using i place [of "tcb_at k i"] by blast
    then have "home (tcbs k (tcb_at k i)) = l" using tq.residence [OF d(2)] by (simp add: resident_def)
    then show ?thesis using l dl.holds_disjoint [OF d(9)] by blast
  qed
  moreover have "x \<in> tcb_at k ` live k" if "semM_owner (semMs k s) = Some x" for s x
    using that d(5) place [of x] task_list_home unfolding mutexes_ok_def owners_def by blast
  moreover have "\<forall>s. A (SemM_wait s) \<noteq> [] \<longrightarrow> semM_owner (semMs k s) \<noteq> None" using d(5) by (simp add: mutexes_ok_def)
  moreover have "\<forall>q \<in> set (A MsgQ_list). unat (cur_num (msgQs k q)) = length (A (MsgQ_msgs q))"
    using d(7) by (simp add: objects_ok_def queues_count_def)
  moreover have "\<forall>i \<in> live k. \<forall>j \<in> live k. i \<noteq> j \<longrightarrow> pages (tcbs k (tcb_at k i)) \<inter> pages (tcbs k (tcb_at k j)) = {}"
    using d(3) by (simp add: tasks_ok_def)
  ultimately show ?thesis
    using d(2,3,8) place current_task_ready [OF ok] step_dispatches_first [OF ok] by (intro exI [of _ A] exI [of _ R]) blast
qed

lemma zeroed_empty: "zeroed empty_kernel"
  by (auto simp: zeroed_def empty_kernel_def slots_def in_heap_def)

text \<open>The first task: created in the booted kernel with priority 7 and dispatched.\<close>

abbreviation first_init :: "addr \<Rightarrow> uint32 \<Rightarrow> cmem \<Rightarrow> uint32 \<times> cmem" where
  "first_init \<equiv> \<lambda>_ p m. (p - 64, m)"

lemma first_task:
  obtains t k k' where "task_create first_init 0 4000 7 0 0 0 (boot empty_kernel) = (Some t, k)"
    "all_ok k ((\<lambda>_. [])(Ready_list 7 := [t])) {}" "G_p_current_tcb k = None"
proof -
  note z = boot_ok [OF zeroed_empty] and maps = boot_maps [OF zeroed_empty]
  obtain r k where c: "task_create first_init 0 4000 7 0 0 0 (boot empty_kernel) = (r, k)" by fastforce
  have "unat (align_up 4000) = 4000" by (simp add: align_up_nat)
  then have "need_pages (align_up 4000) = 1" by (simp add: need_pages_eq)
  then have "run_at (G_stack_map (boot empty_kernel)) (need_pages (align_up 4000)) 0" by (auto simp: maps(2) run_at_def)
  moreover have "avail (G_tcb_map (boot empty_kernel)) \<noteq> {}" by (simp add: maps(1) lessThan_empty_iff)
  ultimately obtain t where t: "r = Some t"
    using task_create_ok [where stack_init = first_init and prty = 7 and sz = 4000 and nm = 0 and entry = 0 and ?a1.0 = 0 and ?a2.0 = 0,
      OF all_ok_D(1,3) [OF z]] c by (auto split: option.splits)
  have "G_p_current_tcb (boot empty_kernel) = None" using boot_frame [OF zeroed_empty] by (auto simp: task_init_def empty_kernel_def)
  then have "all_ok k ((\<lambda>_. [])(Ready_list 7 := [t])) {}" "G_p_current_tcb k = None"
    using create_step [OF z _ _ c] t by auto
  with that c t show thesis by blast
qed

theorem kernel_reachable_ok_witness:
  "\<exists>k A n. reachable (\<lambda>k. k = boot empty_kernel) (kstep first_init) k \<and> n \<in> live k \<and> G_p_current_tcb k = Some (tcb_at k n) \<and>
     queue_ok k A \<and> tcb_at k n \<in> set (A (home (tcbs k (tcb_at k n))))"
proof -
  obtain t k where t: "task_create first_init 0 4000 7 0 0 0 (boot empty_kernel) = (Some t, k)"
    "all_ok k ((\<lambda>_. [])(Ready_list 7 := [t])) {}" "G_p_current_tcb k = None"
    using first_task .
  let ?k = "LOAD_HIGHEST_TASK k"
  have "reachable (\<lambda>k. k = boot empty_kernel) (kstep first_init) (boot empty_kernel)" by (rule reachable.start) simp
  moreover have "kstep first_init (boot empty_kernel) k" by (rule kstep.create [OF _ _ t(1)]) simp_all
  moreover have "kstep first_init k ?k" by (rule kstep.dispatch [OF t(3)])
  ultimately have r: "reachable (\<lambda>k. k = boot empty_kernel) (kstep first_init) ?k" by (meson reachable.step)
  have "G_p_current_tcb ?k = first (schedule ((\<lambda>_. [])(Ready_list 7 := [t])))" by (rule highest_first [OF all_ok_D(2) [OF t(2)]])
  also have "\<dots> = Some t" by (simp add: schedule_def upt_rec numeral_eq_Suc)
  finally have c: "G_p_current_tcb ?k = Some t" .
  obtain n where n: "n \<in> live k" "t = tcb_at k n" using all_ok_D(4) [OF t(2)] unfolding placed_def
    by (metis (no_types, lifting) fun_upd_same imageE list.set_intros(1) task_list.simps(1))
  then have "n \<in> live ?k" "t = tcb_at ?k n" by (simp_all add: live_def LOAD_HIGHEST_TASK_def)
  with kernel_reachable_ok [OF zeroed_empty r] c r show ?thesis by blast
qed

end
