(* ===== verification/CNumber.thy ===== *)
theory CNumber
  imports CString
begin

text \<open>
  Numbers and characters in \<^verbatim>\<open>src/string.c\<close>: the \<^verbatim>\<open>ctype\<close> table and its tests, \<^verbatim>\<open>abs\<close>,
  \<^verbatim>\<open>_Stoul\<close> and \<^verbatim>\<open>atoi\<close>, \<^verbatim>\<open>srand\<close> and \<^verbatim>\<open>rand\<close>, and \<^verbatim>\<open>sscanf\<close>. A \<^verbatim>\<open>char\<close> is unsigned on
  the ARM target; characters are written by their codes (45 is \<^verbatim>\<open>-\<close>, 48 is \<^verbatim>\<open>0\<close>, 97 is \<^verbatim>\<open>a\<close>).
\<close>

section \<open>Character classes\<close>

definition ct_U :: uint8 where "ct_U = 0x01"
definition ct_L :: uint8 where "ct_L = 0x02"
definition ct_N :: uint8 where "ct_N = 0x04"
definition ct_S :: uint8 where "ct_S = 0x08"
definition ct_P :: uint8 where "ct_P = 0x10"
definition ct_C :: uint8 where "ct_C = 0x20"
definition ct_X :: uint8 where "ct_X = 0x40"
definition ct_B :: uint8 where "ct_B = 0x80"

text \<open>The rows of the table in order; the entries that the initialiser does not give are 0.\<close>

definition C_ctype :: "uint8 list" where
  "C_ctype = [0] @ replicate 8 ct_C @
     [ct_C] @ replicate 5 (ct_C OR ct_S) @ [ct_C, ct_C] @ replicate 16 ct_C @
     [ct_S OR ct_B] @ replicate 7 ct_P @ replicate 8 ct_P @
     replicate 8 ct_N @ [ct_N, ct_N] @ replicate 6 ct_P @
     [ct_P] @ replicate 6 (ct_U OR ct_X) @ [ct_U] @ replicate 16 ct_U @ [ct_U, ct_U, ct_U] @ replicate 5 ct_P @
     [ct_P] @ replicate 6 (ct_L OR ct_X) @ [ct_L] @ replicate 16 ct_L @ [ct_L, ct_L, ct_L] @ replicate 4 ct_P @ [ct_C] @
     replicate 128 0"

definition ctype_test :: "uint8 \<Rightarrow> int \<Rightarrow> int" where
  "ctype_test cls c = (if c = -1 then 0 else uint (C_ctype ! (1 + nat (c mod 256)) AND cls))"

definition isalnum :: "int \<Rightarrow> int" where "isalnum = ctype_test (ct_U OR ct_L OR ct_N)"
definition isalpha :: "int \<Rightarrow> int" where "isalpha = ctype_test (ct_U OR ct_L)"
definition iscntrl :: "int \<Rightarrow> int" where "iscntrl = ctype_test ct_C"
definition isdigit :: "int \<Rightarrow> int" where "isdigit = ctype_test ct_N"
definition isgraph :: "int \<Rightarrow> int" where "isgraph = ctype_test (ct_P OR ct_U OR ct_L OR ct_N)"
definition islower :: "int \<Rightarrow> int" where "islower = ctype_test ct_L"
definition isupper :: "int \<Rightarrow> int" where "isupper = ctype_test ct_U"
definition isprint :: "int \<Rightarrow> int" where "isprint = ctype_test (ct_P OR ct_U OR ct_L OR ct_N OR ct_B)"
definition ispunct :: "int \<Rightarrow> int" where "ispunct = ctype_test ct_P"
definition isspace :: "int \<Rightarrow> int" where "isspace = ctype_test ct_S"
definition isxdigit :: "int \<Rightarrow> int" where "isxdigit = ctype_test (ct_N OR ct_X)"
definition isascii :: "int \<Rightarrow> int" where "isascii c = (if c \<ge> 0x00 \<and> c \<le> 0x7F then 1 else 0)"
definition toascii :: "int \<Rightarrow> int" where "toascii c = c AND 0x7F"
definition isblank :: "int \<Rightarrow> int" where "isblank c = (if c = 32 \<or> c = 9 then 1 else 0)"

lemmas ctype_defs = isalnum_def isalpha_def iscntrl_def isdigit_def isgraph_def islower_def isupper_def isprint_def
  ispunct_def isspace_def isxdigit_def

section \<open>Integers\<close>

definition abs_int :: "uint32 \<Rightarrow> uint32" where
  "abs_int i = (if 0 \<le> sint i then i else - i)"

text \<open>The static \<^verbatim>\<open>holdrand\<close> is passed and returned; the shift is that of a signed number.\<close>

definition srand :: "uint32 \<Rightarrow> uint32" where
  "srand seed = seed"

definition rand :: "uint32 \<Rightarrow> uint32 \<times> uint32" where
  "rand holdrand = (let h = holdrand * 214013 + 2531011 in (signed_drop_bit 16 h AND 0x7fff, h))"

section \<open>String to unsigned\<close>

definition digits :: "uint8 list" where
  "digits = map of_nat ([48..<58] @ [97..<123]) @ [0]"

definition digits_mem :: cmem where
  "digits_mem a = digits ! a"

definition ndigs :: "nat list" where
  "ndigs = [0, 0, 33, 21, 17, 14, 13, 12, 11, 11, 10, 10, 9, 9, 9, 9, 9, 8, 8, 8, 8, 8, 8, 8, 7, 7, 7, 7, 7, 7,
            7, 7, 7, 7, 7, 7, 7]"

partial_function (option) skip_space :: "addr \<Rightarrow> cmem \<Rightarrow> addr option" where
  "skip_space sc m = (if isspace (uint (m sc)) \<noteq> 0 then skip_space (sc + 1) m else Some sc)"

text \<open>The choice of the base: \<open>None\<close> for a base that is refused, else the base and the new position.\<close>

definition get_base :: "int \<Rightarrow> addr \<Rightarrow> cmem \<Rightarrow> (int \<times> addr) option" where
  "get_base base sc m =
     (if base < 0 \<or> base = 1 \<or> base > 36 then None
      else if base \<noteq> 0
      then Some (base, if base = 16 \<and> m sc = 48 \<and> (m (sc + 1) = 120 \<or> m (sc + 1) = 88) then sc + 2 else sc)
      else if m sc \<noteq> 48 then Some (10, sc)
      else if m (sc + 1) = 120 \<or> m (sc + 1) = 88 then Some (16, sc + 2)
      else Some (8, sc))"

partial_function (option) skip_zeros :: "addr \<Rightarrow> cmem \<Rightarrow> addr option" where
  "skip_zeros sc m = (if m sc = 48 then skip_zeros (sc + 1) m else Some sc)"

definition digit_at :: "int \<Rightarrow> uint8 \<Rightarrow> nat option" where
  "digit_at base c = memchr 0 (word_of_int (tolower (uint c))) (word_of_int base) digits_mem"

text \<open>The accumulation, with the value \<open>y\<close> before the last digit \<open>dig\<close>.\<close>

partial_function (option) read_digits ::
  "int \<Rightarrow> addr \<Rightarrow> uint32 \<Rightarrow> uint32 \<Rightarrow> uint32 \<Rightarrow> cmem \<Rightarrow> (addr \<times> uint32 \<times> uint32 \<times> uint32) option" where
  "read_digits base sc x y dig m =
     (case digit_at base (m sc) of
        None \<Rightarrow> Some (sc, x, y, dig)
      | Some d \<Rightarrow> read_digits base (sc + 1) (x * word_of_int base + of_nat d) x (of_nat d) m)"

text \<open>
  The result is the value, what is stored through a non-null \<^verbatim>\<open>endptr\<close>, and whether
  \<^verbatim>\<open>errno\<close> is set. \<^verbatim>\<open>y\<close> and \<^verbatim>\<open>dig\<close> have no initial value in the code; they are only
  used after at least \<^verbatim>\<open>ndigs[base]\<close> digits have been read.
\<close>

definition Stoul :: "addr \<Rightarrow> int \<Rightarrow> cmem \<Rightarrow> (uint32 \<times> addr \<times> bool) option" where
  "Stoul s base0 m =
     do {
       sc0 \<leftarrow> skip_space s m;
       let (sign, sc1) = (if m sc0 = 45 \<or> m sc0 = 43 then (m sc0, sc0 + 1) else (43, sc0));
       (case get_base base0 sc1 m of
          None \<Rightarrow> Some (0, sc1, False)
        | Some (base, s1) \<Rightarrow>
            do {
              s2 \<leftarrow> skip_zeros s1 m;
              (sc, x, y, dig) \<leftarrow> read_digits base s2 0 0 0 m;
              if s1 = sc then Some (0, sc, False)
              else
                let n = int sc - int s2 - int (ndigs ! nat base);
                    b = word_of_int base;
                    overflow = (if n < 0 then False else n > 0 \<or> x < x - dig \<or> (x - dig) div b \<noteq> y);
                    x1 = (if overflow then 0xffffffff else x)
                in Some (if sign = 45 then - x1 else x1, sc, overflow)
            })
     }"

definition atoi :: "addr \<Rightarrow> cmem \<Rightarrow> int option" where
  "atoi s m = map_option (\<lambda>(x, _). sint x) (Stoul s 0 m)"

declare skip_space.simps [code] skip_zeros.simps [code] read_digits.simps [code]

lemma ctype_table_length: "length C_ctype = 257"
  by (simp add: C_ctype_def)

lemma ndigs_table:
  "\<forall>b \<in> set [2..<37]. b ^ (ndigs ! b - 1) \<le> 2 ^ 32 \<and> 2 ^ 32 \<le> b ^ (ndigs ! b) \<and> 0 < ndigs ! b"
  by (simp add: ndigs_def)

text \<open>The table by ranges.\<close>

lemma ctype_ranges:
  assumes "c < 256"
  shows "C_ctype ! Suc c =
     (if c < 9 then ct_C else if c < 14 then ct_C OR ct_S else if c < 32 then ct_C else if c < 33 then ct_S OR ct_B
      else if c < 48 then ct_P else if c < 58 then ct_N else if c < 65 then ct_P else if c < 71 then ct_U OR ct_X
      else if c < 91 then ct_U else if c < 97 then ct_P else if c < 103 then ct_L OR ct_X else if c < 123 then ct_L
      else if c < 127 then ct_P else if c < 128 then ct_C else 0)"
proof -
  have "c < 9 \<or> 9 \<le> c \<and> c < 14 \<or> 14 \<le> c \<and> c < 32 \<or> c = 32 \<or> 33 \<le> c \<and> c < 48 \<or> 48 \<le> c \<and> c < 58 \<or>
    58 \<le> c \<and> c < 65 \<or> 65 \<le> c \<and> c < 71 \<or> 71 \<le> c \<and> c < 91 \<or> 91 \<le> c \<and> c < 97 \<or> 97 \<le> c \<and> c < 103 \<or>
    103 \<le> c \<and> c < 123 \<or> 123 \<le> c \<and> c < 127 \<or> c = 127 \<or> 128 \<le> c"
    by presburger
  moreover note row = C_ctype_def nth_append nth_Cons'
  have r0: "C_ctype ! Suc (0 + j) = ct_C" if "j < 9" for j using that by (auto simp: row)
  have r1: "C_ctype ! Suc (9 + j) = ct_C OR ct_S" if "j < 5" for j using that by (auto simp: row)
  have r2: "C_ctype ! Suc (14 + j) = ct_C" if "j < 18" for j using that by (auto simp: row)
  have r3: "C_ctype ! Suc (33 + j) = ct_P" if "j < 15" for j using that by (auto simp: row)
  have r4: "C_ctype ! Suc (48 + j) = ct_N" if "j < 10" for j using that by (auto simp: row)
  have r5: "C_ctype ! Suc (58 + j) = ct_P" if "j < 7" for j using that by (auto simp: row)
  have r6: "C_ctype ! Suc (65 + j) = ct_U OR ct_X" if "j < 6" for j using that by (auto simp: row)
  have r7: "C_ctype ! Suc (71 + j) = ct_U" if "j < 20" for j using that by (auto simp: row)
  have r8: "C_ctype ! Suc (91 + j) = ct_P" if "j < 6" for j using that by (auto simp: row)
  have r9: "C_ctype ! Suc (97 + j) = ct_L OR ct_X" if "j < 6" for j using that by (auto simp: row)
  have r10: "C_ctype ! Suc (103 + j) = ct_L" if "j < 20" for j using that by (auto simp: row)
  have r11: "C_ctype ! Suc (123 + j) = ct_P" if "j < 4" for j using that by (auto simp: row)
  have r12: "C_ctype ! Suc (128 + j) = 0" if "j < 128" for j using that by (auto simp: row)
  have e: "C_ctype ! Suc 32 = ct_S OR ct_B" "C_ctype ! Suc 127 = ct_C" by (simp_all add: row)
  ultimately show ?thesis using assms r0 [of "c - 0"] r1 [of "c - 9"] r2 [of "c - 14"] r3 [of "c - 33"] r4 [of "c - 48"] r5 [of "c - 58"] r6 [of "c - 65"] r7 [of "c - 71"] r8 [of "c - 91"] r9 [of "c - 97"] r10 [of "c - 103"] r11 [of "c - 123"] r12 [of "c - 128"] e
    by (elim disjE conjE) simp_all
qed

lemma ctype_test_eq: "c < 256 \<Longrightarrow> ctype_test cls (int c) = uint (C_ctype ! Suc c AND cls)"
  by (simp add: ctype_test_def nat_mod_as_int)

lemmas ct_defs = ct_U_def ct_L_def ct_N_def ct_S_def ct_P_def ct_C_def ct_X_def ct_B_def

lemma find_unique:
  assumes "\<And>i. i < n \<Longrightarrow> P i \<longleftrightarrow> i = d"
  shows "List.find P [0..<n] = (if d < n then Some d else None)"
proof (cases "d < n")
  case True
  then have "[0..<n] = [0..<d] @ d # [Suc d..<n]" by (metis le_add_diff_inverse less_imp_le_nat upt_add_eq_append upt_conv_Cons le0)
  moreover have "List.find P xs = None" if "\<forall>x \<in> set xs. \<not> P x" for xs using that by (simp add: find_None_iff)
  moreover have "List.find P (xs @ ys) = (case List.find P xs of None \<Rightarrow> List.find P ys | Some x \<Rightarrow> Some x)" for xs ys
    by (induction xs) auto
  ultimately show ?thesis using True assms by auto
qed (use assms in \<open>simp add: find_None_iff\<close>)

lemma isspace_iff: "c < 256 \<Longrightarrow> isspace (int c) \<noteq> 0 \<longleftrightarrow> c = 32 \<or> 9 \<le> c \<and> c \<le> 13"
  by (simp add: ctype_defs ctype_test_eq ctype_ranges ct_defs)
  
text \<open>The tests of one character.\<close>

definition is_space :: "uint8 \<Rightarrow> bool" where "is_space c \<longleftrightarrow> isspace (uint c) \<noteq> 0"

lemma is_space_iff: "is_space c \<longleftrightarrow> unat c = 32 \<or> 9 \<le> unat c \<and> unat c \<le> 13"
  using isspace_iff [of "unat c"] unsigned_less [where 'a = nat, of c] by (simp add: is_space_def)

text \<open>The value of a character as a digit; 36 when it is none.\<close>

definition digit_value :: "uint8 \<Rightarrow> nat" where
  "digit_value c =
     (let n = unat c in if 48 \<le> n \<and> n \<le> 57 then n - 48 else if 97 \<le> n \<and> n \<le> 122 then n - 87
      else if 65 \<le> n \<and> n \<le> 90 then n - 55 else 36)"

lemma digits_nth: "i < 36 \<Longrightarrow> digits ! i = of_nat (if i < 10 then 48 + i else 87 + i)"
  unfolding digits_def by (auto simp: nth_append simp del: upt_rec_numeral)

lemma tolower_code: "word_of_int (tolower (uint c)) = (of_nat (if 65 \<le> unat c \<and> unat c \<le> 90 then unat c + 32 else unat c) :: uint8)"
proof -
  have u: "uint c = int (unat c)" by simp
  have up: "n OR 32 = n + 32" if "65 \<le> n" "n \<le> 90" for n :: int
  proof -
    have "n = 65 \<or> n = 66 \<or> n = 67 \<or> n = 68 \<or> n = 69 \<or> n = 70 \<or> n = 71 \<or> n = 72 \<or> n = 73 \<or> n = 74 \<or> n = 75 \<or> n = 76 \<or> n = 77 \<or> n = 78 \<or> n = 79 \<or> n = 80 \<or> n = 81 \<or> n = 82 \<or> n = 83 \<or> n = 84 \<or> n = 85 \<or> n = 86 \<or> n = 87 \<or> n = 88 \<or> n = 89 \<or> n = 90"
      using that by presburger
    then show ?thesis by (elim disjE) simp_all
  qed
  have "tolower (int n) = int (if 65 \<le> n \<and> n \<le> 90 then n + 32 else n)" for n
    using up [of "int n"] by (simp add: tolower_def)
  then show ?thesis unfolding u by (metis of_int_of_nat_eq)
qed

lemma digit_at_value:
  assumes "0 \<le> b" and "b \<le> 36"
  shows "digit_at b c = (if int (digit_value c) < b then Some (digit_value c) else None)"
proof -
  have d: "digits_mem i = word_of_int (tolower (uint c)) \<longleftrightarrow> i = digit_value c" if "i < nat b" for i
  proof -
    have i: "i < 36" using that assms by simp
    have c: "uint c = int (unat c)" "unat c < 256" using unsigned_less [where 'a = nat, of c] by simp_all
    have l: "word_of_int (tolower (uint c)) = (of_nat (if 65 \<le> unat c \<and> unat c \<le> 90 then unat c + 32 else unat c) :: uint8)"
      using tolower_code [of c] by simp
    have "digits_mem i = of_nat (if i < 10 then 48 + i else 87 + i)" using digits_nth [OF i] by (simp add: digits_mem_def)
    moreover have "(of_nat x = (of_nat y :: uint8)) = (x = y)" if "x < 256" "y < 256" for x y
      using that by (simp add: word_of_nat_eq_iff take_bit_nat_eq_self)
    ultimately show ?thesis unfolding l using i c(2)
      by (auto simp: digit_value_def Let_def split: if_splits)
  qed
  have b: "unat (word_of_int b :: uint32) = nat b" using assms by (simp add: unsigned_of_int take_bit_int_eq_self)
  have u: "ucast (word_of_int x :: uint32) = (word_of_int x :: uint8)" for x
    by transfer simp
  show ?thesis
  proof (cases "b = 0")
    case True
    then show ?thesis by (simp add: digit_at_def memchr_def)
  next
    case False
    then have "word_of_int b \<noteq> (0 :: uint32)" using b assms(1) by auto
    then show ?thesis using find_unique [of "nat b", OF d] b assms by (auto simp: digit_at_def memchr_def memchr_loop_spec u)
  qed
qed

section \<open>The value of a digit string\<close>

definition num_of :: "nat \<Rightarrow> nat list \<Rightarrow> nat" where
  "num_of b vs = foldl (\<lambda>x d. x * b + d) 0 vs"

lemma num_of_snoc [simp]: "num_of b (vs @ [d]) = num_of b vs * b + d"
  by (simp add: num_of_def)

lemma num_of_Nil [simp]: "num_of b [] = 0"
  by (simp add: num_of_def)

lemma num_of_less: "(\<forall>d \<in> set vs. d < b) \<Longrightarrow> num_of b vs < b ^ length vs"
proof (induction vs rule: rev_induct)
  case (snoc d vs)
  then have "num_of b vs * b + d < (num_of b vs + 1) * b" "num_of b vs + 1 \<le> b ^ length vs" by auto
  then have "num_of b vs * b + d < b ^ length vs * b" by (meson le_less_trans less_le_trans mult_le_mono1)
  then show ?case by (simp add: mult.commute)
qed simp

lemma num_of_ge: "vs \<noteq> [] \<Longrightarrow> hd vs \<noteq> 0 \<Longrightarrow> b ^ (length vs - 1) \<le> num_of b vs"
proof (induction vs rule: rev_induct)
  case (snoc d vs)
  show ?case
  proof (cases "vs = []")
    case True
    then show ?thesis using snoc.prems by (simp add: num_of_def)
  next
    case False
    then have "b ^ (length vs - 1) * b \<le> num_of b vs * b" using snoc by (intro mult_right_mono) simp_all
    moreover have "b ^ (length vs - 1) * b = b ^ length vs" using False by (cases vs) simp_all
    ultimately have "b ^ length vs \<le> num_of b vs * b" by linarith
    then show ?thesis by simp
  qed
qed simp

lemma num_of_zeros: "(\<forall>d \<in> set zs. d = 0) \<Longrightarrow> num_of b (zs @ vs) = num_of b vs"
  by (induction vs rule: rev_induct) (induction zs rule: rev_induct, simp_all add: append_assoc [symmetric] del: append_assoc)

section \<open>The loops of the conversion\<close>

lemma skip_space_run:
  "(\<forall>c \<in> set sp. isspace (uint c) \<noteq> 0) \<Longrightarrow> (\<forall>i < length sp. m (s + i) = sp ! i) \<Longrightarrow> isspace (uint (m (s + length sp))) = 0 \<Longrightarrow>
     skip_space s m = Some (s + length sp)"
proof (induction sp arbitrary: s)
  case (Cons c sp)
  then have "skip_space (s + 1) m = Some (s + 1 + length sp)" by (intro Cons.IH) (auto simp: All_less_Suc2)
  then show ?case using Cons.prems by (subst skip_space.simps) (simp add: All_less_Suc2)
qed (simp add: skip_space.simps)

lemma skip_zeros_run:
  "(\<forall>i < n. m (s + i) = 48) \<Longrightarrow> m (s + n) \<noteq> 48 \<Longrightarrow> skip_zeros s m = Some (s + n)"
proof (induction n arbitrary: s)
  case (Suc n)
  then have "skip_zeros (s + 1) m = Some (s + 1 + n)" by (intro Suc.IH) (auto simp: All_less_Suc2)
  then show ?case using Suc.prems by (subst skip_zeros.simps) (simp add: All_less_Suc2)
qed (simp add: skip_zeros.simps)

lemma read_digits_run:
  assumes "b \<le> 36"
  shows "(\<forall>c \<in> set cs. digit_value c < b) \<Longrightarrow> (\<forall>i < length cs. m (sc + i) = cs ! i) \<Longrightarrow> \<not> digit_value (m (sc + length cs)) < b \<Longrightarrow>
     read_digits (int b) sc (of_nat v) y d m =
       Some (sc + length cs, of_nat (foldl (\<lambda>x d. x * b + d) v (map digit_value cs)),
             if cs = [] then y else of_nat (foldl (\<lambda>x d. x * b + d) v (map digit_value (butlast cs))),
             if cs = [] then d else of_nat (digit_value (last cs)))"
proof (induction cs arbitrary: sc v y d)
  case Nil
  then show ?case using assms by (simp add: read_digits.simps [of _ sc] digit_at_value)
next
  case (Cons c cs)
  have "read_digits (int b) (sc + 1) (of_nat (v * b + digit_value c)) (of_nat v) (of_nat (digit_value c)) m =
      Some (sc + 1 + length cs, of_nat (foldl (\<lambda>x d. x * b + d) (v * b + digit_value c) (map digit_value cs)),
        if cs = [] then of_nat v else of_nat (foldl (\<lambda>x d. x * b + d) (v * b + digit_value c) (map digit_value (butlast cs))),
        if cs = [] then of_nat (digit_value c) else of_nat (digit_value (last cs)))"
    using Cons.prems by (intro Cons.IH) (auto simp: All_less_Suc2)
  then show ?case using Cons.prems assms
    by (simp add: read_digits.simps [of _ sc] digit_at_value All_less_Suc2)
qed

section \<open>The overflow test\<close>

lemma overflow_exact:
  assumes b: "2 \<le> b" "b \<le> 36" and vs: "vs \<noteq> []" "hd vs \<noteq> 0" "\<forall>d \<in> set vs. d < b"
  defines "x \<equiv> of_nat (num_of b vs) :: uint32" and "y \<equiv> of_nat (num_of b (butlast vs)) :: uint32"
    and "dig \<equiv> of_nat (last vs) :: uint32" and "n \<equiv> int (length vs) - int (ndigs ! b)"
  shows "(if n < 0 then False else n > 0 \<or> x < x - dig \<or> (x - dig) div of_nat b \<noteq> y) \<longleftrightarrow> 2 ^ 32 \<le> num_of b vs"
proof -
  have t: "b ^ (ndigs ! b - 1) \<le> 2 ^ 32" "2 ^ 32 \<le> b ^ (ndigs ! b)" "0 < ndigs ! b"
    using ndigs_table b by (auto simp del: upt_rec_numeral)
  have lo: "b ^ (length vs - 1) \<le> num_of b vs" using num_of_ge vs by blast
  have hi: "num_of b vs < b ^ length vs" using num_of_less vs by blast
  consider "n < 0" | "n > 0" | "n = 0" by linarith
  then show ?thesis
  proof cases
    case 1
    then have "b ^ length vs \<le> b ^ (ndigs ! b - 1)" using b by (intro power_increasing) (auto simp: n_def)
    then show ?thesis using 1 hi t(1) by simp
  next
    case 2
    then have "b ^ (ndigs ! b) \<le> b ^ (length vs - 1)" using b by (intro power_increasing) (auto simp: n_def)
    then show ?thesis using 2 lo t(2) by simp
  next
    case 3
    then have n: "ndigs ! b = length vs" by (simp add: n_def)
    obtain ws d where ws: "vs = ws @ [d]" using vs(1) rev_exhaust by blast
    define Y where "Y = num_of b ws"
    have V: "num_of b vs = Y * b + d" by (simp add: ws Y_def)
    have d: "d < b" using vs(3) ws by simp
    have "Y < b ^ length ws" using num_of_less vs(3) ws Y_def by auto
    also have "\<dots> \<le> 2 ^ 32" using t(1) n ws by simp
    finally have Y: "Y < 2 ^ 32" .
    have uy: "unat y = Y" using Y by (simp add: y_def ws Y_def)
    have ud: "unat dig = d" using d b by (simp add: dig_def ws)
    have ub: "unat (of_nat b :: uint32) = b" using b by simp
    have ux: "unat x = (Y * b + d) mod 2 ^ 32" unfolding x_def V by (simp only: unat_of_nat) simp
    have "(x < x - dig \<or> (x - dig) div of_nat b \<noteq> y) \<longleftrightarrow> \<not> (unat dig \<le> unat x \<and> (unat x - unat dig) div b = Y)"
    proof (cases "dig \<le> x")
      case True
      then have "unat (x - dig) = unat x - unat dig" by (rule unat_sub)
      moreover have "\<not> x < x - dig" using True by (metis not_less word_sub_le)
      moreover have "((x - dig) div of_nat b \<noteq> y) \<longleftrightarrow> unat (x - dig) div b \<noteq> Y"
        unfolding uy [symmetric] by (metis ub unat_div unsigned_word_eqI)
      ultimately show ?thesis using True by (simp add: word_le_nat_alt)
    next
      case False
      then have "x < x - dig" by (metis not_le word_sub_le_iff le_less_linear order.asym linear)
      then show ?thesis using False by (simp add: word_le_nat_alt)
    qed
    also have "\<dots> \<longleftrightarrow> 2 ^ 32 \<le> Y * b + d"
    proof (cases "Y * b + d < 2 ^ 32")
      case True
      then show ?thesis using ux ud b by simp
    next
      case False
      have "unat x < 2 ^ 32" using unsigned_less [where 'a = nat, of x] by simp
      moreover have "Y * b + d \<le> unat x" if "d \<le> unat x" "(unat x - d) div b = Y"
        using that div_times_less_eq_dividend [of "unat x - d" b] by simp
      ultimately show ?thesis using False ud by fastforce
    qed
    finally show ?thesis using 3 V by simp
  qed
qed

section \<open>The conversion\<close>

text \<open>
  The prefix \<open>pre\<close> that selects base \<open>b\<close> in front of the digits \<open>ds\<close>, when the caller
  asks for base \<open>base0\<close>; the digits end before \<open>rest\<close>.
\<close>

definition base_prefix :: "int \<Rightarrow> uint8 list \<Rightarrow> uint8 list \<Rightarrow> uint8 list \<Rightarrow> nat \<Rightarrow> bool" where
  "base_prefix base0 pre ds rest b \<longleftrightarrow>
     (let x = (ds = [48] \<and> rest \<noteq> [] \<and> hd rest \<in> {120, 88})
      in base0 = int b \<and> 2 \<le> b \<and> b \<le> 36 \<and> pre = [] \<and> (b = 16 \<longrightarrow> \<not> x) \<or>
         base0 \<in> {0, 16} \<and> b = 16 \<and> pre \<in> {[48, 120], [48, 88]} \<or>
         base0 = 0 \<and> b = 10 \<and> pre = [] \<and> hd ds \<noteq> 48 \<or>
         base0 = 0 \<and> b = 8 \<and> pre = [] \<and> hd ds = 48 \<and> \<not> x)"

lemma bytes_cstr: "cstr m a (xs @ ys) \<Longrightarrow> i < length xs \<Longrightarrow> m (a + i) = xs ! i"
  by (simp add: cstr_append)

lemma digit_value_zero: "digit_value c = 0 \<longleftrightarrow> c = 48"
proof -
  have "c = 48 \<longleftrightarrow> unat c = 48" by (simp add: word_unat_eq_iff)
  then show ?thesis by (auto simp: digit_value_def Let_def)
qed

lemma digit_not_space: "digit_value c < 36 \<Longrightarrow> isspace (uint c) = 0 \<and> c \<noteq> 45 \<and> c \<noteq> 43"
proof -
  have c: "uint c = int (unat c)" "unat c < 256" using unsigned_less [where 'a = nat, of c] by simp_all
  assume "digit_value c < 36"
  then have "48 \<le> unat c" "unat c \<le> 122" by (auto simp: digit_value_def Let_def split: if_splits)
  moreover from this have "unat c \<noteq> unat (45 :: uint8)" "unat c \<noteq> unat (43 :: uint8)" by simp_all
  ultimately show ?thesis using isspace_iff [OF c(2)] by auto
qed

lemma get_base_prefix:
  assumes c: "cstr m a (pre @ ds @ rest)" and pre: "base_prefix base0 pre ds rest b"
    and ds: "ds \<noteq> []" "\<forall>c \<in> set ds. digit_value c < b"
  shows "get_base base0 a m = Some (int b, a + length pre)"
proof -
  define x where "x \<longleftrightarrow> ds = [48] \<and> rest \<noteq> [] \<and> hd rest \<in> {120, 88}"
  have x: "\<not> (m a = 48 \<and> (m (a + 1) = 120 \<or> m (a + 1) = 88))" if "\<not> x" "pre = []" "b \<le> 16"
  proof -
    obtain d ds1 where d: "ds = d # ds1" using ds(1) by (cases ds) auto
    have "digit_value 120 = 33" "digit_value 88 = 33" by (simp_all add: digit_value_def)
    then have "120 \<notin> set ds" "88 \<notin> set ds" using ds(2) that(3) by fastforce+
    then show ?thesis using c that(1,2) d unfolding x_def by (cases ds1; cases rest) auto
  qed
  have h: "m a = hd ds" if "pre = []" using c that ds(1) by (cases ds) auto
  consider "base0 = int b" "2 \<le> b" "b \<le> 36" "pre = []" "b = 16 \<longrightarrow> \<not> x"
    | "base0 \<in> {0, 16}" "b = 16" "pre \<in> {[48, 120], [48, 88]}"
    | "base0 = 0" "b = 10" "pre = []" "hd ds \<noteq> 48"
    | "base0 = 0" "b = 8" "pre = []" "hd ds = 48" "\<not> x"
    using pre unfolding base_prefix_def x_def Let_def by blast
  then show ?thesis
  proof cases
    case 1
    then show ?thesis using x by (auto simp: get_base_def)
  next
    case 2
    then show ?thesis using c by (auto simp: get_base_def)
  next
    case 3
    then show ?thesis using h by (simp add: get_base_def)
  next
    case 4
    then show ?thesis using h x by (auto simp: get_base_def)
  qed
qed

lemma Stoul_value:
  assumes s: "cstr m s (sp @ sg @ pre @ ds @ rest)"
    and sp: "\<forall>c \<in> set sp. isspace (uint c) \<noteq> 0" and sg: "sg \<in> {[], [43], [45]}"
    and pre: "base_prefix base0 pre ds rest b"
    and ds: "ds \<noteq> []" "\<forall>c \<in> set ds. digit_value c < b" "rest \<noteq> [] \<longrightarrow> b \<le> digit_value (hd rest)"
  defines "V \<equiv> num_of b (map digit_value ds)"
  defines "x \<equiv> if V < 2 ^ 32 then of_nat V else 0xffffffff :: uint32"
  shows "Stoul s base0 m = Some (if sg = [45] then - x else x, s + length (sp @ sg @ pre @ ds), 2 ^ 32 \<le> V)"
proof -
  define a where "a = s + length sp"
  define a1 where "a1 = a + length sg"
  define s1 where "s1 = a1 + length pre"
  define n where "n = length (takeWhile (\<lambda>c. c = 48) ds)"
  define ds' where "ds' = dropWhile (\<lambda>c. c = 48) ds"
  have b: "2 \<le> b" "b \<le> 36" using pre by (auto simp: base_prefix_def Let_def)
  have dsn: "ds = replicate n 48 @ ds'"
  proof -
    have "takeWhile (\<lambda>c. c = 48) ds = replicate n 48" unfolding n_def by (induction ds) auto
    then show ?thesis unfolding ds'_def by (metis takeWhile_dropWhile_id)
  qed
  have ca: "cstr m a (sg @ pre @ ds @ rest)" and ca1: "cstr m a1 (pre @ ds @ rest)" and cs1: "cstr m s1 (ds @ rest)"
    using s by (simp_all add: cstr_append [of _ _ sp] cstr_append [of _ _ sg] cstr_append [of _ _ pre] a_def a1_def s1_def add.assoc)
  have cds: "cstr m (s1 + n) (ds' @ rest)" using cs1 by (simp add: dsn cstr_append [of _ _ "replicate n 48"])
  have d36: "digit_value c < 36" if "c \<in> set ds" for c using ds(2) b that by fastforce
  have h1: "digit_value (m a1) < 36"
  proof -
    have "pre = [] \<or> hd pre = 48" using pre by (auto simp: base_prefix_def Let_def)
    moreover have "m a1 = hd (pre @ ds)" using ca1 ds(1) by (cases pre; cases ds) auto
    ultimately show ?thesis using d36 ds(1) digit_value_zero [of 48] by (cases pre) (auto)
  qed
  have space: "skip_space s m = Some a"
  proof -
    have "isspace (uint (m a)) = 0"
    proof (cases "sg = []")
      case True
      then show ?thesis using h1 digit_not_space by (simp add: a1_def)
    next
      case False
      then have "m a = 43 \<or> m a = 45" using ca sg by auto
      then show ?thesis using isspace_iff [of 43] isspace_iff [of 45] by auto
    qed
    then show ?thesis using skip_space_run [OF sp, of m s] s by (simp add: cstr_append [of _ _ sp] a_def)
  qed
  have sign: "(if m a = 45 \<or> m a = 43 then (m a, a + 1) else (43, a)) = (if sg = [45] then 45 else 43, a1)"
    using ca sg h1 digit_not_space [of "m a"] by (auto simp: a1_def)
  have gb: "get_base base0 a1 m = Some (int b, s1)" unfolding s1_def by (rule get_base_prefix [OF ca1 pre ds(1,2)])
  have endc: "\<not> digit_value (m (s1 + n + length ds')) < b"
  proof (cases rest)
    case Nil
    then have "m (s1 + n + length ds') = 0" using cds by (simp add: cstr_iff)
    then show ?thesis using b by (simp add: digit_value_def)
  next
    case (Cons c cs)
    then show ?thesis using cds ds(3) by (simp add: cstr_append [of _ _ ds'])
  qed
  have zeros: "skip_zeros s1 m = Some (s1 + n)"
  proof (rule skip_zeros_run)
    show "\<forall>i < n. m (s1 + i) = 48" using cs1 by (simp add: dsn cstr_append [of _ _ "replicate n 48"])
    show "m (s1 + n) \<noteq> 48"
    proof (cases ds')
      case Nil
      then show ?thesis using endc b digit_value_zero [of 48] by auto
    next
      case (Cons c cs)
      then show ?thesis using cds hd_dropWhile [of "\<lambda>c. c = 48" ds] by (auto simp: ds'_def)
    qed
  qed
  have dv: "\<forall>c \<in> set ds'. digit_value c < b" using ds(2) dsn by auto
  have V: "V = num_of b (map digit_value ds')"
    unfolding V_def dsn map_append by (rule num_of_zeros) (simp add: digit_value_zero)
  have rd: "read_digits (int b) (s1 + n) 0 0 0 m = Some (s1 + n + length ds', of_nat V,
      if ds' = [] then 0 else of_nat (num_of b (map digit_value (butlast ds'))), if ds' = [] then 0 else of_nat (digit_value (last ds')))"
    using read_digits_run [OF b(2) dv, of m "s1 + n" 0 0 0] cds endc
    by (simp add: cstr_append [of _ _ ds'] V num_of_def)
  have len: "length ds = n + length ds'" by (simp add: dsn)
  note run = Stoul_def space Option.bind.simps sign Let_def prod.case gb option.case zeros rd
  show ?thesis
  proof (cases "ds' = []")
    case True
    then have "V = 0" by (simp add: V)
    moreover have "ndigs ! b \<noteq> 0" using ndigs_table b by (auto simp del: upt_rec_numeral)
    ultimately show ?thesis unfolding run using True ds(1) len
      by (simp add: x_def s1_def a1_def a_def add.assoc)
  next
    case False
    let ?vs = "map digit_value ds'"
    have h: "hd ?vs \<noteq> 0"
      using False hd_dropWhile [of "\<lambda>c. c = 48" ds] digit_value_zero by (simp add: ds'_def hd_map)
    have ov: "(if int (length ds') - int (ndigs ! b) < 0 then False
        else int (length ds') - int (ndigs ! b) > 0 \<or> of_nat V < (of_nat V - of_nat (digit_value (last ds')) :: uint32) \<or>
          (of_nat V - of_nat (digit_value (last ds'))) div of_nat b \<noteq> (of_nat (num_of b (map digit_value (butlast ds'))) :: uint32))
        \<longleftrightarrow> 2 ^ 32 \<le> V"
      using overflow_exact [OF b _ h] dv False unfolding V length_map map_butlast [symmetric] last_map [OF False] by simp
    have i: "int (s1 + n + length ds') - int (s1 + n) - int (ndigs ! nat (int b)) = int (length ds') - int (ndigs ! b)"
      by simp
    show ?thesis unfolding run if_not_P [OF False] i of_int_of_nat_eq ov using False len
      by (simp add: x_def s1_def a1_def a_def add.assoc not_le)
  qed
qed

section \<open>The random numbers\<close>

lemma rand_range: "unat (fst (rand h)) < 32768"
proof -
  have "w AND 0x7fff = take_bit 15 w" for w :: uint32 by (simp add: take_bit_eq_mask mask_eq_exp_minus_1)
  then show ?thesis by (simp add: rand_def Let_def unsigned_take_bit_eq take_bit_nat_def)
qed

section \<open>Properties\<close>

text \<open>for a character code the \<^verbatim>\<open>ctype\<close> table classifies digits, letters, white space and
  punctuation as ASCII does; above 127 it has nothing.\<close>

theorem ctype_ascii:
  assumes "c < 256"
  shows "(isdigit (int c) \<noteq> 0 \<longleftrightarrow> 48 \<le> c \<and> c \<le> 57) \<and>
     (isupper (int c) \<noteq> 0 \<longleftrightarrow> 65 \<le> c \<and> c \<le> 90) \<and>
     (islower (int c) \<noteq> 0 \<longleftrightarrow> 97 \<le> c \<and> c \<le> 122) \<and>
     (isalnum (int c) \<noteq> 0 \<longleftrightarrow> isalpha (int c) \<noteq> 0 \<or> isdigit (int c) \<noteq> 0) \<and>
     (isxdigit (int c) \<noteq> 0 \<longleftrightarrow> digit_value (of_nat c) < 16) \<and>
     (isspace (int c) \<noteq> 0 \<longleftrightarrow> c = 32 \<or> 9 \<le> c \<and> c \<le> 13) \<and>
     (iscntrl (int c) \<noteq> 0 \<longleftrightarrow> c < 32 \<or> c = 127) \<and>
     (isprint (int c) \<noteq> 0 \<longleftrightarrow> 32 \<le> c \<and> c < 127) \<and>
     (isgraph (int c) \<noteq> 0 \<longleftrightarrow> isalnum (int c) \<noteq> 0 \<or> ispunct (int c) \<noteq> 0)"
proof -
  note t = ctype_defs ctype_test_eq [OF assms] ctype_ranges [OF assms] ct_defs
  have u: "unat (of_nat c :: uint8) = c" using assms by (simp add: unat_of_nat take_bit_nat_eq_self)
  show ?thesis unfolding t digit_value_def u Let_def by (simp, intro conjI impI; linarith)
qed

text \<open>\<^verbatim>\<open>_Stoul\<close> reads white space, an optional sign, a prefix that gives the base (octal for a
  leading 0, hexadecimal for 0x) and the digits up to the first other character. The
  result is the value when it fits in 32 bits and the largest number when it does not,
  which the test against \<^verbatim>\<open>ndigs\<close> and the last step decides exactly for every base from 2 to 36;
  a minus sign then negates modulo \<open>2^32\<close>, so an overflow with a minus sign gives 1.\<close>

theorem Stoul_saturates:
  assumes "cstr m s (sp @ sg @ pre @ ds @ rest)"
    and "\<forall>c \<in> set sp. isspace (uint c) \<noteq> 0" and "sg \<in> {[], [43], [45]}"
    and "base_prefix base0 pre ds rest b"
    and "ds \<noteq> []" and "\<forall>c \<in> set ds. digit_value c < b" and "rest \<noteq> [] \<longrightarrow> b \<le> digit_value (hd rest)"
  shows "Stoul s base0 m =
     (let V = num_of b (map digit_value ds); x = (if V < 2 ^ 32 then of_nat V else 0xffffffff)
      in Some (if sg = [45] then - x else x, s + length (sp @ sg @ pre @ ds), 2 ^ 32 \<le> V))"
  using Stoul_value [OF assms] by (simp add: Let_def)

theorem Stoul_saturates_witness:
  "Stoul 0 0 (put_bytes 0 [32, 45, 48, 120, 49, 70, 103, 0] (\<lambda>_. 0)) = Some (- 31, 6, False)"
proof -
  let ?m = "put_bytes 0 [32, 45, 48, 120, 49, 70, 103, 0] (\<lambda>_. 0)"
  have "cstr ?m 0 ([32] @ [45] @ [48, 120] @ [49, 70] @ [103])" by (simp add: put_bytes_def)
  moreover have "base_prefix 0 [48, 120] [49, 70] [103] 16" by (simp add: base_prefix_def)
  moreover have "\<forall>c \<in> set [49, 70]. digit_value c < 16" "16 \<le> digit_value 103" by (simp_all add: digit_value_def)
  moreover have "isspace (int 32) \<noteq> 0" by (subst isspace_iff) simp_all
  ultimately show ?thesis
    using Stoul_saturates [of ?m 0 "[32]" "[45]" "[48, 120]" "[49, 70]" "[103]" 0 16]
    by (simp add: num_of_def digit_value_def)
qed

theorem ctype_ascii_witness: "isdigit 55 \<noteq> 0 \<and> isupper 55 = 0"
  using ctype_ascii [of 55] by simp

end
