(* ===== verification/CPrint.thy ===== *)
theory CPrint
  imports CNumber
begin

text \<open>
  Formatted input and output in \<^verbatim>\<open>src/string.c\<close>: \<^verbatim>\<open>sscanf\<close>, \<^verbatim>\<open>df_sputc\<close>, \<^verbatim>\<open>df_sputs\<close> and
  \<^verbatim>\<open>sprintf\<close>. The variable arguments are a list; a conversion that does not find the
  argument it reads has no result. Characters are written by their codes (37 is \<^verbatim>\<open>%\<close>).
\<close>

section \<open>Scanning\<close>

text \<open>\<^verbatim>\<open>strcmp (a, lit) == 0\<close> for a string literal.\<close>

fun lit_eq :: "uint8 list \<Rightarrow> addr \<Rightarrow> cmem \<Rightarrow> bool" where
  "lit_eq [] a m \<longleftrightarrow> m a = 0"
| "lit_eq (c # cs) a m \<longleftrightarrow> m a = c \<and> lit_eq cs (a + 1) m"

definition store_long :: "addr \<Rightarrow> uint32 \<Rightarrow> cmem \<Rightarrow> cmem" where
  "store_long a w m = m(a := ucast w, a + 1 := ucast (drop_bit 8 w), a + 2 := ucast (drop_bit 16 w), a + 3 := ucast (drop_bit 24 w))"

text \<open>The formats are \<^verbatim>\<open>%d\<close>, \<^verbatim>\<open>0x%X\<close> and \<^verbatim>\<open>0x%x\<close>.\<close>

definition sscanf :: "addr \<Rightarrow> addr \<Rightarrow> addr \<Rightarrow> cmem \<Rightarrow> (int \<times> cmem) option" where
  "sscanf str fmt pOutVal m =
     (if lit_eq [37, 100] fmt m \<or> lit_eq [48, 120, 37, 88] fmt m \<or> lit_eq [48, 120, 37, 120] fmt m
      then map_option (\<lambda>v. (0, store_long pOutVal (word_of_int v) m)) (atoi str m)
      else Some (0, store_long pOutVal 0 m))"

section \<open>Putting characters\<close>

definition df_sputc :: "addr \<Rightarrow> nat \<Rightarrow> uint8 \<Rightarrow> cmem \<Rightarrow> int \<times> nat \<times> cmem" where
  "df_sputc buff len c m = (1, len + 1, m(buff + len := c))"

text \<open>
  The string of \<^verbatim>\<open>df_sputs\<close> is in memory or in the local array of \<^verbatim>\<open>sprintf\<close>; \<open>src\<close> reads
  its bytes.
\<close>

partial_function (option) df_sputs_loop :: "(cmem \<Rightarrow> nat \<Rightarrow> uint8) \<Rightarrow> addr \<Rightarrow> nat \<Rightarrow> nat \<Rightarrow> cmem \<Rightarrow> (int \<times> nat \<times> cmem) option" where
  "df_sputs_loop src buff len i m =
     (if src m i \<noteq> 0 then df_sputs_loop src buff (len + 1) (i + 1) (m(buff + len := src m i)) else Some (int i, len, m))"

definition df_sputs :: "addr \<Rightarrow> nat \<Rightarrow> (cmem \<Rightarrow> nat \<Rightarrow> uint8) option \<Rightarrow> cmem \<Rightarrow> (int \<times> nat \<times> cmem) option" where
  "df_sputs buff len s m = (case s of None \<Rightarrow> Some (0, len, m) | Some src \<Rightarrow> df_sputs_loop src buff len 0 m)"

section \<open>Numerals\<close>

text \<open>The \<^verbatim>\<open>do\<close> loop that writes the digits of \<open>val\<close> into the local array \<open>s\<close>, right to left.\<close>

function num_loop :: "uint32 \<Rightarrow> uint32 \<Rightarrow> nat \<Rightarrow> uint8 list \<Rightarrow> nat \<times> uint8 list" where
  "num_loop val r i s =
     (let c = ucast (val mod r + 48) :: uint8;
          c' = (if c > 57 then c + 7 else c);
          s' = s[i - 1 := c'];
          val' = val div r
      in if i - 1 \<noteq> 0 \<and> val' \<noteq> 0 then num_loop val' r (i - 1) s' else (i - 1, s'))"
  by pat_completeness auto
termination by (relation "measure (\<lambda>(v, r, i, s). i)") auto

text \<open>The padding to the width; \<open>w\<close> is already \<^verbatim>\<open>sizeof(s) - 1 - w\<close>.\<close>

function pad_loop :: "nat \<Rightarrow> uint32 \<Rightarrow> uint8 \<Rightarrow> uint8 list \<Rightarrow> nat \<times> uint8 list" where
  "pad_loop i w c s = (if i \<noteq> 0 \<and> int i > sint w then pad_loop (i - 1) w c (s[i - 1 := c]) else (i, s))"
  by pat_completeness auto
termination by (relation "measure (\<lambda>(i, w, c, s). i)") auto

text \<open>From the flags \<open>f\<close>, the width, the conversion character and the value to the local array.\<close>

definition put_numeral :: "uint8 \<Rightarrow> uint32 \<Rightarrow> uint8 \<Rightarrow> uint32 \<Rightarrow> uint32 \<Rightarrow> nat \<times> uint8 list" where
  "put_numeral f0 w c r val0 =
     (let (val, f) = (if c = 100 \<and> val0 AND 0x80000000 \<noteq> 0 then (0 - val0, f0 OR 4) else (val0, f0));
          (i, s) = num_loop val r 15 (replicate 16 0);
          (i, s) = (if i \<noteq> 0 \<and> f AND 4 \<noteq> 0 then (i - 1, s[i - 1 := 45]) else (i, s))
      in pad_loop i (15 - w) (if f AND 1 \<noteq> 0 then 48 else 32) s)"

section \<open>The format string\<close>

text \<open>An argument is a word or a \<^verbatim>\<open>long long\<close>.\<close>

datatype va_arg = Word uint32 | Long_long "64 word"

fun next_word :: "va_arg list \<Rightarrow> (uint32 \<times> va_arg list) option" where
  "next_word (Word w # arp) = Some (w, arp)"
| "next_word _ = None"

fun next_long_long :: "va_arg list \<Rightarrow> (64 word \<times> va_arg list) option" where
  "next_long_long (Long_long w # arp) = Some (w, arp)"
| "next_long_long _ = None"

partial_function (option) width_loop :: "uint32 \<Rightarrow> uint8 \<Rightarrow> addr \<Rightarrow> cmem \<Rightarrow> (uint32 \<times> uint8 \<times> addr) option" where
  "width_loop w c str m =
     (if c \<ge> 48 \<and> c \<le> 57 then width_loop (w * 10 + (ucast c - 48)) (m str) (str + 1) m else Some (w, c, str))"

text \<open>Flags, width and size prefix behind a \<^verbatim>\<open>%\<close>: the flags, the width, the conversion character
  and the position behind it.\<close>

definition get_spec :: "uint8 \<Rightarrow> addr \<Rightarrow> cmem \<Rightarrow> (uint8 \<times> uint32 \<times> uint8 \<times> addr) option" where
  "get_spec c str m =
     do {
       let (f, c, str) = (if c = 48 then (1, m str, str + 1) else (0, c, str));
       let (c, str) = (if c = 32 then (m str, str + 1) else (c, str));
       (w, c, str) \<leftarrow> width_loop 0 c str m;
       let (f, c, str) = (if c = 108 then (f OR 2, m str, str + 1) else (f, c, str));
       let (f, c, str) = (if f AND 2 \<noteq> 0 \<and> c = 108 then (f OR 8, m str, str + 1) else (f, c, str));
       Some (f, w, c, str)
     }"

definition get_value :: "uint8 \<Rightarrow> va_arg list \<Rightarrow> (uint32 \<times> va_arg list) option" where
  "get_value f arp =
     (if f AND 8 \<noteq> 0 then map_option (\<lambda>(v, arp'). (ucast v, arp')) (next_long_long arp) else next_word arp)"

partial_function (option) sprintf_loop ::
  "addr \<Rightarrow> addr \<Rightarrow> va_arg list \<Rightarrow> nat \<Rightarrow> int \<Rightarrow> int \<Rightarrow> cmem \<Rightarrow> (int \<times> int \<times> nat \<times> cmem) option" where
  "sprintf_loop buff str arp len cc res m =
     (if cc = -1 then Some (cc, res, len, m)
      else if m str = 0 then Some (cc, res, len, m)
      else if m str \<noteq> 37
      then (case df_sputc buff len (m str) m of (cc, len, m') \<Rightarrow> sprintf_loop buff (str + 1) arp len 1 (res + 1) m')
      else if m (str + 1) = 37
      then (case df_sputc buff len 37 m of (cc, len, m') \<Rightarrow> sprintf_loop buff (str + 2) arp len cc (res + cc) m')
      else Option.bind (get_spec (m (str + 1)) (str + 2) m) (\<lambda>(f, w, c, str).
        if c = 115
        then Option.bind (next_word arp) (\<lambda>(p, arp).
          Option.bind (df_sputs buff len (if p = 0 then None else Some (\<lambda>m i. m (unat p + i))) m)
            (\<lambda>(cc, len, m'). sprintf_loop buff str arp len cc (res + cc) m'))
        else if c = 99
        then Option.bind (next_word arp) (\<lambda>(v, arp).
          case df_sputc buff len (ucast v) m of (cc, len, m') \<Rightarrow> sprintf_loop buff str arp len 1 (res + 1) m')
        else let r = (if c = 100 \<or> c = 117 then 10 else if c = 88 \<or> c = 120 \<or> c = 112 then 16 else 0)
             in if r = 0 then Some (cc, res, len, m)
                else Option.bind (get_value f arp) (\<lambda>(v, arp).
                  case put_numeral f w c r v of (i, s) \<Rightarrow>
                    Option.bind (df_sputs buff len (Some (\<lambda>_ j. s ! (i + j))) m)
                      (\<lambda>(cc, len, m'). sprintf_loop buff str arp len cc (res + cc) m'))))"

definition sprintf :: "addr \<Rightarrow> addr \<Rightarrow> va_arg list \<Rightarrow> cmem \<Rightarrow> (int \<times> cmem) option" where
  "sprintf buff str arp m =
     Option.bind (sprintf_loop buff str arp 0 0 0 m)
       (\<lambda>(cc, res, len, m'). Some (if cc = -1 then cc else res, m'(buff + len := 0)))"

declare df_sputs_loop.simps [code] width_loop.simps [code] sprintf_loop.simps [code]

section \<open>What a format means\<close>

definition digit_char :: "nat \<Rightarrow> uint8" where
  "digit_char d = of_nat (if d < 10 then 48 + d else 55 + d)"

function num_str :: "nat \<Rightarrow> nat \<Rightarrow> uint8 list" where
  "num_str r n = (if n < r \<or> r < 2 then [digit_char n] else num_str r (n div r) @ [digit_char (n mod r)])"
  by pat_completeness auto
termination by (relation "measure snd") auto

declare num_str.simps [simp del] num_loop.simps [simp del] pad_loop.simps [simp del]

text \<open>The field of a number: sign and digits, padded on the left to the width, at most 15.\<close>

definition num_radix :: "uint8 \<Rightarrow> uint32" where
  "num_radix c = (if c = 100 \<or> c = 117 then 10 else if c = 88 \<or> c = 120 \<or> c = 112 then 16 else 0)"

definition num_body :: "uint8 \<Rightarrow> uint32 \<Rightarrow> uint8 list" where
  "num_body c v = (if c = 100 \<and> sint v < 0 then 45 # num_str 10 (nat (- sint v)) else num_str (unat (num_radix c)) (unat v))"

definition num_field :: "bool \<Rightarrow> nat \<Rightarrow> uint8 \<Rightarrow> uint32 \<Rightarrow> uint8 list" where
  "num_field z w c v = replicate (min w 15 - length (num_body c v)) (if z then 48 else 32) @ num_body c v"

section \<open>Numerals in the local array\<close>

lemma digit_char_code: "n < 16 \<Longrightarrow> (let c = of_nat (n + 48) :: uint8 in if c > 57 then c + 7 else c) = digit_char n"
proof -
  assume "n < 16"
  then have "n = 0 \<or> n = 1 \<or> n = 2 \<or> n = 3 \<or> n = 4 \<or> n = 5 \<or> n = 6 \<or> n = 7 \<or> n = 8 \<or> n = 9 \<or> n = 10 \<or> n = 11 \<or> n = 12 \<or> n = 13 \<or> n = 14 \<or> n = 15"
    by presburger
  then show ?thesis by (elim disjE) (simp_all add: digit_char_def)
qed

lemma num_str_length_pos: "0 < length (num_str r n)"
  by (subst num_str.simps) auto

lemma num_loop_digits:
  assumes "r = 10 \<or> r = 16"
  shows "unat val = n \<Longrightarrow> length (num_str (unat r) n) \<le> i \<Longrightarrow> i \<le> length s \<Longrightarrow>
     num_loop val r i s = (i - length (num_str (unat r) n), take (i - length (num_str (unat r) n)) s @ num_str (unat r) n @ drop i s)"
proof (induction "unat r" n arbitrary: val i s rule: num_str.induct)
  case (1 n)
  have r: "unat r < 2 ^ 32" "2 \<le> unat r" "unat r \<le> 16" using assms by auto
  have i: "0 < i" using 1(3) num_str_length_pos [of "unat r" n] by linarith
  let ?c = "digit_char (n mod unat r)"
  have m16: "n mod unat r < 16" using r mod_less_divisor [of "unat r" n] by linarith
  have "ucast (val mod r + 48) = (of_nat (n mod unat r + 48) :: uint8)"
  proof -
    have "val mod r = of_nat (unat (val mod r))" by simp
    then have e: "val mod r = of_nat (n mod unat r)" using 1(2) by (simp add: unat_mod)
    have "unat (val mod r) < 16" using m16 1(2) by (simp add: unat_mod)
    moreover have "unat (val mod r + 48) = unat (val mod r) + 48"
      using calculation by (subst unat_plus_simple [THEN iffD1]) (simp_all add: word_le_nat_alt unat_word_ariths)
    moreover have "ucast (val mod r + 48) = (of_nat (unat (val mod r + 48)) :: uint8)" by (simp only: of_nat_unat)
    ultimately show ?thesis using 1(2) by (simp only: unat_mod)
  qed
  then have c: "(let c = ucast (val mod r + 48) :: uint8 in if c > 57 then c + 7 else c) = ?c"
    using digit_char_code [of "n mod unat r"] m16 by simp
  have s': "s[i - 1 := ?c] = take (i - 1) s @ ?c # drop i s"
    using i 1(4) by (simp add: upd_conv_take_nth_drop)
  have v': "unat (val div r) = n div unat r" using 1(2) by (simp add: unat_div)
  then have v0: "val div r = 0 \<longleftrightarrow> n < unat r" using r by (metis div_eq_0_iff unat_eq_0 not_numeral_le_zero)
  show ?case
  proof (cases "n < unat r")
    case True
    then have "num_str (unat r) n = [?c]" by (subst num_str.simps) simp
    then show ?thesis using True c s' v0 by (subst num_loop.simps) (simp add: Let_def)
  next
    case False
    then have e: "num_str (unat r) n = num_str (unat r) (n div unat r) @ [?c]" using r by (subst num_str.simps) simp
    have i1: "i - 1 \<noteq> 0" using 1(3) num_str_length_pos [of "unat r" "n div unat r"] unfolding e length_append by (simp only: list.size)
    have "num_loop val r i s = num_loop (val div r) r (i - 1) (s[i - 1 := ?c])"
      using False c v0 i1 by (subst num_loop.simps) (simp add: Let_def)
    also have "\<dots> = (i - 1 - length (num_str (unat r) (n div unat r)),
       take (i - 1 - length (num_str (unat r) (n div unat r))) (s[i - 1 := ?c]) @ num_str (unat r) (n div unat r) @ drop (i - 1) (s[i - 1 := ?c]))"
      using 1(1) [OF _ v'] False r 1(3,4) unfolding e by simp
    finally show ?thesis unfolding e s' using i 1(4) by simp
  qed
qed

lemma pad_loop_pads:
  "i \<le> length s \<Longrightarrow> pad_loop i w c s = (min i (nat (sint w)), take (min i (nat (sint w))) s @ replicate (i - nat (sint w)) c @ drop i s)"
proof (induction i arbitrary: s)
  case 0
  then show ?case by (subst pad_loop.simps) simp
next
  case (Suc i)
  show ?case
  proof (cases "int (Suc i) > sint w")
    case True
    have "pad_loop (Suc i) w c s = pad_loop i w c (s[i := c])" using True by (subst pad_loop.simps) simp
    also have "\<dots> = (min i (nat (sint w)), take (min i (nat (sint w))) (s[i := c]) @ replicate (i - nat (sint w)) c @ drop i (s[i := c]))"
      using Suc by simp
    also have "drop i (s[i := c]) = c # drop (Suc i) s" using Suc.prems by (simp add: upd_conv_take_nth_drop)
    also have "replicate (i - nat (sint w)) c @ c # drop (Suc i) s = replicate (Suc i - nat (sint w)) c @ drop (Suc i) s"
      using True by (simp add: Suc_diff_le replicate_app_Cons_same)
    finally show ?thesis using True by (simp add: min_absorb2)
  next
    case False
    then show ?thesis by (subst pad_loop.simps) (simp add: min_def)
  qed
qed

lemma num_str_chars: "c \<in> set (num_str r n) \<Longrightarrow> r = 10 \<or> r = 16 \<Longrightarrow> c \<noteq> 0"
proof (induction r n rule: num_str.induct)
  case (1 r n)
  have nz: "digit_char d \<noteq> 0" if "d < 16" for d
  proof -
    have "unat (digit_char d) = (if d < 10 then 48 + d else 55 + d)" using that by (simp add: digit_char_def unat_of_nat take_bit_nat_eq_self)
    then have "unat (digit_char d) \<noteq> 0" by simp
    then show ?thesis by (metis unat_0)
  qed
  have "n mod r < 16" using "1.prems"(2) mod_less_divisor [of r n] by auto
  then show ?case using 1 nz by (subst (asm) (2) num_str.simps) (auto split: if_splits)
qed

lemma num_str_length: "n < r ^ k \<Longrightarrow> 0 < k \<Longrightarrow> 2 \<le> r \<Longrightarrow> length (num_str r n) \<le> k"
proof (induction k arbitrary: n)
  case (Suc k)
  show ?case
  proof (cases "n < r")
    case True
    then show ?thesis by (subst num_str.simps) simp
  next
    case False
    then have "k \<noteq> 0" using Suc.prems by (cases k) auto
    moreover have "n div r < r ^ k" using Suc.prems by (simp add: div_less_iff_less_mult mult.commute)
    ultimately have "length (num_str r (n div r)) \<le> k" using Suc by simp
    then show ?thesis using False Suc.prems by (subst num_str.simps) simp
  qed
qed simp

lemma num_body_length: "num_radix c \<noteq> 0 \<Longrightarrow> length (num_body c v) \<le> 11"
proof -
  assume r: "num_radix c \<noteq> 0"
  have v: "unat v < 2 ^ 32" using unsigned_less [where 'a = nat, of v] by simp
  have "- (2 ^ 31) \<le> sint v" using sint_greater_eq [of v] by simp
  then have "length (num_str 10 (nat (- sint v))) \<le> 10" by (intro num_str_length) auto
  moreover have "length (num_str 10 (unat v)) \<le> 10" using v by (intro num_str_length) auto
  moreover have "length (num_str 16 (unat v)) \<le> 8" using v by (intro num_str_length) auto
  ultimately show ?thesis using r by (auto simp: num_body_def num_radix_def split: if_splits)
qed

lemma num_body_chars: "num_radix c \<noteq> 0 \<Longrightarrow> 0 \<notin> set (num_body c v)"
  using num_str_chars by (fastforce simp: num_body_def num_radix_def split: if_splits)

lemma sign_bit: "v AND 0x80000000 \<noteq> 0 \<longleftrightarrow> sint v < 0" for v :: uint32
proof -
  have "v AND 2 ^ 31 = 0 \<longleftrightarrow> \<not> bit v 31" by (rule and_exp_eq_0_iff_not_bit)
  then show ?thesis using bit_last_iff [of v] by simp
qed

lemma neg_value: "sint v < 0 \<Longrightarrow> unat (0 - v) = nat (- sint v)" for v :: uint32
proof -
  assume "sint v < 0"
  moreover have "- (2 ^ 31) \<le> sint v" using sint_greater_eq [of v] by simp
  ultimately have "take_bit 32 (- sint v) = - sint v" by (intro take_bit_int_eq_self) auto
  moreover have "0 - v = word_of_int (- sint v)" by simp
  ultimately show ?thesis by (simp only: unsigned_of_int) simp
qed

lemma put_numeral_field:
  fixes z :: bool and v w :: uint32
  assumes r: "num_radix c \<noteq> 0" and w: "unat w < 2 ^ 31"
  defines "F \<equiv> num_field z (unat w) c v"
  obtains i s where "put_numeral (if z then 1 else 0) w c (num_radix c) v = (i, s)" and "length s = 16"
    and "drop i s = F @ [0]" and "i + length F = 15"
proof -
  let ?neg = "c = 100 \<and> sint v < 0"
  define val where "val = (if ?neg then 0 - v else v)"
  define f where "f = ((if z then 1 else 0) OR (if ?neg then 4 else 0) :: uint8)"
  define D where "D = num_str (unat (num_radix c)) (unat val)"
  define B where "B = num_body c v"
  have rad: "num_radix c = 10 \<or> num_radix c = 16" using r by (auto simp: num_radix_def split: if_splits)
  have B: "B = (if ?neg then 45 # D else D)" using neg_value [of v] by (simp add: B_def num_body_def D_def val_def num_radix_def)
  have lB: "length B \<le> 11" unfolding B_def by (rule num_body_length [OF r])
  then have lD: "length D \<le> 11" using B by (auto split: if_splits)
  have digits: "num_loop val (num_radix c) 15 (replicate 16 0) = (15 - length D, replicate (15 - length D) 0 @ D @ [0])"
    using num_loop_digits [OF rad refl, of val 15 "replicate 16 0"] lD by (simp add: D_def min_def)
  let ?k = "15 - length B"
  have signed: "(if 15 - length D \<noteq> 0 \<and> f AND 4 \<noteq> 0
      then (15 - length D - 1, (replicate (15 - length D) 0 @ D @ [0])[15 - length D - 1 := 45])
      else (15 - length D, replicate (15 - length D) 0 @ D @ [0])) = (?k, replicate ?k 0 @ B @ [0])"
  proof (cases ?neg)
    case True
    then have "f AND 4 \<noteq> 0" by (simp add: f_def)
    moreover obtain j where j: "15 - length D = Suc j" using lD by (cases "15 - length D") auto
    then have "(replicate (15 - length D) 0 @ D @ [0])[15 - length D - 1 := 45] = replicate j 0 @ 45 # D @ [0]"
      by (simp add: replicate_append_same [symmetric] list_update_append)
    moreover have "?k = j" using True B j by simp
    ultimately show ?thesis using True B j by simp
  next
    case False
    then show ?thesis using B by (auto simp: f_def)
  qed
  have w15: "nat (sint (15 - w)) = 15 - unat w"
  proof -
    have "15 - w = word_of_int (15 - int (unat w))" by simp
    moreover have "sint (word_of_int (15 - int (unat w)) :: uint32) = 15 - int (unat w)"
    proof -
      have "int (unat w) < 2 ^ 31" using w by (metis of_nat_less_iff of_nat_numeral of_nat_power)
      moreover have "- (2 ^ 31) \<le> 15 - k \<and> 15 - k < 2 ^ 31" if "k < 2 ^ 31" "0 \<le> k" for k :: int using that by simp
      ultimately have "- (2 ^ 31) \<le> 15 - int (unat w) \<and> 15 - int (unat w) < 2 ^ 31" using of_nat_0_le_iff by blast
      then show ?thesis by (simp only: signed_of_int) (simp add: signed_take_bit_int_eq_self_iff)
    qed
    moreover have "nat (15 - int n) = 15 - n" for n by linarith
    ultimately show ?thesis by (simp only:)
  qed
  have z: "f AND 1 \<noteq> 0 \<longleftrightarrow> z" by (simp add: f_def)
  have "put_numeral (if z then 1 else 0) w c (num_radix c) v = pad_loop ?k (15 - w) (if z then 48 else 32) (replicate ?k 0 @ B @ [0])"
  proof -
    have "(if c = 100 \<and> v AND 0x80000000 \<noteq> 0 then (0 - v, (if z then 1 else 0) OR 4) else (v, if z then 1 else 0)) = (val, f)"
      unfolding sign_bit by (auto simp: val_def f_def)
    then show ?thesis unfolding put_numeral_def Let_def
      by (simp only: prod.case digits signed z split: if_split)
  qed
  also have "\<dots> = (min ?k (15 - unat w), replicate (min ?k (15 - unat w)) 0 @ replicate (?k - (15 - unat w)) (if z then 48 else 32) @ B @ [0])"
    by (subst pad_loop_pads) (simp_all add: w15 min_def)
  finally have p: "put_numeral (if z then 1 else 0) w c (num_radix c) v = \<dots>" .
  have F: "F = replicate (?k - (15 - unat w)) (if z then 48 else 32) @ B"
  proof -
    have "min (unat w) 15 - length B = ?k - (15 - unat w)" by linarith
    then show ?thesis by (simp add: F_def num_field_def B_def)
  qed
  show ?thesis by (rule that [OF p]) (use lB F in \<open>auto simp: min_def\<close>)
qed

section \<open>Strings into the buffer\<close>

lemma df_sputs_loop_run:
  "(\<And>m'. (\<And>a. a < buff + len \<or> buff + len + length ys \<le> a \<Longrightarrow> m' a = m a) \<Longrightarrow>
      (\<forall>j < length ys. src m' (i + j) = ys ! j) \<and> src m' (i + length ys) = 0) \<Longrightarrow> 0 \<notin> set ys \<Longrightarrow>
   df_sputs_loop src buff len i m = Some (int (i + length ys), len + length ys, put_bytes (buff + len) ys m)"
proof (induction ys arbitrary: i len m)
  case Nil
  then show ?case by (subst df_sputs_loop.simps) auto
next
  case (Cons y ys)
  define m1 where "m1 = m(buff + len := y)"
  have "src m i = y" using Cons.prems(1) [of m] by auto
  then have "df_sputs_loop src buff len i m = df_sputs_loop src buff (len + 1) (i + 1) m1"
    using Cons.prems(2) by (subst df_sputs_loop.simps) (simp add: m1_def)
  also have "\<dots> = Some (int (i + 1 + length ys), len + 1 + length ys, put_bytes (buff + (len + 1)) ys m1)"
  proof (rule Cons.IH)
    fix m'
    assume "\<And>a. a < buff + (len + 1) \<or> buff + (len + 1) + length ys \<le> a \<Longrightarrow> m' a = m1 a"
    then have "a < buff + len \<or> buff + len + length (y # ys) \<le> a \<Longrightarrow> m' a = m a" for a
      by (auto simp: m1_def)
    from Cons.prems(1) [OF this] show "(\<forall>j < length ys. src m' (i + 1 + j) = ys ! j) \<and> src m' (i + 1 + length ys) = 0"
      by (auto simp: All_less_Suc2)
  qed (use Cons.prems(2) in auto)
  finally show ?case by (simp add: put_bytes_Cons m1_def)
qed

lemma df_sputs_mem:
  assumes "cstr m p xs" and "p + length xs < buff + len \<or> buff + len + length xs \<le> p"
  shows "df_sputs buff len (Some (\<lambda>m i. m (p + i))) m = Some (int (length xs), len + length xs, put_bytes (buff + len) xs m)"
proof -
  have "(\<forall>j < length xs. m' (p + (0 + j)) = xs ! j) \<and> m' (p + (0 + length xs)) = 0"
    if "\<And>a. a < buff + len \<or> buff + len + length xs \<le> a \<Longrightarrow> m' a = m a" for m'
    using assms that by (auto simp: cstr_iff)
  from df_sputs_loop_run [where src = "\<lambda>m i. m (p + i)" and i = 0, OF this] show ?thesis
    using assms(1) by (simp add: df_sputs_def cstr_iff)
qed

lemma df_sputs_local:
  assumes "drop i s = xs @ [0]" and "0 \<notin> set xs"
  shows "df_sputs buff len (Some (\<lambda>_ j. s ! (i + j))) m = Some (int (length xs), len + length xs, put_bytes (buff + len) xs m)"
proof -
  have "s ! (i + j) = (xs @ [0]) ! j" if "j \<le> length xs" for j
  proof -
    have "i + j < length s" using arg_cong [OF assms(1), of length] that by simp
    then show ?thesis using assms(1) by (metis nth_drop less_imp_le_nat le_add1 order.trans)
  qed
  then have "(\<forall>j < length xs. s ! (i + (0 + j)) = xs ! j) \<and> s ! (i + (0 + length xs)) = 0" by (simp add: nth_append)
  from df_sputs_loop_run [where src = "\<lambda>_ j. s ! (i + j)" and i = 0, OF this assms(2)] show ?thesis
    by (simp add: df_sputs_def)
qed

section \<open>Conversion specifications\<close>

definition width_of :: "uint8 list \<Rightarrow> nat" where
  "width_of ws = num_of 10 (map (\<lambda>c. unat c - 48) ws)"

lemma width_loop_run:
  "(\<forall>c \<in> set ws. 48 \<le> c \<and> c \<le> 57) \<Longrightarrow> \<not> (48 \<le> cv \<and> cv \<le> 57) \<Longrightarrow>
   (\<forall>i < length (ws @ [cv]). m (str + i) = (ws @ [cv]) ! i) \<Longrightarrow>
   width_loop (of_nat v) (m str) (str + 1) m =
     Some (of_nat (foldl (\<lambda>x d. x * 10 + d) v (map (\<lambda>c. unat c - 48) ws)), cv, str + length ws + 1)"
proof (induction ws arbitrary: v str)
  case Nil
  then show ?case by (subst width_loop.simps) auto
next
  case (Cons c ws)
  have c: "m str = c" "48 \<le> c" "c \<le> 57" using Cons.prems by (auto simp: All_less_Suc2)
  have "ucast c - 48 = (of_nat (unat c - 48) :: uint32)"
    using c(2) by (simp add: of_nat_diff word_le_nat_alt)
  then have "width_loop (of_nat v) (m str) (str + 1) m = width_loop (of_nat (v * 10 + (unat c - 48))) (m (str + 1)) (str + 1 + 1) m"
    using c by (subst width_loop.simps) simp
  also have "\<dots> = Some (of_nat (foldl (\<lambda>x d. x * 10 + d) (v * 10 + (unat c - 48)) (map (\<lambda>c. unat c - 48) ws)), cv, str + 1 + length ws + 1)"
    using Cons.prems by (intro Cons.IH) (auto simp: All_less_Suc2)
  finally show ?case by simp
qed

text \<open>
  A format as a sequence of items: an ordinary character, \<^verbatim>\<open>%%\<close>, \<^verbatim>\<open>%s\<close> with the address and
  the bytes of its string, \<^verbatim>\<open>%c\<close>, and a number with zero flag, width digits, conversion
  character and value.
\<close>

datatype item = Chr uint8 | Percent | Str uint32 "uint8 list" | Char uint32 | Num bool "uint8 list" uint8 uint32

fun fmt_of :: "item \<Rightarrow> uint8 list" where
  "fmt_of (Chr c) = [c]"
| "fmt_of Percent = [37, 37]"
| "fmt_of (Str p xs) = [37, 115]"
| "fmt_of (Char v) = [37, 99]"
| "fmt_of (Num z ws c v) = 37 # (if z then [48] else []) @ ws @ [c]"

fun args_of :: "item \<Rightarrow> va_arg list" where
  "args_of (Str p xs) = [Word p]"
| "args_of (Char v) = [Word v]"
| "args_of (Num z ws c v) = [Word v]"
| "args_of _ = []"

fun text_of :: "item \<Rightarrow> uint8 list" where
  "text_of (Chr c) = [c]"
| "text_of Percent = [37]"
| "text_of (Str p xs) = xs"
| "text_of (Char v) = [ucast v]"
| "text_of (Num z ws c v) = num_field z (width_of ws) c v"

fun item_ok :: "cmem \<Rightarrow> addr \<Rightarrow> nat \<Rightarrow> item \<Rightarrow> bool" where
  "item_ok m b n (Chr c) \<longleftrightarrow> c \<noteq> 0 \<and> c \<noteq> 37"
| "item_ok m b n (Str p xs) \<longleftrightarrow> p \<noteq> 0 \<and> cstr m (unat p) xs \<and> (unat p + length xs < b \<or> b + n \<le> unat p)"
| "item_ok m b n (Num z ws c v) \<longleftrightarrow>
     num_radix c \<noteq> 0 \<and> (\<forall>c \<in> set ws. 48 \<le> c \<and> c \<le> 57) \<and> (z \<or> ws = [] \<or> hd ws \<noteq> 48) \<and> width_of ws < 2 ^ 31"
| "item_ok m b n _ \<longleftrightarrow> True"

lemma item_ok_frame:
  assumes "item_ok m b n it" and "k \<le> n" and "\<And>a. a < b \<or> b + n \<le> a \<Longrightarrow> m' a = m a"
  shows "item_ok m' (b + k) (n - k) it"
proof (cases it)
  case (Str p xs)
  have "cstr m' (unat p) xs = cstr m (unat p) xs" using assms Str by (intro cstr_frame) auto
  then show ?thesis using assms(1,2) Str by auto
qed (use assms in auto)

lemma conv_chars: "num_radix c \<noteq> 0 \<Longrightarrow> c \<in> {100, 117, 88, 120, 112}"
  by (auto simp: num_radix_def split: if_splits)

lemma get_spec_num:
  assumes "item_ok m0 b n (Num z ws c v)" and "cstr m str (fmt_of (Num z ws c v) @ rest)"
  shows "get_spec (m (str + 1)) (str + 2) m =
     Some (if z then 1 else 0, of_nat (width_of ws), c, str + length (fmt_of (Num z ws c v)))"
proof -
  note ok = assms(1) [unfolded item_ok.simps]
  have c: "c \<in> {100, 117, 88, 120, 112}" using conv_chars ok by blast
  then have cd: "\<not> (48 \<le> c \<and> c \<le> 57)" "c \<noteq> 48" "c \<noteq> 32" "c \<noteq> 108" by auto
  define p where "p = str + 1 + (if z then 1 else 0)"
  have cp: "cstr m p (ws @ c # rest)" and z: "z \<Longrightarrow> m (str + 1) = 48"
    using assms(2) by (auto simp: p_def split: if_splits)
  have h: "m p \<noteq> 32 \<and> (\<not> z \<longrightarrow> m p \<noteq> 48)" using cp ok cd by (cases ws) auto
  have "\<forall>i < length (ws @ [c]). m (p + i) = (ws @ [c]) ! i" using bytes_cstr [of m p "ws @ [c]" rest] cp by simp
  then have w: "width_loop 0 (m p) (p + 1) m = Some (of_nat (width_of ws), c, p + length ws + 1)"
    using width_loop_run [of ws c m p 0] ok cd(1) by (simp add: width_of_def num_of_def)
  show ?thesis using w h z cd(4) unfolding get_spec_def by (cases z) (simp_all add: p_def Let_def)
qed

lemma sprintf_step:
  assumes "cc \<noteq> -1" and ok: "item_ok m (buff + len) n it" and n: "length (text_of it) \<le> n" and c: "cstr m str (fmt_of it @ rest)"
  shows "\<exists>c1. c1 \<noteq> -1 \<and> sprintf_loop buff str (args_of it @ arp) len cc res m =
      sprintf_loop buff (str + length (fmt_of it)) arp (len + length (text_of it)) c1 (res + int (length (text_of it)))
        (put_bytes (buff + len) (text_of it) m)"
proof (cases it)
  case (Chr x)
  then have "m str = x" "x \<noteq> 0" "x \<noteq> 37" using c ok by simp_all
  then have "sprintf_loop buff str arp len cc res m = sprintf_loop buff (str + 1) arp (len + 1) 1 (res + 1) (m(buff + len := x))"
    using assms(1) by (subst sprintf_loop.simps) (simp add: df_sputc_def)
  then show ?thesis using Chr by (intro exI [of _ 1]) (simp add: put_bytes_Cons)
next
  case Percent
  then have "m str = 37" "m (str + 1) = 37" using c by simp_all
  then have "sprintf_loop buff str arp len cc res m = sprintf_loop buff (str + 2) arp (len + 1) 1 (res + 1) (m(buff + len := 37))"
    using assms(1) by (subst sprintf_loop.simps) (simp add: df_sputc_def)
  then show ?thesis using Percent by (intro exI [of _ 1]) (simp add: put_bytes_Cons)
next
  case (Str p xs)
  have spec: "get_spec 115 (str + 2) m = Some (0, 0, 115, str + 2)"
    by (simp add: get_spec_def width_loop.simps Let_def)
  have "df_sputs buff len (Some (\<lambda>m i. m (unat p + i))) m = Some (int (length xs), len + length xs, put_bytes (buff + len) xs m)"
    using ok n Str by (intro df_sputs_mem) auto
  moreover have "m str = 37" "m (str + 1) = 115" "p \<noteq> 0" using c ok Str by simp_all
  ultimately have "sprintf_loop buff str (Word p # arp) len cc res m =
      sprintf_loop buff (str + 2) arp (len + length xs) (int (length xs)) (res + int (length xs)) (put_bytes (buff + len) xs m)"
    using assms(1) spec by (subst sprintf_loop.simps) simp
  then show ?thesis using Str by (intro exI [of _ "int (length xs)"]) simp
next
  case (Char v)
  have spec: "get_spec 99 (str + 2) m = Some (0, 0, 99, str + 2)"
    by (simp add: get_spec_def width_loop.simps Let_def)
  moreover have "m str = 37" "m (str + 1) = 99" using c Char by simp_all
  ultimately have "sprintf_loop buff str (Word v # arp) len cc res m =
      sprintf_loop buff (str + 2) arp (len + 1) 1 (res + 1) (m(buff + len := ucast v))"
    using assms(1) by (subst sprintf_loop.simps) (simp add: df_sputc_def)
  then show ?thesis using Char by (intro exI [of _ 1]) (simp add: put_bytes_Cons)
next
  case (Num z ws x v)
  note ok' = ok [unfolded Num item_ok.simps]
  have spec: "get_spec (m (str + 1)) (str + 2) m = Some (if z then 1 else 0, of_nat (width_of ws), x, str + length (fmt_of it))"
    using get_spec_num ok c Num by blast
  have w: "unat (of_nat (width_of ws) :: uint32) = width_of ws" using ok' by simp
  obtain i s where p: "put_numeral (if z then 1 else 0) (of_nat (width_of ws)) x (num_radix x) v = (i, s)"
      "drop i s = text_of it @ [0]"
    using put_numeral_field [of x "of_nat (width_of ws)" z v] ok' w Num by (metis text_of.simps(5))
  have "0 \<notin> set (text_of it)" using ok' num_body_chars Num by (auto simp: num_field_def)
  then have put: "df_sputs buff len (Some (\<lambda>_ j. s ! (i + j))) m =
      Some (int (length (text_of it)), len + length (text_of it), put_bytes (buff + len) (text_of it) m)"
    using df_sputs_local p(2) by blast
  have x: "x \<in> {100, 117, 88, 120, 112}" using conv_chars ok' by blast
  then have nx: "x \<noteq> 115" "x \<noteq> 99" "(37 :: uint8) \<noteq> 0" by auto
  have f: "get_value (if z then 1 else 0) (Word v # arp) = Some (v, arp)" by (simp add: get_value_def)
  have "m (str + 1) = hd ((if z then [48] else []) @ ws @ [x])" using c Num by (cases z; cases ws) simp_all
  moreover have "hd ((if z then [48] else []) @ ws @ [x]) \<in> insert 48 (insert x (set ws))" by (cases z; cases ws) simp_all
  ultimately have "48 \<le> m (str + 1)" using ok' x by auto
  then have h: "m str = 37" "m (str + 1) \<noteq> 37" using c Num by auto
  have r: "(if x = 100 \<or> x = 117 then 10 else if x = 88 \<or> x = 120 \<or> x = 112 then 16 else 0) = num_radix x"
    by (simp add: num_radix_def)
  have "sprintf_loop buff str (Word v # arp) len cc res m =
      sprintf_loop buff (str + length (fmt_of it)) arp (len + length (text_of it)) (int (length (text_of it)))
        (res + int (length (text_of it))) (put_bytes (buff + len) (text_of it) m)"
    using assms(1) h nx ok'
    by (subst sprintf_loop.simps) (simp only: spec p(1) put f r Let_def Option.bind.simps prod.case simp_thms if_False if_True next_word.simps)
  then show ?thesis using Num by (intro exI [of _ "int (length (text_of it))"]) simp
qed

lemma sprintf_loop_run:
  assumes "cc \<noteq> -1"
  shows "cstr m str (concat (map fmt_of its)) \<Longrightarrow>
     str + length (concat (map fmt_of its)) < buff + len \<or> buff + len + length (concat (map text_of its)) \<le> str \<Longrightarrow>
     (\<forall>it \<in> set its. item_ok m (buff + len) (length (concat (map text_of its))) it) \<Longrightarrow>
     \<exists>cc'. cc' \<noteq> -1 \<and> sprintf_loop buff str (concat (map args_of its)) len cc res m =
       Some (cc', res + int (length (concat (map text_of its))), len + length (concat (map text_of its)),
             put_bytes (buff + len) (concat (map text_of its)) m)"
  using assms
proof (induction its arbitrary: str len cc res m)
  case Nil
  then show ?case by (subst sprintf_loop.simps) simp
next
  case (Cons it its)
  let ?T = "concat (map text_of its)" and ?t = "text_of it" and ?F = "concat (map fmt_of its)"
  define m1 where "m1 = put_bytes (buff + len) ?t m"
  define str1 where "str1 = str + length (fmt_of it)"
  have same: "m1 a = m a" if "a < buff + len \<or> buff + len + length ?t \<le> a" for a
    using that put_bytes_other by (simp add: m1_def)
  have c0: "cstr m str (fmt_of it @ ?F)" using Cons.prems(1) by simp
  have step: "\<exists>c1. c1 \<noteq> -1 \<and> sprintf_loop buff str (args_of it @ concat (map args_of its)) len cc res m =
      sprintf_loop buff str1 (concat (map args_of its)) (len + length ?t) c1 (res + int (length ?t)) m1"
    unfolding str1_def m1_def using Cons.prems(3,4) c0
    by (intro sprintf_step [where n = "length ?t + length ?T" and rest = ?F]) simp_all
  then obtain c1 where c1: "c1 \<noteq> -1" "sprintf_loop buff str (args_of it @ concat (map args_of its)) len cc res m =
      sprintf_loop buff str1 (concat (map args_of its)) (len + length ?t) c1 (res + int (length ?t)) m1" by blast
  have "\<exists>cc'. cc' \<noteq> -1 \<and> sprintf_loop buff str1 (concat (map args_of its)) (len + length ?t) c1 (res + int (length ?t)) m1 =
       Some (cc', res + int (length ?t) + int (length ?T), len + length ?t + length ?T, put_bytes (buff + (len + length ?t)) ?T m1)"
  proof (rule Cons.IH)
    have "cstr m str1 ?F" using c0 by (simp add: cstr_append str1_def)
    moreover have "cstr m1 str1 ?F = cstr m str1 ?F"
      using Cons.prems(2) by (intro cstr_frame same) (auto simp: str1_def)
    ultimately show "cstr m1 str1 ?F" by simp
    show "str1 + length ?F < buff + (len + length ?t) \<or> buff + (len + length ?t) + length ?T \<le> str1"
      using Cons.prems(2) by (auto simp: str1_def)
    show "\<forall>it \<in> set its. item_ok m1 (buff + (len + length ?t)) (length ?T) it"
    proof
      fix i assume "i \<in> set its"
      then have "item_ok m (buff + len) (length ?t + length ?T) i" using Cons.prems(3) by simp
      then have "item_ok m1 (buff + len + length ?t) (length ?t + length ?T - length ?t) i"
        by (rule item_ok_frame) (use same in auto)
      then show "item_ok m1 (buff + (len + length ?t)) (length ?T) i" by (simp add: add.assoc)
    qed
  qed (rule c1(1))
  moreover have "put_bytes (buff + (len + length ?t)) ?T m1 = put_bytes (buff + len) (?t @ ?T) m"
    by (auto simp: m1_def put_bytes_def fun_eq_iff nth_append add.assoc)
  ultimately show ?case using c1(2) by (simp add: add.assoc)
qed

section \<open>Reading back\<close>

lemma digit_char_value: "d < 16 \<Longrightarrow> digit_value (digit_char d) = d"
  by (simp add: digit_char_def digit_value_def unat_of_nat take_bit_nat_eq_self Let_def)

lemma num_str_value:
  "r = 10 \<or> r = 16 \<Longrightarrow> num_of r (map digit_value (num_str r n)) = n \<and> (\<forall>c \<in> set (num_str r n). digit_value c < r)"
proof (induction r n rule: num_str.induct)
  case (1 r n)
  have r: "2 \<le> r" "r \<le> 16" using "1.prems" by auto
  then have m: "n mod r < r" "n mod r < 16" using mod_less_divisor [of r n] by linarith+
  show ?case
  proof (cases "n < r")
    case True
    then have "num_str r n = [digit_char n]" "n < 16" using r by (subst num_str.simps, simp_all)
    then show ?thesis using True digit_char_value [of n] by (simp add: num_of_def)
  next
    case False
    then have "num_str r n = num_str r (n div r) @ [digit_char (n mod r)]" using r by (subst num_str.simps) simp
    then show ?thesis using 1 False m digit_char_value [of "n mod r"] by auto
  qed
qed

lemma num_str_hd: "0 < n \<Longrightarrow> r = 10 \<or> r = 16 \<Longrightarrow> hd (num_str r n) \<noteq> 48"
proof (induction r n rule: num_str.induct)
  case (1 r n)
  show ?case
  proof (cases "n < r")
    case True
    then have "num_str r n = [digit_char n]" "n < 16" using "1.prems" by (subst num_str.simps, simp, auto)
    then show ?thesis using "1.prems"(1) digit_char_value [of n] digit_value_zero [of "digit_char n"] by auto
  next
    case False
    then have "num_str r n = num_str r (n div r) @ [digit_char (n mod r)]" using "1.prems" by (subst num_str.simps) auto
    moreover have "num_str r (n div r) \<noteq> []" using num_str_length_pos by (metis length_greater_0_conv)
    moreover have "0 < n div r" using False "1.prems" by (simp add: div_greater_zero_iff, auto)
    ultimately show ?thesis using 1 False by auto
  qed
qed

lemma num_str_nonempty [simp]: "num_str r n \<noteq> []"
  using num_str_length_pos [of r n] by auto

text \<open>\<^verbatim>\<open>atoi\<close> reads a decimal number, with a minus sign, and a hexadecimal one behind 0x.\<close>

lemma atoi_decimal:
  assumes "cstr m a (num_body 100 v)"
  shows "atoi a m = Some (sint v)"
proof -
  define n where "n = (if sint v < 0 then nat (- sint v) else unat v)"
  define sg where "sg = (if sint v < 0 then [45] else [] :: uint8 list)"
  have T: "num_body 100 v = [] @ sg @ [] @ num_str 10 n @ []" by (simp add: num_body_def num_radix_def n_def sg_def)
  have n32: "n < 2 ^ 32"
    using unsigned_less [where 'a = nat, of v] sint_greater_eq [of v] by (auto simp: n_def)
  have val: "sint (if sg = [45] then - of_nat n else of_nat n :: uint32) = sint v"
  proof (cases "sint v < 0")
    case True
    then have "- (of_nat n :: uint32) = word_of_int (sint v)" by (simp add: n_def)
    then show ?thesis using True by (simp add: sg_def)
  qed (simp add: n_def sg_def)
  have "\<exists>b. base_prefix 0 [] (num_str 10 n) [] b \<and> num_of b (map digit_value (num_str 10 n)) = n \<and>
      (\<forall>c \<in> set (num_str 10 n). digit_value c < b)"
  proof (cases "n = 0")
    case True
    then have "num_str 10 n = [48]" by (subst num_str.simps) (simp add: digit_char_def)
    then show ?thesis using True by (intro exI [of _ 8]) (simp add: base_prefix_def num_of_def digit_value_def)
  next
    case False
    then show ?thesis using num_str_value [of 10 n] num_str_hd [of n 10] by (intro exI [of _ 10]) (simp add: base_prefix_def)
  qed
  then obtain b where b: "base_prefix 0 [] (num_str 10 n) [] b" "num_of b (map digit_value (num_str 10 n)) = n"
    "\<forall>c \<in> set (num_str 10 n). digit_value c < b" by blast
  have "sg \<in> {[], [43], [45]}" by (simp add: sg_def)
  from Stoul_value [OF assms [unfolded T] _ this b(1) _ b(3)] show ?thesis
    using n32 val b(2) by (cases "sg = [45]") (simp_all add: atoi_def)
qed

lemma atoi_hex:
  fixes v :: uint32
  assumes "cstr m a ([48, 120] @ num_str 16 (unat v))"
  shows "atoi a m = Some (sint v)"
proof -
  have T: "[48, 120] @ num_str 16 (unat v) = [] @ [] @ [48, 120] @ num_str 16 (unat v) @ []" by simp
  have "base_prefix 0 [48, 120] (num_str 16 (unat v)) [] 16" by (simp add: base_prefix_def)
  from Stoul_value [OF assms [unfolded T] _ _ this] show ?thesis
    using num_str_value [of 16 "unat v"] unsigned_less [where 'a = nat, of v] by (simp add: atoi_def ucast_id)
qed

lemma lit_eq_cstr: "0 \<notin> set l \<Longrightarrow> lit_eq l a m \<longleftrightarrow> cstr m a l"
  by (induction l arbitrary: a) auto

section \<open>Properties\<close>

lemma sprintf_text:
  assumes "cstr m str (concat (map fmt_of its))"
    and "str + length (concat (map fmt_of its)) < buff \<or> buff + length (concat (map text_of its)) \<le> str"
    and "\<forall>it \<in> set its. item_ok m buff (length (concat (map text_of its))) it"
  shows "sprintf buff str (concat (map args_of its)) m =
     Some (int (length (concat (map text_of its))), put_bytes buff (concat (map text_of its) @ [0]) m)"
proof -
  let ?T = "concat (map text_of its)"
  obtain cc where "cc \<noteq> -1" "sprintf_loop buff str (concat (map args_of its)) 0 0 0 m = Some (cc, int (length ?T), length ?T, put_bytes buff ?T m)"
    using sprintf_loop_run [where cc = 0 and len = 0 and res = 0, of m str its buff] assms by auto
  moreover have "(put_bytes buff ?T m)(buff + length ?T := 0) = put_bytes buff (?T @ [0]) m"
    by (auto simp: put_bytes_def fun_eq_iff nth_append)
  ultimately show ?thesis by (simp add: sprintf_def)
qed

text \<open>C25: for every format made of ordinary characters, \<^verbatim>\<open>%%\<close>, \<^verbatim>\<open>%s\<close>, \<^verbatim>\<open>%c\<close> and numbers with zero flag
  and width, \<^verbatim>\<open>sprintf\<close> ends, writes exactly the text of the items and a terminator to the
  buffer, and returns the length. A field is at most 15 wide, and the padding of a
  negative number with zeros stands in front of its sign.\<close>

theorem sprintf_renders:
  assumes "cstr m str (concat (map fmt_of its))"
    and "str + length (concat (map fmt_of its)) < buff \<or> buff + length (concat (map text_of its)) \<le> str"
    and "\<forall>it \<in> set its. item_ok m buff (length (concat (map text_of its))) it"
  shows "sprintf buff str (concat (map args_of its)) m =
     Some (int (length (concat (map text_of its))), put_bytes buff (concat (map text_of its) @ [0]) m)"
  using sprintf_text [OF assms] .

theorem sprintf_renders_witness:
  "sprintf 100 0 [Word (- 5)] (put_bytes 0 [37, 48, 52, 100, 0] (\<lambda>_. 0)) =
     Some (4, put_bytes 100 [48, 48, 45, 53, 0] (put_bytes 0 [37, 48, 52, 100, 0] (\<lambda>_. 0)))"
proof -
  let ?m = "put_bytes 0 [37, 48, 52, 100, 0] (\<lambda>_. 0)" and ?it = "Num True [52] 100 (- 5)"
  have "num_str 10 5 = [53]" by (subst num_str.simps) (simp add: digit_char_def)
  moreover have "width_of [52] = 4" by (simp add: width_of_def num_of_def)
  ultimately have t: "text_of ?it = [48, 48, 45, 53]" by (simp add: num_field_def num_body_def numeral_2_eq_2)
  have "cstr ?m 0 (concat (map fmt_of [?it]))" by (simp add: put_bytes_def)
  moreover have "item_ok ?m 100 (length (concat (map text_of [?it]))) ?it"
    by (simp add: num_radix_def width_of_def num_of_def)
  ultimately show ?thesis using sprintf_renders [of ?m 0 "[?it]" 100] t by simp
qed

text \<open>C26: what \<^verbatim>\<open>sprintf\<close> prints with one of the three formats that \<^verbatim>\<open>sscanf\<close> knows, \<^verbatim>\<open>sscanf\<close> reads back
  to the same 32 bit number.\<close>

theorem sprintf_sscanf_roundtrip:
  assumes "fmt \<in> {[37, 100], [48, 120, 37, 88], [48, 120, 37, 120]}" and "cstr m str fmt" and "str + 4 < buff \<or> buff + 12 \<le> str"
  shows "\<exists>n m'. sprintf buff str [Word v] m = Some (n, m') \<and> sscanf buff str out m' = Some (0, store_long out v m')"
proof -
  define its where "its = (if fmt = [37, 100] then [Num False [] 100 v] else [Chr 48, Chr 120, Num False [] (last fmt) v])"
  define T where "T = (if fmt = [37, 100] then num_body 100 v else [48, 120] @ num_str 16 (unat v))"
  have f: "concat (map fmt_of its) = fmt" "concat (map args_of its) = [Word v]" using assms(1) by (auto simp: its_def)
  have t: "concat (map text_of its) = T"
    using assms(1) by (auto simp: its_def T_def num_field_def width_of_def num_body_def num_radix_def)
  have ok: "\<forall>it \<in> set its. item_ok m buff (length T) it"
    using assms(1) by (auto simp: its_def num_radix_def width_of_def)
  have l: "length T \<le> 11"
    using num_body_length [of 100 v] num_body_length [of 88 v] num_str_length [of "unat v" 16 8] unsigned_less [where 'a = nat, of v]
    by (auto simp: T_def num_radix_def)
  have lf: "length fmt \<le> 4" using assms(1) by auto
  let ?m = "put_bytes buff (T @ [0]) m"
  have d: "str + length fmt < buff \<or> buff + length T \<le> str" using assms(3) l lf by linarith
  have "sprintf buff str [Word v] m = Some (int (length T), ?m)"
    using sprintf_text [of m str its buff] assms(2) d f t ok by simp
  moreover have "cstr ?m str fmt"
    using assms(2,3) l lf by (subst cstr_frame [of _ _ _ m]) (auto intro!: put_bytes_other)
  moreover have "0 \<notin> set T" using num_body_chars [of 100 v] num_str_chars [of _ 16] by (auto simp: T_def num_radix_def)
  then have "cstr ?m buff T" by (rule cstr_put)
  then have "atoi buff ?m = Some (sint v)" using atoi_decimal atoi_hex by (auto simp: T_def split: if_splits)
  ultimately show ?thesis using assms(1) by (auto simp: sscanf_def lit_eq_cstr)
qed

theorem sprintf_sscanf_roundtrip_witness:
  "\<exists>n m'. sprintf 100 0 [Word (- 7)] (put_bytes 0 [37, 100, 0] (\<lambda>_. 0)) = Some (n, m') \<and>
     sscanf 100 0 200 m' = Some (0, store_long 200 (- 7) m')"
  by (rule sprintf_sscanf_roundtrip [of "[37, 100]"]) (simp_all add: put_bytes_def)

end
