(* ===== verification/Fifo.thy ===== *)
theory Fifo
  imports MemH
begin

text \<open>
  The ring buffer of \<^verbatim>\<open>src/fifo.c\<close>. Its indices run modulo \<^verbatim>\<open>ele_size\<close>, the size of one
  element in bytes, and not modulo \<open>max_num + 1\<close>; the theorems state what this code
  implements: a queue of capacity \<open>ele_size - 1\<close>, whatever \<^verbatim>\<open>max_num\<close> is.
\<close>

section \<open>The code\<close>

record FIFO =
  f_out :: uint32
  f_in :: uint32
  f_max_num :: uint32
  f_ele_size :: uint32
  f_data :: addr

record fifo_state =
  fheap :: heap
  fifos :: "addr \<Rightarrow> FIFO"

abbreviation (input) sizeof_FIFO :: uint32 where "sizeof_FIFO \<equiv> 20"

definition upd_fifo :: "addr \<Rightarrow> (FIFO \<Rightarrow> FIFO) \<Rightarrow> fifo_state \<Rightarrow> fifo_state" where
  "upd_fifo p f s = s\<lparr>fifos := (fifos s)(p := f (fifos s p))\<rparr>"

definition upd_fbytes :: "(cmem \<Rightarrow> cmem) \<Rightarrow> fifo_state \<Rightarrow> fifo_state" where
  "upd_fbytes f s = s\<lparr>fheap := (fheap s)\<lparr>bytes := f (bytes (fheap s))\<rparr>\<rparr>"

text \<open>\<open>None\<close>: \<^verbatim>\<open>malloc\<close> does not return.\<close>

definition fifo_create :: "uint32 \<Rightarrow> uint32 \<Rightarrow> ptr \<Rightarrow> fifo_state \<Rightarrow> (ptr \<times> fifo_state) option" where
  "fifo_create mx sz current s =
     (if mx = 0 \<or> sz = 0 then Some (None, s)
      else case malloc (sizeof_FIFO + (mx + 1) * sz) current (fheap s) of
             None \<Rightarrow> None
           | Some (p, h) \<Rightarrow>
               Some (Some p, upd_fifo p (\<lambda>f. f\<lparr>f_max_num := mx, f_ele_size := sz, f_out := 0, f_in := 0,
                                              f_data := p + unat sizeof_FIFO\<rparr>) (s\<lparr>fheap := h\<rparr>)))"

definition fifo_is_empty :: "FIFO \<Rightarrow> bool" where
  "fifo_is_empty f \<longleftrightarrow> f_in f = f_out f"

definition fifo_is_full :: "FIFO \<Rightarrow> bool" where
  "fifo_is_full f \<longleftrightarrow> (f_in f + 1) mod f_ele_size f = f_out f"

definition fifo_put :: "addr \<Rightarrow> addr \<Rightarrow> fifo_state \<Rightarrow> OS_STATUS \<times> fifo_state" where
  "fifo_put p pElement s =
     (let f = fifos s p
      in if \<not> fifo_is_full f
         then (OS_STATUS_OK,
               upd_fifo p (\<lambda>f. f\<lparr>f_in := (f_in f + 1) mod f_ele_size f\<rparr>)
                 (upd_fbytes (\<lambda>m. snd (memcpy (f_data f + unat (f_in f * f_ele_size f)) pElement (f_ele_size f) m)) s))
         else (OS_STATUS_ERROR, s))"

definition fifo_head :: "addr \<Rightarrow> addr \<Rightarrow> fifo_state \<Rightarrow> OS_STATUS \<times> fifo_state" where
  "fifo_head p pElement s =
     (let f = fifos s p
      in if \<not> fifo_is_empty f
         then (OS_STATUS_OK,
               upd_fbytes (\<lambda>m. snd (memcpy pElement (f_data f + unat (f_out f * f_ele_size f)) (f_ele_size f) m)) s)
         else (OS_STATUS_ERROR, s))"

definition fifo_get :: "addr \<Rightarrow> addr \<Rightarrow> fifo_state \<Rightarrow> OS_STATUS \<times> fifo_state" where
  "fifo_get p pElement s =
     (let f = fifos s p
      in if \<not> fifo_is_empty f
         then (OS_STATUS_OK,
               upd_fifo p (\<lambda>f. f\<lparr>f_out := (f_out f + 1) mod f_ele_size f\<rparr>)
                 (upd_fbytes (\<lambda>m. snd (memcpy pElement (f_data f + unat (f_out f * f_ele_size f)) (f_ele_size f) m)) s))
         else (OS_STATUS_ERROR, s))"

definition fifo_delete :: "addr \<Rightarrow> fifo_state \<Rightarrow> fifo_state option" where
  "fifo_delete p s = map_option (\<lambda>h. s\<lparr>fheap := h\<rparr>) (free p (fheap s))"

section \<open>Queues of bounded capacity\<close>

text \<open>The contract: \<open>content\<close> is the queue, \<open>put\<close> and \<open>get\<close> answer \<open>None\<close> when they refuse.\<close>

locale bounded_queue =
  fixes ok :: "'s \<Rightarrow> bool" and elem :: "'e \<Rightarrow> bool" and content :: "'s \<Rightarrow> 'e list" and cap :: nat
    and put :: "'e \<Rightarrow> 's \<Rightarrow> 's option" and get :: "'s \<Rightarrow> ('e \<times> 's) option"
  assumes put_room: "ok s \<Longrightarrow> elem e \<Longrightarrow> length (content s) < cap \<Longrightarrow> \<exists>s'. put e s = Some s' \<and> ok s' \<and> content s' = content s @ [e]"
    and put_full: "ok s \<Longrightarrow> elem e \<Longrightarrow> cap \<le> length (content s) \<Longrightarrow> put e s = None"
    and get_some: "ok s \<Longrightarrow> content s = e # es \<Longrightarrow> \<exists>s'. get s = Some (e, s') \<and> ok s' \<and> content s' = es"
    and get_empty: "ok s \<Longrightarrow> content s = [] \<Longrightarrow> get s = None"
begin

primrec puts :: "'e list \<Rightarrow> 's \<Rightarrow> 's option" where
  "puts [] s = Some s"
| "puts (e # es) s = Option.bind (put e s) (puts es)"

primrec gets :: "nat \<Rightarrow> 's \<Rightarrow> ('e list \<times> 's) option" where
  "gets 0 s = Some ([], s)"
| "gets (Suc n) s = Option.bind (get s) (\<lambda>(e, s). map_option (\<lambda>(es, s). (e # es, s)) (gets n s))"

lemma puts_room: "ok s \<Longrightarrow> list_all elem es \<Longrightarrow> length (content s) + length es \<le> cap \<Longrightarrow> \<exists>s'. puts es s = Some s' \<and> ok s' \<and> content s' = content s @ es"
proof (induction es arbitrary: s)
  case (Cons e es)
  obtain s1 where s1: "put e s = Some s1" "ok s1" "content s1 = content s @ [e]" using put_room [of s e] Cons.prems by auto
  then show ?case using Cons.IH [of s1] Cons.prems by auto
qed simp

lemma puts_full: "ok s \<Longrightarrow> list_all elem es \<Longrightarrow> cap < length (content s) + length es \<Longrightarrow> length (content s) \<le> cap \<Longrightarrow> puts es s = None"
proof (induction es arbitrary: s)
  case (Cons e es)
  show ?case
  proof (cases "length (content s) < cap")
    case True
    then obtain s1 where s1: "put e s = Some s1" "ok s1" "content s1 = content s @ [e]" using put_room [of s e] Cons.prems by auto
    then show ?thesis using Cons.IH [of s1] Cons.prems True by auto
  qed (use put_full Cons.prems in auto)
qed simp

lemma gets_all: "ok s \<Longrightarrow> n \<le> length (content s) \<Longrightarrow> \<exists>s'. gets n s = Some (take n (content s), s') \<and> ok s' \<and> content s' = drop n (content s)"
proof (induction n arbitrary: s)
  case (Suc n)
  then obtain e es where es: "content s = e # es" by (cases "content s") auto
  obtain s1 where s1: "get s = Some (e, s1)" "ok s1" "content s1 = es" using get_some [OF Suc.prems(1) es] by auto
  then show ?case using Suc.IH [of s1] Suc.prems es by auto
qed simp

text \<open>First in, first out: what is put into an empty queue comes out in the same order.\<close>

lemma fifo_order:
  assumes "ok s" and "content s = []" and "list_all elem es" and "length es \<le> cap"
  shows "\<exists>s1 s2. puts es s = Some s1 \<and> gets (length es) s1 = Some (es, s2) \<and> content s2 = []"
proof -
  obtain s1 where s1: "puts es s = Some s1" "ok s1" "content s1 = es" using puts_room [of s es] assms by auto
  then show ?thesis using gets_all [of s1 "length es"] by auto
qed

end

section \<open>Indices modulo the ring size\<close>

definition ring_len :: "nat \<Rightarrow> nat \<Rightarrow> nat \<Rightarrow> nat" where
  "ring_len M i out = (i + M - out) mod M"

lemma ring_len_eq: "i < M \<Longrightarrow> out < M \<Longrightarrow> ring_len M i out = (if out \<le> i then i - out else i + M - out)"
  by (auto simp: ring_len_def mod_if)

lemma ring_full: "i < M \<Longrightarrow> out < M \<Longrightarrow> (i + 1) mod M = out \<longleftrightarrow> ring_len M i out + 1 = M"
  by (auto simp: ring_len_eq mod_if)

lemma ring_put: "i < M \<Longrightarrow> out < M \<Longrightarrow> (i + 1) mod M \<noteq> out \<Longrightarrow> ring_len M ((i + 1) mod M) out = ring_len M i out + 1"
  by (auto simp: ring_len_eq mod_if)

lemma ring_get: "i < M \<Longrightarrow> out < M \<Longrightarrow> i \<noteq> out \<Longrightarrow> ring_len M i ((out + 1) mod M) = ring_len M i out - 1"
  by (auto simp: ring_len_eq mod_if)

lemma ring_last: "i < M \<Longrightarrow> out < M \<Longrightarrow> (out + ring_len M i out) mod M = i"
  by (auto simp: ring_len_eq mod_if)

lemma ring_other: "i < M \<Longrightarrow> out < M \<Longrightarrow> k < ring_len M i out \<Longrightarrow> (out + k) mod M \<noteq> i"
proof -
  assume a: "i < M" "out < M" "k < ring_len M i out"
  then have k: "k < (if out \<le> i then i - out else i + M - out)" by (simp add: ring_len_eq)
  then have "out + k < 2 * M" using a(1,2) by (auto split: if_splits)
  then have "(out + k) mod M = (if out + k < M then out + k else out + k - M)" by (simp add: mod_if)
  then show ?thesis using a(1,2) k by (auto split: if_splits)
qed

section \<open>The buffer as a queue\<close>

definition block :: "cmem \<Rightarrow> addr \<Rightarrow> nat \<Rightarrow> uint8 list" where
  "block m a n = map m [a..<a + n]"

definition fifo_content :: "addr \<Rightarrow> fifo_state \<Rightarrow> uint8 list list" where
  "fifo_content p s =
     (let f = fifos s p; M = unat (f_ele_size f)
      in map (\<lambda>k. block (bytes (fheap s)) (f_data f + (unat (f_out f) + k) mod M * M) M)
             [0..<ring_len M (unat (f_in f)) (unat (f_out f))])"

text \<open>The indices are below the element size, and element numbers times sizes do not wrap.\<close>

definition fifo_ok :: "addr \<Rightarrow> uint32 \<Rightarrow> addr \<Rightarrow> fifo_state \<Rightarrow> bool" where
  "fifo_ok p sz d s \<longleftrightarrow> f_ele_size (fifos s p) = sz \<and> f_data (fifos s p) = d \<and>
     0 < sz \<and> unat sz < 2 ^ 16 \<and> f_in (fifos s p) < sz \<and> f_out (fifos s p) < sz"

lemma fifo_ok_D:
  assumes "fifo_ok p sz d s"
  defines "M \<equiv> unat sz" and "i \<equiv> unat (f_in (fifos s p))" and "j \<equiv> unat (f_out (fifos s p))"
  shows "0 < M" "M < 2 ^ 16" "i < M" "j < M" "unat (f_in (fifos s p) * sz) = i * M" "unat (f_out (fifos s p) * sz) = j * M"
    and "unat ((f_in (fifos s p) + 1) mod sz) = (i + 1) mod M" "unat ((f_out (fifos s p) + 1) mod sz) = (j + 1) mod M"
    and "nat (sint sz) = M"
proof -
  show M: "0 < M" "M < 2 ^ 16" "i < M" "j < M"
    using assms(1) by (simp_all add: fifo_ok_def M_def i_def j_def word_less_nat_alt unat_gt_0)
  have "x * M < 2 ^ 32" if "x < M" for x
  proof -
    have "x * M \<le> M * M" using that by simp
    also have "\<dots> < 2 ^ 16 * 2 ^ 16" using M(2) by (intro mult_strict_mono) auto
    finally show ?thesis by simp
  qed
  then show "unat (f_in (fifos s p) * sz) = i * M" "unat (f_out (fifos s p) * sz) = j * M"
    using M by (simp_all add: unat_word_ariths i_def j_def M_def)
  have s: "unat (x + 1) = unat x + 1" if "unat x < M" for x :: uint32
    using that M(2) by (simp add: unat_word_ariths)
  show "unat ((f_in (fifos s p) + 1) mod sz) = (i + 1) mod M" "unat ((f_out (fifos s p) + 1) mod sz) = (j + 1) mod M"
    using M s by (simp_all add: unat_mod i_def j_def M_def)
  show "nat (sint sz) = M" using M(2) sint_of_nat32 [of M] by (simp add: M_def)
qed

lemma memcpy_mem: "snd (memcpy d s n m) = (\<lambda>a. if d \<le> a \<and> a < d + nat (sint n) then m (s + (a - d)) else m a)"
  by (simp add: memcpy_def bcopy_blit blit_def)

lemma slots_apart: "x \<noteq> y \<Longrightarrow> x * M + M \<le> y * M \<or> y * M + M \<le> x * M" for x y M :: nat
  by (metis add.commute mult_Suc mult_le_mono1 nat_neq_iff Suc_leI)

lemma fifo_put_room:
  fixes e :: addr
  assumes ok: "fifo_ok p sz d s" and room: "length (fifo_content p s) < unat sz - 1"
  defines "s' \<equiv> snd (fifo_put p e s)"
  shows "fst (fifo_put p e s) = OS_STATUS_OK" "fifo_ok p sz d s'"
    and "fifo_content p s' = fifo_content p s @ [block (bytes (fheap s)) e (unat sz)]"
proof -
  define M where "M = unat sz"
  define i where "i = unat (f_in (fifos s p))"
  define j where "j = unat (f_out (fifos s p))"
  note D = fifo_ok_D [OF ok, folded M_def i_def j_def]
  have f: "f_ele_size (fifos s p) = sz" "f_data (fifos s p) = d" using ok by (simp_all add: fifo_ok_def)
  have len: "ring_len M i j < M - 1" using room by (simp add: fifo_content_def Let_def f M_def i_def j_def)
  have nf: "(i + 1) mod M \<noteq> j" using ring_full [OF D(3,4)] len by simp
  then have "\<not> fifo_is_full (fifos s p)" using D(7) f by (auto simp: fifo_is_full_def j_def)
  then have put: "fifo_put p e s = (OS_STATUS_OK, s')" and
    s': "s' = upd_fifo p (\<lambda>f. f\<lparr>f_in := (f_in f + 1) mod f_ele_size f\<rparr>)
            (upd_fbytes (\<lambda>m. snd (memcpy (d + i * M) e sz m)) s)"
    using f D(5) by (simp_all add: fifo_put_def s'_def Let_def)
  show "fst (fifo_put p e s) = OS_STATUS_OK" by (simp add: put)
  have g: "f_ele_size (fifos s' p) = sz" "f_data (fifos s' p) = d" "f_out (fifos s' p) = f_out (fifos s p)"
    "unat (f_in (fifos s' p)) = (i + 1) mod M"
    using f D(7) by (simp_all add: s' upd_fifo_def upd_fbytes_def)
  show "fifo_ok p sz d s'" using ok g D(1) by (simp add: fifo_ok_def word_less_nat_alt M_def)
  define m where "m = bytes (fheap s)"
  define m' where "m' = bytes (fheap s')"
  have m': "m' = (\<lambda>a. if d + i * M \<le> a \<and> a < d + i * M + M then m (e + (a - (d + i * M))) else m a)"
    unfolding m'_def m_def s' by (simp add: upd_fifo_def upd_fbytes_def memcpy_mem D(9))
  have old: "block m' (d + x * M) M = block m (d + x * M) M" if "x \<noteq> i" for x
    using slots_apart [OF that, of M] by (auto simp: block_def m')
  have new: "block m' (d + i * M) M = block m e M"
    by (rule nth_equalityI) (auto simp: block_def m')
  have "fifo_content p s' = map (\<lambda>k. block m' (d + (j + k) mod M * M) M) [0..<ring_len M i j + 1]"
    using g ring_put [OF D(3,4) nf] by (simp add: fifo_content_def Let_def m'_def j_def M_def)
  also have "\<dots> = map (\<lambda>k. block m' (d + (j + k) mod M * M) M) [0..<ring_len M i j] @ [block m' (d + i * M) M]"
    using ring_last [OF D(3,4)] by simp
  also have "\<dots> = fifo_content p s @ [block m e M]"
    using old ring_other [OF D(3,4)] new f by (simp add: fifo_content_def Let_def m_def M_def i_def j_def)
  finally show "fifo_content p s' = fifo_content p s @ [block (bytes (fheap s)) e (unat sz)]" by (simp add: m_def M_def)
qed

lemma fifo_put_full:
  assumes ok: "fifo_ok p sz d s" and full: "unat sz - 1 \<le> length (fifo_content p s)"
  shows "fifo_put p e s = (OS_STATUS_ERROR, s)"
proof -
  note D = fifo_ok_D [OF ok]
  have f: "f_ele_size (fifos s p) = sz" using ok by (simp add: fifo_ok_def)
  have "ring_len (unat sz) (unat (f_in (fifos s p))) (unat (f_out (fifos s p))) + 1 = unat sz"
  proof -
    have "ring_len (unat sz) (unat (f_in (fifos s p))) (unat (f_out (fifos s p))) < unat sz"
      using D(1) by (simp add: ring_len_def)
    then show ?thesis using full by (simp add: fifo_content_def Let_def f)
  qed
  then have "(f_in (fifos s p) + 1) mod sz = f_out (fifos s p)"
    using ring_full [OF D(3,4)] D(7) by (metis unsigned_word_eqI)
  then show ?thesis by (simp add: fifo_put_def fifo_is_full_def f)
qed

lemma fifo_get_some:
  fixes e :: addr
  assumes ok: "fifo_ok p sz d s" and c: "fifo_content p s = x # xs" and e: "e + unat sz \<le> d \<or> d + unat sz * unat sz \<le> e"
  defines "s' \<equiv> snd (fifo_get p e s)"
  shows "fst (fifo_get p e s) = OS_STATUS_OK" "fifo_ok p sz d s'" "fifo_content p s' = xs"
    and "block (bytes (fheap s')) e (unat sz) = x"
    and "fst (fifo_head p e s) = OS_STATUS_OK" "fheap (snd (fifo_head p e s)) = fheap s'" "fifos (snd (fifo_head p e s)) = fifos s"
proof -
  define M where "M = unat sz"
  define i where "i = unat (f_in (fifos s p))"
  define j where "j = unat (f_out (fifos s p))"
  note D = fifo_ok_D [OF ok, folded M_def i_def j_def]
  have f: "f_ele_size (fifos s p) = sz" "f_data (fifos s p) = d" using ok by (simp_all add: fifo_ok_def)
  define m where "m = bytes (fheap s)"
  have cm: "x # xs = map (\<lambda>k. block m (d + (j + k) mod M * M) M) [0..<ring_len M i j]"
    using c by (simp add: fifo_content_def Let_def f M_def i_def j_def m_def)
  then have pos: "0 < ring_len M i j" by (cases "ring_len M i j") auto
  then have ne: "i \<noteq> j" using D(3,4) by (auto simp: ring_len_eq)
  then have "\<not> fifo_is_empty (fifos s p)" by (auto simp: fifo_is_empty_def i_def j_def)
  then have get: "fifo_get p e s = (OS_STATUS_OK, s')" and
    s': "s' = upd_fifo p (\<lambda>f. f\<lparr>f_out := (f_out f + 1) mod f_ele_size f\<rparr>)
            (upd_fbytes (\<lambda>m. snd (memcpy e (d + j * M) sz m)) s)" and
    hd: "fifo_head p e s = (OS_STATUS_OK, upd_fbytes (\<lambda>m. snd (memcpy e (d + j * M) sz m)) s)"
    using f D(6) by (simp_all add: fifo_get_def fifo_head_def s'_def Let_def)
  show "fst (fifo_get p e s) = OS_STATUS_OK" "fst (fifo_head p e s) = OS_STATUS_OK" "fifos (snd (fifo_head p e s)) = fifos s"
    by (simp_all add: get hd upd_fbytes_def)
  show "fheap (snd (fifo_head p e s)) = fheap s'" by (simp add: hd s' upd_fbytes_def upd_fifo_def)
  have g: "f_ele_size (fifos s' p) = sz" "f_data (fifos s' p) = d" "f_in (fifos s' p) = f_in (fifos s p)"
    "unat (f_out (fifos s' p)) = (j + 1) mod M"
    using f D(8) by (simp_all add: s' upd_fifo_def upd_fbytes_def)
  show "fifo_ok p sz d s'" using ok g D(1) by (simp add: fifo_ok_def word_less_nat_alt M_def)
  define m' where "m' = bytes (fheap s')"
  have m': "m' = (\<lambda>a. if e \<le> a \<and> a < e + M then m (d + j * M + (a - e)) else m a)"
    unfolding m'_def m_def s' by (simp add: upd_fifo_def upd_fbytes_def memcpy_mem D(9))
  have old: "block m' (d + y * M) M = block m (d + y * M) M" if "y < M" for y
  proof -
    have "y * M + M \<le> M * M" using that by (metis add.commute mult_Suc mult_le_mono1 Suc_leI)
    then show ?thesis using e by (auto simp: block_def m' M_def)
  qed
  have "x = block m (d + j * M) M" using arg_cong [OF cm, of hd] pos D(4) by (simp add: upt_conv_Cons)
  moreover have "block m' e M = block m (d + j * M) M" by (rule nth_equalityI) (auto simp: block_def m')
  ultimately show "block (bytes (fheap s')) e (unat sz) = x" by (simp add: m'_def M_def)
  have "fifo_content p s' = map (\<lambda>k. block m' (d + ((j + 1) mod M + k) mod M * M) M) [0..<ring_len M i j - 1]"
    using g ring_get [OF D(3,4) ne] by (simp add: fifo_content_def Let_def m'_def i_def M_def)
  also have "\<dots> = map (\<lambda>k. block m' (d + (j + Suc k) mod M * M) M) [0..<ring_len M i j - 1]"
    by (simp add: mod_simps)
  also have "\<dots> = map (\<lambda>k. block m' (d + (j + k) mod M * M) M) [1..<ring_len M i j]"
    by (rule nth_equalityI) simp_all
  also have "\<dots> = map (\<lambda>k. block m (d + (j + k) mod M * M) M) [1..<ring_len M i j]" using old D(1) by simp
  also have "\<dots> = xs" using arg_cong [OF cm, of tl] pos by (simp add: upt_conv_Cons)
  finally show "fifo_content p s' = xs" .
qed

lemma fifo_get_none:
  assumes "fifo_ok p sz d s" and "fifo_content p s = []"
  shows "fifo_get p e s = (OS_STATUS_ERROR, s)" "fifo_head p e s = (OS_STATUS_ERROR, s)"
proof -
  note D = fifo_ok_D [OF assms(1)]
  have "ring_len (unat sz) (unat (f_in (fifos s p))) (unat (f_out (fifos s p))) = 0"
    using assms by (simp add: fifo_content_def fifo_ok_def Let_def)
  then have "f_in (fifos s p) = f_out (fifos s p)" using D(3,4) by (auto simp: ring_len_eq word_unat_eq_iff split: if_splits)
  then show "fifo_get p e s = (OS_STATUS_ERROR, s)" "fifo_head p e s = (OS_STATUS_ERROR, s)"
    by (simp_all add: fifo_get_def fifo_head_def fifo_is_empty_def)
qed

text \<open>
  A client with a buffer of its own at \<open>e\<close>: it writes an element there and puts it, and
  reads there what it gets.
\<close>

definition client_ok :: "addr \<Rightarrow> uint32 \<Rightarrow> addr \<Rightarrow> addr \<Rightarrow> fifo_state \<Rightarrow> bool" where
  "client_ok p sz d e s \<longleftrightarrow> fifo_ok p sz d s \<and> (e + unat sz \<le> d \<or> d + unat sz * unat sz \<le> e)"

definition client_put :: "addr \<Rightarrow> addr \<Rightarrow> uint8 list \<Rightarrow> fifo_state \<Rightarrow> fifo_state option" where
  "client_put p e xs s =
     (case fifo_put p e (upd_fbytes (\<lambda>m a. if e \<le> a \<and> a < e + length xs then xs ! (a - e) else m a) s) of
        (OS_STATUS_OK, s') \<Rightarrow> Some s' | (OS_STATUS_ERROR, s') \<Rightarrow> None)"

definition client_get :: "addr \<Rightarrow> uint32 \<Rightarrow> addr \<Rightarrow> fifo_state \<Rightarrow> (uint8 list \<times> fifo_state) option" where
  "client_get p sz e s =
     (case fifo_get p e s of
        (OS_STATUS_OK, s') \<Rightarrow> Some (block (bytes (fheap s')) e (unat sz), s') | (OS_STATUS_ERROR, s') \<Rightarrow> None)"

lemma client_write:
  assumes "client_ok p sz d e s" and "length xs = unat sz"
  defines "s1 \<equiv> upd_fbytes (\<lambda>m a. if e \<le> a \<and> a < e + length xs then xs ! (a - e) else m a) s"
  shows "client_ok p sz d e s1" "fifo_content p s1 = fifo_content p s" "block (bytes (fheap s1)) e (unat sz) = xs"
proof -
  let ?M = "unat sz"
  show "client_ok p sz d e s1" using assms(1) by (simp add: client_ok_def fifo_ok_def s1_def upd_fbytes_def)
  show "block (bytes (fheap s1)) e (unat sz) = xs"
    using assms(2) by (intro nth_equalityI) (auto simp: block_def s1_def upd_fbytes_def)
  have "block (bytes (fheap s1)) (d + y * ?M) ?M = block (bytes (fheap s)) (d + y * ?M) ?M" if "y < ?M" for y
  proof -
    have "y * ?M + ?M \<le> ?M * ?M" using that by (metis add.commute mult_Suc mult_le_mono1 Suc_leI)
    then show ?thesis using assms by (auto simp: block_def s1_def upd_fbytes_def client_ok_def)
  qed
  moreover have "0 < ?M" "f_ele_size (fifos s p) = sz" "f_data (fifos s p) = d"
    using assms(1) by (auto simp: client_ok_def fifo_ok_def word_less_nat_alt)
  ultimately show "fifo_content p s1 = fifo_content p s"
    by (simp add: fifo_content_def Let_def s1_def upd_fbytes_def)
qed

interpretation ring: bounded_queue "client_ok p sz d e" "\<lambda>xs. length xs = unat sz" "fifo_content p" "unat sz - 1" "client_put p e"
  "client_get p sz e" for p sz d e
proof unfold_locales
  fix s and xs :: "uint8 list"
  assume ok: "client_ok p sz d e s" and l: "length xs = unat sz"
  let ?s = "upd_fbytes (\<lambda>m a. if e \<le> a \<and> a < e + length xs then xs ! (a - e) else m a) s"
  note w = client_write [OF ok l]
  {
    assume "length (fifo_content p s) < unat sz - 1"
    with w fifo_put_room [of p sz d ?s e] show "\<exists>s'. client_put p e xs s = Some s' \<and> client_ok p sz d e s' \<and> fifo_content p s' = fifo_content p s @ [xs]"
      by (cases "fifo_put p e ?s") (auto simp: client_put_def client_ok_def)
  }
  {
    assume "unat sz - 1 \<le> length (fifo_content p s)"
    with w fifo_put_full [of p sz d ?s e] show "client_put p e xs s = None"
      by (auto simp: client_put_def client_ok_def)
  }
next
  fix s and x :: "uint8 list" and xs
  assume "client_ok p sz d e s" "fifo_content p s = x # xs"
  with fifo_get_some [of p sz d s x xs e] show "\<exists>s'. client_get p sz e s = Some (x, s') \<and> client_ok p sz d e s' \<and> fifo_content p s' = xs"
    by (cases "fifo_get p e s") (auto simp: client_get_def client_ok_def)
next
  fix s
  assume "client_ok p sz d e s" "fifo_content p s = []"
  with fifo_get_none [of p sz d s e] show "client_get p sz e s = None"
    by (auto simp: client_get_def client_ok_def)
qed

lemma fifo_create_ok:
  assumes "fifo_create mx sz t s = Some (Some p, s1)" and "unat sz < 2 ^ 16"
  shows "fifo_ok p sz (p + 20) s1" "fifo_content p s1 = []"
proof -
  have "sz \<noteq> 0" using assms(1) by (auto simp: fifo_create_def split: if_splits)
  then have "0 < sz" by (simp add: word_gt_0)
  moreover obtain f where "fifos s1 p = f\<lparr>f_max_num := mx, f_ele_size := sz, f_out := 0, f_in := 0, f_data := p + 20\<rparr>"
    using assms(1) by (auto simp: fifo_create_def upd_fifo_def split: if_splits option.splits prod.splits)
  ultimately show "fifo_ok p sz (p + 20) s1" "fifo_content p s1 = []"
    using assms(2) by (simp_all add: fifo_ok_def fifo_content_def Let_def ring_len_def)
qed

section \<open>Properties\<close>

text \<open>C23: \<^verbatim>\<open>fifo_put\<close>, \<^verbatim>\<open>fifo_get\<close> and \<^verbatim>\<open>fifo_head\<close> implement a queue: a put appends a copy of the element
  while fewer than \<open>ele_size - 1\<close> elements are queued and is refused without effect
  otherwise; a get copies out the oldest element and removes it, a head only copies
  it, and both are refused without effect on an empty buffer.\<close>

theorem fifo_refines_queue:
  assumes "fifo_ok p sz d s" and "e + unat sz \<le> d \<or> d + unat sz * unat sz \<le> e"
  shows "(if length (fifo_content p s) < unat sz - 1
      then \<exists>s'. fifo_put p e s = (OS_STATUS_OK, s') \<and> fifo_ok p sz d s' \<and>
             fifo_content p s' = fifo_content p s @ [block (bytes (fheap s)) e (unat sz)]
      else fifo_put p e s = (OS_STATUS_ERROR, s)) \<and>
     (case fifo_content p s of
        [] \<Rightarrow> fifo_get p e s = (OS_STATUS_ERROR, s) \<and> fifo_head p e s = (OS_STATUS_ERROR, s)
      | x # xs \<Rightarrow> \<exists>s' s''. fifo_get p e s = (OS_STATUS_OK, s') \<and> fifo_head p e s = (OS_STATUS_OK, s'') \<and>
             fifo_ok p sz d s' \<and> fifo_content p s' = xs \<and> fifos s'' = fifos s \<and>
             block (bytes (fheap s')) e (unat sz) = x \<and> block (bytes (fheap s'')) e (unat sz) = x)"
proof (intro conjI)
  show "if length (fifo_content p s) < unat sz - 1
      then \<exists>s'. fifo_put p e s = (OS_STATUS_OK, s') \<and> fifo_ok p sz d s' \<and>
             fifo_content p s' = fifo_content p s @ [block (bytes (fheap s)) e (unat sz)]
      else fifo_put p e s = (OS_STATUS_ERROR, s)"
    using fifo_put_room [OF assms(1), of e] fifo_put_full [OF assms(1), of e] by (cases "fifo_put p e s") auto
  show "case fifo_content p s of
        [] \<Rightarrow> fifo_get p e s = (OS_STATUS_ERROR, s) \<and> fifo_head p e s = (OS_STATUS_ERROR, s)
      | x # xs \<Rightarrow> \<exists>s' s''. fifo_get p e s = (OS_STATUS_OK, s') \<and> fifo_head p e s = (OS_STATUS_OK, s'') \<and>
             fifo_ok p sz d s' \<and> fifo_content p s' = xs \<and> fifos s'' = fifos s \<and>
             block (bytes (fheap s')) e (unat sz) = x \<and> block (bytes (fheap s'')) e (unat sz) = x"
  proof (cases "fifo_content p s")
    case Nil
    then show ?thesis using fifo_get_none [OF assms(1)] by simp
  next
    case (Cons x xs)
    note g = fifo_get_some [OF assms(1) Cons assms(2)]
    then show ?thesis using Cons by (cases "fifo_get p e s"; cases "fifo_head p e s") auto
  qed
qed

definition fifo_demo :: fifo_state where
  "fifo_demo = \<lparr>fheap = fresh_heap, fifos = (\<lambda>_. \<lparr>f_out = 0, f_in = 0, f_max_num = 3, f_ele_size = 4, f_data = 20\<rparr>)\<rparr>"

theorem fifo_refines_queue_witness:
  "\<exists>s'. fifo_put 0 100 fifo_demo = (OS_STATUS_OK, s') \<and> fifo_content 0 s' = [block (bytes fresh_heap) 100 4]"
proof -
  have "fifo_ok 0 4 20 fifo_demo" "fifo_content 0 fifo_demo = []"
    by (simp_all add: fifo_ok_def fifo_demo_def fifo_content_def ring_len_def)
  then show ?thesis using fifo_refines_queue [of 0 4 20 fifo_demo 100] by (auto simp: fifo_demo_def)
qed

text \<open>C24: a buffer made by \<open>fifo_create max_num ele_size\<close> accepts exactly \<open>ele_size - 1\<close> elements,
  and they come out in the order they were put; \<^verbatim>\<open>max_num\<close> has no influence on this.\<close>

theorem fifo_capacity:
  assumes "fifo_create mx sz t s = Some (Some p, s1)" and "unat sz < 2 ^ 16"
    and "e + unat sz \<le> p + 20 \<or> p + 20 + unat sz * unat sz \<le> e" and "\<forall>x \<in> set es. length x = unat sz"
  shows "if length es \<le> unat sz - 1
     then \<exists>s2 s3. ring.puts p e es s1 = Some s2 \<and> ring.gets p sz e (length es) s2 = Some (es, s3) \<and> fifo_content p s3 = []
     else ring.puts p e es s1 = None"
proof -
  note c = fifo_create_ok [OF assms(1,2)]
  have ok: "client_ok p sz (p + 20) e s1" using c(1) assms(3) by (simp add: client_ok_def)
  have es: "list_all (\<lambda>x. length x = unat sz) es" using assms(4) by (simp add: list_all_iff)
  show ?thesis
    using ring.fifo_order [OF ok c(2) es] ring.puts_full [OF ok es] c(2) by auto
qed

theorem fifo_capacity_witness:
  "\<exists>p s1. fifo_create 100 2 (Some 7) fifo_demo = Some (Some p, s1) \<and> ring.puts p 0 [[1, 2], [3, 4]] s1 = None"
proof -
  obtain h' where "malloc 222 (Some 7) fresh_heap = Some (0x51000014, h')"
    using malloc_refines_fit [of fresh_heap "[]" "Blk 0x4ffffec False None" "[]" 222 "Some 7"] fresh_heap_holds
    by (auto simp: whole_def fits_def align_up_nat)
  then obtain s1 where "fifo_create 100 2 (Some 7) fifo_demo = Some (Some 0x51000014, s1)"
    by (simp add: fifo_create_def fifo_demo_def)
  from this fifo_capacity [OF this, of 0 "[[1, 2], [3, 4]]"] show ?thesis by auto
qed

end
