(* ===== verification/Atomic.thy ===== *)
theory Atomic
  imports Prelude "HOL-Library.Multiset"
begin

text \<open>
  The atomic operations of \<^verbatim>\<open>src/atomic.c\<close> on a store of \<^verbatim>\<open>int\<close> variables. Each operation runs with
  interrupts disabled, so it is one step; tasks that run concurrently are an
  interleaving of their sequences of operations.
\<close>

type_synonym int_store = "addr \<Rightarrow> uint32"

section \<open>The code\<close>

definition atomic_add :: "addr \<Rightarrow> uint32 \<Rightarrow> int_store \<Rightarrow> uint32 \<times> int_store" where
  "atomic_add target v st = (let old_value = st target in (old_value, st(target := old_value + v)))"

definition atomic_sub :: "addr \<Rightarrow> uint32 \<Rightarrow> int_store \<Rightarrow> uint32 \<times> int_store" where
  "atomic_sub target v st = (let old_value = st target in (old_value, st(target := old_value - v)))"

definition atomic_inc :: "addr \<Rightarrow> int_store \<Rightarrow> uint32 \<times> int_store" where
  "atomic_inc target = atomic_add target 1"

definition atomic_dec :: "addr \<Rightarrow> int_store \<Rightarrow> uint32 \<times> int_store" where
  "atomic_dec target = atomic_sub target 1"

definition atomic_set :: "addr \<Rightarrow> uint32 \<Rightarrow> int_store \<Rightarrow> uint32 \<times> int_store" where
  "atomic_set target v st = (let oldValue = st target in (oldValue, st(target := v)))"

definition atomic_get :: "addr \<Rightarrow> int_store \<Rightarrow> uint32" where
  "atomic_get target st = st target"

definition atomic_clear :: "addr \<Rightarrow> int_store \<Rightarrow> uint32 \<times> int_store" where
  "atomic_clear target = atomic_set target 0"

definition atomic_cas :: "addr \<Rightarrow> uint32 \<Rightarrow> uint32 \<Rightarrow> int_store \<Rightarrow> bool \<times> int_store" where
  "atomic_cas target old_value new_value st =
     (if st target = old_value then (True, st(target := new_value)) else (False, st))"

section \<open>Tasks that count\<close>

datatype atomic_op = Add addr uint32 | Sub addr uint32 | Inc addr | Dec addr

fun atomic_do :: "atomic_op \<Rightarrow> int_store \<Rightarrow> int_store" where
  "atomic_do (Add a v) st = snd (atomic_add a v st)"
| "atomic_do (Sub a v) st = snd (atomic_sub a v st)"
| "atomic_do (Inc a) st = snd (atomic_inc a st)"
| "atomic_do (Dec a) st = snd (atomic_dec a st)"

fun amount :: "addr \<Rightarrow> atomic_op \<Rightarrow> uint32" where
  "amount a (Add b v) = (if a = b then v else 0)"
| "amount a (Sub b v) = (if a = b then - v else 0)"
| "amount a (Inc b) = (if a = b then 1 else 0)"
| "amount a (Dec b) = (if a = b then - 1 else 0)"

lemma atomic_do_amount: "atomic_do x st a = st a + amount a x"
  by (cases x) (auto simp: atomic_add_def atomic_sub_def atomic_inc_def atomic_dec_def Let_def)

lemma atomic_run_sum: "fold atomic_do xs st a = st a + sum_list (map (amount a) xs)"
  by (induction xs arbitrary: st) (simp_all add: atomic_do_amount add.assoc)

text \<open>Interleavings of several sequences.\<close>

inductive interleaved :: "'a list list \<Rightarrow> 'a list \<Rightarrow> bool" where
  all_done: "\<forall>xs \<in> set xss. xs = [] \<Longrightarrow> interleaved xss []"
| pick: "i < length xss \<Longrightarrow> xss ! i = x # xs \<Longrightarrow> interleaved (xss[i := xs]) ys \<Longrightarrow> interleaved xss (x # ys)"

lemma interleaved_mset: "interleaved xss ys \<Longrightarrow> mset ys = mset (concat xss)"
proof (induction rule: interleaved.induct)
  case (all_done xss)
  then have "concat xss = []" by simp
  then show ?case by simp
next
  case (pick i xss x xs ys)
  have "xss = take i xss @ (x # xs) # drop (Suc i) xss" using pick(1,2) id_take_nth_drop by metis
  then have "mset (concat xss) = add_mset x (mset (concat (xss[i := xs])))"
    using pick(1) by (subst upd_conv_take_nth_drop) (simp, metis (no_types, lifting) concat.simps(2) concat_append mset.simps(2) mset_append union_mset_add_mset_left union_mset_add_mset_right append_Cons)
  then show ?case using pick.IH by simp
qed

section \<open>Properties\<close>

text \<open>no update is lost: when tasks add to, subtract from, increment and decrement shared
  variables, every variable ends with its start value plus the sum of all amounts,
  modulo \<open>2^32\<close>, in whatever order the operations of the tasks interleave.\<close>

theorem atomic_no_lost_update:
  assumes "interleaved xss ys"
  shows "fold atomic_do ys st a = st a + sum_list (map (amount a) (concat xss))"
proof -
  have "sum_list (map (amount a) ys) = sum_list (map (amount a) (concat xss))"
    using interleaved_mset [OF assms] by (metis mset_map sum_mset_sum_list)
  then show ?thesis by (simp add: atomic_run_sum)
qed

theorem atomic_no_lost_update_witness:
  "fold atomic_do [Inc 8, Sub 8 5, Inc 8] (\<lambda>_. 10) 8 = 7"
proof -
  have "interleaved [[Inc 8, Inc 8], [Sub 8 5]] [Inc 8, Sub 8 5, Inc 8]"
    by (intro pick [of 0] pick [of 1] all_done) (simp_all add: pick [of 0] pick [of 1] all_done nth_Cons')
  from atomic_no_lost_update [OF this, of "\<lambda>_. 10" 8] show ?thesis by simp
qed

end
