(* ===== verification/Kernel_Lock.thy ===== *)
theory Kernel_Lock
  imports SemM
begin

text \<open>
  Critical sections. The libraries above the kernel guard their data by a mutex: they take it
  with \<^verbatim>\<open>WAIT_FOREVER\<close>, work, and give it back (the macros \<^verbatim>\<open>IOS_LOCK\<close> and \<^verbatim>\<open>IOS_UNLOCK\<close> of
  \<^verbatim>\<open>iosLib.c\<close>, \<^verbatim>\<open>OS_BASETIME_LOCK\<close> and \<^verbatim>\<open>OS_BASETIME_UNLOCK\<close> of \<^verbatim>\<open>timeLib.c\<close>). The interface that
  they rely on is the locale \<open>critical_section\<close>; the mutex of theory SemM provides it.
\<close>

section \<open>The interface\<close>

text \<open>
  \<open>free\<close>: nobody holds the lock or waits for it. A section entered in such a state can be
  left whatever it did within \<open>frame\<close>, and the lock is then free again.
\<close>

locale critical_section =
  fixes lock unlock :: "'k \<Rightarrow> 'k option" and free :: "'k \<Rightarrow> bool" and frame :: "'k \<Rightarrow> 'k \<Rightarrow> bool" and data :: "'k \<Rightarrow> 'd"
  assumes enter: "free k \<Longrightarrow> \<exists>k1. lock k = Some k1 \<and> data k1 = data k \<and>
      (\<forall>k2. frame k1 k2 \<longrightarrow> (\<exists>k3. unlock k2 = Some k3 \<and> free k3 \<and> data k3 = data k2))"
    and frame_refl: "frame k k"
begin

definition guarded :: "('k \<Rightarrow> ('a \<times> 'k) option) \<Rightarrow> 'k \<Rightarrow> ('a \<times> 'k) option" where
  "guarded body k = Option.bind (lock k) (\<lambda>k1. Option.bind (body k1) (\<lambda>(a, k2). map_option (\<lambda>k3. (a, k3)) (unlock k2)))"

lemma guarded_runs:
  assumes "free k" and "\<And>k1. data k1 = data k \<Longrightarrow> \<exists>a k2. body k1 = Some (a, k2) \<and> frame k1 k2 \<and> Q a (data k2)"
  shows "\<exists>a k3. guarded body k = Some (a, k3) \<and> free k3 \<and> Q a (data k3)"
proof -
  obtain k1 where k1: "lock k = Some k1" "data k1 = data k" "\<And>k2. frame k1 k2 \<Longrightarrow> \<exists>k3. unlock k2 = Some k3 \<and> free k3 \<and> data k3 = data k2"
    using enter [OF assms(1)] by blast
  obtain a k2 where k2: "body k1 = Some (a, k2)" "frame k1 k2" "Q a (data k2)" using assms(2) [OF k1(2)] by blast
  then show ?thesis using k1(1) k1(3) [OF k2(2)] by (auto simp: guarded_def)
qed

end

section \<open>The mutex as a lock\<close>

text \<open>\<open>None\<close> when the calling task has to wait: the call does not return at once.\<close>

definition MUX_LOCK :: "addr \<Rightarrow> kernel \<Rightarrow> kernel option" where
  "MUX_LOCK s k =
     (case semM_take s WAIT_FOREVER k of Some (Return r, k1) \<Rightarrow> Some k1 | _ \<Rightarrow> None)"

definition MUX_UNLOCK :: "addr \<Rightarrow> kernel \<Rightarrow> kernel option" where
  "MUX_UNLOCK s k = map_option snd (semM_give s k)"

definition mux_free :: "addr \<Rightarrow> kernel \<Rightarrow> bool" where
  "mux_free s k \<longleftrightarrow> (\<exists>A c. kernel_ok k A \<and> G_p_current_tcb k = Some c \<and> semM_owner (semMs k s) = None \<and> A (SemM_wait s) = [])"

text \<open>Inside of a section the heap may change.\<close>

definition heap_only :: "kernel \<Rightarrow> kernel \<Rightarrow> bool" where
  "heap_only k k' \<longleftrightarrow> (\<exists>h. k' = k\<lparr>kheap := h\<rparr>)"

lemma mux_enter:
  assumes "mux_free s k"
  shows "MUX_LOCK s k = Some (upd_semM s (\<lambda>m. m\<lparr>semM_owner := G_p_current_tcb k, take_count := 1\<rparr>) k)"
  using assms by (auto simp: mux_free_def MUX_LOCK_def semM_take_def)

lemma settle_data: "kheap (snd (settle n c k)) = kheap k \<and> G_ticks (snd (settle n c k)) = G_ticks k"
  using readyQ_remove_objects [of k c] readyQ_put_objects [of "upd_tcb c (set_prio n) (readyQ_remove c k)" c]
  by (simp add: settle_def CONTEXT_SWITCH_def LOAD_HIGHEST_TASK_def same_objects_def)

lemma mux_leave:
  fixes h :: heap
  assumes "mux_free s k"
  defines "k2 \<equiv> (upd_semM s (\<lambda>m. m\<lparr>semM_owner := G_p_current_tcb k, take_count := 1\<rparr>) k)\<lparr>kheap := h\<rparr>"
  shows "\<exists>k3. MUX_UNLOCK s k2 = Some k3 \<and> mux_free s k3 \<and> kheap k3 = h \<and> G_ticks k3 = G_ticks k"
proof -
  obtain A c where A: "kernel_ok k A" "G_p_current_tcb k = Some c" "A (SemM_wait s) = []"
    using assms(1) by (auto simp: mux_free_def)
  have c2: "G_p_current_tcb k2 = Some c" "take_count (semMs k2 s) = 1" "kheap k2 = h" "G_ticks k2 = G_ticks k"
    using A(2) by (simp_all add: k2_def upd_semM_def)
  have ok2: "kernel_ok k2 A"
    using A(1,2) c2(1) by (subst kernel_ok_same [of k k2]) (simp_all add: k2_def upd_semM_def same_queues_def)
  let ?k = "handed_over s [] k2" and ?n = "min (origin_pri (tcbs k2 c)) (owned_wait_pri (handed_over s [] k2) (popped (SemM_wait s) k2 A SemM_list))"
  note ho = handed_over_ok [OF ok2, of s, unfolded A(3)]
  have give: "semM_give s k2 = Some (settle ?n c ?k)" using semM_give_settles [OF ok2 c2(1,2)] A(3) by simp
  have pop: "popped (SemM_wait s) k2 A = A" using A(3) by (simp add: popped_def)
  have "?n \<le> 255" using owned_wait_pri_le min.coboundedI2 by blast
  then have n: "unat ?n < PRIORITY_NUM_MAX" by (simp add: word_le_nat_alt)
  have ck: "G_p_current_tcb ?k = Some c" using ho(4) c2(1) by simp
  obtain B where B: "kernel_ok (snd (settle ?n c ?k)) B" "requeued A B" "semMs (snd (settle ?n c ?k)) = semMs ?k"
    using settle_ok [OF ho(1) ck n] pop by (auto simp: split_def)
  have "\<exists>d. G_p_current_tcb (snd (settle ?n c ?k)) = Some d"
  proof (cases "?n > pri ?k c")
    case True
    obtain i where "c \<in> set (A (Ready_list i))" using current_ready [OF ok2 c2(1)] .
    then obtain j where j: "c \<in> set (B (Ready_list j))" using requeued_ready [OF B(2)] by blast
    have "is_top B (highest_tcb (G_readyQ (snd (settle ?n c ?k))))" using B(1) by (simp add: kernel_ok_def queue_ok_def)
    moreover have "G_p_current_tcb (snd (settle ?n c ?k)) = highest_tcb (G_readyQ (snd (settle ?n c ?k)))"
      using True by (simp add: settle_def CONTEXT_SWITCH_def LOAD_HIGHEST_TASK_def)
    moreover have "j < PRIORITY_NUM_MAX" using tq.ready_priority [of "snd (settle ?n c ?k)" B c j] j B(1) by (simp add: kernel_ok_def)
    ultimately show ?thesis using j by (cases "highest_tcb (G_readyQ (snd (settle ?n c ?k)))") (auto simp: is_top_def)
  qed (use ck in \<open>auto simp: settle_def\<close>)
  then have "mux_free s (snd (settle ?n c ?k))"
    using B A(3) ho(2) unfolding mux_free_def requeued_def by (intro exI [of _ B]) auto
  moreover have "kheap ?k = h" "G_ticks ?k = G_ticks k" using c2 by (simp_all add: handed_over_def upd_semM_def Let_def)
  ultimately show ?thesis using give settle_data by (simp add: MUX_UNLOCK_def)
qed

definition mux_data :: "kernel \<Rightarrow> heap \<times> uint32" where
  "mux_data k = (kheap k, G_ticks k)"

interpretation mux: critical_section "MUX_LOCK s" "MUX_UNLOCK s" "mux_free s" heap_only mux_data for s
proof unfold_locales
  fix k
  assume "mux_free s k"
  then show "\<exists>k1. MUX_LOCK s k = Some k1 \<and> mux_data k1 = mux_data k \<and>
      (\<forall>k2. heap_only k1 k2 \<longrightarrow> (\<exists>k3. MUX_UNLOCK s k2 = Some k3 \<and> mux_free s k3 \<and> mux_data k3 = mux_data k2))"
    using mux_enter mux_leave unfolding heap_only_def mux_data_def
    by (intro exI [of _ "upd_semM s (\<lambda>m. m\<lparr>semM_owner := G_p_current_tcb k, take_count := 1\<rparr>) k"]) (fastforce simp: upd_semM_def)
next
  fix k show "heap_only k k" unfolding heap_only_def by (intro exI [of _ "kheap k"]) simp
qed

end
