(* ===== verification/TimeLib.thy ===== *)
theory TimeLib
  imports Kernel_Lock Tick
begin

text \<open>
  The software clock of \<^verbatim>\<open>src/date/timeLib.c\<close>: a base time that \<^verbatim>\<open>timeSet\<close> stores together with the
  tick count of that moment, and \<^verbatim>\<open>timeGet\<close>, which adds the ticks since then. The base time
  is guarded by a mutex that is created at the first call.
\<close>

section \<open>The code\<close>

record TIME_SOCKET =
  iYear :: int
  iMon :: int
  iDay :: int
  iHour :: int
  iMin :: int
  iSec :: int
  iWday :: int
  iYday :: int

record time_state =
  GtsBaseTime :: TIME_SOCKET
  GuiSetMomentTicks :: uint32
  GsemBaseTimeMutex :: ptr
  tkern :: kernel

abbreviation (input) SYS_CLK_RATE :: uint32 where "SYS_CLK_RATE \<equiv> 100"

definition isLeapyear :: "int \<Rightarrow> bool" where
  "isLeapyear y \<longleftrightarrow> y mod 400 = 0 \<or> y mod 4 = 0 \<and> y mod 100 \<noteq> 0"

definition monthDays :: "int \<Rightarrow> int \<Rightarrow> int" where
  "monthDays y mon =
     (if mon \<in> {1, 3, 5, 7, 8, 10, 12} then 31 else if mon \<in> {4, 6, 9, 11} then 30
      else if mon = 2 then if isLeapyear y then 29 else 28 else 0)"

text \<open>Every failed test prints a warning and the others are still made.\<close>

definition checkTime :: "TIME_SOCKET \<Rightarrow> OS_STATUS" where
  "checkTime t =
     (if iSec t < 0 \<or> iSec t > 59 \<or> iMin t < 0 \<or> iMin t > 59 \<or> iHour t < 0 \<or> iHour t > 23 \<or>
         iYear t < 1000 \<or> iYear t > 9999 \<or> iMon t < 1 \<or> iMon t > 12 \<or> iDay t < 1 \<or> iDay t > monthDays (iYear t) (iMon t)
      then OS_STATUS_ERROR else OS_STATUS_OK)"

function yday_loop :: "int \<Rightarrow> int \<Rightarrow> int \<Rightarrow> int" where
  "yday_loop y mon yday = (if mon > 0 then yday_loop y (mon - 1) (yday + monthDays y mon) else yday)"
  by pat_completeness auto
termination by (relation "measure (\<lambda>(y, m, d). nat m)") auto

definition updateDayOfYear :: "TIME_SOCKET \<Rightarrow> TIME_SOCKET" where
  "updateDayOfYear t = t\<lparr>iYday := yday_loop (iYear t) (iMon t - 1) (iDay t - 1)\<rparr>"

definition updateWeekday :: "TIME_SOCKET \<Rightarrow> TIME_SOCKET" where
  "updateWeekday t =
     (let y = iYear t; t1 = updateDayOfYear t;
          iNewYearDay = (y + (y - 1) div 400 - (y - 1) div 100 + (y - 1) div 4) mod 7
      in t1\<lparr>iWday := (iNewYearDay + iYday t1) mod 7\<rparr>)"

fun addDays :: "nat \<Rightarrow> TIME_SOCKET \<Rightarrow> TIME_SOCKET" where
  "addDays 0 t = t"
| "addDays (Suc n) t =
     addDays n (if iDay t < monthDays (iYear t) (iMon t) then t\<lparr>iDay := iDay t + 1\<rparr>
                else let t1 = t\<lparr>iDay := 1, iMon := iMon t + 1\<rparr>
                     in if iMon t1 = 13 then t1\<lparr>iMon := 1, iYear := iYear t1 + 1\<rparr> else t1)"

text \<open>
  \<^verbatim>\<open>iWday\<close> and \<^verbatim>\<open>iYday\<close> of the local variable are not set here; \<^verbatim>\<open>timeGet\<close> sets them before it
  returns. The subtraction of the tick counts is unsigned.
\<close>

definition calculateNowTime :: "time_state \<Rightarrow> TIME_SOCKET" where
  "calculateNowTime s =
     (let b = GtsBaseTime s;
          iSeconds = uint ((word_of_int (tick_get (tkern s)) - GuiSetMomentTicks s) div SYS_CLK_RATE);
          sec = iSec b + iSeconds mod 60;
          (sec, iCarry) = (if sec > 59 then (sec mod 60, 1) else (sec, 0));
          iMinutes = iSeconds div 60 + iCarry;
          mnt = iMin b + iMinutes mod 60;
          (mnt, iCarry) = (if mnt > 59 then (mnt mod 60, 1) else (mnt, 0));
          iHours = iMinutes div 60 + iCarry;
          hour = iHour b + iHours mod 24;
          (hour, iCarry) = (if hour > 23 then (hour mod 24, 1) else (hour, 0));
          iDays = iHours div 24 + iCarry
      in addDays (nat iDays) (b\<lparr>iSec := sec, iMin := mnt, iHour := hour\<rparr>))"

text \<open>\<^verbatim>\<open>OS_MUX_INIT\<close> at the first call.\<close>

definition ensure_mutex :: "time_state \<Rightarrow> (addr \<times> time_state) option" where
  "ensure_mutex s =
     (case GsemBaseTimeMutex s of
        Some p \<Rightarrow> Some (p, s)
      | None \<Rightarrow> map_option (\<lambda>(p, k). (p, s\<lparr>GsemBaseTimeMutex := Some p, tkern := k\<rparr>)) (semM_init None (tkern s)))"

definition timeSet :: "TIME_SOCKET \<Rightarrow> time_state \<Rightarrow> (OS_STATUS \<times> time_state) option" where
  "timeSet t s =
     (if checkTime t = OS_STATUS_ERROR then Some (OS_STATUS_ERROR, s)
      else do {
        (p, s1) \<leftarrow> ensure_mutex s;
        k1 \<leftarrow> MUX_LOCK p (tkern s1);
        k2 \<leftarrow> MUX_UNLOCK p k1;
        Some (OS_STATUS_OK, s1\<lparr>GtsBaseTime := t, tkern := k2, GuiSetMomentTicks := word_of_int (tick_get k2)\<rparr>)
      })"

definition timeGet :: "time_state \<Rightarrow> (TIME_SOCKET \<times> time_state) option" where
  "timeGet s = do {
     (p, s1) \<leftarrow> ensure_mutex s;
     k1 \<leftarrow> MUX_LOCK p (tkern s1);
     let tsNowTime = calculateNowTime (s1\<lparr>tkern := k1\<rparr>);
     k2 \<leftarrow> MUX_UNLOCK p k1;
     Some (updateWeekday tsNowTime, s1\<lparr>tkern := k2\<rparr>)
   }"

definition setYear :: "int \<Rightarrow> time_state \<Rightarrow> (OS_STATUS \<times> time_state) option" where
  "setYear y s = Option.bind (timeGet s) (\<lambda>(t, s1). timeSet (t\<lparr>iYear := y\<rparr>) s1)"

definition setMonth :: "int \<Rightarrow> time_state \<Rightarrow> (OS_STATUS \<times> time_state) option" where
  "setMonth y s = Option.bind (timeGet s) (\<lambda>(t, s1). timeSet (t\<lparr>iMon := y\<rparr>) s1)"

definition setDay :: "int \<Rightarrow> time_state \<Rightarrow> (OS_STATUS \<times> time_state) option" where
  "setDay y s = Option.bind (timeGet s) (\<lambda>(t, s1). timeSet (t\<lparr>iDay := y\<rparr>) s1)"

definition setHour :: "int \<Rightarrow> time_state \<Rightarrow> (OS_STATUS \<times> time_state) option" where
  "setHour y s = Option.bind (timeGet s) (\<lambda>(t, s1). timeSet (t\<lparr>iHour := y\<rparr>) s1)"

definition setMinute :: "int \<Rightarrow> time_state \<Rightarrow> (OS_STATUS \<times> time_state) option" where
  "setMinute y s = Option.bind (timeGet s) (\<lambda>(t, s1). timeSet (t\<lparr>iMin := y\<rparr>) s1)"

definition setSecond :: "int \<Rightarrow> time_state \<Rightarrow> (OS_STATUS \<times> time_state) option" where
  "setSecond y s = Option.bind (timeGet s) (\<lambda>(t, s1). timeSet (t\<lparr>iSec := y\<rparr>) s1)"

section \<open>The calendar\<close>

definition valid_date :: "TIME_SOCKET \<Rightarrow> bool" where
  "valid_date t \<longleftrightarrow> 1 \<le> iYear t \<and> 1 \<le> iMon t \<and> iMon t \<le> 12 \<and> 1 \<le> iDay t \<and> iDay t \<le> monthDays (iYear t) (iMon t)"

definition valid_clock :: "TIME_SOCKET \<Rightarrow> bool" where
  "valid_clock t \<longleftrightarrow> 0 \<le> iHour t \<and> iHour t < 24 \<and> 0 \<le> iMin t \<and> iMin t < 60 \<and> 0 \<le> iSec t \<and> iSec t < 60"

text \<open>Days since 1 January of the year 1, by the Gregorian leap years, and seconds.\<close>

definition year_start :: "int \<Rightarrow> int" where
  "year_start y = 365 * (y - 1) + (y - 1) div 4 - (y - 1) div 100 + (y - 1) div 400"

definition month_start :: "int \<Rightarrow> int \<Rightarrow> int" where
  "month_start y mon = (\<Sum>i = 1..mon - 1. monthDays y i)"

definition day_number :: "TIME_SOCKET \<Rightarrow> int" where
  "day_number t = year_start (iYear t) + month_start (iYear t) (iMon t) + (iDay t - 1)"

definition seconds :: "TIME_SOCKET \<Rightarrow> int" where
  "seconds t = 86400 * day_number t + 3600 * iHour t + 60 * iMin t + iSec t"

declare yday_loop.simps [simp del]

lemma yday_loop_sum: "yday_loop y mon d = d + (\<Sum>i = 1..mon. monthDays y i)"
proof (induction y mon d rule: yday_loop.induct)
  case (1 y mon d)
  show ?case
  proof (cases "mon > 0")
    case True
    then have "{1..mon} = insert mon {1..mon - 1}" by auto
    then show ?thesis using 1 True by (subst yday_loop.simps) simp
  qed (subst yday_loop.simps, simp)
qed

lemma month_start_step: "1 \<le> mon \<Longrightarrow> month_start y (mon + 1) = month_start y mon + monthDays y mon"
proof -
  assume "1 \<le> mon"
  then have "{1..mon} = insert mon {1..mon - 1}" by auto
  then show ?thesis by (simp add: month_start_def)
qed

lemma year_length: "month_start y 13 = (if isLeapyear y then 366 else 365)"
proof -
  have "month_start y 1 = 0" by (simp add: month_start_def)
  then show ?thesis
    using month_start_step [of 1 y] month_start_step [of 2 y] month_start_step [of 3 y] month_start_step [of 4 y] month_start_step [of 5 y] month_start_step [of 6 y] month_start_step [of 7 y] month_start_step [of 8 y] month_start_step [of 9 y] month_start_step [of 10 y] month_start_step [of 11 y] month_start_step [of 12 y]
    by (simp add: monthDays_def)
qed

lemma div_step: "y div n = (y - 1) div n + (if y mod n = 0 then 1 else 0)" if "0 < n" for y n :: int
proof (cases "y mod n = 0")
  case True
  then have "y = n * (y div n)" using mult_div_mod_eq [of n y] by simp
  then have "y - 1 = n * (y div n - 1) + (n - 1)" unfolding right_diff_distrib by simp
  from int_div_pos_eq [OF this] have "(y - 1) div n = y div n - 1" using that by simp
  then show ?thesis using True by simp
next
  case False
  have "0 \<le> y mod n" "y mod n < n" using that by simp_all
  moreover have "y - 1 = n * (y div n) + (y mod n - 1)" using mult_div_mod_eq [of n y] by linarith
  ultimately have "(y - 1) div n = y div n" using that False int_div_pos_eq [of "y - 1" n "y div n" "y mod n - 1"] by linarith
  then show ?thesis using False by simp
qed

lemma year_start_step: "year_start (y + 1) = year_start y + month_start y 13"
proof -
  have "y mod 400 mod 100 = y mod 100" "y mod 100 mod 4 = y mod 4" by (rule mod_mod_cancel, simp)+
  then have "y mod 400 = 0 \<Longrightarrow> y mod 100 = 0" "y mod 100 = 0 \<Longrightarrow> y mod 4 = 0" by (metis mod_0)+
  then have "(if y mod 4 = 0 then 1 else 0) - (if y mod 100 = 0 then 1 else 0) + (if y mod 400 = 0 then 1 else 0) = (if isLeapyear y then 1 else 0 :: int)"
    unfolding isLeapyear_def by (cases "y mod 400 = 0"; cases "y mod 100 = 0"; cases "y mod 4 = 0"; simp)
  note l = this
  have gen: "365 * y + a - b + c = (365 * (y - 1) + a' - b' + c') + (365 + l)"
    if "a = a' + i" "b = b' + j" "c = c' + k" "i - j + k = l" for a b c a' b' c' i j k l :: int
    using that by simp
  have e: "year_start (y + 1) = 365 * y + y div 4 - y div 100 + y div 400"
    "month_start y 13 = 365 + (if isLeapyear y then 1 else 0)" by (simp_all add: year_start_def year_length)
  show ?thesis unfolding e year_start_def [of y]
    by (rule gen [OF div_step div_step div_step l]) simp_all
qed

lemma addDays_one:
  assumes "valid_date t"
  shows "valid_date (addDays 1 t) \<and> day_number (addDays 1 t) = day_number t + 1"
proof -
  have v: "1 \<le> iYear t" "1 \<le> iMon t" "iMon t \<le> 12" "1 \<le> iDay t" "iDay t \<le> monthDays (iYear t) (iMon t)"
    using assms by (simp_all add: valid_date_def)
  have pos: "1 \<le> monthDays y mon" if "1 \<le> mon" "mon \<le> 12" for y mon
  proof -
    have "mon = 1 \<or> mon = 2 \<or> mon = 3 \<or> mon = 4 \<or> mon = 5 \<or> mon = 6 \<or> mon = 7 \<or> mon = 8 \<or> mon = 9 \<or> mon = 10 \<or> mon = 11 \<or> mon = 12"
      using that by presburger
    then show ?thesis by (elim disjE) (simp_all add: monthDays_def)
  qed
  consider "iDay t < monthDays (iYear t) (iMon t)" | "iDay t = monthDays (iYear t) (iMon t)" "iMon t < 12"
    | "iDay t = monthDays (iYear t) (iMon t)" "iMon t = 12" using v by linarith
  then show ?thesis
  proof cases
    case 1
    then show ?thesis using v by (simp add: valid_date_def day_number_def)
  next
    case 2
    then show ?thesis using v pos month_start_step [of "iMon t" "iYear t"] by (simp add: valid_date_def day_number_def Let_def)
  next
    case 3
    have "month_start y 1 = 0" for y by (simp add: month_start_def)
    then show ?thesis using 3 v pos month_start_step [of 12 "iYear t"] year_start_step [of "iYear t"]
      by (simp add: valid_date_def day_number_def Let_def)
  qed
qed

lemma addDays_Suc: "addDays (Suc n) t = addDays n (addDays 1 t)"
  by simp

lemma addDays_clock: "iHour (addDays n t) = iHour t \<and> iMin (addDays n t) = iMin t \<and> iSec (addDays n t) = iSec t"
  by (induction n arbitrary: t) (simp_all add: Let_def)

lemma addDays_number: "valid_date t \<Longrightarrow> valid_date (addDays n t) \<and> day_number (addDays n t) = day_number t + int n"
proof (induction n arbitrary: t)
  case (Suc n)
  then show ?case unfolding addDays_Suc using addDays_one by simp
qed simp

section \<open>The time of day\<close>

text \<open>Adding \<open>x \<ge> 0\<close> units to a field \<open>f < n\<close> as the code does, with a carry.\<close>

lemma carry_add:
  fixes f x n :: int
  assumes "0 \<le> f" "f < n" "0 \<le> x"
  shows "case (if f + x mod n > n - 1 then ((f + x mod n) mod n, 1) else (f + x mod n, 0)) of
     (f', c) \<Rightarrow> 0 \<le> f' \<and> f' < n \<and> 0 \<le> c \<and> n * (x div n + c) + f' = f + x \<and> 0 \<le> x div n + c"
proof -
  obtain q r where x: "0 \<le> r" "r < n" "n * q + r = x" "0 \<le> q" "x mod n = r" "x div n = q"
    using assms by (metis mult_div_mod_eq pos_imp_zdiv_nonneg_iff pos_mod_bound pos_mod_sign le_less_trans)
  have "(f + r) mod n = f + r - n" if "f + r > n - 1"
    using int_mod_pos_eq [of "f + r" n 1 "f + r - n"] assms x(2) that by simp
  then show ?thesis using assms x(1-4) unfolding x(5,6) by (auto simp: distrib_left)
qed

definition elapsed :: "time_state \<Rightarrow> int" where
  "elapsed s = uint (G_ticks (tkern s) - GuiSetMomentTicks s) div 100"

lemma calculateNowTime_seconds:
  assumes "valid_date (GtsBaseTime s)" and "valid_clock (GtsBaseTime s)"
  shows "valid_date (calculateNowTime s) \<and> valid_clock (calculateNowTime s) \<and>
     seconds (calculateNowTime s) = seconds (GtsBaseTime s) + elapsed s"
proof -
  let ?b = "GtsBaseTime s"
  define E where "E = elapsed s"
  have E: "uint ((word_of_int (tick_get (tkern s)) - GuiSetMomentTicks s) div SYS_CLK_RATE) = E" "0 \<le> E"
    by (simp_all add: E_def elapsed_def tick_get_def uint_div_distrib pos_imp_zdiv_nonneg_iff)
  obtain sec c1 :: int where s0: "(if iSec ?b + E mod 60 > 59 then ((iSec ?b + E mod 60) mod 60, 1) else (iSec ?b + E mod 60, 0)) = (sec, c1)"
    by (metis surj_pair)
  have s: "0 \<le> sec" "sec < 60" "60 * (E div 60 + c1) + sec = iSec ?b + E" "0 \<le> E div 60 + c1"
    using carry_add [of "iSec ?b" 60 E] s0 assms(2) E(2)  by (simp_all add: valid_clock_def )
  define M where "M = E div 60 + c1"
  obtain mnt c2 :: int where m0: "(if iMin ?b + M mod 60 > 59 then ((iMin ?b + M mod 60) mod 60, 1) else (iMin ?b + M mod 60, 0)) = (mnt, c2)"
    by (metis surj_pair)
  have m: "0 \<le> mnt" "mnt < 60" "60 * (M div 60 + c2) + mnt = iMin ?b + M" "0 \<le> M div 60 + c2"
    using carry_add [of "iMin ?b" 60 M] m0 assms(2) s(4)  by (simp_all add: valid_clock_def M_def)
  define H where "H = M div 60 + c2"
  obtain hour c3 :: int where h0: "(if iHour ?b + H mod 24 > 23 then ((iHour ?b + H mod 24) mod 24, 1) else (iHour ?b + H mod 24, 0)) = (hour, c3)"
    by (metis surj_pair)
  have h: "0 \<le> hour" "hour < 24" "24 * (H div 24 + c3) + hour = iHour ?b + H" "0 \<le> H div 24 + c3"
    using carry_add [of "iHour ?b" 24 H] h0 assms(2) m(4)  by (simp_all add: valid_clock_def H_def)
  define T where "T = ?b\<lparr>iSec := sec, iMin := mnt, iHour := hour\<rparr>"
  have now: "calculateNowTime s = addDays (nat (H div 24 + c3)) T"
    unfolding calculateNowTime_def Let_def E(1) s0 prod.case M_def [symmetric] m0 H_def [symmetric] h0 T_def ..
  have "valid_date T" "day_number T = day_number ?b" using assms(1) by (simp_all add: T_def valid_date_def day_number_def)
  then have d: "valid_date (calculateNowTime s)" "day_number (calculateNowTime s) = day_number ?b + (H div 24 + c3)"
    unfolding now using addDays_number h(4) by simp_all
  have f: "iHour (calculateNowTime s) = hour" "iMin (calculateNowTime s) = mnt" "iSec (calculateNowTime s) = sec"
    unfolding now using addDays_clock [of _ T] by (simp_all add: T_def)
  have "seconds (calculateNowTime s) = seconds ?b + E"
    unfolding seconds_def d(2) f using s(3) m(3) h(3) unfolding M_def [symmetric] H_def [symmetric] by (simp add: algebra_simps)
  then show ?thesis using d(1) f s(1,2) m(1,2) h(1,2) by (simp add: valid_clock_def E_def)
qed

lemma updateWeekday_weekday:
  "updateWeekday t = t\<lparr>iWday := (day_number t + 1) mod 7, iYday := day_number t - year_start (iYear t)\<rparr>"
proof -
  let ?y = "iYear t" and ?d = "month_start (iYear t) (iMon t) + (iDay t - 1)"
  have d: "yday_loop ?y (iMon t - 1) (iDay t - 1) = ?d" by (simp add: yday_loop_sum month_start_def)
  have "(?y + (?y - 1) div 400 - (?y - 1) div 100 + (?y - 1) div 4) mod 7 = (year_start ?y + 1) mod 7"
  proof -
    let ?x = "?y + (?y - 1) div 400 - (?y - 1) div 100 + (?y - 1) div 4"
    have "year_start ?y + 1 = ?x + 7 * (52 * (?y - 1))" by (simp add: year_start_def)
    then show ?thesis using mod_mult_self2 [of ?x 7 "52 * (?y - 1)"] by (simp only:)
  qed
  then have w: "((?y + (?y - 1) div 400 - (?y - 1) div 100 + (?y - 1) div 4) mod 7 + ?d) mod 7 = (year_start ?y + 1 + ?d) mod 7"
    by (simp only: mod_add_left_eq)
  have n: "day_number t + 1 = year_start ?y + 1 + ?d" "day_number t - year_start ?y = ?d" by (simp_all add: day_number_def)
  have u: "t\<lparr>iYday := x, iWday := z\<rparr> = t\<lparr>iWday := z, iYday := x\<rparr>" "iYday (t\<lparr>iYday := x\<rparr>) = x" for x z by simp_all
  show ?thesis unfolding n updateWeekday_def updateDayOfYear_def Let_def d u w ..
qed

section \<open>Calls under the lock\<close>

definition lock_ready :: "time_state \<Rightarrow> bool" where
  "lock_ready s \<longleftrightarrow> (\<exists>p s1. ensure_mutex s = Some (p, s1) \<and> mux_free p (tkern s1))"

definition same_clock :: "time_state \<Rightarrow> time_state \<Rightarrow> bool" where
  "same_clock s s' \<longleftrightarrow> GtsBaseTime s' = GtsBaseTime s \<and> GuiSetMomentTicks s' = GuiSetMomentTicks s \<and>
     G_ticks (tkern s') = G_ticks (tkern s)"

lemma ensure_mutex_clock: "ensure_mutex s = Some (p, s1) \<Longrightarrow> same_clock s s1 \<and> GsemBaseTimeMutex s1 = Some p"
  by (auto simp: ensure_mutex_def same_clock_def semM_init_def object_or_malloc_def kmalloc_def upd_semM_def upd_lists_def Let_def
      split: option.splits)

lemma calculateNowTime_clock: "same_clock s s' \<Longrightarrow> calculateNowTime s' = calculateNowTime s"
  by (simp add: calculateNowTime_def same_clock_def tick_get_def)

lemma locked:
  assumes "lock_ready s"
  obtains p s1 k1 k2 where "ensure_mutex s = Some (p, s1)" "MUX_LOCK p (tkern s1) = Some k1" "MUX_UNLOCK p k1 = Some k2"
    "same_clock s (s1\<lparr>tkern := k1\<rparr>)" "same_clock s (s1\<lparr>tkern := k2\<rparr>)" "\<And>t n. lock_ready (s1\<lparr>GtsBaseTime := t, tkern := k2, GuiSetMomentTicks := n\<rparr>)"
proof -
  obtain p s1 where p: "ensure_mutex s = Some (p, s1)" "mux_free p (tkern s1)" using assms by (auto simp: lock_ready_def)
  note c = ensure_mutex_clock [OF p(1)]
  obtain k1 where k1: "MUX_LOCK p (tkern s1) = Some k1" "mux_data k1 = mux_data (tkern s1)"
    "\<And>k2. heap_only k1 k2 \<Longrightarrow> \<exists>k3. MUX_UNLOCK p k2 = Some k3 \<and> mux_free p k3 \<and> mux_data k3 = mux_data k2"
    using mux.enter [OF p(2)] by blast
  obtain k2 where k2: "MUX_UNLOCK p k1 = Some k2" "mux_free p k2" "mux_data k2 = mux_data k1"
    using k1(3) [OF mux.frame_refl] by blast
  have "lock_ready (s1\<lparr>GtsBaseTime := t, tkern := k2, GuiSetMomentTicks := n\<rparr>)" for t n
    using c k2(2) by (simp add: lock_ready_def ensure_mutex_def)
  moreover have "same_clock s (s1\<lparr>tkern := k1\<rparr>)" "same_clock s (s1\<lparr>tkern := k2\<rparr>)"
    using c k1(2) k2(3) by (simp_all add: same_clock_def mux_data_def)
  ultimately show ?thesis using that p(1) k1(1) k2(1) by blast
qed

lemma timeGet_runs:
  assumes "lock_ready s"
  shows "\<exists>s'. timeGet s = Some (updateWeekday (calculateNowTime s), s') \<and> lock_ready s' \<and> same_clock s s'"
proof -
  obtain p s1 k1 k2 where l: "ensure_mutex s = Some (p, s1)" "MUX_LOCK p (tkern s1) = Some k1" "MUX_UNLOCK p k1 = Some k2"
    "same_clock s (s1\<lparr>tkern := k1\<rparr>)" "same_clock s (s1\<lparr>tkern := k2\<rparr>)" "\<And>t n. lock_ready (s1\<lparr>GtsBaseTime := t, tkern := k2, GuiSetMomentTicks := n\<rparr>)"
    using locked [OF assms] by blast
  have "lock_ready (s1\<lparr>tkern := k2\<rparr>)" using l(6) [of "GuiSetMomentTicks s1" "GtsBaseTime s1"] by simp
  then show ?thesis using l(1-3,5) calculateNowTime_clock [OF l(4)] by (simp add: timeGet_def)
qed

lemma timeSet_runs:
  assumes "lock_ready s" and "checkTime t = OS_STATUS_OK"
  shows "\<exists>s'. timeSet t s = Some (OS_STATUS_OK, s') \<and> lock_ready s' \<and> GtsBaseTime s' = t \<and> elapsed s' = 0"
proof -
  obtain p s1 k1 k2 where l: "ensure_mutex s = Some (p, s1)" "MUX_LOCK p (tkern s1) = Some k1" "MUX_UNLOCK p k1 = Some k2"
    "\<And>t n. lock_ready (s1\<lparr>GtsBaseTime := t, tkern := k2, GuiSetMomentTicks := n\<rparr>)"
    using locked [OF assms(1)] by metis
  let ?s = "s1\<lparr>GtsBaseTime := t, tkern := k2, GuiSetMomentTicks := word_of_int (tick_get k2)\<rparr>"
  have "timeSet t s = Some (OS_STATUS_OK, ?s)" using l(1-3) assms(2) by (simp add: timeSet_def)
  moreover have "elapsed ?s = 0" by (simp add: elapsed_def tick_get_def)
  ultimately show ?thesis using l(4) [of "word_of_int (tick_get k2)" t] by (intro exI [of _ ?s]) simp
qed

lemma checkTime_valid: "checkTime t = OS_STATUS_OK \<Longrightarrow> valid_date t \<and> valid_clock t"
  by (auto simp: checkTime_def valid_date_def valid_clock_def split: if_splits)

section \<open>Properties\<close>

text \<open>C27: the time that \<^verbatim>\<open>timeGet\<close> returns is a valid date and time of day, lies exactly the elapsed whole
  seconds behind the base time in the Gregorian calendar, and has the right day of the
  week (0 is Sunday) and of the year; the base time stays.\<close>

theorem timeGet_advances:
  assumes "lock_ready s" and "valid_date (GtsBaseTime s)" and "valid_clock (GtsBaseTime s)"
  shows "\<exists>t s'. timeGet s = Some (t, s') \<and> valid_date t \<and> valid_clock t \<and>
     seconds t = seconds (GtsBaseTime s) + elapsed s \<and> iWday t = (day_number t + 1) mod 7 \<and>
     iYday t = day_number t - year_start (iYear t) \<and> same_clock s s'"
proof -
  let ?n = "calculateNowTime s" and ?t = "updateWeekday (calculateNowTime s)"
  have eq: "valid_date ?t = valid_date ?n" "valid_clock ?t = valid_clock ?n" "seconds ?t = seconds ?n" "day_number ?t = day_number ?n"
    "iWday ?t = (day_number ?n + 1) mod 7" "iYday ?t = day_number ?n - year_start (iYear ?n)" "iYear ?t = iYear ?n"
    unfolding updateWeekday_weekday by (simp_all add: valid_date_def valid_clock_def seconds_def day_number_def)
  obtain s' where s': "timeGet s = Some (?t, s')" "same_clock s s'" using timeGet_runs [OF assms(1)] by blast
  then show ?thesis using calculateNowTime_seconds [OF assms(2,3)] eq by (intro exI [of _ ?t] exI [of _ s']) simp
qed

definition clock_demo :: time_state where
  "clock_demo = \<lparr>GtsBaseTime = \<lparr>iYear = 2012, iMon = 2, iDay = 28, iHour = 23, iMin = 59, iSec = 59, iWday = 0, iYday = 0\<rparr>,
     GuiSetMomentTicks = G_ticks demo - 250, GsemBaseTimeMutex = Some 3000, tkern = demo\<rparr>"

lemma clock_demo_ready: "lock_ready clock_demo"
proof -
  have "mux_free 3000 demo"
    unfolding mux_free_def using demo_ok by (intro exI [of _ demo_queues] exI [of _ 100]) (simp add: demo_queues_def empty_kernel_def)
  then show ?thesis by (simp add: lock_ready_def ensure_mutex_def clock_demo_def)
qed

theorem timeGet_advances_witness:
  "\<exists>t s'. timeGet clock_demo = Some (t, s') \<and> seconds t = seconds (GtsBaseTime clock_demo) + 2 \<and> valid_date t"
proof -
  have "valid_date (GtsBaseTime clock_demo)" "valid_clock (GtsBaseTime clock_demo)" "elapsed clock_demo = 2"
    by (simp_all add: clock_demo_def valid_date_def valid_clock_def monthDays_def elapsed_def)
  then show ?thesis using timeGet_advances [OF clock_demo_ready] by auto
qed

text \<open>\<^verbatim>\<open>timeSet\<close> refuses a time that is not valid and changes nothing; a valid one is what
  \<^verbatim>\<open>timeGet\<close> returns as long as no second has passed.\<close>

theorem timeSet_timeGet_roundtrip:
  assumes "lock_ready s"
  shows "if checkTime t = OS_STATUS_ERROR then timeSet t s = Some (OS_STATUS_ERROR, s)
     else \<exists>s1 s2 d y. timeSet t s = Some (OS_STATUS_OK, s1) \<and> timeGet s1 = Some (t\<lparr>iWday := d, iYday := y\<rparr>, s2)"
proof (cases "checkTime t")
  case OS_STATUS_OK
  obtain s1 where s1: "timeSet t s = Some (OS_STATUS_OK, s1)" "lock_ready s1" "GtsBaseTime s1 = t" "elapsed s1 = 0"
    using timeSet_runs [OF assms OS_STATUS_OK] by blast
  have "uint ((word_of_int (tick_get (tkern s1)) - GuiSetMomentTicks s1) div SYS_CLK_RATE) = 0"
    using s1(4) by (simp add: elapsed_def tick_get_def uint_div_distrib)
  moreover have "\<not> iSec t > 59" "\<not> iMin t > 59" "\<not> iHour t > 23" using checkTime_valid [OF OS_STATUS_OK] by (auto simp: valid_clock_def)
  ultimately have "calculateNowTime s1 = t" unfolding calculateNowTime_def Let_def s1(3) by simp
  then show ?thesis using s1(1) timeGet_runs [OF s1(2)] OS_STATUS_OK unfolding updateWeekday_weekday by auto
next
  case OS_STATUS_ERROR
  then show ?thesis by (simp add: timeSet_def)
qed

theorem timeSet_timeGet_roundtrip_witness:
  "\<exists>s1 s2 d y. timeSet (GtsBaseTime clock_demo) clock_demo = Some (OS_STATUS_OK, s1) \<and>
     timeGet s1 = Some ((GtsBaseTime clock_demo)\<lparr>iWday := d, iYday := y\<rparr>, s2)"
proof -
  have "checkTime (GtsBaseTime clock_demo) \<noteq> OS_STATUS_ERROR" by (simp add: checkTime_def clock_demo_def monthDays_def)
  then show ?thesis using timeSet_timeGet_roundtrip [OF clock_demo_ready, of "GtsBaseTime clock_demo"] by simp
qed

end
