(* ===== verification/IoSystem.thy ===== *)
theory IoSystem
  imports Kernel_Lock CString
begin

text \<open>
  The I/O system of \<^verbatim>\<open>src/ios/lib/iosLib.c\<close> and \<^verbatim>\<open>ioLib.c\<close>: the tables of file descriptors and
  drivers, the list of devices, and the calls that go through them. Driver routines are
  function pointers; \<open>call f args\<close>, an argument of the definitions that use it, is what the
  routine at \<open>f\<close> does. \<open>None\<close> as a result: the call blocks, does not return, or the code
  dereferences \<^verbatim>\<open>NULL\<close> or indexes outside of a table.
\<close>

section \<open>State\<close>

type_synonym DRV_FUNC_PTR = addr

record FD_ENTRY =
  fd_drv_num :: int
  open_data :: uint32
  inuse :: bool

record DRV_ENTRY =
  de_create :: DRV_FUNC_PTR
  de_delete :: DRV_FUNC_PTR
  de_open :: DRV_FUNC_PTR
  de_close :: DRV_FUNC_PTR
  de_read :: DRV_FUNC_PTR
  de_write :: DRV_FUNC_PTR
  de_ioctl :: DRV_FUNC_PTR
  de_inuse :: bool

record DEV_HDR =
  dh_drv_num :: int
  dh_name :: addr
  drvRefCount :: int
  drvRefFlag :: int

datatype dev_list = G_dev_list

record ios_state =
  G_fd_table :: "FD_ENTRY list"
  G_drv_table :: "DRV_ENTRY list"
  dev_mem :: "dev_list dl_mem"
  dev_hdrs :: "addr \<Rightarrow> DEV_HDR"
  G_ios_dev :: addr
  ikern :: kernel

abbreviation (input) IOS_MAX_FILE_DES :: nat where "IOS_MAX_FILE_DES \<equiv> 50"
abbreviation (input) IOS_MAX_DRIVERS :: nat where "IOS_MAX_DRIVERS \<equiv> 50"

abbreviation imem :: "ios_state \<Rightarrow> cmem" where "imem s \<equiv> bytes (kheap (ikern s))"

text \<open>A driver entry by number.\<close>

definition drv_at :: "int \<Rightarrow> ios_state \<Rightarrow> DRV_ENTRY option" where
  "drv_at n s = (if 0 \<le> n \<and> nat n < length (G_drv_table s) then Some (G_drv_table s ! nat n) else None)"

definition fd_at :: "int \<Rightarrow> ios_state \<Rightarrow> FD_ENTRY option" where
  "fd_at n s = (if 0 \<le> n \<and> nat n < length (G_fd_table s) then Some (G_fd_table s ! nat n) else None)"

definition IOS_LOCK :: "ios_state \<Rightarrow> ios_state option" where
  "IOS_LOCK s = map_option (\<lambda>k. s\<lparr>ikern := k\<rparr>) (MUX_LOCK (G_ios_dev s) (ikern s))"

definition IOS_UNLOCK :: "ios_state \<Rightarrow> ios_state option" where
  "IOS_UNLOCK s = map_option (\<lambda>k. s\<lparr>ikern := k\<rparr>) (MUX_UNLOCK (G_ios_dev s) (ikern s))"

section \<open>Descriptors and drivers\<close>

function free_fd_loop :: "nat \<Rightarrow> FD_ENTRY list \<Rightarrow> nat" where
  "free_fd_loop fd tab = (if fd < IOS_MAX_FILE_DES \<and> inuse (tab ! fd) then free_fd_loop (fd + 1) tab else fd)"
  by pat_completeness auto
termination by (relation "measure (\<lambda>(fd, tab). IOS_MAX_FILE_DES - fd)") auto

definition iosAllocFd :: "ios_state \<Rightarrow> (int \<times> ios_state) option" where
  "iosAllocFd s = do {
     s1 \<leftarrow> IOS_LOCK s;
     let fd = free_fd_loop 0 (G_fd_table s1);
     if fd = IOS_MAX_FILE_DES then do { s2 \<leftarrow> IOS_UNLOCK s1; Some (-1, s2) }
     else do {
       s2 \<leftarrow> IOS_UNLOCK (s1\<lparr>G_fd_table := (G_fd_table s1)[fd := (G_fd_table s1 ! fd)\<lparr>inuse := True\<rparr>]\<rparr>);
       Some (int fd, s2)
     }
   }"

definition iosFreeFd :: "int \<Rightarrow> ios_state \<Rightarrow> (OS_STATUS \<times> ios_state) option" where
  "iosFreeFd fd s =
     (if fd < 0 \<or> fd \<ge> int IOS_MAX_FILE_DES then Some (OS_STATUS_ERROR, s)
      else do {
        s1 \<leftarrow> IOS_LOCK s;
        s2 \<leftarrow> IOS_UNLOCK (s1\<lparr>G_fd_table := (G_fd_table s1)[nat fd := (G_fd_table s1 ! nat fd)\<lparr>inuse := False\<rparr>]\<rparr>);
        Some (OS_STATUS_OK, s2)
      })"

text \<open>The lock is set up (\<^verbatim>\<open>semM_init\<close> on the static object) and 0, 1 and 2 are reserved.\<close>

definition iosLibInit :: "ios_state \<Rightarrow> (OS_STATUS \<times> ios_state) option" where
  "iosLibInit s = do {
     (p, k) \<leftarrow> semM_init (Some (G_ios_dev s)) (ikern s);
     (f0, s1) \<leftarrow> iosAllocFd (s\<lparr>ikern := k\<rparr>);
     (f1, s2) \<leftarrow> iosAllocFd s1;
     (f2, s3) \<leftarrow> iosAllocFd s2;
     Some (OS_STATUS_OK, s3)
   }"

function free_drv_loop :: "nat \<Rightarrow> DRV_ENTRY list \<Rightarrow> nat" where
  "free_drv_loop n tab = (if n < IOS_MAX_DRIVERS \<and> de_inuse (tab ! n) then free_drv_loop (n + 1) tab else n)"
  by pat_completeness auto
termination by (relation "measure (\<lambda>(n, tab). IOS_MAX_DRIVERS - n)") auto

definition iosDrvInstall ::
  "DRV_FUNC_PTR \<Rightarrow> DRV_FUNC_PTR \<Rightarrow> DRV_FUNC_PTR \<Rightarrow> DRV_FUNC_PTR \<Rightarrow> DRV_FUNC_PTR \<Rightarrow> DRV_FUNC_PTR \<Rightarrow> DRV_FUNC_PTR \<Rightarrow>
   ios_state \<Rightarrow> (int \<times> ios_state) option"
where
  "iosDrvInstall pCreate pRemove pOpen pClose pRead pWrite pIoctl s = do {
     s1 \<leftarrow> IOS_LOCK s;
     let n = free_drv_loop 0 (G_drv_table s1);
     if n = IOS_MAX_DRIVERS then do { s2 \<leftarrow> IOS_UNLOCK s1; Some (-1, s2) }
     else do {
       s2 \<leftarrow> IOS_UNLOCK (s1\<lparr>G_drv_table := (G_drv_table s1)[n :=
              \<lparr>de_create = pCreate, de_delete = pRemove, de_open = pOpen, de_close = pClose, de_read = pRead,
               de_write = pWrite, de_ioctl = pIoctl, de_inuse = True\<rparr>]\<rparr>);
       Some (int n, s2)
     }
   }"

section \<open>Devices\<close>

partial_function (option) devMatch_loop :: "ptr \<Rightarrow> addr \<Rightarrow> ptr \<Rightarrow> nat \<Rightarrow> ios_state \<Rightarrow> ptr option" where
  "devMatch_loop pDevHdr nm pBest maxLen s =
     (case pDevHdr of
        None \<Rightarrow> Some pBest
      | Some d \<Rightarrow>
          Option.bind (strlen (dh_name (dev_hdrs s d)) (imem s)) (\<lambda>len.
            if strncmp (dh_name (dev_hdrs s d)) nm len (imem s) = 0 \<and> len > maxLen
            then devMatch_loop (DL_NEXT d (dev_mem s)) nm (Some d) len s
            else devMatch_loop (DL_NEXT d (dev_mem s)) nm pBest maxLen s))"

definition iosDevMatch :: "addr \<Rightarrow> ios_state \<Rightarrow> ptr option" where
  "iosDevMatch nm s = devMatch_loop (DL_FIRST G_dev_list (dev_mem s)) nm None 0 s"

definition iosDevAdd :: "ptr \<Rightarrow> ptr \<Rightarrow> int \<Rightarrow> ios_state \<Rightarrow> (OS_STATUS \<times> ios_state) option" where
  "iosDevAdd pDevHdr nm drv_num s =
     (case (pDevHdr, nm) of
        (Some d, Some a) \<Rightarrow>
          if imem s a = 0 \<or> drv_num < 0 \<or> drv_num \<ge> int IOS_MAX_DRIVERS \<or> \<not> de_inuse (G_drv_table s ! nat drv_num)
          then Some (OS_STATUS_ERROR, s)
          else do {
            len \<leftarrow> strlen a (imem s);
            (copiedName, k1) \<leftarrow> kmalloc (of_nat len + 1) (ikern s);
            (_, m) \<leftarrow> strcpy copiedName a (bytes (kheap k1));
            s2 \<leftarrow> IOS_LOCK (s\<lparr>ikern := k1\<lparr>kheap := (kheap k1)\<lparr>bytes := m\<rparr>\<rparr>\<rparr>);
            pDevMatch \<leftarrow> iosDevMatch a s2;
            same \<leftarrow> (case pDevMatch of None \<Rightarrow> Some False
                    | Some b \<Rightarrow> map_option (\<lambda>r. r = 0) (strcmp (dh_name (dev_hdrs s2 b)) a (imem s2)));
            if same then do {
              s3 \<leftarrow> IOS_UNLOCK s2;
              k4 \<leftarrow> kfree copiedName (ikern s3);
              Some (OS_STATUS_ERROR, s3\<lparr>ikern := k4\<rparr>)
            } else do {
              s3 \<leftarrow> IOS_UNLOCK (s2\<lparr>dev_hdrs := (dev_hdrs s2)(d :=
                        \<lparr>dh_drv_num = drv_num, dh_name = copiedName, drvRefCount = 0, drvRefFlag = 0\<rparr>),
                      dev_mem := dlist_add G_dev_list d (dev_mem s2)\<rparr>);
              Some (OS_STATUS_OK, s3)
            }
          }
      | _ \<Rightarrow> Some (OS_STATUS_ERROR, s))"

text \<open>The second component is what is stored through \<^verbatim>\<open>pNameTail\<close>, when something is stored.\<close>

definition iosDevFind :: "ptr \<Rightarrow> ios_state \<Rightarrow> (ptr \<times> ptr \<times> ios_state) option" where
  "iosDevFind nm s = do {
     s1 \<leftarrow> IOS_LOCK s;
     pDevHdr \<leftarrow> (case nm of Some a \<Rightarrow> if imem s1 a \<noteq> 0 then iosDevMatch a s1 else Some None | None \<Rightarrow> Some None);
     tail \<leftarrow> (case (pDevHdr, nm) of
                (Some d, Some a) \<Rightarrow> map_option (\<lambda>n. Some (a + n)) (strlen (dh_name (dev_hdrs s1 d)) (imem s1))
              | _ \<Rightarrow> Some None);
     s2 \<leftarrow> IOS_UNLOCK s1;
     Some (pDevHdr, tail, s2)
   }"

definition iosSaveDevNum :: "int \<Rightarrow> ptr \<Rightarrow> ios_state \<Rightarrow> (int \<times> ios_state) option" where
  "iosSaveDevNum fd pDevHdr s =
     (case (fd_at fd s, pDevHdr) of
        (Some e, Some d) \<Rightarrow>
          Some (0, s\<lparr>G_fd_table := (G_fd_table s)[nat fd := e\<lparr>fd_drv_num := dh_drv_num (dev_hdrs s d)\<rparr>]\<rparr>)
      | _ \<Rightarrow> None)"

section \<open>Through the driver\<close>

type_synonym driver_call = "DRV_FUNC_PTR \<Rightarrow> uint32 list \<Rightarrow> ios_state \<Rightarrow> (int \<times> ios_state) option"

definition dev_drv :: "ptr \<Rightarrow> ios_state \<Rightarrow> DRV_ENTRY option" where
  "dev_drv pDevHdr s = Option.bind pDevHdr (\<lambda>d. drv_at (dh_drv_num (dev_hdrs s d)) s)"

definition arg_ptr :: "ptr \<Rightarrow> uint32" where
  "arg_ptr p = (case p of None \<Rightarrow> 0 | Some a \<Rightarrow> of_nat a)"

definition iosCreate :: "driver_call \<Rightarrow> ptr \<Rightarrow> ptr \<Rightarrow> uint32 \<Rightarrow> ios_state \<Rightarrow> (int \<times> ios_state) option" where
  "iosCreate call pDevHdr file_name mode s =
     Option.bind (dev_drv pDevHdr s) (\<lambda>e. call (de_create e) [arg_ptr pDevHdr, arg_ptr file_name, mode] s)"

definition iosDelete :: "driver_call \<Rightarrow> ptr \<Rightarrow> ptr \<Rightarrow> ios_state \<Rightarrow> (int \<times> ios_state) option" where
  "iosDelete call pDevHdr file_name s =
     Option.bind (dev_drv pDevHdr s) (\<lambda>e. call (de_delete e) [arg_ptr pDevHdr, arg_ptr file_name] s)"

definition iosOpen :: "driver_call \<Rightarrow> ptr \<Rightarrow> ptr \<Rightarrow> uint32 \<Rightarrow> uint32 \<Rightarrow> ios_state \<Rightarrow> (int \<times> ios_state) option" where
  "iosOpen call pDevHdr file_name flags mode s =
     Option.bind (dev_drv pDevHdr s) (\<lambda>e. call (de_open e) [arg_ptr pDevHdr, arg_ptr file_name, flags, mode] s)"

text \<open>The entry of a descriptor and the driver it names.\<close>

definition fd_drv :: "int \<Rightarrow> ios_state \<Rightarrow> (FD_ENTRY \<times> DRV_ENTRY) option" where
  "fd_drv fd s = Option.bind (fd_at fd s) (\<lambda>f. map_option (\<lambda>e. (f, e)) (drv_at (fd_drv_num f) s))"

definition iosClose :: "driver_call \<Rightarrow> int \<Rightarrow> ios_state \<Rightarrow> (int \<times> ios_state) option" where
  "iosClose call fd s = Option.bind (fd_drv fd s) (\<lambda>(f, e). call (de_close e) [open_data f] s)"

definition iosRead :: "driver_call \<Rightarrow> int \<Rightarrow> addr \<Rightarrow> uint32 \<Rightarrow> ios_state \<Rightarrow> (int \<times> ios_state) option" where
  "iosRead call fd buffer maxbytes s =
     Option.bind (fd_drv fd s) (\<lambda>(f, e). call (de_read e) [open_data f, of_nat buffer, maxbytes] s)"

definition iosWrite :: "driver_call \<Rightarrow> int \<Rightarrow> addr \<Rightarrow> uint32 \<Rightarrow> ios_state \<Rightarrow> (int \<times> ios_state) option" where
  "iosWrite call fd buffer nbytes s =
     Option.bind (fd_drv fd s) (\<lambda>(f, e). call (de_write e) [open_data f, of_nat buffer, nbytes] s)"

definition iosIoctl :: "driver_call \<Rightarrow> int \<Rightarrow> uint32 \<Rightarrow> uint32 \<Rightarrow> ios_state \<Rightarrow> (int \<times> ios_state) option" where
  "iosIoctl call fd cmd arg s =
     Option.bind (fd_drv fd s) (\<lambda>(f, e). call (de_ioctl e) [open_data f, cmd, arg] s)"

definition iosGetOpenData :: "int \<Rightarrow> ios_state \<Rightarrow> uint32 option" where
  "iosGetOpenData fd s = map_option open_data (fd_at fd s)"

section \<open>The calls of ioLib.c\<close>

text \<open>\<^verbatim>\<open>iosSaveDevNum\<close> is called with a third argument, \<^verbatim>\<open>open_data\<close>, that it does not have.\<close>

definition io_create_or_open :: "driver_call \<Rightarrow> ptr \<Rightarrow> uint32 \<Rightarrow> uint32 \<Rightarrow> bool \<Rightarrow> ios_state \<Rightarrow> (int \<times> ios_state) option" where
  "io_create_or_open call nm flags mode create s =
     (if (case nm of None \<Rightarrow> True | Some a \<Rightarrow> imem s a = 0) then Some (-1, s)
      else do {
        (fd, s1) \<leftarrow> iosAllocFd s;
        (pDevMatch, file_name, s2) \<leftarrow> iosDevFind nm s1;
        (od, s3) \<leftarrow> (if create then iosCreate call pDevMatch file_name flags s2
                      else iosOpen call pDevMatch file_name flags mode s2);
        if od = -1 then do { (_, s4) \<leftarrow> iosFreeFd fd s3; Some (-1, s4) }
        else do { (_, s4) \<leftarrow> iosSaveDevNum fd pDevMatch s3; Some (fd, s4) }
      })"

definition creat :: "driver_call \<Rightarrow> ptr \<Rightarrow> uint32 \<Rightarrow> ios_state \<Rightarrow> (int \<times> ios_state) option" where
  "creat call nm flag s = io_create_or_open call nm flag 0 True s"

definition io_remove :: "driver_call \<Rightarrow> ptr \<Rightarrow> ios_state \<Rightarrow> (int \<times> ios_state) option" where
  "io_remove call nm s =
     (if (case nm of None \<Rightarrow> True | Some a \<Rightarrow> imem s a = 0) then Some (-1, s)
      else do { (pDevMatch, file_name, s1) \<leftarrow> iosDevFind nm s; iosDelete call pDevMatch file_name s1 })"

definition io_open :: "driver_call \<Rightarrow> ptr \<Rightarrow> uint32 \<Rightarrow> uint32 \<Rightarrow> ios_state \<Rightarrow> (int \<times> ios_state) option" where
  "io_open call nm flags mode s = io_create_or_open call nm flags mode False s"

definition io_close :: "driver_call \<Rightarrow> int \<Rightarrow> ios_state \<Rightarrow> (int \<times> ios_state) option" where
  "io_close call fd s = do { (ret, s1) \<leftarrow> iosClose call fd s; (_, s2) \<leftarrow> iosFreeFd fd s1; Some (ret, s2) }"

definition io_read :: "driver_call \<Rightarrow> int \<Rightarrow> addr \<Rightarrow> uint32 \<Rightarrow> ios_state \<Rightarrow> (int \<times> ios_state) option" where
  "io_read call fd buffer maxbytes s = (if maxbytes = 0 then Some (0, s) else iosRead call fd buffer maxbytes s)"

definition io_write :: "driver_call \<Rightarrow> int \<Rightarrow> addr \<Rightarrow> uint32 \<Rightarrow> ios_state \<Rightarrow> (int \<times> ios_state) option" where
  "io_write call fd buffer nbytes s = iosWrite call fd buffer nbytes s"

definition ioctl :: "driver_call \<Rightarrow> int \<Rightarrow> uint32 \<Rightarrow> uint32 \<Rightarrow> ios_state \<Rightarrow> (int \<times> ios_state) option" where
  "ioctl call fd fn arg s = iosIoctl call fd fn arg s"

declare devMatch_loop.simps [code]

section \<open>Critical sections\<close>

abbreviation ios_free :: "ios_state \<Rightarrow> bool" where
  "ios_free s \<equiv> mux_free (G_ios_dev s) (ikern s)"

lemma ios_locked:
  assumes "ios_free s"
  obtains k1 k3 where "IOS_LOCK s = Some (s\<lparr>ikern := k1\<rparr>)" "kheap k1 = kheap (ikern s)"
    "\<And>s2. ikern s2 = k1 \<Longrightarrow> G_ios_dev s2 = G_ios_dev s \<Longrightarrow> IOS_UNLOCK s2 = Some (s2\<lparr>ikern := k3\<rparr>)"
    "mux_free (G_ios_dev s) k3" "kheap k3 = kheap (ikern s)"
proof -
  obtain k1 where k1: "MUX_LOCK (G_ios_dev s) (ikern s) = Some k1" "mux_data k1 = mux_data (ikern s)"
    "\<And>k2. heap_only k1 k2 \<Longrightarrow> \<exists>k3. MUX_UNLOCK (G_ios_dev s) k2 = Some k3 \<and> mux_free (G_ios_dev s) k3 \<and> mux_data k3 = mux_data k2"
    using mux.enter [OF assms] by blast
  obtain k3 where "MUX_UNLOCK (G_ios_dev s) k1 = Some k3" "mux_free (G_ios_dev s) k3" "mux_data k3 = mux_data k1"
    using k1(3) [OF mux.frame_refl] by blast
  with k1(1,2) show ?thesis by (intro that [of k1 k3]) (auto simp: IOS_LOCK_def IOS_UNLOCK_def mux_data_def)
qed

lemma mux_free_heap [simp]: "mux_free p (k\<lparr>kheap := h\<rparr>) = mux_free p k"
proof -
  have "kernel_ok (k\<lparr>kheap := h\<rparr>) A = kernel_ok k A" for A by (rule kernel_ok_same) simp_all
  then show ?thesis by (simp add: mux_free_def)
qed

section \<open>Descriptors\<close>

declare free_fd_loop.simps [simp del] free_drv_loop.simps [simp del]

lemma free_fd_loop_first:
  "fd \<le> IOS_MAX_FILE_DES \<Longrightarrow> free_fd_loop fd tab \<le> IOS_MAX_FILE_DES \<and> fd \<le> free_fd_loop fd tab \<and>
     (\<forall>i. fd \<le> i \<and> i < free_fd_loop fd tab \<longrightarrow> inuse (tab ! i)) \<and>
     (free_fd_loop fd tab < IOS_MAX_FILE_DES \<longrightarrow> \<not> inuse (tab ! free_fd_loop fd tab))"
proof (induction fd tab rule: free_fd_loop.induct)
  case (1 fd tab)
  show ?case
  proof (cases "fd < IOS_MAX_FILE_DES \<and> inuse (tab ! fd)")
    case True
    have eq: "free_fd_loop fd tab = free_fd_loop (fd + 1) tab" using True by (subst free_fd_loop.simps) (simp only: if_True simp_thms)
    moreover have "inuse (tab ! i)" if "fd \<le> i" "i < free_fd_loop fd tab" for i
      using that 1 True eq by (cases "i = fd") auto
    ultimately show ?thesis using 1 True by auto
  next
    case False
    have "free_fd_loop fd tab = fd" using False by (subst free_fd_loop.simps) (simp only: if_False)
    with False show ?thesis using 1 False by auto
  qed
qed

lemma iosAllocFd_runs:
  assumes "ios_free s"
  shows "\<exists>k. mux_free (G_ios_dev s) k \<and> kheap k = kheap (ikern s) \<and>
     iosAllocFd s = (let fd = free_fd_loop 0 (G_fd_table s) in
       if fd = IOS_MAX_FILE_DES then Some (-1, s\<lparr>ikern := k\<rparr>)
       else Some (int fd, s\<lparr>ikern := k, G_fd_table := (G_fd_table s)[fd := (G_fd_table s ! fd)\<lparr>inuse := True\<rparr>]\<rparr>))"
proof -
  obtain k1 k3 where l: "IOS_LOCK s = Some (s\<lparr>ikern := k1\<rparr>)"
    "\<And>s2. ikern s2 = k1 \<Longrightarrow> G_ios_dev s2 = G_ios_dev s \<Longrightarrow> IOS_UNLOCK s2 = Some (s2\<lparr>ikern := k3\<rparr>)"
    "mux_free (G_ios_dev s) k3" "kheap k3 = kheap (ikern s)"
    using ios_locked [OF assms] by metis
  then show ?thesis by (intro exI [of _ k3]) (simp add: iosAllocFd_def Let_def)
qed

lemma iosFreeFd_runs:
  assumes "ios_free s" and "0 \<le> fd" and "fd < int IOS_MAX_FILE_DES"
  shows "\<exists>k. mux_free (G_ios_dev s) k \<and> kheap k = kheap (ikern s) \<and>
     iosFreeFd fd s = Some (OS_STATUS_OK, s\<lparr>ikern := k, G_fd_table := (G_fd_table s)[nat fd := (G_fd_table s ! nat fd)\<lparr>inuse := False\<rparr>]\<rparr>)"
proof -
  obtain k1 k3 where l: "IOS_LOCK s = Some (s\<lparr>ikern := k1\<rparr>)"
    "\<And>s2. ikern s2 = k1 \<Longrightarrow> G_ios_dev s2 = G_ios_dev s \<Longrightarrow> IOS_UNLOCK s2 = Some (s2\<lparr>ikern := k3\<rparr>)"
    "mux_free (G_ios_dev s) k3" "kheap k3 = kheap (ikern s)"
    using ios_locked [OF assms(1)] by metis
  then show ?thesis using assms(2,3) by (intro exI [of _ k3]) (simp add: iosFreeFd_def)
qed

section \<open>The best match\<close>

fun best_match :: "(addr \<Rightarrow> uint8 list) \<Rightarrow> uint8 list \<Rightarrow> ptr \<times> nat \<Rightarrow> addr list \<Rightarrow> ptr \<times> nat" where
  "best_match N ys (b, k) [] = (b, k)"
| "best_match N ys (b, k) (d # ds) =
     best_match N ys (if prefix (N d) ys \<and> k < length (N d) then (Some d, length (N d)) else (b, k)) ds"

lemma strncmp_prefix: "cstr m p xs \<Longrightarrow> cstr m q ys \<Longrightarrow> strncmp p q (length xs) m = 0 \<longleftrightarrow> prefix xs ys"
proof -
  assume c: "cstr m p xs" "cstr m q ys"
  have z: "0 \<notin> set xs" "0 \<notin> set (take (length xs) ys)" using c cstr_no0 by (auto dest: in_set_takeD)
  have "strncmp p q (length xs) m = 0 \<longleftrightarrow> xs = take (length xs) ys"
    using strncmp_loop_cstr [OF c, of "length xs"] cmp_bytes_0 [OF z] by (auto simp: strncmp_def)
  also have "\<dots> \<longleftrightarrow> prefix xs ys" by (metis take_is_prefix append_eq_conv_conj prefix_def)
  finally show ?thesis .
qed

lemma devMatch_loop_best:
  "links (nodes (dev_mem s)) p ds None \<Longrightarrow> (\<forall>d \<in> set ds. cstr (imem s) (dh_name (dev_hdrs s d)) (N d)) \<Longrightarrow> cstr (imem s) a ys \<Longrightarrow>
     devMatch_loop (first ds) a b k s = Some (fst (best_match N ys (b, k) ds))"
proof (induction ds arbitrary: p b k)
  case Nil
  then show ?case by (simp add: devMatch_loop.simps)
next
  case (Cons d ds)
  have IH: "devMatch_loop (first ds) a b k s = Some (fst (best_match N ys (b, k) ds))" for b k
    by (rule Cons.IH [of "Some d"]) (use Cons.prems in simp_all)
  have "DL_NEXT d (dev_mem s) = first ds" using Cons.prems(1) by (simp add: DL_NEXT_def)
  moreover have c: "cstr (imem s) (dh_name (dev_hdrs s d)) (N d)" using Cons.prems(2) by simp
  moreover have "strlen (dh_name (dev_hdrs s d)) (imem s) = Some (length (N d))"
    using strlen_loop_cstr [OF c] by (simp add: strlen_def)
  ultimately show ?case using strncmp_prefix [OF c Cons.prems(3)] IH
    by (simp add: devMatch_loop.simps [of "Some d"])
qed

lemma best_match_longest:
  "case best_match N ys (b, k) ds of (b', k') \<Rightarrow>
     (b' = b \<and> k' = k \<and> (\<forall>d \<in> set ds. prefix (N d) ys \<longrightarrow> length (N d) \<le> k)) \<or>
     (\<exists>d \<in> set ds. b' = Some d \<and> prefix (N d) ys \<and> k' = length (N d) \<and> k < k' \<and>
        (\<forall>e \<in> set ds. prefix (N e) ys \<longrightarrow> length (N e) \<le> k'))"
proof (induction ds arbitrary: b k)
  case (Cons d ds)
  show ?case
  proof (cases "prefix (N d) ys \<and> k < length (N d)")
    case True
    then show ?thesis using Cons.IH [of "Some d" "length (N d)"] by (auto split: prod.splits)
  next
    case False
    then show ?thesis using Cons.IH [of b k] by (auto split: prod.splits)
  qed
qed simp

section \<open>The device table\<close>

text \<open>
  \<open>devs_ok s ds N R\<close>: \<open>ds\<close> are the devices, \<open>N d\<close> the name of the device at \<open>d\<close>, \<open>R\<close> the
  regions of the heap in use. Each name is a string in a region of its own, no two are equal.
\<close>

definition devs_ok :: "ios_state \<Rightarrow> addr list \<Rightarrow> (addr \<Rightarrow> uint8 list) \<Rightarrow> region set \<Rightarrow> bool" where
  "devs_ok s ds N R \<longleftrightarrow>
     ios_free s \<and> length (G_drv_table s) = IOS_MAX_DRIVERS \<and> dl_holds (dev_mem s) (\<lambda>_. ds) \<and>
     heap_uses (kheap (ikern s)) R \<and> inj_on N (set ds) \<and>
     (\<forall>d \<in> set ds. N d \<noteq> [] \<and> cstr (imem s) (dh_name (dev_hdrs s d)) (N d) \<and>
        (\<exists>k t. (dh_name (dev_hdrs s d), k, t) \<in> R \<and> length (N d) < k))"

lemma devs_ok_D:
  assumes "devs_ok s ds N R"
  shows "ios_free s" "length (G_drv_table s) = IOS_MAX_DRIVERS" "dl_holds (dev_mem s) (\<lambda>_. ds)" "heap_uses (kheap (ikern s)) R"
    "inj_on N (set ds)" "d \<in> set ds \<Longrightarrow> N d \<noteq> []" "d \<in> set ds \<Longrightarrow> cstr (imem s) (dh_name (dev_hdrs s d)) (N d)"
    "d \<in> set ds \<Longrightarrow> \<exists>k t. (dh_name (dev_hdrs s d), k, t) \<in> R \<and> length (N d) < k"
  using assms by (auto simp: devs_ok_def)

lemma iosDevMatch_best:
  assumes "dl_holds (dev_mem s) (\<lambda>_. ds)" and "\<And>d. d \<in> set ds \<Longrightarrow> N d \<noteq> [] \<and> cstr (imem s) (dh_name (dev_hdrs s d)) (N d)"
    and "cstr (imem s) a ys"
  shows "case iosDevMatch a s of
     Some None \<Rightarrow> \<forall>d \<in> set ds. \<not> prefix (N d) ys
   | Some (Some b) \<Rightarrow> b \<in> set ds \<and> prefix (N b) ys \<and> (\<forall>d \<in> set ds. prefix (N d) ys \<longrightarrow> length (N d) \<le> length (N b))
   | None \<Rightarrow> False"
proof -
  have rep: "dl_rep (dev_mem s) G_dev_list ds" using assms(1) by (simp add: dl_holds_def)
  have m: "iosDevMatch a s = Some (fst (best_match N ys (None, 0) ds))"
    unfolding iosDevMatch_def DL_FIRST_def dl_rep_D(2) [OF rep]
    by (rule devMatch_loop_best [OF dl_rep_D(4) [OF rep] _ assms(3)]) (use assms(2) in blast)
  obtain b k where bk: "best_match N ys (None, 0) ds = (b, k)" by fastforce
  show ?thesis using best_match_longest [where N = N and ys = ys and b = None and k = 0 and ds = ds] assms(2) by (cases b) (auto simp: m bk)
qed

lemma prefix_same_length: "prefix xs zs \<Longrightarrow> prefix ys zs \<Longrightarrow> length xs = length ys \<Longrightarrow> xs = ys"
  by (metis prefix_length_prefix prefix_order.order_antisym order_refl)

text \<open>The match has the same name exactly when the name is taken.\<close>

lemma match_same_name:
  assumes "dl_holds (dev_mem s) (\<lambda>_. ds)" and N: "\<And>d. d \<in> set ds \<Longrightarrow> N d \<noteq> [] \<and> cstr (imem s) (dh_name (dev_hdrs s d)) (N d)"
    and a: "cstr (imem s) a ys"
  shows "\<exists>b. iosDevMatch a s = Some b \<and>
     (case b of None \<Rightarrow> Some False | Some b \<Rightarrow> map_option (\<lambda>r. r = 0) (strcmp (dh_name (dev_hdrs s b)) a (imem s))) = Some (ys \<in> N ` set ds)"
proof -
  note best = iosDevMatch_best [OF assms]
  then obtain b where b: "iosDevMatch a s = Some b" by (auto split: option.splits)
  show ?thesis
  proof (cases b)
    case None
    then have "ys \<notin> N ` set ds" using best b by auto
    then show ?thesis using b None by auto
  next
    case (Some d)
    then have d: "d \<in> set ds" "prefix (N d) ys" "\<And>e. e \<in> set ds \<Longrightarrow> prefix (N e) ys \<Longrightarrow> length (N e) \<le> length (N d)"
      using best b by auto
    have c: "cstr (imem s) (dh_name (dev_hdrs s d)) (N d)" using N d(1) by blast
    have "N d = ys \<longleftrightarrow> ys \<in> N ` set ds"
    proof
      assume "ys \<in> N ` set ds"
      then obtain e where "e \<in> set ds" "N e = ys" by blast
      then have "length ys \<le> length (N d)" using d(3) [of e] by simp
      then show "N d = ys" using prefix_length_le [OF d(2)] by (intro prefix_same_length [OF d(2)]) auto
    qed (use d in auto)
    then show ?thesis using b Some strcmp_cstr [OF c a] cmp_bytes_0 [OF cstr_no0 [OF c] cstr_no0 [OF a]] by auto
  qed
qed

lemma devs_ok_frame:
  assumes "devs_ok s ds N R" and "dev_mem s' = dev_mem s" and "dev_hdrs s' = dev_hdrs s"
    and "length (G_drv_table s') = length (G_drv_table s)" and "ios_free s'" and "heap_uses (kheap (ikern s')) R'" and "R \<subseteq> R'"
    and same: "\<And>q k t x. (q, k, t) \<in> R \<Longrightarrow> q \<le> x \<Longrightarrow> x < q + k \<Longrightarrow> imem s' x = imem s x"
  shows "devs_ok s' ds N R'"
proof -
  note D = devs_ok_D [OF assms(1)]
  have "cstr (imem s') (dh_name (dev_hdrs s d)) (N d) \<and> (\<exists>k t. (dh_name (dev_hdrs s d), k, t) \<in> R' \<and> length (N d) < k)"
    if d: "d \<in> set ds" for d
  proof -
    obtain k t where r: "(dh_name (dev_hdrs s d), k, t) \<in> R" "length (N d) < k" using D(8) [OF d] by blast
    have "cstr (imem s') (dh_name (dev_hdrs s d)) (N d) = cstr (imem s) (dh_name (dev_hdrs s d)) (N d)"
      by (rule cstr_frame) (use r(2) in \<open>auto intro: same [OF r(1)]\<close>)
    then show ?thesis using D(7) [OF d] r assms(7) by blast
  qed
  then show ?thesis using D assms(2-6) unfolding devs_ok_def by simp
qed

lemma devs_ok_add:
  assumes "devs_ok s ds N R" and "d \<notin> set ds" and "ys \<noteq> []" and "ys \<notin> N ` set ds"
    and "cstr (imem s) (dh_name h) ys" and "(dh_name h, k, t) \<in> R" and "length ys < k"
  shows "devs_ok (s\<lparr>dev_hdrs := (dev_hdrs s)(d := h), dev_mem := dlist_add G_dev_list d (dev_mem s)\<rparr>) (ds @ [d]) (N(d := ys)) R"
proof -
  note D = devs_ok_D [OF assms(1)]
  have "(\<lambda>_. ds)(G_dev_list := ds @ [d]) = (\<lambda>_. ds @ [d])" by (rule ext) (metis dev_list.exhaust fun_upd_apply)
  then have "dl_holds (dlist_add G_dev_list d (dev_mem s)) (\<lambda>_. ds @ [d])"
    using dl.add_law [OF D(3), of d G_dev_list] assms(2) by simp
  moreover have "inj_on (N(d := ys)) (set (ds @ [d]))"
    using D(5) assms(2,4) by (auto simp: inj_on_def)
  moreover have "e \<noteq> d" if "e \<in> set ds" for e using that assms(2) by blast
  ultimately show ?thesis using D assms(3-7) unfolding devs_ok_def by auto
qed

lemma iosDevAdd_ok:
  assumes ok: "devs_ok s ds N R"
    and a: "cstr (imem s) a ys" "ys \<noteq> []" "length ys + 4 < 2 ^ 32" and d: "d \<notin> set ds"
    and n: "0 \<le> n" "n < int IOS_MAX_DRIVERS" "de_inuse (G_drv_table s ! nat n)"
    and m: "kmalloc (of_nat (length ys) + 1) (ikern s) = Some (p, k1)" and apart: "a + length ys < p \<or> p + length ys < a"
  shows "\<exists>s' k t. iosDevAdd (Some d) (Some a) n s = Some (if ys \<in> N ` set ds then OS_STATUS_ERROR else OS_STATUS_OK, s') \<and>
     (if ys \<in> N ` set ds then devs_ok s' ds N R
      else devs_ok s' (ds @ [d]) (N(d := ys)) (insert (p, k, t) R) \<and> dev_hdrs s' d = \<lparr>dh_drv_num = n, dh_name = p, drvRefCount = 0, drvRefFlag = 0\<rparr>) \<and>
     G_fd_table s' = G_fd_table s \<and> G_drv_table s' = G_drv_table s \<and> imem s' = put_bytes p (ys @ [0]) (imem s)"
proof -
  note D = devs_ok_D [OF ok]
  let ?t = "G_p_current_tcb (ikern s)"
  obtain h where h: "malloc (of_nat (length ys) + 1) ?t (kheap (ikern s)) = Some (p, h)" "k1 = (ikern s)\<lparr>kheap := h\<rparr>"
    using m by (auto simp: kmalloc_def)
  have u: "unat (of_nat (length ys) + 1 :: uint32) = length ys + 1" using a(3) unat_of_nat32 [of "length ys + 1"] by (simp add: add.commute)
  obtain k where k: "length ys + 1 \<le> k" "heap_uses h (insert (p, k, ?t) R)" "(p, k, ?t) \<notin> R" "\<And>r. r \<in> R \<Longrightarrow> apart (p, k, ?t) r"
    using hp.alloc_law [OF D(4) h(1)] u a(3) by auto
  define m1 where "m1 = put_bytes p (ys @ [0]) (imem s)"
  define s1 where "s1 = s\<lparr>ikern := k1\<lparr>kheap := h\<lparr>bytes := m1\<rparr>\<rparr>\<rparr>"
  have im1: "imem s1 = m1" "ios_free s1" "G_ios_dev s1 = G_ios_dev s" using D(1) by (simp_all add: s1_def h(2))
  have k1h: "kheap k1 = h" "dev_hdrs s1 = dev_hdrs s" "dev_mem s1 = dev_mem s" by (simp_all add: h(2) s1_def)
  have sc: "strcpy p a (bytes h) = Some (p, m1)"
    using strcpy_loop_cstr [OF a(1), of p] apart malloc_bytes [OF h(1)] by (auto simp: strcpy_def m1_def)
  have ca: "cstr m1 a ys" unfolding m1_def using a(1) apart by (subst cstr_frame [of _ _ _ "imem s"]) (auto intro!: put_bytes_other)
  have cp: "cstr m1 p ys" unfolding m1_def using cstr_no0 [OF a(1)] by (rule cstr_put)
  have same: "m1 x = imem s x" if "(q, j, t) \<in> R" "q \<le> x" "x < q + j" for q j t x
    unfolding m1_def using k(1,4) that by (intro put_bytes_other) (fastforce simp: apart_def)
  have ok1: "devs_ok s1 ds N (insert (p, k, ?t) R)"
    using ok by (rule devs_ok_frame) (use k(2) same im1 in \<open>auto simp: s1_def h(2)\<close>)
  obtain k2 k3 where l: "IOS_LOCK s1 = Some (s1\<lparr>ikern := k2\<rparr>)" "kheap k2 = kheap (ikern s1)"
    "\<And>s2. ikern s2 = k2 \<Longrightarrow> G_ios_dev s2 = G_ios_dev s1 \<Longrightarrow> IOS_UNLOCK s2 = Some (s2\<lparr>ikern := k3\<rparr>)"
    "mux_free (G_ios_dev s1) k3" "kheap k3 = kheap (ikern s1)"
    using ios_locked [OF im1(2)] by metis
  let ?s2 = "s1\<lparr>ikern := k2\<rparr>" and ?s3 = "s1\<lparr>ikern := k3\<rparr>"
  have im2: "imem ?s2 = m1" using l(2) im1(1) by simp
  obtain b where b: "iosDevMatch a ?s2 = Some b"
    "(case b of None \<Rightarrow> Some False | Some b \<Rightarrow> map_option (\<lambda>r. r = 0) (strcmp (dh_name (dev_hdrs ?s2 b)) a (imem ?s2))) = Some (ys \<in> N ` set ds)"
    using match_same_name [of ?s2 ds N a ys] devs_ok_D(3,6,7) [OF ok1] ca im1(1) im2 by auto
  have ok3: "devs_ok ?s3 ds N (insert (p, k, ?t) R)"
    using ok1 by (rule devs_ok_frame) (use l(4,5) k(2) in \<open>auto simp: s1_def\<close>)
  have a0: "imem s a \<noteq> 0" using a(1,2) by (cases ys) auto
  have "strlen a (imem s) = Some (length ys)" using strlen_loop_cstr [OF a(1)] by (simp add: strlen_def)
  then have step: "iosDevAdd (Some d) (Some a) n s =
     (if ys \<in> N ` set ds
      then Option.bind (kfree p k3) (\<lambda>k. Some (OS_STATUS_ERROR, ?s3\<lparr>ikern := k\<rparr>))
      else Some (OS_STATUS_OK, ?s3\<lparr>dev_hdrs := (dev_hdrs s)(d := \<lparr>dh_drv_num = n, dh_name = p, drvRefCount = 0, drvRefFlag = 0\<rparr>),
                                 dev_mem := dlist_add G_dev_list d (dev_mem s)\<rparr>))"
    using n a0 m sc b l(1,3) k1h
    by (simp add: iosDevAdd_def s1_def [symmetric] cong del: option.case_cong)
  show ?thesis
  proof (cases "ys \<in> N ` set ds")
    case True
    obtain h' where h': "free p (kheap k3) = Some h'" "heap_uses h' (insert (p, k, ?t) R - {(p, k, ?t)})"
      using hp.dealloc_law [OF devs_ok_D(4) [OF ok3], of p k ?t] by auto
    have "devs_ok (?s3\<lparr>ikern := k3\<lparr>kheap := h'\<rparr>\<rparr>) ds N R"
      using ok by (rule devs_ok_frame) (use h'(2) k(3) l(4,5) im1 same free_bytes [OF h'(1)] in \<open>auto simp: s1_def h(2)\<close>)
    moreover have "bytes h' = m1" using free_bytes [OF h'(1)] l(5) im1(1) by simp
    ultimately show ?thesis using step True h'(1) by (auto simp: kfree_def s1_def m1_def)
  next
    case False
    have "devs_ok (?s3\<lparr>dev_hdrs := (dev_hdrs ?s3)(d := \<lparr>dh_drv_num = n, dh_name = p, drvRefCount = 0, drvRefFlag = 0\<rparr>),
                      dev_mem := dlist_add G_dev_list d (dev_mem ?s3)\<rparr>) (ds @ [d]) (N(d := ys)) (insert (p, k, ?t) R)"
      by (rule devs_ok_add [OF ok3 d a(2) False, where k = k and t = ?t]) (use cp k(1) l(5) im1(1) in auto)
    moreover have "imem ?s3 = m1" using l(5) im1(1) by simp
    ultimately show ?thesis using step False by (auto simp: s1_def m1_def)
  qed
qed

lemma devs_ok_kernel:
  assumes "devs_ok s ds N R" and "mux_free (G_ios_dev s) k" and "kheap k = kheap (ikern s)"
  shows "devs_ok (s\<lparr>ikern := k, G_fd_table := tab\<rparr>) ds N R"
  by (rule devs_ok_frame [OF assms(1)]) (use assms devs_ok_D(4) [OF assms(1)] in auto)

lemma iosDevFind_ok:
  assumes ok: "devs_ok s ds N R" and a: "cstr (imem s) a ys" "ys \<noteq> []"
  shows "\<exists>b k. mux_free (G_ios_dev s) k \<and> kheap k = kheap (ikern s) \<and>
     iosDevFind (Some a) s = Some (b, map_option (\<lambda>d. a + length (N d)) b, s\<lparr>ikern := k\<rparr>) \<and>
     (case b of None \<Rightarrow> \<forall>d \<in> set ds. \<not> prefix (N d) ys
      | Some d \<Rightarrow> d \<in> set ds \<and> prefix (N d) ys \<and> (\<forall>e \<in> set ds. prefix (N e) ys \<longrightarrow> e = d \<or> length (N e) < length (N d)))"
proof -
  note D = devs_ok_D [OF ok]
  obtain k1 k3 where l: "IOS_LOCK s = Some (s\<lparr>ikern := k1\<rparr>)" "kheap k1 = kheap (ikern s)"
    "\<And>s2. ikern s2 = k1 \<Longrightarrow> G_ios_dev s2 = G_ios_dev s \<Longrightarrow> IOS_UNLOCK s2 = Some (s2\<lparr>ikern := k3\<rparr>)"
    "mux_free (G_ios_dev s) k3" "kheap k3 = kheap (ikern s)"
    using ios_locked [OF D(1)] by metis
  let ?s1 = "s\<lparr>ikern := k1\<rparr>"
  have N: "N d \<noteq> [] \<and> cstr (imem ?s1) (dh_name (dev_hdrs ?s1 d)) (N d)" if "d \<in> set ds" for d
    using D(6,7) [OF that] l(2) by simp
  have best: "case iosDevMatch a ?s1 of
     Some None \<Rightarrow> \<forall>d \<in> set ds. \<not> prefix (N d) ys
   | Some (Some b) \<Rightarrow> b \<in> set ds \<and> prefix (N b) ys \<and> (\<forall>d \<in> set ds. prefix (N d) ys \<longrightarrow> length (N d) \<le> length (N b))
   | None \<Rightarrow> False"
    by (rule iosDevMatch_best) (use D(3) N a l(2) in auto)
  then obtain b where b: "iosDevMatch a ?s1 = Some b" by (auto split: option.splits)
  have a0: "imem s a \<noteq> 0" using a by (cases ys) auto
  have tail: "strlen (dh_name (dev_hdrs s d)) (imem s) = Some (length (N d))" if "d \<in> set ds" for d
    using strlen_loop_cstr [OF D(7) [OF that]] by (simp add: strlen_def)
  have uniq: "e = d \<or> length (N e) < length (N d)"
    if "d \<in> set ds" "prefix (N d) ys" "\<forall>e \<in> set ds. prefix (N e) ys \<longrightarrow> length (N e) \<le> length (N d)" "e \<in> set ds" "prefix (N e) ys" for d e
    using that prefix_same_length [of "N e" ys "N d"] inj_onD [OF D(5), of e d] by (auto simp: le_less)
  have "iosDevFind (Some a) s = Some (b, map_option (\<lambda>d. a + length (N d)) b, s\<lparr>ikern := k3\<rparr>)"
    using l(1-3) b a0 tail best by (auto simp: iosDevFind_def split: option.splits)
  then show ?thesis using l(4,5) best b uniq by (intro exI [of _ b] exI [of _ k3]) (auto split: option.splits)
qed

section \<open>An example\<close>

text \<open>Driver 0 is installed, \<^verbatim>\<open>/a/b\<close> is at 200 and \<^verbatim>\<open>/a\<close> at 210; no device yet.\<close>

definition ios_demo :: ios_state where
  "ios_demo = \<lparr>G_fd_table = replicate 50 \<lparr>fd_drv_num = 0, open_data = 7, inuse = False\<rparr>,
     G_drv_table = \<lparr>de_create = 1, de_delete = 2, de_open = 3, de_close = 4, de_read = 5, de_write = 6, de_ioctl = 7, de_inuse = True\<rparr> #
       replicate 49 \<lparr>de_create = 0, de_delete = 0, de_open = 0, de_close = 0, de_read = 0, de_write = 0, de_ioctl = 0, de_inuse = False\<rparr>,
     dev_mem = \<lparr>nodes = (\<lambda>_. \<lparr>dl_next = None, dl_previous = None\<rparr>), lists = (\<lambda>_. \<lparr>dl_head = None, dl_tail = None\<rparr>)\<rparr>,
     dev_hdrs = (\<lambda>_. \<lparr>dh_drv_num = 0, dh_name = 0, drvRefCount = 0, drvRefFlag = 0\<rparr>), G_ios_dev = 3000,
     ikern = demo\<lparr>kheap := fresh_heap\<lparr>bytes :=
       (\<lambda>_. 0)(200 := 47, 201 := 97, 202 := 47, 203 := 98, 210 := 47, 211 := 97)\<rparr>\<rparr>\<rparr>"

lemma ios_demo_ok: "devs_ok ios_demo [] N {}"
proof -
  have "mux_free 3000 demo"
    unfolding mux_free_def using demo_ok by (intro exI [of _ demo_queues] exI [of _ 100]) (simp add: demo_queues_def empty_kernel_def)
  moreover have "heap_uses fresh_heap {}"
    using fresh_heap_holds by (auto simp: heap_uses_def whole_def intro!: exI [of _ "[Blk 0x4ffffec False None]"])
  ultimately show ?thesis by (simp add: devs_ok_def ios_demo_def dl_holds_def dl_rep_def)
qed

lemma ios_demo_malloc: "\<exists>k. kmalloc 3 (ikern ios_demo) = Some (0x51000014, k)"
proof -
  have "heap_holds (kheap (ikern ios_demo)) whole" using fresh_heap_holds by (simp add: ios_demo_def heap_holds_def)
  then show ?thesis
    using malloc_refines_fit [of "kheap (ikern ios_demo)" "[]" "Blk 0x4ffffec False None" "[]" 3 "G_p_current_tcb (ikern ios_demo)"]
    by (auto simp: kmalloc_def whole_def fits_def align_up_nat)
qed

lemma ios_demo_names: "cstr (imem ios_demo) 200 [47, 97, 47, 98]" "cstr (imem ios_demo) 210 [47, 97]"
  by (simp_all add: ios_demo_def)

section \<open>Properties\<close>

text \<open>C20: \<^verbatim>\<open>iosDevAdd\<close> with a valid driver number: when some device has that name already the
  call fails, the copy of the name is given back to the heap and the devices are as before;
  otherwise the device is appended with its own copy of the name. The names of the devices
  stay distinct, each in a region of the heap of its own, and the lock is free again.\<close>

theorem iosDevAdd_unique:
  assumes "devs_ok s ds N R" and "cstr (imem s) a ys" and "ys \<noteq> []" and "length ys + 4 < 2 ^ 32" and "d \<notin> set ds"
    and "0 \<le> n" and "n < int IOS_MAX_DRIVERS" and "de_inuse (G_drv_table s ! nat n)"
    and "kmalloc (of_nat (length ys) + 1) (ikern s) = Some (p, k1)" and "a + length ys < p \<or> p + length ys < a"
  shows "\<exists>s' k t. iosDevAdd (Some d) (Some a) n s = Some (if ys \<in> N ` set ds then OS_STATUS_ERROR else OS_STATUS_OK, s') \<and>
     (if ys \<in> N ` set ds then devs_ok s' ds N R
      else devs_ok s' (ds @ [d]) (N(d := ys)) (insert (p, k, t) R) \<and>
           dev_hdrs s' d = \<lparr>dh_drv_num = n, dh_name = p, drvRefCount = 0, drvRefFlag = 0\<rparr>)"
  using iosDevAdd_ok [OF assms] by blast

theorem iosDevAdd_unique_witness:
  "\<exists>s' N R. iosDevAdd (Some 600) (Some 210) 0 ios_demo = Some (OS_STATUS_OK, s') \<and> devs_ok s' [600] N R"
proof -
  obtain k where "kmalloc (of_nat (length [47, 97 :: uint8]) + 1) (ikern ios_demo) = Some (0x51000014, k)"
    using ios_demo_malloc by auto
  from iosDevAdd_unique [OF ios_demo_ok ios_demo_names(2) _ _ _ _ _ _ this, of 600 0 "\<lambda>_. []"] show ?thesis
    by (auto simp: ios_demo_def)
qed

text \<open>C21: \<^verbatim>\<open>iosDevFind\<close> returns the device with the longest name that is an initial part of the
  path (there is only one) and, through \<^verbatim>\<open>pNameTail\<close>, the address of the rest of the path;
  \<^verbatim>\<open>NULL\<close> exactly when no name fits. The table of devices is unchanged.\<close>

theorem iosDevFind_longest:
  assumes "devs_ok s ds N R" and "cstr (imem s) a ys" and "ys \<noteq> []"
  shows "\<exists>b s'. iosDevFind (Some a) s = Some (b, map_option (\<lambda>d. a + length (N d)) b, s') \<and> devs_ok s' ds N R \<and>
     (case b of
        None \<Rightarrow> \<forall>d \<in> set ds. \<not> prefix (N d) ys
      | Some d \<Rightarrow> d \<in> set ds \<and> (\<exists>zs. ys = N d @ zs \<and> cstr (imem s') (a + length (N d)) zs) \<and>
                 (\<forall>e \<in> set ds. prefix (N e) ys \<longrightarrow> e = d \<or> length (N e) < length (N d)))"
proof -
  obtain b k where k: "mux_free (G_ios_dev s) k" "kheap k = kheap (ikern s)"
    and f: "iosDevFind (Some a) s = Some (b, map_option (\<lambda>d. a + length (N d)) b, s\<lparr>ikern := k\<rparr>)"
    and b: "case b of None \<Rightarrow> \<forall>d \<in> set ds. \<not> prefix (N d) ys
      | Some d \<Rightarrow> d \<in> set ds \<and> prefix (N d) ys \<and> (\<forall>e \<in> set ds. prefix (N e) ys \<longrightarrow> e = d \<or> length (N e) < length (N d))"
    using iosDevFind_ok [OF assms] by (elim exE conjE) (rule that)
  have "devs_ok (s\<lparr>ikern := k\<rparr>) ds N R" using devs_ok_kernel [OF assms(1) k, of "G_fd_table s"] by simp
  moreover have "\<exists>zs. ys = N d @ zs \<and> cstr (imem (s\<lparr>ikern := k\<rparr>)) (a + length (N d)) zs" if "prefix (N d) ys" for d
  proof -
    obtain zs where "ys = N d @ zs" using \<open>prefix (N d) ys\<close> by (auto simp: prefix_def)
    then show ?thesis using assms(2) k(2) by (auto simp: cstr_append)
  qed
  ultimately show ?thesis using f b by (intro exI [of _ b] exI [of _ "s\<lparr>ikern := k\<rparr>"]) (cases b; simp)
qed

text \<open>The example with the device \<^verbatim>\<open>/a\<close> at 600.\<close>

lemma ios_demo_added:
  obtains s R where "iosDevAdd (Some 600) (Some 210) 0 ios_demo = Some (OS_STATUS_OK, s)"
    "devs_ok s [600] ((\<lambda>_. [])(600 := [47, 97])) R" "cstr (imem s) 200 [47, 97, 47, 98]" "dh_drv_num (dev_hdrs s 600) = 0"
    "G_fd_table s = G_fd_table ios_demo" "G_drv_table s = G_drv_table ios_demo"
proof -
  obtain k where k: "kmalloc (of_nat (length [47, 97 :: uint8]) + 1) (ikern ios_demo) = Some (0x51000014, k)"
    using ios_demo_malloc by auto
  have u: "de_inuse (G_drv_table ios_demo ! nat 0)" by (simp add: ios_demo_def)
  obtain s j t where s: "iosDevAdd (Some 600) (Some 210) 0 ios_demo = Some (OS_STATUS_OK, s)"
    "devs_ok s ([] @ [600]) ((\<lambda>_. [])(600 := [47, 97])) (insert (0x51000014, j, t) {})"
    "dev_hdrs s 600 = \<lparr>dh_drv_num = 0, dh_name = 0x51000014, drvRefCount = 0, drvRefFlag = 0\<rparr>"
    "G_fd_table s = G_fd_table ios_demo" "G_drv_table s = G_drv_table ios_demo"
    "imem s = put_bytes 0x51000014 ([47, 97] @ [0]) (imem ios_demo)"
    using iosDevAdd_ok [OF ios_demo_ok ios_demo_names(2) _ _ _ _ _ u k, of 600 "\<lambda>_. []"] by auto
  have "cstr (imem s) 200 [47, 97, 47, 98] = cstr (imem ios_demo) 200 [47, 97, 47, 98]"
    unfolding s(6) by (rule cstr_frame) (simp add: put_bytes_other)
  then have c: "cstr (imem s) 200 [47, 97, 47, 98]" using ios_demo_names(1) by simp
  have d: "devs_ok s [600] ((\<lambda>_. [])(600 := [47, 97])) (insert (0x51000014, j, t) {})" using s(2) by simp
  show ?thesis using s(1) d c _ s(4,5) by (rule that) (simp add: s(3))
qed

theorem iosDevFind_longest_witness:
  "\<exists>s s' s''. iosDevAdd (Some 600) (Some 210) 0 ios_demo = Some (OS_STATUS_OK, s) \<and>
     iosDevFind (Some 200) s = Some (Some 600, Some 202, s')"
proof -
  obtain s R where s: "iosDevAdd (Some 600) (Some 210) 0 ios_demo = Some (OS_STATUS_OK, s)"
    "devs_ok s [600] ((\<lambda>_. [])(600 := [47, 97])) R" "cstr (imem s) 200 [47, 97, 47, 98]"
    by (rule ios_demo_added)
  from iosDevFind_longest [OF s(2,3)] s(1) show ?thesis by (auto split: option.splits)
qed

text \<open>\<^verbatim>\<open>iosAllocFd\<close> hands out the lowest free descriptor and marks it, or returns -1 when all
  fifty are in use; \<^verbatim>\<open>iosFreeFd\<close> of the descriptor restores the table. The lock is free after
  each call.\<close>

theorem iosAllocFd_lowest:
  assumes "ios_free s" and "length (G_fd_table s) = IOS_MAX_FILE_DES"
  shows "\<exists>fd s1. iosAllocFd s = Some (fd, s1) \<and> ios_free s1 \<and>
     (if fd = -1 then (\<forall>e \<in> set (G_fd_table s). inuse e) \<and> G_fd_table s1 = G_fd_table s
      else 0 \<le> fd \<and> fd < int IOS_MAX_FILE_DES \<and> \<not> inuse (G_fd_table s ! nat fd) \<and> inuse (G_fd_table s1 ! nat fd) \<and>
        (\<forall>i < nat fd. inuse (G_fd_table s ! i)) \<and>
        (\<exists>s2. iosFreeFd fd s1 = Some (OS_STATUS_OK, s2) \<and> ios_free s2 \<and> G_fd_table s2 = G_fd_table s))"
proof -
  let ?n = "free_fd_loop 0 (G_fd_table s)"
  have n: "?n \<le> IOS_MAX_FILE_DES" "\<And>i. i < ?n \<Longrightarrow> inuse (G_fd_table s ! i)" "?n < IOS_MAX_FILE_DES \<Longrightarrow> \<not> inuse (G_fd_table s ! ?n)"
    using free_fd_loop_first [of 0 "G_fd_table s"] by auto
  obtain k where k: "mux_free (G_ios_dev s) k"
    "iosAllocFd s = (if ?n = IOS_MAX_FILE_DES then Some (-1, s\<lparr>ikern := k\<rparr>)
       else Some (int ?n, s\<lparr>ikern := k, G_fd_table := (G_fd_table s)[?n := (G_fd_table s ! ?n)\<lparr>inuse := True\<rparr>]\<rparr>))"
    using iosAllocFd_runs [OF assms(1)] by (auto simp: Let_def)
  show ?thesis
  proof (cases "?n = IOS_MAX_FILE_DES")
    case True
    then have "\<forall>e \<in> set (G_fd_table s). inuse e" using n(2) assms(2) by (auto simp: in_set_conv_nth)
    then show ?thesis using k True by simp
  next
    case False
    then have lt: "?n < IOS_MAX_FILE_DES" using n(1) by simp
    let ?s1 = "s\<lparr>ikern := k, G_fd_table := (G_fd_table s)[?n := (G_fd_table s ! ?n)\<lparr>inuse := True\<rparr>]\<rparr>"
    obtain k2 where k2: "mux_free (G_ios_dev s) k2"
      "iosFreeFd (int ?n) ?s1 = Some (OS_STATUS_OK, ?s1\<lparr>ikern := k2, G_fd_table :=
         (G_fd_table ?s1)[?n := (G_fd_table ?s1 ! ?n)\<lparr>inuse := False\<rparr>]\<rparr>)"
      using iosFreeFd_runs [of ?s1 "int ?n"] k(1) lt by auto
    have "(G_fd_table s)[?n := (G_fd_table s ! ?n)\<lparr>inuse := False\<rparr>] = G_fd_table s"
      using n(3) [OF lt] by (intro list_update_same_conv [THEN iffD2]) (simp_all add: lt assms(2))
    then show ?thesis using k k2 n lt assms(2) by simp
  qed
qed

theorem iosAllocFd_lowest_witness:
  "\<exists>s1 s2. iosAllocFd ios_demo = Some (0, s1) \<and> iosFreeFd 0 s1 = Some (OS_STATUS_OK, s2) \<and> G_fd_table s2 = G_fd_table ios_demo"
proof -
  have "ios_free ios_demo" "length (G_fd_table ios_demo) = 50" "\<exists>e \<in> set (G_fd_table ios_demo). \<not> inuse e"
    "\<not> inuse (G_fd_table ios_demo ! 0)"
    using devs_ok_D(1) [OF ios_demo_ok] by (simp_all add: ios_demo_def)
  note d = this
  obtain fd s1 where f: "iosAllocFd ios_demo = Some (fd, s1)"
    "if fd = -1 then (\<forall>e \<in> set (G_fd_table ios_demo). inuse e) \<and> G_fd_table s1 = G_fd_table ios_demo
      else 0 \<le> fd \<and> fd < int IOS_MAX_FILE_DES \<and> \<not> inuse (G_fd_table ios_demo ! nat fd) \<and> inuse (G_fd_table s1 ! nat fd) \<and>
        (\<forall>i < nat fd. inuse (G_fd_table ios_demo ! i)) \<and>
        (\<exists>s2. iosFreeFd fd s1 = Some (OS_STATUS_OK, s2) \<and> ios_free s2 \<and> G_fd_table s2 = G_fd_table ios_demo)"
    using iosAllocFd_lowest [OF d(1,2)] by (elim exE conjE) (rule that)
  have "fd \<noteq> -1" using f(2) d(3) by auto
  moreover have "nat fd = 0"
  proof (rule ccontr)
    assume "nat fd \<noteq> 0"
    then have "inuse (G_fd_table ios_demo ! 0)" using f(2) \<open>fd \<noteq> -1\<close> by auto
    then show False using d(4) by simp
  qed
  ultimately show ?thesis using f by auto
qed

text \<open>
  A driver that leaves the tables alone: the routine at \<open>f\<close> returns \<open>r f args\<close>.
\<close>

definition pure_driver :: "(DRV_FUNC_PTR \<Rightarrow> uint32 list \<Rightarrow> int) \<Rightarrow> driver_call" where
  "pure_driver r f args s = Some (r f args, s)"

lemma fd_at_nat [simp]: "fd_at (int n) s = (if n < length (G_fd_table s) then Some (G_fd_table s ! n) else None)"
  by (simp add: fd_at_def)

lemma free_fd_found:
  assumes "length tab = IOS_MAX_FILE_DES" and "\<exists>e \<in> set tab. \<not> inuse e"
  shows "free_fd_loop 0 tab < IOS_MAX_FILE_DES \<and> \<not> inuse (tab ! free_fd_loop 0 tab)"
proof -
  have f: "free_fd_loop 0 tab \<le> IOS_MAX_FILE_DES" "\<And>i. i < free_fd_loop 0 tab \<Longrightarrow> inuse (tab ! i)"
    "free_fd_loop 0 tab < IOS_MAX_FILE_DES \<Longrightarrow> \<not> inuse (tab ! free_fd_loop 0 tab)"
    using free_fd_loop_first [of 0 tab] by auto
  obtain i where "i < length tab" "\<not> inuse (tab ! i)" using assms(2) by (auto simp: in_set_conv_nth)
  then have "free_fd_loop 0 tab \<noteq> IOS_MAX_FILE_DES" using f(2) [of i] assms(1) by auto
  then show ?thesis using f by auto
qed

text \<open>The first two steps of \<^verbatim>\<open>open\<close>: a descriptor is taken, the device is found.\<close>

lemma alloc_and_find:
  assumes ok: "devs_ok s ds N R" and "length (G_fd_table s) = IOS_MAX_FILE_DES" and "\<exists>e \<in> set (G_fd_table s). \<not> inuse e"
    and "cstr (imem s) a ys" and "ys \<noteq> []" and "\<exists>d \<in> set ds. prefix (N d) ys"
  defines "fd \<equiv> free_fd_loop 0 (G_fd_table s)"
  defines "tab \<equiv> (G_fd_table s)[fd := (G_fd_table s ! fd)\<lparr>inuse := True\<rparr>]"
  shows "\<exists>k1 k2 d. mux_free (G_ios_dev s) k2 \<and> kheap k2 = kheap (ikern s)
    \<and> iosAllocFd s = Some (int fd, s\<lparr>ikern := k1, G_fd_table := tab\<rparr>)
    \<and> iosDevFind (Some a) (s\<lparr>ikern := k1, G_fd_table := tab\<rparr>) = Some (Some d, Some (a + length (N d)), s\<lparr>ikern := k2, G_fd_table := tab\<rparr>)
    \<and> d \<in> set ds \<and> prefix (N d) ys"
proof -
  have fd: "fd < IOS_MAX_FILE_DES" unfolding fd_def using free_fd_found [OF assms(2,3)] by simp
  obtain k1 where k1: "mux_free (G_ios_dev s) k1" "kheap k1 = kheap (ikern s)"
    "iosAllocFd s = Some (int fd, s\<lparr>ikern := k1, G_fd_table := tab\<rparr>)"
    using iosAllocFd_runs [OF devs_ok_D(1) [OF ok]] fd by (auto simp: Let_def fd_def tab_def)
  let ?s1 = "s\<lparr>ikern := k1, G_fd_table := tab\<rparr>"
  have ok1: "devs_ok ?s1 ds N R" by (rule devs_ok_kernel [OF ok k1(1,2)])
  have c1: "cstr (imem ?s1) a ys" using assms(4) k1(2) by simp
  obtain b k2 where k2: "mux_free (G_ios_dev s) k2" "kheap k2 = kheap k1"
    and f: "iosDevFind (Some a) ?s1 = Some (b, map_option (\<lambda>d. a + length (N d)) b, ?s1\<lparr>ikern := k2\<rparr>)"
    and b: "case b of None \<Rightarrow> \<forall>d \<in> set ds. \<not> prefix (N d) ys
      | Some d \<Rightarrow> d \<in> set ds \<and> prefix (N d) ys \<and> (\<forall>e \<in> set ds. prefix (N e) ys \<longrightarrow> e = d \<or> length (N e) < length (N d))"
    using iosDevFind_ok [OF ok1 c1 assms(5)] by auto
  then obtain d where d: "b = Some d" "d \<in> set ds" "prefix (N d) ys" using assms(6) by (cases b) auto
  show ?thesis using k1 k2 f d by (intro exI [of _ k1] exI [of _ k2] exI [of _ d]) simp
qed

text \<open>C22: \<^verbatim>\<open>open\<close> of a path on some device takes the lowest free descriptor and calls the open
  routine of the device's driver with the rest of the path. When that routine fails, the
  result is -1 and the descriptor is free again. When it succeeds, the value it returned is
  not kept: a \<^verbatim>\<open>read\<close> through the new descriptor passes whatever the table slot held before.\<close>

theorem io_open_drops_open_data:
  assumes "devs_ok s ds N R" and "length (G_fd_table s) = IOS_MAX_FILE_DES" and "\<exists>e \<in> set (G_fd_table s). \<not> inuse e"
    and "cstr (imem s) a ys" and "ys \<noteq> []" and "\<exists>d \<in> set ds. prefix (N d) ys"
    and "\<forall>d \<in> set ds. 0 \<le> dh_drv_num (dev_hdrs s d) \<and> dh_drv_num (dev_hdrs s d) < int IOS_MAX_DRIVERS"
  shows "\<exists>fd d e s'. d \<in> set ds \<and> prefix (N d) ys \<and> fd < IOS_MAX_FILE_DES \<and> \<not> inuse (G_fd_table s ! fd) \<and>
     drv_at (dh_drv_num (dev_hdrs s d)) s = Some e \<and> devs_ok s' ds N R \<and>
     (if r (de_open e) [of_nat d, of_nat (a + length (N d)), flags, mode] = -1
      then io_open (pure_driver r) (Some a) flags mode s = Some (-1, s') \<and> G_fd_table s' = G_fd_table s
      else io_open (pure_driver r) (Some a) flags mode s = Some (int fd, s') \<and>
        (maxbytes \<noteq> 0 \<longrightarrow> io_read (pure_driver r) (int fd) buf maxbytes s' =
           Some (r (de_read e) [open_data (G_fd_table s ! fd), of_nat buf, maxbytes], s')))"
proof -
  let ?fd = "free_fd_loop 0 (G_fd_table s)" and ?tab = "G_fd_table s"
  have fd: "?fd < IOS_MAX_FILE_DES" "\<not> inuse (?tab ! ?fd)" using free_fd_found [OF assms(2,3)] by simp_all
  let ?tab1 = "?tab[?fd := (?tab ! ?fd)\<lparr>inuse := True\<rparr>]"
  obtain k1 k2 d where k: "mux_free (G_ios_dev s) k2" "kheap k2 = kheap (ikern s)"
    and alloc: "iosAllocFd s = Some (int ?fd, s\<lparr>ikern := k1, G_fd_table := ?tab1\<rparr>)"
    and find: "iosDevFind (Some a) (s\<lparr>ikern := k1, G_fd_table := ?tab1\<rparr>)
      = Some (Some d, Some (a + length (N d)), s\<lparr>ikern := k2, G_fd_table := ?tab1\<rparr>)"
    and d: "d \<in> set ds" "prefix (N d) ys"
    using alloc_and_find [OF assms(1-6)] by blast
  let ?s2 = "s\<lparr>ikern := k2, G_fd_table := ?tab1\<rparr>"
  have "0 \<le> dh_drv_num (dev_hdrs s d)" "nat (dh_drv_num (dev_hdrs s d)) < length (G_drv_table s)"
    using assms(7) d(1) devs_ok_D(2) [OF assms(1)] by auto
  then obtain e where e: "drv_at (dh_drv_num (dev_hdrs s d)) s = Some e" unfolding drv_at_def by simp
  have drv: "drv_at n (t\<lparr>ikern := k\<rparr>) = drv_at n t" "drv_at n (t\<lparr>G_fd_table := tab\<rparr>) = drv_at n t" for n k tab and t :: ios_state
    by (simp_all add: drv_at_def)
  have a0: "imem s a \<noteq> 0" using assms(4,5) by (cases ys) auto
  let ?r = "r (de_open e) [of_nat d, of_nat (a + length (N d)), flags, mode]"
  have call: "iosOpen (pure_driver r) (Some d) (Some (a + length (N d))) flags mode ?s2 = Some (?r, ?s2)"
    using e by (simp add: iosOpen_def dev_drv_def arg_ptr_def pure_driver_def drv)
  let ?s3 = "?s2\<lparr>G_fd_table := ?tab1[?fd := (?tab1 ! ?fd)\<lparr>fd_drv_num := dh_drv_num (dev_hdrs s d)\<rparr>]\<rparr>"
  have save: "iosSaveDevNum (int ?fd) (Some d) ?s2 = Some (0, ?s3)" using fd(1) assms(2) by (simp add: iosSaveDevNum_def)
  obtain k3 where k3: "mux_free (G_ios_dev s) k3" "kheap k3 = kheap k2"
    "iosFreeFd (int ?fd) ?s2 = Some (OS_STATUS_OK, ?s2\<lparr>ikern := k3, G_fd_table := ?tab1[?fd := (?tab1 ! ?fd)\<lparr>inuse := False\<rparr>]\<rparr>)"
    using iosFreeFd_runs [of ?s2 "int ?fd"] k(1) fd(1) by auto
  show ?thesis
  proof (cases "?r = -1")
    case True
    have "?tab[?fd := (?tab ! ?fd)\<lparr>inuse := False\<rparr>] = ?tab"
      using fd by (intro list_update_same_conv [THEN iffD2]) (simp_all add: assms(2))
    then have "io_open (pure_driver r) (Some a) flags mode s = Some (-1, s\<lparr>ikern := k3\<rparr>)"
      using a0 alloc find call k3(3) True fd(1) assms(2) by (simp add: io_open_def io_create_or_open_def)
    moreover have "devs_ok (s\<lparr>ikern := k3\<rparr>) ds N R"
      using devs_ok_kernel [OF assms(1) k3(1), of ?tab] k3(2) k(2) by simp
    ultimately show ?thesis using True d fd e by (intro exI [of _ ?fd] exI [of _ d] exI [of _ e] exI [of _ "s\<lparr>ikern := k3\<rparr>"]) simp
  next
    case False
    then have op: "io_open (pure_driver r) (Some a) flags mode s = Some (int ?fd, ?s3)"
      using a0 alloc find call save by (simp add: io_open_def io_create_or_open_def)
    have "io_read (pure_driver r) (int ?fd) buf maxbytes ?s3 = Some (r (de_read e) [open_data (?tab ! ?fd), of_nat buf, maxbytes], ?s3)"
      if "maxbytes \<noteq> 0"
      using that fd(1) assms(2) e by (simp add: io_read_def iosRead_def fd_drv_def pure_driver_def drv)
    moreover have "devs_ok ?s3 ds N R"
      using devs_ok_kernel [OF assms(1) k(1)] k(2) by simp
    ultimately show ?thesis using False d fd e op by (intro exI [of _ ?fd] exI [of _ d] exI [of _ e] exI [of _ ?s3]) simp
  qed
qed

theorem io_open_drops_open_data_witness:
  "\<exists>s s' fd. iosDevAdd (Some 600) (Some 210) 0 ios_demo = Some (OS_STATUS_OK, s) \<and>
     io_open (pure_driver (\<lambda>f args. if f = 3 then 42 else uint (hd args))) (Some 200) 0 0 s = Some (int fd, s') \<and>
     io_read (pure_driver (\<lambda>f args. if f = 3 then 42 else uint (hd args))) (int fd) 900 4 s' = Some (7, s')"
proof -
  obtain s R where s: "iosDevAdd (Some 600) (Some 210) 0 ios_demo = Some (OS_STATUS_OK, s)"
    "devs_ok s [600] ((\<lambda>_. [])(600 := [47, 97])) R" "cstr (imem s) 200 [47, 97, 47, 98]" "dh_drv_num (dev_hdrs s 600) = 0"
    "G_fd_table s = G_fd_table ios_demo" "G_drv_table s = G_drv_table ios_demo"
    by (rule ios_demo_added)
  have t: "length (G_fd_table s) = IOS_MAX_FILE_DES" "\<exists>e \<in> set (G_fd_table s). \<not> inuse e" "drv_at 0 s = Some (G_drv_table ios_demo ! 0)"
    "de_open (G_drv_table ios_demo ! 0) = 3" "de_read (G_drv_table ios_demo ! 0) = 5"
    "\<And>fd. fd < 50 \<Longrightarrow> open_data (G_fd_table s ! fd) = 7"
    unfolding s(5) drv_at_def s(6) by (simp_all add: ios_demo_def)
  have "\<exists>d \<in> set [600]. prefix (((\<lambda>_. [])(600 := [47, 97])) d) [47, 97, 47, 98 :: uint8]" by simp
  moreover have "\<forall>d \<in> set [600]. 0 \<le> dh_drv_num (dev_hdrs s d) \<and> dh_drv_num (dev_hdrs s d) < int IOS_MAX_DRIVERS" using s(4) by simp
  ultimately obtain fd d e s' where
    "d = 600" "fd < IOS_MAX_FILE_DES" "drv_at (dh_drv_num (dev_hdrs s d)) s = Some e"
    "if (if de_open e = 3 then 42 else uint (hd [of_nat d, of_nat (200 + length (((\<lambda>_. [])(600 := [47, 97 :: uint8])) d)), 0, 0 :: uint32])) = -1
      then io_open (pure_driver (\<lambda>f args. if f = 3 then 42 else uint (hd args))) (Some 200) 0 0 s = Some (-1, s') \<and> G_fd_table s' = G_fd_table s
      else io_open (pure_driver (\<lambda>f args. if f = 3 then 42 else uint (hd args))) (Some 200) 0 0 s = Some (int fd, s') \<and>
        ((4 :: uint32) \<noteq> 0 \<longrightarrow> io_read (pure_driver (\<lambda>f args. if f = 3 then 42 else uint (hd args))) (int fd) 900 4 s' =
           Some (if de_read e = 3 then 42 else uint (hd [open_data (G_fd_table s ! fd), of_nat 900, 4]), s'))"
    using io_open_drops_open_data [OF s(2) t(1,2) s(3), of "\<lambda>f args. if f = 3 then 42 else uint (hd args)" 0 0 4 900] by auto
  then show ?thesis using s(1,4) t(3-6) by auto
qed

end
