(* ===== verification/Wuzi.thy ===== *)
theory Wuzi
  imports Prelude
begin

text \<open>
  The five in a row game of \<^verbatim>\<open>src/wuzi/wuzi.c\<close>: the table of winning cases, the counters that
  the two players keep for every case, the placing of a chessman and the reply of the computer.
  A winning case is a line of five squares; the counters decide a game without a search of the
  board. The theorems relate them to the board itself.
\<close>

section \<open>State\<close>

abbreviation (input) ROW_NUM :: nat where "ROW_NUM \<equiv> 15"
abbreviation (input) COL_NUM :: nat where "COL_NUM \<equiv> 15"
abbreviation (input) CHESSMAN_NUM :: nat where "CHESSMAN_NUM \<equiv> 225"
abbreviation (input) WIN_CASE_NUM :: nat where "WIN_CASE_NUM \<equiv> 572"

abbreviation (input) CHESSMAN_WHITE :: nat where "CHESSMAN_WHITE \<equiv> 0"
abbreviation (input) CHESSMAN_BLACK :: nat where "CHESSMAN_BLACK \<equiv> 1"
abbreviation (input) CHESSMAN_NONE :: nat where "CHESSMAN_NONE \<equiv> 2"
abbreviation (input) WIN_NEVER :: nat where "WIN_NEVER \<equiv> 6"

abbreviation (input) WUZI_DOGFALL :: nat where "WUZI_DOGFALL \<equiv> 2"
abbreviation (input) WUZI_GO_AHEAD :: nat where "WUZI_GO_AHEAD \<equiv> 3"
abbreviation (input) WUZI_NONLEGAL :: nat where "WUZI_NONLEGAL \<equiv> 4"

text \<open>The arrays as functions of their indices; the bytes as numbers (none exceeds 6).\<close>

type_synonym case_table = "nat \<Rightarrow> nat \<Rightarrow> nat \<Rightarrow> nat"

record wuzi_state =
  G_chessman_num :: nat
  G_chessboard :: "nat \<Rightarrow> nat \<Rightarrow> nat"
  G_occupy_num :: "nat \<Rightarrow> nat \<Rightarrow> nat"
  G_win_case_table :: case_table
  wz_initialized :: bool

section \<open>Operations\<close>

text \<open>\<^verbatim>\<open>table[row + i * dr][col + i * dc][index] = 1\<close> for \<open>i < 5\<close>, then \<^verbatim>\<open>index++\<close>.\<close>

definition mark :: "case_table \<Rightarrow> nat \<Rightarrow> nat \<Rightarrow> nat \<Rightarrow> case_table" where
  "mark t r c k = t(r := (t r)(c := (t r c)(k := 1)))"

definition mark_case :: "(nat \<Rightarrow> nat \<times> nat) \<Rightarrow> case_table \<times> nat \<Rightarrow> case_table \<times> nat" where
  "mark_case sq = (\<lambda>(t, k). (fold (\<lambda>i t. mark t (fst (sq i)) (snd (sq i)) k) [0..<5] t, k + 1))"

definition init_table :: "case_table \<Rightarrow> case_table" where
  "init_table t0 =
     (let p0 = (t0, 0);
          p1 = fold (\<lambda>row. fold (\<lambda>col. mark_case (\<lambda>i. (row, col + i))) [0..<COL_NUM - 4]) [0..<ROW_NUM] p0;
          p2 = fold (\<lambda>col. fold (\<lambda>row. mark_case (\<lambda>i. (row + i, col))) [0..<ROW_NUM - 4]) [0..<COL_NUM] p1;
          p3 = fold (\<lambda>row. fold (\<lambda>col. mark_case (\<lambda>i. (row + i, col + i))) [0..<COL_NUM - 4]) [0..<ROW_NUM - 4] p2;
          p4 = fold (\<lambda>row. fold (\<lambda>col. mark_case (\<lambda>i. (row + i, col - i))) (rev [4..<COL_NUM])) [0..<ROW_NUM - 4] p3
      in fst p4)"

definition wuzi_start :: "wuzi_state \<Rightarrow> wuzi_state" where
  "wuzi_start s =
     (let s1 = s\<lparr>G_chessman_num := 0, G_chessboard := (\<lambda>_ _. CHESSMAN_NONE), G_occupy_num := (\<lambda>_ _. 0)\<rparr>
      in if wz_initialized s1 then s1
         else s1\<lparr>G_win_case_table := init_table (G_win_case_table s1), wz_initialized := True\<rparr>)"

text \<open>
  The loop over the winning cases from case \<open>i\<close> on: \<open>(won, occupy)\<close>, \<open>won\<close> for the return inside
  of the loop.
\<close>

function occupy_loop :: "nat \<Rightarrow> nat \<Rightarrow> (nat \<Rightarrow> nat) \<Rightarrow> (nat \<Rightarrow> nat \<Rightarrow> nat) \<Rightarrow> bool \<times> (nat \<Rightarrow> nat \<Rightarrow> nat)" where
  "occupy_loop i chessman table occ =
     (if i < WIN_CASE_NUM then
        if table i \<noteq> 0 then
          let occ1 = (if occ chessman i \<noteq> WIN_NEVER then occ(chessman := (occ chessman)(i := occ chessman i + 1)) else occ)
          in if occ chessman i \<noteq> WIN_NEVER \<and> occ1 chessman i = 5 then (True, occ1)
             else occupy_loop (i + 1) chessman table (occ1(1 - chessman := (occ1 (1 - chessman))(i := WIN_NEVER)))
        else occupy_loop (i + 1) chessman table occ
      else (False, occ))"
  by pat_completeness auto
termination by (relation "measure (\<lambda>(i, c, t, occ). WIN_CASE_NUM - i)") auto

definition put_a_chessman :: "nat \<Rightarrow> int \<Rightarrow> int \<Rightarrow> wuzi_state \<Rightarrow> nat \<times> wuzi_state" where
  "put_a_chessman chessman row col s =
     (if row \<ge> int ROW_NUM \<or> col \<ge> int COL_NUM \<or> row < 0 \<or> col < 0 then (WUZI_NONLEGAL, s)
      else if G_chessboard s (nat row) (nat col) \<noteq> CHESSMAN_NONE then (WUZI_NONLEGAL, s)
      else
        case occupy_loop 0 chessman (G_win_case_table s (nat row) (nat col)) (G_occupy_num s) of
          (True, occ) \<Rightarrow> (chessman, s\<lparr>G_occupy_num := occ\<rparr>)
        | (False, occ) \<Rightarrow>
            let s1 = s\<lparr>G_occupy_num := occ, G_chessman_num := G_chessman_num s + 1,
                       G_chessboard := (G_chessboard s)(nat row := (G_chessboard s (nat row))(nat col := chessman))\<rparr>
            in if G_chessman_num s1 = CHESSMAN_NUM then (WUZI_DOGFALL, s1) else (WUZI_GO_AHEAD, s1))"

definition wuzi_white_do :: "int \<Rightarrow> int \<Rightarrow> wuzi_state \<Rightarrow> nat \<times> wuzi_state" where
  "wuzi_white_do row col s = put_a_chessman CHESSMAN_WHITE row col s"

definition wuzi_black_do :: "int \<Rightarrow> int \<Rightarrow> wuzi_state \<Rightarrow> nat \<times> wuzi_state" where
  "wuzi_black_do row col s = put_a_chessman CHESSMAN_BLACK row col s"

definition player_do :: "int \<Rightarrow> int \<Rightarrow> wuzi_state \<Rightarrow> nat \<times> wuzi_state" where
  "player_do row col s = wuzi_white_do row col s"

text \<open>The value of a square for a player: the sum of the scores of the cases through it.\<close>

definition score :: "int list" where
  "score = [1, 5, 50, 100, 400, 0, 0]"

definition grade :: "nat \<Rightarrow> nat \<Rightarrow> nat \<Rightarrow> wuzi_state \<Rightarrow> int" where
  "grade player i j s =
     fold (\<lambda>k g. if G_win_case_table s i j k \<noteq> 0 then g + score ! G_occupy_num s player k else g) [0..<WIN_CASE_NUM] 0"

text \<open>
  The best squares found so far. The squares are \<open>None\<close> while the locals of the code are not
  initialised.
\<close>

record best_squares =
  max_player_grade :: int
  defend :: "(nat \<times> nat) option"
  max_comput_grade :: int
  attack :: "(nat \<times> nat) option"

definition rate_square :: "wuzi_state \<Rightarrow> nat \<Rightarrow> nat \<Rightarrow> best_squares \<Rightarrow> best_squares" where
  "rate_square s i j b =
     (if G_chessboard s i j = CHESSMAN_NONE then
        let p = grade CHESSMAN_WHITE i j s; c = grade CHESSMAN_BLACK i j s;
            b1 = (if p > max_player_grade b then b\<lparr>max_player_grade := p, defend := Some (i, j)\<rparr> else b)
        in if c > max_comput_grade b1 then b1\<lparr>max_comput_grade := c, attack := Some (i, j)\<rparr> else b1
      else b)"

definition rate_board :: "wuzi_state \<Rightarrow> best_squares" where
  "rate_board s = fold (\<lambda>i. fold (rate_square s i) [0..<COL_NUM]) [0..<ROW_NUM]
     \<lparr>max_player_grade = -1, defend = None, max_comput_grade = -1, attack = None\<rparr>"

text \<open>\<open>None\<close> when the code would use a local that was never set.\<close>

definition computer_do :: "wuzi_state \<Rightarrow> (nat \<times> (nat \<times> nat) \<times> wuzi_state) option" where
  "computer_do s =
     (let b = rate_board s;
          reply = (if max_player_grade b \<ge> max_comput_grade b \<and> max_player_grade b > 100 then defend b else attack b)
      in case reply of
           None \<Rightarrow> None
         | Some (row, col) \<Rightarrow>
             (case wuzi_black_do (int row) (int col) s of (status, s1) \<Rightarrow> Some (status, (row, col), s1)))"

text \<open>The reply is \<open>None\<close> when the round ended with the move of the player.\<close>

definition wuzi_round_do :: "int \<Rightarrow> int \<Rightarrow> wuzi_state \<Rightarrow> (nat \<times> (nat \<times> nat) option \<times> wuzi_state) option" where
  "wuzi_round_do row col s =
     (case player_do row col s of (chess_status, s1) \<Rightarrow>
        if chess_status \<noteq> WUZI_GO_AHEAD then Some (chess_status, None, s1)
        else map_option (\<lambda>(st, p, s2). (st, Some p, s2)) (computer_do s1))"

section \<open>The lines of the board\<close>

text \<open>The winning cases in the order in which the table numbers them.\<close>

definition win_lines :: "(nat \<times> nat) set list" where
  "win_lines =
     concat (map (\<lambda>row. map (\<lambda>col. (\<lambda>i. (row, col + i)) ` {..<5}) [0..<11]) [0..<15]) @
     concat (map (\<lambda>col. map (\<lambda>row. (\<lambda>i. (row + i, col)) ` {..<5}) [0..<11]) [0..<15]) @
     concat (map (\<lambda>row. map (\<lambda>col. (\<lambda>i. (row + i, col + i)) ` {..<5}) [0..<11]) [0..<11]) @
     concat (map (\<lambda>row. map (\<lambda>col. (\<lambda>i. (row + i, col - i)) ` {..<5}) (rev [4..<15])) [0..<11])"

definition has_table :: "wuzi_state \<Rightarrow> bool" where
  "has_table s \<longleftrightarrow> (\<forall>r c k. k < WIN_CASE_NUM \<longrightarrow> G_win_case_table s r c k = (if (r, c) \<in> win_lines ! k then 1 else 0))"

lemma mark_five: "fold (\<lambda>i t. mark t (fst (sq i)) (snd (sq i)) k) is t r c j = (if j = k \<and> (r, c) \<in> sq ` set is then 1 else t r c j)"
  by (induction "is" arbitrary: t) (auto simp: mark_def prod_eq_iff)

lemma mark_cases:
  "fold mark_case sqs (t, n) =
     (\<lambda>r c j. if n \<le> j \<and> j < n + length sqs \<and> (r, c) \<in> (sqs ! (j - n)) ` {..<5} then 1 else t r c j, n + length sqs)"
proof (induction sqs arbitrary: t n)
  case (Cons sq sqs)
  let ?t = "\<lambda>r c j. if j = n \<and> (r, c) \<in> sq ` {..<5} then 1 else t r c j"
  have "mark_case sq (t, n) = (?t, n + 1)"
    using mark_five [of sq n "[0..<5]"] by (simp add: mark_case_def fun_eq_iff atLeast0LessThan)
  then have "fold mark_case (sq # sqs) (t, n) = fold mark_case sqs (?t, n + 1)" by simp
  also have "\<dots> = (\<lambda>r c j. if n \<le> j \<and> j < n + length (sq # sqs) \<and> (r, c) \<in> ((sq # sqs) ! (j - n)) ` {..<5} then 1 else t r c j,
      n + length (sq # sqs))"
    unfolding Cons.IH
    by (auto simp: fun_eq_iff nth_Cons' Suc_le_eq le_less intro!: arg_cong [where f = "\<lambda>i. (_, _) \<in> (sqs ! i) ` _"])
  finally show ?case .
qed (simp add: fun_eq_iff)

lemma fold_nested: "fold (\<lambda>x. fold (\<lambda>y. f (g x y)) ys) xs a = fold f (concat (map (\<lambda>x. map (g x) ys) xs)) a"
  by (induction xs arbitrary: a) (simp_all add: fold_map comp_def)

lemma win_lines_length: "length win_lines = WIN_CASE_NUM"
  by (simp add: win_lines_def length_concat comp_def sum_list_triv)

lemma init_table_lines:
  "init_table t r c k = (if k < WIN_CASE_NUM \<and> (r, c) \<in> win_lines ! k then 1 else t r c k)"
proof -
  let ?sqs = "concat (map (\<lambda>row. map (\<lambda>col i. (row, col + i)) [0..<11]) [0..<15]) @
     concat (map (\<lambda>col. map (\<lambda>row i. (row + i, col)) [0..<11]) [0..<15]) @
     concat (map (\<lambda>row. map (\<lambda>col i. (row + i, col + i)) [0..<11]) [0..<11]) @
     concat (map (\<lambda>row. map (\<lambda>col i. (row + i, col - i)) (rev [4..<15])) [0..<11])"
  have w: "win_lines = map (\<lambda>sq. sq ` {..<5}) ?sqs"
    by (simp only: win_lines_def map_append map_concat map_map comp_def)
  have "init_table t = fst (fold mark_case ?sqs (t, 0))"
    by (simp only: init_table_def Let_def fold_nested [of mark_case] fold_append comp_def) simp
  then have "init_table t r c k = (if k < length ?sqs \<and> (r, c) \<in> (?sqs ! k) ` {..<5} then 1 else t r c k)"
    by (simp only: mark_cases fst_conv) simp
  moreover have "length ?sqs = WIN_CASE_NUM" using win_lines_length unfolding w by (simp only: length_map)
  moreover have "(?sqs ! k) ` {..<5} = win_lines ! k" if "k < length ?sqs" using that unfolding w by (simp only: nth_map)
  ultimately show ?thesis by auto
qed

lemma line_squares:
  assumes "L \<in> set win_lines"
  shows "finite L" "card L = 5" "(r, c) \<in> L \<Longrightarrow> r < ROW_NUM \<and> c < COL_NUM"
proof -
  have "card ((\<lambda>i. (row, col + i)) ` {..<5}) = 5" "card ((\<lambda>i. (row + i, col)) ` {..<5}) = 5"
    "card ((\<lambda>i. (row + i, col + i)) ` {..<5}) = 5" "card ((\<lambda>i. (row + i, col - i)) ` {..<5}) = 5" for row col :: nat
    by (subst card_image; simp add: inj_on_def)+
  then show "finite L" "card L = 5" "(r, c) \<in> L \<Longrightarrow> r < ROW_NUM \<and> c < COL_NUM"
    using assms by (auto simp: win_lines_def simp del: upt_conv_Cons)
qed

lemma line_at:
  assumes "k < WIN_CASE_NUM"
  shows "finite (win_lines ! k)" "card (win_lines ! k) = 5" "(r, c) \<in> win_lines ! k \<Longrightarrow> r < ROW_NUM \<and> c < COL_NUM"
  using line_squares [OF nth_mem, of k] assms win_lines_length by auto

section \<open>The counters and the board\<close>

definition at :: "(nat \<Rightarrow> nat \<Rightarrow> nat) \<Rightarrow> nat \<times> nat \<Rightarrow> nat" where
  "at b sq = b (fst sq) (snd sq)"

text \<open>What the counter of a case has to be: dead when the opponent is on the line, else the number of own squares.\<close>

definition counter :: "(nat \<Rightarrow> nat \<Rightarrow> nat) \<Rightarrow> nat \<Rightarrow> nat \<Rightarrow> nat" where
  "counter b p k = (if \<exists>sq \<in> win_lines ! k. at b sq = 1 - p then WIN_NEVER else card {sq \<in> win_lines ! k. at b sq = p})"

definition five :: "(nat \<Rightarrow> nat \<Rightarrow> nat) \<Rightarrow> nat \<Rightarrow> bool" where
  "five b p \<longleftrightarrow> (\<exists>L \<in> set win_lines. \<forall>sq \<in> L. at b sq = p)"

definition taken :: "(nat \<Rightarrow> nat \<Rightarrow> nat) \<Rightarrow> (nat \<times> nat) set" where
  "taken b = {sq. fst sq < ROW_NUM \<and> snd sq < COL_NUM \<and> at b sq \<noteq> CHESSMAN_NONE}"

definition wuzi_ok :: "wuzi_state \<Rightarrow> bool" where
  "wuzi_ok s \<longleftrightarrow> has_table s \<and> (\<forall>sq. at (G_chessboard s) sq \<le> 2) \<and> G_chessman_num s = card (taken (G_chessboard s)) \<and>
     (\<forall>p < 2. \<not> five (G_chessboard s) p) \<and> (\<forall>p < 2. \<forall>k < WIN_CASE_NUM. G_occupy_num s p k = counter (G_chessboard s) p k)"

declare occupy_loop.simps [simp del]

lemma occupy_loop_spec:
  assumes "p < 2"
  shows "fst (occupy_loop i p T occ) \<longleftrightarrow> (\<exists>k. i \<le> k \<and> k < WIN_CASE_NUM \<and> T k \<noteq> 0 \<and> occ p k = 4)"
    and "\<not> fst (occupy_loop i p T occ) \<Longrightarrow> snd (occupy_loop i p T occ) q k =
      (if i \<le> k \<and> k < WIN_CASE_NUM \<and> T k \<noteq> 0
       then if q = p then (if occ p k \<noteq> WIN_NEVER then occ p k + 1 else WIN_NEVER) else if q = 1 - p then WIN_NEVER else occ q k
       else occ q k)"
proof -
  have ne: "1 - p \<noteq> p" using assms by (cases p) auto
  have "(fst (occupy_loop i p T occ) \<longleftrightarrow> (\<exists>k. i \<le> k \<and> k < WIN_CASE_NUM \<and> T k \<noteq> 0 \<and> occ p k = 4)) \<and>
    (\<not> fst (occupy_loop i p T occ) \<longrightarrow> (\<forall>q k. snd (occupy_loop i p T occ) q k =
      (if i \<le> k \<and> k < WIN_CASE_NUM \<and> T k \<noteq> 0
       then if q = p then (if occ p k \<noteq> WIN_NEVER then occ p k + 1 else WIN_NEVER) else if q = 1 - p then WIN_NEVER else occ q k
       else occ q k)))"
    using ne
  proof (induction i p T occ rule: occupy_loop.induct)
    case (1 i p T occ)
    have split: "(\<exists>k. i \<le> k \<and> k < WIN_CASE_NUM \<and> P k) \<longleftrightarrow> P i \<or> (\<exists>k. i + 1 \<le> k \<and> k < WIN_CASE_NUM \<and> P k)"
      if "i < WIN_CASE_NUM" for P
      using that by (metis Suc_eq_plus1 le_SucI not_less_eq_eq order_antisym order_refl)
    define occ1 where "occ1 = (if occ p i \<noteq> WIN_NEVER then occ(p := (occ p)(i := occ p i + 1)) else occ)"
    define occ2 where "occ2 = occ1(1 - p := (occ1 (1 - p))(i := WIN_NEVER))"
    consider (stop) "\<not> i < WIN_CASE_NUM" | (skip) "i < WIN_CASE_NUM" "T i = 0" | (won) "i < WIN_CASE_NUM" "T i \<noteq> 0" "occ p i = 4"
      | (more) "i < WIN_CASE_NUM" "T i \<noteq> 0" "occ p i \<noteq> 4" by blast
    then show ?case
    proof cases
      case stop
      then have "occupy_loop i p T occ = (False, occ)" by (subst occupy_loop.simps) (simp only: if_False)
      then show ?thesis using stop by auto
    next
      case skip
      then have eq: "occupy_loop i p T occ = occupy_loop (i + 1) p T occ" by (subst occupy_loop.simps) simp
      have "i + 1 \<le> k \<longleftrightarrow> i \<le> k \<and> k \<noteq> i" for k by auto
      then show ?thesis using "1.IH"(2) [OF skip(1) _ "1.prems"] skip unfolding eq split [OF skip(1)] by auto
    next
      case won
      then have "occupy_loop i p T occ = (True, occ1)" by (subst occupy_loop.simps) (simp add: occ1_def Let_def)
      then show ?thesis using won by auto
    next
      case more
      then have nr: "\<not> (occ p i \<noteq> WIN_NEVER \<and> occ1 p i = 5)" by (simp add: occ1_def)
      have eq: "occupy_loop i p T occ = occupy_loop (i + 1) p T occ2"
        using more nr unfolding occ2_def occ1_def by (subst occupy_loop.simps) (simp only: if_True if_False Let_def simp_thms)
      have IH: "(fst (occupy_loop (i + 1) p T occ2) \<longleftrightarrow> (\<exists>k. i + 1 \<le> k \<and> k < WIN_CASE_NUM \<and> T k \<noteq> 0 \<and> occ2 p k = 4)) \<and>
        (\<not> fst (occupy_loop (i + 1) p T occ2) \<longrightarrow> (\<forall>q k. snd (occupy_loop (i + 1) p T occ2) q k =
          (if i + 1 \<le> k \<and> k < WIN_CASE_NUM \<and> T k \<noteq> 0
           then if q = p then (if occ2 p k \<noteq> WIN_NEVER then occ2 p k + 1 else WIN_NEVER) else if q = 1 - p then WIN_NEVER else occ2 q k
           else occ2 q k)))"
        using "1.IH"(1) [OF more(1,2) refl _ "1.prems"] nr unfolding occ2_def occ1_def by blast
      have other: "occ2 q k = occ q k" if "k \<noteq> i" for q k using that by (simp add: occ2_def occ1_def)
      have here: "occ2 q i = (if q = p then (if occ p i \<noteq> WIN_NEVER then occ p i + 1 else WIN_NEVER) else if q = 1 - p then WIN_NEVER else occ q i)" for q
        using "1.prems" by (simp add: occ2_def occ1_def)
      have "(\<exists>k. i + 1 \<le> k \<and> k < WIN_CASE_NUM \<and> T k \<noteq> 0 \<and> occ2 p k = 4) \<longleftrightarrow> (\<exists>k. i + 1 \<le> k \<and> k < WIN_CASE_NUM \<and> T k \<noteq> 0 \<and> occ p k = 4)"
        using other by (metis Suc_eq_plus1 Suc_n_not_le_n)
      moreover have "(if i + 1 \<le> k \<and> k < WIN_CASE_NUM \<and> T k \<noteq> 0
           then if q = p then (if occ2 p k \<noteq> WIN_NEVER then occ2 p k + 1 else WIN_NEVER) else if q = 1 - p then WIN_NEVER else occ2 q k
           else occ2 q k) =
         (if i \<le> k \<and> k < WIN_CASE_NUM \<and> T k \<noteq> 0
           then if q = p then (if occ p k \<noteq> WIN_NEVER then occ p k + 1 else WIN_NEVER) else if q = 1 - p then WIN_NEVER else occ q k
           else occ q k)" for q k
      proof (cases "k = i")
        case True
        then show ?thesis using more(1,2) here by simp
      next
        case False
        then have "i + 1 \<le> k \<longleftrightarrow> i \<le> k" by auto
        then show ?thesis using other [OF False] by simp
      qed
      ultimately show ?thesis using IH more(3) unfolding eq split [OF more(1)] by simp
    qed
  qed
  then show "fst (occupy_loop i p T occ) \<longleftrightarrow> (\<exists>k. i \<le> k \<and> k < WIN_CASE_NUM \<and> T k \<noteq> 0 \<and> occ p k = 4)"
    and "\<not> fst (occupy_loop i p T occ) \<Longrightarrow> snd (occupy_loop i p T occ) q k =
      (if i \<le> k \<and> k < WIN_CASE_NUM \<and> T k \<noteq> 0
       then if q = p then (if occ p k \<noteq> WIN_NEVER then occ p k + 1 else WIN_NEVER) else if q = 1 - p then WIN_NEVER else occ q k
       else occ q k)" by blast+
qed

definition place :: "nat \<Rightarrow> nat \<Rightarrow> nat \<Rightarrow> (nat \<Rightarrow> nat \<Rightarrow> nat) \<Rightarrow> nat \<Rightarrow> nat \<Rightarrow> nat" where
  "place p r c b = b(r := (b r)(c := p))"

lemma at_place [simp]: "at (place p r c b) sq = (if sq = (r, c) then p else at b sq)"
  by (cases sq) (auto simp: at_def place_def)

text \<open>One line and one new chessman on it.\<close>

lemma counter_place:
  assumes "k < WIN_CASE_NUM" and "p < 2" and "at b (r, c) = CHESSMAN_NONE"
  shows "(r, c) \<in> win_lines ! k \<Longrightarrow> counter (place p r c b) p k = (if counter b p k \<noteq> WIN_NEVER then counter b p k + 1 else WIN_NEVER)"
    and "(r, c) \<in> win_lines ! k \<Longrightarrow> counter (place p r c b) (1 - p) k = WIN_NEVER"
    and "(r, c) \<notin> win_lines ! k \<Longrightarrow> counter (place p r c b) q k = counter b q k"
    and "(r, c) \<in> win_lines ! k \<Longrightarrow> counter b p k = 4 \<longleftrightarrow> (\<forall>sq \<in> win_lines ! k. at (place p r c b) sq = p)"
proof -
  let ?L = "win_lines ! k"
  note L = line_at(1,2) [OF assms(1)]
  have p: "1 - p \<noteq> p" "p \<noteq> 2" "1 - p \<noteq> 2" "1 - (1 - p) = p" using assms(2) by (cases p; simp)+
  have own: "card {sq \<in> ?L. at b sq = p} \<le> 5" using card_mono [OF L(1), of "{sq \<in> ?L. at b sq = p}"] L(2) by auto
  { assume i: "(r, c) \<in> ?L"
    have ins: "{sq \<in> ?L. at (place p r c b) sq = p} = insert (r, c) {sq \<in> ?L. at b sq = p}" using i by auto
    have new: "(r, c) \<notin> {sq \<in> ?L. at b sq = p}" using assms(3) p by auto
    have sub: "{sq \<in> ?L. at b sq = p} \<subseteq> ?L - {(r, c)}" using new by auto
    have less: "card {sq \<in> ?L. at b sq = p} \<le> 4" using card_mono [OF _ sub] L i by simp
    have opp: "(\<exists>sq \<in> ?L. at (place p r c b) sq = 1 - p) \<longleftrightarrow> (\<exists>sq \<in> ?L. at b sq = 1 - p)"
      using assms(3) p by (intro bex_cong refl) auto
    show "counter (place p r c b) p k = (if counter b p k \<noteq> WIN_NEVER then counter b p k + 1 else WIN_NEVER)"
      using less unfolding counter_def opp ins using L(1) new by simp
    show "counter (place p r c b) (1 - p) k = WIN_NEVER"
      using i unfolding counter_def p(4) by (metis at_place)
    show "counter b p k = 4 \<longleftrightarrow> (\<forall>sq \<in> ?L. at (place p r c b) sq = p)"
    proof
      assume "counter b p k = 4"
      then have "card {sq \<in> ?L. at b sq = p} = card (?L - {(r, c)})" using L i by (simp add: counter_def split: if_splits)
      then have "{sq \<in> ?L. at b sq = p} = ?L - {(r, c)}" using sub L(1) by (intro card_subset_eq) simp_all
      then show "\<forall>sq \<in> ?L. at (place p r c b) sq = p" by auto
    next
      assume all: "\<forall>sq \<in> ?L. at (place p r c b) sq = p"
      then have "{sq \<in> ?L. at b sq = p} = ?L - {(r, c)}" using new by auto
      moreover have "\<not> (\<exists>sq \<in> ?L. at b sq = 1 - p)" using all opp p by auto
      ultimately show "counter b p k = 4" using L i by (simp add: counter_def)
    qed }
  assume o: "(r, c) \<notin> ?L"
  then have "at (place p r c b) sq = at b sq" if "sq \<in> ?L" for sq using that by auto
  then show "counter (place p r c b) q k = counter b q k"
    by (simp add: counter_def del: at_place cong: bex_cong conj_cong)
qed

lemma five_at: "five b p \<longleftrightarrow> (\<exists>k < WIN_CASE_NUM. \<forall>sq \<in> win_lines ! k. at b sq = p)"
  unfolding five_def using win_lines_length by (metis in_set_conv_nth)

lemma taken_place:
  assumes "r < ROW_NUM" and "c < COL_NUM" and "p < 2" and "at b (r, c) = CHESSMAN_NONE"
  shows "card (taken (place p r c b)) = card (taken b) + 1"
proof -
  have "taken b \<subseteq> {..<ROW_NUM} \<times> {..<COL_NUM}" by (auto simp: taken_def)
  then have "finite (taken b)" by (rule finite_subset) simp
  moreover have "taken (place p r c b) = insert (r, c) (taken b)" "(r, c) \<notin> taken b"
    using assms by (auto simp: taken_def)
  ultimately show ?thesis by simp
qed

lemma put_a_chessman_ok:
  assumes ok: "wuzi_ok s" and p: "p < 2" and rc: "r < ROW_NUM" "c < COL_NUM" and e: "at (G_chessboard s) (r, c) = CHESSMAN_NONE"
  shows "if five (place p r c (G_chessboard s)) p then fst (put_a_chessman p (int r) (int c) s) = p
     else fst (put_a_chessman p (int r) (int c) s) = (if G_chessman_num s + 1 = CHESSMAN_NUM then WUZI_DOGFALL else WUZI_GO_AHEAD) \<and>
          G_chessboard (snd (put_a_chessman p (int r) (int c) s)) = place p r c (G_chessboard s) \<and>
          wuzi_ok (snd (put_a_chessman p (int r) (int c) s))"
proof -
  let ?b = "G_chessboard s" and ?T = "G_win_case_table s r c"
  let ?B = "place p r c ?b"
  obtain won occ where o: "occupy_loop 0 p ?T (G_occupy_num s) = (won, occ)" by fastforce
  have T: "?T k \<noteq> 0 \<longleftrightarrow> (r, c) \<in> win_lines ! k" if "k < WIN_CASE_NUM" for k
    using ok that by (simp add: wuzi_ok_def has_table_def)
  have cnt: "G_occupy_num s q k = counter ?b q k" if "q < 2" "k < WIN_CASE_NUM" for q k using ok that by (simp add: wuzi_ok_def)
  have none: "\<not> five ?b q" if "q < 2" for q using ok that by (simp add: wuzi_ok_def)
  have "won \<longleftrightarrow> (\<exists>k < WIN_CASE_NUM. (r, c) \<in> win_lines ! k \<and> counter ?b p k = 4)"
    using occupy_loop_spec(1) [OF p, of 0 ?T "G_occupy_num s"] o T cnt [OF p] by auto
  also have "\<dots> \<longleftrightarrow> five ?B p"
  proof -
    have "(r, c) \<in> win_lines ! k" if "k < WIN_CASE_NUM" "\<forall>sq \<in> win_lines ! k. at ?B sq = p" for k
    proof (rule ccontr)
      assume "(r, c) \<notin> win_lines ! k"
      with that have "\<forall>sq \<in> win_lines ! k. at ?b sq = p" by (metis at_place)
      with none [OF p] that(1) show False unfolding five_at by blast
    qed
    then show ?thesis unfolding five_at using counter_place(4) [OF _ p e] by blast
  qed
  finally have won: "won \<longleftrightarrow> five ?B p" .
  have nl: "\<not> (int r \<ge> int ROW_NUM \<or> int c \<ge> int COL_NUM \<or> int r < 0 \<or> int c < 0)" "?b r c = 2" using rc e by (simp_all add: at_def)
  show ?thesis
  proof (cases won)
    case True
    then show ?thesis using won o nl unfolding put_a_chessman_def by simp
  next
    case False
    let ?s = "s\<lparr>G_occupy_num := occ, G_chessman_num := G_chessman_num s + 1, G_chessboard := ?B\<rparr>"
    have put: "put_a_chessman p (int r) (int c) s = (if G_chessman_num s + 1 = CHESSMAN_NUM then WUZI_DOGFALL else WUZI_GO_AHEAD, ?s)"
      using False o nl unfolding put_a_chessman_def by (simp add: Let_def place_def)
    have occ: "occ q k = counter ?B q k" if q: "q < 2" and k: "k < WIN_CASE_NUM" for q k
    proof -
      have "occ q k = (if ?T k \<noteq> 0 then if q = p then (if counter ?b p k \<noteq> WIN_NEVER then counter ?b p k + 1 else WIN_NEVER) else WIN_NEVER
          else counter ?b q k)"
        using occupy_loop_spec(2) [OF p, of 0 ?T "G_occupy_num s" q k] o False k cnt [OF p k] cnt [OF q k] p q by auto
      also have "\<dots> = counter ?B q k"
      proof (cases "(r, c) \<in> win_lines ! k")
        case True
        have "q = p \<or> q = 1 - p" using p q by auto
        then show ?thesis using True counter_place(1,2) [OF k p e True] T [OF k] by auto
      next
        case False
        then show ?thesis using counter_place(3) [OF k p e False] T [OF k] by simp
      qed
      finally show ?thesis .
    qed
    have "\<not> five ?B q" if q: "q < 2" for q
    proof (cases "q = p")
      case True
      then show ?thesis using won False by simp
    next
      case ne: False
      show ?thesis
      proof
        assume "five ?B q"
        then obtain k where k: "k < WIN_CASE_NUM" "\<forall>sq \<in> win_lines ! k. at ?B sq = q" unfolding five_at by blast
        then have "\<forall>sq \<in> win_lines ! k. at ?b sq = q" using ne by (metis at_place)
        with none [OF q] k(1) show False unfolding five_at by blast
      qed
    qed
    moreover have "G_chessman_num s + 1 = card (taken ?B)" using ok taken_place [OF rc p e] by (simp add: wuzi_ok_def)
    ultimately have "wuzi_ok ?s" using ok occ p unfolding wuzi_ok_def has_table_def by auto
    then show ?thesis using False won put by simp
  qed
qed

lemma wuzi_start_ok:
  assumes "wz_initialized s \<Longrightarrow> has_table s" and "\<not> wz_initialized s \<Longrightarrow> G_win_case_table s = (\<lambda>_ _ _. 0)"
  shows "wuzi_ok (wuzi_start s)"
proof -
  have t: "has_table (wuzi_start s)"
    using assms by (cases "wz_initialized s") (simp_all add: wuzi_start_def has_table_def init_table_lines Let_def)
  have b: "at (G_chessboard (wuzi_start s)) sq = 2" "G_chessman_num (wuzi_start s) = 0" "G_occupy_num (wuzi_start s) = (\<lambda>_ _. 0)" for sq
    by (simp_all add: wuzi_start_def at_def Let_def)
  have "\<not> five (G_chessboard (wuzi_start s)) p" if "p < 2" for p
  proof -
    have "win_lines ! k \<noteq> {}" if "k < WIN_CASE_NUM" for k using line_at(2) [OF that] by auto
    then show ?thesis using that unfolding five_at b by fastforce
  qed
  moreover have "counter (G_chessboard (wuzi_start s)) p k = 0" if "p < 2" for p k
    using that by (cases p) (auto simp: counter_def b)
  ultimately show ?thesis using t unfolding wuzi_ok_def by (simp add: b taken_def)
qed

section \<open>The reply of the computer\<close>

definition empty_at :: "wuzi_state \<Rightarrow> nat \<times> nat \<Rightarrow> bool" where
  "empty_at s sq \<longleftrightarrow> fst sq < ROW_NUM \<and> snd sq < COL_NUM \<and> at (G_chessboard s) sq = CHESSMAN_NONE"

abbreviation grade_at :: "wuzi_state \<Rightarrow> nat \<Rightarrow> nat \<times> nat \<Rightarrow> int" where
  "grade_at s p sq \<equiv> grade p (fst sq) (snd sq) s"

lemma grade_nonneg:
  assumes "wuzi_ok s" and "p < 2"
  shows "0 \<le> grade p i j s"
proof -
  have occ: "G_occupy_num s p k \<le> 6" if k: "k < WIN_CASE_NUM" for k
  proof -
    have "card {sq \<in> win_lines ! k. at (G_chessboard s) sq = p} \<le> 5"
      using card_mono [OF line_at(1) [OF k], of "{sq \<in> win_lines ! k. at (G_chessboard s) sq = p}"] line_at(2) [OF k] by auto
    then show ?thesis using assms k by (simp add: wuzi_ok_def counter_def)
  qed
  have score: "0 \<le> score ! n" if "n \<le> 6" for n
  proof -
    have "score ! n \<in> set score" using that by (intro nth_mem) (simp add: score_def)
    then show ?thesis by (auto simp: score_def)
  qed
  have nn: "0 \<le> fold (\<lambda>k g. if G_win_case_table s i j k \<noteq> 0 then g + score ! G_occupy_num s p k else g) ks g"
    if "\<forall>k \<in> set ks. k < WIN_CASE_NUM" "0 \<le> g" for ks g
    using that
  proof (induction ks arbitrary: g)
    case (Cons k ks)
    then show ?case using score [OF occ, of k] by simp
  qed simp
  show ?thesis unfolding grade_def by (intro nn ballI) (simp_all only: set_upt atLeastLessThan_iff order_refl)
qed

text \<open>What holds after the squares of \<open>S\<close> were rated.\<close>

definition rated :: "wuzi_state \<Rightarrow> (nat \<times> nat) set \<Rightarrow> best_squares \<Rightarrow> bool" where
  "rated s S b \<longleftrightarrow>
     (\<forall>sq \<in> S. grade_at s CHESSMAN_WHITE sq \<le> max_player_grade b \<and> grade_at s CHESSMAN_BLACK sq \<le> max_comput_grade b) \<and>
     (case defend b of None \<Rightarrow> S = {} \<and> max_player_grade b = -1 | Some sq \<Rightarrow> sq \<in> S \<and> max_player_grade b = grade_at s CHESSMAN_WHITE sq) \<and>
     (case attack b of None \<Rightarrow> S = {} \<and> max_comput_grade b = -1 | Some sq \<Rightarrow> sq \<in> S \<and> max_comput_grade b = grade_at s CHESSMAN_BLACK sq)"

lemma rated_square:
  assumes "wuzi_ok s" and "rated s S b" and "at (G_chessboard s) sq = CHESSMAN_NONE"
  shows "rated s (insert sq S) (rate_square s (fst sq) (snd sq) b)"
proof -
  have g: "0 \<le> grade_at s 0 sq" "0 \<le> grade_at s 1 sq" using grade_nonneg [OF assms(1)] by simp_all
  have e: "G_chessboard s (fst sq) (snd sq) = 2" using assms(3) by (simp add: at_def)
  let ?p = "grade_at s CHESSMAN_WHITE sq" and ?c = "grade_at s CHESSMAN_BLACK sq"
  have eq: "rate_square s (fst sq) (snd sq) b =
     \<lparr>max_player_grade = max (max_player_grade b) ?p, defend = (if ?p > max_player_grade b then Some sq else defend b),
      max_comput_grade = max (max_comput_grade b) ?c, attack = (if ?c > max_comput_grade b then Some sq else attack b)\<rparr>"
    using e by (simp add: rate_square_def Let_def max_def)
  define D where "D = (if ?p > max_player_grade b then Some sq else defend b)"
  define A where "A = (if ?c > max_comput_grade b then Some sq else attack b)"
  have "case D of None \<Rightarrow> False
      | Some q \<Rightarrow> q \<in> insert sq S \<and> max (max_player_grade b) ?p = grade_at s CHESSMAN_WHITE q"
    using assms(2) g(1) unfolding D_def by (cases "defend b") (auto simp: rated_def max_def)
  moreover have "case A of None \<Rightarrow> False
      | Some q \<Rightarrow> q \<in> insert sq S \<and> max (max_comput_grade b) ?c = grade_at s CHESSMAN_BLACK q"
    using assms(2) g(2) unfolding A_def by (cases "attack b") (auto simp: rated_def max_def)
  moreover have "grade_at s CHESSMAN_WHITE q \<le> max (max_player_grade b) ?p \<and> grade_at s CHESSMAN_BLACK q \<le> max (max_comput_grade b) ?c"
    if "q \<in> insert sq S" for q using that assms(2) by (auto simp: rated_def le_max_iff_disj)
  ultimately show ?thesis unfolding eq D_def [symmetric] A_def [symmetric] rated_def by (cases D; cases A) simp_all
qed

lemma rated_fold:
  assumes "wuzi_ok s"
  shows "rated s S b \<Longrightarrow> rated s (S \<union> {sq \<in> set sqs. at (G_chessboard s) sq = CHESSMAN_NONE}) (fold (\<lambda>sq. rate_square s (fst sq) (snd sq)) sqs b)"
proof (induction sqs arbitrary: S b)
  case (Cons sq sqs)
  show ?case
  proof (cases "at (G_chessboard s) sq = CHESSMAN_NONE")
    case True
    then have "insert sq S \<union> {q \<in> set sqs. at (G_chessboard s) q = 2} = S \<union> {q \<in> set (sq # sqs). at (G_chessboard s) q = 2}" by auto
    then show ?thesis using Cons.IH [OF rated_square [OF assms Cons.prems True]] by simp
  next
    case False
    then have "rate_square s (fst sq) (snd sq) b = b" by (simp add: rate_square_def at_def)
    moreover have "{q \<in> set (sq # sqs). at (G_chessboard s) q = 2} = {q \<in> set sqs. at (G_chessboard s) q = 2}" using False by auto
    ultimately show ?thesis using Cons.IH [OF Cons.prems] by simp
  qed
qed simp

lemma rate_board_rated:
  assumes "wuzi_ok s"
  shows "rated s {sq. empty_at s sq} (rate_board s)"
proof -
  let ?sqs = "concat (map (\<lambda>i. map (Pair i) [0..<COL_NUM]) [0..<ROW_NUM])"
  have "rate_board s = fold (\<lambda>sq. rate_square s (fst sq) (snd sq)) ?sqs
     \<lparr>max_player_grade = -1, defend = None, max_comput_grade = -1, attack = None\<rparr>"
    unfolding rate_board_def fold_nested [of "\<lambda>sq. rate_square s (fst sq) (snd sq)" Pair, symmetric] by simp
  moreover have "rated s {} \<lparr>max_player_grade = -1, defend = None, max_comput_grade = -1, attack = None\<rparr>" by (simp add: rated_def)
  moreover have "{} \<union> {sq \<in> set ?sqs. at (G_chessboard s) sq = 2} = {sq. empty_at s sq}"
    by (force simp: empty_at_def simp del: upt_conv_Cons)
  ultimately show ?thesis using rated_fold [OF assms, of "{}" _ ?sqs] by (simp only:)
qed

text \<open>A square that the computer may choose: best to attack, or best to defend and worth it.\<close>

definition good_reply :: "wuzi_state \<Rightarrow> nat \<times> nat \<Rightarrow> bool" where
  "good_reply s sq \<longleftrightarrow> empty_at s sq \<and>
     ((\<forall>q. empty_at s q \<longrightarrow> grade_at s CHESSMAN_BLACK q \<le> grade_at s CHESSMAN_BLACK sq) \<or>
      (100 < grade_at s CHESSMAN_WHITE sq \<and>
       (\<forall>q. empty_at s q \<longrightarrow> grade_at s CHESSMAN_WHITE q \<le> grade_at s CHESSMAN_WHITE sq \<and> grade_at s CHESSMAN_BLACK q \<le> grade_at s CHESSMAN_WHITE sq)))"

lemma computer_do_good:
  assumes "wuzi_ok s" and "empty_at s q"
  shows "\<exists>i j. good_reply s (i, j) \<and>
     computer_do s = Some (fst (put_a_chessman CHESSMAN_BLACK (int i) (int j) s), (i, j), snd (put_a_chessman CHESSMAN_BLACK (int i) (int j) s))"
proof -
  let ?b = "rate_board s"
  have r: "rated s {sq. empty_at s sq} ?b" by (rule rate_board_rated [OF assms(1)])
  then have m: "grade_at s CHESSMAN_WHITE q \<le> max_player_grade ?b \<and> grade_at s CHESSMAN_BLACK q \<le> max_comput_grade ?b"
    if "empty_at s q" for q using that by (simp add: rated_def)
  obtain d where d: "defend ?b = Some d" "empty_at s d" "max_player_grade ?b = grade_at s CHESSMAN_WHITE d"
    using r assms(2) by (cases "defend ?b") (auto simp: rated_def set_eq_iff simp del: split_paired_All)
  obtain a where a: "attack ?b = Some a" "empty_at s a" "max_comput_grade ?b = grade_at s CHESSMAN_BLACK a"
    using r assms(2) by (cases "attack ?b") (auto simp: rated_def set_eq_iff simp del: split_paired_All)
  define sq where "sq = (if max_player_grade ?b \<ge> max_comput_grade ?b \<and> max_player_grade ?b > 100 then d else a)"
  have "good_reply s sq"
  proof (cases "max_player_grade ?b \<ge> max_comput_grade ?b \<and> max_player_grade ?b > 100")
    case True
    then have "grade_at s CHESSMAN_WHITE q \<le> grade_at s CHESSMAN_WHITE d \<and> grade_at s CHESSMAN_BLACK q \<le> grade_at s CHESSMAN_WHITE d"
      if "empty_at s q" for q using m [OF that] d(3) by linarith
    then show ?thesis using True d(2,3) by (simp add: good_reply_def sq_def)
  next
    case False
    then have "sq = a" unfolding sq_def by (simp only: if_False)
    then show ?thesis using m a(2,3) by (simp add: good_reply_def)
  qed
  moreover have "(if max_player_grade ?b \<ge> max_comput_grade ?b \<and> max_player_grade ?b > 100 then defend ?b else attack ?b) = Some sq"
    using d(1) a(1) by (simp add: sq_def)
  then have "computer_do s = Some (fst (put_a_chessman CHESSMAN_BLACK (int (fst sq)) (int (snd sq)) s), sq,
      snd (put_a_chessman CHESSMAN_BLACK (int (fst sq)) (int (snd sq)) s))"
    unfolding computer_do_def Let_def by (simp add: wuzi_black_do_def split_def)
  ultimately show ?thesis by (intro exI [of _ "fst sq"] exI [of _ "snd sq"]) simp
qed

section \<open>Properties\<close>

text \<open>C28: a move out of the board or on a taken square is refused and changes nothing. Any other
  move wins exactly when it completes a line of five squares of that player; otherwise the
  chessman is on the board, the game is drawn with the last square and goes on before it, and
  the counters of both players are again what the board says.\<close>

theorem put_a_chessman_wins_by_five:
  assumes "wuzi_ok s" and "p < 2"
  shows "if row < 0 \<or> row \<ge> int ROW_NUM \<or> col < 0 \<or> col \<ge> int COL_NUM \<or> G_chessboard s (nat row) (nat col) \<noteq> CHESSMAN_NONE
     then put_a_chessman p row col s = (WUZI_NONLEGAL, s)
     else \<exists>st s'. put_a_chessman p row col s = (st, s') \<and>
       (if five (place p (nat row) (nat col) (G_chessboard s)) p then st = p
        else st = (if G_chessman_num s + 1 = CHESSMAN_NUM then WUZI_DOGFALL else WUZI_GO_AHEAD) \<and>
             G_chessboard s' = place p (nat row) (nat col) (G_chessboard s) \<and> wuzi_ok s')"
proof (cases "row < 0 \<or> row \<ge> int ROW_NUM \<or> col < 0 \<or> col \<ge> int COL_NUM \<or> G_chessboard s (nat row) (nat col) \<noteq> CHESSMAN_NONE")
  case True
  then have "put_a_chessman p row col s = (WUZI_NONLEGAL, s)" unfolding put_a_chessman_def by (simp only: if_True if_False simp_thms disj_ac split: if_split) blast
  then show ?thesis using True by simp
next
  case False
  then have r: "nat row < ROW_NUM" "nat col < COL_NUM" "at (G_chessboard s) (nat row, nat col) = CHESSMAN_NONE" "int (nat row) = row" "int (nat col) = col"
    by (auto simp: at_def)
  have "let x = put_a_chessman p row col s in
     if five (place p (nat row) (nat col) (G_chessboard s)) p then fst x = p
     else fst x = (if G_chessman_num s + 1 = CHESSMAN_NUM then WUZI_DOGFALL else WUZI_GO_AHEAD) \<and>
          G_chessboard (snd x) = place p (nat row) (nat col) (G_chessboard s) \<and> wuzi_ok (snd x)"
    using put_a_chessman_ok [OF assms r(1-3)] unfolding r(4,5) Let_def .
  then show ?thesis unfolding if_not_P [OF False] by (cases "put_a_chessman p row col s") (simp only: Let_def fst_conv snd_conv prod.inject, blast)
qed

text \<open>when the move of the player neither is refused nor ends the game, the computer answers,
  and always with a legal move: on an empty square of the board that is best to attack, or worth
  more than 100 points to the player and best to defend. The answer wins when it completes five.\<close>

theorem wuzi_round_answers:
  assumes "wuzi_ok s" and "player_do row col s = (st1, s1)"
  shows "if st1 \<noteq> WUZI_GO_AHEAD then wuzi_round_do row col s = Some (st1, None, s1)
     else wuzi_ok s1 \<and> (\<exists>i j st s2. wuzi_round_do row col s = Some (st, Some (i, j), s2) \<and> good_reply s1 (i, j) \<and>
       (if five (place CHESSMAN_BLACK i j (G_chessboard s1)) CHESSMAN_BLACK then st = CHESSMAN_BLACK
        else (st = WUZI_DOGFALL \<or> st = WUZI_GO_AHEAD) \<and> wuzi_ok s2))"
proof (cases "st1 = WUZI_GO_AHEAD")
  case True
  let ?r = "nat row" and ?c = "nat col"
  have put: "put_a_chessman 0 row col s = (3, s1)" using assms(2) True by (simp add: player_do_def wuzi_white_do_def)
  have legal: "\<not> (row < 0 \<or> row \<ge> int ROW_NUM \<or> col < 0 \<or> col \<ge> int COL_NUM \<or> G_chessboard s ?r ?c \<noteq> CHESSMAN_NONE)"
  proof
    assume "row < 0 \<or> row \<ge> int ROW_NUM \<or> col < 0 \<or> col \<ge> int COL_NUM \<or> G_chessboard s ?r ?c \<noteq> CHESSMAN_NONE"
    then have "put_a_chessman 0 row col s = (4, s)" unfolding put_a_chessman_def by auto
    then show False using put by simp
  qed
  then have r: "?r < ROW_NUM" "?c < COL_NUM" "at (G_chessboard s) (?r, ?c) = CHESSMAN_NONE" "int ?r = row" "int ?c = col"
    by (auto simp: at_def)
  have five: "\<not> five (place 0 ?r ?c (G_chessboard s)) 0" "G_chessman_num s + 1 \<noteq> CHESSMAN_NUM"
    and s1: "G_chessboard s1 = place 0 ?r ?c (G_chessboard s)" "wuzi_ok s1"
    using put_a_chessman_ok [OF assms(1) _ r(1-3), of 0] put unfolding r(4,5) by (auto split: if_splits)
  have "\<exists>q. empty_at s1 q"
  proof (rule ccontr)
    assume "\<nexists>q. empty_at s1 q"
    then have "taken (G_chessboard s1) = {..<ROW_NUM} \<times> {..<COL_NUM}" by (auto simp: taken_def empty_at_def)
    then have "card (taken (G_chessboard s1)) = CHESSMAN_NUM" by simp
    moreover have "card (taken (G_chessboard s1)) = G_chessman_num s + 1"
      using taken_place [OF r(1,2) _ r(3), of 0] assms(1) s1(1) by (simp add: wuzi_ok_def)
    ultimately show False using five(2) by simp
  qed
  then obtain i j where g: "good_reply s1 (i, j)"
    and c: "computer_do s1 = Some (fst (put_a_chessman 1 (int i) (int j) s1), (i, j), snd (put_a_chessman 1 (int i) (int j) s1))"
    using computer_do_good [OF s1(2)] by blast
  have e: "i < ROW_NUM" "j < COL_NUM" "at (G_chessboard s1) (i, j) = CHESSMAN_NONE" using g by (simp_all add: good_reply_def empty_at_def)
  have "wuzi_round_do row col s = Some (fst (put_a_chessman 1 (int i) (int j) s1), Some (i, j), snd (put_a_chessman 1 (int i) (int j) s1))"
    using assms(2) True c by (simp add: wuzi_round_do_def)
  then show ?thesis using True g s1(2) put_a_chessman_ok [OF s1(2) _ e, of 1] by (auto split: if_splits)
qed (use assms(2) in \<open>simp add: wuzi_round_do_def\<close>)

definition wuzi_new :: wuzi_state where
  "wuzi_new = wuzi_start \<lparr>G_chessman_num = 0, G_chessboard = (\<lambda>_ _. 0), G_occupy_num = (\<lambda>_ _. 0), G_win_case_table = (\<lambda>_ _ _. 0), wz_initialized = False\<rparr>"

lemma wuzi_new_ok: "wuzi_ok wuzi_new"
  unfolding wuzi_new_def by (rule wuzi_start_ok) simp_all

lemma wuzi_new_board: "G_chessboard wuzi_new = (\<lambda>_ _. 2)" "G_chessman_num wuzi_new = 0"
  by (simp_all add: wuzi_new_def wuzi_start_def Let_def)

lemma wuzi_new_five: "p < 2 \<Longrightarrow> \<not> five (place p r c (\<lambda>_ _. 2)) p"
proof
  assume p: "p < 2" and "five (place p r c (\<lambda>_ _. 2)) p"
  then obtain k where k: "k < WIN_CASE_NUM" "\<forall>sq \<in> win_lines ! k. at (place p r c (\<lambda>_ _. 2)) sq = p" unfolding five_at by blast
  then have "win_lines ! k \<subseteq> {(r, c)}" using p by (auto split: if_splits) (auto simp: at_def)
  then have "card (win_lines ! k) \<le> 1" using card_mono [of "{(r, c)}" "win_lines ! k"] by simp
  then show False using line_at(2) [OF k(1)] by simp
qed

theorem put_a_chessman_wins_by_five_witness:
  "\<exists>s'. put_a_chessman CHESSMAN_WHITE 7 7 wuzi_new = (WUZI_GO_AHEAD, s') \<and> G_chessboard s' 7 7 = CHESSMAN_WHITE \<and> wuzi_ok s'"
  using put_a_chessman_wins_by_five [OF wuzi_new_ok, of CHESSMAN_WHITE 7 7] wuzi_new_five [of 0 7 7]
  by (auto simp: wuzi_new_board place_def)

theorem wuzi_round_answers_witness:
  "\<exists>i j st s2. wuzi_round_do 7 7 wuzi_new = Some (st, Some (i, j), s2) \<and> i < ROW_NUM \<and> j < COL_NUM \<and> (i, j) \<noteq> (7, 7)"
proof -
  obtain s1 where s1: "player_do 7 7 wuzi_new = (WUZI_GO_AHEAD, s1)" "G_chessboard s1 = place 0 7 7 (\<lambda>_ _. 2)"
    using put_a_chessman_ok [OF wuzi_new_ok, of 0 7 7] wuzi_new_five [of 0 7 7]
    by (cases "put_a_chessman 0 7 7 wuzi_new") (auto simp: wuzi_new_board player_do_def wuzi_white_do_def at_def)
  obtain i j st s2 where "wuzi_round_do 7 7 wuzi_new = Some (st, Some (i, j), s2)" "good_reply s1 (i, j)"
    using wuzi_round_answers [OF wuzi_new_ok s1(1)] by auto
  moreover then have "(i, j) \<noteq> (7, 7)" "i < ROW_NUM" "j < COL_NUM"
    using s1(2) by (auto simp: good_reply_def empty_at_def)
  ultimately show ?thesis by blast
qed

end
