(* ===== verification/Lian.thy ===== *)
theory Lian
  imports CNumber "HOL-Library.Multiset"
begin

text \<open>
  The core of the game of connecting pairs, \<^verbatim>\<open>src/lianliankan/src/lian.c\<close>: whether two equal
  blocks can be joined by at most three straight lines through free cells (\<^verbatim>\<open>lian_check\<close> and its
  helpers), the search for such a pair (\<^verbatim>\<open>lian_get_op\<close>), the filling of a level (\<^verbatim>\<open>lian_init\<close>) and
  the shuffling of the blocks that are left (\<^verbatim>\<open>lian_reorder\<close>). \<open>None\<close> stands for an access out of
  the map or of the array of turning points.
\<close>

section \<open>Maps, points and the path\<close>

type_synonym lian_map = "int list list"

record COOR =
  cx :: int
  cy :: int

record way_state =
  G_way :: "COOR list"
  G_pos :: nat

abbreviation (input) NO_WAY :: int where "NO_WAY \<equiv> 0"
abbreviation (input) CAN_GO :: int where "CAN_GO \<equiv> 1"

definition cell :: "lian_map \<Rightarrow> int \<Rightarrow> int \<Rightarrow> int option" where
  "cell m y x =
     (if 0 \<le> y \<and> nat y < length m \<and> 0 \<le> x \<and> nat x < length (m ! nat y) then Some (m ! nat y ! nat x) else None)"

definition cell_at :: "lian_map \<Rightarrow> COOR \<Rightarrow> int option" where
  "cell_at m p = cell m (cy p) (cx p)"

text \<open>\<^verbatim>\<open>_G_way[_G_pos++] = p\<close> and \<^verbatim>\<open>_G_pos--\<close>.\<close>

definition push_way :: "COOR \<Rightarrow> way_state \<Rightarrow> way_state option" where
  "push_way p w = (if G_pos w < length (G_way w) then Some (w\<lparr>G_way := (G_way w)[G_pos w := p], G_pos := G_pos w + 1\<rparr>) else None)"

definition pop_way :: "way_state \<Rightarrow> way_state" where
  "pop_way w = w\<lparr>G_pos := G_pos w - 1\<rparr>"

section \<open>One line\<close>

text \<open>\<^verbatim>\<open>while ((--i > e) && (map[..] == 0)) ;\<close> and its mirror image; the value of \<^verbatim>\<open>i\<close> is returned.\<close>

function reach_dec :: "(int \<Rightarrow> int option) \<Rightarrow> int \<Rightarrow> int \<Rightarrow> int option" where
  "reach_dec f e i =
     (if i - 1 > e then (case f (i - 1) of None \<Rightarrow> None | Some v \<Rightarrow> if v = 0 then reach_dec f e (i - 1) else Some (i - 1))
      else Some (i - 1))"
  by pat_completeness auto
termination by (relation "measure (\<lambda>(f, e, i). nat (i - e))") auto

function reach_inc :: "(int \<Rightarrow> int option) \<Rightarrow> int \<Rightarrow> int \<Rightarrow> int option" where
  "reach_inc f e i =
     (if i + 1 < e then (case f (i + 1) of None \<Rightarrow> None | Some v \<Rightarrow> if v = 0 then reach_inc f e (i + 1) else Some (i + 1))
      else Some (i + 1))"
  by pat_completeness auto
termination by (relation "measure (\<lambda>(f, e, i). nat (e - i))") auto

datatype direction = LEFT | RIGHT | UP | DOWN

definition reach :: "lian_map \<Rightarrow> COOR \<Rightarrow> COOR \<Rightarrow> int option" where
  "reach m start finish =
     (let dir = (if cx start > cx finish \<and> cy start = cy finish then Some LEFT
                 else if cx start < cx finish \<and> cy start = cy finish then Some RIGHT
                 else if cx start = cx finish \<and> cy start > cy finish then Some UP
                 else if cx start = cx finish \<and> cy start < cy finish then Some DOWN
                 else None)
      in case dir of
           None \<Rightarrow> Some NO_WAY
         | Some LEFT \<Rightarrow> map_option (\<lambda>i. if i = cx finish then CAN_GO else NO_WAY) (reach_dec (\<lambda>x. cell m (cy start) x) (cx finish) (cx start))
         | Some RIGHT \<Rightarrow> map_option (\<lambda>i. if i = cx finish then CAN_GO else NO_WAY) (reach_inc (\<lambda>x. cell m (cy start) x) (cx finish) (cx start))
         | Some UP \<Rightarrow> map_option (\<lambda>i. if i = cy finish then CAN_GO else NO_WAY) (reach_dec (\<lambda>y. cell m y (cx start)) (cy finish) (cy start))
         | Some DOWN \<Rightarrow> map_option (\<lambda>i. if i = cy finish then CAN_GO else NO_WAY) (reach_inc (\<lambda>y. cell m y (cx start)) (cy finish) (cy start)))"

section \<open>Two and three lines\<close>

text \<open>
  The step that \<^verbatim>\<open>_lr_reach\<close> does for each of its two turning points: the point \<open>probe\<close> one behind
  the turn has to be reached, so that the turn itself is free.
\<close>

definition try_turn :: "lian_map \<Rightarrow> COOR \<Rightarrow> COOR \<Rightarrow> COOR \<Rightarrow> COOR \<Rightarrow> way_state \<Rightarrow> (bool \<times> way_state) option" where
  "try_turn m start probe turn finish w =
     Option.bind (reach m start probe) (\<lambda>r.
       if r = CAN_GO then
         Option.bind (push_way turn w) (\<lambda>w1.
           Option.bind (reach m turn finish) (\<lambda>r2. if r2 = CAN_GO then Some (True, w1) else Some (False, pop_way w1)))
       else Some (False, w))"

definition lr_reach :: "lian_map \<Rightarrow> COOR \<Rightarrow> COOR \<Rightarrow> way_state \<Rightarrow> (int \<times> way_state) option" where
  "lr_reach m start finish w =
     (let turns = (if cx start > cx finish \<and> cy start > cy finish then
                     Some (\<lparr>cx = cx finish - 1, cy = cy start\<rparr>, \<lparr>cx = cx start, cy = cy finish - 1\<rparr>)
                   else if cx start < cx finish \<and> cy start > cy finish then
                     Some (\<lparr>cx = cx finish + 1, cy = cy start\<rparr>, \<lparr>cx = cx start, cy = cy finish - 1\<rparr>)
                   else if cx start > cx finish \<and> cy start < cy finish then
                     Some (\<lparr>cx = cx finish - 1, cy = cy start\<rparr>, \<lparr>cx = cx start, cy = cy finish + 1\<rparr>)
                   else if cx start < cx finish \<and> cy start < cy finish then
                     Some (\<lparr>cx = cx finish + 1, cy = cy start\<rparr>, \<lparr>cx = cx start, cy = cy finish + 1\<rparr>)
                   else None)
      in case turns of
           None \<Rightarrow> Some (NO_WAY, w)
         | Some (turn0, turn1) \<Rightarrow>
             Option.bind (try_turn m start turn0 (turn0\<lparr>cx := cx finish\<rparr>) finish w) (\<lambda>(ok, w1).
               if ok then Some (CAN_GO, w1)
               else Option.bind (try_turn m start turn1 (turn1\<lparr>cy := cy finish\<rparr>) finish w1) (\<lambda>(ok, w2).
                 if ok then Some (CAN_GO, w2) else Some (NO_WAY, w2))))"

text \<open>
  \<^verbatim>\<open>while (map[turn.y + dy][turn.x + dx] == 0) LR_REACH();\<close> where the step is made before the
  test; the four loops of \<^verbatim>\<open>_lr_lr_reach\<close> differ in the step only.
\<close>

partial_function (option) lr_walk :: "lian_map \<Rightarrow> int \<Rightarrow> int \<Rightarrow> COOR \<Rightarrow> COOR \<Rightarrow> way_state \<Rightarrow> (int \<times> way_state) option" where
  "lr_walk m dx dy turn finish w =
     Option.bind (cell m (cy turn + dy) (cx turn + dx)) (\<lambda>v.
       if v = 0 then
         Option.bind (push_way \<lparr>cx = cx turn + dx, cy = cy turn + dy\<rparr> w) (\<lambda>w1.
           Option.bind (lr_reach m \<lparr>cx = cx turn + dx, cy = cy turn + dy\<rparr> finish w1) (\<lambda>rw.
             if fst rw = CAN_GO then Some (CAN_GO, snd rw)
             else lr_walk m dx dy \<lparr>cx = cx turn + dx, cy = cy turn + dy\<rparr> finish (pop_way (snd rw))))
       else Some (NO_WAY, w))"

definition lr_lr_reach :: "lian_map \<Rightarrow> COOR \<Rightarrow> COOR \<Rightarrow> way_state \<Rightarrow> (int \<times> way_state) option" where
  "lr_lr_reach m start finish w =
     Option.bind (lr_walk m (-1) 0 start finish w) (\<lambda>(r, w1). if r = CAN_GO then Some (CAN_GO, w1) else
     Option.bind (lr_walk m 1 0 start finish w1) (\<lambda>(r, w2). if r = CAN_GO then Some (CAN_GO, w2) else
     Option.bind (lr_walk m 0 (-1) start finish w2) (\<lambda>(r, w3). if r = CAN_GO then Some (CAN_GO, w3) else
     Option.bind (lr_walk m 0 1 start finish w3) (\<lambda>(r, w4). if r = CAN_GO then Some (CAN_GO, w4) else
     Some (NO_WAY, w4)))))"

definition lian_check :: "lian_map \<Rightarrow> COOR \<Rightarrow> COOR \<Rightarrow> way_state \<Rightarrow> (int \<times> way_state) option" where
  "lian_check m start finish w =
     (if cx start = cx finish \<and> cy start = cy finish then Some (NO_WAY, w)
      else
        Option.bind (cell_at m start) (\<lambda>a. if a = 0 then Some (NO_WAY, w) else
        Option.bind (cell_at m finish) (\<lambda>b. if a \<noteq> b then Some (NO_WAY, w) else
        Option.bind (push_way start (w\<lparr>G_pos := 0\<rparr>)) (\<lambda>w1.
        Option.bind (reach m start finish) (\<lambda>r.
          if r = CAN_GO then Option.bind (push_way finish w1) (\<lambda>w2. Some (CAN_GO, w2)) else
        Option.bind (lr_reach m start finish w1) (\<lambda>(r, w2).
          if r = CAN_GO then Option.bind (push_way finish w2) (\<lambda>w3. Some (CAN_GO, w3)) else
        Option.bind (lr_lr_reach m start finish w2) (\<lambda>(r, w3).
          if r = CAN_GO then Option.bind (push_way finish w3) (\<lambda>w4. Some (CAN_GO, w4)) else
        Some (NO_WAY, w3))))))))"

section \<open>The whole map\<close>

text \<open>The globals of the file; \<open>holdrand\<close> is the state of \<^verbatim>\<open>rand\<close>.\<close>

record lian_state =
  G_map :: lian_map
  L_way :: way_state
  G_op_cnt :: nat
  G_ops :: "(COOR \<times> COOR) list"
  holdrand :: uint32

text \<open>
  The pairs of points in the order of the nested loops of \<^verbatim>\<open>lian_get_op\<close>: the rest of the row of
  the first point, then the rows below.
\<close>

definition pairs :: "(COOR \<times> COOR) list" where
  "pairs = concat (map (\<lambda>i. concat (map (\<lambda>j.
      map (\<lambda>q. (\<lparr>cx = j, cy = i\<rparr>, \<lparr>cx = q, cy = i\<rparr>)) [j + 1..10] @
      concat (map (\<lambda>p. map (\<lambda>q. (\<lparr>cx = j, cy = i\<rparr>, \<lparr>cx = q, cy = p\<rparr>)) [1..10]) [i + 1..10])) [1..10])) [1..10])"

fun scan_pairs :: "lian_map \<Rightarrow> (COOR \<times> COOR) list \<Rightarrow> lian_state \<Rightarrow> (nat \<times> lian_state) option" where
  "scan_pairs m [] s = Some (G_op_cnt s, s)"
| "scan_pairs m ((start, finish) # ps) s =
     Option.bind (lian_check m start finish (L_way s)) (\<lambda>(r, w).
       if r = CAN_GO then
         Some (1, s\<lparr>L_way := w, G_op_cnt := 1, G_ops := (G_ops s)[0 := (start, finish)]\<rparr>)
       else scan_pairs m ps (s\<lparr>L_way := w\<rparr>))"

definition lian_get_op :: "lian_map \<Rightarrow> lian_state \<Rightarrow> (nat \<times> lian_state) option" where
  "lian_get_op m s = scan_pairs m pairs (s\<lparr>G_op_cnt := 0\<rparr>)"

text \<open>\<^verbatim>\<open>_G_map[i][j]\<close> inside of the map, read and written; the cells in the order of the loops.\<close>

definition grid_at :: "lian_map \<Rightarrow> nat \<times> nat \<Rightarrow> int" where
  "grid_at m c = m ! fst c ! snd c"

definition grid_put :: "nat \<times> nat \<Rightarrow> int \<Rightarrow> lian_map \<Rightarrow> lian_map" where
  "grid_put c v m = m[fst c := (m ! fst c)[snd c := v]]"

definition cells :: "(nat \<times> nat) list" where
  "cells = concat (map (\<lambda>i. map (Pair i) [1..<11]) [1..<11])"

text \<open>\<^verbatim>\<open>ex = i + rand () % (fill_cnt - i)\<close>, then \<^verbatim>\<open>temp[i]\<close> and \<^verbatim>\<open>temp[ex]\<close> are exchanged.\<close>

function shuffle :: "nat \<Rightarrow> nat \<Rightarrow> int list \<Rightarrow> uint32 \<Rightarrow> int list \<times> uint32" where
  "shuffle i fill_cnt temp h =
     (if i < fill_cnt then
        let (r, h1) = rand h; ex = i + unat r mod (fill_cnt - i)
        in shuffle (i + 1) fill_cnt (temp[i := temp ! ex, ex := temp ! i]) h1
      else (temp, h))"
  by pat_completeness auto
termination by (relation "measure (\<lambda>(i, n, t, h). n - i)") auto

text \<open>\<open>if (what[i][j] != 0) map[i][j] = temp[--temp_fill];\<close>\<close>

definition fill_level :: "lian_map \<Rightarrow> int list \<Rightarrow> nat \<times> nat \<Rightarrow> lian_map \<times> nat \<Rightarrow> lian_map \<times> nat" where
  "fill_level level temp c = (\<lambda>(m, n). if grid_at level c \<noteq> 0 then (grid_put c (temp ! (n - 1)) m, n - 1) else (m, n))"

definition fill_again :: "int list \<Rightarrow> nat \<times> nat \<Rightarrow> lian_map \<times> nat \<Rightarrow> lian_map \<times> nat" where
  "fill_again temp c = (\<lambda>(m, n). if grid_at m c \<noteq> 0 then (grid_put c (temp ! (n - 1)) m, n - 1) else (m, n))"

definition lian_reorder :: "lian_state \<Rightarrow> nat \<times> lian_state" where
  "lian_reorder s =
     (let temp = map (grid_at (G_map s)) (filter (\<lambda>c. grid_at (G_map s) c \<noteq> 0) cells);
          fill_cnt = length temp;
          (temp1, h) = shuffle 0 fill_cnt temp (holdrand s);
          (m, n) = fold (fill_again temp1) cells (G_map s, fill_cnt)
      in (fill_cnt, s\<lparr>G_map := m, holdrand := h\<rparr>))"

definition G_type_num :: "nat list" where
  "G_type_num = [8, 12, 16, 20, 24]"

definition G_level_maps :: "lian_map list" where
  "G_level_maps =
   [[[-1, -1, -1, -1, -1, -1, -1, -1, -1, -1, -1, -1],
     [-1, 0, 0, 0, 0, 0, 0, 0, 0, 0, 0, -1],
     [-1, 0, 1, 1, 1, 1, 1, 1, 1, 1, 0, -1],
     [-1, 0, 1, 1, 1, 1, 1, 1, 1, 1, 0, -1],
     [-1, 0, 1, 1, 1, 1, 1, 1, 1, 1, 0, -1],
     [-1, 0, 0, 0, 0, 1, 1, 0, 0, 0, 0, -1],
     [-1, 0, 0, 0, 0, 1, 1, 0, 0, 0, 0, -1],
     [-1, 0, 1, 1, 1, 1, 1, 1, 1, 1, 0, -1],
     [-1, 0, 1, 1, 1, 1, 1, 1, 1, 1, 0, -1],
     [-1, 0, 1, 1, 1, 1, 1, 1, 1, 1, 0, -1],
     [-1, 0, 0, 0, 0, 0, 0, 0, 0, 0, 0, -1],
     [-1, -1, -1, -1, -1, -1, -1, -1, -1, -1, -1, -1]],
    [[-1, -1, -1, -1, -1, -1, -1, -1, -1, -1, -1, -1],
     [-1, 0, 0, 0, 0, 0, 0, 0, 0, 0, 0, -1],
     [-1, 0, 1, 1, 1, 1, 1, 1, 1, 1, 0, -1],
     [-1, 0, 1, 1, 1, 0, 0, 1, 1, 1, 0, -1],
     [-1, 0, 1, 1, 1, 1, 1, 1, 1, 1, 0, -1],
     [-1, 0, 0, 0, 0, 1, 1, 1, 0, 0, 0, -1],
     [-1, 0, 1, 1, 0, 1, 1, 0, 0, 1, 0, -1],
     [-1, 0, 1, 1, 1, 1, 1, 1, 1, 1, 0, -1],
     [-1, 0, 1, 1, 1, 1, 1, 1, 1, 1, 0, -1],
     [-1, 0, 1, 1, 1, 1, 1, 1, 1, 1, 0, -1],
     [-1, 0, 0, 0, 0, 0, 0, 0, 0, 0, 0, -1],
     [-1, -1, -1, -1, -1, -1, -1, -1, -1, -1, -1, -1]],
    [[-1, -1, -1, -1, -1, -1, -1, -1, -1, -1, -1, -1],
     [-1, 0, 0, 0, 0, 0, 0, 0, 0, 0, 0, -1],
     [-1, 0, 1, 1, 1, 1, 1, 1, 1, 1, 0, -1],
     [-1, 0, 1, 1, 1, 1, 1, 1, 1, 1, 0, -1],
     [-1, 0, 1, 1, 1, 1, 1, 1, 1, 1, 0, -1],
     [-1, 0, 1, 1, 1, 1, 1, 1, 1, 1, 0, -1],
     [-1, 0, 1, 1, 1, 1, 1, 1, 1, 1, 0, -1],
     [-1, 0, 1, 1, 1, 1, 1, 1, 1, 1, 0, -1],
     [-1, 0, 1, 1, 1, 1, 1, 1, 1, 1, 0, -1],
     [-1, 0, 1, 1, 1, 1, 1, 1, 1, 1, 0, -1],
     [-1, 0, 0, 0, 0, 0, 0, 0, 0, 0, 0, -1],
     [-1, -1, -1, -1, -1, -1, -1, -1, -1, -1, -1, -1]]]"

text \<open>Two blocks of each type in turn; \<open>i\<close> blocks are there.\<close>

function make_blocks :: "nat \<Rightarrow> nat \<Rightarrow> nat \<Rightarrow> nat \<Rightarrow> int list" where
  "make_blocks i type fill_cnt type_num =
     (if i < fill_cnt then int (type + 1) # int (type + 1) # make_blocks (i + 2) ((type + 1) mod type_num) fill_cnt type_num
      else [])"
  by pat_completeness auto
termination by (relation "measure (\<lambda>(i, t, n, k). n - i)") auto

text \<open>
  The array \<^verbatim>\<open>temp\<close> is local to the call: it comes from \<^verbatim>\<open>calloc\<close>, which does not return without
  memory, and is given back at the end.
\<close>

definition lian_init :: "nat \<Rightarrow> lian_state \<Rightarrow> int \<times> lian_state" where
  "lian_init level s =
     (if level \<ge> 15 then (-1, s)
      else
        let lm = G_level_maps ! (level mod 3);
            fill_cnt = length (filter (\<lambda>c. grid_at lm c \<noteq> 0) cells);
            m0 = fold (\<lambda>c. grid_put c 0) cells (G_map s)
        in if fill_cnt mod 2 \<noteq> 0 then (-1, s\<lparr>G_map := m0\<rparr>)
           else
             let (temp, h) = shuffle 0 fill_cnt (make_blocks 0 0 fill_cnt (G_type_num ! (level div 3))) (holdrand s);
                 (m, n) = fold (fill_level lm temp) cells (m0, fill_cnt)
             in (int fill_cnt, s\<lparr>G_map := m, holdrand := h\<rparr>))"

definition lian_test :: "int \<Rightarrow> int \<Rightarrow> int \<Rightarrow> int \<Rightarrow> lian_state \<Rightarrow> (int \<times> lian_state) option" where
  "lian_test x0 y0 x1 y1 s =
     Option.bind (lian_check (G_map s) \<lparr>cx = x0, cy = y0\<rparr> \<lparr>cx = x1, cy = y1\<rparr> (L_way s)) (\<lambda>(r, w).
       if r = CAN_GO then
         let a = G_way w ! 0; b = G_way w ! (G_pos w - 1)
         in Some (1, s\<lparr>L_way := w,
                      G_map := grid_put (nat (cy b), nat (cx b)) 0 (grid_put (nat (cy a), nat (cx a)) 0 (G_map s))\<rparr>)
       else Some (0, s\<lparr>L_way := w\<rparr>))"

declare shuffle.simps [simp del] make_blocks.simps [simp del] reach_dec.simps [simp del] reach_inc.simps [simp del] lr_walk.simps [code]

section \<open>Lines and paths\<close>

text \<open>A map as the game has it: twelve by twelve cells, and no free cell at the border.\<close>

definition map_ok :: "lian_map \<Rightarrow> bool" where
  "map_ok m \<longleftrightarrow> length m = 12 \<and> (\<forall>row \<in> set m. length row = 12) \<and>
     (\<forall>i < 12. m ! 0 ! i \<noteq> 0 \<and> m ! 11 ! i \<noteq> 0 \<and> m ! i ! 0 \<noteq> 0 \<and> m ! i ! 11 \<noteq> 0)"

definition inside :: "COOR \<Rightarrow> bool" where
  "inside p \<longleftrightarrow> 1 \<le> cx p \<and> cx p \<le> 10 \<and> 1 \<le> cy p \<and> cy p \<le> 10"

abbreviation vacant :: "lian_map \<Rightarrow> COOR \<Rightarrow> bool" where
  "vacant m p \<equiv> cell_at m p = Some 0"

text \<open>Between \<open>a\<close> and \<open>b\<close>, without them, in either order.\<close>

definition amid :: "int \<Rightarrow> int \<Rightarrow> int \<Rightarrow> bool" where
  "amid a b i \<longleftrightarrow> min a b < i \<and> i < max a b"

definition hline :: "lian_map \<Rightarrow> COOR \<Rightarrow> COOR \<Rightarrow> bool" where
  "hline m p q \<longleftrightarrow> cy p = cy q \<and> cx p \<noteq> cx q \<and> (\<forall>x. amid (cx p) (cx q) x \<longrightarrow> cell m (cy p) x = Some 0)"

definition vline :: "lian_map \<Rightarrow> COOR \<Rightarrow> COOR \<Rightarrow> bool" where
  "vline m p q \<longleftrightarrow> cx p = cx q \<and> cy p \<noteq> cy q \<and> (\<forall>y. amid (cy p) (cy q) y \<longrightarrow> cell m y (cx p) = Some 0)"

text \<open>A path: consecutive points are joined by free lines, and it turns at free cells.\<close>

fun lined :: "lian_map \<Rightarrow> COOR list \<Rightarrow> bool" where
  "lined m (p # q # ps) \<longleftrightarrow> (hline m p q \<or> vline m p q) \<and> (ps \<noteq> [] \<longrightarrow> vacant m q) \<and> lined m (q # ps)"
| "lined m _ \<longleftrightarrow> True"

lemma cell_inside: "map_ok m \<Longrightarrow> 0 \<le> y \<Longrightarrow> y \<le> 11 \<Longrightarrow> 0 \<le> x \<Longrightarrow> x \<le> 11 \<Longrightarrow> cell m y x = Some (m ! nat y ! nat x)"
  by (auto simp: map_ok_def cell_def)

lemma cell_border: "map_ok m \<Longrightarrow> 0 \<le> y \<Longrightarrow> y \<le> 11 \<Longrightarrow> 0 \<le> x \<Longrightarrow> x \<le> 11 \<Longrightarrow> y = 0 \<or> y = 11 \<or> x = 0 \<or> x = 11 \<Longrightarrow> cell m y x \<noteq> Some 0"
proof -
  assume a: "map_ok m" "0 \<le> y" "y \<le> 11" "0 \<le> x" "x \<le> 11" "y = 0 \<or> y = 11 \<or> x = 0 \<or> x = 11"
  have b: "m ! 0 ! i \<noteq> 0 \<and> m ! 11 ! i \<noteq> 0 \<and> m ! i ! 0 \<noteq> 0 \<and> m ! i ! 11 \<noteq> 0" if "i < 12" for i
    using a(1) that unfolding map_ok_def by blast
  have "nat y < 12" "nat x < 12" using a by auto
  from b [OF this(1)] b [OF this(2)] show ?thesis using a(6) cell_inside [OF a(1-5)] by auto
qed

lemma reach_dec_spec:
  "e < i \<Longrightarrow> (\<And>j. e < j \<Longrightarrow> j < i \<Longrightarrow> f j \<noteq> None) \<Longrightarrow> \<exists>r. reach_dec f e i = Some r \<and> (r = e \<longleftrightarrow> (\<forall>j. e < j \<and> j < i \<longrightarrow> f j = Some 0))"
proof (induction f e i rule: reach_dec.induct)
  case (1 f e i)
  show ?case
  proof (cases "e < i - 1 \<and> f (i - 1) = Some 0")
    case True
    have "(\<forall>j. e < j \<and> j < i \<longrightarrow> f j = Some 0) \<longleftrightarrow> (\<forall>j. e < j \<and> j < i - 1 \<longrightarrow> f j = Some 0)"
    proof -
      have "e < j \<and> j < i \<longleftrightarrow> j = i - 1 \<or> e < j \<and> j < i - 1" for j using True by auto
      then show ?thesis using True by auto
    qed
    moreover have "\<exists>r. reach_dec f e (i - 1) = Some r \<and> (r = e \<longleftrightarrow> (\<forall>j. e < j \<and> j < i - 1 \<longrightarrow> f j = Some 0))"
      by (rule "1.IH") (use True "1.prems" in auto)
    moreover have "reach_dec f e i = reach_dec f e (i - 1)" using True by (subst reach_dec.simps) simp
    ultimately show ?thesis by simp
  next
    case False
    then have "reach_dec f e i = Some (i - 1)"
      using "1.prems"(2) [of "i - 1"] by (subst reach_dec.simps) (auto split: option.splits)
    moreover have "i - 1 = e \<longleftrightarrow> (\<forall>j. e < j \<and> j < i \<longrightarrow> f j = Some 0)"
    proof
      assume "\<forall>j. e < j \<and> j < i \<longrightarrow> f j = Some 0"
      then have "\<not> e < i - 1" using False by auto
      then show "i - 1 = e" using "1.prems"(1) by simp
    qed auto
    ultimately show ?thesis by simp
  qed
qed

lemma reach_inc_mirror: "reach_inc f e i = map_option uminus (reach_dec (\<lambda>j. f (- j)) (- e) (- i))"
proof (induction f e i rule: reach_inc.induct)
  case (1 f e i)
  have "- (- i - 1) = i + 1" "- (i + 1) = - i - 1" by simp_all
  then show ?case
    using "1.IH" by (subst reach_inc.simps, subst reach_dec.simps) (auto simp: add.commute [of 1 i] split: option.splits)
qed

lemma reach_inc_spec:
  assumes "i < e" and "\<And>j. i < j \<Longrightarrow> j < e \<Longrightarrow> f j \<noteq> None"
  shows "\<exists>r. reach_inc f e i = Some r \<and> (r = e \<longleftrightarrow> (\<forall>j. i < j \<and> j < e \<longrightarrow> f j = Some 0))"
proof -
  obtain r where r: "reach_dec (\<lambda>j. f (- j)) (- e) (- i) = Some r" "r = - e \<longleftrightarrow> (\<forall>j. - e < j \<and> j < - i \<longrightarrow> f (- j) = Some 0)"
    using reach_dec_spec [of "- e" "- i" "\<lambda>j. f (- j)"] assms by auto
  have "(\<forall>j. - e < j \<and> j < - i \<longrightarrow> f (- j) = Some 0) \<longleftrightarrow> (\<forall>j. i < j \<and> j < e \<longrightarrow> f j = Some 0)"
    by (metis minus_less_iff neg_less_iff_less minus_minus)
  then show ?thesis using r by (auto simp: reach_inc_mirror)
qed

abbreviation line :: "lian_map \<Rightarrow> COOR \<Rightarrow> COOR \<Rightarrow> bool" where
  "line m p q \<equiv> hline m p q \<or> vline m p q"

definition in_map :: "COOR \<Rightarrow> bool" where
  "in_map p \<longleftrightarrow> 0 \<le> cx p \<and> cx p \<le> 11 \<and> 0 \<le> cy p \<and> cy p \<le> 11"

lemma inside_in_map: "inside p \<Longrightarrow> in_map p"
  by (simp add: inside_def in_map_def)

lemma reach_line:
  assumes "map_ok m" and "in_map p" and "in_map q"
  shows "reach m p q = Some (if line m p q then CAN_GO else NO_WAY)"
proof -
  have h: "cell m (cy p) x \<noteq> None" if "min (cx p) (cx q) < x" "x < max (cx p) (cx q)" for x
    using cell_inside [OF assms(1), of "cy p" x] assms(2,3) that by (auto simp: in_map_def)
  have v: "cell m y (cx p) \<noteq> None" if "min (cy p) (cy q) < y" "y < max (cy p) (cy q)" for y
    using cell_inside [OF assms(1), of y "cx p"] assms(2,3) that by (auto simp: in_map_def)
  consider (L) "cx p > cx q" "cy p = cy q" | (R) "cx p < cx q" "cy p = cy q" | (U) "cx p = cx q" "cy p > cy q"
    | (D) "cx p = cx q" "cy p < cy q" | (no) "cx p \<noteq> cx q" "cy p \<noteq> cy q" | (same) "cx p = cx q" "cy p = cy q" by linarith
  then show ?thesis
  proof cases
    case L
    obtain r where "reach_dec (\<lambda>x. cell m (cy p) x) (cx q) (cx p) = Some r"
      "r = cx q \<longleftrightarrow> (\<forall>x. cx q < x \<and> x < cx p \<longrightarrow> cell m (cy p) x = Some 0)"
      using reach_dec_spec [OF L(1), of "\<lambda>x. cell m (cy p) x"] h L(1) by auto
    then show ?thesis using L by (simp add: reach_def Let_def hline_def vline_def amid_def)
  next
    case R
    obtain r where "reach_inc (\<lambda>x. cell m (cy p) x) (cx q) (cx p) = Some r"
      "r = cx q \<longleftrightarrow> (\<forall>x. cx p < x \<and> x < cx q \<longrightarrow> cell m (cy p) x = Some 0)"
      using reach_inc_spec [OF R(1), of "\<lambda>x. cell m (cy p) x"] h R(1) by auto
    then show ?thesis using R by (simp add: reach_def Let_def hline_def vline_def amid_def)
  next
    case U
    obtain r where "reach_dec (\<lambda>y. cell m y (cx p)) (cy q) (cy p) = Some r"
      "r = cy q \<longleftrightarrow> (\<forall>y. cy q < y \<and> y < cy p \<longrightarrow> cell m y (cx p) = Some 0)"
      using reach_dec_spec [OF U(2), of "\<lambda>y. cell m y (cx p)"] v U(2) by auto
    then show ?thesis using U by (simp add: reach_def Let_def hline_def vline_def amid_def)
  next
    case D
    obtain r where "reach_inc (\<lambda>y. cell m y (cx p)) (cy q) (cy p) = Some r"
      "r = cy q \<longleftrightarrow> (\<forall>y. cy p < y \<and> y < cy q \<longrightarrow> cell m y (cx p) = Some 0)"
      using reach_inc_spec [OF D(2), of "\<lambda>y. cell m y (cx p)"] v D(2) by auto
    then show ?thesis using D by (simp add: reach_def Let_def hline_def vline_def amid_def)
  qed (simp_all add: reach_def Let_def hline_def vline_def)
qed

section \<open>The array of turning points\<close>

definition way :: "way_state \<Rightarrow> COOR list \<Rightarrow> bool" where
  "way w ps \<longleftrightarrow> length (G_way w) = 4 \<and> G_pos w \<le> 4 \<and> take (G_pos w) (G_way w) = ps"

lemma push_way_way:
  assumes "way w ps" and "length ps < 4"
  shows "\<exists>w'. push_way p w = Some w' \<and> way w' (ps @ [p])"
proof -
  have "G_pos w < 4" using assms by (auto simp: way_def)
  then show ?thesis using assms by (simp add: way_def push_way_def take_Suc_conv_app_nth)
qed

lemma pop_way_way: "way w (ps @ [p]) \<Longrightarrow> way (pop_way w) ps"
proof -
  assume a: "way w (ps @ [p])"
  then have "G_pos w = length ps + 1" by (auto simp: way_def dest: arg_cong [where f = length])
  moreover have "take (length ps) (take (length ps + 1) (G_way w)) = ps"
    using a calculation by (simp add: way_def)
  ultimately show ?thesis using a by (simp add: way_def pop_way_def)
qed

definition corner :: "lian_map \<Rightarrow> COOR \<Rightarrow> COOR \<Rightarrow> COOR \<Rightarrow> bool" where
  "corner m p t q \<longleftrightarrow> vacant m t \<and> (hline m p t \<and> vline m t q \<or> vline m p t \<and> hline m t q)"

lemma try_turn_spec:
  assumes "map_ok m" and "in_map p" and "in_map probe" and "in_map q" and "in_map t" and "way w ps" and "length ps < 4"
  shows "\<exists>ok w'. try_turn m p probe t q w = Some (ok, w') \<and> (ok \<longleftrightarrow> line m p probe \<and> line m t q) \<and> way w' (if ok then ps @ [t] else ps)"
proof -
  note r = reach_line [OF assms(1,2,3)] reach_line [OF assms(1,5,4)]
  obtain w1 where w1: "push_way t w = Some w1" "way w1 (ps @ [t])" using push_way_way [OF assms(6,7)] by blast
  show ?thesis using w1 pop_way_way [OF w1(2)] assms(6) unfolding try_turn_def r by auto
qed

lemma lr_reach_spec:
  assumes m: "map_ok m" and p: "inside p" and q: "inside q" and w: "way w ps" "length ps < 4"
  shows "\<exists>w'. (\<exists>t. lr_reach m p q w = Some (CAN_GO, w') \<and> corner m p t q \<and> way w' (ps @ [t])) \<or>
     lr_reach m p q w = Some (NO_WAY, w') \<and> (\<forall>t. \<not> corner m p t q) \<and> way w' ps"
proof (cases "cx p \<noteq> cx q \<and> cy p \<noteq> cy q")
  case True
  let ?t0 = "\<lparr>cx = cx q, cy = cy p\<rparr>" and ?t1 = "\<lparr>cx = cx p, cy = cy q\<rparr>"
  define p0 where "p0 = \<lparr>cx = (if cx p > cx q then cx q - 1 else cx q + 1), cy = cy p\<rparr>"
  define p1 where "p1 = \<lparr>cx = cx p, cy = (if cy p > cy q then cy q - 1 else cy q + 1)\<rparr>"
  have c0: "line m p p0 \<longleftrightarrow> vacant m ?t0 \<and> hline m p ?t0"
  proof -
    have "amid (cx p) (cx p0) x \<longleftrightarrow> x = cx q \<or> amid (cx p) (cx q) x" for x using True by (auto simp: amid_def p0_def)
    then have "(\<forall>x. amid (cx p) (cx p0) x \<longrightarrow> cell m (cy p) x = Some 0) \<longleftrightarrow>
        cell m (cy p) (cx q) = Some 0 \<and> (\<forall>x. amid (cx p) (cx q) x \<longrightarrow> cell m (cy p) x = Some 0)" by auto
    moreover have "cx p \<noteq> cx p0" "cy p0 = cy p" using True by (auto simp: p0_def)
    ultimately show ?thesis using True by (simp add: hline_def vline_def cell_at_def)
  qed
  have c1: "line m p p1 \<longleftrightarrow> vacant m ?t1 \<and> vline m p ?t1"
  proof -
    have "amid (cy p) (cy p1) y \<longleftrightarrow> y = cy q \<or> amid (cy p) (cy q) y" for y using True by (auto simp: amid_def p1_def)
    then have "(\<forall>y. amid (cy p) (cy p1) y \<longrightarrow> cell m y (cx p) = Some 0) \<longleftrightarrow>
        cell m (cy q) (cx p) = Some 0 \<and> (\<forall>y. amid (cy p) (cy q) y \<longrightarrow> cell m y (cx p) = Some 0)" by auto
    moreover have "cy p \<noteq> cy p1" "cx p1 = cx p" using True by (auto simp: p1_def)
    ultimately show ?thesis using True by (simp add: hline_def vline_def cell_at_def)
  qed
  have l: "line m ?t0 q \<longleftrightarrow> vline m ?t0 q" "line m ?t1 q \<longleftrightarrow> hline m ?t1 q" using True by (auto simp: hline_def vline_def)
  have corners: "corner m p t q \<longleftrightarrow> t = ?t0 \<and> vacant m ?t0 \<and> hline m p ?t0 \<and> vline m ?t0 q \<or> t = ?t1 \<and> vacant m ?t1 \<and> vline m p ?t1 \<and> hline m ?t1 q" for t
    by (cases t) (auto simp: corner_def hline_def vline_def)
  have inm: "in_map p" "in_map q" "in_map ?t0" "in_map ?t1" "in_map p0" "in_map p1"
    using p q by (auto simp: inside_def in_map_def p0_def p1_def)
  have eq: "lr_reach m p q w = Option.bind (try_turn m p p0 ?t0 q w) (\<lambda>(ok, w1).
               if ok then Some (CAN_GO, w1)
               else Option.bind (try_turn m p p1 ?t1 q w1) (\<lambda>(ok, w2).
                 if ok then Some (CAN_GO, w2) else Some (NO_WAY, w2)))"
    using True unfolding lr_reach_def p0_def p1_def
    by (cases "cx p > cx q"; cases "cy p > cy q") (simp_all add: Let_def cong del: if_weak_cong option.case_cong_weak prod.case_cong_weak)
  obtain ok0 w0 where t0: "try_turn m p p0 ?t0 q w = Some (ok0, w0)" "ok0 \<longleftrightarrow> line m p p0 \<and> line m ?t0 q" "way w0 (if ok0 then ps @ [?t0] else ps)"
    using try_turn_spec [OF m inm(1,5,2,3) w] by blast
  show ?thesis
  proof (cases ok0)
    case True
    then show ?thesis using t0 c0 l corners unfolding eq by auto
  next
    case False
    then have w0: "way w0 ps" using t0(3) by simp
    obtain ok1 w1 where "try_turn m p p1 ?t1 q w0 = Some (ok1, w1)" "ok1 \<longleftrightarrow> line m p p1 \<and> line m ?t1 q" "way w1 (if ok1 then ps @ [?t1] else ps)"
      using try_turn_spec [OF m inm(1,6,2,4) w0 w(2)] by blast
    then show ?thesis using False t0 c0 c1 l corners unfolding eq by (cases ok1) auto
  qed
next
  case False
  then have "lr_reach m p q w = Some (NO_WAY, w)" by (auto simp: lr_reach_def)
  moreover have "\<not> corner m p t q" for t using False by (auto simp: corner_def hline_def vline_def)
  ultimately show ?thesis using w(1) by auto
qed

section \<open>Walking away from the start\<close>

definition steps :: "COOR \<Rightarrow> int \<Rightarrow> int \<Rightarrow> nat \<Rightarrow> COOR" where
  "steps p dx dy j = \<lparr>cx = cx p + int j * dx, cy = cy p + int j * dy\<rparr>"

text \<open>The free cells that can be walked to in one direction.\<close>

definition ahead :: "lian_map \<Rightarrow> COOR \<Rightarrow> int \<Rightarrow> int \<Rightarrow> COOR set" where
  "ahead m p dx dy = {steps p dx dy j | j. 1 \<le> j \<and> (\<forall>i. 1 \<le> i \<and> i \<le> j \<longrightarrow> vacant m (steps p dx dy i))}"

lemma steps_sel [simp]: "cx (steps p dx dy j) = cx p + int j * dx" "cy (steps p dx dy j) = cy p + int j * dy"
  by (simp_all add: steps_def)

lemma steps_steps: "steps (steps p dx dy i) dx dy j = steps p dx dy (i + j)"
  by (simp add: steps_def algebra_simps)

lemma steps_0 [simp]: "steps p dx dy 0 = p"
  by (simp add: steps_def)

lemma vacant_inside: "map_ok m \<Longrightarrow> vacant m p \<Longrightarrow> inside p"
proof -
  assume m: "map_ok m" and v: "vacant m p"
  have "nat (cy p) < length m" "nat (cx p) < length (m ! nat (cy p))" "0 \<le> cy p" "0 \<le> cx p"
    using v by (auto simp: cell_at_def cell_def split: if_splits)
  then have b: "0 \<le> cy p" "cy p \<le> 11" "0 \<le> cx p" "cx p \<le> 11" using m nth_mem [of "nat (cy p)" m] by (auto simp: map_ok_def)
  then show ?thesis using cell_border [OF m b] v unfolding inside_def cell_at_def by force
qed

lemma ahead_bounded:
  assumes m: "map_ok m" and p: "inside p" and d: "(dx, dy) \<in> {(-1, 0), (1, 0), (0, -1), (0, 1)}"
  obtains n v where "\<And>i. 1 \<le> i \<Longrightarrow> i \<le> n \<Longrightarrow> vacant m (steps p dx dy i)" "cell_at m (steps p dx dy (n + 1)) = Some v" "v \<noteq> 0"
proof -
  have "\<exists>k. 1 \<le> k \<and> \<not> inside (steps p dx dy k)" using d by (intro exI [of _ 11]) (use p in \<open>auto simp: inside_def\<close>)
  then have ex: "\<exists>k. 1 \<le> k \<and> \<not> vacant m (steps p dx dy k)" using vacant_inside [OF m] by blast
  define k where "k = (LEAST k. 1 \<le> k \<and> \<not> vacant m (steps p dx dy k))"
  have k: "1 \<le> k" "\<not> vacant m (steps p dx dy k)" using LeastI_ex [OF ex] by (simp_all add: k_def)
  have below: "vacant m (steps p dx dy i)" if "1 \<le> i" "i < k" for i using not_less_Least [of i] that unfolding k_def by blast
  obtain n where n: "k = n + 1" using k(1) by (cases k) auto
  have "inside (steps p dx dy n)" using below [of n] vacant_inside [OF m] p n by (cases n) auto
  then have "in_map (steps p dx dy k)" using d n by (auto simp: inside_def in_map_def)
  then obtain v where v: "cell_at m (steps p dx dy k) = Some v" using cell_inside [OF m] by (auto simp: in_map_def cell_at_def)
  show ?thesis by (rule that [of n v]) (use below v k(2) n in auto)
qed

lemma ahead_eq:
  assumes "\<And>i. 1 \<le> i \<Longrightarrow> i \<le> n \<Longrightarrow> vacant m (steps p dx dy i)" and "\<not> vacant m (steps p dx dy (n + 1))"
  shows "ahead m p dx dy = {steps p dx dy j | j. 1 \<le> j \<and> j \<le> n}"
proof -
  have "(\<forall>i. 1 \<le> i \<and> i \<le> j \<longrightarrow> vacant m (steps p dx dy i)) \<longleftrightarrow> j \<le> n" for j
  proof
    assume "\<forall>i. 1 \<le> i \<and> i \<le> j \<longrightarrow> vacant m (steps p dx dy i)"
    then have "\<not> n + 1 \<le> j" using assms(2) by (metis le_add2)
    then show "j \<le> n" by simp
  qed (use assms(1) in auto)
  then show ?thesis unfolding ahead_def by simp
qed

lemma lr_walk_spec:
  assumes m: "map_ok m" and q: "inside q"
  shows "(\<And>i. 1 \<le> i \<Longrightarrow> i \<le> n \<Longrightarrow> vacant m (steps p dx dy i)) \<Longrightarrow> cell_at m (steps p dx dy (n + 1)) = Some v \<Longrightarrow> v \<noteq> 0 \<Longrightarrow>
    way w ps \<Longrightarrow> length ps < 3 \<Longrightarrow>
    \<exists>w'. (\<exists>j t. lr_walk m dx dy p q w = Some (CAN_GO, w') \<and> 1 \<le> j \<and> j \<le> n \<and> corner m (steps p dx dy j) t q \<and> way w' (ps @ [steps p dx dy j, t])) \<or>
      lr_walk m dx dy p q w = Some (NO_WAY, w') \<and> (\<forall>j t. 1 \<le> j \<and> j \<le> n \<longrightarrow> \<not> corner m (steps p dx dy j) t q) \<and> way w' ps"
proof (induction n arbitrary: p w)
  case 0
  then have "cell m (cy p + dy) (cx p + dx) = Some v" by (simp add: cell_at_def)
  then have "lr_walk m dx dy p q w = Some (NO_WAY, w)" using 0(3) by (subst lr_walk.simps) simp
  then show ?case using 0(4) by auto
next
  case (Suc n)
  let ?p = "steps p dx dy 1"
  have v: "vacant m ?p" using Suc.prems(1) [of 1] by simp
  then have c: "cell m (cy p + dy) (cx p + dx) = Some 0" by (simp add: cell_at_def)
  have pe: "\<lparr>cx = cx p + dx, cy = cy p + dy\<rparr> = ?p" by (simp add: steps_def)
  obtain w1 where w1: "push_way ?p w = Some w1" "way w1 (ps @ [?p])" using push_way_way [OF Suc.prems(4)] Suc.prems(5) by fastforce
  obtain w2 where w2: "(\<exists>t. lr_reach m ?p q w1 = Some (CAN_GO, w2) \<and> corner m ?p t q \<and> way w2 ((ps @ [?p]) @ [t])) \<or>
     lr_reach m ?p q w1 = Some (NO_WAY, w2) \<and> (\<forall>t. \<not> corner m ?p t q) \<and> way w2 (ps @ [?p])"
    using lr_reach_spec [OF m vacant_inside [OF m v] q w1(2)] Suc.prems(5) by auto
  show ?case
  proof (cases "\<exists>t. lr_reach m ?p q w1 = Some (CAN_GO, w2) \<and> corner m ?p t q \<and> way w2 ((ps @ [?p]) @ [t])")
    case True
    then have "lr_walk m dx dy p q w = Some (CAN_GO, w2)" using c w1(1) by (subst lr_walk.simps) (auto simp: pe)
    then show ?thesis using True by (intro exI [of _ w2] disjI1) auto
  next
    case False
    then have r: "lr_reach m ?p q w1 = Some (NO_WAY, w2)" "\<And>t. \<not> corner m ?p t q" "way w2 (ps @ [?p])" using w2 by auto
    have step: "lr_walk m dx dy p q w = lr_walk m dx dy ?p q (pop_way w2)" using c w1(1) r(1) by (subst lr_walk.simps) (simp add: pe)
    have "\<exists>w'. (\<exists>j t. lr_walk m dx dy ?p q (pop_way w2) = Some (CAN_GO, w') \<and> 1 \<le> j \<and> j \<le> n \<and> corner m (steps ?p dx dy j) t q \<and> way w' (ps @ [steps ?p dx dy j, t])) \<or>
      lr_walk m dx dy ?p q (pop_way w2) = Some (NO_WAY, w') \<and> (\<forall>j t. 1 \<le> j \<and> j \<le> n \<longrightarrow> \<not> corner m (steps ?p dx dy j) t q) \<and> way w' ps"
      by (rule Suc.IH) (use Suc.prems pop_way_way [OF r(3)] in \<open>auto simp: steps_steps\<close>)
    then obtain w' where w': "(\<exists>j t. lr_walk m dx dy p q w = Some (CAN_GO, w') \<and> 1 \<le> j \<and> j \<le> n \<and> corner m (steps p dx dy (1 + j)) t q \<and> way w' (ps @ [steps p dx dy (1 + j), t])) \<or>
      lr_walk m dx dy p q w = Some (NO_WAY, w') \<and> (\<forall>j t. 1 \<le> j \<and> j \<le> n \<longrightarrow> \<not> corner m (steps p dx dy (1 + j)) t q) \<and> way w' ps"
      unfolding step steps_steps by blast
    show ?thesis
    proof (cases "\<exists>j t. lr_walk m dx dy p q w = Some (CAN_GO, w') \<and> 1 \<le> j \<and> j \<le> n \<and> corner m (steps p dx dy (1 + j)) t q \<and> way w' (ps @ [steps p dx dy (1 + j), t])")
      case True
      then obtain j t where "lr_walk m dx dy p q w = Some (CAN_GO, w')" "1 \<le> j" "j \<le> n" "corner m (steps p dx dy (1 + j)) t q" "way w' (ps @ [steps p dx dy (1 + j), t])"
        by blast
      then show ?thesis by (intro exI [of _ w'] disjI1 exI [of _ "1 + j"] exI [of _ t]) simp
    next
      case False
      then have no: "lr_walk m dx dy p q w = Some (NO_WAY, w')" "way w' ps" "\<And>j t. 1 \<le> j \<Longrightarrow> j \<le> n \<Longrightarrow> \<not> corner m (steps p dx dy (1 + j)) t q"
        using w' by blast+
      have "\<not> corner m (steps p dx dy j) t q" if "1 \<le> j" "j \<le> Suc n" for j t
        using that r(2) no(3) [of "j - 1" t] by (cases "j = 1") auto
      then show ?thesis using no(1,2) by blast
    qed
  qed
qed

lemma lr_walk_ahead:
  assumes m: "map_ok m" and p: "inside p" and q: "inside q" and d: "(dx, dy) \<in> {(-1, 0), (1, 0), (0, -1), (0, 1)}" and w: "way w ps" "length ps < 3"
  shows "\<exists>w'. (\<exists>u t. lr_walk m dx dy p q w = Some (CAN_GO, w') \<and> u \<in> ahead m p dx dy \<and> corner m u t q \<and> way w' (ps @ [u, t])) \<or>
      lr_walk m dx dy p q w = Some (NO_WAY, w') \<and> (\<forall>u \<in> ahead m p dx dy. \<forall>t. \<not> corner m u t q) \<and> way w' ps"
proof -
  obtain n v where n: "\<And>i. 1 \<le> i \<Longrightarrow> i \<le> n \<Longrightarrow> vacant m (steps p dx dy i)" "cell_at m (steps p dx dy (n + 1)) = Some v" "v \<noteq> 0"
    using ahead_bounded [OF m p d] by metis
  have a: "ahead m p dx dy = {steps p dx dy j | j. 1 \<le> j \<and> j \<le> n}" by (rule ahead_eq) (use n in auto)
  show ?thesis using lr_walk_spec [OF m q n w] unfolding a by blast
qed

lemma ahead_line:
  assumes "map_ok m"
  shows "(\<exists>(dx, dy) \<in> {(-1, 0), (1, 0), (0, -1), (0, 1)}. u \<in> ahead m p dx dy) \<longleftrightarrow> vacant m u \<and> line m p u"
proof
  assume "\<exists>(dx, dy) \<in> {(-1, 0), (1, 0), (0, -1), (0, 1)}. u \<in> ahead m p dx dy"
  then obtain dx dy j where d: "(dx, dy) \<in> {(-1, 0), (1, 0), (0, -1), (0, 1 :: int)}" and u: "u = steps p dx dy j" "1 \<le> j"
    and v: "\<And>i. 1 \<le> i \<Longrightarrow> i \<le> j \<Longrightarrow> vacant m (steps p dx dy i)" unfolding ahead_def by blast
  have free: "cell m (cy p + int i * dy) (cx p + int i * dx) = Some 0" if "1 \<le> i" "i \<le> j" for i
    using v [OF that] by (simp add: cell_at_def)
  have h: "cell m (cy p) x = Some 0" if "dy = 0" "amid (cx p) (cx u) x" for x
  proof -
    let ?i = "nat \<bar>x - cx p\<bar>"
    have "dx = 1 \<or> dx = -1" using d that(1) by auto
    then have "1 \<le> ?i" "?i \<le> j" "int ?i * dx = x - cx p" using that(2) by (auto simp: amid_def u)
    then show ?thesis using free [of ?i] that(1) by simp
  qed
  have l: "cell m y (cx p) = Some 0" if "dx = 0" "amid (cy p) (cy u) y" for y
  proof -
    let ?i = "nat \<bar>y - cy p\<bar>"
    have "dy = 1 \<or> dy = -1" using d that(1) by auto
    then have "1 \<le> ?i" "?i \<le> j" "int ?i * dy = y - cy p" using that(2) by (auto simp: amid_def u)
    then show ?thesis using free [of ?i] that(1) by simp
  qed
  have "vacant m u" using v [of j] u by simp
  moreover have "dx = 0 \<or> dy = 0" "dx = 0 \<longrightarrow> dy \<noteq> 0" using d by auto
  ultimately show "vacant m u \<and> line m p u" using h l u by (auto simp: hline_def vline_def)
next
  assume a: "vacant m u \<and> line m p u"
  define dx where "dx = sgn (cx u - cx p)"
  define dy where "dy = sgn (cy u - cy p)"
  define j where "j = nat (\<bar>cx u - cx p\<bar> + \<bar>cy u - cy p\<bar>)"
  have d: "(dx, dy) \<in> {(-1, 0), (1, 0), (0, -1), (0, 1)}" using a by (auto simp: hline_def vline_def dx_def dy_def sgn_if)
  have u: "u = steps p dx dy j" "1 \<le> j"
    using a by (auto simp: hline_def vline_def dx_def dy_def j_def steps_def sgn_if intro!: COOR.equality)
  have "vacant m (steps p dx dy i)" if "1 \<le> i" "i \<le> j" for i
  proof (cases "i = j")
    case False
    then have ij: "i < j" using that by simp
    from a consider "hline m p u" | "vline m p u" by blast
    then show ?thesis
    proof cases
      case 1
      have "dy = 0" "amid (cx p) (cx u) (cx p + int i * dx)"
        using 1 ij that(1) by (auto simp: hline_def dy_def dx_def j_def amid_def sgn_if)
      moreover from this have "cell m (cy p) (cx p + int i * dx) = Some 0" using 1 unfolding hline_def by blast
      ultimately show ?thesis by (simp add: cell_at_def)
    next
      case 2
      have "dx = 0" "amid (cy p) (cy u) (cy p + int i * dy)"
        using 2 ij that(1) by (auto simp: vline_def dy_def dx_def j_def amid_def sgn_if)
      moreover from this have "cell m (cy p + int i * dy) (cx p) = Some 0" using 2 unfolding vline_def by blast
      ultimately show ?thesis by (simp add: cell_at_def)
    qed
  qed (use a u in simp)
  then have "u \<in> ahead m p dx dy" using u unfolding ahead_def by blast
  then show "\<exists>(dx, dy) \<in> {(-1, 0), (1, 0), (0, -1), (0, 1)}. u \<in> ahead m p dx dy" using d by blast
qed

lemma ahead_lineD:
  assumes "map_ok m" and "u \<in> ahead m p dx dy" and "(dx, dy) \<in> {(-1, 0), (1, 0), (0, -1), (0, 1)}"
  shows "vacant m u \<and> line m p u"
  using assms(2,3) by (intro ahead_line [OF assms(1), THEN iffD1] bexI [of _ "(dx, dy)"]) simp_all

lemma lr_lr_reach_spec:
  assumes m: "map_ok m" and p: "inside p" and q: "inside q" and w: "way w ps" "length ps < 3"
  shows "\<exists>w'. (\<exists>u t. lr_lr_reach m p q w = Some (CAN_GO, w') \<and> vacant m u \<and> line m p u \<and> corner m u t q \<and> way w' (ps @ [u, t])) \<or>
      lr_lr_reach m p q w = Some (NO_WAY, w') \<and> length (G_way w') = 4 \<and> (\<forall>u t. vacant m u \<and> line m p u \<longrightarrow> \<not> corner m u t q)"
proof -
  define found where "found w' dx dy \<longleftrightarrow> (\<exists>u t. u \<in> ahead m p dx dy \<and> corner m u t q \<and> way w' (ps @ [u, t]))" for w' and dx dy :: int
  define none where "none dx dy \<longleftrightarrow> (\<forall>u \<in> ahead m p dx dy. \<forall>t. \<not> corner m u t q)" for dx dy :: int
  have walk: "\<exists>w'. lr_walk m dx dy p q w = Some (CAN_GO, w') \<and> found w' dx dy \<or> lr_walk m dx dy p q w = Some (NO_WAY, w') \<and> none dx dy \<and> way w' ps"
    if "way w ps" "(dx, dy) \<in> {(-1, 0), (1, 0), (0, -1), (0, 1)}" for w dx dy
    using lr_walk_ahead [OF m p q that(2,1) w(2)] unfolding found_def none_def by blast
  have hit: "\<exists>u t. vacant m u \<and> line m p u \<and> corner m u t q \<and> way w' (ps @ [u, t])"
    if "found w' dx dy" "(dx, dy) \<in> {(-1, 0), (1, 0), (0, -1), (0, 1)}" for w' dx dy
    using that(1) ahead_lineD [OF m _ that(2)] unfolding found_def by blast
  have miss: "\<not> corner m u t q" if "none (-1) 0" "none 1 0" "none 0 (-1)" "none 0 1" "vacant m u" "line m p u" for u t
    using that(1-4) ahead_line [OF m, of u p, THEN iffD2] that(5,6) unfolding none_def by auto
  obtain w1 where 1: "lr_walk m (-1) 0 p q w = Some (CAN_GO, w1) \<and> found w1 (-1) 0 \<or> lr_walk m (-1) 0 p q w = Some (NO_WAY, w1) \<and> none (-1) 0 \<and> way w1 ps"
    using walk [OF w(1), of "-1" 0] by auto
  show ?thesis
  proof (cases "lr_walk m (-1) 0 p q w = Some (CAN_GO, w1)")
    case True
    then show ?thesis using 1 hit [of w1 "-1" 0] by (intro exI [of _ w1]) (simp add: lr_lr_reach_def)
  next
    case f1: False
    then have w1: "way w1 ps" using 1 by blast
    obtain w2 where 2: "lr_walk m 1 0 p q w1 = Some (CAN_GO, w2) \<and> found w2 1 0 \<or> lr_walk m 1 0 p q w1 = Some (NO_WAY, w2) \<and> none 1 0 \<and> way w2 ps"
      using walk [OF w1, of 1 0] by auto
    show ?thesis
    proof (cases "lr_walk m 1 0 p q w1 = Some (CAN_GO, w2)")
      case True
      then show ?thesis using 1 2 f1 hit [of w2 1 0] by (intro exI [of _ w2]) (simp add: lr_lr_reach_def)
    next
      case f2: False
      then have w2: "way w2 ps" using 2 by blast
      obtain w3 where 3: "lr_walk m 0 (-1) p q w2 = Some (CAN_GO, w3) \<and> found w3 0 (-1) \<or> lr_walk m 0 (-1) p q w2 = Some (NO_WAY, w3) \<and> none 0 (-1) \<and> way w3 ps"
        using walk [OF w2, of 0 "-1"] by auto
      show ?thesis
      proof (cases "lr_walk m 0 (-1) p q w2 = Some (CAN_GO, w3)")
        case True
        then show ?thesis using 1 2 3 f1 f2 hit [of w3 0 "-1"] by (intro exI [of _ w3]) (simp add: lr_lr_reach_def)
      next
        case f3: False
        then have w3: "way w3 ps" using 3 by blast
        obtain w4 where 4: "lr_walk m 0 1 p q w3 = Some (CAN_GO, w4) \<and> found w4 0 1 \<or> lr_walk m 0 1 p q w3 = Some (NO_WAY, w4) \<and> none 0 1 \<and> way w4 ps"
          using walk [OF w3, of 0 1] by auto
        then show ?thesis using 1 2 3 f1 f2 f3 hit [of w4 0 1] miss way_def [of w4 ps] by (intro exI [of _ w4]) (auto simp add: lr_lr_reach_def)
      qed
    qed
  qed
qed

section \<open>Joined blocks\<close>

text \<open>Two lines in the same direction that meet at a free cell are one line.\<close>

lemma merge_lines:
  assumes "vacant m t" and "s \<noteq> u"
  shows "hline m s t \<Longrightarrow> hline m t u \<Longrightarrow> hline m s u" and "vline m s t \<Longrightarrow> vline m t u \<Longrightarrow> vline m s u"
proof -
  assume h: "hline m s t" "hline m t u"
  have "cx s \<noteq> cx u" using h assms(2) by (auto simp: hline_def intro: COOR.equality)
  moreover have "x = cx t \<or> amid (cx s) (cx t) x \<or> amid (cx t) (cx u) x" if "amid (cx s) (cx u) x" for x
    using that by (auto simp: amid_def)
  ultimately show "hline m s u" using h assms(1) unfolding hline_def cell_at_def by metis
next
  assume v: "vline m s t" "vline m t u"
  have "cy s \<noteq> cy u" using v assms(2) by (auto simp: vline_def intro: COOR.equality)
  moreover have "y = cy t \<or> amid (cy s) (cy t) y \<or> amid (cy t) (cy u) y" if "amid (cy s) (cy u) y" for y
    using that by (auto simp: amid_def)
  ultimately show "vline m s u" using v assms(1) unfolding vline_def cell_at_def by metis
qed

definition joined :: "lian_map \<Rightarrow> COOR \<Rightarrow> COOR \<Rightarrow> bool" where
  "joined m p q \<longleftrightarrow> (\<exists>ps. lined m (p # ps @ [q]) \<and> length ps \<le> 2)"

lemma two_lines:
  assumes "line m p t" and "vacant m t" and "line m t q" and "p \<noteq> q"
  shows "line m p q \<or> corner m p t q"
  using assms merge_lines [OF assms(2,4)] unfolding corner_def by blast

lemma joined_cases:
  assumes "\<not> vacant m p" and "\<not> vacant m q" and "p \<noteq> q"
  shows "joined m p q \<longleftrightarrow> line m p q \<or> (\<exists>t. corner m p t q) \<or> (\<exists>u t. vacant m u \<and> line m p u \<and> corner m u t q)"
proof
  assume "joined m p q"
  then obtain ps where ps: "lined m (p # ps @ [q])" "length ps \<le> 2" unfolding joined_def by blast
  then consider "ps = []" | t where "ps = [t]" | u t where "ps = [u, t]"
    by (cases ps; cases "tl ps"; cases "tl (tl ps)") auto
  then show "line m p q \<or> (\<exists>t. corner m p t q) \<or> (\<exists>u t. vacant m u \<and> line m p u \<and> corner m u t q)"
  proof cases
    case 1
    then show ?thesis using ps by simp
  next
    case (2 t)
    then show ?thesis using ps two_lines [where t = t, OF _ _ _ assms(3)] by auto
  next
    case (3 u t)
    then have l: "line m p u" "vacant m u" "line m u t" "vacant m t" "line m t q" using ps by auto
    have ne: "u \<noteq> q" "p \<noteq> t" using l assms by auto
    from two_lines [OF l(3,4,5) ne(1)] show ?thesis
    proof
      assume "line m u q"
      then show ?thesis using two_lines [OF l(1,2) _ assms(3)] by blast
    qed (use l in blast)
  qed
next
  assume "line m p q \<or> (\<exists>t. corner m p t q) \<or> (\<exists>u t. vacant m u \<and> line m p u \<and> corner m u t q)"
  moreover have "joined m p q" if "line m p q" unfolding joined_def using that by (intro exI [of _ "[]"]) simp
  moreover have "joined m p q" if "corner m p t q" for t
    unfolding joined_def using that by (intro exI [of _ "[t]"]) (auto simp: corner_def)
  moreover have "joined m p q" if "vacant m u \<and> line m p u \<and> corner m u t q" for u t
    unfolding joined_def using that by (intro exI [of _ "[u, t]"]) (auto simp: corner_def)
  ultimately show "joined m p q" by blast
qed

definition removable :: "lian_map \<Rightarrow> COOR \<Rightarrow> COOR \<Rightarrow> bool" where
  "removable m p q \<longleftrightarrow> p \<noteq> q \<and> cell_at m p = cell_at m q \<and> \<not> vacant m p \<and> joined m p q"

lemma lian_check_ok:
  assumes m: "map_ok m" and p: "inside p" and q: "inside q" and w: "length (G_way w) = 4"
  shows "\<exists>w'. length (G_way w') = 4 \<and> lian_check m p q w = Some (if removable m p q then CAN_GO else NO_WAY, w') \<and>
     (removable m p q \<longrightarrow> (\<exists>ps. way w' (p # ps @ [q]) \<and> lined m (p # ps @ [q]) \<and> length ps \<le> 2))"
proof -
  have len: "length (G_way w') = 4" if "way w' ps" for w' ps using that by (simp add: way_def)
  have pc: "cell_at m r = Some (m ! nat (cy r) ! nat (cx r))" if "inside r" for r
    using that cell_inside [OF m, of "cy r" "cx r"] by (simp add: inside_def cell_at_def)
  have same: "cx p = cx q \<and> cy p = cy q \<longleftrightarrow> p = q" by (auto intro: COOR.equality)
  show ?thesis
  proof (cases "p \<noteq> q \<and> cell_at m p = cell_at m q \<and> \<not> vacant m p")
    case False
    then have "lian_check m p q w = Some (NO_WAY, w)" "\<not> removable m p q"
      using pc [OF p] pc [OF q] same by (auto simp: lian_check_def removable_def)
    then show ?thesis using w by simp
  next
    case True
    then have j: "removable m p q \<longleftrightarrow> joined m p q" "\<not> vacant m p" "\<not> vacant m q" "p \<noteq> q" by (auto simp: removable_def)
    have "way (w\<lparr>G_pos := 0\<rparr>) []" using w by (simp add: way_def)
    then obtain w1 where w1: "push_way p (w\<lparr>G_pos := 0\<rparr>) = Some w1" "way w1 [p]" using push_way_way [of _ "[]"] by fastforce
    have r: "reach m p q = Some (if line m p q then CAN_GO else NO_WAY)" by (rule reach_line [OF m]) (use p q inside_in_map in auto)
    have start: "lian_check m p q w = (if line m p q then Option.bind (push_way q w1) (\<lambda>w2. Some (CAN_GO, w2)) else
        Option.bind (lr_reach m p q w1) (\<lambda>(r, w2).
          if r = CAN_GO then Option.bind (push_way q w2) (\<lambda>w3. Some (CAN_GO, w3)) else
        Option.bind (lr_lr_reach m p q w2) (\<lambda>(r, w3).
          if r = CAN_GO then Option.bind (push_way q w3) (\<lambda>w4. Some (CAN_GO, w4)) else
        Some (NO_WAY, w3))))"
    proof -
      have ne: "\<not> (cx p = cx q \<and> cy p = cy q)" using True same by blast
      show ?thesis unfolding lian_check_def if_not_P [OF ne] using True pc [OF p] pc [OF q] w1(1) r by simp
    qed
    show ?thesis
    proof (cases "line m p q")
      case True
      obtain w2 where "push_way q w1 = Some w2" "way w2 ([p] @ [q])" using push_way_way [OF w1(2)] by fastforce
      moreover have "joined m p q" "lined m (p # [] @ [q])" using True joined_cases [OF j(2-4)] by auto
      ultimately show ?thesis using True j(1) len unfolding start by (intro exI [of _ w2]) (auto intro!: exI [of _ "[]"])
    next
      case nl: False
      obtain w2 where w2: "(\<exists>t. lr_reach m p q w1 = Some (CAN_GO, w2) \<and> corner m p t q \<and> way w2 ([p] @ [t])) \<or>
          lr_reach m p q w1 = Some (NO_WAY, w2) \<and> (\<forall>t. \<not> corner m p t q) \<and> way w2 [p]"
        using lr_reach_spec [OF m p q w1(2)] by auto
      show ?thesis
      proof (cases "lr_reach m p q w1 = Some (CAN_GO, w2)")
        case True
        then obtain t where t: "corner m p t q" "way w2 [p, t]" using w2 by auto
        obtain w3 where w3: "push_way q w2 = Some w3" "way w3 ([p, t] @ [q])" using push_way_way [OF t(2)] by fastforce
        moreover have "joined m p q" using t(1) joined_cases [OF j(2-4)] by blast
        moreover have "lined m (p # [t] @ [q])" using t(1) by (auto simp: corner_def)
        ultimately show ?thesis using True nl j(1) len unfolding start by (intro exI [of _ w3]) (auto intro!: exI [of _ "[t]"])
      next
        case False
        then have n2: "lr_reach m p q w1 = Some (NO_WAY, w2)" "\<And>t. \<not> corner m p t q" "way w2 [p]" using w2 by auto
        obtain w3 where w3: "(\<exists>u t. lr_lr_reach m p q w2 = Some (CAN_GO, w3) \<and> vacant m u \<and> line m p u \<and> corner m u t q \<and> way w3 ([p] @ [u, t])) \<or>
            lr_lr_reach m p q w2 = Some (NO_WAY, w3) \<and> length (G_way w3) = 4 \<and> (\<forall>u t. vacant m u \<and> line m p u \<longrightarrow> \<not> corner m u t q)"
          using lr_lr_reach_spec [OF m p q n2(3)] by auto
        show ?thesis
        proof (cases "lr_lr_reach m p q w2 = Some (CAN_GO, w3)")
          case True
          then obtain u t where t: "vacant m u" "line m p u" "corner m u t q" "way w3 [p, u, t]" using w3 by auto
          obtain w4 where w4: "push_way q w3 = Some w4" "way w4 ([p, u, t] @ [q])" using push_way_way [OF t(4)] by fastforce
          moreover have "joined m p q" using t joined_cases [OF j(2-4)] by blast
          moreover have "lined m (p # [u, t] @ [q])" using t by (auto simp: corner_def)
          ultimately show ?thesis using True n2(1) nl j(1) len unfolding start by (intro exI [of _ w4]) (auto intro!: exI [of _ "[u, t]"])
        next
          case False
          then have n3: "lr_lr_reach m p q w2 = Some (NO_WAY, w3)" "length (G_way w3) = 4" "\<And>u t. vacant m u \<Longrightarrow> line m p u \<Longrightarrow> \<not> corner m u t q"
            using w3 by auto
          then have "\<not> joined m p q" using nl n2(2) joined_cases [OF j(2-4)] by blast
          then show ?thesis using n2(1) n3(1,2) nl j(1) unfolding start by (intro exI [of _ w3]) simp
        qed
      qed
    qed
  qed
qed

section \<open>Finding a pair\<close>

lemma in_concat_map: "i \<in> set xs \<Longrightarrow> y \<in> set (f i) \<Longrightarrow> y \<in> set (concat (map f xs))"
  by auto

lemma line_sym: "hline m p q = hline m q p" "vline m p q = vline m q p"
proof -
  have a: "amid a b = amid b a" for a b by (auto simp: amid_def fun_eq_iff)
  show "hline m p q = hline m q p" unfolding hline_def a [of "cx p"] by (metis (no_types))
  show "vline m p q = vline m q p" unfolding vline_def a [of "cy p"] by (metis (no_types))
qed

lemma joined_sym: "joined m p q = joined m q p"
proof -
  have "joined m q p" if j: "joined m p q" for p q
  proof -
    obtain ps where ps: "lined m (p # ps @ [q])" "length ps \<le> 2" using j unfolding joined_def by blast
    then consider "ps = []" | t where "ps = [t]" | u t where "ps = [u, t]"
      by (cases ps; cases "tl ps"; cases "tl (tl ps)") auto
    then have "lined m (q # rev ps @ [p])" using ps(1) line_sym [of m] by cases auto
    then show ?thesis using ps(2) unfolding joined_def by (intro exI [of _ "rev ps"]) simp
  qed
  then show ?thesis by blast
qed

lemma removable_sym: "removable m p q = removable m q p"
  unfolding removable_def using joined_sym [of m p q] by auto

lemma pairs_inside: "(p, q) \<in> set pairs \<Longrightarrow> inside p \<and> inside q"
  by (auto simp: pairs_def inside_def)

lemma pairs_all:
  assumes "inside p" and "inside q" and "p \<noteq> q"
  shows "(p, q) \<in> set pairs \<or> (q, p) \<in> set pairs"
proof -
  have ordered: "(p, q) \<in> set pairs" if "inside p" "inside q" "cy p < cy q \<or> cy p = cy q \<and> cx p < cx q" for p q
  proof -
    have "cy p \<in> {1..10}" "cx p \<in> {1..10}" "cx q \<in> {1..10}" "cy p = cy q \<or> cy q \<in> {cy p + 1..10}"
      "cy p = cy q \<longrightarrow> cx q \<in> {cx p + 1..10}" using that by (auto simp: inside_def)
    note in_range = this
    have "(p, q) \<in> set (map (\<lambda>x. (\<lparr>cx = cx p, cy = cy p\<rparr>, \<lparr>cx = x, cy = cy p\<rparr>)) [cx p + 1..10] @
        concat (map (\<lambda>y. map (\<lambda>x. (\<lparr>cx = cx p, cy = cy p\<rparr>, \<lparr>cx = x, cy = y\<rparr>)) [1..10]) [cy p + 1..10]))"
    proof (cases "cy p = cy q")
      case True
      then have "(p, q) = (\<lparr>cx = cx p, cy = cy p\<rparr>, \<lparr>cx = cx q, cy = cy p\<rparr>)" by simp
      then have "(p, q) \<in> set (map (\<lambda>x. (\<lparr>cx = cx p, cy = cy p\<rparr>, \<lparr>cx = x, cy = cy p\<rparr>)) [cx p + 1..10])"
        using in_range(5) True unfolding set_map set_upto by blast
      then show ?thesis by simp
    next
      case False
      have "(p, q) \<in> set (concat (map (\<lambda>y. map (\<lambda>x. (\<lparr>cx = cx p, cy = cy p\<rparr>, \<lparr>cx = x, cy = y\<rparr>)) [1..10]) [cy p + 1..10]))"
        by (rule in_concat_map [of "cy q"]) (use in_range False in \<open>auto intro!: image_eqI [of _ _ "cx q"]\<close>)
      then show ?thesis by simp
    qed
    then show ?thesis
      unfolding pairs_def using in_range(1,2)
      by (intro in_concat_map [of "cy p" "[1..10]"] in_concat_map [of "cx p" "[1..10]"]) (simp_all only: set_upto)
  qed
  moreover have "cy p < cy q \<or> cy q < cy p \<or> cy p = cy q \<and> (cx p < cx q \<or> cx q < cx p)"
  proof -
    have "cx p \<noteq> cx q \<or> cy p \<noteq> cy q" using assms(3) by (auto intro: COOR.equality)
    then show ?thesis by linarith
  qed
  ultimately show ?thesis using ordered [of p q] ordered [of q p] assms(1,2) by metis
qed

lemma scan_pairs_spec:
  assumes m: "map_ok m"
  shows "(\<And>p q. (p, q) \<in> set ps \<Longrightarrow> inside p \<and> inside q) \<Longrightarrow> length (G_way (L_way s)) = 4 \<Longrightarrow> G_op_cnt s = 0 \<Longrightarrow> G_ops s \<noteq> [] \<Longrightarrow>
    \<exists>s'. (\<exists>p q. scan_pairs m ps s = Some (1, s') \<and> (p, q) \<in> set ps \<and> removable m p q \<and> G_ops s' ! 0 = (p, q) \<and> G_op_cnt s' = 1) \<or>
      scan_pairs m ps s = Some (0, s') \<and> (\<forall>(p, q) \<in> set ps. \<not> removable m p q)"
proof (induction ps arbitrary: s)
  case (Cons pq ps)
  obtain p q where pq: "pq = (p, q)" by fastforce
  then have ins: "inside p" "inside q" using Cons.prems(1) by auto
  obtain w where w: "length (G_way w) = 4" "lian_check m p q (L_way s) = Some (if removable m p q then CAN_GO else NO_WAY, w)"
    using lian_check_ok [OF m ins Cons.prems(2)] by blast
  show ?case
  proof (cases "removable m p q")
    case True
    then show ?thesis using w(2) Cons.prems(4) unfolding pq
      by (intro exI [of _ "s\<lparr>L_way := w, G_op_cnt := 1, G_ops := (G_ops s)[0 := (p, q)]\<rparr>"] disjI1 exI [of _ p] exI [of _ q]) simp
  next
    case False
    then have step: "scan_pairs m (pq # ps) s = scan_pairs m ps (s\<lparr>L_way := w\<rparr>)" using w(2) by (simp add: pq)
    have "\<exists>s'. (\<exists>p q. scan_pairs m ps (s\<lparr>L_way := w\<rparr>) = Some (1, s') \<and> (p, q) \<in> set ps \<and> removable m p q \<and> G_ops s' ! 0 = (p, q) \<and> G_op_cnt s' = 1) \<or>
      scan_pairs m ps (s\<lparr>L_way := w\<rparr>) = Some (0, s') \<and> (\<forall>(p, q) \<in> set ps. \<not> removable m p q)"
      by (rule Cons.IH) (use Cons.prems w(1) in auto)
    then obtain s' where "(\<exists>p q. scan_pairs m ps (s\<lparr>L_way := w\<rparr>) = Some (1, s') \<and> (p, q) \<in> set ps \<and> removable m p q \<and> G_ops s' ! 0 = (p, q) \<and> G_op_cnt s' = 1) \<or>
      scan_pairs m ps (s\<lparr>L_way := w\<rparr>) = Some (0, s') \<and> (\<forall>(p, q) \<in> set ps. \<not> removable m p q)" by (elim exE) (rule that)
    then show ?thesis unfolding step using False pq by (intro exI [of _ s']) fastforce
  qed
qed auto

lemma lian_get_op_ok:
  assumes "map_ok m" and "length (G_way (L_way s)) = 4" and "G_ops s \<noteq> []"
  shows "\<exists>n s'. lian_get_op m s = Some (n, s') \<and> G_op_cnt s' = n \<and>
    (if \<exists>p q. inside p \<and> inside q \<and> removable m p q
     then n = 1 \<and> (case G_ops s' ! 0 of (p, q) \<Rightarrow> inside p \<and> inside q \<and> removable m p q) else n = 0)"
proof -
  let ?s = "s\<lparr>G_op_cnt := 0\<rparr>"
  obtain s' where s': "(\<exists>p q. scan_pairs m pairs ?s = Some (1, s') \<and> (p, q) \<in> set pairs \<and> removable m p q \<and> G_ops s' ! 0 = (p, q) \<and> G_op_cnt s' = 1) \<or>
      scan_pairs m pairs ?s = Some (0, s') \<and> (\<forall>(p, q) \<in> set pairs. \<not> removable m p q)"
    using scan_pairs_spec [OF assms(1), of pairs ?s] pairs_inside assms(2,3) by auto
  show ?thesis
  proof (cases "\<exists>p q. scan_pairs m pairs ?s = Some (1, s') \<and> (p, q) \<in> set pairs \<and> removable m p q \<and> G_ops s' ! 0 = (p, q) \<and> G_op_cnt s' = 1")
    case True
    then show ?thesis using pairs_inside unfolding lian_get_op_def by (intro exI [of _ 1] exI [of _ s']) auto
  next
    case False
    then have n: "scan_pairs m pairs ?s = Some (0, s')" "\<And>p q. (p, q) \<in> set pairs \<Longrightarrow> \<not> removable m p q" using s' by auto
    have "\<not> removable m p q" if "inside p" "inside q" for p q
      using pairs_all [OF that] n(2) removable_sym [of m p q] by (cases "p = q") (auto simp: removable_def)
    moreover have "scan_pairs m ps t = Some (k, t') \<Longrightarrow> G_op_cnt t = 0 \<Longrightarrow> G_op_cnt t' = k" for ps t k t'
      by (induction m ps t arbitrary: k t' rule: scan_pairs.induct) (auto split: option.splits prod.splits if_splits simp: bind_eq_Some_conv)
    ultimately show ?thesis using n(1) unfolding lian_get_op_def by (intro exI [of _ 0] exI [of _ s']) auto
  qed
qed

section \<open>Filling the map\<close>

definition shape :: "lian_map \<Rightarrow> bool" where
  "shape m \<longleftrightarrow> length m = 12 \<and> (\<forall>row \<in> set m. length row = 12)"

lemma shape_nth: "shape m \<Longrightarrow> i < 12 \<Longrightarrow> length (m ! i) = 12"
  by (simp add: shape_def)

lemma grid_put_shape [simp]: "shape (grid_put c v m) = shape m"
proof -
  have "length (m ! fst c) = 12 \<and> length row = 12 \<longleftrightarrow> length row = 12" if "row = (m ! fst c)[snd c := v]" for row using that by auto
  then show ?thesis
    by (cases "fst c < length m") (auto simp: shape_def grid_put_def all_set_conv_all_nth nth_list_update)
qed

lemma grid_at_put:
  assumes "shape m" and "fst c < 12" and "snd c < 12"
  shows "grid_at (grid_put c v m) d = (if d = c then v else grid_at m d)"
  using assms shape_nth [OF assms(1,2)]
  by (cases "fst d = fst c"; cases "snd d = snd c") (auto simp: grid_at_def grid_put_def shape_def prod_eq_iff)

lemma cells_set: "set cells = {1..<11} \<times> {1..<11}"
  unfolding cells_def set_concat set_map set_upt by auto

lemma cells_distinct: "distinct cells"
  by (simp only: cells_def) (auto intro!: distinct_concat simp: distinct_map inj_on_def simp del: upt_conv_Cons)

lemma cells_bound: "c \<in> set cells \<Longrightarrow> fst c < 12 \<and> snd c < 12"
  by (auto simp: cells_set)

abbreviation filled :: "lian_map \<Rightarrow> (nat \<times> nat) list \<Rightarrow> (nat \<times> nat) list" where
  "filled level cs \<equiv> filter (\<lambda>c. grid_at level c \<noteq> 0) cs"

lemma fill_level_spec:
  "distinct cs \<Longrightarrow> \<forall>c \<in> set cs. fst c < 12 \<and> snd c < 12 \<Longrightarrow> shape m \<Longrightarrow> length (filled level cs) \<le> n \<Longrightarrow> n \<le> length temp \<Longrightarrow>
   \<exists>m'. fold (fill_level level temp) cs (m, n) = (m', n - length (filled level cs)) \<and> shape m' \<and>
     map (grid_at m') (filled level cs) = rev (drop (n - length (filled level cs)) (take n temp)) \<and>
     (\<forall>c. c \<notin> set cs \<or> grid_at level c = 0 \<longrightarrow> grid_at m' c = grid_at m c)"
proof (induction cs arbitrary: m n)
  case (Cons c cs)
  show ?case
  proof (cases "grid_at level c = 0")
    case True
    then show ?thesis using Cons.IH [of m n] Cons.prems by (auto simp: fill_level_def)
  next
    case False
    let ?m = "grid_put c (temp ! (n - 1)) m" and ?k = "length (filled level cs)"
    have k: "?k \<le> n - 1" "0 < n" using Cons.prems(4) False by auto
    have b: "fst c < 12" "snd c < 12" using Cons.prems(2) by auto
    obtain m' where m': "fold (fill_level level temp) cs (?m, n - 1) = (m', n - 1 - ?k)" "shape m'"
      "map (grid_at m') (filled level cs) = rev (drop (n - 1 - ?k) (take (n - 1) temp))"
      "\<And>d. d \<notin> set cs \<or> grid_at level d = 0 \<Longrightarrow> grid_at m' d = grid_at ?m d"
    proof -
      have "\<exists>m'. fold (fill_level level temp) cs (?m, n - 1) = (m', n - 1 - ?k) \<and> shape m' \<and>
         map (grid_at m') (filled level cs) = rev (drop (n - 1 - ?k) (take (n - 1) temp)) \<and>
         (\<forall>d. d \<notin> set cs \<or> grid_at level d = 0 \<longrightarrow> grid_at m' d = grid_at ?m d)"
        by (rule Cons.IH) (use Cons.prems k in auto)
      then show ?thesis using that by blast
    qed
    have "take n temp = take (n - 1) temp @ [temp ! (n - 1)]"
      using take_Suc_conv_app_nth [of "n - 1" temp] k(2) Cons.prems(5) by simp
    then have "rev (drop (n - Suc ?k) (take n temp)) = temp ! (n - 1) # rev (drop (n - 1 - ?k) (take (n - 1) temp))"
      using k Cons.prems(5) by simp
    moreover have "grid_at m' c = temp ! (n - 1)"
      using m'(4) [of c] Cons.prems(1) grid_at_put [OF Cons.prems(3) b] by simp
    moreover have "grid_at m' d = grid_at m d" if "d \<notin> set (c # cs) \<or> grid_at level d = 0" for d
    proof -
      have "d \<noteq> c" using that False by auto
      then show ?thesis using m'(4) [of d] that grid_at_put [OF Cons.prems(3) b] by auto
    qed
    moreover have "fold (fill_level level temp) (c # cs) (m, n) = (m', n - length (filled level (c # cs)))"
      using m'(1) False by (simp add: fill_level_def)
    ultimately show ?thesis using m'(2,3) False by (intro exI [of _ m']) simp
  qed
qed simp

text \<open>A cell is written after it was tested, so testing the map itself is testing the old map.\<close>

lemma fill_again_level:
  "distinct cs \<Longrightarrow> \<forall>c \<in> set cs. fst c < 12 \<and> snd c < 12 \<Longrightarrow> shape m \<Longrightarrow> \<forall>c \<in> set cs. grid_at m c = grid_at m0 c \<Longrightarrow>
   fold (fill_again temp) cs (m, n) = fold (fill_level m0 temp) cs (m, n)"
proof (induction cs arbitrary: m n)
  case (Cons c cs)
  have "grid_at (grid_put c v m) d = grid_at m0 d" if "d \<in> set cs" for d v
    using that Cons.prems grid_at_put [of m c v d] by auto
  then show ?case using Cons.IH [of "grid_put c (temp ! (n - 1)) m" "n - 1"] Cons.IH [of m n] Cons.prems
    by (simp add: fill_again_def fill_level_def)
qed simp

lemma mset_swap: "i < length xs \<Longrightarrow> j < length xs \<Longrightarrow> mset (xs[i := xs ! j, j := xs ! i]) = mset xs"
  by (rule mset_swap)

lemma shuffle_mset: "n \<le> length temp \<Longrightarrow> mset (fst (shuffle i n temp h)) = mset temp"
proof (induction i n temp h rule: shuffle.induct)
  case (1 i n temp h)
  show ?case
  proof (cases "i < n")
    case True
    obtain r h1 where r: "rand h = (r, h1)" by fastforce
    let ?ex = "i + unat r mod (n - i)"
    have "unat r mod (n - i) < n - i" using True by simp
    then have ex: "?ex < length temp" "i < length temp" using True "1.prems" by linarith+
    let ?t = "temp[i := temp ! ?ex, ?ex := temp ! i]"
    have "mset (fst (shuffle (i + 1) n ?t h1)) = mset ?t"
      using "1.IH" [OF True r [symmetric] refl] "1.prems" by (simp only: length_list_update)
    also have "\<dots> = mset temp" using ex by (intro mset_swap) simp_all
    finally show ?thesis using True r by (subst shuffle.simps) (simp add: Let_def)
  qed (simp add: shuffle.simps)
qed

lemma shuffle_length: "length (fst (shuffle i n temp h)) = length temp"
  by (induction i n temp h rule: shuffle.induct) (subst shuffle.simps, simp add: Let_def split: prod.splits)

text \<open>The blocks of a map, as a multiset.\<close>

definition blocks :: "lian_map \<Rightarrow> int multiset" where
  "blocks m = mset (map (grid_at m) (filled m cells))"

lemma fill_all:
  assumes "shape m" and "length temp = length (filled level cells)" and "0 \<notin> set temp"
    and "\<And>c. c \<in> set cells \<Longrightarrow> grid_at level c = 0 \<Longrightarrow> grid_at m c = 0"
  shows "\<exists>m'. fold (fill_level level temp) cells (m, length temp) = (m', 0) \<and> shape m' \<and> blocks m' = mset temp \<and>
     (\<forall>c \<in> set cells. grid_at m' c = 0 \<longleftrightarrow> grid_at level c = 0) \<and> (\<forall>c. c \<notin> set cells \<longrightarrow> grid_at m' c = grid_at m c)"
proof -
  obtain m' where m': "fold (fill_level level temp) cells (m, length temp) = (m', 0)" "shape m'"
    "map (grid_at m') (filled level cells) = rev temp" "\<And>c. c \<notin> set cells \<or> grid_at level c = 0 \<Longrightarrow> grid_at m' c = grid_at m c"
    using fill_level_spec [OF cells_distinct _ assms(1), of level "length temp" temp] cells_bound assms(2) by auto
  have "grid_at m' c \<noteq> 0" if "c \<in> set cells" "grid_at level c \<noteq> 0" for c
  proof -
    have "grid_at m' c \<in> set (map (grid_at m') (filled level cells))" using that by simp
    then show ?thesis using assms(3) unfolding m'(3) by auto
  qed
  then have z: "grid_at m' c = 0 \<longleftrightarrow> grid_at level c = 0" if "c \<in> set cells" for c using that m'(4) [of c] assms(4) [of c] by metis
  then have "filled m' cells = filled level cells" by (intro filter_cong) simp_all
  then have "blocks m' = mset temp" unfolding blocks_def using m'(3) by simp
  then show ?thesis using m' z by blast
qed

lemma map_ok_shape: "map_ok m \<Longrightarrow> shape m"
  by (simp add: map_ok_def shape_def)

lemma map_ok_keep:
  assumes "map_ok m" and "shape m'" and "\<And>c. c \<notin> set cells \<Longrightarrow> grid_at m' c = grid_at m c"
  shows "map_ok m'"
proof -
  have "m' ! i ! j = m ! i ! j" if "i = 0 \<or> j = 0 \<or> i = 11 \<or> j = 11" for i j
    using assms(3) [of "(i, j)"] that by (auto simp: cells_set grid_at_def)
  then show ?thesis using assms(1,2) unfolding map_ok_def shape_def by simp
qed

lemma make_blocks_even:
  "even (n - i) \<Longrightarrow> length (make_blocks i t n k) = n - i \<and> (\<forall>b \<in> set (make_blocks i t n k). 0 < b) \<and> even (count (mset (make_blocks i t n k)) v)"
proof (induction i t n k rule: make_blocks.induct)
  case (1 i t n k)
  show ?case
  proof (cases "i < n")
    case True
    then have "even (n - (i + 2))" "n - i = n - (i + 2) + 2" using "1.prems" by presburger+
    moreover have "make_blocks i t n k = int (t + 1) # int (t + 1) # make_blocks (i + 2) ((t + 1) mod k) n k"
      using True by (subst make_blocks.simps) simp
    ultimately show ?thesis using "1.IH" [OF True] by auto
  qed (simp add: make_blocks.simps)
qed

lemma clear_map:
  assumes "shape m" and "\<forall>c \<in> set cs. fst c < 12 \<and> snd c < 12"
  shows "shape (fold (\<lambda>c. grid_put c 0) cs m) \<and> (\<forall>c. grid_at (fold (\<lambda>c. grid_put c 0) cs m) c = (if c \<in> set cs then 0 else grid_at m c))"
  using assms
proof (induction cs arbitrary: m)
  case (Cons c cs)
  then show ?case using grid_at_put [of m c 0] by auto
qed simp

lemma level_maps: "even (length (filled (G_level_maps ! (level mod 3)) cells))"
proof -
  have "\<forall>i < 3. even (length (filled (G_level_maps ! i) cells))" by code_simp
  then show ?thesis by simp
qed

lemma reordered:
  assumes "map_ok (G_map s)"
  shows "\<exists>m h. lian_reorder s = (size (blocks (G_map s)), s\<lparr>G_map := m, holdrand := h\<rparr>) \<and> map_ok m \<and> blocks m = blocks (G_map s) \<and>
     (\<forall>c \<in> set cells. grid_at m c = 0 \<longleftrightarrow> grid_at (G_map s) c = 0)"
proof -
  let ?m = "G_map s" and ?temp = "map (grid_at (G_map s)) (filled (G_map s) cells)"
  obtain temp h where sh: "shuffle 0 (length ?temp) ?temp (holdrand s) = (temp, h)" by fastforce
  have mset: "mset temp = mset ?temp" using shuffle_mset [of "length ?temp" ?temp 0 "holdrand s"] sh by simp
  have len: "length temp = length ?temp" using mset by (metis size_mset)
  have "0 \<notin> set ?temp" by auto
  then have "0 \<notin> set temp" using mset_eq_setD [OF mset] by blast
  then obtain m' where m': "fold (fill_level ?m temp) cells (?m, length temp) = (m', 0)" "shape m'" "blocks m' = mset temp"
    "\<forall>c \<in> set cells. grid_at m' c = 0 \<longleftrightarrow> grid_at ?m c = 0" "\<And>c. c \<notin> set cells \<Longrightarrow> grid_at m' c = grid_at ?m c"
    using fill_all [OF map_ok_shape [OF assms], of temp ?m] len by auto
  have "fold (fill_again temp) cells (?m, length temp) = (m', 0)"
    using fill_again_level [OF cells_distinct _ map_ok_shape [OF assms], of ?m temp "length temp"] cells_bound m'(1) by auto
  then have "lian_reorder s = (size (blocks ?m), s\<lparr>G_map := m', holdrand := h\<rparr>)"
    using sh len by (simp add: lian_reorder_def Let_def blocks_def flip: size_mset mset_filter)
  moreover have "map_ok m'" by (rule map_ok_keep [OF assms m'(2,5)])
  ultimately show ?thesis using m'(3,4) mset by (auto simp: blocks_def)
qed

section \<open>Properties\<close>

text \<open>C29: \<^verbatim>\<open>lian_check\<close> says that two points inside of the map can be removed exactly when they are
  different blocks of the same type that a path of at most three straight lines through free
  cells joins. It always returns and stays inside of the map and of \<^verbatim>\<open>_G_way\<close>, which then holds
  such a path: the two blocks and the turning points between them.\<close>

theorem lian_check_three_lines:
  assumes "map_ok m" and "inside p" and "inside q" and "length (G_way w) = 4"
  shows "\<exists>w'. lian_check m p q w = Some (if removable m p q then CAN_GO else NO_WAY, w') \<and>
     (removable m p q \<longrightarrow> (\<exists>ps. take (G_pos w') (G_way w') = p # ps @ [q] \<and> lined m (p # ps @ [q]) \<and> length ps \<le> 2))"
  using lian_check_ok [OF assms] unfolding way_def by blast

text \<open>The first map, with a pair of blocks in the corners of a free square.\<close>

definition lian_demo :: lian_map where
  "lian_demo = grid_put (9, 9) 5 (grid_put (2, 2) 5 (fold (\<lambda>c. grid_put c 0) cells (G_level_maps ! 0)))"

lemma lian_demo_ok: "map_ok lian_demo"
  by code_simp

theorem lian_check_three_lines_witness:
  "\<exists>w'. lian_check lian_demo \<lparr>cx = 2, cy = 2\<rparr> \<lparr>cx = 9, cy = 9\<rparr> \<lparr>G_way = replicate 4 \<lparr>cx = 0, cy = 0\<rparr>, G_pos = 0\<rparr> = Some (CAN_GO, w') \<and>
     (\<exists>ps. take (G_pos w') (G_way w') = \<lparr>cx = 2, cy = 2\<rparr> # ps @ [\<lparr>cx = 9, cy = 9\<rparr>] \<and> length ps \<le> 2)"
proof -
  let ?w = "\<lparr>G_way = replicate 4 \<lparr>cx = 0, cy = 0\<rparr>, G_pos = 0\<rparr> :: way_state"
  have run: "\<exists>w'. lian_check lian_demo \<lparr>cx = 2, cy = 2\<rparr> \<lparr>cx = 9, cy = 9\<rparr> ?w = Some (CAN_GO, w')"
  proof -
    have "map_option fst (lian_check lian_demo \<lparr>cx = 2, cy = 2\<rparr> \<lparr>cx = 9, cy = 9\<rparr> ?w) = Some CAN_GO" by code_simp
    then show ?thesis by auto
  qed
  have i: "inside \<lparr>cx = 2, cy = 2\<rparr>" "inside \<lparr>cx = 9, cy = 9\<rparr>" "length (G_way ?w) = 4" by (simp_all add: inside_def)
  show ?thesis using lian_check_three_lines [OF lian_demo_ok i] run by (auto split: if_splits)
qed

text \<open>\<^verbatim>\<open>lian_get_op\<close> finds a pair of blocks that can be removed whenever there is one, stores
  it as the first operation and returns 1; else it returns 0.\<close>

theorem lian_get_op_finds:
  assumes "map_ok m" and "length (G_way (L_way s)) = 4" and "G_ops s \<noteq> []"
  shows "\<exists>n s'. lian_get_op m s = Some (n, s') \<and> G_op_cnt s' = n \<and>
    (if \<exists>p q. inside p \<and> inside q \<and> removable m p q
     then n = 1 \<and> (case G_ops s' ! 0 of (p, q) \<Rightarrow> inside p \<and> inside q \<and> removable m p q) else n = 0)"
  by (rule lian_get_op_ok [OF assms])

definition lian_demo_state :: lian_state where
  "lian_demo_state = \<lparr>G_map = lian_demo, L_way = \<lparr>G_way = replicate 4 \<lparr>cx = 0, cy = 0\<rparr>, G_pos = 0\<rparr>, G_op_cnt = 0,
     G_ops = replicate 50 (\<lparr>cx = 0, cy = 0\<rparr>, \<lparr>cx = 0, cy = 0\<rparr>), holdrand = 1\<rparr>"

theorem lian_get_op_finds_witness:
  "\<exists>n s'. lian_get_op lian_demo lian_demo_state = Some (n, s') \<and> n \<le> 1"
proof -
  have "length (G_way (L_way lian_demo_state)) = 4" "G_ops lian_demo_state \<noteq> []" by (simp_all add: lian_demo_state_def)
  from lian_get_op_finds [OF lian_demo_ok this] show ?thesis by (auto split: if_splits)
qed

text \<open>\<^verbatim>\<open>lian_reorder\<close> permutes the blocks: the same cells are free afterwards and every type of
  block is there as often as before, for every state of the random numbers.\<close>

theorem lian_reorder_permutes:
  assumes "map_ok (G_map s)"
  shows "\<exists>n s'. lian_reorder s = (n, s') \<and> n = size (blocks (G_map s)) \<and> map_ok (G_map s') \<and> blocks (G_map s') = blocks (G_map s) \<and>
     (\<forall>c \<in> set cells. grid_at (G_map s') c = 0 \<longleftrightarrow> grid_at (G_map s) c = 0)"
  using reordered [OF assms] by fastforce

theorem lian_reorder_permutes_witness:
  "blocks (G_map (snd (lian_reorder lian_demo_state))) = blocks lian_demo"
proof -
  have "map_ok (G_map lian_demo_state)" "G_map lian_demo_state = lian_demo" using lian_demo_ok by (simp_all add: lian_demo_state_def)
  then show ?thesis using lian_reorder_permutes [of lian_demo_state] by auto
qed

text \<open>\<^verbatim>\<open>lian_init\<close> fills a level: exactly the cells that its map names hold a block, and every
  type of block occurs an even number of times, so that blocks can be paired.\<close>

theorem lian_init_pairs:
  assumes "map_ok (G_map s)" and "level < 15"
  shows "\<exists>n s'. lian_init level s = (int n, s') \<and> n = size (blocks (G_map s')) \<and> map_ok (G_map s') \<and>
     (\<forall>b. even (count (blocks (G_map s')) b)) \<and>
     (\<forall>c \<in> set cells. grid_at (G_map s') c = 0 \<longleftrightarrow> grid_at (G_level_maps ! (level mod 3)) c = 0)"
proof -
  let ?lm = "G_level_maps ! (level mod 3)"
  let ?n = "length (filled ?lm cells)" and ?m0 = "fold (\<lambda>c. grid_put c 0) cells (G_map s)"
  let ?b = "make_blocks 0 0 ?n (G_type_num ! (level div 3))"
  have even: "even ?n" by (rule level_maps)
  have b: "length ?b = ?n" "\<forall>x \<in> set ?b. 0 < x" "\<And>v. even (count (mset ?b) v)" using make_blocks_even [of ?n 0] even by auto
  obtain temp h where sh: "shuffle 0 ?n ?b (holdrand s) = (temp, h)" by fastforce
  have mset: "mset temp = mset ?b" using shuffle_mset [of ?n ?b 0 "holdrand s"] sh b(1) by simp
  then have len: "length temp = ?n" using b(1) by (metis size_mset)
  have z: "0 \<notin> set temp" using mset b(2) by (metis less_irrefl set_mset_mset)
  have m0: "shape ?m0" "\<And>c. grid_at ?m0 c = (if c \<in> set cells then 0 else grid_at (G_map s) c)"
    using clear_map [OF map_ok_shape [OF assms(1)], of cells] cells_bound by auto
  obtain m' where m': "fold (fill_level ?lm temp) cells (?m0, length temp) = (m', 0)" "shape m'" "blocks m' = mset temp"
    "\<forall>c \<in> set cells. grid_at m' c = 0 \<longleftrightarrow> grid_at ?lm c = 0" "\<And>c. c \<notin> set cells \<Longrightarrow> grid_at m' c = grid_at ?m0 c"
    using fill_all [OF m0(1), of temp ?lm] len z m0(2) by auto
  have "map_ok m'" by (rule map_ok_keep [OF assms(1) m'(2)]) (use m'(5) m0(2) in simp)
  moreover have "lian_init level s = (int ?n, s\<lparr>G_map := m', holdrand := h\<rparr>)"
    using assms(2) even sh m'(1) len by (simp add: lian_init_def Let_def even_iff_mod_2_eq_zero)
  moreover have "size (blocks m') = ?n" using m'(3) len by simp
  ultimately show ?thesis using m'(3,4) mset b(3) by (intro exI [of _ ?n] exI [of _ "s\<lparr>G_map := m', holdrand := h\<rparr>"]) simp
qed

theorem lian_init_pairs_witness:
  "\<exists>n s'. lian_init 4 lian_demo_state = (int n, s') \<and> even (count (blocks (G_map s')) 7)"
proof -
  have "map_ok (G_map lian_demo_state)" using lian_demo_ok by (simp add: lian_demo_state_def)
  then show ?thesis using lian_init_pairs [of lian_demo_state 4] by auto
qed

end
