(* ===== verification/Tetris.thy ===== *)
theory Tetris
  imports CNumber
begin

text \<open>
  Tetris: \<^verbatim>\<open>src/tetris/src/tetris.c\<close> with the tables of \<^verbatim>\<open>tetris.h\<close>, and the wrapper of the
  kernel's message queue in \<^verbatim>\<open>os.c\<close>.

  The screen is a list of rows, each a 32 bit word whose bit \<open>x\<close> is the node in column \<open>x\<close>;
  the colours are one flat array. The enumerations of the code are numbers, as the code counts
  with them. Coordinates are integers, for the \<open>short\<close>s of the code never leave
  the screen by more than four. Every call of the routine that shows a node is kept in
  a list, the latest one first. The job queue is the list of its messages: that the queue of
  the kernel is first in first out is shown in theory MsgQ.

  Clearing a full row calls itself as long as the row is full again, which does not end
  for a screen without columns: it is an option, and that it returns is proved.
\<close>

section \<open>Tables and types\<close>

abbreviation (input) BLOCK_NODE_NUM :: nat where "BLOCK_NODE_NUM \<equiv> 4"
abbreviation (input) BLOCK_TYPE_NUM :: nat where "BLOCK_TYPE_NUM \<equiv> 19"
abbreviation (input) TETRIS_MAX_COLUMN :: nat where "TETRIS_MAX_COLUMN \<equiv> 32"
abbreviation (input) JOB_QUEUE_MAX :: nat where "JOB_QUEUE_MAX \<equiv> 60"
abbreviation (input) NO_COLOR :: nat where "NO_COLOR \<equiv> 0"

abbreviation (input) O_0 :: nat where "O_0 \<equiv> 0"
abbreviation (input) I_0 :: nat where "I_0 \<equiv> 1"
abbreviation (input) I_1 :: nat where "I_1 \<equiv> 2"
abbreviation (input) Z_0 :: nat where "Z_0 \<equiv> 3"
abbreviation (input) Z_1 :: nat where "Z_1 \<equiv> 4"
abbreviation (input) S_0 :: nat where "S_0 \<equiv> 5"
abbreviation (input) S_1 :: nat where "S_1 \<equiv> 6"
abbreviation (input) T_0 :: nat where "T_0 \<equiv> 7"
abbreviation (input) T_3 :: nat where "T_3 \<equiv> 10"
abbreviation (input) J_0 :: nat where "J_0 \<equiv> 11"
abbreviation (input) J_3 :: nat where "J_3 \<equiv> 14"
abbreviation (input) L_0 :: nat where "L_0 \<equiv> 15"
abbreviation (input) L_3 :: nat where "L_3 \<equiv> 18"

definition G_block_map :: "(nat \<times> nat) list list" where
  "G_block_map =
    [[(0,0), (1,0), (0,1), (1,1)],
     [(0,0), (0,1), (0,2), (0,3)],
     [(0,0), (1,0), (2,0), (3,0)],
     [(0,0), (1,0), (1,1), (2,1)],
     [(1,0), (0,1), (1,1), (0,2)],
     [(1,0), (2,0), (0,1), (1,1)],
     [(0,0), (0,1), (1,1), (1,2)],
     [(0,0), (1,0), (2,0), (1,1)],
     [(1,0), (0,1), (1,1), (1,2)],
     [(1,0), (0,1), (1,1), (2,1)],
     [(0,0), (0,1), (1,1), (0,2)],
     [(1,0), (1,1), (0,2), (1,2)],
     [(0,0), (0,1), (1,1), (2,1)],
     [(0,0), (1,0), (0,1), (0,2)],
     [(0,0), (1,0), (2,0), (2,1)],
     [(0,0), (0,1), (0,2), (1,2)],
     [(0,0), (1,0), (2,0), (0,1)],
     [(0,0), (1,0), (1,1), (1,2)],
     [(2,0), (0,1), (1,1), (2,1)]]"

definition G_score_map :: "nat list" where
  "G_score_map = [0, 1, 3, 7, 15]"

definition G_color_map :: "nat list" where
  "G_color_map = [1, 2, 2, 3, 3, 4, 4, 5, 5, 5, 5, 6, 6, 6, 6, 7, 7, 7, 7]"

datatype TETRIS_MSG = TETRIS_MSG_QUIT | TETRIS_MSG_TURN | TETRIS_MSG_DOWN | TETRIS_MSG_RIGHT
  | TETRIS_MSG_LEFT | TETRIS_MSG_AUTO | TETRIS_MSG_BOTTOM | TETRIS_MSG_HOLD

datatype SEND_MSG_STATUS = SEND_OK | SEND_TIMEOUT | SEND_GAME_OVER

datatype MOTION_STATUS = MOTION_STATUS_OK | MOTION_STATUS_ERROR | MOTION_STATUS_GAME_OVER

record BLOCK =
  base_x :: int
  base_y :: int
  blk_type :: nat

record SCREEN =
  scr_map :: "uint32 list"
  column_num :: nat
  row_num :: nat

text \<open>\<open>shown\<close>, the random seed and the id of the automatic task belong to the environment.\<close>

record TETRIS_CTRL =
  node_color_map :: "nat list"
  scr :: SCREEN
  full_mask :: uint32
  full_line :: int
  tet_score :: uint32
  blk :: BLOCK
  job_queue :: "TETRIS_MSG list option"
  in_auto_mode :: bool
  auto_task_id :: ptr
  shown :: "((int \<times> int) \<times> uint32) list"
  tet_seed :: uint32

definition BIT_VAL :: "uint32 \<Rightarrow> nat \<Rightarrow> uint32" where
  "BIT_VAL val pos = drop_bit pos val AND 1"

definition BIT_SET_NODE :: "uint32 \<Rightarrow> nat \<Rightarrow> uint32" where
  "BIT_SET_NODE val pos = val OR push_bit pos 1"

text \<open>\<^verbatim>\<open>COOR_X(i)\<close> and \<^verbatim>\<open>COOR_Y(i)\<close> of all nodes of a block.\<close>

definition block_coors :: "BLOCK \<Rightarrow> (int \<times> int) list" where
  "block_coors b = map (\<lambda>(px, py). (base_x b + int px, base_y b + int py)) (G_block_map ! blk_type b)"

definition block_color :: "TETRIS_CTRL \<Rightarrow> nat" where
  "block_color s = G_color_map ! blk_type (blk s)"

section \<open>Motions\<close>

definition is_occupied :: "SCREEN \<Rightarrow> int \<times> int \<Rightarrow> bool" where
  "is_occupied p c =
     (if fst c \<ge> 0 \<and> fst c < int (column_num p) \<and> snd c \<ge> 0 \<and> snd c < int (row_num p)
      then BIT_VAL (scr_map p ! nat (snd c)) (nat (fst c)) \<noteq> 0 else True)"

definition show_node :: "int \<times> int \<Rightarrow> uint32 \<Rightarrow> TETRIS_CTRL \<Rightarrow> TETRIS_CTRL" where
  "show_node c v s = s\<lparr>shown := (c, v) # shown s\<rparr>"

definition update_block :: "nat \<Rightarrow> TETRIS_CTRL \<Rightarrow> TETRIS_CTRL" where
  "update_block v s = fold (\<lambda>c. show_node c (of_nat v)) (block_coors (blk s)) s"

text \<open>The check that precedes every motion: some node of the moved block is occupied.\<close>

definition blocked :: "SCREEN \<Rightarrow> BLOCK \<Rightarrow> bool" where
  "blocked p b = list_ex (is_occupied p) (block_coors b)"

definition redraw :: "(BLOCK \<Rightarrow> BLOCK) \<Rightarrow> TETRIS_CTRL \<Rightarrow> TETRIS_CTRL" where
  "redraw f s = (let s1 = (update_block NO_COLOR s)\<lparr>blk := f (blk s)\<rparr> in update_block (block_color s1) s1)"

definition left :: "TETRIS_CTRL \<Rightarrow> MOTION_STATUS \<times> TETRIS_CTRL" where
  "left s =
     (if blocked (scr s) (base_x_update (\<lambda>x. x - 1) (blk s)) then (MOTION_STATUS_ERROR, s)
      else (MOTION_STATUS_OK, redraw (base_x_update (\<lambda>x. x - 1)) s))"

definition right :: "TETRIS_CTRL \<Rightarrow> MOTION_STATUS \<times> TETRIS_CTRL" where
  "right s =
     (if blocked (scr s) (base_x_update (\<lambda>x. x + 1) (blk s)) then (MOTION_STATUS_ERROR, s)
      else (MOTION_STATUS_OK, redraw (base_x_update (\<lambda>x. x + 1)) s))"

definition turned :: "nat \<Rightarrow> nat" where
  "turned t =
     (if t = I_1 then I_0 else if t = Z_1 then Z_0 else if t = S_1 then S_0 else if t = T_3 then T_0
      else if t = J_3 then J_0 else if t = L_3 then L_0 else t + 1)"

definition turn :: "TETRIS_CTRL \<Rightarrow> MOTION_STATUS \<times> TETRIS_CTRL" where
  "turn s =
     (if blk_type (blk s) = O_0 then (MOTION_STATUS_OK, s)
      else if blocked (scr s) (blk_type_update turned (blk s)) then (MOTION_STATUS_ERROR, s)
      else (MOTION_STATUS_OK, redraw (blk_type_update turned) s))"

section \<open>The job queue\<close>

text \<open>
  \<^verbatim>\<open>os_msgQ_send\<close> looks at the handle only: what \<^verbatim>\<open>msgQ_send\<close> answers is dropped, so a message that
  finds the queue full is lost without a notice.
\<close>

definition os_msgQ_send :: "TETRIS_MSG \<Rightarrow> TETRIS_MSG list option \<Rightarrow> int \<times> TETRIS_MSG list option" where
  "os_msgQ_send m q =
     (case q of None \<Rightarrow> (-2, None)
      | Some ms \<Rightarrow> (0, Some (if length ms < JOB_QUEUE_MAX then ms @ [m] else ms)))"

definition os_msgQ_flush :: "TETRIS_MSG list option \<Rightarrow> TETRIS_MSG list option" where
  "os_msgQ_flush q = map_option (\<lambda>_. []) q"

definition rb_send_msg :: "TETRIS_MSG \<Rightarrow> TETRIS_CTRL \<Rightarrow> SEND_MSG_STATUS \<times> TETRIS_CTRL" where
  "rb_send_msg m s =
     (let (ret, q) = os_msgQ_send m (job_queue s)
      in (if ret = -1 then SEND_TIMEOUT else if ret = -2 then SEND_GAME_OVER else SEND_OK, s\<lparr>job_queue := q\<rparr>))"

section \<open>A new block\<close>

text \<open>\<open>tid\<close> is what the creation of the automatic task returns. \<^verbatim>\<open>os_task_delete\<close>, which ends the automatic task
  of the block before, acts on the kernel and not on the game; it has no counterpart here.\<close>

definition new_block :: "ptr \<Rightarrow> TETRIS_CTRL \<Rightarrow> TETRIS_CTRL" where
  "new_block tid s =
     (let (r, seed) = rand (tet_seed s);
          s1 = s\<lparr>tet_seed := seed,
                 blk := \<lparr>base_x = int (column_num (scr s) div 2) - 1, base_y = 0, blk_type = unat r mod BLOCK_TYPE_NUM\<rparr>\<rparr>;
          s2 = (if \<not> in_auto_mode s1 then s1\<lparr>job_queue := os_msgQ_flush (job_queue s1)\<rparr> else s1);
          s3 = update_block (block_color s2) s2
      in if in_auto_mode s3 then s3\<lparr>auto_task_id := tid\<rparr> else s3)"

section \<open>Fixing a block\<close>

text \<open>The result of \<^verbatim>\<open>fix_node\<close> is the row that is full now, or -1.\<close>

definition fix_node :: "int \<times> int \<Rightarrow> TETRIS_CTRL \<Rightarrow> int \<times> TETRIS_CTRL" where
  "fix_node c s =
     (let x = nat (fst c); y = nat (snd c);
          p = (scr s)\<lparr>scr_map := (scr_map (scr s))[y := BIT_SET_NODE (scr_map (scr s) ! y) x]\<rparr>;
          s1 = s\<lparr>scr := p, node_color_map := (node_color_map s)[y * column_num p + x := block_color s]\<rparr>
      in if scr_map p ! y = full_mask s then (snd c, s1\<lparr>full_line := full_line s1 + 1\<rparr>) else (-1, s1))"

text \<open>
  \<open>src\<close> is the offset of the new colours in the array of colours, \<open>None\<close> for \<^verbatim>\<open>NULL\<close>.
\<close>

definition update_node :: "nat \<Rightarrow> nat option \<Rightarrow> nat \<Rightarrow> TETRIS_CTRL \<Rightarrow> TETRIS_CTRL" where
  "update_node y src i s =
     (let k = y * column_num (scr s) + i;
          c = (case src of Some off \<Rightarrow> node_color_map s ! (off + i) | None \<Rightarrow> NO_COLOR)
      in show_node (int i, int y) (of_nat c) (s\<lparr>node_color_map := (node_color_map s)[k := c]\<rparr>))"

definition update_line :: "nat \<Rightarrow> uint32 \<Rightarrow> nat option \<Rightarrow> TETRIS_CTRL \<Rightarrow> TETRIS_CTRL" where
  "update_line y new_val src s =
     (let s1 = fold (update_node y src) [0..<column_num (scr s)] s
      in s1\<lparr>scr := (scr s1)\<lparr>scr_map := (scr_map (scr s1))[y := new_val]\<rparr>\<rparr>)"

text \<open>Rows fall from row \<open>i\<close> upwards, up to the first empty one; the result is the last \<open>i\<close>.\<close>

fun fall_lines :: "nat \<Rightarrow> TETRIS_CTRL \<Rightarrow> nat \<times> TETRIS_CTRL" where
  "fall_lines 0 s = (0, s)"
| "fall_lines (Suc i) s =
     (let s1 = update_line (Suc i) (scr_map (scr s) ! i) (Some (i * column_num (scr s))) s
      in if scr_map (scr s1) ! Suc i = 0 then (Suc i, s1) else fall_lines i s1)"

partial_function (option) delete_this_line :: "nat \<Rightarrow> TETRIS_CTRL \<Rightarrow> TETRIS_CTRL option" where
  "delete_this_line y s =
     (let (i, s1) = fall_lines y s;
          s2 = (if i = 0 then update_line 0 0 None s1 else s1);
          s3 = s2\<lparr>full_line := full_line s2 - 1\<rparr>
      in if scr_map (scr s3) ! y = full_mask s3 then delete_this_line y s3 else Some s3)"

fun delete_lines :: "nat \<Rightarrow> TETRIS_CTRL \<Rightarrow> TETRIS_CTRL option" where
  "delete_lines n s =
     (if full_line s = 0 then Some s
      else case n of 0 \<Rightarrow> Some s
        | Suc i \<Rightarrow> if scr_map (scr s) ! i \<noteq> full_mask s then delete_lines i s
                   else Option.bind (delete_this_line i s) (delete_lines i))"

definition fix_nodes :: "TETRIS_CTRL \<Rightarrow> int \<times> TETRIS_CTRL" where
  "fix_nodes s =
     fold (\<lambda>c (bottom_full_line, s). let (fix_line, s1) = fix_node c s in (max fix_line bottom_full_line, s1))
       (block_coors (blk s)) (-1, s)"

definition show_score :: "int \<times> int \<Rightarrow> TETRIS_CTRL \<Rightarrow> TETRIS_CTRL" where
  "show_score c s = show_node c (tet_score s OR 0x80000000) s"

definition fix_block :: "TETRIS_CTRL \<Rightarrow> TETRIS_CTRL option" where
  "fix_block s =
     (let (bottom_full_line, s1) = fix_nodes s
      in if full_line s1 \<noteq> 0 then
           delete_lines (nat (bottom_full_line + 1))
             (show_score (last (block_coors (blk s)))
                (s1\<lparr>tet_score := tet_score s1 + of_nat (G_score_map ! nat (full_line s1))\<rparr>))
         else Some s1)"

definition down :: "ptr \<Rightarrow> TETRIS_CTRL \<Rightarrow> (MOTION_STATUS \<times> TETRIS_CTRL) option" where
  "down tid s =
     (if blocked (scr s) (base_y_update (\<lambda>y. y + 1) (blk s)) then
        if base_y (blk s) > 0 then
          Option.bind (fix_block s) (\<lambda>s1. Some (MOTION_STATUS_ERROR, new_block tid s1))
        else Some (MOTION_STATUS_GAME_OVER, s)
      else Some (MOTION_STATUS_OK, redraw (base_y_update (\<lambda>y. y + 1)) s))"

text \<open>The loop of \<^verbatim>\<open>bottom\<close>, which ends as every node meets the last row at the latest.\<close>

partial_function (option) drop_block :: "SCREEN \<Rightarrow> BLOCK \<Rightarrow> BLOCK option" where
  "drop_block p b =
     (let b1 = base_y_update (\<lambda>y. y + 1) b in if blocked p b1 then Some b else drop_block p b1)"

definition bottom :: "ptr \<Rightarrow> TETRIS_CTRL \<Rightarrow> (MOTION_STATUS \<times> TETRIS_CTRL) option" where
  "bottom tid s =
     (let s1 = update_block NO_COLOR s
      in Option.bind (drop_block (scr s1) (blk s1)) (\<lambda>b.
           let s2 = s1\<lparr>blk := b\<rparr>
           in if base_y b > 0 then
                Option.bind (fix_block (update_block (block_color s2) s2)) (\<lambda>s3. Some (MOTION_STATUS_ERROR, new_block tid s3))
              else Some (MOTION_STATUS_GAME_OVER, s2)))"

section \<open>The job task\<close>

text \<open>
  One turn of the loop of \<^verbatim>\<open>job_task\<close>: \<open>hold_on\<close> is its local variable, the first result tells
  whether the loop is left for \<^verbatim>\<open>game_over\<close>.
\<close>

definition job_turn :: "ptr \<Rightarrow> TETRIS_MSG \<Rightarrow> bool \<times> TETRIS_CTRL \<Rightarrow> (bool \<times> bool \<times> TETRIS_CTRL) option" where
  "job_turn tid m hs =
     (let (hold_on, s) = hs in
      case m of
        TETRIS_MSG_LEFT \<Rightarrow> Some (False, hold_on, snd (left s))
      | TETRIS_MSG_RIGHT \<Rightarrow> Some (False, hold_on, snd (right s))
      | TETRIS_MSG_TURN \<Rightarrow> Some (False, hold_on, snd (turn s))
      | TETRIS_MSG_DOWN \<Rightarrow>
          if hold_on then Some (False, hold_on, s)
          else Option.bind (down tid s) (\<lambda>(st, s1). Some (st = MOTION_STATUS_GAME_OVER, hold_on, s1))
      | TETRIS_MSG_BOTTOM \<Rightarrow>
          if hold_on then Some (False, hold_on, s)
          else Option.bind (bottom tid s) (\<lambda>(st, s1). Some (st = MOTION_STATUS_GAME_OVER, hold_on, s1))
      | TETRIS_MSG_AUTO \<Rightarrow> Some (False, hold_on, s\<lparr>in_auto_mode := \<not> in_auto_mode s\<rparr>)
      | TETRIS_MSG_HOLD \<Rightarrow> Some (False, \<not> hold_on, s)
      | TETRIS_MSG_QUIT \<Rightarrow> Some (True, hold_on, s))"

text \<open>The loop itself. It is given the messages that its calls of \<^verbatim>\<open>os_msgQ_recv\<close> return as a list, whose
  end is a call that blocks. An access outside of bit map or colours would be silent in these lists; that the
  game does not make one is part of C38.\<close>

fun job_task :: "ptr \<Rightarrow> TETRIS_MSG list \<Rightarrow> bool \<times> TETRIS_CTRL \<Rightarrow> (bool \<times> bool \<times> TETRIS_CTRL) option" where
  "job_task tid [] hs = Some (False, hs)"
| "job_task tid (m # ms) hs =
     Option.bind (job_turn tid m hs) (\<lambda>(over, hs1). if over then Some (True, hs1) else job_task tid ms hs1)"

text \<open>The control structure as \<^verbatim>\<open>rb_init\<close> leaves it, when its allocations succeed. With 32 columns, the most it
  admits, \<^verbatim>\<open>1 << 32\<close> is undefined in C; the definition takes it for 0, what a shift by a register gives on the
  ARM processor, so that the mask is full. The properties about whole games assume less than 32 columns.\<close>

definition rb_init :: "nat \<Rightarrow> nat \<Rightarrow> uint32 \<Rightarrow> TETRIS_CTRL" where
  "rb_init cols rows tick =
     (let n = min TETRIS_MAX_COLUMN cols;
          s = \<lparr>node_color_map = replicate (rows * n) 0,
               scr = \<lparr>scr_map = replicate rows 0, column_num = n, row_num = rows\<rparr>,
               full_mask = push_bit n 1 - 1, full_line = 0, tet_score = 0,
               blk = \<lparr>base_x = 0, base_y = 0, blk_type = 0\<rparr>, job_queue = Some [],
               in_auto_mode = False, auto_task_id = None, shown = [], tet_seed = srand tick\<rparr>;
          s1 = new_block None s
      in show_score (base_x (blk s1), base_y (blk s1)) s1)"

section \<open>Shapes\<close>

lemma shapes:
  assumes "t < 19"
  shows "length (G_block_map ! t) = 4" and "distinct (G_block_map ! t)"
    and "(px, py) \<in> set (G_block_map ! t) \<Longrightarrow> px \<le> 3 \<and> py \<le> 3"
    and "(px, py) \<in> set (G_block_map ! t) \<Longrightarrow> k \<le> py \<Longrightarrow> \<exists>qx. (qx, k) \<in> set (G_block_map ! t)"
    and "0 < G_color_map ! t" and "G_color_map ! t < 8"
proof -
  have all: "\<forall>t<19. length (G_block_map ! t) = 4 \<and> distinct (G_block_map ! t) \<and> 0 < G_color_map ! t \<and> G_color_map ! t < 8 \<and>
      (\<forall>(px, py) \<in> set (G_block_map ! t). px \<le> 3 \<and> py \<le> 3 \<and> (\<forall>k \<in> {0..<Suc py}. \<exists>q \<in> set (G_block_map ! t). snd q = k))"
    by code_simp
  show "length (G_block_map ! t) = 4" "distinct (G_block_map ! t)" "0 < G_color_map ! t" "G_color_map ! t < 8"
    using all assms by auto
  show "px \<le> 3 \<and> py \<le> 3" if "(px, py) \<in> set (G_block_map ! t)"
    using all assms that by fastforce
  show "\<exists>qx. (qx, k) \<in> set (G_block_map ! t)" if "(px, py) \<in> set (G_block_map ! t)" "k \<le> py"
  proof -
    have "\<forall>k \<in> {0..<Suc py}. \<exists>q \<in> set (G_block_map ! t). snd q = k"
      using all assms that(1) by fastforce
    with that(2) have "\<exists>q \<in> set (G_block_map ! t). snd q = k" by auto
    then show ?thesis by (metis prod.collapse)
  qed
qed

section \<open>Rows and the board\<close>

lemma BIT_VAL_bit: "BIT_VAL v i \<noteq> 0 \<longleftrightarrow> bit v i"
  by (simp add: BIT_VAL_def and_one_eq bit_iff_odd_drop_bit odd_iff_mod_2_eq_one)

lemma bit_SET_NODE: "bit (BIT_SET_NODE v x) i \<longleftrightarrow> bit v i \<or> i = x \<and> x < 32"
  by (auto simp: BIT_SET_NODE_def bit_or_iff bit_exp_iff possible_bit_def)

definition inside :: "SCREEN \<Rightarrow> int \<times> int \<Rightarrow> bool" where
  "inside p c \<longleftrightarrow> 0 \<le> fst c \<and> fst c < int (column_num p) \<and> 0 \<le> snd c \<and> snd c < int (row_num p)"

lemma is_occupied_iff:
  "is_occupied p c \<longleftrightarrow> \<not> inside p c \<or> bit (scr_map p ! nat (snd c)) (nat (fst c))"
  by (auto simp: is_occupied_def inside_def BIT_VAL_bit)

lemma blocked_iff: "blocked p b \<longleftrightarrow> (\<exists>c \<in> set (block_coors b). is_occupied p c)"
  by (simp add: blocked_def list_ex_iff)

definition board :: "TETRIS_CTRL \<Rightarrow> (uint32 \<times> nat list) list" where
  "board s = map (\<lambda>y. (scr_map (scr s) ! y, map (\<lambda>x. node_color_map s ! (y * column_num (scr s) + x)) [0..<column_num (scr s)]))
     [0..<row_num (scr s)]"

abbreviation empty_row :: "TETRIS_CTRL \<Rightarrow> uint32 \<times> nat list" where
  "empty_row s \<equiv> (0, replicate (column_num (scr s)) 0)"

definition settled :: "(uint32 \<times> nat list) list \<Rightarrow> bool" where
  "settled B \<longleftrightarrow> sorted (map (\<lambda>r. fst r \<noteq> 0) B)"

definition row_ok :: "nat \<Rightarrow> uint32 \<times> nat list \<Rightarrow> bool" where
  "row_ok n r \<longleftrightarrow> length (snd r) = n \<and> (\<forall>x. bit (fst r) x \<longleftrightarrow> x < n \<and> snd r ! x \<noteq> 0)"

definition sizes_ok :: "TETRIS_CTRL \<Rightarrow> bool" where
  "sizes_ok s \<longleftrightarrow> length (scr_map (scr s)) = row_num (scr s)
     \<and> length (node_color_map s) = row_num (scr s) * column_num (scr s)
     \<and> 0 < column_num (scr s) \<and> column_num (scr s) \<le> 32 \<and> full_mask s = push_bit (column_num (scr s)) 1 - 1"

lemma full_mask_bits:
  assumes "n \<le> 32"
  shows "bit (push_bit n 1 - 1 :: uint32) x \<longleftrightarrow> x < n"
proof -
  have "push_bit n 1 - 1 = (mask n :: uint32)" by (simp add: mask_eq_exp_minus_1 push_bit_eq_mult)
  then show ?thesis using assms by (auto simp: bit_mask_iff)
qed

lemma full_mask_pos:
  assumes "sizes_ok s"
  shows "full_mask s \<noteq> 0"
  using assms full_mask_bits [of "column_num (scr s)" 0] by (auto simp: sizes_ok_def)

lemma length_board [simp]: "length (board s) = row_num (scr s)"
  by (simp add: board_def)

lemma fst_board: "y < row_num (scr s) \<Longrightarrow> fst (board s ! y) = scr_map (scr s) ! y"
  by (simp add: board_def)

lemma snd_board:
  "y < row_num (scr s) \<Longrightarrow> x < column_num (scr s) \<Longrightarrow> snd (board s ! y) ! x = node_color_map s ! (y * column_num (scr s) + x)"
  by (simp add: board_def)

lemma empty_row_unique:
  assumes "row_ok (column_num (scr s)) r" and "fst r = 0"
  shows "r = empty_row s"
  using assms by (auto simp: row_ok_def prod_eq_iff intro!: nth_equalityI)

lemma row_ok_empty: "row_ok (column_num (scr s)) (empty_row s)"
  by (simp add: row_ok_def)

lemma node_index:
  assumes "y < h" and "x < (n::nat)"
  shows "y * n + x < h * n"
proof -
  have "y * n + x < Suc y * n" using assms by simp
  also have "\<dots> \<le> h * n" using assms by (intro mult_le_mono1) simp
  finally show ?thesis .
qed

lemma node_index_eq:
  assumes "x < (n::nat)" and "x' < n"
  shows "y * n + x = y' * n + x' \<longleftrightarrow> y = y' \<and> x = x'"
proof -
  have "(y * n + x) div n = y" "(y * n + x) mod n = x" "(y' * n + x') div n = y'" "(y' * n + x') mod n = x'"
    using assms by auto
  then show ?thesis by metis
qed

section \<open>One row changes\<close>

text \<open>What an operation on the board leaves alone; only the calls of the display grow.\<close>

definition same_game :: "TETRIS_CTRL \<Rightarrow> TETRIS_CTRL \<Rightarrow> bool" where
  "same_game s s' \<longleftrightarrow> column_num (scr s') = column_num (scr s) \<and> row_num (scr s') = row_num (scr s) \<and> full_mask s' = full_mask s
     \<and> blk s' = blk s \<and> tet_score s' = tet_score s \<and> job_queue s' = job_queue s \<and> in_auto_mode s' = in_auto_mode s
     \<and> auto_task_id s' = auto_task_id s \<and> tet_seed s' = tet_seed s"

lemma same_game_refl: "same_game s s"
  by (simp add: same_game_def)

lemma same_game_trans: "same_game s s' \<Longrightarrow> same_game s' s'' \<Longrightarrow> same_game s s''"
  by (simp add: same_game_def)

lemma same_game_D:
  assumes "same_game s s'"
  shows "column_num (scr s') = column_num (scr s)" and "row_num (scr s') = row_num (scr s)" and "full_mask s' = full_mask s"
    and "blk s' = blk s" and "tet_score s' = tet_score s" and "block_color s' = block_color s"
    and "job_queue s' = job_queue s" and "in_auto_mode s' = in_auto_mode s" and "auto_task_id s' = auto_task_id s"
    and "tet_seed s' = tet_seed s"
  using assms by (auto simp: same_game_def block_color_def)

lemma update_nodes_spec:
  assumes "sizes_ok s" and "y < row_num (scr s)" and "k \<le> column_num (scr s)"
    and "\<And>off. src = Some off \<Longrightarrow> off + column_num (scr s) \<le> y * column_num (scr s)"
  shows "\<exists>cm sh. fold (update_node y src) [0..<k] s = s\<lparr>node_color_map := cm, shown := sh\<rparr>
     \<and> length cm = length (node_color_map s)
     \<and> (\<forall>y' x. x < column_num (scr s) \<longrightarrow> y' < row_num (scr s) \<longrightarrow>
          cm ! (y' * column_num (scr s) + x) =
            (if y' = y \<and> x < k then (case src of None \<Rightarrow> 0 | Some off \<Rightarrow> node_color_map s ! (off + x))
             else node_color_map s ! (y' * column_num (scr s) + x)))"
  using assms(3)
proof (induction k)
  case 0
  show ?case by (intro exI [of _ "node_color_map s"] exI [of _ "shown s"]) simp
next
  case (Suc k)
  let ?n = "column_num (scr s)"
  from Suc obtain cm sh where 1: "fold (update_node y src) [0..<k] s = s\<lparr>node_color_map := cm, shown := sh\<rparr>"
    and len: "length cm = length (node_color_map s)"
    and cm: "\<And>y' x. x < ?n \<Longrightarrow> y' < row_num (scr s) \<Longrightarrow> cm ! (y' * ?n + x) =
            (if y' = y \<and> x < k then (case src of None \<Rightarrow> 0 | Some off \<Rightarrow> node_color_map s ! (off + x))
             else node_color_map s ! (y' * ?n + x))"
    by auto
  have size: "length (node_color_map s) = row_num (scr s) * ?n" using assms(1) by (simp add: sizes_ok_def)
  define c where "c = (case src of None \<Rightarrow> 0 | Some off \<Rightarrow> node_color_map s ! (off + k))"
  have c: "(case src of None \<Rightarrow> NO_COLOR | Some off \<Rightarrow> cm ! (off + k)) = c"
  proof (cases src)
    case (Some off)
    let ?p = "off + k"
    have lt: "?p < y * ?n" using assms(4) [OF Some] Suc.prems by simp
    have eq: "?p = (?p div ?n) * ?n + ?p mod ?n" by simp
    have div: "?p div ?n < y" using lt by (simp add: div_less_iff_less_mult less_mult_imp_div_less)
    have "cm ! ((?p div ?n) * ?n + ?p mod ?n) = node_color_map s ! ((?p div ?n) * ?n + ?p mod ?n)"
      using cm [of "?p mod ?n" "?p div ?n"] div assms(2) Suc.prems by simp
    then show ?thesis by (simp add: c_def Some)
  qed (simp add: c_def)
  show ?case
  proof (intro exI conjI allI impI)
    show "fold (update_node y src) [0..<Suc k] s
        = s\<lparr>node_color_map := cm[y * ?n + k := c], shown := ((int k, int y), of_nat c) # sh\<rparr>"
      using c by (simp add: 1 update_node_def show_node_def Let_def cong: option.case_cong)
    show "length (cm[y * ?n + k := c]) = length (node_color_map s)" using len by simp
  next
    fix y' x
    assume x: "x < ?n" and y': "y' < row_num (scr s)"
    have "y' * ?n + x < length cm" using node_index [OF y' x] len size by simp
    then show "cm[y * ?n + k := c] ! (y' * ?n + x) =
        (if y' = y \<and> x < Suc k then (case src of None \<Rightarrow> 0 | Some off \<Rightarrow> node_color_map s ! (off + x))
         else node_color_map s ! (y' * ?n + x))"
      using node_index_eq [of x ?n k y' y] x Suc.prems cm [OF x y'] by (auto simp: nth_list_update c_def)
  qed
qed

lemma update_line_spec:
  assumes ok: "sizes_ok s" and y: "y < row_num (scr s)"
    and src: "\<And>off. src = Some off \<Longrightarrow> off + column_num (scr s) \<le> y * column_num (scr s)"
  shows "same_game s (update_line y v src s)" and "sizes_ok (update_line y v src s)"
    and "full_line (update_line y v src s) = full_line s"
    and "board (update_line y v src s) = (board s)[y := (v, case src of None \<Rightarrow> replicate (column_num (scr s)) 0
           | Some off \<Rightarrow> map (\<lambda>x. node_color_map s ! (off + x)) [0..<column_num (scr s)])]"
proof -
  let ?n = "column_num (scr s)"
  from update_nodes_spec [OF ok y le_refl, of src] src
  obtain cm sh where 1: "fold (update_node y src) [0..<?n] s = s\<lparr>node_color_map := cm, shown := sh\<rparr>"
    and len: "length cm = length (node_color_map s)"
    and cm: "\<And>y' x. x < ?n \<Longrightarrow> y' < row_num (scr s) \<Longrightarrow> cm ! (y' * ?n + x) =
            (if y' = y then (case src of None \<Rightarrow> 0 | Some off \<Rightarrow> node_color_map s ! (off + x))
             else node_color_map s ! (y' * ?n + x))"
    by auto
  have eq: "update_line y v src s = s\<lparr>node_color_map := cm, scr := (scr s)\<lparr>scr_map := (scr_map (scr s))[y := v]\<rparr>, shown := sh\<rparr>"
    by (simp add: update_line_def 1)
  show "same_game s (update_line y v src s)" by (simp add: same_game_def eq)
  show "sizes_ok (update_line y v src s)" "full_line (update_line y v src s) = full_line s"
    using ok len by (simp_all add: eq sizes_ok_def)
  have size: "length (scr_map (scr s)) = row_num (scr s)" using ok by (simp add: sizes_ok_def)
  let ?s = "s\<lparr>node_color_map := cm, scr := (scr s)\<lparr>scr_map := (scr_map (scr s))[y := v]\<rparr>, shown := sh\<rparr>"
  have "board ?s = (board s)[y := (v, case src of None \<Rightarrow> replicate ?n 0
           | Some off \<Rightarrow> map (\<lambda>x. node_color_map s ! (off + x)) [0..<?n])]"
  proof (rule nth_equalityI)
    fix j
    assume "j < length (board ?s)"
    then have j: "j < row_num (scr s)" by (simp add: eq)
    then show "board ?s ! j = (board s)[y := (v, case src of None \<Rightarrow> replicate ?n 0
           | Some off \<Rightarrow> map (\<lambda>x. node_color_map s ! (off + x)) [0..<?n])] ! j"
      using y size cm [OF _ j] by (cases src) (auto simp: board_def nth_list_update intro!: nth_equalityI)
  qed simp
  then show "board (update_line y v src s) = (board s)[y := (v, case src of None \<Rightarrow> replicate ?n 0
           | Some off \<Rightarrow> map (\<lambda>x. node_color_map s ! (off + x)) [0..<?n])]"
    by (simp only: eq)
qed

lemma copy_line:
  assumes ok: "sizes_ok s" and y: "Suc i < row_num (scr s)"
  shows "board (update_line (Suc i) (scr_map (scr s) ! i) (Some (i * column_num (scr s))) s) = (board s)[Suc i := board s ! i]"
proof -
  have "(scr_map (scr s) ! i, map (\<lambda>x. node_color_map s ! (i * column_num (scr s) + x)) [0..<column_num (scr s)]) = board s ! i"
    using y by (simp add: board_def)
  then show ?thesis using update_line_spec(4) [OF ok y, of "Some (i * column_num (scr s))"] by simp
qed

section \<open>Full rows are cleared\<close>

lemma sizes_ok_full_line [simp]: "sizes_ok (s\<lparr>full_line := fl\<rparr>) = sizes_ok s"
  by (simp add: sizes_ok_def)

lemma board_full_line [simp]: "board (s\<lparr>full_line := fl\<rparr>) = board s"
  by (simp add: board_def)

lemma same_game_full_line: "same_game s s' \<Longrightarrow> same_game s (s'\<lparr>full_line := fl\<rparr>)"
  by (simp add: same_game_def)

lemma settled_append:
  "settled (A @ B) \<longleftrightarrow> settled A \<and> settled B \<and> (\<forall>a \<in> set A. \<forall>b \<in> set B. fst b = 0 \<longrightarrow> fst a = 0)"
  by (auto simp: settled_def sorted_append)

lemma settled_Cons: "settled (r # B) \<longleftrightarrow> (fst r = 0 \<or> (\<forall>b \<in> set B. fst b \<noteq> 0)) \<and> settled B"
  by (auto simp: settled_def)

lemma settled_Nil [simp]: "settled []"
  by (simp add: settled_def)

definition rows_ok :: "nat \<Rightarrow> (uint32 \<times> nat list) list \<Rightarrow> bool" where
  "rows_ok n B \<longleftrightarrow> settled B \<and> (\<forall>r \<in> set B. row_ok n r)"

lemma rows_ok_split:
  "rows_ok n (A @ r # C) \<Longrightarrow> rows_ok n ((0, replicate n 0) # A @ C)"
  by (auto simp: rows_ok_def settled_append settled_Cons row_ok_def)

text \<open>
  The rows above row \<open>y\<close> fall by one and an empty row comes on top, also when the code stops
  early, as all rows above an empty row are empty.
\<close>

lemma fall_lines_spec:
  assumes "sizes_ok s" and "y < row_num (scr s)" and "rows_ok (column_num (scr s)) (take (Suc y) (board s))"
  shows "\<exists>i s1. fall_lines y s = (i, s1) \<and> same_game s s1 \<and> sizes_ok s1 \<and> full_line s1 = full_line s
    \<and> (let s2 = (if i = 0 then update_line 0 0 None s1 else s1)
       in board s2 = empty_row s # take y (board s) @ drop (Suc y) (board s))"
  using assms
proof (induction y arbitrary: s)
  case 0
  have "board s = board s ! 0 # drop (Suc 0) (board s)"
    using "0.prems" by (metis Cons_nth_drop_Suc drop0 length_board)
  then have "(board s)[0 := empty_row s] = empty_row s # drop (Suc 0) (board s)" by (metis list_update_code(2))
  then show ?case
    using update_line_spec(4) [OF "0.prems"(1,2), of None 0] same_game_refl "0.prems"(1) by simp
next
  case (Suc y)
  let ?B = "board s" and ?n = "column_num (scr s)"
  let ?s1 = "update_line (Suc y) (scr_map (scr s) ! y) (Some (y * ?n)) s"
  have line: "same_game s ?s1" "sizes_ok ?s1" "full_line ?s1 = full_line s"
    by (rule update_line_spec [OF Suc.prems(1,2)]; simp)+
  note D = same_game_D [OF line(1)]
  have B1: "board ?s1 = ?B[Suc y := ?B ! y]" by (rule copy_line [OF Suc.prems(1,2)])
  have len: "y < length ?B" "Suc y < length ?B" using Suc.prems(2) by auto
  have tk: "take (Suc (Suc y)) ?B = take y ?B @ [?B ! y, ?B ! Suc y]"
    using len by (simp add: take_Suc_conv_app_nth)
  have at: "scr_map (scr ?s1) ! Suc y = fst (?B ! y)"
    using fst_board [of "Suc y" ?s1] len D(2) by (simp add: B1)
  show ?case
  proof (cases "fst (?B ! y) = 0")
    case True
    have ok: "row_ok ?n (?B ! y)" "\<forall>r \<in> set (take y ?B). row_ok ?n r \<and> fst r = 0"
      using Suc.prems(3) True unfolding tk rows_ok_def by (auto simp: settled_append)
    have zero: "?B ! y = empty_row s" by (rule empty_row_unique [OF ok(1) True])
    have "take y ?B = replicate y (empty_row s)"
    proof (rule replicate_eqI)
      show "r = empty_row s" if "r \<in> set (take y ?B)" for r
        using ok(2) that by (intro empty_row_unique) auto
    qed (use len in simp)
    then have "?B[Suc y := ?B ! y] = empty_row s # take (Suc y) ?B @ drop (Suc (Suc y)) ?B"
      using len by (simp add: upd_conv_take_nth_drop take_Suc_conv_app_nth zero replicate_append_same)
    moreover have "fall_lines (Suc y) s = (Suc y, ?s1)" by (simp add: at True Let_def)
    ultimately show ?thesis using line B1 by simp
  next
    case False
    have "rows_ok (column_num (scr ?s1)) (take (Suc y) (board ?s1))"
      using Suc.prems(3) len unfolding D B1 tk by (auto simp: take_Suc_conv_app_nth rows_ok_def settled_append settled_Cons)
    from Suc.IH [OF line(2) _ this] Suc.prems(2) D
    obtain i s1 where IH: "fall_lines y ?s1 = (i, s1)" "same_game ?s1 s1" "sizes_ok s1" "full_line s1 = full_line ?s1"
      "board (if i = 0 then update_line 0 0 None s1 else s1) = empty_row s # take y (board ?s1) @ drop (Suc y) (board ?s1)"
      by (auto simp: Let_def)
    have "fall_lines (Suc y) s = (i, s1)" by (simp add: at False Let_def IH(1))
    moreover have "take y (board ?s1) @ drop (Suc y) (board ?s1) = take (Suc y) ?B @ drop (Suc (Suc y)) ?B"
      using len by (simp add: B1 take_Suc_conv_app_nth upd_conv_take_nth_drop Cons_nth_drop_Suc [symmetric])
    ultimately show ?thesis using IH line same_game_trans by (auto simp: Let_def)
  qed
qed

definition nonfull :: "TETRIS_CTRL \<Rightarrow> uint32 \<times> nat list \<Rightarrow> bool" where
  "nonfull s r \<longleftrightarrow> fst r \<noteq> full_mask s"

definition full_num :: "TETRIS_CTRL \<Rightarrow> nat" where
  "full_num s = length (filter (\<lambda>r. \<not> nonfull s r) (board s))"

lemma one_row_cleared:
  assumes ok: "sizes_ok s" and y: "y < row_num (scr s)" and rows: "rows_ok (column_num (scr s)) (board s)"
    and full: "scr_map (scr s) ! y = full_mask s"
  obtains i s1 s2 where "fall_lines y s = (i, s1)" and "s2 = (if i = 0 then update_line 0 0 None s1 else s1)"
    and "same_game s s2" and "sizes_ok s2" and "full_line s2 = full_line s"
    and "rows_ok (column_num (scr s)) (board s2)" and "filter (nonfull s) (board s2) = empty_row s # filter (nonfull s) (board s)"
    and "Suc (full_num s2) = full_num s" and "\<forall>j>y. board s2 ! j = board s ! j"
proof -
  let ?B = "board s" and ?n = "column_num (scr s)"
  have split: "?B = take y ?B @ ?B ! y # drop (Suc y) ?B" using y by (simp add: id_take_nth_drop)
  have "rows_ok ?n (take (Suc y) ?B)"
    using rows split unfolding rows_ok_def by (metis append_take_drop_id in_set_takeD settled_append)
  from fall_lines_spec [OF ok y this] obtain i s1 where
    f: "fall_lines y s = (i, s1)" "same_game s s1" "sizes_ok s1" "full_line s1 = full_line s"
    "board (if i = 0 then update_line 0 0 None s1 else s1) = empty_row s # take y ?B @ drop (Suc y) ?B"
    by (auto simp: Let_def)
  define s2 where "s2 = (if i = 0 then update_line 0 0 None s1 else s1)"
  have y1: "0 < row_num (scr s1)" using y same_game_D(2) [OF f(2)] by simp
  have s2: "same_game s s2" "sizes_ok s2" "full_line s2 = full_line s"
    using f update_line_spec(1-3) [OF f(3) y1, of None 0] same_game_trans by (auto simp: s2_def)
  have B2: "board s2 = empty_row s # take y ?B @ drop (Suc y) ?B" using f(5) by (simp add: s2_def)
  have rows2: "rows_ok ?n (board s2)"
    unfolding B2 by (rule rows_ok_split [of _ _ "?B ! y"]) (use rows split in simp)
  have nf: "\<not> nonfull s (?B ! y)" "nonfull s (empty_row s)" "nonfull s2 = nonfull s"
    using full fst_board [OF y] full_mask_pos [OF ok] same_game_D(3) [OF s2(1)] by (auto simp: nonfull_def fun_eq_iff)
  have fil: "filter P ?B = filter P (take y ?B) @ (if P (?B ! y) then [?B ! y] else []) @ filter P (drop (Suc y) ?B)" for P
    by (subst split) simp
  have "filter (nonfull s) (board s2) = empty_row s # filter (nonfull s) ?B"
    using nf by (simp add: B2 fil)
  moreover have "Suc (full_num s2) = full_num s" using nf by (simp add: full_num_def B2 fil)
  moreover have "\<forall>j>y. board s2 ! j = ?B ! j"
    using y by (auto simp: B2 nth_append min_def nth_Cons')
  ultimately show ?thesis using f(1) s2_def s2 rows2 by (intro that)
qed

lemma delete_this_line_spec:
  assumes "sizes_ok s" and "y < row_num (scr s)" and "rows_ok (column_num (scr s)) (board s)"
    and "scr_map (scr s) ! y = full_mask s"
  shows "\<exists>s' d. delete_this_line y s = Some s' \<and> same_game s s' \<and> sizes_ok s' \<and> rows_ok (column_num (scr s)) (board s')
     \<and> full_line s' = full_line s - int d \<and> full_num s = full_num s' + d
     \<and> filter (nonfull s) (board s') = replicate d (empty_row s) @ filter (nonfull s) (board s)
     \<and> (\<forall>j>y. board s' ! j = board s ! j) \<and> scr_map (scr s') ! y \<noteq> full_mask s"
  using assms
proof (induction "full_num s" arbitrary: s rule: less_induct)
  case less
  from one_row_cleared [OF less.prems] obtain i s1 s2 where
    f: "fall_lines y s = (i, s1)" "s2 = (if i = 0 then update_line 0 0 None s1 else s1)" and
    s2: "same_game s s2" "sizes_ok s2" "full_line s2 = full_line s" "rows_ok (column_num (scr s)) (board s2)"
    "filter (nonfull s) (board s2) = empty_row s # filter (nonfull s) (board s)" "Suc (full_num s2) = full_num s"
    "\<forall>j>y. board s2 ! j = board s ! j" .
  let ?s3 = "s2\<lparr>full_line := full_line s2 - 1\<rparr>"
  have run: "delete_this_line y s = (if scr_map (scr s2) ! y = full_mask s2 then delete_this_line y ?s3 else Some ?s3)"
    by (subst delete_this_line.simps) (simp add: f(1) f(2) [symmetric] Let_def)
  note D = same_game_D [OF s2(1)]
  have n3: "full_num ?s3 = full_num s2" "nonfull ?s3 = nonfull s"
    using D(3) by (simp_all add: full_num_def nonfull_def fun_eq_iff)
  have g3: "same_game s ?s3" by (rule same_game_full_line [OF s2(1)])
  show ?case
  proof (cases "scr_map (scr s2) ! y = full_mask s2")
    case True
    have "full_num ?s3 < full_num s" using n3 s2(6) by simp
    from less.hyps [OF this] less.prems s2 D True
    obtain s' d where IH: "delete_this_line y ?s3 = Some s'" "same_game ?s3 s'" "sizes_ok s'" "rows_ok (column_num (scr s)) (board s')"
      "full_line s' = full_line ?s3 - int d" "full_num ?s3 = full_num s' + d"
      "filter (nonfull s) (board s') = replicate d (empty_row s) @ filter (nonfull s) (board s2)"
      "\<forall>j>y. board s' ! j = board s2 ! j" "scr_map (scr s') ! y \<noteq> full_mask s"
      unfolding n3 by auto
    show ?thesis
      using run True IH s2 n3 same_game_trans [OF g3 IH(2)]
      by (intro exI [of _ s'] exI [of _ "Suc d"]) (simp add: replicate_app_Cons_same)
  next
    case False
    show ?thesis
      using run False s2 n3 g3 D(3) by (intro exI [of _ ?s3] exI [of _ 1]) simp
  qed
qed

declare delete_lines.simps [simp del]

lemma full_num_0: "full_num s = 0 \<longleftrightarrow> (\<forall>y<row_num (scr s). scr_map (scr s) ! y \<noteq> full_mask s)"
  by (simp add: full_num_def filter_empty_conv all_set_conv_all_nth nonfull_def fst_board)

lemma delete_lines_spec:
  assumes "sizes_ok s" and "n \<le> row_num (scr s)" and "rows_ok (column_num (scr s)) (board s)"
    and "full_line s = int (full_num s)" and "\<And>j. n \<le> j \<Longrightarrow> j < row_num (scr s) \<Longrightarrow> scr_map (scr s) ! j \<noteq> full_mask s"
  shows "\<exists>s'. delete_lines n s = Some s' \<and> same_game s s' \<and> sizes_ok s' \<and> rows_ok (column_num (scr s)) (board s')
     \<and> full_line s' = 0 \<and> full_num s' = 0
     \<and> board s' = replicate (full_num s) (empty_row s) @ filter (nonfull s) (board s)"
  using assms
proof (induction n arbitrary: s)
  case 0
  then have none: "full_num s = 0" by (simp add: full_num_0)
  then have "filter (nonfull s) (board s) = board s"
    by (auto simp: full_num_def filter_empty_conv intro!: filter_True)
  then show ?case using 0 none same_game_refl by (subst delete_lines.simps) simp
next
  case (Suc n)
  note cl = Suc.prems
  show ?case
  proof (cases "full_line s = 0")
    case True
    then have none: "full_num s = 0" using cl(4) by simp
    then have "filter (nonfull s) (board s) = board s"
      by (auto simp: full_num_def filter_empty_conv intro!: filter_True)
    then show ?thesis using cl none True same_game_refl by (subst delete_lines.simps) simp
  next
    case busy: False
    show ?thesis
    proof (cases "scr_map (scr s) ! n = full_mask s")
      case False
      have "delete_lines (Suc n) s = delete_lines n s"
        using busy False by (subst delete_lines.simps) simp
      moreover have "scr_map (scr s) ! j \<noteq> full_mask s" if "n \<le> j" "j < row_num (scr s)" for j
        using cl(5) that False by (cases "j = n") auto
      ultimately show ?thesis using Suc.IH [of s] cl by simp
    next
      case True
      from delete_this_line_spec [OF cl(1) _ cl(3) True] cl(2) obtain s1 d where
        s1: "delete_this_line n s = Some s1" "same_game s s1" "sizes_ok s1" "rows_ok (column_num (scr s)) (board s1)"
        "full_line s1 = full_line s - int d" "full_num s = full_num s1 + d"
        "filter (nonfull s) (board s1) = replicate d (empty_row s) @ filter (nonfull s) (board s)"
        "\<forall>j>n. board s1 ! j = board s ! j" "scr_map (scr s1) ! n \<noteq> full_mask s"
        by auto
      note D = same_game_D [OF s1(2)]
      have run: "delete_lines (Suc n) s = delete_lines n s1"
        using busy True s1(1) by (subst delete_lines.simps) simp
      have "scr_map (scr s1) ! j \<noteq> full_mask s1" if "n \<le> j" "j < row_num (scr s1)" for j
      proof (cases "j = n")
        case False
        then have "scr_map (scr s1) ! j = scr_map (scr s) ! j"
          using that s1(8) fst_board [of j s1] fst_board [of j s] D(2) by auto
        then show ?thesis using cl(5) [of j] that False D by simp
      qed (use s1(9) D in simp)
      from Suc.IH [OF s1(3) _ _ _ this] cl(2,4) s1(4,5,6) D obtain s2 where
        s2: "delete_lines n s1 = Some s2" "same_game s1 s2" "sizes_ok s2" "rows_ok (column_num (scr s)) (board s2)"
        "full_line s2 = 0" "full_num s2 = 0" "board s2 = replicate (full_num s1) (empty_row s) @ filter (nonfull s1) (board s1)"
        by auto
      have "nonfull s1 = nonfull s" by (simp add: nonfull_def D fun_eq_iff)
      then show ?thesis
        using run s2 s1(6,7) same_game_trans [OF s1(2) s2(2)] by (simp add: replicate_add)
    qed
  qed
qed

section \<open>A block is fixed\<close>

definition nodes_in :: "SCREEN \<Rightarrow> (int \<times> int) list \<Rightarrow> bool" where
  "nodes_in p cs \<longleftrightarrow> distinct cs \<and> (\<forall>c \<in> set cs. inside p c \<and> \<not> bit (scr_map p ! nat (snd c)) (nat (fst c)))"

lemma inside_cases:
  assumes "inside p c"
  obtains x y where "c = (int x, int y)" and "x < column_num p" and "y < row_num p"
proof (rule that [of "nat (fst c)" "nat (snd c)"])
  show "c = (int (nat (fst c)), int (nat (snd c)))" "nat (fst c) < column_num p" "nat (snd c) < row_num p"
    using assms by (auto simp: inside_def prod_eq_iff)
qed

lemma fix_node_spec:
  assumes ok: "sizes_ok s" and x: "x < column_num (scr s)" and y: "y < row_num (scr s)"
  shows "\<exists>s1. fix_node (int x, int y) s = (if scr_map (scr s1) ! y = full_mask s then int y else -1, s1)
     \<and> same_game s s1 \<and> sizes_ok s1 \<and> shown s1 = shown s
     \<and> full_line s1 = full_line s + (if scr_map (scr s1) ! y = full_mask s then 1 else 0)
     \<and> scr_map (scr s1) = (scr_map (scr s))[y := BIT_SET_NODE (scr_map (scr s) ! y) x]
     \<and> board s1 = (board s)[y := (BIT_SET_NODE (scr_map (scr s) ! y) x, (snd (board s ! y))[x := block_color s])]"
proof -
  let ?n = "column_num (scr s)" and ?v = "BIT_SET_NODE (scr_map (scr s) ! y) x"
  let ?R = "(scr_map (scr s))[y := ?v]"
  define cm where "cm = (node_color_map s)[y * ?n + x := block_color s]"
  define fl where "fl = full_line s + (if ?v = full_mask s then 1 else 0)"
  define s1 where "s1 = s\<lparr>node_color_map := cm, scr := (scr s)\<lparr>scr_map := ?R\<rparr>, full_line := fl\<rparr>"
  have len: "length (scr_map (scr s)) = row_num (scr s)" "length (node_color_map s) = row_num (scr s) * ?n"
    using ok by (simp_all add: sizes_ok_def)
  have at: "?R ! y = ?v" using y len by simp
  have "fix_node (int x, int y) s = (if ?v = full_mask s then int y else -1, s1)"
    using at by (simp add: fix_node_def Let_def s1_def cm_def fl_def)
  moreover have "same_game s s1" by (simp add: same_game_def s1_def)
  moreover have "sizes_ok s1" using ok by (simp add: s1_def sizes_ok_def cm_def)
  moreover have "board s1 = (board s)[y := (?v, (snd (board s ! y))[x := block_color s])]"
  proof (rule nth_equalityI)
    fix j
    assume "j < length (board s1)"
    then have j: "j < row_num (scr s)" by (simp add: s1_def)
    have "cm ! (j * ?n + i) = (if j = y \<and> i = x then block_color s else node_color_map s ! (j * ?n + i))" if "i < ?n" for i
      using node_index_eq [OF that x, of j y] node_index [OF y x] len unfolding cm_def by (subst nth_list_update) auto
    then show "board s1 ! j = (board s)[y := (?v, (snd (board s ! y))[x := block_color s])] ! j"
      using j x y len by (auto simp: board_def s1_def nth_list_update intro!: nth_equalityI)
  qed (simp add: s1_def)
  ultimately show ?thesis using at by (intro exI [of _ s1]) (simp add: s1_def fl_def)
qed

lemma row_ok_set:
  assumes "row_ok n (v, cs)" and "x < n" and "n \<le> 32" and "0 < c"
  shows "row_ok n (BIT_SET_NODE v x, cs[x := c])"
  using assms by (auto simp: row_ok_def bit_SET_NODE nth_list_update)

lemma count_update:
  assumes "i < length xs" and "\<not> P (xs ! i)"
  shows "length (filter P (xs[i := v])) = length (filter P xs) + (if P v then 1 else 0)"
proof -
  have "xs = take i xs @ xs ! i # drop (Suc i) xs" using assms(1) by (simp add: id_take_nth_drop)
  then have "length (filter P xs) = length (filter P (take i xs)) + length (filter P (drop (Suc i) xs))"
    using assms(2) by (metis filter.simps(2) filter_append length_append)
  then show ?thesis using assms(1) by (simp add: upd_conv_take_nth_drop)
qed

definition counts_ok :: "int \<Rightarrow> TETRIS_CTRL \<Rightarrow> bool" where
  "counts_ok b s \<longleftrightarrow> full_line s = int (full_num s) \<and> -1 \<le> b \<and> b < int (row_num (scr s))
     \<and> (\<forall>j<row_num (scr s). b < int j \<longrightarrow> scr_map (scr s) ! j \<noteq> full_mask s)"

lemma fix_node_counts:
  assumes ok: "sizes_ok s" and x: "x < column_num (scr s)" and y: "y < row_num (scr s)"
    and free: "\<not> bit (scr_map (scr s) ! y) x" and cnt: "counts_ok b s"
    and c: "\<And>r. r \<in> set (board s) \<Longrightarrow> row_ok (column_num (scr s)) r" and t: "blk_type (blk s) < 19"
  shows "\<exists>l s1. fix_node (int x, int y) s = (l, s1) \<and> same_game s s1 \<and> sizes_ok s1 \<and> shown s1 = shown s \<and> counts_ok (max l b) s1
     \<and> (\<forall>r \<in> set (board s1). row_ok (column_num (scr s)) r) \<and> full_line s1 \<le> full_line s + 1
     \<and> scr_map (scr s1) = (scr_map (scr s))[y := BIT_SET_NODE (scr_map (scr s) ! y) x]
     \<and> board s1 = (board s)[y := (BIT_SET_NODE (scr_map (scr s) ! y) x, (snd (board s ! y))[x := block_color s])]"
proof -
  from fix_node_spec [OF ok x y] obtain s1 where
    s1: "fix_node (int x, int y) s = (if scr_map (scr s1) ! y = full_mask s then int y else -1, s1)"
    "same_game s s1" "sizes_ok s1" "shown s1 = shown s"
    "full_line s1 = full_line s + (if scr_map (scr s1) ! y = full_mask s then 1 else 0)"
    "scr_map (scr s1) = (scr_map (scr s))[y := BIT_SET_NODE (scr_map (scr s) ! y) x]"
    "board s1 = (board s)[y := (BIT_SET_NODE (scr_map (scr s) ! y) x, (snd (board s ! y))[x := block_color s])]"
    by auto
  note D = same_game_D [OF s1(2)]
  have len: "length (scr_map (scr s)) = row_num (scr s)" and n: "column_num (scr s) \<le> 32"
    and full: "full_mask s = push_bit (column_num (scr s)) 1 - 1"
    using ok by (auto simp: sizes_ok_def)
  have "scr_map (scr s) ! y \<noteq> full_mask s" using free full_mask_bits [OF n, of x] x unfolding full by metis
  then have "full_num s1 = full_num s + (if scr_map (scr s1) ! y = full_mask s then 1 else 0)"
    using y len by (simp add: full_num_def s1(6,7) count_update nonfull_def D fst_board)
  then have fl: "full_line s1 = int (full_num s1)" using cnt s1(5) by (simp add: counts_ok_def)
  have rest: "scr_map (scr s1) ! j \<noteq> full_mask s"
    if "j < row_num (scr s)" "max (if scr_map (scr s1) ! y = full_mask s then int y else -1) b < int j" for j
  proof (cases "j = y")
    case False
    then have "scr_map (scr s1) ! j = scr_map (scr s) ! j" by (simp add: s1(6))
    then show ?thesis using cnt that by (simp add: counts_ok_def)
  qed (use that in \<open>simp split: if_splits\<close>)
  have "counts_ok (max (if scr_map (scr s1) ! y = full_mask s then int y else -1) b) s1"
    unfolding counts_ok_def D
  proof (intro conjI allI impI)
    show "-1 \<le> max (if scr_map (scr s1) ! y = full_mask s then int y else -1) b"
      "max (if scr_map (scr s1) ! y = full_mask s then int y else -1) b < int (row_num (scr s))"
      using cnt y by (auto simp: counts_ok_def)
  qed (rule fl, erule (1) rest)
  moreover have "\<forall>r \<in> set (board s1). row_ok (column_num (scr s)) r"
  proof
    fix r
    assume "r \<in> set (board s1)"
    then have "r = (BIT_SET_NODE (scr_map (scr s) ! y) x, (snd (board s ! y))[x := block_color s]) \<or> r \<in> set (board s)"
      unfolding s1(7) using set_update_subset_insert by fastforce
    moreover have "row_ok (column_num (scr s)) (scr_map (scr s) ! y, snd (board s ! y))"
      using c [of "board s ! y"] y fst_board [OF y] by (metis length_board nth_mem prod.collapse)
    moreover have "0 < block_color s" using shapes(5) [OF t] by (simp add: block_color_def)
    ultimately show "row_ok (column_num (scr s)) r"
      by (elim disjE) (simp add: row_ok_set x n, erule c)
  qed
  ultimately show ?thesis using s1 by simp
qed

lemma fix_nodes_fold:
  assumes "sizes_ok s" and "nodes_in (scr s) cs" and "counts_ok b s" and "blk_type (blk s) < 19"
    and "\<forall>r \<in> set (board s). row_ok (column_num (scr s)) r"
  shows "\<exists>b' s'. fold (\<lambda>c (bottom_full_line, s). let (fix_line, s1) = fix_node c s in (max fix_line bottom_full_line, s1)) cs (b, s) = (b', s')
     \<and> same_game s s' \<and> sizes_ok s' \<and> shown s' = shown s \<and> counts_ok b' s' \<and> (\<forall>r \<in> set (board s'). row_ok (column_num (scr s)) r)
     \<and> full_line s' \<le> full_line s + int (length cs)
     \<and> (\<forall>y<row_num (scr s). \<forall>x. bit (scr_map (scr s') ! y) x \<longleftrightarrow> bit (scr_map (scr s) ! y) x \<or> (int x, int y) \<in> set cs)
     \<and> (\<forall>y<row_num (scr s). \<forall>x<column_num (scr s).
          snd (board s' ! y) ! x = (if (int x, int y) \<in> set cs then block_color s else snd (board s ! y) ! x))"
  using assms
proof (induction cs arbitrary: b s)
  case Nil
  then show ?case using same_game_refl by simp
next
  case (Cons c cs)
  have c: "inside (scr s) c" "\<not> bit (scr_map (scr s) ! nat (snd c)) (nat (fst c))" "c \<notin> set cs" "distinct cs"
    and cs: "\<And>d. d \<in> set cs \<Longrightarrow> inside (scr s) d \<and> \<not> bit (scr_map (scr s) ! nat (snd d)) (nat (fst d))"
    using Cons.prems(2) by (auto simp: nodes_in_def)
  from inside_cases [OF c(1)] obtain x y where xy: "c = (int x, int y)" "x < column_num (scr s)" "y < row_num (scr s)" .
  have n: "column_num (scr s) \<le> 32" and len: "length (scr_map (scr s)) = row_num (scr s)"
    using Cons.prems(1) by (auto simp: sizes_ok_def)
  from fix_node_counts [OF Cons.prems(1) xy(2,3) _ Cons.prems(3) _ Cons.prems(4)] c(2) xy(1) Cons.prems(5) obtain l s1 where
    s1: "fix_node c s = (l, s1)" "same_game s s1" "sizes_ok s1" "shown s1 = shown s" "counts_ok (max l b) s1"
    "\<forall>r \<in> set (board s1). row_ok (column_num (scr s)) r" "full_line s1 \<le> full_line s + 1"
    "scr_map (scr s1) = (scr_map (scr s))[y := BIT_SET_NODE (scr_map (scr s) ! y) x]"
    "board s1 = (board s)[y := (BIT_SET_NODE (scr_map (scr s) ! y) x, (snd (board s ! y))[x := block_color s])]"
    by auto
  note D = same_game_D [OF s1(2)]
  have bits: "bit (scr_map (scr s1) ! j) i \<longleftrightarrow> bit (scr_map (scr s) ! j) i \<or> (int i, int j) = c" if "j < row_num (scr s)" for i j
    using that xy n len by (auto simp: s1(8) nth_list_update bit_SET_NODE)
  have cols: "snd (board s1 ! j) ! i = (if (int i, int j) = c then block_color s else snd (board s ! j) ! i)"
    if "j < row_num (scr s)" "i < column_num (scr s)" for i j
  proof -
    have "length (snd (board s ! y)) = column_num (scr s)" using xy(3) by (simp add: board_def)
    then show ?thesis using that xy by (auto simp: s1(9) nth_list_update)
  qed
  have "nodes_in (scr s1) cs"
    unfolding nodes_in_def
  proof (intro conjI ballI)
    fix d
    assume d: "d \<in> set cs"
    show "inside (scr s1) d" using cs [OF d] D by (simp add: inside_def)
    from inside_cases [of "scr s" d] cs [OF d] obtain i j where ij: "d = (int i, int j)" "j < row_num (scr s)" by blast
    show "\<not> bit (scr_map (scr s1) ! nat (snd d)) (nat (fst d))"
      using bits [OF ij(2), of i] cs [OF d] d c(3) ij(1) by auto
  qed (use c(4) in simp)
  from Cons.IH [OF s1(3) this s1(5)] Cons.prems(4) s1(6) D obtain b' s' where
    s': "fold (\<lambda>c (bottom_full_line, s). let (fix_line, s1) = fix_node c s in (max fix_line bottom_full_line, s1)) cs (max l b, s1) = (b', s')"
     "same_game s1 s'" "sizes_ok s'" "shown s' = shown s1" "counts_ok b' s'" "\<forall>r \<in> set (board s'). row_ok (column_num (scr s)) r"
     "full_line s' \<le> full_line s1 + int (length cs)"
     "\<And>y x. y<row_num (scr s) \<Longrightarrow> bit (scr_map (scr s') ! y) x \<longleftrightarrow> bit (scr_map (scr s1) ! y) x \<or> (int x, int y) \<in> set cs"
     "\<And>y x. y<row_num (scr s) \<Longrightarrow> x<column_num (scr s) \<Longrightarrow>
          snd (board s' ! y) ! x = (if (int x, int y) \<in> set cs then block_color s else snd (board s1 ! y) ! x)"
    by auto
  show ?case
    using s'(1-6) s1(1,4,7) s'(7) same_game_trans [OF s1(2) s'(2)] s'(8,9) bits cols
    by (intro exI [of _ b'] exI [of _ s'] conjI allI impI) (auto simp: xy(1))
qed

section \<open>Where blocks can be\<close>

lemma block_coors_props:
  assumes "blk_type b < 19"
  shows "distinct (block_coors b)" and "length (block_coors b) = 4" and "block_coors b \<noteq> []"
proof -
  have "inj_on (\<lambda>(px, py). (base_x b + int px, base_y b + int py)) (set (G_block_map ! blk_type b))"
    by (auto simp: inj_on_def)
  then show "distinct (block_coors b)" "length (block_coors b) = 4" "block_coors b \<noteq> []"
    using shapes(1,2) [OF assms] by (auto simp: block_coors_def distinct_map)
qed

lemma block_coors_mem:
  "c \<in> set (block_coors b) \<longleftrightarrow> (\<exists>px py. (px, py) \<in> set (G_block_map ! blk_type b) \<and> c = (base_x b + int px, base_y b + int py))"
  by (auto simp: block_coors_def)

lemma block_coors_down:
  "c \<in> set (block_coors (base_y_update (\<lambda>y. y + 1) b)) \<longleftrightarrow> (fst c, snd c - 1) \<in> set (block_coors b)"
  unfolding block_coors_mem by (intro ex_cong1) (auto simp: prod_eq_iff)

text \<open>A block has no gap between its rows.\<close>

lemma block_rows:
  assumes "blk_type b < 19" and "(x, y) \<in> set (block_coors b)" and "base_y b \<le> j" and "j \<le> y"
  obtains x' where "(x', j) \<in> set (block_coors b)"
proof -
  from assms(2) obtain px py where p: "(px, py) \<in> set (G_block_map ! blk_type b)" "y = base_y b + int py"
    by (auto simp: block_coors_mem)
  have "nat (j - base_y b) \<le> py" using p(2) assms(4) by simp
  from shapes(4) [OF assms(1) p(1) this] obtain qx where
    "(qx, nat (j - base_y b)) \<in> set (G_block_map ! blk_type b)" by blast
  then have "(base_x b + int qx, j) \<in> set (block_coors b)" using assms(3) by (fastforce simp: block_coors_mem)
  then show ?thesis by (rule that)
qed

lemma block_top: "(x, y) \<in> set (block_coors b) \<Longrightarrow> base_y b \<le> y"
  by (auto simp: block_coors_mem)

lemma free_nodes_in:
  assumes "\<not> blocked p b" and "blk_type b < 19"
  shows "nodes_in p (block_coors b)"
  using assms block_coors_props [OF assms(2)] by (auto simp: nodes_in_def blocked_iff is_occupied_iff)

definition game_ok :: "TETRIS_CTRL \<Rightarrow> bool" where
  "game_ok s \<longleftrightarrow> sizes_ok s \<and> rows_ok (column_num (scr s)) (board s) \<and> full_line s = 0 \<and> full_num s = 0
     \<and> blk_type (blk s) < 19 \<and> 0 \<le> base_y (blk s) \<and> (0 < base_y (blk s) \<longrightarrow> \<not> blocked (scr s) (blk s))"

lemma settled_rows:
  "settled (board s) \<longleftrightarrow> (\<forall>i j. i < j \<longrightarrow> j < row_num (scr s) \<longrightarrow> scr_map (scr s) ! j = 0 \<longrightarrow> scr_map (scr s) ! i = 0)"
  by (auto simp: settled_def sorted_iff_nth_mono_less fst_board)

text \<open>The rows with the nodes of the block in them.\<close>

definition with_block :: "TETRIS_CTRL \<Rightarrow> (uint32 \<times> nat list) list" where
  "with_block s = map (\<lambda>y.
     let covered = (\<lambda>x. (int x, int y) \<in> set (block_coors (blk s))); n = column_num (scr s)
     in (fold (\<lambda>x v. BIT_SET_NODE v x) (filter covered [0..<n]) (scr_map (scr s) ! y),
         map (\<lambda>x. if covered x then block_color s else node_color_map s ! (y * n + x)) [0..<n])) [0..<row_num (scr s)]"

lemma bit_fold_SET: "(\<And>x. x \<in> set xs \<Longrightarrow> x < 32) \<Longrightarrow> bit (fold (\<lambda>x v. BIT_SET_NODE v x) xs v) i \<longleftrightarrow> bit v i \<or> i \<in> set xs"
  by (induction xs arbitrary: v) (auto simp: bit_SET_NODE)

lemma bit_with_block:
  assumes "y < row_num (scr s)" and "column_num (scr s) \<le> 32"
  shows "bit (fst (with_block s ! y)) x
    \<longleftrightarrow> bit (scr_map (scr s) ! y) x \<or> x < column_num (scr s) \<and> (int x, int y) \<in> set (block_coors (blk s))"
proof -
  let ?xs = "filter (\<lambda>x. (int x, int y) \<in> set (block_coors (blk s))) [0..<column_num (scr s)]"
  have "bit (fold (\<lambda>x v. BIT_SET_NODE v x) ?xs (scr_map (scr s) ! y)) x
      \<longleftrightarrow> bit (scr_map (scr s) ! y) x \<or> x \<in> set ?xs"
    by (rule bit_fold_SET) (use assms(2) in auto)
  then show ?thesis using assms(1) by (simp add: with_block_def Let_def conj_commute)
qed

lemma fix_nodes_spec:
  assumes ok: "game_ok s" and free: "\<not> blocked (scr s) (blk s)"
  obtains b s' where "fix_nodes s = (b, s')" and "same_game s s'" and "sizes_ok s'" and "shown s' = shown s" and "counts_ok b s'"
    and "\<forall>r \<in> set (board s'). row_ok (column_num (scr s)) r" and "full_line s' \<le> 4" and "board s' = with_block s"
proof -
  have s: "sizes_ok s" "counts_ok (-1) s" and t: "blk_type (blk s) < 19" and n: "column_num (scr s) \<le> 32"
    and r: "\<forall>r \<in> set (board s). row_ok (column_num (scr s)) r" and fl: "full_line s = 0"
    using ok by (auto simp: game_ok_def sizes_ok_def counts_ok_def full_num_0 rows_ok_def)
  from fix_nodes_fold [OF s(1) free_nodes_in [OF free t] s(2) t r] block_coors_props(2) [OF t] fl obtain b s' where
    s': "fix_nodes s = (b, s')" "same_game s s'" "sizes_ok s'" "shown s' = shown s" "counts_ok b s'"
     "\<forall>r \<in> set (board s'). row_ok (column_num (scr s)) r" "full_line s' \<le> 4"
     and bits: "\<And>y x. y < row_num (scr s) \<Longrightarrow> bit (scr_map (scr s') ! y) x
       \<longleftrightarrow> bit (scr_map (scr s) ! y) x \<or> (int x, int y) \<in> set (block_coors (blk s))"
     and cols: "\<And>y x. y < row_num (scr s) \<Longrightarrow> x < column_num (scr s) \<Longrightarrow>
          snd (board s' ! y) ! x = (if (int x, int y) \<in> set (block_coors (blk s)) then block_color s else snd (board s ! y) ! x)"
    by (auto simp: fix_nodes_def)
  note D = same_game_D [OF s'(2)]
  have in_screen: "x < column_num (scr s)" if "(int x, int y) \<in> set (block_coors (blk s))" for x y
    using free that by (auto simp: blocked_iff is_occupied_iff inside_def)
  have "board s' = with_block s"
  proof (rule nth_equalityI)
    fix y
    assume "y < length (board s')"
    then have y: "y < row_num (scr s)" using D by simp
    have "fst (board s' ! y) = fst (with_block s ! y)"
      by (rule bit_eqI) (use y in_screen in \<open>auto simp: bit_with_block [OF y n] fst_board D bits\<close>)
    moreover have "snd (board s' ! y) = snd (with_block s ! y)"
    proof (rule nth_equalityI)
      show "length (snd (board s' ! y)) = length (snd (with_block s ! y))"
        using y by (simp add: board_def with_block_def D Let_def)
      fix i
      assume "i < length (snd (board s' ! y))"
      then have i: "i < column_num (scr s)" using y by (simp add: board_def D)
      show "snd (board s' ! y) ! i = snd (with_block s ! y) ! i"
        using y i by (simp add: cols [OF y i] snd_board with_block_def Let_def)
    qed
    ultimately show "board s' ! y = with_block s ! y" by (simp add: prod_eq_iff)
  qed (simp add: with_block_def D)
  then show ?thesis using s' by (intro that)
qed

text \<open>A block that rests on something leaves no empty row below a row that is not empty.\<close>

lemma with_block_settled:
  assumes ok: "game_ok s" and free: "\<not> blocked (scr s) (blk s)"
    and rests: "blocked (scr s) (base_y_update (\<lambda>y. y + 1) (blk s))"
    and s': "board s' = with_block s" "same_game s s'"
  shows "settled (board s')"
proof -
  let ?cs = "block_coors (blk s)"
  have t: "blk_type (blk s) < 19" and old: "settled (board s)" and n: "column_num (scr s) \<le> 32"
    using ok by (auto simp: game_ok_def rows_ok_def sizes_ok_def)
  note D = same_game_D [OF s'(2)]
  have bits: "bit (scr_map (scr s') ! y) x \<longleftrightarrow> bit (scr_map (scr s) ! y) x \<or> x < column_num (scr s) \<and> (int x, int y) \<in> set ?cs"
    if "y < row_num (scr s)" for x y
  proof -
    have "scr_map (scr s') ! y = fst (with_block s ! y)" using that D by (simp add: s'(1) [symmetric] fst_board)
    then show ?thesis by (simp add: bit_with_block [OF that n])
  qed
  have inside: "inside (scr s) c" if "c \<in> set ?cs" for c using free that by (auto simp: blocked_iff is_occupied_iff)
  from rests obtain c where c: "(fst c, snd c - 1) \<in> set ?cs" "is_occupied (scr s) c"
    using block_coors_down unfolding blocked_iff by blast
  define x0 y0 where "x0 = fst c" and "y0 = snd c - 1"
  then have below: "(x0, y0) \<in> set ?cs" "is_occupied (scr s) (x0, y0 + 1)" using c by simp_all
  have "scr_map (scr s') ! i = 0" if ij: "i < j" "j < row_num (scr s)" and zero: "scr_map (scr s') ! j = 0" for i j
  proof -
    have zj: "scr_map (scr s) ! j = 0" and no: "\<And>x. (x, int j) \<notin> set ?cs"
    proof -
      show "scr_map (scr s) ! j = 0" by (rule bit_eqI) (use bits [OF ij(2)] zero in simp)
      show "(x, int j) \<notin> set ?cs" for x
      proof
        assume x: "(x, int j) \<in> set ?cs"
        then have "0 \<le> x" "nat x < column_num (scr s)" using inside [OF x] by (auto simp: inside_def)
        then show False using bits [OF ij(2), of "nat x"] zero x by simp
      qed
    qed
    have up: "y < int j" if "(x, y) \<in> set ?cs" and "base_y (blk s) \<le> int j" for x y
      using block_rows [OF t that(1,2)] no by (meson not_less)
    have "(x, int i) \<notin> set ?cs" for x
    proof
      assume x: "(x, int i) \<in> set ?cs"
      then have top: "base_y (blk s) \<le> int j" using block_top [OF x] ij(1) by simp
      have y0: "y0 < int j" by (rule up [OF below(1) top])
      have in0: "0 \<le> x0" "x0 < int (column_num (scr s))" "0 \<le> y0"
        using inside [OF below(1)] by (auto simp: inside_def)
      have "inside (scr s) (x0, y0 + 1)" using in0 y0 ij by (simp add: inside_def)
      then have "bit (scr_map (scr s) ! nat (y0 + 1)) (nat x0)" using below(2) by (simp add: is_occupied_iff)
      moreover have "scr_map (scr s) ! nat (y0 + 1) = 0"
      proof (cases "nat (y0 + 1) = j")
        case False
        then have "nat (y0 + 1) < j" using y0 in0 by linarith
        then show ?thesis using old zj ij(2) unfolding settled_rows by blast
      qed (simp add: zj)
      ultimately show False by simp
    qed
    moreover have "scr_map (scr s) ! i = 0" using old zj ij unfolding settled_rows by blast
    moreover have "i < row_num (scr s)" using ij by simp
    ultimately show ?thesis by (intro bit_eqI) (simp add: bits)
  qed
  then show ?thesis unfolding settled_rows D by blast
qed

text \<open>Fixing a block clears exactly the full rows, and leaves a game without a fixed position of the block.\<close>

lemma fix_block_spec:
  assumes ok: "game_ok s" and free: "\<not> blocked (scr s) (blk s)"
    and rests: "blocked (scr s) (base_y_update (\<lambda>y. y + 1) (blk s))"
  obtains s' k where "fix_block s = Some s'" and "sizes_ok s'" and "rows_ok (column_num (scr s)) (board s')"
    and "full_line s' = 0" and "full_num s' = 0" and "k = length (filter (\<lambda>r. fst r = full_mask s) (with_block s))" and "k \<le> 4"
    and "board s' = replicate k (empty_row s) @ filter (\<lambda>r. fst r \<noteq> full_mask s) (with_block s)"
    and "tet_score s' = tet_score s + of_nat (G_score_map ! k)"
    and "same_game s (s'\<lparr>tet_score := tet_score s\<rparr>)"
proof -
  from fix_nodes_spec [OF ok free] obtain b s1 where
    s1: "fix_nodes s = (b, s1)" "same_game s s1" "sizes_ok s1" "shown s1 = shown s" "counts_ok b s1"
    "\<forall>r \<in> set (board s1). row_ok (column_num (scr s)) r" "full_line s1 \<le> 4" "board s1 = with_block s" .
  note D = same_game_D [OF s1(2)]
  define k where "k = full_num s1"
  have k: "full_line s1 = int k" "k = length (filter (\<lambda>r. fst r = full_mask s) (with_block s))" "k \<le> 4"
    using s1(5,7) by (simp_all add: counts_ok_def k_def full_num_def nonfull_def D s1(8))
  have rows: "rows_ok (column_num (scr s)) (board s1)"
    unfolding rows_ok_def using with_block_settled [OF ok free rests s1(8,2)] s1(6) by simp
  have G0: "G_score_map ! 0 = 0" by (simp add: G_score_map_def)
  show ?thesis
  proof (cases "k = 0")
    case True
    then have "filter (\<lambda>r. fst r \<noteq> full_mask s) (with_block s) = with_block s"
      using k(2) by (simp add: filter_empty_conv filter_id_conv)
    moreover have "same_game s (s1\<lparr>tet_score := tet_score s\<rparr>)" using s1(2) unfolding D(5) [symmetric] by simp
    ultimately show ?thesis
      using True k s1 rows G0 D(5) by (intro that [of s1 0]) (simp_all add: fix_block_def k_def)
  next
    case False
    let ?s2 = "s1\<lparr>tet_score := tet_score s1 + of_nat (G_score_map ! k)\<rparr>"
    define s2 where "s2 = show_score (last (block_coors (blk s))) ?s2"
    have s2: "sizes_ok s2" "board s2 = board s1" "full_num s2 = full_num s1" "full_line s2 = full_line s1"
      "scr s2 = scr s1" "full_mask s2 = full_mask s1" "tet_score s2 = tet_score s + of_nat (G_score_map ! k)"
      using s1(3) D(5) by (simp_all add: s2_def show_score_def show_node_def sizes_ok_def board_def full_num_def nonfull_def)
    have g2: "same_game s (s2\<lparr>tet_score := tet_score s\<rparr>)"
      using s1(2) by (simp add: same_game_def s2_def show_score_def show_node_def)
    have "scr_map (scr s2) ! j \<noteq> full_mask s2" if "nat (b + 1) \<le> j" "j < row_num (scr s2)" for j
      using s1(5) that by (auto simp: counts_ok_def s2 D nat_le_iff)
    moreover have "nat (b + 1) \<le> row_num (scr s2)" using s1(5) by (simp add: counts_ok_def s2 D nat_le_iff)
    moreover have "full_line s2 = int (full_num s2)" using k(1) by (simp add: s2 k_def)
    moreover have "rows_ok (column_num (scr s2)) (board s2)" using rows by (simp add: s2 D)
    ultimately obtain s3 where
      s3: "delete_lines (nat (b + 1)) s2 = Some s3" "same_game s2 s3" "sizes_ok s3" "rows_ok (column_num (scr s2)) (board s3)"
      "full_line s3 = 0" "full_num s3 = 0" "board s3 = replicate (full_num s2) (empty_row s2) @ filter (nonfull s2) (board s2)"
      using delete_lines_spec [OF s2(1), of "nat (b + 1)"] by blast
    have "nonfull s2 = (\<lambda>r. fst r \<noteq> full_mask s)" by (simp add: nonfull_def s2 D fun_eq_iff)
    moreover have "fix_block s = Some s3"
      using s3(1) s1(1) False k(1) by (simp add: fix_block_def s2_def)
    moreover have "same_game s (s3\<lparr>tet_score := tet_score s\<rparr>)"
    proof (rule same_game_trans [OF g2])
      show "same_game (s2\<lparr>tet_score := tet_score s\<rparr>) (s3\<lparr>tet_score := tet_score s\<rparr>)"
        using s3(2) by (simp add: same_game_def)
    qed
    ultimately show ?thesis
      using s3 k s2 s1(8) D same_game_D(5) [OF s3(2)] by (intro that [of s3 k]) (simp_all add: k_def)
  qed
qed

section \<open>The game stays well formed\<close>

lemma update_block_eq:
  "update_block v s = s\<lparr>shown := map (\<lambda>c. (c, of_nat v)) (rev (block_coors (blk s))) @ shown s\<rparr>"
proof -
  have "fold (\<lambda>c. show_node c (of_nat v)) cs s = s\<lparr>shown := map (\<lambda>c. (c, of_nat v)) (rev cs) @ shown s\<rparr>" for cs
    by (induction cs arbitrary: s) (simp_all add: show_node_def)
  then show ?thesis by (simp add: update_block_def)
qed

lemma board_blk [simp]:
  "board (s\<lparr>blk := b\<rparr>) = board s" "sizes_ok (s\<lparr>blk := b\<rparr>) = sizes_ok s" "full_num (s\<lparr>blk := b\<rparr>) = full_num s"
  by (simp_all add: sizes_ok_def board_def full_num_def nonfull_def)

lemma game_ok_shown [simp]: "game_ok (s\<lparr>shown := l\<rparr>) = game_ok s"
  by (simp add: game_ok_def sizes_ok_def board_def full_num_def nonfull_def)

lemma game_ok_block:
  assumes "game_ok s" and "blk_type b < 19" and "0 \<le> base_y b" and "0 < base_y b \<Longrightarrow> \<not> blocked (scr s) b"
  shows "game_ok (s\<lparr>blk := b\<rparr>)"
  using assms by (simp add: game_ok_def)

lemma game_ok_env [simp]:
  "game_ok (s\<lparr>job_queue := q\<rparr>) = game_ok s" "game_ok (s\<lparr>in_auto_mode := a\<rparr>) = game_ok s"
  "game_ok (s\<lparr>auto_task_id := i\<rparr>) = game_ok s" "game_ok (s\<lparr>tet_seed := w\<rparr>) = game_ok s"
  by (simp_all add: game_ok_def sizes_ok_def board_def full_num_def nonfull_def)

lemma game_ok_seed [simp]:
  "game_ok (s\<lparr>tet_seed := w, blk := b\<rparr>) = game_ok (s\<lparr>blk := b\<rparr>)"
  "game_ok (s\<lparr>shown := l, blk := b\<rparr>) = game_ok (s\<lparr>blk := b\<rparr>)"
  by (simp_all add: game_ok_def sizes_ok_def board_def full_num_def nonfull_def)

lemma base_y_same [simp]: "base_y_update (\<lambda>y. y) b = b"
  by (cases b) simp

lemma redraw_eq:
  "redraw f s = s\<lparr>blk := f (blk s), shown := shown (redraw f s)\<rparr>"
  by (simp add: redraw_def update_block_eq Let_def)

lemma redraw_ok:
  assumes "game_ok s" and "blk_type (f (blk s)) < 19" and "0 \<le> base_y (f (blk s))" and "\<not> blocked (scr s) (f (blk s))"
  shows "game_ok (redraw f s)"
  by (subst redraw_eq) (use game_ok_block [OF assms(1-3)] assms(4) in simp)

lemma turned_less: "t < 19 \<Longrightarrow> t \<noteq> 0 \<Longrightarrow> turned t < 19"
  by (auto simp: turned_def)

lemma new_block_ok:
  assumes "game_ok (s\<lparr>blk := b\<rparr>)"
  shows "game_ok (new_block tid s)"
proof -
  let ?b = "\<lparr>base_x = int (column_num (scr s) div 2) - 1, base_y = 0, blk_type = unat (fst (rand (tet_seed s))) mod 19\<rparr>"
  have "game_ok (s\<lparr>blk := ?b\<rparr>)" using game_ok_block [OF assms, of ?b] by simp
  then show ?thesis by (simp add: new_block_def update_block_eq Let_def split_beta)
qed

lemma fix_block_ok:
  assumes "game_ok s" and "\<not> blocked (scr s) (blk s)" and "blocked (scr s) (base_y_update (\<lambda>y. y + 1) (blk s))"
  obtains s' where "fix_block s = Some s'" and "game_ok (new_block tid s')"
proof -
  from fix_block_spec [OF assms] obtain s' k where
    s': "fix_block s = Some s'" "sizes_ok s'" "rows_ok (column_num (scr s)) (board s')" "full_line s' = 0" "full_num s' = 0"
    and g: "same_game s (s'\<lparr>tet_score := tet_score s\<rparr>)" by blast
  have D: "column_num (scr s') = column_num (scr s)" using same_game_D(1) [OF g] by simp
  have "game_ok (s'\<lparr>blk := (blk s)\<lparr>base_y := 0\<rparr>\<rparr>)"
    using s' D assms(1) by (simp add: game_ok_def)
  then show ?thesis using that [OF s'(1)] new_block_ok by blast
qed

lemma drop_block_spec:
  assumes "blk_type b < 19"
  shows "\<exists>k. drop_block p b = Some (base_y_update (\<lambda>y. y + int k) b) \<and> blocked p (base_y_update (\<lambda>y. y + int (Suc k)) b)
    \<and> (\<forall>i. 0 < i \<longrightarrow> i \<le> k \<longrightarrow> \<not> blocked p (base_y_update (\<lambda>y. y + int i) b))"
  using assms
proof (induction "nat (int (row_num p) - base_y b)" arbitrary: b rule: less_induct)
  case less
  let ?b1 = "base_y_update (\<lambda>y. y + 1) b"
  show ?case
  proof (cases "blocked p ?b1")
    case True
    then show ?thesis by (intro exI [of _ 0]) (simp add: drop_block.simps Let_def)
  next
    case False
    obtain c where c: "c \<in> set (block_coors ?b1)"
      using block_coors_props(3) [of ?b1] less.prems by (cases "block_coors ?b1") auto
    have "base_y ?b1 \<le> snd c" using block_top [of "fst c" "snd c" ?b1] c by simp
    moreover have "snd c < int (row_num p)" using False c by (auto simp: blocked_iff is_occupied_iff inside_def)
    ultimately have "nat (int (row_num p) - base_y ?b1) < nat (int (row_num p) - base_y b)" by simp
    from less.hyps [OF this] less.prems obtain k where
      k: "drop_block p ?b1 = Some (base_y_update (\<lambda>y. y + int k) ?b1)" "blocked p (base_y_update (\<lambda>y. y + int (Suc k)) ?b1)"
        "\<And>i. 0 < i \<Longrightarrow> i \<le> k \<Longrightarrow> \<not> blocked p (base_y_update (\<lambda>y. y + int i) ?b1)" by auto
    have up: "base_y_update (\<lambda>y. y + int (Suc i)) b = base_y_update (\<lambda>y. y + int i) ?b1" for i
      by (cases b) (simp add: algebra_simps)
    show ?thesis
    proof (intro exI [of _ "Suc k"] conjI allI impI)
      show "drop_block p b = Some (base_y_update (\<lambda>y. y + int (Suc k)) b)"
        using False k(1) unfolding up by (subst drop_block.simps) (simp add: Let_def)
      show "blocked p (base_y_update (\<lambda>y. y + int (Suc (Suc k))) b)" using k(2) by (simp only: up)
      show "\<not> blocked p (base_y_update (\<lambda>y. y + int i) b)" if "0 < i" "i \<le> Suc k" for i
      proof (cases i)
        case (Suc j)
        then show ?thesis unfolding Suc up using that Suc False k(3) [of j] by (cases "j = 0") auto
      qed (use that in simp)
    qed
  qed
qed

lemma down_runs:
  assumes ok: "game_ok s"
  obtains st s' where "down tid s = Some (st, s')" and "game_ok s'"
proof (cases "blocked (scr s) (base_y_update (\<lambda>y. y + 1) (blk s))")
  case True
  show ?thesis
  proof (cases "0 < base_y (blk s)")
    case pos: True
    then have "\<not> blocked (scr s) (blk s)" using ok by (simp add: game_ok_def)
    from fix_block_ok [OF ok this True] obtain s' where "fix_block s = Some s'" "game_ok (new_block tid s')" by blast
    then show ?thesis using True pos by (intro that) (auto simp: down_def)
  qed (use True ok that in \<open>auto simp: down_def\<close>)
next
  case False
  have "game_ok (redraw (base_y_update (\<lambda>y. y + 1)) s)" using False ok by (intro redraw_ok) (auto simp: game_ok_def)
  then show ?thesis using False that by (auto simp: down_def)
qed

lemma bottom_runs:
  assumes ok: "game_ok s"
  obtains st s' where "bottom tid s = Some (st, s')" and "game_ok s'"
proof -
  have t: "blk_type (blk s) < 19" using ok by (simp add: game_ok_def)
  from drop_block_spec [OF t, of "scr s"] obtain k where
    k: "drop_block (scr s) (blk s) = Some (base_y_update (\<lambda>y. y + int k) (blk s))"
      "blocked (scr s) (base_y_update (\<lambda>y. y + int (Suc k)) (blk s))"
      "\<And>i. 0 < i \<Longrightarrow> i \<le> k \<Longrightarrow> \<not> blocked (scr s) (base_y_update (\<lambda>y. y + int i) (blk s))" by blast
  let ?b = "base_y_update (\<lambda>y. y + int k) (blk s)"
  let ?s2 = "(update_block NO_COLOR s)\<lparr>blk := ?b\<rparr>"
  have "\<not> blocked (scr s) ?b" if "0 < base_y ?b"
    using that ok k(3) [of k] by (cases "k = 0") (auto simp: game_ok_def)
  then have ok2: "game_ok ?s2" and free: "0 < base_y ?b \<Longrightarrow> \<not> blocked (scr s) ?b"
    using game_ok_block [OF ok, of ?b] t ok by (auto simp: update_block_eq game_ok_def [of s])
  have scr2: "scr (update_block v s') = scr s'" "blk (update_block v s') = blk s'" for v s' by (simp_all add: update_block_eq)
  show ?thesis
  proof (cases "0 < base_y ?b")
    case True
    let ?s3 = "update_block (block_color ?s2) ?s2"
    have "game_ok ?s3" using ok2 by (simp add: update_block_eq)
    moreover have "\<not> blocked (scr ?s3) (blk ?s3)" using free True by (simp add: scr2)
    moreover have "blocked (scr ?s3) (base_y_update (\<lambda>y. y + 1) (blk ?s3))" using k(2) by (simp add: scr2 algebra_simps comp_def)
    ultimately obtain s' where "fix_block ?s3 = Some s'" "game_ok (new_block tid s')" using fix_block_ok by blast
    then show ?thesis using True k(1) by (intro that) (auto simp: bottom_def scr2 Let_def)
  next
    case False
    then show ?thesis using k(1) ok2 by (intro that) (auto simp: bottom_def scr2 Let_def)
  qed
qed

lemma job_turn_runs:
  assumes ok: "game_ok s"
  obtains over h' s' where "job_turn tid m (h, s) = Some (over, h', s')" and "game_ok s'"
proof -
  have t: "blk_type (blk s) < 19" and y: "0 \<le> base_y (blk s)" using ok by (simp_all add: game_ok_def)
  have moves: "game_ok (snd (left s))" "game_ok (snd (right s))" "game_ok (snd (turn s))"
    using ok redraw_ok [OF ok] t y turned_less [OF t] by (auto simp: left_def right_def turn_def)
  obtain st1 s1 st2 s2 where "down tid s = Some (st1, s1)" "game_ok s1" "bottom tid s = Some (st2, s2)" "game_ok s2"
    using down_runs [OF ok, of tid] bottom_runs [OF ok, of tid] by metis
  then have "\<exists>over h' s'. job_turn tid m (h, s) = Some (over, h', s') \<and> game_ok s'"
    using moves ok by (cases m) (auto simp: job_turn_def)
  then show ?thesis using that by blast
qed

section \<open>The block stays near the screen\<close>

definition near_screen :: "SCREEN \<Rightarrow> BLOCK \<Rightarrow> bool" where
  "near_screen p b \<longleftrightarrow> (\<forall>c \<in> set (block_coors b). - 1 \<le> fst c \<and> fst c \<le> int (column_num p) + 3 \<and> 0 \<le> snd c \<and> snd c \<le> int (row_num p) + 3)"

definition same_size :: "TETRIS_CTRL \<Rightarrow> TETRIS_CTRL \<Rightarrow> bool" where
  "same_size s s' \<longleftrightarrow> column_num (scr s') = column_num (scr s) \<and> row_num (scr s') = row_num (scr s)"

lemma free_near: "\<not> blocked p b \<Longrightarrow> near_screen p b"
  by (fastforce simp: near_screen_def blocked_iff is_occupied_iff inside_def)

lemma near_size: "same_size s s' \<Longrightarrow> near_screen (scr s') b = near_screen (scr s) b"
  by (simp add: near_screen_def same_size_def)

lemma new_block_near: "near_screen (scr s') (blk (new_block tid s'))" and new_block_size: "same_size s' (new_block tid s')"
proof -
  define b where "b = \<lparr>base_x = int (column_num (scr s') div 2) - 1, base_y = 0, blk_type = unat (fst (rand (tet_seed s'))) mod 19\<rparr>"
  have new: "blk (new_block tid s') = b" "scr (new_block tid s') = scr s'"
    by (simp_all add: new_block_def b_def update_block_eq Let_def split_beta)
  have "near_screen (scr s') b"
    using shapes(3) [of "blk_type b"] by (fastforce simp: near_screen_def block_coors_def b_def)
  then show "near_screen (scr s') (blk (new_block tid s'))" "same_size s' (new_block tid s')" by (simp_all add: new same_size_def)
qed

lemma moved_near:
  assumes "near_screen (scr s) (blk s)"
  shows "near_screen (scr s) (blk (if blocked (scr s) (f (blk s)) then s else redraw f s))"
    and "same_size s (if blocked (scr s) (f (blk s)) then s else redraw f s)"
  using assms free_near [of "scr s" "f (blk s)"] by (auto simp: same_size_def redraw_def update_block_eq Let_def)

lemma fixed_near:
  assumes "game_ok s" and "\<not> blocked (scr s) (blk s)" and "blocked (scr s) (base_y_update (\<lambda>y. y + 1) (blk s))"
    and "fix_block s = Some s'"
  shows "same_size s (new_block tid s') \<and> near_screen (scr s) (blk (new_block tid s'))"
proof -
  from fix_block_spec [OF assms(1-3)] obtain s1 where "fix_block s = Some s1" "same_game s (s1\<lparr>tet_score := tet_score s\<rparr>)" by blast
  then have g: "same_size s s'" using assms(4) same_game_D(1,2) [of s "s1\<lparr>tet_score := tet_score s\<rparr>"] by (simp add: same_size_def)
  have "same_size s (new_block tid s')" using g new_block_size [of s' tid] by (simp add: same_size_def)
  then show ?thesis using new_block_near [of s' tid] near_size [OF g] by simp
qed

lemma down_near:
  assumes ok: "game_ok s" and near: "near_screen (scr s) (blk s)" and d: "down tid s = Some (st, s')"
  shows "same_size s s' \<and> near_screen (scr s) (blk s')"
proof (cases "blocked (scr s) (base_y_update (\<lambda>y. y + 1) (blk s)) \<and> 0 < base_y (blk s)")
  case True
  then have "\<not> blocked (scr s) (blk s)" using ok by (simp add: game_ok_def)
  with True d fixed_near [OF ok, of _ tid] show ?thesis by (auto simp: down_def bind_eq_Some_conv)
next
  case False
  then have "s' = (if blocked (scr s) (base_y_update (\<lambda>y. y + 1) (blk s)) then s else redraw (base_y_update (\<lambda>y. y + 1)) s)"
    using d by (auto simp: down_def split: if_splits)
  then show ?thesis using moved_near [OF near, of "base_y_update (\<lambda>y. y + 1)"] by metis
qed

lemma bottom_near:
  assumes ok: "game_ok s" and near: "near_screen (scr s) (blk s)" and d: "bottom tid s = Some (st, s')"
  shows "same_size s s' \<and> near_screen (scr s) (blk s')"
proof -
  have t: "blk_type (blk s) < 19" using ok by (simp add: game_ok_def)
  from drop_block_spec [OF t, of "scr s"] obtain k where
    k: "drop_block (scr s) (blk s) = Some (base_y_update (\<lambda>y. y + int k) (blk s))"
      "blocked (scr s) (base_y_update (\<lambda>y. y + int (Suc k)) (blk s))"
      "\<And>i. 0 < i \<Longrightarrow> i \<le> k \<Longrightarrow> \<not> blocked (scr s) (base_y_update (\<lambda>y. y + int i) (blk s))" by blast
  let ?b = "base_y_update (\<lambda>y. y + int k) (blk s)"
  let ?s2 = "(update_block NO_COLOR s)\<lparr>blk := ?b\<rparr>"
  let ?s3 = "update_block (block_color ?s2) ?s2"
  have up: "scr (update_block v s') = scr s'" "blk (update_block v s') = blk s'" for v s' by (simp_all add: update_block_eq)
  have free: "\<not> blocked (scr s) ?b" if "0 < base_y ?b"
    using that ok k(3) [of k] by (cases "k = 0") (auto simp: game_ok_def)
  have nb: "near_screen (scr s) ?b" using near free_near k(3) [of k] by (cases "k = 0") auto
  show ?thesis
  proof (cases "0 < base_y ?b")
    case True
    have "game_ok ?s2" using game_ok_block [OF ok, of ?b] t ok free by (auto simp: update_block_eq game_ok_def [of s])
    then have "game_ok ?s3" by (simp add: update_block_eq)
    moreover have "\<not> blocked (scr ?s3) (blk ?s3)" using free True by (simp add: up)
    moreover have "blocked (scr ?s3) (base_y_update (\<lambda>y. y + 1) (blk ?s3))" using k(2) by (simp add: up algebra_simps comp_def)
    moreover obtain s4 where s4: "fix_block ?s3 = Some s4" "s' = new_block tid s4"
      using d True k(1) by (auto simp: bottom_def up Let_def bind_eq_Some_conv)
    ultimately have "same_size ?s3 s' \<and> near_screen (scr ?s3) (blk s')" using fixed_near by blast
    then show ?thesis by (simp add: up same_size_def)
  next
    case False
    then have "s' = ?s2" using d k(1) by (auto simp: bottom_def up Let_def)
    then show ?thesis using nb by (simp add: up same_size_def)
  qed
qed

lemma job_turn_near:
  assumes ok: "game_ok s" and near: "near_screen (scr s) (blk s)" and j: "job_turn tid m (h, s) = Some (over, h', s')"
  shows "same_size s s' \<and> near_screen (scr s') (blk s')"
proof -
  have "same_size s s' \<and> near_screen (scr s) (blk s')"
  proof (cases m)
    case TETRIS_MSG_DOWN
    then show ?thesis using j near down_near [OF ok near, of tid]
      by (auto simp: job_turn_def bind_eq_Some_conv same_size_def split: if_splits)
  next
    case TETRIS_MSG_BOTTOM
    then show ?thesis using j near bottom_near [OF ok near, of tid]
      by (auto simp: job_turn_def bind_eq_Some_conv same_size_def split: if_splits)
  qed (use j near moved_near [OF near, of "base_x_update (\<lambda>x. x - 1)"] moved_near [OF near, of "base_x_update (\<lambda>x. x + 1)"]
      moved_near [OF near, of "blk_type_update turned"] in
      \<open>auto simp: job_turn_def left_def right_def turn_def same_size_def split: if_splits\<close>)
  then show ?thesis using near_size by blast
qed

section \<open>What the player sees\<close>

text \<open>The last value shown at a coordinate; a value with the sign bit is a score.\<close>

fun display :: "((int \<times> int) \<times> uint32) list \<Rightarrow> int \<times> int \<Rightarrow> uint32" where
  "display [] c = 0"
| "display ((c', v) # l) c = (if c' = c \<and> \<not> bit v 31 then v else display l c)"

definition colours_ok :: "TETRIS_CTRL \<Rightarrow> bool" where
  "colours_ok s \<longleftrightarrow> sizes_ok s \<and> (\<forall>c \<in> set (node_color_map s). c < 8)"

definition shows_board :: "TETRIS_CTRL \<Rightarrow> bool" where
  "shows_board s \<longleftrightarrow> colours_ok s \<and> (\<forall>y<row_num (scr s). \<forall>x<column_num (scr s).
     display (shown s) (int x, int y) = of_nat (node_color_map s ! (y * column_num (scr s) + x)))"

definition shows_game :: "TETRIS_CTRL \<Rightarrow> bool" where
  "shows_game s \<longleftrightarrow> colours_ok s \<and> (\<forall>y<row_num (scr s). \<forall>x<column_num (scr s).
     display (shown s) (int x, int y) =
       of_nat (if (int x, int y) \<in> set (block_coors (blk s)) then block_color s
               else node_color_map s ! (y * column_num (scr s) + x)))"

lemma small_colour: "c < 8 \<Longrightarrow> \<not> bit (of_nat c :: uint32) 31"
proof -
  assume "c < 8"
  then consider "c = 0" | "c = 1" | "c = 2" | "c = 3" | "c = 4" | "c = 5" | "c = 6" | "c = 7" by linarith
  then show ?thesis by cases simp_all
qed

lemma display_block:
  assumes "v < 8"
  shows "display (map (\<lambda>c. (c, of_nat v)) cs @ l) c = (if c \<in> set cs then of_nat v else display l c)"
  using small_colour [OF assms] by (induction cs) auto

lemma colour_at:
  assumes "colours_ok s" and "y < row_num (scr s)" and "x < column_num (scr s)"
  shows "node_color_map s ! (y * column_num (scr s) + x) < 8"
  using assms node_index [OF assms(2,3)] by (auto simp: colours_ok_def sizes_ok_def)

lemma update_node_shows:
  assumes "shows_board s" and "y < row_num (scr s)" and "i < column_num (scr s)"
    and "\<And>off. src = Some off \<Longrightarrow> off + i < row_num (scr s) * column_num (scr s)"
  shows "shows_board (update_node y src i s)"
proof -
  let ?n = "column_num (scr s)"
  define c where "c = (case src of Some off \<Rightarrow> node_color_map s ! (off + i) | None \<Rightarrow> NO_COLOR)"
  have ok: "sizes_ok s" "\<forall>c \<in> set (node_color_map s). c < 8"
    and disp: "\<And>y x. y < row_num (scr s) \<Longrightarrow> x < ?n \<Longrightarrow>
     display (shown s) (int x, int y) = of_nat (node_color_map s ! (y * ?n + x))"
    using assms(1) by (auto simp: shows_board_def colours_ok_def)
  have len: "length (node_color_map s) = row_num (scr s) * ?n" using ok(1) by (simp add: sizes_ok_def)
  have c: "c < 8" using ok(2) assms(4) len by (cases src) (auto simp: c_def)
  have eq: "update_node y src i s = s\<lparr>node_color_map := (node_color_map s)[y * ?n + i := c], shown := ((int i, int y), of_nat c) # shown s\<rparr>"
    by (simp add: update_node_def show_node_def Let_def c_def)
  have "\<forall>d \<in> set ((node_color_map s)[y * ?n + i := c]). d < 8"
    using ok(2) c set_update_subset_insert [of "node_color_map s" "y * ?n + i" c] by auto
  moreover have "display (((int i, int y), of_nat c) # shown s) (int x, int y') = of_nat ((node_color_map s)[y * ?n + i := c] ! (y' * ?n + x))"
    if "y' < row_num (scr s)" "x < ?n" for x y'
    using disp [OF that] small_colour [OF c] node_index_eq [OF assms(3) that(2), of y y'] node_index [OF assms(2,3)] len
    by (simp only: display.simps) (subst nth_list_update, auto)
  ultimately show ?thesis using ok(1) by (simp add: shows_board_def colours_ok_def eq sizes_ok_def)
qed

lemma update_line_shows:
  assumes s: "shows_board s" and y: "y < row_num (scr s)"
    and src: "\<And>off. src = Some off \<Longrightarrow> off + column_num (scr s) \<le> row_num (scr s) * column_num (scr s)"
  shows "shows_board (update_line y v src s)"
proof -
  let ?n = "column_num (scr s)"
  have "shows_board (fold (update_node y src) [0..<k] s) \<and> scr (fold (update_node y src) [0..<k] s) = scr s" if "k \<le> ?n" for k
    using that
  proof (induction k)
    case (Suc k)
    then have IH: "shows_board (fold (update_node y src) [0..<k] s)" "scr (fold (update_node y src) [0..<k] s) = scr s" by auto
    have "shows_board (update_node y src k (fold (update_node y src) [0..<k] s))"
      by (rule update_node_shows [OF IH(1)]) (use IH(2) y Suc.prems src in \<open>fastforce+\<close>)
    moreover have "scr (update_node y src k s') = scr s'" for s' by (simp add: update_node_def show_node_def Let_def)
    ultimately show ?case using IH(2) by simp
  qed (use s in simp)
  then have "shows_board (fold (update_node y src) [0..<?n] s)" "scr (fold (update_node y src) [0..<?n] s) = scr s" by auto
  then show ?thesis by (simp add: update_line_def Let_def shows_board_def colours_ok_def sizes_ok_def)
qed

lemma fall_lines_shows:
  assumes "shows_board s" and "y < row_num (scr s)" and "fall_lines y s = (i, s1)"
  shows "shows_board s1 \<and> row_num (scr s1) = row_num (scr s) \<and> column_num (scr s1) = column_num (scr s)"
  using assms
proof (induction y arbitrary: s)
  case (Suc y)
  let ?s1 = "update_line (Suc y) (scr_map (scr s) ! y) (Some (y * column_num (scr s))) s"
  have ok: "sizes_ok s" using Suc.prems(1) by (simp add: shows_board_def colours_ok_def)
  have "y * column_num (scr s) + column_num (scr s) \<le> row_num (scr s) * column_num (scr s)"
    using Suc.prems(2) mult_le_mono1 [of "Suc y" "row_num (scr s)" "column_num (scr s)"] by simp
  then have 1: "shows_board ?s1" by (intro update_line_shows) (use Suc.prems in auto)
  have D: "same_game s ?s1" by (rule update_line_spec(1) [OF ok Suc.prems(2)]) simp
  show ?case
    using Suc.IH [OF 1] 1 Suc.prems(2,3) same_game_D [OF D] by (auto simp: Let_def split: if_splits)
qed simp

lemma delete_this_line_shows:
  assumes "delete_this_line y s = Some s'" and "shows_board s" and "y < row_num (scr s)"
  shows "shows_board s' \<and> row_num (scr s') = row_num (scr s)"
proof -
  have "shows_board s \<longrightarrow> y < row_num (scr s) \<longrightarrow> shows_board s' \<and> row_num (scr s') = row_num (scr s)"
  proof (rule delete_this_line.raw_induct [where P = "\<lambda>y s s'. shows_board s \<longrightarrow> y < row_num (scr s) \<longrightarrow>
      shows_board s' \<and> row_num (scr s') = row_num (scr s)", OF _ assms(1)], intro impI)
  fix f y s s'
  assume 1: "\<And>y s s'. f y s = Some s' \<Longrightarrow> shows_board s \<longrightarrow> y < row_num (scr s) \<longrightarrow>
      shows_board s' \<and> row_num (scr s') = row_num (scr s)"
    "(let (i, s1) = fall_lines y s; s2 = (if i = 0 then update_line 0 0 None s1 else s1); s3 = s2\<lparr>full_line := full_line s2 - 1\<rparr>
      in if scr_map (scr s3) ! y = full_mask s3 then f y s3 else Some s3) = Some s'"
    "shows_board s" "y < row_num (scr s)"
  obtain i s1 where f: "fall_lines y s = (i, s1)" by force
  define s2 where "s2 = (if i = 0 then update_line 0 0 None s1 else s1)"
  let ?s3 = "s2\<lparr>full_line := full_line s2 - 1\<rparr>"
  have s1: "shows_board s1" "row_num (scr s1) = row_num (scr s)" using fall_lines_shows [OF 1(3,4) f] by auto
  have y0: "0 < row_num (scr s1)" using 1(4) s1(2) by simp
  have "shows_board s2 \<and> row_num (scr s2) = row_num (scr s)"
    using s1 update_line_shows [OF s1(1) y0, of None 0] update_line_spec(1) [OF _ y0, of None 0] same_game_D(2)
    by (fastforce simp: s2_def shows_board_def colours_ok_def)
  then have s3: "shows_board ?s3" "row_num (scr ?s3) = row_num (scr s)"
    by (auto simp: shows_board_def colours_ok_def)
  show "shows_board s' \<and> row_num (scr s') = row_num (scr s)"
    using 1(2) 1(1) [of y ?s3 s'] s3 1(4) by (auto simp: f s2_def [symmetric] Let_def split: if_splits)
  qed
  then show ?thesis using assms(2,3) by blast
qed

lemma delete_lines_shows:
  assumes "delete_lines n s = Some s'" and "shows_board s" and "n \<le> row_num (scr s)"
  shows "shows_board s'"
  using assms
proof (induction n arbitrary: s)
  case 0
  then show ?case by (simp add: delete_lines.simps split: if_splits)
next
  case (Suc n)
  have eq: "delete_lines (Suc n) s = (if full_line s = 0 then Some s
      else if scr_map (scr s) ! n \<noteq> full_mask s then delete_lines n s
      else Option.bind (delete_this_line n s) (delete_lines n))"
    by (subst delete_lines.simps) simp
  show ?case
  proof (cases "delete_this_line n s")
    case None
    then show ?thesis using Suc.IH [of s] Suc.prems by (simp add: eq split: if_splits)
  next
    case (Some s1)
    then show ?thesis
      using Suc.IH [of s] Suc.IH [of s1] delete_this_line_shows [OF Some] Suc.prems by (simp add: eq split: if_splits)
  qed
qed

lemma erase_shows:
  assumes "shows_game s" and "game_ok s" and "\<not> blocked (scr s) (blk s)"
  shows "shows_board ((update_block NO_COLOR s)\<lparr>blk := b\<rparr>)"
proof -
  let ?n = "column_num (scr s)"
  have free: "node_color_map s ! (y * ?n + x) = 0"
    if "y < row_num (scr s)" "x < ?n" "(int x, int y) \<in> set (block_coors (blk s))" for x y
  proof -
    have "\<not> bit (scr_map (scr s) ! y) x" using assms(3) that by (auto simp: blocked_iff is_occupied_iff inside_def)
    moreover have "row_ok ?n (board s ! y)" using assms(2) that(1) by (auto simp: game_ok_def rows_ok_def)
    ultimately show ?thesis using that by (auto simp: row_ok_def fst_board snd_board)
  qed
  have "display (map (\<lambda>c. (c, 0)) cs @ l) c = (if c \<in> set cs then 0 else display l c)" for cs l c
    using display_block [of 0] by simp
  then show ?thesis
    using assms(1) free by (auto simp: shows_game_def shows_board_def colours_ok_def sizes_ok_def update_block_eq)
qed

lemma draw_shows:
  assumes "shows_board s" and "blk_type (blk s) < 19"
  shows "shows_game (update_block (block_color s) s)"
proof -
  have "block_color s < 8" using shapes(6) [OF assms(2)] by (simp add: block_color_def)
  then show ?thesis
    using assms(1) by (simp add: shows_game_def shows_board_def colours_ok_def sizes_ok_def update_block_eq display_block block_color_def)
qed

lemma redraw_shows:
  assumes "shows_game s" and "game_ok s" and "\<not> blocked (scr s) (blk s)" and "blk_type (f (blk s)) < 19"
  shows "shows_game (redraw f s)"
proof -
  have "blk (update_block NO_COLOR s) = blk s" by (simp add: update_block_eq)
  then show ?thesis
    using draw_shows [OF erase_shows [OF assms(1-3), of "f (blk s)"]] assms(4) by (simp add: redraw_def Let_def)
qed

lemma new_block_shows:
  assumes "shows_board s"
  shows "shows_game (new_block tid s)"
proof -
  define seed b where "seed = snd (rand (tet_seed s))"
    and "b = \<lparr>base_x = int (column_num (scr s) div 2) - 1, base_y = 0, blk_type = unat (fst (rand (tet_seed s))) mod 19\<rparr>"
  let ?q = "if \<not> in_auto_mode s then os_msgQ_flush (job_queue s) else job_queue s"
  let ?s1 = "s\<lparr>tet_seed := seed, blk := b, job_queue := ?q\<rparr>"
  have "shows_board ?s1" using assms by (simp add: shows_board_def colours_ok_def sizes_ok_def)
  from draw_shows [OF this] have "shows_game (update_block (block_color ?s1) ?s1)" by (simp add: b_def)
  moreover have "new_block tid s = (update_block (block_color ?s1) ?s1)\<lparr>auto_task_id := if in_auto_mode s then tid else auto_task_id s\<rparr>"
    by (simp add: new_block_def update_block_eq Let_def split_beta seed_def b_def block_color_def)
  ultimately show ?thesis by (simp add: shows_game_def colours_ok_def sizes_ok_def block_color_def)
qed

lemma fix_block_shows:
  assumes ok: "game_ok s" and free: "\<not> blocked (scr s) (blk s)" and s: "shows_game s" and s': "fix_block s = Some s'"
  shows "shows_board s'"
proof -
  let ?n = "column_num (scr s)"
  from fix_nodes_spec [OF ok free] obtain b s1 where
    s1: "fix_nodes s = (b, s1)" "same_game s s1" "sizes_ok s1" "shown s1 = shown s" "counts_ok b s1" "board s1 = with_block s" .
  note D = same_game_D [OF s1(2)]
  have t: "block_color s < 8" using shapes(6) ok by (simp add: block_color_def game_ok_def)
  have old: "colours_ok s" using s by (simp add: shows_game_def)
  have cm: "node_color_map s1 ! (y * ?n + x) = (if (int x, int y) \<in> set (block_coors (blk s)) then block_color s
      else node_color_map s ! (y * ?n + x))" if "y < row_num (scr s)" "x < ?n" for x y
    using snd_board [of y s1 x] that unfolding D s1(6)
    by (cases "(int x, int y) \<in> set (block_coors (blk s))") (simp_all add: with_block_def Let_def)
  have "c < 8" if "c \<in> set (node_color_map s1)" for c
  proof -
    from that obtain k where k: "k < row_num (scr s) * ?n" "c = node_color_map s1 ! k"
      using s1(3) D by (auto simp: in_set_conv_nth sizes_ok_def)
    have n: "0 < ?n" using ok by (simp add: game_ok_def sizes_ok_def)
    have "k div ?n < row_num (scr s)" "k mod ?n < ?n" using k(1) n by (simp_all add: less_mult_imp_div_less)
    then show ?thesis using cm [of "k div ?n" "k mod ?n"] t colour_at [OF old, of "k div ?n" "k mod ?n"] k(2) by auto
  qed
  then have b1: "shows_board s1" using s s1(3,4) cm D by (auto simp: shows_board_def shows_game_def colours_ok_def)
  define s2 where "s2 = show_score (last (block_coors (blk s))) (s1\<lparr>tet_score := tet_score s1 + of_nat (G_score_map ! nat (full_line s1))\<rparr>)"
  have "bit (w OR 0x80000000 :: uint32) 31" for w by (simp add: bit_or_iff)
  then have b2: "shows_board s2" "row_num (scr s2) = row_num (scr s)"
    using b1 D by (simp_all add: s2_def show_score_def show_node_def shows_board_def colours_ok_def sizes_ok_def)
  have "nat (b + 1) \<le> row_num (scr s2)" using s1(5) by (simp add: counts_ok_def D b2 nat_le_iff)
  then show ?thesis
    using s' b1 delete_lines_shows [OF _ b2(1), of "nat (b + 1)" s'] by (auto simp: fix_block_def s1(1) s2_def split: if_splits)
qed

section \<open>Properties\<close>

lemma moved_shows:
  assumes "shows_game s" and "game_ok s" and "\<not> blocked (scr s) (blk s)"
  shows "shows_game (snd (left s))" and "shows_game (snd (right s))" and "shows_game (snd (turn s))"
proof -
  have t: "blk_type (blk s) < 19" using assms(2) by (simp add: game_ok_def)
  show "shows_game (snd (left s))" "shows_game (snd (right s))" "shows_game (snd (turn s))"
    using assms redraw_shows [OF assms] t turned_less [OF t] by (auto simp: left_def right_def turn_def)
qed

lemma down_shows:
  assumes s: "shows_game s" "game_ok s" "\<not> blocked (scr s) (blk s)" and d: "down tid s = Some (st, s')"
  shows "shows_game s'"
proof (cases "blocked (scr s) (base_y_update (\<lambda>y. y + 1) (blk s))")
  case True
  then show ?thesis
    using d s fix_block_shows [OF s(2,3,1)] new_block_shows by (auto simp: down_def bind_eq_Some_conv split: if_splits)
next
  case False
  have "blk_type (blk s) < 19" using s(2) by (simp add: game_ok_def)
  then show ?thesis using False d redraw_shows [OF s] by (auto simp: down_def)
qed

lemma bottom_fixes:
  assumes ok: "game_ok s" and b: "bottom tid s = Some (st, s')" and st: "st \<noteq> MOTION_STATUS_GAME_OVER"
  obtains s3 s4 k where "s3 = (let s2 = (update_block NO_COLOR s)\<lparr>blk := base_y_update (\<lambda>y. y + int k) (blk s)\<rparr>
        in update_block (block_color s2) s2)"
    and "game_ok s3" and "\<not> blocked (scr s3) (blk s3)" and "blocked (scr s3) (base_y_update (\<lambda>y. y + 1) (blk s3))"
    and "fix_block s3 = Some s4" and "s' = new_block tid s4" and "st = MOTION_STATUS_ERROR"
    and "\<And>i. 0 < i \<Longrightarrow> i \<le> k \<Longrightarrow> \<not> blocked (scr s) (base_y_update (\<lambda>y. y + int i) (blk s))"
proof -
  have t: "blk_type (blk s) < 19" using ok by (simp add: game_ok_def)
  from drop_block_spec [OF t, of "scr s"] obtain k where
    k: "drop_block (scr s) (blk s) = Some (base_y_update (\<lambda>y. y + int k) (blk s))"
      "blocked (scr s) (base_y_update (\<lambda>y. y + int (Suc k)) (blk s))"
      "\<And>i. 0 < i \<Longrightarrow> i \<le> k \<Longrightarrow> \<not> blocked (scr s) (base_y_update (\<lambda>y. y + int i) (blk s))" by blast
  let ?b = "base_y_update (\<lambda>y. y + int k) (blk s)"
  define s2 where "s2 = (update_block NO_COLOR s)\<lparr>blk := ?b\<rparr>"
  define s3 where "s3 = update_block (block_color s2) s2"
  have scr2: "scr (update_block v s') = scr s'" "blk (update_block v s') = blk s'" for v s' by (simp_all add: update_block_eq)
  have eqs: "scr s3 = scr s" "blk s3 = ?b" by (simp_all add: s3_def s2_def scr2)
  have pos: "0 < base_y ?b" and run: "fix_block s3 \<bind> (\<lambda>s3. Some (MOTION_STATUS_ERROR, new_block tid s3)) = Some (st, s')"
    using b st k(1) by (auto simp: bottom_def scr2 Let_def s3_def s2_def split: if_splits)
  have free: "\<not> blocked (scr s) ?b"
    using pos ok k(3) [of k] by (cases "k = 0") (auto simp: game_ok_def)
  have "game_ok s3"
    using game_ok_block [OF ok, of ?b] t ok free by (simp add: s3_def s2_def update_block_eq game_ok_def [of s])
  moreover obtain s4 where "fix_block s3 = Some s4" "s' = new_block tid s4" "st = MOTION_STATUS_ERROR"
    using run by (auto simp: bind_eq_Some_conv)
  moreover have "s3 = (let s2 = (update_block NO_COLOR s)\<lparr>blk := ?b\<rparr> in update_block (block_color s2) s2)"
    by (simp add: s3_def s2_def Let_def)
  ultimately show ?thesis
    using free k(2,3) eqs by (intro that [of s3 k s4]) (simp_all add: comp_def algebra_simps)
qed

lemma bottom_shows:
  assumes s: "shows_game s" "game_ok s" "\<not> blocked (scr s) (blk s)"
    and b: "bottom tid s = Some (st, s')" "st \<noteq> MOTION_STATUS_GAME_OVER"
  shows "shows_game s'"
proof -
  from bottom_fixes [OF s(2) b] obtain s3 s4 k where
    f: "s3 = (let s2 = (update_block NO_COLOR s)\<lparr>blk := base_y_update (\<lambda>y. y + int k) (blk s)\<rparr> in update_block (block_color s2) s2)"
    "game_ok s3" "\<not> blocked (scr s3) (blk s3)" "fix_block s3 = Some s4" "s' = new_block tid s4" by metis
  have "blk_type (blk s) < 19" using s(2) by (simp add: game_ok_def)
  then have "shows_game s3" unfolding f(1) Let_def by (intro draw_shows erase_shows [OF s]) simp
  from fix_block_shows [OF f(2,3) this f(4)] show ?thesis unfolding f(5) by (rule new_block_shows)
qed

subsection \<open>Sending a block to the bottom is moving it down again and again\<close>

text \<open>The specification of \<^verbatim>\<open>bottom\<close>: \<open>down\<close> until it does not move the block any more.\<close>

partial_function (option) downs :: "ptr \<Rightarrow> TETRIS_CTRL \<Rightarrow> (MOTION_STATUS \<times> TETRIS_CTRL) option" where
  "downs tid s = Option.bind (down tid s) (\<lambda>(st, s1). if st = MOTION_STATUS_OK then downs tid s1 else Some (st, s1))"

lemma board_inj:
  assumes "board s = board s'" and "sizes_ok s" and "sizes_ok s'" and "column_num (scr s') = column_num (scr s)"
  shows "scr_map (scr s) = scr_map (scr s')" and "node_color_map s = node_color_map s'"
proof -
  have r: "row_num (scr s) = row_num (scr s')" using arg_cong [OF assms(1), of length] by simp
  show "scr_map (scr s) = scr_map (scr s')"
    by (rule nth_equalityI) (use assms r fst_board [of _ s] fst_board [of _ s'] in \<open>auto simp: sizes_ok_def\<close>)
  show "node_color_map s = node_color_map s'"
  proof (rule nth_equalityI)
    fix k
    assume "k < length (node_color_map s)"
    then have k: "k < row_num (scr s) * column_num (scr s)" and n: "0 < column_num (scr s)"
      using assms(2) by (simp_all add: sizes_ok_def)
    let ?y = "k div column_num (scr s)" and ?x = "k mod column_num (scr s)"
    have "?y < row_num (scr s)" "?x < column_num (scr s)" using k n by (simp_all add: less_mult_imp_div_less)
    then show "node_color_map s ! k = node_color_map s' ! k"
      using snd_board [of ?y s ?x] snd_board [of ?y s' ?x] assms(1,4) r by simp
  qed (use assms r in \<open>simp add: sizes_ok_def\<close>)
qed

lemma new_block_shown: "\<exists>l'. new_block tid (s\<lparr>shown := l\<rparr>) = (new_block tid s)\<lparr>shown := l'\<rparr>"
  by (intro exI [of _ "shown (new_block tid (s\<lparr>shown := l\<rparr>))"])
    (simp add: new_block_def update_block_eq Let_def split_beta block_color_def)

lemma fix_block_shown:
  assumes ok: "game_ok s" "\<not> blocked (scr s) (blk s)" "blocked (scr s) (base_y_update (\<lambda>y. y + 1) (blk s))"
    and r: "fix_block s = Some r" "fix_block (s\<lparr>shown := l\<rparr>) = Some r'"
  shows "\<exists>l'. r' = r\<lparr>shown := l'\<rparr>"
proof -
  let ?s = "s\<lparr>shown := l\<rparr>"
  have same: "with_block ?s = with_block s" by (simp add: with_block_def block_color_def Let_def)
  from fix_block_spec [OF ok] r(1) obtain k where
    1: "sizes_ok r" "full_line r = 0" "k = length (filter (\<lambda>r. fst r = full_mask s) (with_block s))"
    "board r = replicate k (empty_row s) @ filter (\<lambda>r. fst r \<noteq> full_mask s) (with_block s)"
    "tet_score r = tet_score s + of_nat (G_score_map ! k)" "same_game s (r\<lparr>tet_score := tet_score s\<rparr>)" by auto
  from fix_block_spec [of ?s] ok r(2) obtain k' where
    2: "sizes_ok r'" "full_line r' = 0" "k' = length (filter (\<lambda>r. fst r = full_mask s) (with_block s))"
    "board r' = replicate k' (empty_row s) @ filter (\<lambda>r. fst r \<noteq> full_mask s) (with_block s)"
    "tet_score r' = tet_score s + of_nat (G_score_map ! k')" "same_game s (r'\<lparr>tet_score := tet_score s\<rparr>)"
    unfolding same by (auto simp: same_game_def)
  have "column_num (scr r) = column_num (scr r')" using 1(6) 2(6) by (simp add: same_game_def)
  moreover have "board r' = board r" using 1 2 by simp
  ultimately have "scr_map (scr r') = scr_map (scr r)" "node_color_map r' = node_color_map r"
    using board_inj [of r' r] 1(1) 2(1) by auto
  then have "r' = r\<lparr>shown := shown r'\<rparr>"
    using 1 2 unfolding same_game_def by (intro TETRIS_CTRL.equality SCREEN.equality) auto
  then show ?thesis by blast
qed

lemma downs_falls:
  assumes "\<And>i. 0 < i \<Longrightarrow> i \<le> k \<Longrightarrow> \<not> blocked (scr s) (base_y_update (\<lambda>y. y + int i) (blk s))"
  shows "\<exists>l. downs tid s = downs tid (s\<lparr>shown := l, blk := base_y_update (\<lambda>y. y + int k) (blk s)\<rparr>)"
  using assms
proof (induction k)
  case 0
  show ?case by (intro exI [of _ "shown s"]) simp
next
  case (Suc k)
  then obtain l where l: "downs tid s = downs tid (s\<lparr>shown := l, blk := base_y_update (\<lambda>y. y + int k) (blk s)\<rparr>)" by auto
  let ?s = "s\<lparr>shown := l, blk := base_y_update (\<lambda>y. y + int k) (blk s)\<rparr>"
  have up: "base_y_update (\<lambda>y. y + 1) (blk ?s) = base_y_update (\<lambda>y. y + int (Suc k)) (blk s)"
    by (simp add: comp_def algebra_simps)
  have "\<not> blocked (scr ?s) (base_y_update (\<lambda>y. y + 1) (blk ?s))" unfolding up using Suc.prems [of "Suc k"] by simp
  then have "downs tid ?s = downs tid (redraw (base_y_update (\<lambda>y. y + 1)) ?s)"
    by (subst downs.simps) (simp add: down_def)
  also have "redraw (base_y_update (\<lambda>y. y + 1)) ?s
      = s\<lparr>shown := shown (redraw (base_y_update (\<lambda>y. y + 1)) ?s), blk := base_y_update (\<lambda>y. y + int (Suc k)) (blk s)\<rparr>"
    by (subst redraw_eq) (simp add: comp_def algebra_simps)
  finally show ?case using l by metis
qed

lemma bottom_like_downs:
  assumes ok: "game_ok s"
  shows "\<exists>st s1 s2. downs tid s = Some (st, s1) \<and> bottom tid s = Some (st, s2) \<and> s2 = s1\<lparr>shown := shown s2\<rparr>"
proof -
  have t: "blk_type (blk s) < 19" using ok by (simp add: game_ok_def)
  from drop_block_spec [OF t, of "scr s"] obtain k where
    k: "drop_block (scr s) (blk s) = Some (base_y_update (\<lambda>y. y + int k) (blk s))"
      "blocked (scr s) (base_y_update (\<lambda>y. y + int (Suc k)) (blk s))"
      "\<And>i. 0 < i \<Longrightarrow> i \<le> k \<Longrightarrow> \<not> blocked (scr s) (base_y_update (\<lambda>y. y + int i) (blk s))" by blast
  let ?b = "base_y_update (\<lambda>y. y + int k) (blk s)"
  from downs_falls [where k = k and s = s and tid = tid] k(3) obtain l where
    l: "downs tid s = downs tid (s\<lparr>shown := l, blk := ?b\<rparr>)" by blast
  let ?s = "s\<lparr>shown := l, blk := ?b\<rparr>"
  have rests: "blocked (scr ?s) (base_y_update (\<lambda>y. y + 1) (blk ?s))" using k(2) by (simp add: comp_def algebra_simps)
  have down: "downs tid ?s = (if 0 < base_y ?b then fix_block ?s \<bind> (\<lambda>s1. Some (MOTION_STATUS_ERROR, new_block tid s1))
      else Some (MOTION_STATUS_GAME_OVER, ?s))"
    using rests by (subst downs.simps) (simp add: down_def split: option.splits bind_splits)
  have scr2: "scr (update_block v s') = scr s'" "blk (update_block v s') = blk s'" for v s' by (simp_all add: update_block_eq)
  show ?thesis
  proof (cases "0 < base_y ?b")
    case True
    have free: "\<not> blocked (scr s) ?b" using True ok k(3) [of k] by (cases "k = 0") (auto simp: game_ok_def)
    have ok1: "game_ok ?s" using game_ok_block [OF ok, of ?b] t ok free by (simp add: game_ok_def [of s])
    obtain r1 where r1: "fix_block ?s = Some r1" using fix_block_ok [OF ok1 _ rests] free by auto
    let ?s3 = "update_block (block_color ((update_block NO_COLOR s)\<lparr>blk := ?b\<rparr>)) ((update_block NO_COLOR s)\<lparr>blk := ?b\<rparr>)"
    have s3: "?s3 = ?s\<lparr>shown := shown ?s3\<rparr>" by (simp add: update_block_eq)
    have ok3: "game_ok (?s\<lparr>shown := shown ?s3\<rparr>)" using ok1 by simp
    obtain r2 where r2: "fix_block (?s\<lparr>shown := shown ?s3\<rparr>) = Some r2"
      using fix_block_ok [OF ok3] free rests by auto
    from fix_block_shown [OF ok1 _ rests r1 r2] free obtain l' where "r2 = r1\<lparr>shown := l'\<rparr>" by auto
    with new_block_shown [where tid = tid and s = r1 and l = l'] obtain l2 where new: "new_block tid r2 = (new_block tid r1)\<lparr>shown := l2\<rparr>" by auto
    have "downs tid s = Some (MOTION_STATUS_ERROR, new_block tid r1)" using l down True r1 by simp
    moreover have "bottom tid s = Some (MOTION_STATUS_ERROR, new_block tid r2)"
      using True k(1) r2 unfolding s3 [symmetric] by (simp add: bottom_def scr2 Let_def)
    ultimately show ?thesis using new by (intro exI) auto
  next
    case False
    have "bottom tid s = Some (MOTION_STATUS_GAME_OVER, (update_block NO_COLOR s)\<lparr>blk := ?b\<rparr>)"
      using False k(1) by (simp add: bottom_def scr2 Let_def)
    moreover have "downs tid s = Some (MOTION_STATUS_GAME_OVER, ?s)" using l down False by simp
    ultimately show ?thesis
      by (intro exI [of _ MOTION_STATUS_GAME_OVER] exI [of _ ?s] exI [of _ "(update_block NO_COLOR s)\<lparr>blk := ?b\<rparr>"] conjI)
        (simp_all add: update_block_eq)
  qed
qed

lemma rb_init_ok:
  assumes "0 < cols"
  shows "game_ok (rb_init cols rows tick)" and "shows_game (rb_init cols rows tick)"
proof -
  let ?n = "min TETRIS_MAX_COLUMN cols"
  let ?s = "\<lparr>node_color_map = replicate (rows * ?n) 0,
       scr = \<lparr>scr_map = replicate rows 0, column_num = ?n, row_num = rows\<rparr>,
       full_mask = push_bit ?n 1 - 1, full_line = 0, tet_score = 0,
       blk = \<lparr>base_x = 0, base_y = 0, blk_type = 0\<rparr>, job_queue = Some [],
       in_auto_mode = False, auto_task_id = None, shown = [], tet_seed = srand tick\<rparr>"
  have sizes: "sizes_ok ?s" using assms by (simp add: sizes_ok_def)
  have at: "node_color_map ?s ! (y * ?n + x) = 0" if "y < rows" "x < ?n" for x y
    using node_index [OF that] by simp
  have empty: "board ?s = replicate rows (empty_row ?s)"
    by (rule nth_equalityI) (use node_index in \<open>auto simp: board_def intro!: nth_equalityI\<close>)
  have "rows_ok ?n (board ?s)"
    unfolding empty by (simp add: rows_ok_def settled_def row_ok_def sorted_replicate)
  moreover have "full_num ?s = 0"
    using full_mask_pos [OF sizes] unfolding full_num_def empty by (simp add: nonfull_def)
  ultimately have ok: "game_ok ?s" using sizes by (simp add: game_ok_def)
  then have "game_ok (?s\<lparr>blk := blk ?s\<rparr>)" by simp
  note new = new_block_ok [OF this, of None]
  have "shows_board ?s" using sizes at by (simp add: shows_board_def colours_ok_def)
  note pic = new_block_shows [OF this, of None]
  let ?s1 = "new_block None ?s"
  have eq: "rb_init cols rows tick = ?s1\<lparr>shown := ((base_x (blk ?s1), base_y (blk ?s1)), tet_score ?s1 OR 0x80000000) # shown ?s1\<rparr>"
    by (simp add: rb_init_def Let_def show_score_def show_node_def)
  have bit: "bit (w OR 0x80000000 :: uint32) 31" for w by (simp add: bit_or_iff)
  show "game_ok (rb_init cols rows tick)" unfolding eq using new by simp
  show "shows_game (rb_init cols rows tick)"
    unfolding eq using pic bit by (simp add: shows_game_def colours_ok_def sizes_ok_def block_color_def)
qed

definition tet_demo :: TETRIS_CTRL where
  "tet_demo = (rb_init 4 4 0)\<lparr>blk := \<lparr>base_x = 0, base_y = 3, blk_type = I_1\<rparr>\<rparr>"

lemma tet_demo_ok: "game_ok tet_demo" "blocked (scr tet_demo) (base_y_update (\<lambda>y. y + 1) (blk tet_demo))"
proof -
  have scr: "scr (rb_init 4 4 0) = \<lparr>scr_map = [0, 0, 0, 0], column_num = 4, row_num = 4\<rparr>"
    by (simp add: rb_init_def show_score_def show_node_def new_block_def update_block_eq Let_def split_beta)
      (simp add: numeral_eq_Suc)
  have "\<not> blocked (scr (rb_init 4 4 0)) \<lparr>base_x = 0, base_y = 3, blk_type = I_1\<rparr>"
    unfolding scr by code_simp
  then show "game_ok tet_demo" unfolding tet_demo_def by (intro game_ok_block rb_init_ok(1)) simp_all
  have "blocked (scr (rb_init 4 4 0)) \<lparr>base_x = 0, base_y = 4, blk_type = I_1\<rparr>" unfolding scr by code_simp
  then show "blocked (scr tet_demo) (base_y_update (\<lambda>y. y + 1) (blk tet_demo))" by (simp add: tet_demo_def)
qed

text \<open>C37: When a block has come to rest, \<^verbatim>\<open>fix_block\<close> returns, and has removed exactly the rows that
  the block filled: the others keep their order and colours and fall down, as many empty rows come
  on top, and the score grows by the entry of the table for their number, which is at most four.\<close>

theorem fix_block_clears_full_rows:
  assumes "game_ok s" and "0 < base_y (blk s)" and "blocked (scr s) (base_y_update (\<lambda>y. y + 1) (blk s))"
  shows "\<exists>s'. fix_block s = Some s'
    \<and> (let k = length (filter (\<lambda>r. fst r = full_mask s) (with_block s))
       in k \<le> 4
        \<and> board s' = replicate k (0, replicate (column_num (scr s)) NO_COLOR) @ filter (\<lambda>r. fst r \<noteq> full_mask s) (with_block s)
        \<and> tet_score s' = tet_score s + of_nat (G_score_map ! k)
        \<and> full_line s' = 0 \<and> blk s' = blk s \<and> job_queue s' = job_queue s)"
proof -
  have "\<not> blocked (scr s) (blk s)" using assms(1,2) by (simp add: game_ok_def)
  from fix_block_spec [OF assms(1) this assms(3)] show ?thesis by (auto simp: Let_def same_game_def)
qed

theorem fix_block_clears_full_rows_witness:
  "\<exists>s'. fix_block tet_demo = Some s'
    \<and> (let k = length (filter (\<lambda>r. fst r = full_mask tet_demo) (with_block tet_demo))
       in k \<le> 4
        \<and> board s' = replicate k (0, replicate (column_num (scr tet_demo)) NO_COLOR)
            @ filter (\<lambda>r. fst r \<noteq> full_mask tet_demo) (with_block tet_demo)
        \<and> tet_score s' = tet_score tet_demo + of_nat (G_score_map ! k)
        \<and> full_line s' = 0 \<and> blk s' = blk tet_demo \<and> job_queue s' = job_queue tet_demo)"
  by (rule fix_block_clears_full_rows [OF tet_demo_ok(1) _ tet_demo_ok(2)]) (simp add: tet_demo_def)

text \<open>Sending a block to the bottom ends, and leaves the same game as moving it down until it
  does not move any more; only the steps in between are not shown.\<close>

theorem bottom_equals_downs:
  assumes "game_ok s"
  shows "\<exists>st s1 s2. downs tid s = Some (st, s1) \<and> bottom tid s = Some (st, s2) \<and> s2 = s1\<lparr>shown := shown s2\<rparr>"
  by (rule bottom_like_downs [OF assms])

theorem bottom_equals_downs_witness:
  "\<exists>st s1 s2. downs None tet_demo = Some (st, s1) \<and> bottom None tet_demo = Some (st, s2) \<and> s2 = s1\<lparr>shown := shown s2\<rparr>"
  by (rule bottom_equals_downs [OF tet_demo_ok(1)])

lemma rb_init_near:
  "near_screen (scr (rb_init cols rows tick)) (blk (rb_init cols rows tick))"
  "column_num (scr (rb_init cols rows tick)) = min 32 cols" "row_num (scr (rb_init cols rows tick)) = rows"
proof -
  have "\<exists>s c. rb_init cols rows tick = show_score c (new_block None s) \<and> column_num (scr s) = min 32 cols \<and> row_num (scr s) = rows"
    unfolding rb_init_def Let_def by (intro exI conjI, rule refl) simp_all
  then obtain s c where s: "rb_init cols rows tick = show_score c (new_block None s)" "column_num (scr s) = min 32 cols"
    "row_num (scr s) = rows" by blast
  then show "near_screen (scr (rb_init cols rows tick)) (blk (rb_init cols rows tick))"
    "column_num (scr (rb_init cols rows tick)) = min 32 cols" "row_num (scr (rb_init cols rows tick)) = rows"
    using new_block_near [of s None] new_block_size [of s None]
    by (simp_all add: show_score_def show_node_def same_size_def near_screen_def)
qed

text \<open>C38: On a screen of less than 32 columns and so few rows that \<^verbatim>\<open>short\<close> coordinates cannot overflow,
  the job task does not hang, whatever messages it receives, and after them: the bit map
  and the colours agree, no full row stays, no row hangs in the air; bit map and colours have the sizes of the
  screen; the coordinates of the block are \<^verbatim>\<open>short\<close>s; and a block below the top row, the only one that is
  ever fixed, lies on free nodes of the screen, so that fixing it writes inside of bit map and colours.\<close>

theorem job_task_keeps_game:
  assumes "0 < cols" and "cols < 32" and "rows \<le> 0x7ff0"
  shows "\<exists>over h s. job_task tid ms (False, rb_init cols rows tick) = Some (over, h, s) \<and> game_ok s
    \<and> length (scr_map (scr s)) = rows \<and> length (node_color_map s) = rows * cols
    \<and> (\<forall>c \<in> set (block_coors (blk s)). - 0x8000 \<le> fst c \<and> fst c < 0x8000 \<and> - 0x8000 \<le> snd c \<and> snd c < 0x8000)
    \<and> (0 < base_y (blk s) \<longrightarrow> (\<forall>c \<in> set (block_coors (blk s)).
         0 \<le> fst c \<and> fst c < int cols \<and> 0 \<le> snd c \<and> snd c < int rows \<and> \<not> bit (scr_map (scr s) ! nat (snd c)) (nat (fst c))))"
proof -
  have "\<exists>over h' s'. job_task tid ms (h, s) = Some (over, h', s') \<and> game_ok s' \<and> same_size s s' \<and> near_screen (scr s') (blk s')"
    if "game_ok s" "near_screen (scr s) (blk s)" for h s
    using that
  proof (induction ms arbitrary: h s)
    case (Cons m ms)
    from job_turn_runs [OF Cons.prems(1), of tid m h] obtain over h1 s1 where
      j: "job_turn tid m (h, s) = Some (over, h1, s1)" "game_ok s1" .
    note n = job_turn_near [OF Cons.prems j(1)]
    show ?case using j n Cons.IH [of s1 h1] by (cases over) (auto simp: same_size_def)
  qed (auto simp: same_size_def)
  from this [OF rb_init_ok(1) [OF assms(1)] rb_init_near(1)] obtain over h s where
    run: "job_task tid ms (False, rb_init cols rows tick) = Some (over, h, s)"
    and ok: "game_ok s" "same_size (rb_init cols rows tick) s" "near_screen (scr s) (blk s)" by blast
  have size: "column_num (scr s) = cols" "row_num (scr s) = rows" using ok(2) assms(2) by (simp_all add: same_size_def rb_init_near)
  have "\<forall>c \<in> set (block_coors (blk s)). - 0x8000 \<le> fst c \<and> fst c < 0x8000 \<and> - 0x8000 \<le> snd c \<and> snd c < 0x8000"
    using ok(3) assms(2,3) by (fastforce simp: near_screen_def size)
  moreover have "0 < base_y (blk s) \<longrightarrow> (\<forall>c \<in> set (block_coors (blk s)).
      0 \<le> fst c \<and> fst c < int cols \<and> 0 \<le> snd c \<and> snd c < int rows \<and> \<not> bit (scr_map (scr s) ! nat (snd c)) (nat (fst c)))"
    using ok(1) by (auto simp: game_ok_def blocked_iff is_occupied_iff inside_def size)
  ultimately show ?thesis using run ok(1) size by (auto simp: game_ok_def sizes_ok_def)
qed

theorem job_task_keeps_game_witness:
  "\<exists>over h s. job_task None [TETRIS_MSG_LEFT, TETRIS_MSG_BOTTOM, TETRIS_MSG_TURN] (False, rb_init 10 20 7) = Some (over, h, s)
    \<and> game_ok s \<and> length (node_color_map s) = 200"
  using job_task_keeps_game [of 10 20 None "[TETRIS_MSG_LEFT, TETRIS_MSG_BOTTOM, TETRIS_MSG_TURN]" 7] by auto

text \<open>Every turn of the job task keeps the picture of the player true: each node of the screen
  shows the colour of the block if the block is there, and the colour of the map otherwise. This
  holds as long as the block does not overlap fixed nodes, as a new block may, and the game goes on.\<close>

theorem job_turn_keeps_picture:
  assumes "game_ok s" and "shows_game s" and "\<not> blocked (scr s) (blk s)"
    and "job_turn tid m (h, s) = Some (False, h', s')"
  shows "shows_game s'"
proof (cases m)
  case TETRIS_MSG_DOWN
  then show ?thesis using assms down_shows [OF assms(2,1,3)] by (auto simp: job_turn_def bind_eq_Some_conv split: if_splits)
next
  case TETRIS_MSG_BOTTOM
  then show ?thesis using assms bottom_shows [OF assms(2,1,3)] by (auto simp: job_turn_def bind_eq_Some_conv split: if_splits)
qed (use assms moved_shows [OF assms(2,1,3)] in \<open>auto simp: job_turn_def shows_game_def colours_ok_def sizes_ok_def block_color_def\<close>)

theorem job_turn_keeps_picture_witness:
  "shows_game (snd (left (rb_init 10 20 7)))"
proof -
  have scr: "scr (rb_init 10 20 7) = \<lparr>scr_map = replicate 20 0, column_num = 10, row_num = 20\<rparr>"
    and blk: "blk (rb_init 10 20 7) = \<lparr>base_x = 4, base_y = 0, blk_type = unat (fst (rand (srand 7))) mod 19\<rparr>"
    by (simp_all add: rb_init_def show_score_def show_node_def new_block_def update_block_eq Let_def split_beta)
  have "\<not> blocked (scr (rb_init 10 20 7)) (blk (rb_init 10 20 7))"
    unfolding scr blk by code_simp
  then show ?thesis
    by (intro job_turn_keeps_picture [OF rb_init_ok, where m = TETRIS_MSG_LEFT and tid = None and h = False and h' = False])
      (simp_all add: job_turn_def)
qed

end
