(* ===== verification/Tetris_Auto.thy ===== *)
theory Tetris_Auto
  imports Tetris
begin

text \<open>
  The player that plays tetris by itself: \<^verbatim>\<open>src/tetris/src/auto.c\<close> and \<^verbatim>\<open>auto_task\<close> of
  \<^verbatim>\<open>tetris.c\<close>. Every place of the block is rated by putting the block into the map, counting, and
  taking it out again; the moves to the best place are then sent to the job task. An \<open>int\<close>
  is an integer, the smallest one stands for no place at all.
\<close>

section \<open>Rating a place\<close>

abbreviation (input) AUTO_MSG_MAX :: nat where "AUTO_MSG_MAX \<equiv> 50"
abbreviation (input) INT_LEAST :: int where "INT_LEAST \<equiv> -0x80000000"
abbreviation (input) HOLE_MINUS :: int where "HOLE_MINUS \<equiv> 5"
abbreviation (input) DANGERIOUS_MINUS :: int where "DANGERIOUS_MINUS \<equiv> 2"

definition DANGERIOUS_HEIGHT :: "nat \<Rightarrow> int" where
  "DANGERIOUS_HEIGHT rows = int (rows * 2 div 10)"

definition BIT_CLR_NODE :: "uint32 \<Rightarrow> nat \<Rightarrow> uint32" where
  "BIT_CLR_NODE val pos = val AND NOT (push_bit pos 1)"

definition get_type_column_num :: "nat \<Rightarrow> nat" where
  "get_type_column_num t = fold (\<lambda>p n. max n (fst p)) (G_block_map ! t) 0 + 1"

text \<open>\<^verbatim>\<open>(1 << scr->column_num) - 1\<close>, with the reading of \<^verbatim>\<open>1 << 32\<close> of \<open>rb_init\<close>.\<close>

definition scr_full_mask :: "SCREEN \<Rightarrow> uint32" where
  "scr_full_mask p = push_bit (column_num p) 1 - 1"

text \<open>The local variables are \<open>(cover, hole_num)\<close>.\<close>

definition cal_holes_in_one_column :: "SCREEN \<Rightarrow> nat \<Rightarrow> int" where
  "cal_holes_in_one_column p col =
     snd (fold (\<lambda>i (cover, hole_num).
            if scr_map p ! i \<noteq> scr_full_mask p then
              if BIT_VAL (scr_map p ! i) col \<noteq> 0 then (1, hole_num) else (cover, hole_num + cover)
            else (cover, hole_num)) [0..<row_num p] (0, 0))"

definition cal_all_holes_in_scr :: "SCREEN \<Rightarrow> int" where
  "cal_all_holes_in_scr p = fold (\<lambda>i n. n + cal_holes_in_one_column p i) [0..<column_num p] 0"

definition get_height :: "SCREEN \<Rightarrow> int" where
  "get_height p = int (row_num p) - int (length (takeWhile (\<lambda>r. r = 0) (take (row_num p) (scr_map p))))"

text \<open>
  The turn number and the first type of the group. The result of the code for a number that is no
  type is 0 and the type itself.
\<close>

definition get_turn_num :: "nat \<Rightarrow> nat \<times> nat" where
  "get_turn_num t =
     (if t = O_0 then (1, t)
      else if t = I_0 \<or> t = I_1 then (2, I_0)
      else if t = Z_0 \<or> t = Z_1 then (2, Z_0)
      else if t = S_0 \<or> t = S_1 then (2, S_0)
      else if T_0 \<le> t \<and> t \<le> T_3 then (4, T_0)
      else if J_0 \<le> t \<and> t \<le> J_3 then (4, J_0)
      else if L_0 \<le> t \<and> t \<le> L_3 then (4, L_0)
      else (0, t))"

text \<open>The lowest node of the block in each of its columns.\<close>

definition blk_max_y :: "BLOCK \<Rightarrow> int list" where
  "blk_max_y b =
     fold (\<lambda>(px, py) ys. ys[px := max (ys ! px) (base_y b + int py)]) (G_block_map ! blk_type b)
       (replicate BLOCK_NODE_NUM (base_y b))"

text \<open>The topmost occupied row in each column of the block, going down until all are found.\<close>

definition scan_row :: "SCREEN \<Rightarrow> BLOCK \<Rightarrow> nat \<Rightarrow> int list \<times> nat \<Rightarrow> int list \<times> nat" where
  "scan_row p b i =
     fold (\<lambda>offset (ys, left_col).
         if ys ! offset \<noteq> int (row_num p) then (ys, left_col)
         else if BIT_VAL (scr_map p ! i) (nat (base_x b + int offset)) \<noteq> 0 then (ys[offset := int i], left_col - 1)
         else (ys, left_col)) [0..<get_type_column_num (blk_type b)]"

fun scan_rows :: "SCREEN \<Rightarrow> BLOCK \<Rightarrow> nat list \<Rightarrow> int list \<times> nat \<Rightarrow> int list \<times> nat" where
  "scan_rows p b [] st = st"
| "scan_rows p b (i # is) st =
     (let st1 = scan_row p b i st in if snd st1 = 0 then st1 else scan_rows p b is st1)"

definition min_interval_between_blk_scr :: "SCREEN \<Rightarrow> BLOCK \<Rightarrow> int" where
  "min_interval_between_blk_scr p b =
     (let n = get_type_column_num (blk_type b);
          ys = fst (scan_rows p b [0..<row_num p] (replicate BLOCK_NODE_NUM (int (row_num p)), n))
      in fold (\<lambda>i space. min space (ys ! i - blk_max_y b ! i - 1)) [0..<n] (int (row_num p)))"

text \<open>The nodes of the block are set one after the other; the second result counts full rows.\<close>

definition set_nodes :: "(int \<times> int) list \<Rightarrow> SCREEN \<Rightarrow> SCREEN \<times> nat" where
  "set_nodes cs p =
     fold (\<lambda>(col, row) (p, full).
         let r = BIT_SET_NODE (scr_map p ! nat row) (nat col); p1 = p\<lparr>scr_map := (scr_map p)[nat row := r]\<rparr>
         in (p1, if r = scr_full_mask p then full + 1 else full)) cs (p, 0)"

definition clear_nodes :: "(int \<times> int) list \<Rightarrow> SCREEN \<Rightarrow> SCREEN" where
  "clear_nodes cs p =
     fold (\<lambda>(col, row) p. p\<lparr>scr_map := (scr_map p)[nat row := BIT_CLR_NODE (scr_map p ! nat row) (nat col)]\<rparr>) cs p"

definition get_score :: "SCREEN \<Rightarrow> BLOCK \<Rightarrow> int \<times> SCREEN" where
  "get_score p b =
     (let hole_num = cal_all_holes_in_scr p; space_to_bottom = min_interval_between_blk_scr p b
      in if space_to_bottom < 0 then (INT_LEAST, p)
         else
           let cs = block_coors (base_y_update (\<lambda>y. y + space_to_bottom) b);
               (p1, full_line) = set_nodes cs p;
               score = int (G_score_map ! full_line) + space_to_bottom * 2;
               height = get_height p1 - int full_line;
               score1 = (if height > DANGERIOUS_HEIGHT (row_num p1)
                         then score - (height - DANGERIOUS_HEIGHT (row_num p1)) * DANGERIOUS_MINUS else score);
               score2 = score1 - (cal_all_holes_in_scr p1 - hole_num) * HOLE_MINUS
           in (score2, clear_nodes cs p1))"

section \<open>Finding the best place\<close>

text \<open>The variables \<^verbatim>\<open>max_score\<close>, \<^verbatim>\<open>best_type\<close> and \<^verbatim>\<open>best_base_x\<close>, and the screen that is changed and restored.\<close>

record auto_search =
  as_scr :: SCREEN
  max_score :: int
  best_type :: nat
  best_base_x :: int

definition try_place :: "BLOCK \<Rightarrow> nat \<times> nat \<Rightarrow> auto_search \<Rightarrow> auto_search" where
  "try_place b tx a =
     (let (temp_score, p) = get_score (as_scr a) (b\<lparr>blk_type := fst tx, base_x := int (snd tx)\<rparr>);
          a1 = a\<lparr>as_scr := p\<rparr>
      in if max_score a1 < temp_score
         then a1\<lparr>max_score := temp_score, best_type := fst tx, best_base_x := int (snd tx)\<rparr> else a1)"

text \<open>All types of the group, each in all columns where it fits.\<close>

definition places :: "SCREEN \<Rightarrow> nat \<Rightarrow> (nat \<times> nat) list" where
  "places p t =
     (let (turn_num, first_type) = get_turn_num t
      in concat (map (\<lambda>t. map (\<lambda>x. (t, x)) [0..<nat (int (column_num p) - int (get_type_column_num t) + 1)])
                   [first_type..<first_type + turn_num]))"

definition search :: "SCREEN \<Rightarrow> BLOCK \<Rightarrow> auto_search" where
  "search p b = fold (try_place b) (places p (blk_type b))
     \<lparr>as_scr = p, max_score = INT_LEAST, best_type = blk_type b, best_base_x = base_x b\<rparr>"

text \<open>The result is the array of messages, up to its \<^verbatim>\<open>step_num\<close>, and the screen.\<close>

definition find_steps :: "SCREEN \<Rightarrow> BLOCK \<Rightarrow> TETRIS_MSG list \<times> SCREEN" where
  "find_steps p b =
     (let a = search p b;
          t = (if best_type a < blk_type b then best_type a + fst (get_turn_num (blk_type b)) else best_type a)
      in (replicate (t - blk_type b) TETRIS_MSG_TURN
          @ (if base_x b < best_base_x a then replicate (nat (best_base_x a - base_x b)) TETRIS_MSG_RIGHT
             else replicate (nat (base_x b - best_base_x a)) TETRIS_MSG_LEFT)
          @ [TETRIS_MSG_BOTTOM], as_scr a))"

text \<open>
  \<^verbatim>\<open>auto_task\<close> works on a copy of the map, which it drops, and sends the steps until the game is over.
\<close>

fun send_steps :: "TETRIS_MSG list \<Rightarrow> TETRIS_CTRL \<Rightarrow> TETRIS_CTRL" where
  "send_steps [] s = s"
| "send_steps (m # ms) s =
     (let (st, s1) = rb_send_msg m s in if st = SEND_GAME_OVER then s1 else send_steps ms s1)"

definition auto_task :: "TETRIS_CTRL \<Rightarrow> TETRIS_CTRL" where
  "auto_task s = (send_steps (fst (find_steps (scr s) (blk s))) s)\<lparr>auto_task_id := None\<rparr>"

section \<open>How far a block can fall\<close>

text \<open>The first of the rows below \<open>k\<close> that is occupied in column \<open>x\<close>.\<close>

definition first_set :: "SCREEN \<Rightarrow> nat \<Rightarrow> nat \<Rightarrow> int" where
  "first_set p k x = (case find (\<lambda>i. bit (scr_map p ! i) x) [0..<k] of None \<Rightarrow> int (row_num p) | Some i \<Rightarrow> int i)"

lemma find_snoc:
  "find P (xs @ [x]) = (case find P xs of None \<Rightarrow> if P x then Some x else None | Some y \<Rightarrow> Some y)"
  by (induction xs) auto

lemma first_set_0: "first_set p 0 x = int (row_num p)"
  by (simp add: first_set_def)

lemma first_set_Suc:
  assumes "k < row_num p"
  shows "first_set p (Suc k) x = (if first_set p k x = int (row_num p) \<and> bit (scr_map p ! k) x then int k else first_set p k x)"
proof -
  have "first_set p k x \<noteq> int (row_num p)" if "find (\<lambda>i. bit (scr_map p ! i) x) [0..<k] = Some i" for i
  proof -
    have "i < k" using that by (auto simp: find_Some_iff)
    then show ?thesis using that assms by (simp add: first_set_def)
  qed
  then show ?thesis
    by (cases "find (\<lambda>i. bit (scr_map p ! i) x) [0..<k]") (auto simp: first_set_def find_snoc)
qed

lemma first_set_bounds:
  assumes "k \<le> row_num p"
  shows "0 \<le> first_set p k x" and "first_set p k x \<le> int (row_num p)"
    and "\<And>i. i < k \<Longrightarrow> int i < first_set p k x \<Longrightarrow> \<not> bit (scr_map p ! i) x"
    and "first_set p k x < int (row_num p) \<Longrightarrow> bit (scr_map p ! nat (first_set p k x)) x"
proof -
  show "0 \<le> first_set p k x" by (simp add: first_set_def split: option.splits)
  show "first_set p k x \<le> int (row_num p)"
    using assms by (auto simp: first_set_def find_Some_iff split: option.splits)
  show "\<not> bit (scr_map p ! i) x" if "i < k" "int i < first_set p k x" for i
  proof (cases "find (\<lambda>i. bit (scr_map p ! i) x) [0..<k]")
    case None
    then show ?thesis using that by (auto simp: find_None_iff)
  next
    case (Some j)
    then have "\<forall>i<j. \<not> bit (scr_map p ! ([0..<k] ! i)) x" "j < k" by (auto simp: find_Some_iff)
    then show ?thesis using that Some by (simp add: first_set_def)
  qed
  show "bit (scr_map p ! nat (first_set p k x)) x" if "first_set p k x < int (row_num p)"
  proof (cases "find (\<lambda>i. bit (scr_map p ! i) x) [0..<k]")
    case (Some j)
    then have "bit (scr_map p ! j) x" by (auto simp: find_Some_iff)
    then show ?thesis using Some by (simp add: first_set_def)
  qed (use that in \<open>simp add: first_set_def\<close>)
qed

definition scan_inv :: "SCREEN \<Rightarrow> BLOCK \<Rightarrow> nat \<Rightarrow> nat \<Rightarrow> int list \<times> nat \<Rightarrow> bool" where
  "scan_inv p b n k st \<longleftrightarrow> length (fst st) = 4 \<and> (\<forall>j<n. fst st ! j = first_set p k (nat (base_x b + int j)))
     \<and> snd st = length (filter (\<lambda>j. fst st ! j = int (row_num p)) [0..<n])"

lemma scan_row_step:
  assumes st: "scan_inv p b n k (ys, l)" and k: "k < row_num p" and n: "n \<le> 4" "n = get_type_column_num (blk_type b)"
  shows "scan_inv p b n (Suc k) (scan_row p b k (ys, l))"
proof -
  let ?f = "\<lambda>offset (ys, left_col).
         if ys ! offset \<noteq> int (row_num p) then (ys, left_col)
         else if BIT_VAL (scr_map p ! k) (nat (base_x b + int offset)) \<noteq> 0 then (ys[offset := int k], left_col - 1)
         else (ys, left_col)"
  have "\<exists>ys' l'. fold ?f [0..<m] (ys, l) = (ys', l') \<and> length ys' = 4
      \<and> (\<forall>j<n. ys' ! j = (if j < m then first_set p (Suc k) (nat (base_x b + int j)) else ys ! j))
      \<and> l' = length (filter (\<lambda>j. ys' ! j = int (row_num p)) [0..<n])" if "m \<le> n" for m
    using that
  proof (induction m)
    case (Suc m)
    then obtain ys' l' where IH: "fold ?f [0..<m] (ys, l) = (ys', l')" "length ys' = 4"
      "\<And>j. j < n \<Longrightarrow> ys' ! j = (if j < m then first_set p (Suc k) (nat (base_x b + int j)) else ys ! j)"
      "l' = length (filter (\<lambda>j. ys' ! j = int (row_num p)) [0..<n])" by auto
    have m: "m < n" "ys' ! m = first_set p k (nat (base_x b + int m))"
      using Suc.prems IH(3) [of m] st by (auto simp: scan_inv_def)
    show ?case
    proof (cases "ys' ! m = int (row_num p) \<and> bit (scr_map p ! k) (nat (base_x b + int m))")
      case True
      have fs: "first_set p (Suc k) (nat (base_x b + int m)) = int k" using True m(2) by (simp add: first_set_Suc [OF k])
      have split: "[0..<n] = [0..<m] @ m # [Suc m..<n]"
        using m(1) by (metis le_add1 le_simps(3) upt_add_eq_append upt_conv_Cons zero_le less_imp_add_positive add_0)
      have "filter (\<lambda>j. ys'[m := int k] ! j = int (row_num p)) [0..<m] = filter (\<lambda>j. ys' ! j = int (row_num p)) [0..<m]"
        "filter (\<lambda>j. ys'[m := int k] ! j = int (row_num p)) [Suc m..<n] = filter (\<lambda>j. ys' ! j = int (row_num p)) [Suc m..<n]"
        by (auto intro!: filter_cong)
      then have "l' - 1 = length (filter (\<lambda>j. ys'[m := int k] ! j = int (row_num p)) [0..<n])"
        using True IH(2,4) k m(1) n(1) by (simp add: split)
      then show ?thesis
        using True IH m n(1) fs
        by (intro exI [of _ "ys'[m := int k]"] exI [of _ "l' - 1"]) (auto simp: BIT_VAL_bit nth_list_update less_Suc_eq)
    next
      case False
      then show ?thesis
        using IH m by (intro exI [of _ ys'] exI [of _ l']) (auto simp: BIT_VAL_bit first_set_Suc [OF k] less_Suc_eq)
    qed
  qed (use st in \<open>auto simp: scan_inv_def\<close>)
  from this [of n] show ?thesis unfolding scan_row_def n(2) [symmetric] by (auto simp: scan_inv_def)
qed

lemma scan_done:
  assumes "scan_inv p b n k (ys, 0)" and "k \<le> row_num p"
  shows "scan_inv p b n (row_num p) (ys, 0)"
proof -
  have "first_set p (row_num p) (nat (base_x b + int j)) = ys ! j" if "j < n" for j
  proof -
    let ?x = "nat (base_x b + int j)"
    have "ys ! j = first_set p k ?x" "ys ! j \<noteq> int (row_num p)"
      using assms(1) that by (auto simp: scan_inv_def filter_empty_conv)
    then have no: "first_set p k ?x \<noteq> int (row_num p)" by simp
    have "first_set p m ?x = first_set p k ?x" if "k \<le> m" "m \<le> row_num p" for m
      using that by (induction m rule: dec_induct) (use no in \<open>auto simp: first_set_Suc\<close>)
    from this [OF assms(2) le_refl] show ?thesis using \<open>ys ! j = first_set p k ?x\<close> by (simp only:)
  qed
  then show ?thesis using assms(1) by (simp add: scan_inv_def)
qed

lemma scan_rows_spec:
  assumes "scan_inv p b n k st" and "k \<le> row_num p" and "n \<le> 4" and "n = get_type_column_num (blk_type b)"
  shows "scan_inv p b n (row_num p) (scan_rows p b [k..<row_num p] st)"
  using assms(2,1)
proof (induction "row_num p - k" arbitrary: k st)
  case (Suc d)
  then have k: "k < row_num p" by simp
  have 1: "scan_inv p b n (Suc k) (scan_row p b k st)"
    using scan_row_step [OF _ k assms(3,4), of "fst st" "snd st"] Suc.prems(2) by simp
  have "scan_inv p b n (row_num p) (scan_row p b k st)" if "snd (scan_row p b k st) = 0"
    using scan_done [of p b n "Suc k" "fst (scan_row p b k st)"] 1 k that by (metis Suc_leI prod.collapse)
  moreover have "scan_inv p b n (row_num p) (scan_rows p b [Suc k..<row_num p] (scan_row p b k st))"
    using Suc.hyps(1) [OF _ _ 1] Suc.hyps(2) k by simp
  ultimately show ?case using k by (simp add: upt_conv_Cons Let_def)
qed simp

section \<open>The place where the block lands\<close>

text \<open>The lowest offset of a shape in each of its columns.\<close>

definition shape_low :: "nat \<Rightarrow> nat list" where
  "shape_low t = fold (\<lambda>(px, py) ys. ys[px := max (ys ! px) py]) (G_block_map ! t) (replicate 4 0)"

lemma shape_columns:
  assumes "t < 19"
  shows "0 < get_type_column_num t" and "get_type_column_num t \<le> 4"
    and "(px, py) \<in> set (G_block_map ! t) \<Longrightarrow> px < get_type_column_num t \<and> py \<le> shape_low t ! px"
    and "j < get_type_column_num t \<Longrightarrow> (j, shape_low t ! j) \<in> set (G_block_map ! t)"
proof -
  have all: "\<forall>t<19. 0 < get_type_column_num t \<and> get_type_column_num t \<le> 4
      \<and> (\<forall>(px, py) \<in> set (G_block_map ! t). px < get_type_column_num t \<and> py \<le> shape_low t ! px)
      \<and> (\<forall>j \<in> {0..<get_type_column_num t}. (j, shape_low t ! j) \<in> set (G_block_map ! t))"
    by code_simp
  show "0 < get_type_column_num t" "get_type_column_num t \<le> 4" using all assms by auto
  show "(px, py) \<in> set (G_block_map ! t) \<Longrightarrow> px < get_type_column_num t \<and> py \<le> shape_low t ! px"
    using all assms by fastforce
  show "j < get_type_column_num t \<Longrightarrow> (j, shape_low t ! j) \<in> set (G_block_map ! t)"
    using all assms by auto
qed

lemma blk_max_y_eq:
  assumes "blk_type b < 19" and "j < 4"
  shows "blk_max_y b ! j = base_y b + int (shape_low (blk_type b) ! j)"
proof -
  have "fold (\<lambda>(px, py) ys. ys[px := max (ys ! px) (base_y b + int py)]) ps (map (\<lambda>m. base_y b + int m) ms)
      = map (\<lambda>m. base_y b + int m) (fold (\<lambda>(px, py) ys. ys[px := max (ys ! px) py]) ps ms)
     \<and> length (fold (\<lambda>(px, py) ys. ys[px := max (ys ! px) py]) ps ms) = length ms"
    if "\<forall>q \<in> set ps. fst q < length ms" for ps ms
    using that
  proof (induction ps arbitrary: ms)
    case (Cons q ps)
    obtain px py where q: "q = (px, py)" by force
    have "(map (\<lambda>m. base_y b + int m) ms)[px := max (map (\<lambda>m. base_y b + int m) ms ! px) (base_y b + int py)]
        = map (\<lambda>m. base_y b + int m) (ms[px := max (ms ! px) py])"
      using Cons.prems by (simp add: q map_update max_def)
    then show ?case using Cons by (simp add: q)
  qed simp
  note low = this [of "G_block_map ! blk_type b" "replicate 4 0"]
  have "\<forall>q \<in> set (G_block_map ! blk_type b). fst q < 4" using shapes(3) [OF assms(1)] by fastforce
  then have "blk_max_y b = map (\<lambda>m. base_y b + int m) (shape_low (blk_type b))" "length (shape_low (blk_type b)) = 4"
    using low by (simp_all add: blk_max_y_def shape_low_def)
  then show ?thesis using assms(2) by simp
qed

definition fits :: "SCREEN \<Rightarrow> BLOCK \<Rightarrow> bool" where
  "fits p b \<longleftrightarrow> blk_type b < 19 \<and> 0 \<le> base_x b \<and> base_x b + int (get_type_column_num (blk_type b)) \<le> int (column_num p)
     \<and> 0 \<le> base_y b"

text \<open>The place of the block is exactly \<open>min_interval\<close> rows below, when that is not negative.\<close>

lemma min_interval_spec:
  assumes "fits p b"
  shows "\<And>j. j < get_type_column_num (blk_type b) \<Longrightarrow>
      min_interval_between_blk_scr p b + base_y b + int (shape_low (blk_type b) ! j) < first_set p (row_num p) (nat (base_x b + int j))"
    and "\<exists>j<get_type_column_num (blk_type b).
      min_interval_between_blk_scr p b + base_y b + int (shape_low (blk_type b) ! j) + 1 = first_set p (row_num p) (nat (base_x b + int j))"
proof -
  let ?n = "get_type_column_num (blk_type b)"
  have t: "blk_type b < 19" and y: "0 \<le> base_y b" using assms by (simp_all add: fits_def)
  note sc = shape_columns(1,2) [OF t]
  have start: "scan_inv p b ?n 0 (replicate 4 (int (row_num p)), ?n)"
    using sc(2) by (auto simp: scan_inv_def first_set_0 intro!: arg_cong [of _ _ length] filter_True [symmetric])
  from scan_rows_spec [OF this _ sc(2) refl] obtain ys l where
    scan: "scan_rows p b [0..<row_num p] (replicate 4 (int (row_num p)), ?n) = (ys, l)"
      "\<And>j. j < ?n \<Longrightarrow> ys ! j = first_set p (row_num p) (nat (base_x b + int j))"
    by (cases "scan_rows p b [0..<row_num p] (replicate 4 (int (row_num p)), ?n)") (auto simp: scan_inv_def)
  define d where "d = (\<lambda>j. first_set p (row_num p) (nat (base_x b + int j)) - (base_y b + int (shape_low (blk_type b) ! j)) - 1)"
  have dj: "ys ! j - blk_max_y b ! j - 1 = d j" if "j < ?n" for j
    using scan(2) [OF that] blk_max_y_eq [OF t, of j] that sc(2) by (simp add: d_def)
  have fold_min: "fold (\<lambda>i space. min space (f i)) xs m \<le> m \<and> (\<forall>i \<in> set xs. fold (\<lambda>i space. min space (f i)) xs m \<le> f i)
     \<and> (fold (\<lambda>i space. min space (f i)) xs m = m \<or> (\<exists>i \<in> set xs. fold (\<lambda>i space. min space (f i)) xs m = f i))"
    for f :: "nat \<Rightarrow> int" and xs m
  proof (induction xs arbitrary: m)
    case (Cons a xs)
    show ?case using Cons.IH [of "min m (f a)"] by (cases "m \<le> f a") (auto simp: min_absorb1 min_absorb2)
  qed simp
  have "min_interval_between_blk_scr p b = fold (\<lambda>i space. min space (ys ! i - blk_max_y b ! i - 1)) [0..<?n] (int (row_num p))"
    by (simp add: min_interval_between_blk_scr_def scan(1) Let_def)
  also have "\<dots> = fold (\<lambda>i space. min space (d i)) [0..<?n] (int (row_num p))"
    by (rule fold_cong) (auto simp: dj)
  finally have eq: "min_interval_between_blk_scr p b = fold (\<lambda>i space. min space (d i)) [0..<?n] (int (row_num p))" .
  note m = fold_min [where f = d and xs = "[0..<?n]" and m = "int (row_num p)", folded eq]
  have less: "d j < int (row_num p)" for j
    using first_set_bounds(2) [of "row_num p" p "nat (base_x b + int j)"] y by (simp add: d_def)
  show "min_interval_between_blk_scr p b + base_y b + int (shape_low (blk_type b) ! j) < first_set p (row_num p) (nat (base_x b + int j))"
    if "j < ?n" for j
  proof -
    have "min_interval_between_blk_scr p b \<le> d j" using m that by simp
    then show ?thesis by (simp add: d_def)
  qed
  have "min_interval_between_blk_scr p b \<le> d 0" using m sc(1) by simp
  then have "min_interval_between_blk_scr p b \<noteq> int (row_num p)" using less [of 0] by simp
  then show "\<exists>j<?n. min_interval_between_blk_scr p b + base_y b + int (shape_low (blk_type b) ! j) + 1
      = first_set p (row_num p) (nat (base_x b + int j))"
  proof -
    obtain j where "j < ?n" "min_interval_between_blk_scr p b = d j"
      using m \<open>min_interval_between_blk_scr p b \<noteq> int (row_num p)\<close> by auto
    then show ?thesis by (intro exI [of _ j]) (simp add: d_def)
  qed
qed

lemma blocked_below:
  assumes "fits p b"
  shows "blocked p (base_y_update (\<lambda>y. y + int i) b) \<longleftrightarrow>
    (\<exists>(px, py) \<in> set (G_block_map ! blk_type b).
       int (row_num p) \<le> base_y b + int i + int py \<or> bit (scr_map p ! nat (base_y b + int i + int py)) (nat (base_x b + int px)))"
proof -
  have t: "blk_type b < 19" using assms by (simp add: fits_def)
  have occ: "is_occupied p (base_x b + int px, base_y b + int i + int py) \<longleftrightarrow>
      int (row_num p) \<le> base_y b + int i + int py \<or> bit (scr_map p ! nat (base_y b + int i + int py)) (nat (base_x b + int px))"
    if "(px, py) \<in> set (G_block_map ! blk_type b)" for px py
    using shape_columns(3) [OF t that] assms by (auto simp: fits_def is_occupied_iff inside_def)
  have "blocked p (base_y_update (\<lambda>y. y + int i) b) \<longleftrightarrow>
      (\<exists>(px, py) \<in> set (G_block_map ! blk_type b). is_occupied p (base_x b + int px, base_y b + int i + int py))"
    by (simp add: blocked_iff block_coors_def split_beta)
  then show ?thesis using occ by (auto simp: split_beta)
qed

lemma lands:
  assumes f: "fits p b" and s: "min_interval_between_blk_scr p b = int k"
  shows "\<And>i. i \<le> k \<Longrightarrow> \<not> blocked p (base_y_update (\<lambda>y. y + int i) b)"
    and "blocked p (base_y_update (\<lambda>y. y + int (Suc k)) b)"
    and "drop_block p b = Some (base_y_update (\<lambda>y. y + int k) b)"
proof -
  have t: "blk_type b < 19" and y: "0 \<le> base_y b" and x: "0 \<le> base_x b" using f by (simp_all add: fits_def)
  show free: "\<not> blocked p (base_y_update (\<lambda>y. y + int i) b)" if i: "i \<le> k" for i
  proof
    assume "blocked p (base_y_update (\<lambda>y. y + int i) b)"
    then obtain px py where q: "(px, py) \<in> set (G_block_map ! blk_type b)"
      "int (row_num p) \<le> base_y b + int i + int py \<or> bit (scr_map p ! nat (base_y b + int i + int py)) (nat (base_x b + int px))"
      unfolding blocked_below [OF f] by auto
    note c = shape_columns(3) [OF t q(1)]
    have "base_y b + int i + int py < first_set p (row_num p) (nat (base_x b + int px))"
      using min_interval_spec(1) [OF f, of px] c s i by simp
    then show False
      using q(2) y first_set_bounds(2) [of "row_num p" p "nat (base_x b + int px)"]
        first_set_bounds(3) [of "row_num p" p "nat (base_y b + int i + int py)" "nat (base_x b + int px)"] by auto
  qed
  show blocked: "blocked p (base_y_update (\<lambda>y. y + int (Suc k)) b)"
  proof -
    from min_interval_spec(2) [OF f] obtain j where j: "j < get_type_column_num (blk_type b)"
      "base_y b + int (Suc k) + int (shape_low (blk_type b) ! j) = first_set p (row_num p) (nat (base_x b + int j))"
      unfolding s by (auto simp: algebra_simps)
    have "int (row_num p) \<le> base_y b + int (Suc k) + int (shape_low (blk_type b) ! j)
       \<or> bit (scr_map p ! nat (base_y b + int (Suc k) + int (shape_low (blk_type b) ! j))) (nat (base_x b + int j))"
      unfolding j(2) using first_set_bounds(4) [of "row_num p" p "nat (base_x b + int j)"] by linarith
    then show ?thesis unfolding blocked_below [OF f] using shape_columns(4) [OF t j(1)] by blast
  qed
  from drop_block_spec [OF t, of p] obtain k' where k': "drop_block p b = Some (base_y_update (\<lambda>y. y + int k') b)"
    "blocked p (base_y_update (\<lambda>y. y + int (Suc k')) b)"
    "\<And>i. 0 < i \<Longrightarrow> i \<le> k' \<Longrightarrow> \<not> blocked p (base_y_update (\<lambda>y. y + int i) b)" by blast
  have "k' = k"
  proof (rule antisym)
    show "k' \<le> k" using k'(3) [of "Suc k"] blocked by (metis not_less_eq_eq zero_less_Suc)
    show "k \<le> k'" using free [of "Suc k'"] k'(2) by (metis not_less_eq_eq)
  qed
  then show "drop_block p b = Some (base_y_update (\<lambda>y. y + int k) b)" using k'(1) by simp
qed

section \<open>Rating leaves the screen alone\<close>

lemma bit_CLR_NODE: "bit (BIT_CLR_NODE v x) i \<longleftrightarrow> bit v i \<and> i \<noteq> x"
  by (auto simp: BIT_CLR_NODE_def bit_and_iff bit_not_iff bit_exp_iff possible_bit_def dest: bit_imp_le_length)

lemma set_clear_nodes:
  assumes cs: "nodes_in p cs" and n: "column_num p \<le> 32" and len: "length (scr_map p) = row_num p"
  shows "clear_nodes cs (fst (set_nodes cs p)) = p"
proof -
  have set: "\<exists>R k'. fold (\<lambda>(col, row) (p, full).
         let r = BIT_SET_NODE (scr_map p ! nat row) (nat col); p1 = p\<lparr>scr_map := (scr_map p)[nat row := r]\<rparr>
         in (p1, if r = scr_full_mask p then full + 1 else full)) ds (q, k) = (q\<lparr>scr_map := R\<rparr>, k') \<and> length R = row_num p
       \<and> (\<forall>y<row_num p. \<forall>x. bit (R ! y) x \<longleftrightarrow> bit (scr_map q ! y) x \<or> (int x, int y) \<in> set ds)"
    if "\<forall>d \<in> set ds. inside p d" "length (scr_map q) = row_num p" for ds q and k :: nat
    using that
  proof (induction ds arbitrary: q k)
    case (Cons d ds)
    then obtain x y where d: "d = (int x, int y)" "x < column_num p" "y < row_num p" using inside_cases by (metis list.set_intros(1))
    let ?R = "(scr_map q)[y := BIT_SET_NODE (scr_map q ! y) x]"
    let ?k = "if BIT_SET_NODE (scr_map q ! y) x = scr_full_mask q then k + 1 else k"
    from Cons.IH [of "q\<lparr>scr_map := ?R\<rparr>" ?k] Cons.prems obtain R k' where R: "fold (\<lambda>(col, row) (p, full).
         let r = BIT_SET_NODE (scr_map p ! nat row) (nat col); p1 = p\<lparr>scr_map := (scr_map p)[nat row := r]\<rparr>
         in (p1, if r = scr_full_mask p then full + 1 else full)) ds (q\<lparr>scr_map := ?R\<rparr>, ?k) = (q\<lparr>scr_map := R\<rparr>, k')"
      "length R = row_num p" "\<And>y x. y < row_num p \<Longrightarrow> bit (R ! y) x \<longleftrightarrow> bit (?R ! y) x \<or> (int x, int y) \<in> set ds" by auto
    then show ?case
      using n d Cons.prems(2) by (intro exI [of _ R] exI [of _ k']) (auto simp: Let_def nth_list_update bit_SET_NODE)
  next
    case Nil
    then show ?case by (intro exI [of _ "scr_map q"] exI [of _ k]) simp
  qed
  have clear: "\<exists>R. clear_nodes ds q = q\<lparr>scr_map := R\<rparr> \<and> length R = row_num p
       \<and> (\<forall>y<row_num p. \<forall>x. bit (R ! y) x \<longleftrightarrow> bit (scr_map q ! y) x \<and> (int x, int y) \<notin> set ds)"
    if "\<forall>d \<in> set ds. inside p d" "length (scr_map q) = row_num p" for ds q
    using that
  proof (induction ds arbitrary: q)
    case (Cons d ds)
    then obtain x y where d: "d = (int x, int y)" "x < column_num p" "y < row_num p" using inside_cases by (metis list.set_intros(1))
    let ?R = "(scr_map q)[y := BIT_CLR_NODE (scr_map q ! y) x]"
    from Cons.IH [of "q\<lparr>scr_map := ?R\<rparr>"] Cons.prems obtain R where R: "clear_nodes ds (q\<lparr>scr_map := ?R\<rparr>) = q\<lparr>scr_map := R\<rparr>"
      "length R = row_num p" "\<And>y x. y < row_num p \<Longrightarrow> bit (R ! y) x \<longleftrightarrow> bit (?R ! y) x \<and> (int x, int y) \<notin> set ds" by auto
    then show ?case
      using d Cons.prems(2) by (intro exI [of _ R]) (auto simp: clear_nodes_def nth_list_update bit_CLR_NODE)
  next
    case Nil
    then show ?case by (intro exI [of _ "scr_map q"]) (simp add: clear_nodes_def)
  qed
  have ins: "\<forall>d \<in> set cs. inside p d" using cs by (auto simp: nodes_in_def)
  from set [OF ins len, of 0] obtain R k' where R: "set_nodes cs p = (p\<lparr>scr_map := R\<rparr>, k')" "length R = row_num p"
    "\<And>y x. y < row_num p \<Longrightarrow> bit (R ! y) x \<longleftrightarrow> bit (scr_map p ! y) x \<or> (int x, int y) \<in> set cs"
    by (auto simp: set_nodes_def)
  from clear [OF ins, of "p\<lparr>scr_map := R\<rparr>"] R(2) obtain R' where R': "clear_nodes cs (p\<lparr>scr_map := R\<rparr>) = p\<lparr>scr_map := R'\<rparr>"
    "length R' = row_num p" "\<And>y x. y < row_num p \<Longrightarrow> bit (R' ! y) x \<longleftrightarrow> bit (R ! y) x \<and> (int x, int y) \<notin> set cs"
    by auto
  have "R' = scr_map p"
  proof (rule nth_equalityI)
    fix y
    assume "y < length R'"
    then have y: "y < row_num p" using R'(2) by simp
    have "\<not> bit (scr_map p ! y) x" if "(int x, int y) \<in> set cs" for x using cs that by (auto simp: nodes_in_def)
    then show "R' ! y = scr_map p ! y" by (intro bit_eqI) (auto simp: R'(3) [OF y] R(3) [OF y])
  qed (use R'(2) len in simp)
  then show ?thesis using R(1) R'(1) by simp
qed

lemma get_score_restores:
  assumes f: "fits p b" and n: "column_num p \<le> 32" and len: "length (scr_map p) = row_num p"
  shows "snd (get_score p b) = p"
proof (cases "min_interval_between_blk_scr p b < 0")
  case False
  let ?m = "min_interval_between_blk_scr p b"
  have m: "?m = int (nat ?m)" using False by simp
  have "\<not> blocked p (base_y_update (\<lambda>y. y + ?m) b)" using lands(1) [OF f m le_refl] False by simp
  then have "nodes_in p (block_coors (base_y_update (\<lambda>y. y + ?m) b))"
    using free_nodes_in [of p "base_y_update (\<lambda>y. y + ?m) b"] f False by (simp add: fits_def)
  from set_clear_nodes [OF this n len] show ?thesis
    using False by (simp add: get_score_def Let_def split_beta)
qed (simp add: get_score_def)

section \<open>The search\<close>

definition place_score :: "SCREEN \<Rightarrow> BLOCK \<Rightarrow> nat \<times> nat \<Rightarrow> int" where
  "place_score p b tx = fst (get_score p (b\<lparr>blk_type := fst tx, base_x := int (snd tx)\<rparr>))"

text \<open>The types of a group, and how many turns lead from one to another.\<close>

definition turns :: "nat \<Rightarrow> nat \<Rightarrow> nat" where
  "turns t t' = (if t' < t then t' + fst (get_turn_num t) else t') - t"

lemma group:
  assumes "t < 19" and "snd (get_turn_num t) \<le> t'" and "t' < snd (get_turn_num t) + fst (get_turn_num t)"
  shows "t' < 19" and "turns t t' \<le> 3" and "(turned ^^ turns t t') t = t'"
    and "\<And>j. j < turns t t' \<Longrightarrow> (turned ^^ j) t \<noteq> 0"
proof -
  have "list_all (\<lambda>t. list_all (\<lambda>t'. t' < 19 \<and> turns t t' \<le> 3 \<and> (turned ^^ turns t t') t = t'
     \<and> list_all (\<lambda>j. (turned ^^ j) t \<noteq> 0) [0..<turns t t']) [snd (get_turn_num t)..<snd (get_turn_num t) + fst (get_turn_num t)]) [0..<19]"
    by (simp add: upt_rec get_turn_num_def turns_def turned_def numeral_2_eq_2 numeral_3_eq_3)
  then have "list_all (\<lambda>t'. t' < 19 \<and> turns t t' \<le> 3 \<and> (turned ^^ turns t t') t = t'
     \<and> list_all (\<lambda>j. (turned ^^ j) t \<noteq> 0) [0..<turns t t']) [snd (get_turn_num t)..<snd (get_turn_num t) + fst (get_turn_num t)]"
    using assms(1) unfolding list_all_iff by (metis atLeastLessThan_iff set_upt zero_le)
  then have one: "t' < 19 \<and> turns t t' \<le> 3 \<and> (turned ^^ turns t t') t = t' \<and> list_all (\<lambda>j. (turned ^^ j) t \<noteq> 0) [0..<turns t t']"
    using assms(2,3) unfolding list_all_iff by (metis atLeastLessThan_iff set_upt)
  then show "t' < 19" "turns t t' \<le> 3" "(turned ^^ turns t t') t = t'" by simp_all
  show "(turned ^^ j) t \<noteq> 0" if "j < turns t t'" for j
    using one that by (simp add: list_all_iff)
qed

lemma own_group: "t < 19 \<Longrightarrow> snd (get_turn_num t) \<le> t \<and> t < snd (get_turn_num t) + fst (get_turn_num t)"
proof -
  have "\<forall>t<19. snd (get_turn_num t) \<le> t \<and> t < snd (get_turn_num t) + fst (get_turn_num t)" by code_simp
  then show "t < 19 \<Longrightarrow> ?thesis" by simp
qed

lemma in_places:
  "tx \<in> set (places p t) \<longleftrightarrow> snd (get_turn_num t) \<le> fst tx \<and> fst tx < snd (get_turn_num t) + fst (get_turn_num t)
     \<and> snd tx + get_type_column_num (fst tx) \<le> column_num p"
  by (cases tx) (auto simp: places_def split_beta zless_nat_eq_int_zless image_iff)

lemma place_fits:
  assumes "blk_type b < 19" and "0 \<le> base_y b" and "tx \<in> set (places p (blk_type b))"
  shows "fits p (b\<lparr>blk_type := fst tx, base_x := int (snd tx)\<rparr>)"
  using assms(3) group(1) [OF assms(1)] assms(2) unfolding in_places by (auto simp: fits_def)

lemma try_places:
  assumes "\<And>tx. tx \<in> set xs \<Longrightarrow> snd (get_score p (b\<lparr>blk_type := fst tx, base_x := int (snd tx)\<rparr>)) = p" and "as_scr a = p"
  shows "\<exists>a'. fold (try_place b) xs a = a' \<and> as_scr a' = p \<and> max_score a \<le> max_score a'
     \<and> (\<forall>tx \<in> set xs. place_score p b tx \<le> max_score a')
     \<and> (a' = a \<or> (\<exists>tx \<in> set xs. max_score a' = place_score p b tx \<and> best_type a' = fst tx \<and> best_base_x a' = int (snd tx)))"
  using assms
proof (induction xs arbitrary: a)
  case (Cons tx xs)
  let ?a = "try_place b tx a"
  have gs: "get_score p (b\<lparr>blk_type := fst tx, base_x := int (snd tx)\<rparr>) = (place_score p b tx, p)"
    using Cons.prems(1) [of tx] by (simp add: place_score_def prod_eq_iff)
  have a1: "?a = (if max_score a < place_score p b tx
      then a\<lparr>max_score := place_score p b tx, best_type := fst tx, best_base_x := int (snd tx)\<rparr> else a)"
    using Cons.prems(2) by (auto simp: try_place_def gs Let_def)
  from Cons.IH [of ?a] Cons.prems a1 obtain a' where a': "fold (try_place b) xs ?a = a'" "as_scr a' = p" "max_score ?a \<le> max_score a'"
     "\<forall>tx \<in> set xs. place_score p b tx \<le> max_score a'"
     "a' = ?a \<or> (\<exists>tx \<in> set xs. max_score a' = place_score p b tx \<and> best_type a' = fst tx \<and> best_base_x a' = int (snd tx))"
    by auto
  have "max_score a \<le> max_score ?a" "place_score p b tx \<le> max_score ?a" by (simp_all add: a1)
  moreover have "?a = a \<or> max_score ?a = place_score p b tx \<and> best_type ?a = fst tx \<and> best_base_x ?a = int (snd tx)"
    by (simp add: a1)
  ultimately show ?case using a' by (intro exI [of _ a']) auto
qed simp

lemma search_spec:
  assumes t: "blk_type b < 19" and y: "0 \<le> base_y b" and n: "column_num p \<le> 32" and len: "length (scr_map p) = row_num p"
  shows "as_scr (search p b) = p"
    and "\<And>tx. tx \<in> set (places p (blk_type b)) \<Longrightarrow> place_score p b tx \<le> max_score (search p b)"
    and "(best_type (search p b) = blk_type b \<and> best_base_x (search p b) = base_x b \<and> max_score (search p b) = INT_LEAST)
      \<or> (\<exists>tx \<in> set (places p (blk_type b)). max_score (search p b) = place_score p b tx
           \<and> best_type (search p b) = fst tx \<and> best_base_x (search p b) = int (snd tx))"
proof -
  have "snd (get_score p (b\<lparr>blk_type := fst tx, base_x := int (snd tx)\<rparr>)) = p" if "tx \<in> set (places p (blk_type b))" for tx
    using get_score_restores [OF place_fits [OF t y that] n len] .
  from try_places [OF this, of "places p (blk_type b)" "\<lparr>as_scr = p, max_score = INT_LEAST, best_type = blk_type b, best_base_x = base_x b\<rparr>"]
  obtain a' where a': "search p b = a'" "as_scr a' = p" "\<forall>tx \<in> set (places p (blk_type b)). place_score p b tx \<le> max_score a'"
     "a' = \<lparr>as_scr = p, max_score = INT_LEAST, best_type = blk_type b, best_base_x = base_x b\<rparr>
      \<or> (\<exists>tx \<in> set (places p (blk_type b)). max_score a' = place_score p b tx \<and> best_type a' = fst tx \<and> best_base_x a' = int (snd tx))"
    by (auto simp: search_def)
  show "as_scr (search p b) = p" using a' by simp
  show "tx \<in> set (places p (blk_type b)) \<Longrightarrow> place_score p b tx \<le> max_score (search p b)" for tx using a' by simp
  show "(best_type (search p b) = blk_type b \<and> best_base_x (search p b) = base_x b \<and> max_score (search p b) = INT_LEAST)
      \<or> (\<exists>tx \<in> set (places p (blk_type b)). max_score (search p b) = place_score p b tx
           \<and> best_type (search p b) = fst tx \<and> best_base_x (search p b) = int (snd tx))"
    unfolding a'(1) using a'(4) by (elim disjE) (simp, rule disjI2, assumption)
qed

lemma best_in_group:
  assumes "blk_type b < 19" and "0 \<le> base_y b" and "column_num p \<le> 32" and "length (scr_map p) = row_num p"
  shows "snd (get_turn_num (blk_type b)) \<le> best_type (search p b)
    \<and> best_type (search p b) < snd (get_turn_num (blk_type b)) + fst (get_turn_num (blk_type b))"
  using search_spec(3) [OF assms] own_group [OF assms(1)] by (auto simp: in_places)

text \<open>The steps, with the number of turns named.\<close>

lemma find_steps_eq:
  "fst (find_steps p b) = replicate (turns (blk_type b) (best_type (search p b))) TETRIS_MSG_TURN
     @ (if base_x b < best_base_x (search p b) then replicate (nat (best_base_x (search p b) - base_x b)) TETRIS_MSG_RIGHT
        else replicate (nat (base_x b - best_base_x (search p b))) TETRIS_MSG_LEFT) @ [TETRIS_MSG_BOTTOM]"
  by (simp add: find_steps_def Let_def turns_def)

lemma redraw_sel [simp]: "blk (redraw f s) = f (blk s)" "scr (redraw f s) = scr s"
  by (subst redraw_eq, simp)+

section \<open>The steps lead to the best place\<close>

definition open_rows :: "SCREEN \<Rightarrow> int \<Rightarrow> bool" where
  "open_rows p y \<longleftrightarrow> 0 \<le> y \<and> y + 4 \<le> int (row_num p) \<and> (\<forall>i. y \<le> int i \<and> int i < y + 4 \<longrightarrow> scr_map p ! i = 0)"

lemma open_free:
  assumes "open_rows p (base_y b)" and "blk_type b < 19" and "0 \<le> base_x b"
    and "base_x b + int (get_type_column_num (blk_type b)) \<le> int (column_num p)"
  shows "\<not> blocked p b"
proof -
  have "\<not> is_occupied p (base_x b + int px, base_y b + int py)" if q: "(px, py) \<in> set (G_block_map ! blk_type b)" for px py
  proof -
    have "py \<le> 3" "px < get_type_column_num (blk_type b)" using shapes(3) [OF assms(2) q] shape_columns(3) [OF assms(2) q] by auto
    moreover have "scr_map p ! nat (base_y b + int py) = 0" using assms(1) \<open>py \<le> 3\<close> by (simp add: open_rows_def)
    ultimately show ?thesis using assms by (simp add: is_occupied_iff inside_def open_rows_def)
  qed
  then show ?thesis by (auto simp: blocked_iff block_coors_def)
qed

lemma narrow: "t < 19 \<Longrightarrow> x + 4 \<le> int n \<Longrightarrow> x + int (get_type_column_num t) \<le> int n"
  using shape_columns(2) [of t] by simp

lemma do_turns:
  assumes "open_rows (scr s) (base_y (blk s))" and "0 \<le> base_x (blk s)" and "base_x (blk s) + 4 \<le> int (column_num (scr s))"
    and "blk_type (blk s) < 19" and "\<And>j. j < d \<Longrightarrow> (turned ^^ j) (blk_type (blk s)) \<noteq> 0"
  shows "\<exists>l. job_task tid (replicate d TETRIS_MSG_TURN @ ms) (False, s)
    = job_task tid ms (False, s\<lparr>shown := l, blk := blk_type_update (turned ^^ d) (blk s)\<rparr>)"
  using assms
proof (induction d arbitrary: s)
  case 0
  have same: "blk_type_update (\<lambda>t. t) b = b" for b :: BLOCK by (cases b) simp
  show ?case by (intro exI [of _ "shown s"]) (simp add: same)
next
  case (Suc d)
  let ?t = "blk_type (blk s)" and ?s = "redraw (blk_type_update turned) s"
  have t0: "?t \<noteq> 0" using Suc.prems(5) [of 0] by simp
  have t1: "turned ?t < 19" by (rule turned_less [OF Suc.prems(4) t0])
  have "\<not> blocked (scr s) (blk_type_update turned (blk s))"
    by (rule open_free) (use Suc.prems t1 narrow [OF t1] in auto)
  then have go: "job_task tid (replicate (Suc d) TETRIS_MSG_TURN @ ms) (False, s) = job_task tid (replicate d TETRIS_MSG_TURN @ ms) (False, ?s)"
    using t0 by (simp add: job_turn_def turn_def)
  have s1: "?s = s\<lparr>shown := shown ?s, blk := blk_type_update turned (blk s)\<rparr>" by (subst redraw_eq) simp
  have "(turned ^^ j) (turned ?t) \<noteq> 0" if "j < d" for j
    using Suc.prems(5) [of "Suc j"] that by (simp add: funpow_swap1)
  then have "\<exists>l. job_task tid (replicate d TETRIS_MSG_TURN @ ms) (False, ?s)
      = job_task tid ms (False, ?s\<lparr>shown := l, blk := blk_type_update (turned ^^ d) (blk ?s)\<rparr>)"
    by (intro Suc.IH) (use Suc.prems t1 in \<open>subst s1, simp\<close>)+
  then obtain l where l: "job_task tid (replicate d TETRIS_MSG_TURN @ ms) (False, ?s)
      = job_task tid ms (False, ?s\<lparr>shown := l, blk := blk_type_update (turned ^^ d) (blk ?s)\<rparr>)" ..
  have "?s\<lparr>shown := l, blk := blk_type_update (turned ^^ d) (blk ?s)\<rparr>
      = s\<lparr>shown := l, blk := blk_type_update (turned ^^ Suc d) (blk s)\<rparr>"
    by (subst s1, subst (2) s1) (simp add: funpow_Suc_right del: funpow.simps)
  then show ?case using go l by metis
qed

lemma do_moves:
  assumes "open_rows (scr s) (base_y (blk s))" and "blk_type (blk s) < 19" and "0 \<le> base_x (blk s)" "0 \<le> x"
    and "base_x (blk s) + int (get_type_column_num (blk_type (blk s))) \<le> int (column_num (scr s))"
    and "x + int (get_type_column_num (blk_type (blk s))) \<le> int (column_num (scr s))"
  shows "\<exists>l. job_task tid ((if base_x (blk s) < x then replicate (nat (x - base_x (blk s))) TETRIS_MSG_RIGHT
      else replicate (nat (base_x (blk s) - x)) TETRIS_MSG_LEFT) @ ms) (False, s)
    = job_task tid ms (False, s\<lparr>shown := l, blk := base_x_update (\<lambda>_. x) (blk s)\<rparr>)"
  using assms
proof (induction "nat \<bar>x - base_x (blk s)\<bar>" arbitrary: s)
  case 0
  then have "base_x (blk s) = x" by simp
  then have same: "base_x_update (\<lambda>_. x) (blk s) = blk s" by (cases "blk s") simp
  show ?case using \<open>base_x (blk s) = x\<close> unfolding same by (intro exI [of _ "shown s"]) simp
next
  case (Suc d)
  define e where "e = (if base_x (blk s) < x then 1 else -1 :: int)"
  let ?m = "if base_x (blk s) < x then TETRIS_MSG_RIGHT else TETRIS_MSG_LEFT"
  let ?s = "redraw (base_x_update (\<lambda>x. x + e)) s"
  let ?rest = "\<lambda>s. (if base_x (blk s) < x then replicate (nat (x - base_x (blk s))) TETRIS_MSG_RIGHT
      else replicate (nat (base_x (blk s) - x)) TETRIS_MSG_LEFT) @ ms"
  have ne: "base_x (blk s) \<noteq> x" using Suc.hyps(2) by auto
  have d: "d = nat \<bar>x - (base_x (blk s) + e)\<bar>" using Suc.hyps(2) by (auto simp: e_def)
  have s1: "?s = s\<lparr>shown := shown ?s, blk := base_x_update (\<lambda>x. x + e) (blk s)\<rparr>" by (subst redraw_eq) simp
  have free: "\<not> blocked (scr s) (base_x_update (\<lambda>x. x + e) (blk s))"
    by (rule open_free) (use Suc.prems ne in \<open>auto simp: e_def\<close>)
  have "?rest s = ?m # ?rest ?s"
  proof (cases "base_x (blk s) < x")
    case True
    have "nat (x - base_x (blk s)) = Suc (nat (x - (base_x (blk s) + 1)))" using True by simp
    then show ?thesis using True by (cases "base_x (blk s) + 1 = x") (auto simp: e_def)
  next
    case False
    have "nat (base_x (blk s) - x) = Suc (nat (base_x (blk s) - 1 - x))" using False ne by simp
    then show ?thesis using False ne by (auto simp: e_def algebra_simps)
  qed
  moreover have "job_turn tid ?m (False, s) = Some (False, False, ?s)"
    using free by (cases "base_x (blk s) < x") (simp_all add: job_turn_def left_def right_def e_def)
  ultimately have go: "job_task tid (?rest s) (False, s) = job_task tid (?rest ?s) (False, ?s)" by simp
  have "\<exists>l. job_task tid (?rest ?s) (False, ?s) = job_task tid ms (False, ?s\<lparr>shown := l, blk := base_x_update (\<lambda>_. x) (blk ?s)\<rparr>)"
    by (rule Suc.hyps(1); (subst s1)?) (use Suc.prems ne d in \<open>auto simp: e_def\<close>)
  then obtain l where l: "job_task tid (?rest ?s) (False, ?s)
      = job_task tid ms (False, ?s\<lparr>shown := l, blk := base_x_update (\<lambda>_. x) (blk ?s)\<rparr>)" ..
  have "?s\<lparr>shown := l, blk := base_x_update (\<lambda>_. x) (blk ?s)\<rparr> = s\<lparr>shown := l, blk := base_x_update (\<lambda>_. x) (blk s)\<rparr>"
    by (subst s1, subst (2) s1) simp
  then show ?case using go l by metis
qed

section \<open>Properties\<close>

lemma best_in_screen:
  assumes "blk_type (blk s) < 19" and "0 \<le> base_y (blk s)" and "column_num (scr s) \<le> 32" and "length (scr_map (scr s)) = row_num (scr s)"
    and "0 \<le> base_x (blk s)" and "base_x (blk s) + 4 \<le> int (column_num (scr s))"
  shows "0 \<le> best_base_x (search (scr s) (blk s))"
    and "best_base_x (search (scr s) (blk s)) + int (get_type_column_num (best_type (search (scr s) (blk s)))) \<le> int (column_num (scr s))"
proof -
  note sp = search_spec(3) [OF assms(1-4)]
  show "0 \<le> best_base_x (search (scr s) (blk s))" using sp assms(5) by auto
  show "best_base_x (search (scr s) (blk s)) + int (get_type_column_num (best_type (search (scr s) (blk s)))) \<le> int (column_num (scr s))"
    using sp narrow [OF assms(1,6)] by (auto simp: in_places)
qed

lemma steps_run:
  assumes ok: "sizes_ok s" "blk_type (blk s) < 19" and op: "open_rows (scr s) (base_y (blk s))"
    and x: "0 \<le> base_x (blk s)" "base_x (blk s) + 4 \<le> int (column_num (scr s))"
  shows "\<exists>l. job_task tid (butlast (fst (find_steps (scr s) (blk s)))) (False, s)
    = Some (False, False, s\<lparr>shown := l, blk := (blk s)\<lparr>base_x := best_base_x (search (scr s) (blk s)),
         blk_type := best_type (search (scr s) (blk s))\<rparr>\<rparr>)"
proof -
  let ?a = "search (scr s) (blk s)"
  let ?moves = "if base_x (blk s) < best_base_x ?a then replicate (nat (best_base_x ?a - base_x (blk s))) TETRIS_MSG_RIGHT
        else replicate (nat (base_x (blk s) - best_base_x ?a)) TETRIS_MSG_LEFT"
  have pre: "0 \<le> base_y (blk s)" "column_num (scr s) \<le> 32" "length (scr_map (scr s)) = row_num (scr s)"
    using op ok(1) by (simp_all add: open_rows_def sizes_ok_def)
  note best = best_in_group [OF ok(2) pre]
  note g = group [OF ok(2) conjunct1 [OF best] conjunct2 [OF best]]
  note bs = best_in_screen [OF ok(2) pre x]
  have steps: "butlast (fst (find_steps (scr s) (blk s))) = replicate (turns (blk_type (blk s)) (best_type ?a)) TETRIS_MSG_TURN @ ?moves @ []"
    unfolding find_steps_eq by (simp add: butlast_append)
  have "\<exists>l. job_task tid (butlast (fst (find_steps (scr s) (blk s)))) (False, s)
      = job_task tid (?moves @ []) (False, s\<lparr>shown := l, blk := blk_type_update (turned ^^ turns (blk_type (blk s)) (best_type ?a)) (blk s)\<rparr>)"
    unfolding steps by (rule do_turns [OF op x ok(2) g(4)])
  then obtain l where l: "job_task tid (butlast (fst (find_steps (scr s) (blk s)))) (False, s)
      = job_task tid (?moves @ []) (False, s\<lparr>shown := l, blk := blk_type_update (turned ^^ turns (blk_type (blk s)) (best_type ?a)) (blk s)\<rparr>)" ..
  define s1 where "s1 = s\<lparr>shown := l, blk := (blk s)\<lparr>blk_type := best_type ?a\<rparr>\<rparr>"
  have s1: "s\<lparr>shown := l, blk := blk_type_update (turned ^^ turns (blk_type (blk s)) (best_type ?a)) (blk s)\<rparr> = s1"
    using g(3) by (cases "blk s") (simp add: s1_def)
  have b1: "base_x (blk s1) = base_x (blk s)" "blk_type (blk s1) = best_type ?a" "scr s1 = scr s" "base_y (blk s1) = base_y (blk s)"
    by (simp_all add: s1_def)
  have "\<exists>l. job_task tid ((if base_x (blk s1) < best_base_x ?a then replicate (nat (best_base_x ?a - base_x (blk s1))) TETRIS_MSG_RIGHT
      else replicate (nat (base_x (blk s1) - best_base_x ?a)) TETRIS_MSG_LEFT) @ []) (False, s1)
    = job_task tid [] (False, s1\<lparr>shown := l, blk := base_x_update (\<lambda>_. best_base_x ?a) (blk s1)\<rparr>)"
    by (rule do_moves) (use b1 op g(1) x narrow [OF g(1) x(2)] bs in auto)
  then obtain l' where "job_task tid (?moves @ []) (False, s1)
    = Some (False, False, s1\<lparr>shown := l', blk := base_x_update (\<lambda>_. best_base_x ?a) (blk s1)\<rparr>)"
    unfolding b1 by auto
  then show ?thesis using l unfolding s1 by (intro exI [of _ l']) (simp add: s1_def)
qed

text \<open>Above free rows there is nothing, so that a block in them can fall.\<close>

lemma open_falls:
  assumes ok: "game_ok s" and op: "open_rows (scr s) (base_y b)" and f: "fits (scr s) b"
  shows "0 \<le> min_interval_between_blk_scr (scr s) b"
proof -
  from min_interval_spec(2) [OF f] obtain j where j: "j < get_type_column_num (blk_type b)"
    "min_interval_between_blk_scr (scr s) b + base_y b + int (shape_low (blk_type b) ! j) + 1
      = first_set (scr s) (row_num (scr s)) (nat (base_x b + int j))" by blast
  define i where "i = nat (first_set (scr s) (row_num (scr s)) (nat (base_x b + int j)))"
  have i: "int i = first_set (scr s) (row_num (scr s)) (nat (base_x b + int j))"
    using first_set_bounds(1) [of "row_num (scr s)" "scr s"] by (simp add: i_def)
  have y: "0 \<le> base_y b" "base_y b + 4 \<le> int (row_num (scr s))" "\<And>i. base_y b \<le> int i \<Longrightarrow> int i < base_y b + 4 \<Longrightarrow> scr_map (scr s) ! i = 0"
    using op by (simp_all add: open_rows_def)
  have "base_y b + 4 \<le> int i"
  proof (rule ccontr)
    assume less: "\<not> base_y b + 4 \<le> int i"
    have "bit (scr_map (scr s) ! i) (nat (base_x b + int j))"
      using first_set_bounds(4) [of "row_num (scr s)" "scr s" "nat (base_x b + int j)"] less y(2) i by (simp add: i_def)
    moreover have "scr_map (scr s) ! i = 0"
    proof (cases "base_y b \<le> int i")
      case False
      have "scr_map (scr s) ! nat (base_y b) = 0" using y(1) y(3) [of "nat (base_y b)"] by simp
      moreover have "i < nat (base_y b)" "nat (base_y b) < row_num (scr s)" using False y(1,2) by auto
      ultimately show ?thesis using ok unfolding game_ok_def rows_ok_def settled_rows by blast
    qed (use y(3) less in simp)
    ultimately show False by simp
  qed
  moreover have "shape_low (blk_type b) ! j \<le> 3"
    using shapes(3) [OF _ shape_columns(4) [OF _ j(1)]] f by (simp add: fits_def)
  ultimately show ?thesis using j(2) i by simp
qed

definition auto_demo :: TETRIS_CTRL where
  "auto_demo = rb_init 10 20 7"

lemma auto_demo_sel:
  "scr auto_demo = \<lparr>scr_map = replicate 20 0, column_num = 10, row_num = 20\<rparr>"
  "base_x (blk auto_demo) = 4" "base_y (blk auto_demo) = 0"
  by (simp_all add: auto_demo_def rb_init_def show_score_def show_node_def new_block_def update_block_eq Let_def split_beta)

lemma auto_demo_ok: "game_ok auto_demo" "open_rows (scr auto_demo) (base_y (blk auto_demo))"
proof -
  show "game_ok auto_demo" unfolding auto_demo_def by (rule rb_init_ok) simp
  show "open_rows (scr auto_demo) (base_y (blk auto_demo))" by (simp add: auto_demo_sel open_rows_def)
qed

text \<open>C39: The search of the automatic player returns the screen as it was, although it tries every place in it,
  its place has the highest rating of all places of all turns of the block, or it stays where it is
  if none can be rated, and the steps fit into their array.\<close>

theorem find_steps_best:
  assumes "game_ok s" and "-1 \<le> base_x (blk s)" and "base_x (blk s) < int (column_num (scr s))"
  shows "snd (find_steps (scr s) (blk s)) = scr s
    \<and> length (fst (find_steps (scr s) (blk s))) \<le> AUTO_MSG_MAX
    \<and> (\<forall>tx \<in> set (places (scr s) (blk_type (blk s))).
         place_score (scr s) (blk s) tx \<le> max_score (search (scr s) (blk s)))
    \<and> (max_score (search (scr s) (blk s)) = INT_LEAST
       \<or> (\<exists>(t, x) \<in> set (places (scr s) (blk_type (blk s))). best_type (search (scr s) (blk s)) = t
            \<and> best_base_x (search (scr s) (blk s)) = int x
            \<and> place_score (scr s) (blk s) (t, x) = max_score (search (scr s) (blk s))))"
proof -
  let ?a = "search (scr s) (blk s)"
  have pre: "blk_type (blk s) < 19" "0 \<le> base_y (blk s)" "column_num (scr s) \<le> 32" "length (scr_map (scr s)) = row_num (scr s)"
    using assms(1) by (simp_all add: game_ok_def sizes_ok_def)
  note sp = search_spec [OF pre]
  note best = best_in_group [OF pre]
  note g = group [OF pre(1) conjunct1 [OF best] conjunct2 [OF best]]
  have bx: "0 \<le> best_base_x ?a \<and> best_base_x ?a \<le> 31 \<or> best_base_x ?a = base_x (blk s)"
    using sp(3) pre(3) shape_columns(1) group(1) [OF pre(1)] by (fastforce simp: in_places)
  have "length (fst (find_steps (scr s) (blk s))) \<le> 3 + 32 + 1"
    unfolding find_steps_eq using g(2) bx assms(2,3) pre(3) by (auto simp: nat_le_iff)
  then have "length (fst (find_steps (scr s) (blk s))) \<le> AUTO_MSG_MAX" by simp
  moreover have "snd (find_steps (scr s) (blk s)) = scr s" using sp(1) by (simp add: find_steps_def Let_def)
  moreover have "max_score ?a = INT_LEAST \<or> (\<exists>(t, x) \<in> set (places (scr s) (blk_type (blk s))). best_type ?a = t
            \<and> best_base_x ?a = int x \<and> place_score (scr s) (blk s) (t, x) = max_score ?a)"
    using sp(3) by fastforce
  ultimately show ?thesis using sp(2) by blast
qed

theorem find_steps_best_witness:
  "snd (find_steps (scr auto_demo) (blk auto_demo)) = scr auto_demo
    \<and> length (fst (find_steps (scr auto_demo) (blk auto_demo))) \<le> AUTO_MSG_MAX"
  using find_steps_best [OF auto_demo_ok(1)] by (simp add: auto_demo_sel)

text \<open>C40: On free rows the steps of the automatic player do what it has in mind: all but the last one bring the
  block to the place and turn that was rated best, and from there \<^verbatim>\<open>bottom\<close> lets it fall by exactly the number
  of rows that the rating was made with.\<close>

theorem auto_steps_land_as_rated:
  assumes "game_ok s" and "open_rows (scr s) (base_y (blk s))"
    and "0 \<le> base_x (blk s)" and "base_x (blk s) + 4 \<le> int (column_num (scr s))"
  shows "\<exists>l s1 b. job_task tid (butlast (fst (find_steps (scr s) (blk s)))) (False, s) = Some (False, False, s1)
    \<and> b = (blk s)\<lparr>base_x := best_base_x (search (scr s) (blk s)), blk_type := best_type (search (scr s) (blk s))\<rparr>
    \<and> s1 = s\<lparr>shown := l, blk := b\<rparr>
    \<and> last (fst (find_steps (scr s) (blk s))) = TETRIS_MSG_BOTTOM
    \<and> min_interval_between_blk_scr (scr s) b \<ge> 0
    \<and> drop_block (scr s1) b = Some (base_y_update (\<lambda>y. y + min_interval_between_blk_scr (scr s) b) b)"
proof -
  let ?a = "search (scr s) (blk s)"
  define b where "b = (blk s)\<lparr>base_x := best_base_x ?a, blk_type := best_type ?a\<rparr>"
  have pre: "sizes_ok s" "blk_type (blk s) < 19" "0 \<le> base_y (blk s)" "column_num (scr s) \<le> 32" "length (scr_map (scr s)) = row_num (scr s)"
    using assms(1) by (simp_all add: game_ok_def sizes_ok_def)
  from steps_run [OF pre(1,2) assms(2-4)] obtain l where
    l: "job_task tid (butlast (fst (find_steps (scr s) (blk s)))) (False, s) = Some (False, False, s\<lparr>shown := l, blk := b\<rparr>)"
    by (auto simp: b_def)
  have f: "fits (scr s) b"
    using best_in_screen [OF pre(2-5) assms(3,4)] group(1) [OF pre(2)] best_in_group [OF pre(2-5)] pre(3)
    by (simp add: fits_def b_def)
  have "0 \<le> min_interval_between_blk_scr (scr s) b" using open_falls [OF assms(1) _ f] assms(2) by (simp add: b_def)
  moreover from this have "drop_block (scr s) b = Some (base_y_update (\<lambda>y. y + min_interval_between_blk_scr (scr s) b) b)"
    using lands(3) [OF f, of "nat (min_interval_between_blk_scr (scr s) b)"] by simp
  moreover have "last (fst (find_steps (scr s) (blk s))) = TETRIS_MSG_BOTTOM" by (simp add: find_steps_eq)
  ultimately show ?thesis
    using l by (intro exI [of _ l] exI [of _ "s\<lparr>shown := l, blk := b\<rparr>"] exI [of _ b]) (simp add: b_def)
qed

theorem auto_steps_land_as_rated_witness:
  "\<exists>l s1 b. job_task None (butlast (fst (find_steps (scr auto_demo) (blk auto_demo)))) (False, auto_demo) = Some (False, False, s1)
    \<and> b = (blk auto_demo)\<lparr>base_x := best_base_x (search (scr auto_demo) (blk auto_demo)),
            blk_type := best_type (search (scr auto_demo) (blk auto_demo))\<rparr>
    \<and> s1 = auto_demo\<lparr>shown := l, blk := b\<rparr>
    \<and> last (fst (find_steps (scr auto_demo) (blk auto_demo))) = TETRIS_MSG_BOTTOM
    \<and> min_interval_between_blk_scr (scr auto_demo) b \<ge> 0
    \<and> drop_block (scr auto_demo) b = Some (base_y_update (\<lambda>y. y + min_interval_between_blk_scr (scr auto_demo) b) b)"
  using auto_steps_land_as_rated [OF auto_demo_ok, where tid = None] by (force simp: auto_demo_sel)

end
