(* ===== verification/Nongli.thy ===== *)
theory Nongli
  imports TimeLib
begin

text \<open>
  The lunar calendar: \<^verbatim>\<open>src/date/nongli.c\<close>. A table of three bytes for each year from 1901 to 2099 holds the
  leap month, the long and short months, and the date of the New Year; from it a day is counted
  forward from the New Year, or backward from it into the year before.

  A read outside of the table is \<open>None\<close>. The Chinese strings of the result are named by their
  index in the tables of the code.
\<close>

section \<open>Tables\<close>

definition G_year_code :: "nat list" where
  "G_year_code =
    [4, 174, 83, 10, 87, 72, 85, 38, 189, 13, 38, 80,
     13, 149, 68, 70, 170, 185, 5, 106, 77, 9, 173, 66,
     36, 174, 182, 4, 174, 74, 106, 77, 190, 10, 77, 82,
     13, 37, 70, 93, 82, 186, 11, 84, 78, 13, 106, 67,
     41, 109, 55, 9, 91, 75, 116, 155, 193, 4, 151, 84,
     10, 75, 72, 91, 37, 188, 6, 165, 80, 6, 212, 69,
     74, 218, 184, 2, 182, 77, 9, 87, 66, 36, 151, 183,
     4, 151, 74, 102, 75, 62, 13, 74, 81, 14, 165, 70,
     86, 212, 186, 5, 173, 78, 2, 182, 68, 57, 55, 56,
     9, 46, 75, 124, 150, 191, 12, 149, 83, 13, 74, 72,
     109, 165, 59, 11, 85, 79, 5, 106, 69, 74, 173, 185,
     2, 93, 77, 9, 45, 66, 44, 149, 182, 10, 149, 74,
     123, 74, 189, 6, 202, 81, 11, 85, 70, 85, 90, 187,
     4, 218, 78, 10, 91, 67, 53, 43, 184, 5, 43, 76,
     138, 149, 63, 14, 149, 82, 6, 170, 72, 122, 213, 60,
     10, 181, 79, 4, 182, 69, 74, 87, 57, 10, 87, 77,
     5, 38, 66, 62, 147, 53, 13, 149, 73, 117, 170, 190,
     5, 106, 81, 9, 109, 70, 84, 174, 187, 4, 173, 79,
     10, 77, 67, 77, 38, 183, 13, 37, 75, 141, 82, 191,
     11, 84, 82, 11, 106, 71, 105, 109, 60, 9, 91, 80,
     4, 155, 69, 74, 75, 185, 10, 75, 77, 171, 37, 194,
     6, 165, 84, 6, 212, 73, 106, 218, 61, 10, 182, 81,
     9, 55, 70, 84, 151, 187, 4, 151, 79, 6, 75, 68,
     54, 165, 55, 14, 165, 74, 134, 178, 191, 5, 172, 83,
     10, 182, 71, 89, 54, 188, 9, 46, 80, 12, 150, 69,
     77, 74, 184, 13, 74, 76, 13, 165, 65, 37, 170, 182,
     5, 106, 73, 122, 173, 189, 2, 93, 82, 9, 45, 71,
     92, 149, 186, 10, 149, 78, 11, 74, 67, 75, 85, 55,
     10, 213, 74, 149, 90, 191, 4, 186, 83, 10, 91, 72,
     101, 43, 188, 5, 43, 80, 10, 147, 69, 71, 74, 185,
     6, 170, 76, 10, 213, 65, 36, 218, 182, 4, 182, 74,
     105, 87, 61, 10, 78, 81, 13, 38, 70, 94, 147, 58,
     13, 83, 77, 5, 170, 67, 54, 181, 55, 9, 109, 75,
     180, 174, 191, 4, 173, 83, 10, 77, 72, 109, 37, 188,
     13, 37, 79, 13, 82, 68, 93, 170, 56, 11, 90, 76,
     5, 109, 65, 36, 173, 182, 4, 155, 74, 122, 75, 190,
     10, 75, 81, 10, 165, 70, 91, 82, 186, 6, 210, 78,
     10, 218, 66, 53, 91, 55, 9, 55, 75, 132, 151, 193,
     4, 151, 83, 6, 75, 72, 102, 165, 60, 14, 165, 79,
     6, 178, 68, 74, 182, 56, 10, 174, 76, 9, 46, 66,
     60, 151, 53, 12, 150, 73, 125, 74, 189, 13, 74, 81,
     13, 165, 69, 85, 170, 186, 5, 106, 78, 10, 109, 67,
     69, 46, 183, 5, 45, 75, 138, 149, 191, 10, 149, 83,
     11, 74, 71, 107, 85, 59, 10, 213, 79, 5, 90, 69,
     74, 93, 56, 10, 91, 76, 5, 43, 66, 58, 147, 182,
     6, 147, 73, 119, 41, 189, 6, 170, 81, 10, 213, 70,
     84, 218, 186, 4, 182, 78, 10, 87, 67, 69, 39, 56,
     13, 38, 74, 142, 147, 62, 13, 82, 82, 13, 170, 71,
     102, 181, 59, 5, 109, 79, 4, 174, 69, 74, 78, 185,
     10, 77, 76, 13, 21, 65, 45, 146, 181]"

definition G_days_interval :: "int list" where
  "G_days_interval = [0, 31, 59, 90, 120, 151, 181, 212, 243, 273, 304, 334]"

definition G_days_month :: "int list" where
  "G_days_month = [31, 28, 31, 30, 31, 30, 31, 31, 30, 31, 30, 31]"

definition G_jie_qi_days :: "int list" where
  "G_jie_qi_days = [6, 20, 4, 19, 6, 21, 5, 20, 6, 21, 6, 21, 7, 23, 8, 23, 8, 23, 8, 24, 8, 22, 7, 22]"

definition G_jie_qi_fix :: "nat list" where
  "G_jie_qi_fix =
    [78, 166, 153, 156, 162, 152, 128, 0, 24, 0, 16, 36,
     78, 166, 153, 156, 162, 152, 128, 130, 24, 0, 16, 36,
     78, 166, 217, 158, 162, 152, 128, 130, 24, 0, 16, 4,
     78, 230, 217, 158, 166, 168, 128, 130, 24, 0, 16, 0,
     15, 230, 217, 190, 166, 152, 136, 130, 24, 128, 0, 0,
     15, 239, 217, 190, 166, 153, 140, 130, 152, 128, 0, 0,
     15, 239, 219, 190, 166, 153, 156, 162, 152, 128, 0, 24,
     15, 239, 219, 190, 166, 153, 156, 162, 152, 128, 0, 24,
     15, 239, 219, 190, 162, 153, 140, 160, 152, 128, 130, 24,
     11, 239, 219, 190, 166, 153, 140, 162, 152, 128, 130, 24,
     15, 239, 219, 190, 230, 217, 158, 162, 152, 128, 130, 24,
     15, 239, 251, 191, 230, 217, 158, 166, 152, 128, 130, 24,
     15, 255, 255, 252, 239, 217, 190, 166, 24]"

text \<open>
  \<^verbatim>\<open>ri_qi\<close> names the strings for the month, for the tens and for the units of the day; \<^verbatim>\<open>bei_zhu\<close>
  the next solar term and the days until then.
\<close>

record NONGLI_DATE =
  nian :: int
  yue :: int
  ri :: int
  is_run :: nat
  tian_di :: "nat \<times> nat"
  sheng_xiao :: nat
  ri_qi :: "nat \<times> nat \<times> nat"
  jie_qi :: nat
  bei_zhu :: "(nat \<times> int) option"

section \<open>The lunar date\<close>

definition is_leapyear :: "int \<Rightarrow> bool" where
  "is_leapyear y \<longleftrightarrow> y mod 400 = 0 \<or> y mod 4 = 0 \<and> y mod 100 \<noteq> 0"

definition is_big_moon :: "nat \<Rightarrow> nat \<Rightarrow> bool" where
  "is_big_moon moon table_addr =
     (if 1 \<le> moon \<and> moon \<le> 4 then G_year_code ! table_addr AND drop_bit moon 0x10 \<noteq> 0
      else if 5 \<le> moon \<and> moon \<le> 12 then G_year_code ! (table_addr + 1) AND drop_bit (moon - 4) 0x100 \<noteq> 0
      else if moon = 13 then G_year_code ! (table_addr + 2) AND 0x80 \<noteq> 0
      else False)"

definition moon_days :: "nat \<Rightarrow> nat \<Rightarrow> int" where
  "moon_days moon table_addr = (if is_big_moon moon table_addr then 30 else 29)"

text \<open>
  The two loops of \<^verbatim>\<open>nongli_get_date\<close> on \<^verbatim>\<open>today_interval\<close>, \<^verbatim>\<open>yue\<close>, \<^verbatim>\<open>is_run\<close> and \<^verbatim>\<open>moon\<close>. The number
  of the month in the table does not fall below 0 here; the code would go on to
  negative ones, which are short months as well.
\<close>

function forward_loop :: "nat \<Rightarrow> int \<Rightarrow> int \<Rightarrow> int \<Rightarrow> nat \<Rightarrow> nat \<Rightarrow> int \<times> int \<times> nat \<times> nat" where
  "forward_loop addr leap_moon today y run moon =
     (if today \<ge> moon_days moon addr then
        let run1 = (if y = leap_moon then 1 - run else run);
            y1 = (if y = leap_moon then if run1 = 0 then y + 1 else y else y + 1)
        in forward_loop addr leap_moon (today - moon_days moon addr) y1 run1 (moon + 1)
      else (today, y, run, moon))"
  by pat_completeness auto
termination
  by (relation "measure (\<lambda>(addr, leap, today, y, run, moon). nat today)") (auto simp: moon_days_def split: if_splits)

function backward_loop :: "nat \<Rightarrow> int \<Rightarrow> int \<Rightarrow> int \<Rightarrow> nat \<Rightarrow> nat \<Rightarrow> int \<times> int \<times> nat \<times> nat" where
  "backward_loop addr leap_moon today y run moon =
     (if today > moon_days moon addr then
        let y1 = (if run = 0 then y - 1 else y);
            run1 = (if y1 = leap_moon then 1 - run else run)
        in backward_loop addr leap_moon (today - moon_days moon addr) y1 run1 (moon - 1)
      else (today, y, run, moon))"
  by pat_completeness auto
termination
  by (relation "measure (\<lambda>(addr, leap, today, y, run, moon). nat today)") (auto simp: moon_days_def split: if_splits)

definition fill_nongli_str :: "NONGLI_DATE \<Rightarrow> NONGLI_DATE" where
  "fill_nongli_str d =
     (if nian d < 4 then d
      else let x = nat ((nian d - 4) mod 60)
           in d\<lparr>tian_di := (x mod 10, x mod 12), sheng_xiao := x mod 12,
                ri_qi := (nat (yue d - 1), if ri d = 10 then 0 else nat (ri d div 10), nat (ri d mod 10))\<rparr>)"

section \<open>Solar terms\<close>

definition get_jie_qi :: "int \<Rightarrow> int \<Rightarrow> int \<Rightarrow> nat" where
  "get_jie_qi y mon day =
     (if y < 2000 \<or> y > 2050 \<or> mon < 0 \<or> mon > 12 then 0
      else
        let maybe_jieqi = nat ((mon - 1) * 2) + (if day \<ge> 15 then 1 else 0);
            table_val = G_jie_qi_fix ! (nat (y - 2000) * 3 + maybe_jieqi div 8);
            need_fix = push_bit (maybe_jieqi mod 8) table_val AND 0x80;
            jie_qi_day = G_jie_qi_days ! maybe_jieqi
              + (if need_fix \<noteq> 0 then if maybe_jieqi \<in> {1, 11, 18, 21} \<and> y < 2044 then 1 else -1 else 0)
        in if day = jie_qi_day then maybe_jieqi + 1 else 0)"

text \<open>\<open>k\<close> rounds of the loop are left; \<open>i\<close> is the local variable of the same name.\<close>

fun next_jie_qi_loop :: "nat \<Rightarrow> int \<Rightarrow> int \<Rightarrow> int \<Rightarrow> int \<Rightarrow> int \<Rightarrow> nat \<times> int" where
  "next_jie_qi_loop k y mon day this_month_days i =
     (let day1 = day + 1;
          mon2 = (if day1 > this_month_days then if mon = 12 then 1 else mon + 1 else mon);
          day2 = (if day1 > this_month_days then 1 else day1);
          num = get_jie_qi y mon2 day2
      in if num \<noteq> 0 then (num, i)
         else case k of 0 \<Rightarrow> (num, i + 1) | Suc k1 \<Rightarrow> next_jie_qi_loop k1 y mon2 day2 this_month_days (i + 1))"

definition get_next_jie_qi :: "int \<Rightarrow> int \<Rightarrow> int \<Rightarrow> nat \<times> int" where
  "get_next_jie_qi y mon day =
     next_jie_qi_loop 19 y mon day (G_days_month ! nat (mon - 1) + (if mon = 2 \<and> is_leapyear y then 1 else 0)) 1"

definition fill_bei_zhu :: "int \<Rightarrow> int \<Rightarrow> int \<Rightarrow> NONGLI_DATE \<Rightarrow> NONGLI_DATE" where
  "fill_bei_zhu y mon day d =
     (let d1 = d\<lparr>bei_zhu := None\<rparr>
      in if jie_qi d1 = 0 then
           let (num, interval) = get_next_jie_qi y mon day
           in if num \<noteq> 0 then d1\<lparr>bei_zhu := Some (num, interval)\<rparr> else d1
         else d1)"

section \<open>The whole date\<close>

text \<open>The day of the year of the New Year, from 0.\<close>

definition chunjie_interval :: "nat \<Rightarrow> int" where
  "chunjie_interval addr =
     (let chunjie_month = drop_bit 5 (G_year_code ! (addr + 2) AND 0x60); chunjie_day = G_year_code ! (addr + 2) AND 0x1f
      in int chunjie_day - 1 + (if chunjie_month = 2 then 31 else 0))"

definition nongli_get_date :: "int \<Rightarrow> int \<Rightarrow> int \<Rightarrow> NONGLI_DATE \<Rightarrow> (int \<times> NONGLI_DATE) option" where
  "nongli_get_date y mon day d =
     (if y < 1901 \<or> y > 2099 \<or> mon < 1 \<or> mon > 12 \<or> day < 1 \<or> day > 31 then Some (-1, d)
      else
        let addr = nat (y - 1901) * 3;
            spring = chunjie_interval addr;
            today = G_days_interval ! nat (mon - 1) + day - 1 + (if mon > 2 \<and> is_leapyear y then 1 else 0);
            finish = (\<lambda>d1.
              let d2 = fill_nongli_str d1; d3 = d2\<lparr>jie_qi := get_jie_qi y mon day\<rparr>
              in Some (0, fill_bei_zhu y mon day d3))
        in if today \<ge> spring then
             let (rest, y1, run1, moon) =
               forward_loop addr (int (drop_bit 4 (G_year_code ! addr))) (today - spring) 1 0 1
             in finish (d\<lparr>nian := y, yue := y1, is_run := run1, ri := rest + 1\<rparr>)
           else if addr < 3 then None
           else
             let addr1 = addr - 3; leap = int (drop_bit 4 (G_year_code ! addr1));
                 (rest, y1, run1, moon) =
                   backward_loop addr1 leap (spring - today) 12 0 (if leap \<noteq> 0 then 13 else 12)
             in finish (d\<lparr>nian := y - 1, yue := y1, is_run := run1, ri := moon_days moon addr1 - rest + 1\<rparr>))"

section \<open>The calendar as a list of days\<close>

text \<open>
  The specification: the months of a lunar year in order, a leap month after the month whose number it
  repeats, and the days of all years one after the other.
\<close>

definition leap_of :: "nat \<Rightarrow> nat" where
  "leap_of addr = drop_bit 4 (G_year_code ! addr)"

definition month_at :: "nat \<Rightarrow> nat \<Rightarrow> int \<times> nat" where
  "month_at leap i = (if leap = 0 \<or> i < leap then (int i + 1, 0) else if i = leap then (int leap, 1) else (int i, 0))"

definition month_num :: "nat \<Rightarrow> nat" where
  "month_num addr = (if leap_of addr = 0 then 12 else 13)"

type_synonym lunar_day = "int \<times> int \<times> nat \<times> int"

definition lunar_month :: "int \<Rightarrow> nat \<Rightarrow> nat \<Rightarrow> lunar_day list" where
  "lunar_month y addr i =
     map (\<lambda>d. (y, fst (month_at (leap_of addr) i), snd (month_at (leap_of addr) i), int d))
       [1..<Suc (nat (moon_days (Suc i) addr))]"

definition year_addr :: "int \<Rightarrow> nat" where
  "year_addr y = nat (y - 1901) * 3"

definition lunar_year :: "int \<Rightarrow> lunar_day list" where
  "lunar_year y = concat (map (lunar_month y (year_addr y)) [0..<month_num (year_addr y)])"

definition lunar_calendar :: "lunar_day list" where
  "lunar_calendar = concat (map lunar_year [1901..2099])"

lemma moon_days_bounds: "29 \<le> moon_days m addr" "moon_days m addr \<le> 30"
  by (simp_all add: moon_days_def)

lemma length_lunar_month: "int (length (lunar_month y addr i)) = moon_days (Suc i) addr"
  using moon_days_bounds(1) [of "Suc i" addr] by (simp add: lunar_month_def)

lemma nth_lunar_month:
  assumes "int k < moon_days (Suc i) addr"
  shows "lunar_month y addr i ! k = (y, fst (month_at (leap_of addr) i), snd (month_at (leap_of addr) i), int k + 1)"
proof -
  have "k < nat (moon_days (Suc i) addr)" using assms by simp
  then show ?thesis by (simp add: lunar_month_def nth_append del: upt_Suc)
qed

declare forward_loop.simps [simp del] backward_loop.simps [simp del]

text \<open>Counting forward from month \<open>i\<close> of the year finds the day in the rest of the year.\<close>

lemma forward_loop_spec:
  assumes "i \<le> n" and "0 \<le> today" and "today < int (length (concat (map (lunar_month y addr) [i..<n])))"
    and "leap = leap_of addr"
  shows "\<exists>rest yy run moon. forward_loop addr (int leap) today (fst (month_at leap i)) (snd (month_at leap i)) (Suc i) = (rest, yy, run, moon)
    \<and> concat (map (lunar_month y addr) [i..<n]) ! nat today = (y, yy, run, rest + 1)"
  using assms
proof (induction "n - i" arbitrary: i today)
  case (Suc m)
  let ?L = "lunar_month y addr i" and ?R = "concat (map (lunar_month y addr) [Suc i..<n])"
  have split: "concat (map (lunar_month y addr) [i..<n]) = ?L @ ?R" using Suc.hyps(2) by (simp add: upt_conv_Cons)
  have len: "int (length ?L) = moon_days (Suc i) addr" by (rule length_lunar_month)
  show ?case
  proof (cases "today < moon_days (Suc i) addr")
    case True
    have "forward_loop addr (int leap) today (fst (month_at leap i)) (snd (month_at leap i)) (Suc i)
        = (today, fst (month_at leap i), snd (month_at leap i), Suc i)"
      using True by (subst forward_loop.simps) simp
    moreover have "nat today < length ?L" using True Suc.prems(2) len by linarith
    then have "(?L @ ?R) ! nat today = (y, fst (month_at leap i), snd (month_at leap i), today + 1)"
      using True Suc.prems(2,4) len nth_lunar_month [of "nat today" i addr y] by (simp add: nth_append)
    ultimately show ?thesis unfolding split by auto
  next
    case False
    let ?t = "today - moon_days (Suc i) addr"
    have step: "(if fst (month_at leap i) = int leap then 1 - snd (month_at leap i) else snd (month_at leap i)) = snd (month_at leap (Suc i))"
      "(if fst (month_at leap i) = int leap then if snd (month_at leap (Suc i)) = 0 then fst (month_at leap i) + 1 else fst (month_at leap i)
        else fst (month_at leap i) + 1) = fst (month_at leap (Suc i))"
      by (auto simp: month_at_def)
    have "forward_loop addr (int leap) today (fst (month_at leap i)) (snd (month_at leap i)) (Suc i)
        = forward_loop addr (int leap) ?t (fst (month_at leap (Suc i))) (snd (month_at leap (Suc i))) (Suc (Suc i))"
      using False by (subst forward_loop.simps) (simp add: Let_def step)
    moreover have "\<exists>rest yy run moon. forward_loop addr (int leap) ?t (fst (month_at leap (Suc i))) (snd (month_at leap (Suc i))) (Suc (Suc i)) = (rest, yy, run, moon)
        \<and> ?R ! nat ?t = (y, yy, run, rest + 1)"
      using Suc.hyps Suc.prems False len unfolding split by (intro Suc.hyps(1)) auto
    moreover have "nat today = length ?L + nat ?t" using False len by linarith
    then have "(?L @ ?R) ! nat today = ?R ! nat ?t" by (simp only: nth_append_length_plus)
    ultimately show ?thesis unfolding split by metis
  qed
qed simp

text \<open>Counting backward from the end of month \<open>i\<close> finds it in the months up to that one.\<close>

lemma backward_loop_spec:
  assumes "0 < bk" and "bk \<le> int (length (concat (map (lunar_month y addr) [0..<Suc i])))"
    and "leap = leap_of addr" and "leap < 12" and "i < month_num addr"
  shows "\<exists>rest yy run moon. backward_loop addr (int leap) bk (fst (month_at leap i)) (snd (month_at leap i)) (Suc i) = (rest, yy, run, moon)
    \<and> concat (map (lunar_month y addr) [0..<Suc i]) ! nat (int (length (concat (map (lunar_month y addr) [0..<Suc i]))) - bk)
      = (y, yy, run, moon_days moon addr - rest + 1)"
  using assms
proof (induction i arbitrary: bk)
  case 0
  have len: "int (length (lunar_month y addr 0)) = moon_days 1 addr" using length_lunar_month [of y addr 0] by simp
  then have "bk \<le> moon_days 1 addr" using 0 by simp
  then have "backward_loop addr (int leap) bk (fst (month_at leap 0)) (snd (month_at leap 0)) 1
      = (bk, fst (month_at leap 0), snd (month_at leap 0), 1)" by (subst backward_loop.simps) simp
  moreover have "lunar_month y addr 0 ! nat (moon_days 1 addr - bk) = (y, fst (month_at leap 0), snd (month_at leap 0), moon_days 1 addr - bk + 1)"
    using nth_lunar_month [of "nat (moon_days 1 addr - bk)" 0 addr y] \<open>bk \<le> moon_days 1 addr\<close> 0 by simp
  ultimately show ?case using len by simp
next
  case (Suc i)
  define L R where "L = concat (map (lunar_month y addr) [0..<Suc i])" and "R = lunar_month y addr (Suc i)"
  have split: "concat (map (lunar_month y addr) [0..<Suc (Suc i)]) = L @ R" by (simp add: L_def R_def)
  have len: "int (length R) = moon_days (Suc (Suc i)) addr" unfolding R_def by (rule length_lunar_month)
  show ?case
  proof (cases "bk \<le> moon_days (Suc (Suc i)) addr")
    case True
    have "backward_loop addr (int leap) bk (fst (month_at leap (Suc i))) (snd (month_at leap (Suc i))) (Suc (Suc i))
      = (bk, fst (month_at leap (Suc i)), snd (month_at leap (Suc i)), Suc (Suc i))" using True by (subst backward_loop.simps) simp
    moreover have "nat (int (length (L @ R)) - bk) = length L + nat (moon_days (Suc (Suc i)) addr - bk)"
      using len True Suc.prems(1) by simp
    then have "(L @ R) ! nat (int (length (L @ R)) - bk)
        = (y, fst (month_at leap (Suc i)), snd (month_at leap (Suc i)), moon_days (Suc (Suc i)) addr - bk + 1)"
      using nth_lunar_month [of "nat (moon_days (Suc (Suc i)) addr - bk)" "Suc i" addr y] True Suc.prems(1,3)
      by (simp only: nth_append_length_plus R_def) simp
    ultimately show ?thesis unfolding split by auto
  next
    case False
    let ?b = "bk - moon_days (Suc (Suc i)) addr"
    have i: "Suc i < 13" "leap = 0 \<longrightarrow> Suc i < 12" using Suc.prems(3,5) by (auto simp: month_num_def split: if_splits)
    have step: "(if snd (month_at leap (Suc i)) = 0 then fst (month_at leap (Suc i)) - 1 else fst (month_at leap (Suc i))) = fst (month_at leap i)"
      "(if fst (month_at leap i) = int leap then 1 - snd (month_at leap (Suc i)) else snd (month_at leap (Suc i))) = snd (month_at leap i)"
      by (auto simp: month_at_def)
    have "backward_loop addr (int leap) bk (fst (month_at leap (Suc i))) (snd (month_at leap (Suc i))) (Suc (Suc i))
      = backward_loop addr (int leap) ?b (fst (month_at leap i)) (snd (month_at leap i)) (Suc i)"
      using False by (subst backward_loop.simps) (simp add: Let_def step)
    moreover have "\<exists>rest yy run moon. backward_loop addr (int leap) ?b (fst (month_at leap i)) (snd (month_at leap i)) (Suc i) = (rest, yy, run, moon)
      \<and> L ! nat (int (length L) - ?b) = (y, yy, run, moon_days moon addr - rest + 1)"
      using Suc.prems False len unfolding split L_def [symmetric]
      by (intro Suc.IH [folded L_def]) auto
    moreover have "nat (int (length (L @ R)) - bk) = nat (int (length L) - ?b)" "nat (int (length L) - ?b) < length L"
      using False len Suc.prems(2) unfolding split by auto
    then have "(L @ R) ! nat (int (length (L @ R)) - bk) = L ! nat (int (length L) - ?b)"
      by (simp only: nth_append if_True)
    ultimately show ?thesis unfolding split by metis
  qed
qed

section \<open>The table is a calendar\<close>

text \<open>
  One pass over the table: the days of each lunar year lead from its New Year to the next one, and the last year
  covers the rest of 2099. The sum of the months is computed by counting bits.
\<close>

fun popcount :: "nat \<Rightarrow> nat" where
  "popcount n = (if n = 0 then 0 else n mod 2 + popcount (n div 2))"

declare popcount.simps [simp del]

lemma popcount_simps:
  "popcount 0 = 0" "popcount (Suc 0) = 1" "popcount (numeral k) = numeral k mod 2 + popcount (numeral k div 2)"
  by (simp_all add: popcount.simps)

lemma popcount_bits: "n < 2 ^ k \<Longrightarrow> popcount n = (\<Sum>i<k. of_bool (bit n i))"
proof (induction k arbitrary: n)
  case (Suc k)
  have "popcount n = n mod 2 + popcount (n div 2)"
    by (cases "n = 0") (simp_all add: popcount_simps popcount.simps [of n])
  also have "popcount (n div 2) = (\<Sum>i<k. of_bool (bit n (Suc i)))"
    using Suc.IH [of "n div 2"] Suc.prems by (simp add: bit_Suc less_mult_imp_div_less)
  finally show ?case by (simp add: sum.lessThan_Suc_shift bit_0 mod_2_eq_odd del: sum.lessThan_Suc)
qed (simp add: popcount_simps)

definition table_days :: "nat \<Rightarrow> nat \<Rightarrow> nat \<Rightarrow> nat" where
  "table_days a b c = (if a < 16 then 348 else 377 + c div 128) + popcount (a mod 16) + popcount b"

definition table_spring :: "nat \<Rightarrow> nat" where
  "table_spring c = c mod 32 - 1 + (if c div 32 mod 4 = 2 then 31 else 0)"

fun table_ok :: "nat list \<Rightarrow> nat \<Rightarrow> bool" where
  "table_ok (a # b # c # a' # b' # c' # r) y \<longleftrightarrow>
     a < 192 \<and> b < 256 \<and> c < 256 \<and> 0 < c mod 32
     \<and> table_days a b c + table_spring c
        = (if y mod 400 = 0 \<or> y mod 4 = 0 \<and> y mod 100 \<noteq> 0 then 366 else 365) + table_spring c'
     \<and> table_ok (a' # b' # c' # r) (y + 1)"
| "table_ok [a, b, c] y \<longleftrightarrow> a < 192 \<and> b < 256 \<and> c < 256 \<and> 0 < c mod 32 \<and> 366 \<le> table_days a b c + table_spring c"
| "table_ok _ _ = False"

lemma year_code_ok: "table_ok G_year_code 1901"
  by (simp add: G_year_code_def table_days_def table_spring_def popcount_simps)

lemma table_ok_step: "table_ok xs y \<Longrightarrow> 3 < length xs \<Longrightarrow> table_ok (drop 3 xs) (y + 1)"
  by (cases "(xs, y)" rule: table_ok.cases) (simp_all add: numeral_3_eq_3)

lemma table_ok_drop:
  assumes "table_ok xs y" and "3 * i < length xs"
  shows "table_ok (drop (3 * i) xs) (y + i)"
  using assms(2)
proof (induction i)
  case (Suc i)
  let ?ys = "drop (3 * i) xs"
  have ok: "table_ok ?ys (y + i)" and len: "3 < length ?ys" using Suc by auto
  have "table_ok (drop 3 ?ys) (y + i + 1)" by (rule table_ok_step [OF ok len])
  then show ?case by (simp add: add.commute)
qed (use assms(1) in simp)

lemma drop_three: "k + 2 < length xs \<Longrightarrow> drop k xs = xs ! k # xs ! (k + 1) # xs ! (k + 2) # drop (k + 3) xs"
  by (simp add: Cons_nth_drop_Suc numeral_eq_Suc)

lemma table_ok_at:
  assumes ok: "table_ok xs y" and i: "3 * i < length xs" and len: "length xs mod 3 = 0"
  defines "a \<equiv> xs ! (3 * i)" and "b \<equiv> xs ! (3 * i + 1)" and "c \<equiv> xs ! (3 * i + 2)"
  shows "a < 192 \<and> b < 256 \<and> c < 256 \<and> 0 < c mod 32"
    and "3 * Suc i = length xs \<Longrightarrow> 366 \<le> table_days a b c + table_spring c"
    and "3 * Suc i < length xs \<Longrightarrow> table_days a b c + table_spring c
      = (if (y + i) mod 400 = 0 \<or> (y + i) mod 4 = 0 \<and> (y + i) mod 100 \<noteq> 0 then 366 else 365) + table_spring (xs ! (3 * Suc i + 2))"
proof -
  have long: "3 * i + 2 < length xs" using i len by presburger
  have more: "3 * i + 3 + 2 < length xs" if "3 * Suc i < length xs" using that len by presburger
  have here: "drop (3 * i) xs = a # b # c # drop (3 * i + 3) xs" unfolding a_def b_def c_def by (rule drop_three [OF long])
  have t: "table_ok (a # b # c # drop (3 * i + 3) xs) (y + i)" using table_ok_drop [OF ok i] here by simp
  show last: "366 \<le> table_days a b c + table_spring c" if "3 * Suc i = length xs" using t that by simp
  have rest: "drop (3 * i + 3) xs = xs ! (3 * Suc i) # xs ! (3 * Suc i + 1) # xs ! (3 * Suc i + 2) # drop (3 * Suc i + 3) xs"
    if "3 * Suc i < length xs" using drop_three [OF more [OF that]] by (simp add: algebra_simps)
  show "table_days a b c + table_spring c
      = (if (y + i) mod 400 = 0 \<or> (y + i) mod 4 = 0 \<and> (y + i) mod 100 \<noteq> 0 then 366 else 365) + table_spring (xs ! (3 * Suc i + 2))"
    if "3 * Suc i < length xs" using t [unfolded rest [OF that]] by simp
  show "a < 192 \<and> b < 256 \<and> c < 256 \<and> 0 < c mod 32"
  proof (cases "3 * Suc i < length xs")
    case True
    show ?thesis using t [unfolded rest [OF True]] by simp
  next
    case False
    then have "drop (3 * i + 3) xs = []" by simp
    then show ?thesis using t by simp
  qed
qed

lemma length_year_code: "length G_year_code = 597"
  by (simp add: G_year_code_def)

lemma and_power: "0 < (n::nat) AND 2 ^ k \<longleftrightarrow> bit n k"
  using and_exp_eq_0_iff_not_bit [of n k] by auto

lemma big_moon_bits:
  "1 \<le> m \<Longrightarrow> m \<le> 4 \<Longrightarrow> is_big_moon m addr \<longleftrightarrow> bit (G_year_code ! addr) (4 - m)"
  "5 \<le> m \<Longrightarrow> m \<le> 12 \<Longrightarrow> is_big_moon m addr \<longleftrightarrow> bit (G_year_code ! (addr + 1)) (12 - m)"
  "is_big_moon 13 addr \<longleftrightarrow> bit (G_year_code ! (addr + 2)) 7"
proof -
  have "drop_bit m (0x10 :: nat) = 2 ^ (4 - m)" if "m \<le> 4"
    using power_diff [of "2 :: nat" m 4] that by (simp add: drop_bit_eq_div)
  then show "1 \<le> m \<Longrightarrow> m \<le> 4 \<Longrightarrow> is_big_moon m addr \<longleftrightarrow> bit (G_year_code ! addr) (4 - m)"
    by (simp add: is_big_moon_def and_power)
  have "drop_bit (m - 4) (0x100 :: nat) = 2 ^ (12 - m)" if "5 \<le> m" "m \<le> 12"
    using power_diff [of "2 :: nat" "m - 4" 8] that by (simp add: drop_bit_eq_div)
  then show "5 \<le> m \<Longrightarrow> m \<le> 12 \<Longrightarrow> is_big_moon m addr \<longleftrightarrow> bit (G_year_code ! (addr + 1)) (12 - m)"
    by (simp add: is_big_moon_def and_power)
  show "is_big_moon 13 addr \<longleftrightarrow> bit (G_year_code ! (addr + 2)) 7"
    using and_power [of "G_year_code ! (addr + 2)" 7] by (simp add: is_big_moon_def)
qed

lemma year_days:
  assumes "G_year_code ! addr < 192" and "G_year_code ! (addr + 1) < 256" and "G_year_code ! (addr + 2) < 256"
  shows "int (length (concat (map (lunar_month y addr) [0..<month_num addr])))
    = int (table_days (G_year_code ! addr) (G_year_code ! (addr + 1)) (G_year_code ! (addr + 2)))"
proof -
  let ?a = "G_year_code ! addr" and ?b = "G_year_code ! (addr + 1)" and ?c = "G_year_code ! (addr + 2)"
  have len: "int (length (concat (map (lunar_month y addr) [0..<n]))) = (\<Sum>i<n. moon_days (Suc i) addr)" for n
    by (induction n) (simp_all add: length_lunar_month)
  have low: "bit (?a mod 16) i = bit ?a i" if "i < 4" for i
    using that bit_take_bit_iff [of 4 ?a i] by (simp add: take_bit_eq_mod)
  have four: "(\<Sum>i<4. f i) = f 0 + f 1 + f 2 + f 3" and eight: "(\<Sum>i<8. f i) = f 0 + f 1 + f 2 + f 3 + f 4 + f 5 + f 6 + f 7"
    for f :: "nat \<Rightarrow> nat" by (simp_all add: lessThan_nat_numeral lessThan_Suc)
  have a4: "popcount (?a mod 16) = of_bool (bit ?a 0) + of_bool (bit ?a 1) + of_bool (bit ?a 2) + of_bool (bit ?a 3)"
    using popcount_bits [of "?a mod 16" 4] by (simp only: four low) simp
  have b8: "popcount ?b = of_bool (bit ?b 0) + of_bool (bit ?b 1) + of_bool (bit ?b 2) + of_bool (bit ?b 3)
      + of_bool (bit ?b 4) + of_bool (bit ?b 5) + of_bool (bit ?b 6) + of_bool (bit ?b 7)"
    using popcount_bits [of ?b 8] assms(2) by (simp only: eight) simp
  have days: "moon_days (Suc i) addr = 29 + of_bool (is_big_moon (Suc i) addr)" for i by (simp add: moon_days_def)
  have list: "(\<Sum>i<12. f i) = f 0 + f 1 + f 2 + f 3 + f 4 + f 5 + f 6 + f 7 + f 8 + f 9 + f 10 + f 11"
    for f :: "nat \<Rightarrow> int" by (simp add: lessThan_nat_numeral lessThan_Suc)
  have big: "is_big_moon (Suc 0) addr = bit ?a 3" "is_big_moon (Suc (Suc 0)) addr = bit ?a 2" "is_big_moon 3 addr = bit ?a 1" "is_big_moon 4 addr = bit ?a 0"
    "is_big_moon 5 addr = bit ?b 7" "is_big_moon 6 addr = bit ?b 6" "is_big_moon 7 addr = bit ?b 5" "is_big_moon 8 addr = bit ?b 4"
    "is_big_moon 9 addr = bit ?b 3" "is_big_moon 10 addr = bit ?b 2" "is_big_moon 11 addr = bit ?b 1" "is_big_moon 12 addr = bit ?b 0"
    using big_moon_bits(1) [of _ addr] big_moon_bits(2) [of _ addr] by simp_all
  have "(\<Sum>i<12. moon_days (Suc i) addr) = 348 + int (popcount (?a mod 16)) + int (popcount ?b)"
    unfolding a4 b8 list days by (simp add: big)
  note twelve = this
  have c7: "of_bool (bit ?c 7) = int (?c div 128)"
  proof -
    have "?c div 128 < 2" using assms(3) by (simp add: less_mult_imp_div_less)
    then show ?thesis by (cases "?c div 128") (auto simp: bit_iff_odd)
  qed
  have a16: "leap_of addr = 0 \<longleftrightarrow> ?a < 16" by (simp add: leap_of_def drop_bit_eq_div div_eq_0_iff)
  show ?thesis
  proof (cases "?a < 16")
    case True
    then show ?thesis using a16 by (simp add: len month_num_def table_days_def twelve)
  next
    case False
    have "(\<Sum>i<13. moon_days (Suc i) addr) = (\<Sum>i<12. moon_days (Suc i) addr) + (29 + int (?c div 128))"
      using days [of 12] c7 big_moon_bits(3) [of addr] sum.lessThan_Suc [of "\<lambda>i. moon_days (Suc i) addr" 12] by simp
    then show ?thesis using False a16 by (simp add: len month_num_def table_days_def twelve)
  qed
qed

definition in_table :: "int \<Rightarrow> bool" where
  "in_table y \<longleftrightarrow> 1901 \<le> y \<and> y \<le> 2099"

definition spring :: "int \<Rightarrow> int" where
  "spring y = chunjie_interval (year_addr y)"

lemma table_at:
  assumes "in_table y"
  shows "G_year_code ! year_addr y < 192" and "G_year_code ! (year_addr y + 1) < 256" and "G_year_code ! (year_addr y + 2) < 256"
    and "0 < G_year_code ! (year_addr y + 2) mod 32"
    and "y < 2099 \<Longrightarrow> table_days (G_year_code ! year_addr y) (G_year_code ! (year_addr y + 1)) (G_year_code ! (year_addr y + 2))
        + table_spring (G_year_code ! (year_addr y + 2))
      = (if isLeapyear y then 366 else 365) + table_spring (G_year_code ! (year_addr (y + 1) + 2))"
    and "y = 2099 \<Longrightarrow> 366 \<le> table_days (G_year_code ! year_addr y) (G_year_code ! (year_addr y + 1)) (G_year_code ! (year_addr y + 2))
        + table_spring (G_year_code ! (year_addr y + 2))"
proof -
  let ?i = "nat (y - 1901)"
  have addr: "year_addr y = 3 * ?i" "year_addr (y + 1) = 3 * Suc ?i"
    using assms by (simp_all add: year_addr_def in_table_def Suc_nat_eq_nat_zadd1)
  have i: "?i < 199" using assms by (auto simp: in_table_def)
  then have len: "3 * ?i < length G_year_code" "length G_year_code mod 3 = 0" by (simp_all add: length_year_code)
  note at = table_ok_at [OF year_code_ok len, folded addr]
  show "G_year_code ! year_addr y < 192" "G_year_code ! (year_addr y + 1) < 256" "G_year_code ! (year_addr y + 2) < 256"
    "0 < G_year_code ! (year_addr y + 2) mod 32" using at(1) by simp_all
  have y: "int (1901 + ?i) = y" using assms by (simp add: in_table_def)
  have leap: "((1901 + ?i) mod 400 = 0 \<or> (1901 + ?i) mod 4 = 0 \<and> (1901 + ?i) mod 100 \<noteq> 0) \<longleftrightarrow> isLeapyear y"
  proof -
    have "y mod int k = int ((1901 + ?i) mod k)" for k by (simp only: zmod_int y)
    from this [of 400] this [of 100] this [of 4] show ?thesis unfolding isLeapyear_def by simp
  qed
  show "table_days (G_year_code ! year_addr y) (G_year_code ! (year_addr y + 1)) (G_year_code ! (year_addr y + 2))
        + table_spring (G_year_code ! (year_addr y + 2))
      = (if isLeapyear y then 366 else 365) + table_spring (G_year_code ! (year_addr (y + 1) + 2))" if "y < 2099"
  proof -
    have "year_addr (y + 1) < length G_year_code" using that assms by (simp add: addr(2) length_year_code in_table_def)
    from at(3) [OF this] show ?thesis unfolding leap by simp
  qed
  show "366 \<le> table_days (G_year_code ! year_addr y) (G_year_code ! (year_addr y + 1)) (G_year_code ! (year_addr y + 2))
        + table_spring (G_year_code ! (year_addr y + 2))" if "y = 2099"
  proof -
    have "year_addr (y + 1) = length G_year_code" using that by (simp add: year_addr_def length_year_code)
    from at(2) [OF this] show ?thesis .
  qed
qed

lemma spring_eq:
  assumes "in_table y"
  shows "spring y = int (table_spring (G_year_code ! (year_addr y + 2)))" and "0 \<le> spring y" and "spring y \<le> 61"
proof -
  let ?c = "G_year_code ! (year_addr y + 2)"
  have day: "?c AND 0x1f = ?c mod 32" using take_bit_eq_mask [of 5 ?c] by (simp add: take_bit_eq_mod mask_eq_exp_minus_1)
  have "drop_bit 5 (?c AND 0x60) = drop_bit 5 ?c AND drop_bit 5 0x60" by (rule drop_bit_and)
  also have "\<dots> = ?c div 32 mod 4"
    using take_bit_eq_mask [of 2 "?c div 32"] by (simp add: drop_bit_eq_div take_bit_eq_mod mask_eq_exp_minus_1)
  finally have month: "drop_bit 5 (?c AND 0x60) = ?c div 32 mod 4" .
  show eq: "spring y = int (table_spring ?c)"
    using table_at(4) [OF assms] unfolding spring_def chunjie_interval_def Let_def day month by (simp add: table_spring_def)
  have "?c mod 32 < 32" by simp
  then show "0 \<le> spring y" "spring y \<le> 61" unfolding eq by (auto simp: table_spring_def)
qed

lemma lunar_year_length:
  assumes "in_table y"
  shows "y < 2099 \<Longrightarrow> int (length (lunar_year y)) + spring y = month_start y 13 + spring (y + 1)"
    and "month_start y 13 \<le> int (length (lunar_year y)) + spring y" and "348 \<le> int (length (lunar_year y))"
proof -
  have len: "int (length (lunar_year y)) = int (table_days (G_year_code ! year_addr y) (G_year_code ! (year_addr y + 1)) (G_year_code ! (year_addr y + 2)))"
    unfolding lunar_year_def by (rule year_days [OF table_at(1-3) [OF assms]])
  show nx: "int (length (lunar_year y)) + spring y = month_start y 13 + spring (y + 1)" if "y < 2099"
  proof -
    have "in_table (y + 1)" using assms that by (simp add: in_table_def)
    then show ?thesis using table_at(5) [OF assms that] spring_eq(1) [OF assms] spring_eq(1) [of "y + 1"] len
      by (simp add: year_length split: if_splits)
  qed
  show "month_start y 13 \<le> int (length (lunar_year y)) + spring y"
  proof (cases "y < 2099")
    case True
    then have "in_table (y + 1)" using assms by (simp add: in_table_def)
    then show ?thesis using nx [OF True] spring_eq(2) [of "y + 1"] by simp
  next
    case False
    then have "y = 2099" using assms by (simp add: in_table_def)
    then show ?thesis using table_at(6) [OF assms] spring_eq(1) [OF assms] len by (simp add: year_length)
  qed
  show "348 \<le> int (length (lunar_year y))" unfolding len by (simp add: table_days_def)
qed

text \<open>The day on which the lunar year begins, counted as in theory TimeLib.\<close>

definition new_year :: "int \<Rightarrow> int" where
  "new_year y = year_start y + spring y"

lemma years_before:
  assumes "in_table y"
  shows "int (length (concat (map lunar_year [1901..y - 1]))) = new_year y - new_year 1901"
proof -
  have "int (length (concat (map lunar_year [1901..1901 + int n - 1]))) = new_year (1901 + int n) - new_year 1901" if "n \<le> 198" for n
    using that
  proof (induction n)
    case (Suc n)
    let ?y = "1901 + int n"
    have y: "in_table ?y" "?y < 2099" using Suc.prems by (simp_all add: in_table_def)
    have "[1901..1901 + int (Suc n) - 1] = [1901..?y - 1] @ [?y]" using upto_rec2 [of 1901 ?y] by simp
    then show ?case
      using Suc lunar_year_length(1) [OF y] year_start_step [of ?y] by (simp add: new_year_def algebra_simps)
  qed (simp add: new_year_def)
  from this [of "nat (y - 1901)"] assms show ?thesis by (simp add: in_table_def nat_le_iff)
qed

lemma calendar_nth:
  assumes "in_table y" and "k < length (lunar_year y)"
  shows "lunar_calendar ! nat (new_year y - new_year 1901 + int k) = lunar_year y ! k"
proof -
  have "[1901..2099] = [1901..y - 1] @ y # [y + 1..2099]"
    by (rule upto_split3) (use assms(1) in \<open>simp_all add: in_table_def\<close>)
  then have all: "lunar_calendar = concat (map lunar_year [1901..y - 1]) @ lunar_year y @ concat (map lunar_year [y + 1..2099])"
    by (simp add: lunar_calendar_def)
  have pos: "nat (new_year y - new_year 1901 + int k) = length (concat (map lunar_year [1901..y - 1])) + k"
    using years_before [OF assms(1)] by simp
  have "(A @ lunar_year y @ C) ! (length A + k) = lunar_year y ! k" for A C
    using assms(2) by (simp add: nth_append)
  then show ?thesis unfolding pos all .
qed

lemma days_interval:
  assumes "1 \<le> mon" and "mon \<le> 12"
  shows "G_days_interval ! nat (mon - 1) + (if mon > 2 \<and> is_leapyear y then 1 else 0) = month_start y mon"
proof -
  have m1: "month_start y 1 = 0" by (simp add: month_start_def)
  have leap: "is_leapyear y = isLeapyear y" by (simp add: is_leapyear_def isLeapyear_def)
  have ms: "month_start y 2 = 31" "month_start y 3 = 59 + of_bool (isLeapyear y)" "month_start y 4 = 90 + of_bool (isLeapyear y)"
    "month_start y 5 = 120 + of_bool (isLeapyear y)" "month_start y 6 = 151 + of_bool (isLeapyear y)" "month_start y 7 = 181 + of_bool (isLeapyear y)"
    "month_start y 8 = 212 + of_bool (isLeapyear y)" "month_start y 9 = 243 + of_bool (isLeapyear y)" "month_start y 10 = 273 + of_bool (isLeapyear y)"
    "month_start y 11 = 304 + of_bool (isLeapyear y)" "month_start y 12 = 334 + of_bool (isLeapyear y)"
    using month_start_step [of 1 y] month_start_step [of 2 y] month_start_step [of 3 y] month_start_step [of 4 y] month_start_step [of 5 y]
      month_start_step [of 6 y] month_start_step [of 7 y] month_start_step [of 8 y] month_start_step [of 9 y] month_start_step [of 10 y]
      month_start_step [of 11 y] m1 by (simp_all add: monthDays_def)
  have "mon = 1 \<or> mon = 2 \<or> mon = 3 \<or> mon = 4 \<or> mon = 5 \<or> mon = 6 \<or> mon = 7 \<or> mon = 8 \<or> mon = 9 \<or> mon = 10 \<or> mon = 11 \<or> mon = 12"
    using assms by presburger
  then show ?thesis by (elim disjE) (simp_all add: ms m1 leap G_days_interval_def)
qed

text \<open>A date the function accepts, and the number of days since the New Year of 1901.\<close>

definition lunar_index :: "int \<Rightarrow> int \<Rightarrow> int \<Rightarrow> int" where
  "lunar_index y mon day = year_start y + month_start y mon + day - 1 - new_year 1901"

lemma table_leap:
  assumes "in_table y"
  shows "leap_of (year_addr y) < 12"
proof -
  have "G_year_code ! year_addr y div 16 < 12" using table_at(1) [OF assms] by (simp add: less_mult_imp_div_less)
  then show ?thesis by (simp add: leap_of_def drop_bit_eq_div)
qed

lemma month_at_ends: "month_at leap 0 = (1, 0)" "leap_of addr < 12 \<Longrightarrow> month_at (leap_of addr) (month_num addr - 1) = (12, 0)"
  by (auto simp: month_at_def month_num_def)

text \<open>The day found in the year of the date, and in the year before.\<close>

lemma forward_finds:
  assumes y: "in_table y" and today: "spring y \<le> today" "today < month_start y 13"
  obtains rest yy run moon where "forward_loop (year_addr y) (int (leap_of (year_addr y))) (today - spring y) 1 0 1 = (rest, yy, run, moon)"
    and "lunar_calendar ! nat (year_start y + today - new_year 1901) = (y, yy, run, rest + 1)"
proof -
  have len: "today - spring y < int (length (lunar_year y))" using lunar_year_length(2) [OF y] today by simp
  obtain rest yy run moon where f: "forward_loop (year_addr y) (int (leap_of (year_addr y))) (today - spring y) 1 0 1 = (rest, yy, run, moon)"
    and at: "lunar_year y ! nat (today - spring y) = (y, yy, run, rest + 1)"
    using forward_loop_spec [of 0 "month_num (year_addr y)" "today - spring y" y "year_addr y", OF _ _ _ refl] today len
    by (auto simp: lunar_year_def month_at_ends)
  have "nat (today - spring y) < length (lunar_year y)" using len today(1) by (simp add: nat_less_iff)
  from calendar_nth [OF y this] have "lunar_calendar ! nat (year_start y + today - new_year 1901) = lunar_year y ! nat (today - spring y)"
    using today by (simp add: new_year_def algebra_simps)
  then show ?thesis using that [OF f] at by simp
qed

lemma backward_finds:
  assumes y: "in_table y" and p: "in_table (y - 1)" and today: "0 \<le> today" "today < spring y"
  obtains rest yy run moon where
    "backward_loop (year_addr (y - 1)) (int (leap_of (year_addr (y - 1)))) (spring y - today) 12 0 (month_num (year_addr (y - 1))) = (rest, yy, run, moon)"
    and "lunar_calendar ! nat (year_start y + today - new_year 1901) = (y - 1, yy, run, moon_days moon (year_addr (y - 1)) - rest + 1)"
proof -
  let ?a = "year_addr (y - 1)" and ?bk = "spring y - today"
  let ?k = "nat (int (length (lunar_year (y - 1))) - ?bk)"
  have bk: "0 < ?bk" "?bk \<le> int (length (lunar_year (y - 1)))"
    using today spring_eq(3) [OF y] lunar_year_length(3) [OF p] by simp_all
  have n: "Suc (month_num ?a - 1) = month_num ?a" "month_num ?a - 1 < month_num ?a" by (simp_all add: month_num_def)
  obtain rest yy run moon where f: "backward_loop ?a (int (leap_of ?a)) ?bk 12 0 (month_num ?a) = (rest, yy, run, moon)"
    and at: "lunar_year (y - 1) ! ?k = (y - 1, yy, run, moon_days moon ?a - rest + 1)"
    using backward_loop_spec [of ?bk "y - 1" ?a "month_num ?a - 1", OF bk(1) _ refl table_leap [OF p] n(2), unfolded n(1),
        folded lunar_year_def, OF bk(2)] unfolding month_at_ends(2) [OF table_leap [OF p]] by auto
  have "?k < length (lunar_year (y - 1))" using bk by linarith
  note c = calendar_nth [OF p this]
  have "year_start (y - 1) + month_start (y - 1) 13 = year_start y" using year_start_step [of "y - 1"] by (simp add: year_length)
  then have "new_year (y - 1) - new_year 1901 + int ?k = year_start y + today - new_year 1901"
    using lunar_year_length(1) [OF p] y bk by (simp add: new_year_def in_table_def)
  then have "lunar_calendar ! nat (year_start y + today - new_year 1901) = lunar_year (y - 1) ! ?k" using c by (simp only:)
  from that [OF f trans [OF this at]] show ?thesis .
qed

text \<open>
  The function returns the entry of the calendar, for every date that the clock can show from the New Year of
  1901 on.
\<close>

lemma monthDays_bounds: "28 \<le> monthDays y mon" "monthDays y mon \<le> 31" if "1 \<le> mon" "mon \<le> 12"
proof -
  have "mon = 1 \<or> mon = 2 \<or> mon = 3 \<or> mon = 4 \<or> mon = 5 \<or> mon = 6 \<or> mon = 7 \<or> mon = 8 \<or> mon = 9 \<or> mon = 10 \<or> mon = 11 \<or> mon = 12"
    using that by presburger
  then show "28 \<le> monthDays y mon" "monthDays y mon \<le> 31" by (elim disjE; simp add: monthDays_def)+
qed

lemma month_start_bounds:
  assumes "1 \<le> mon" and "mon \<le> 12"
  shows "0 \<le> month_start y mon" and "month_start y mon + monthDays y mon \<le> month_start y 13"
proof -
  have pos: "0 \<le> monthDays y m" if "1 \<le> m" "m \<le> 12" for m using monthDays_bounds(1) [OF that, of y] by simp
  show "0 \<le> month_start y mon" unfolding month_start_def by (rule sum_nonneg) (use assms pos in simp)
  have "month_start y (mon + 1) \<le> month_start y 13"
    unfolding month_start_def by (rule sum_mono2) (use assms pos in auto)
  then show "month_start y mon + monthDays y mon \<le> month_start y 13" using month_start_step [OF assms(1), of y] by simp
qed

lemma fill_keeps_date:
  "nian (fill_bei_zhu y mon day (fill_nongli_str d\<lparr>jie_qi := q\<rparr>)) = nian d"
  "yue (fill_bei_zhu y mon day (fill_nongli_str d\<lparr>jie_qi := q\<rparr>)) = yue d"
  "ri (fill_bei_zhu y mon day (fill_nongli_str d\<lparr>jie_qi := q\<rparr>)) = ri d"
  "is_run (fill_bei_zhu y mon day (fill_nongli_str d\<lparr>jie_qi := q\<rparr>)) = is_run d"
  by (simp_all add: fill_bei_zhu_def fill_nongli_str_def Let_def split: prod.split)

text \<open>C30: For every date of the Gregorian calendar from the New Year of 1901 to the end of 2099, the date that
  nongli_get_date finds by counting months from the New Year is the one that the list of all lunar days has for it.\<close>

theorem nongli_date_correct:
  assumes y: "in_table y" and mon: "1 \<le> mon" "mon \<le> 12" and day: "1 \<le> day" "day \<le> monthDays y mon"
    and first: "0 \<le> lunar_index y mon day"
  shows "\<exists>r. nongli_get_date y mon day d = Some (0, r)
    \<and> (nian r, yue r, is_run r, ri r) = lunar_calendar ! nat (lunar_index y mon day)"
proof -
  define today where "today = month_start y mon + day - 1"
  have code: "G_days_interval ! nat (mon - 1) + day - 1 + (if mon > 2 \<and> is_leapyear y then 1 else 0) = today"
    using days_interval [OF mon, of y] by (simp add: today_def)
  have index: "lunar_index y mon day = year_start y + today - new_year 1901" by (simp add: lunar_index_def today_def)
  have range: "0 \<le> today" "today < month_start y 13" unfolding today_def using month_start_bounds [OF mon, of y] day by simp_all
  have ok: "\<not> (y < 1901 \<or> y > 2099 \<or> mon < 1 \<or> mon > 12 \<or> day < 1 \<or> day > 31)"
    using y mon day monthDays_bounds(2) [OF mon, of y] by (simp add: in_table_def)
  note get = nongli_get_date_def [of y mon day d, unfolded Let_def code if_not_P [OF ok], folded year_addr_def, folded spring_def leap_of_def]
  show ?thesis
  proof (cases "spring y \<le> today")
    case True
    from forward_finds [OF y True range(2)] obtain rest yy run moon
      where f: "forward_loop (year_addr y) (int (leap_of (year_addr y))) (today - spring y) 1 0 1 = (rest, yy, run, moon)"
        and at: "lunar_calendar ! nat (year_start y + today - new_year 1901) = (y, yy, run, rest + 1)" .
    show ?thesis unfolding index at using True by (simp add: get f fill_keeps_date del: One_nat_def)
  next
    case False
    then have p: "in_table (y - 1)" using y first index by (cases "y = 1901") (auto simp: in_table_def new_year_def)
    have addr: "\<not> year_addr y < 3" "year_addr y - 3 = year_addr (y - 1)"
      using p by (auto simp: year_addr_def in_table_def nat_diff_distrib)
    have before: "today < spring y" using False by simp
    from backward_finds [OF y p range(1) before] obtain rest yy run moon
      where f: "backward_loop (year_addr (y - 1)) (int (leap_of (year_addr (y - 1)))) (spring y - today) 12 0
          (month_num (year_addr (y - 1))) = (rest, yy, run, moon)"
        and at: "lunar_calendar ! nat (year_start y + today - new_year 1901)
          = (y - 1, yy, run, moon_days moon (year_addr (y - 1)) - rest + 1)" .
    have num: "(if int (leap_of (year_addr (y - 1))) \<noteq> 0 then 13 else 12) = month_num (year_addr (y - 1))" by (simp add: month_num_def)
    show ?thesis unfolding index at using False addr(1)
      by (simp add: get addr(2) num [simplified] f fill_keeps_date)
  qed
qed

text \<open>The day before the New Year of 2024 lies in the last month of the year before, and 2023 had a leap month 2.\<close>

theorem nongli_date_correct_witness:
  "\<forall>d. \<exists>r. nongli_get_date 2024 2 9 d = Some (0, r) \<and> (nian r, yue r, is_run r, ri r) = lunar_calendar ! nat (lunar_index 2024 2 9)"
proof -
  have "month_start 2024 2 = 31" using month_start_step [of 1 2024] by (simp add: month_start_def monthDays_def)
  moreover have "new_year 1901 = year_start 1901 + 49" by (simp add: new_year_def spring_def chunjie_interval_def year_addr_def G_year_code_def)
  ultimately have "0 \<le> lunar_index 2024 2 9" by (simp add: lunar_index_def year_start_def)
  then show ?thesis by (intro allI nongli_date_correct) (simp_all add: in_table_def monthDays_def)
qed

section \<open>The next solar term\<close>

text \<open>The day of solar term \<open>k\<close> of a year, counted from 0, and the date \<open>j\<close> days later in this month or the next.\<close>

definition term_day :: "int \<Rightarrow> nat \<Rightarrow> int" where
  "term_day y k = G_jie_qi_days ! k
     + (if push_bit (k mod 8) (G_jie_qi_fix ! (nat (y - 2000) * 3 + k div 8)) AND 0x80 \<noteq> 0
        then if k \<in> {1, 11, 18, 21} \<and> y < 2044 then 1 else -1 else 0)"

definition later :: "int \<Rightarrow> int \<Rightarrow> int \<Rightarrow> int \<Rightarrow> int \<times> int" where
  "later M mon day j = (if day + j \<le> M then (mon, day + j) else (mon + 1, day + j - M))"

definition term_at :: "int \<Rightarrow> int \<times> int \<Rightarrow> nat" where
  "term_at y t = get_jie_qi y (fst t) (snd t)"

lemma get_jie_qi_term:
  assumes "2000 \<le> y" "y \<le> 2050" "1 \<le> mon" "mon \<le> 12"
  shows "get_jie_qi y mon day = (let k = nat ((mon - 1) * 2) + (if day \<ge> 15 then 1 else 0) in if day = term_day y k then k + 1 else 0)"
  using assms by (simp add: get_jie_qi_def term_day_def Let_def)

declare next_jie_qi_loop.simps [simp del]

lemma next_loop_finds:
  assumes "0 < i" and "i + int k < M" and "1 \<le> day" "day \<le> M" "mon < 12"
    and "i \<le> j" "j \<le> i + int k" and "term_at y (later M mon day j) \<noteq> 0"
  shows "\<exists>n i'. next_jie_qi_loop k y (fst (later M mon day (i - 1))) (snd (later M mon day (i - 1))) M i = (n, i')
    \<and> i \<le> i' \<and> i' \<le> j \<and> n \<noteq> 0 \<and> n = term_at y (later M mon day i') \<and> (\<forall>l. i \<le> l \<and> l < i' \<longrightarrow> term_at y (later M mon day l) = 0)"
  using assms
proof (induction k arbitrary: i)
  case (Suc k)
  have move: "later M mon day i = (if snd (later M mon day (i - 1)) + 1 > M then if fst (later M mon day (i - 1)) = 12 then 1 else fst (later M mon day (i - 1)) + 1
      else fst (later M mon day (i - 1)), if snd (later M mon day (i - 1)) + 1 > M then 1 else snd (later M mon day (i - 1)) + 1)"
    using Suc.prems by (auto simp: later_def)
  have step: "next_jie_qi_loop (Suc k) y (fst (later M mon day (i - 1))) (snd (later M mon day (i - 1))) M i
      = (if term_at y (later M mon day i) \<noteq> 0 then (term_at y (later M mon day i), i)
         else next_jie_qi_loop k y (fst (later M mon day (i + 1 - 1))) (snd (later M mon day (i + 1 - 1))) M (i + 1))"
    by (subst next_jie_qi_loop.simps) (simp add: Let_def term_at_def move)
  show ?case
  proof (cases "term_at y (later M mon day i) = 0")
    case False
    then show ?thesis using Suc.prems by (simp add: step)
  next
    case True
    then have "i \<noteq> j" using Suc.prems by auto
    then obtain n i' where f: "next_jie_qi_loop k y (fst (later M mon day (i + 1 - 1))) (snd (later M mon day (i + 1 - 1))) M (i + 1) = (n, i')"
      and r: "i + 1 \<le> i'" "i' \<le> j" "n \<noteq> 0" "n = term_at y (later M mon day i')" "\<forall>l. i + 1 \<le> l \<and> l < i' \<longrightarrow> term_at y (later M mon day l) = 0"
      using Suc.IH [of "i + 1"] Suc.prems by auto
    have "\<forall>l. i \<le> l \<and> l < i' \<longrightarrow> term_at y (later M mon day l) = 0"
    proof (intro allI impI)
      fix l assume "i \<le> l \<and> l < i'"
      then show "term_at y (later M mon day l) = 0" using r(5) True by (cases "l = i") auto
    qed
    then show ?thesis using True r f by (intro exI [of _ n] exI [of _ i']) (simp add: step)
  qed
next
  case 0
  then have "later M mon day i = (if snd (later M mon day (i - 1)) + 1 > M then if fst (later M mon day (i - 1)) = 12 then 1 else fst (later M mon day (i - 1)) + 1
      else fst (later M mon day (i - 1)), if snd (later M mon day (i - 1)) + 1 > M then 1 else snd (later M mon day (i - 1)) + 1)"
    by (auto simp: later_def)
  moreover have "i = j" using 0 by simp
  ultimately show ?case using 0 by (subst next_jie_qi_loop.simps) (simp add: Let_def term_at_def)
qed

text \<open>Two neighbouring terms are at most 18 days apart.\<close>

lemma term_day_near: "G_jie_qi_days ! k - 1 \<le> term_day y k \<and> term_day y k \<le> G_jie_qi_days ! k + 1"
  by (simp add: term_day_def)

lemma term_ahead:
  assumes y: "2000 \<le> y" "y \<le> 2050" and mon: "1 \<le> mon" "mon \<le> 11" and day: "1 \<le> day" "day \<le> monthDays y mon"
  shows "\<exists>j. 1 \<le> j \<and> j \<le> 20 \<and> term_at y (later (monthDays y mon) mon day j) \<noteq> 0"
proof -
  let ?M = "monthDays y mon" and ?k = "nat ((mon - 1) * 2)"
  let ?a = "term_day y ?k" and ?b = "term_day y (?k + 1)" and ?c = "term_day y (?k + 2)"
  have m: "mon = 1 \<or> mon = 2 \<or> mon = 3 \<or> mon = 4 \<or> mon = 5 \<or> mon = 6 \<or> mon = 7 \<or> mon = 8 \<or> mon = 9 \<or> mon = 10 \<or> mon = 11"
    using mon by presburger
  have near: "1 \<le> ?a \<and> ?a < 15 \<and> 15 \<le> ?b \<and> ?b \<le> ?M \<and> 1 \<le> ?c \<and> ?c < 15 \<and> ?a \<le> 20 \<and> ?b - ?a \<le> 20 \<and> ?M - ?b + ?c \<le> 20"
    using m term_day_near [of ?k y] term_day_near [of "?k + 1" y] term_day_near [of "?k + 2" y]
    by (elim disjE) (simp_all add: G_jie_qi_days_def monthDays_def)
  have here: "get_jie_qi y mon ?a \<noteq> 0" "get_jie_qi y mon ?b \<noteq> 0"
    using near get_jie_qi_term [OF y mon(1), of ?a] get_jie_qi_term [OF y mon(1), of ?b] mon by (simp_all add: Let_def)
  have "nat (mon * 2) = ?k + 2" using mon by simp
  then have there: "get_jie_qi y (mon + 1) ?c \<noteq> 0" using near get_jie_qi_term [OF y, of "mon + 1" ?c] mon by (simp add: Let_def)
  consider "day < ?a" | "?a \<le> day" "day < ?b" | "?b \<le> day" by linarith
  then show ?thesis
  proof cases
    case 1
    then show ?thesis using near here(1) day by (intro exI [of _ "?a - day"]) (simp add: term_at_def later_def)
  next
    case 2
    then show ?thesis using near here(2) day by (intro exI [of _ "?b - day"]) (simp add: term_at_def later_def)
  next
    case 3
    then show ?thesis using near there day by (intro exI [of _ "?M + ?c - day"]) (simp add: term_at_def later_def)
  qed
qed

text \<open>C31: From January to November of the years of the table, the loop finds a solar term within 20 days, and it is
  the next one: no day in between has a term, counting the days through the real end of the month.\<close>

theorem next_solar_term_found:
  assumes "2000 \<le> y" "y \<le> 2050" and "1 \<le> mon" "mon \<le> 11" and "1 \<le> day" "day \<le> monthDays y mon"
  shows "\<exists>n i. get_next_jie_qi y mon day = (n, i) \<and> 1 \<le> i \<and> i \<le> 20 \<and> n \<noteq> 0
    \<and> n = term_at y (later (monthDays y mon) mon day i)
    \<and> (\<forall>l. 1 \<le> l \<and> l < i \<longrightarrow> term_at y (later (monthDays y mon) mon day l) = 0)"
proof -
  have days: "G_days_month ! nat (mon - 1) + (if mon = 2 \<and> is_leapyear y then 1 else 0) = monthDays y mon"
  proof -
    have "mon = 1 \<or> mon = 2 \<or> mon = 3 \<or> mon = 4 \<or> mon = 5 \<or> mon = 6 \<or> mon = 7 \<or> mon = 8 \<or> mon = 9 \<or> mon = 10 \<or> mon = 11"
      using assms(3,4) by presburger
    then show ?thesis by (elim disjE) (simp_all add: G_days_month_def monthDays_def is_leapyear_def isLeapyear_def)
  qed
  have start: "later (monthDays y mon) mon day (1 - 1) = (mon, day)" using assms by (simp add: later_def)
  obtain j where j: "1 \<le> j" "j \<le> 20" "term_at y (later (monthDays y mon) mon day j) \<noteq> 0" using term_ahead [OF assms] by blast
  have "28 \<le> monthDays y mon" using monthDays_bounds(1) [of mon y] assms by simp
  then show ?thesis
    using next_loop_finds [of 1 19 "monthDays y mon" day mon j y] j assms unfolding get_next_jie_qi_def days start by auto
qed

theorem next_solar_term_found_witness:
  "\<exists>n i. get_next_jie_qi 2024 2 29 = (n, i) \<and> 1 \<le> i \<and> i \<le> 20 \<and> n \<noteq> 0 \<and> n = term_at 2024 (later 29 2 29 i)
    \<and> (\<forall>l. 1 \<le> l \<and> l < i \<longrightarrow> term_at 2024 (later 29 2 29 l) = 0)"
  using next_solar_term_found [of 2024 2 29] by (simp add: monthDays_def isLeapyear_def)

text \<open>
  In December the year stays the same when the month wraps around, so the terms of January are looked up in the row of
  the old year: on the last day of 2000 the next term is announced for January 6, but it is on January 5 of 2001.
\<close>

lemma december_uses_old_year:
  "get_next_jie_qi 2000 12 31 = (1, 6)" "get_jie_qi 2001 1 5 = 1" "get_jie_qi 2001 1 6 = 0"
  by (simp_all add: get_next_jie_qi_def next_jie_qi_loop.simps get_jie_qi_def G_days_month_def G_jie_qi_days_def G_jie_qi_fix_def
    push_bit_eq_mult Let_def eval_nat_numeral del: eval_nat_numeral)

text \<open>A date before the New Year of 1901 would be looked up in the year before the table.\<close>

lemma before_table: "nongli_get_date 1901 1 1 d = None"
  by (simp add: nongli_get_date_def chunjie_interval_def G_year_code_def G_days_interval_def Let_def)

end
