(* ===== verification/Calculator.thy ===== *)
theory Calculator
  imports CNumber
begin

text \<open>
  The calculator: \<^verbatim>\<open>src/calculator/calculator.c\<close>. An expression is parsed into a binary tree by recursive
  descent, and the tree is evaluated.

  The text behind a pointer is the list of its characters up to the terminating 0, so that moving a pointer
  drops characters; the closing bracket that the parser overwrites while it reads a bracket is cut off instead.
  An out parameter that a function leaves alone is \<open>None\<close>. Whether a call of \<^verbatim>\<open>calloc\<close> succeeds is a
  parameter, a function of the number of the call, as the code of the calculator tests for failure; the \<^verbatim>\<open>calloc\<close> of
  \<^verbatim>\<open>memH.c\<close> does not fail but never returns when the heap is full (theory MemH), so that with it the
  branches of a failure are dead. \<^verbatim>\<open>CAL_TYPE\<close> is \<^verbatim>\<open>double\<close>: its values, \<^verbatim>\<open>atof\<close> among them, and operations are
  a parameter as well.
\<close>

section \<open>Data\<close>

type_synonym chars = "uint8 list"

record 'v CAL_TYPE =
  cal_of :: "chars \<Rightarrow> 'v"
  cal_add :: "'v \<Rightarrow> 'v \<Rightarrow> 'v"
  cal_sub :: "'v \<Rightarrow> 'v \<Rightarrow> 'v"
  cal_mul :: "'v \<Rightarrow> 'v \<Rightarrow> 'v"
  cal_div :: "'v \<Rightarrow> 'v \<Rightarrow> 'v"
  cal_zero :: 'v
  cal_is_zero :: "'v \<Rightarrow> bool"

datatype BTREE = Null | Node chars BTREE BTREE

text \<open>\<open>cal_nodes\<close> counts the nodes that are allocated, \<open>cal_calls\<close> the calls of \<^verbatim>\<open>calloc\<close>.\<close>

datatype message = Unlegal chars | Unmatched | Divide_by_0 | Unknown_operator

record cal_state =
  cal_calls :: nat
  cal_nodes :: int
  cal_out :: "message list"

text \<open>\<open>Fault\<close>: an access outside of an object or through a null pointer.\<close>

datatype 'a run = Done 'a | Fault | No_fuel

definition CAL_DATA_MAX_LEN :: nat where "CAL_DATA_MAX_LEN = 20"

definition is_digit :: "uint8 \<Rightarrow> bool" where "is_digit c \<longleftrightarrow> isdigit (uint c) \<noteq> 0"

section \<open>Parsing\<close>

fun skip_blank :: "chars \<Rightarrow> chars" where
  "skip_blank (c # s) = (if is_space c then skip_blank s else c # s)"
| "skip_blank [] = []"

definition calloc_node :: "(nat \<Rightarrow> bool) \<Rightarrow> cal_state \<Rightarrow> bool \<times> cal_state" where
  "calloc_node ok st =
     (ok (cal_calls st), st\<lparr>cal_calls := cal_calls st + 1, cal_nodes := cal_nodes st + of_bool (ok (cal_calls st))\<rparr>)"

definition free_node :: "cal_state \<Rightarrow> cal_state" where
  "free_node st = st\<lparr>cal_nodes := cal_nodes st - 1\<rparr>"

fun destory_tree :: "BTREE \<Rightarrow> cal_state \<Rightarrow> cal_state" where
  "destory_tree Null st = st"
| "destory_tree (Node d l r) st = free_node (destory_tree r (destory_tree l st))"

definition get_operand_node :: "(nat \<Rightarrow> bool) \<Rightarrow> chars \<Rightarrow> cal_state \<Rightarrow> (BTREE \<times> chars option \<times> cal_state) run" where
  "get_operand_node ok expr0 st =
     (let expr = skip_blank expr0
      in if expr = [] then Done (Null, None, st)
         else
           let (good, st1) = calloc_node ok st
           in if \<not> good then Done (Null, None, st1)
              else
                let sign = (if hd expr = 43 \<or> hd expr = 45 then [hd expr] else []);
                    expr1 = drop (length sign) expr;
                    data = sign @ takeWhile (\<lambda>c. is_digit c \<or> c = 46) expr1;
                    expr2 = dropWhile (\<lambda>c. is_digit c \<or> c = 46) expr1
                in if length data \<ge> CAL_DATA_MAX_LEN then Fault
                   else if data = [] \<or> last data = 43 \<or> last data = 45 then Done (Null, None, free_node st1)
                   else Done (Node data Null Null, Some expr2, st1))"

definition get_operator_node :: "(nat \<Rightarrow> bool) \<Rightarrow> chars \<Rightarrow> cal_state \<Rightarrow> BTREE \<times> chars option \<times> cal_state" where
  "get_operator_node ok expr0 st =
     (let expr = skip_blank expr0
      in if expr = [] then (Null, None, st)
         else
           let (good, st1) = calloc_node ok st
           in if good then (Node [hd expr] Null Null, Some (tl expr), st1) else (Null, Some expr, st1))"

text \<open>The text up to the bracket that closes the \<open>n\<close> open ones, and the text after it.\<close>

fun split_bracket :: "nat \<Rightarrow> chars \<Rightarrow> (chars \<times> chars) option" where
  "split_bracket n [] = None"
| "split_bracket n (c # s) =
     (if c = 41 \<and> n = 1 then Some ([], s)
      else map_option (apfst ((#) c)) (split_bracket (if c = 40 then n + 1 else if c = 41 then n - 1 else n) s))"

definition free_operator :: "BTREE \<Rightarrow> cal_state \<Rightarrow> cal_state" where
  "free_operator t st = (case t of Null \<Rightarrow> st | Node d l r \<Rightarrow> free_node st)"

primrec run_bind :: "'a run \<Rightarrow> ('a \<Rightarrow> 'b run) \<Rightarrow> 'b run" where
  "run_bind (Done x) f = f x"
| "run_bind Fault f = Fault"
| "run_bind No_fuel f = No_fuel"

text \<open>Every call takes one unit of fuel.\<close>

function get_prim :: "(nat \<Rightarrow> bool) \<Rightarrow> nat \<Rightarrow> chars \<Rightarrow> cal_state \<Rightarrow> (BTREE \<times> chars option \<times> cal_state) run"
  and get_term_tree :: "(nat \<Rightarrow> bool) \<Rightarrow> nat \<Rightarrow> chars \<Rightarrow> cal_state \<Rightarrow> (BTREE \<times> chars option \<times> cal_state) run"
  and term_loop :: "(nat \<Rightarrow> bool) \<Rightarrow> nat \<Rightarrow> BTREE \<Rightarrow> chars \<Rightarrow> cal_state \<Rightarrow> (BTREE \<times> chars option \<times> cal_state) run"
  and get_expr_tree :: "(nat \<Rightarrow> bool) \<Rightarrow> nat \<Rightarrow> chars \<Rightarrow> cal_state \<Rightarrow> (BTREE \<times> chars option \<times> cal_state) run"
  and expr_loop :: "(nat \<Rightarrow> bool) \<Rightarrow> nat \<Rightarrow> BTREE \<Rightarrow> chars \<Rightarrow> cal_state \<Rightarrow> (BTREE \<times> chars option \<times> cal_state) run" where
  "get_prim ok fuel expr st =
     (case fuel of 0 \<Rightarrow> No_fuel | Suc n \<Rightarrow>
      if expr \<noteq> [] \<and> hd expr = 40 then
        (case split_bracket 1 (tl expr) of
           None \<Rightarrow> Done (Null, None, st\<lparr>cal_out := cal_out st @ [Unmatched]\<rparr>)
         | Some (sub, after) \<Rightarrow>
             run_bind (get_expr_tree ok n sub st) (\<lambda>(pNode, r, st1).
               Done (pNode, Some (tl (case r of None \<Rightarrow> expr | Some e \<Rightarrow> e @ 41 # after)), st1)))
      else
        run_bind (get_operand_node ok expr st) (\<lambda>(pNode, r, st1).
          Done (pNode, Some (case r of None \<Rightarrow> expr | Some e \<Rightarrow> e), st1)))"
| "get_term_tree ok fuel expr st =
     (case fuel of 0 \<Rightarrow> No_fuel | Suc n \<Rightarrow>
      run_bind (get_prim ok n expr st) (\<lambda>(pLeft, r, st1).
        if pLeft = Null then Done (Null, None, st1)
        else term_loop ok n pLeft (skip_blank (case r of None \<Rightarrow> expr | Some e \<Rightarrow> e)) st1))"
| "term_loop ok fuel pLeft expr st =
     (case fuel of 0 \<Rightarrow> No_fuel | Suc n \<Rightarrow>
      if expr \<noteq> [] \<and> (hd expr = 42 \<or> hd expr = 47) then
        (case get_operator_node ok expr st of (pOperator, r, st1) \<Rightarrow>
         let expr1 = (case r of None \<Rightarrow> expr | Some e \<Rightarrow> e)
         in run_bind (get_prim ok n expr1 st1) (\<lambda>(pRight, r2, st2).
              let expr2 = (case r2 of None \<Rightarrow> expr1 | Some e \<Rightarrow> e)
              in if pRight = Null then Done (Null, Some expr2, destory_tree pLeft (free_operator pOperator st2))
                 else (case pOperator of Null \<Rightarrow> Fault | Node d l r3 \<Rightarrow> term_loop ok n (Node d pLeft pRight) expr2 st2)))
      else Done (pLeft, Some expr, st))"
| "get_expr_tree ok fuel expr st =
     (case fuel of 0 \<Rightarrow> No_fuel | Suc n \<Rightarrow>
      run_bind (get_term_tree ok n expr st) (\<lambda>(pLeft, r, st1).
        if pLeft = Null then Done (Null, None, st1)
        else expr_loop ok n pLeft (case r of None \<Rightarrow> expr | Some e \<Rightarrow> e) st1))"
| "expr_loop ok fuel pLeft expr st =
     (case fuel of 0 \<Rightarrow> No_fuel | Suc n \<Rightarrow>
      (case get_operator_node ok expr st of (pOperator, r, st1) \<Rightarrow>
       let expr1 = (case r of None \<Rightarrow> expr | Some e \<Rightarrow> e)
       in case pOperator of
            Null \<Rightarrow> Done (pLeft, Some expr1, st1)
          | Node d l r3 \<Rightarrow>
              run_bind (get_term_tree ok n expr1 st1) (\<lambda>(pRight, r2, st2).
                let expr2 = (case r2 of None \<Rightarrow> expr1 | Some e \<Rightarrow> e)
                in if pRight = Null then Done (Null, Some expr2, destory_tree pLeft (free_operator pOperator st2))
                   else expr_loop ok n (Node d pLeft pRight) expr2 st2)))"
  by pat_completeness auto
termination
  by (relation "measure (case_sum (case_sum (\<lambda>(ok, n, e, s). n) (\<lambda>(ok, n, e, s). n))
    (case_sum (\<lambda>(ok, n, t, e, s). n) (case_sum (\<lambda>(ok, n, e, s). n) (\<lambda>(ok, n, t, e, s). n))))") auto

declare get_prim.simps [simp del] get_term_tree.simps [simp del] term_loop.simps [simp del]
  get_expr_tree.simps [simp del] expr_loop.simps [simp del]

section \<open>Evaluation\<close>

text \<open>The operands of \<open>+\<close>, \<open>-\<close> and \<open>*\<close> are evaluated from left to right; C leaves the order open, which only the order of messages shows.\<close>

fun cal_btree_value :: "'v CAL_TYPE \<Rightarrow> BTREE \<Rightarrow> 'v \<times> message list" where
  "cal_btree_value C Null = (cal_zero C, [])"
| "cal_btree_value C (Node data l r) =
     (if length data > 1 \<or> is_digit (hd data) then (cal_of C data, [])
      else if hd data = 43 then
        let (x, m) = cal_btree_value C l; (y, m') = cal_btree_value C r in (cal_add C x y, m @ m')
      else if hd data = 45 then
        let (x, m) = cal_btree_value C l; (y, m') = cal_btree_value C r in (cal_sub C x y, m @ m')
      else if hd data = 42 then
        let (x, m) = cal_btree_value C l; (y, m') = cal_btree_value C r in (cal_mul C x y, m @ m')
      else if hd data = 47 then
        let (y, m) = cal_btree_value C r
        in if cal_is_zero C y then (cal_zero C, m @ [Divide_by_0])
           else let (x, m') = cal_btree_value C l in (cal_div C x y, m @ m')
      else (cal_zero C, [Unknown_operator]))"

definition cal_fuel :: "chars \<Rightarrow> nat" where
  "cal_fuel s = 3 * length s + 4"

definition calculate :: "(nat \<Rightarrow> bool) \<Rightarrow> 'v CAL_TYPE \<Rightarrow> chars \<Rightarrow> cal_state \<Rightarrow> ('v \<times> cal_state) run" where
  "calculate ok C expression st =
     run_bind (get_expr_tree ok (cal_fuel expression) expression st) (\<lambda>(pBTree, r, st1).
       if pBTree = Null then
         Done (cal_zero C, st1\<lparr>cal_out := cal_out st1 @ [Unlegal (case r of None \<Rightarrow> expression | Some e \<Rightarrow> e)]\<rparr>)
       else
         let (value, msgs) = cal_btree_value C pBTree
         in Done (value, destory_tree pBTree (st1\<lparr>cal_out := cal_out st1 @ msgs\<rparr>)))"

section \<open>The classes of characters\<close>

lemma is_digit_iff: "is_digit c \<longleftrightarrow> 48 \<le> unat c \<and> unat c \<le> 57"
proof -
  have c: "unat c < 256" using unsigned_less [where 'a = nat, of c] by simp
  have u: "uint c = int (unat c)" by simp
  show ?thesis unfolding is_digit_def u using c by (simp add: ctype_defs ctype_test_eq ctype_ranges ct_defs del: of_nat_unat)
qed

lemma skip_blank_length: "length (skip_blank s) \<le> length s"
  by (induction s) simp_all

lemma skip_blank_id: "s = [] \<or> \<not> is_space (hd s) \<Longrightarrow> skip_blank s = s"
  by (cases s) simp_all

fun size_tree :: "BTREE \<Rightarrow> nat" where
  "size_tree Null = 0"
| "size_tree (Node d l r) = size_tree l + size_tree r + 1"

lemma destory_tree_frees: "destory_tree t st = st\<lparr>cal_nodes := cal_nodes st - int (size_tree t)\<rparr>"
  by (induction t arbitrary: st) (simp_all add: free_node_def)

lemmas parser_simps = get_prim.simps get_term_tree.simps term_loop.simps get_expr_tree.simps expr_loop.simps

text \<open>What each function leaves: not more text than it got, and as many nodes as its tree has.\<close>

definition keeps :: "chars \<Rightarrow> cal_state \<Rightarrow> nat \<Rightarrow> (BTREE \<times> chars option \<times> cal_state) run \<Rightarrow> bool" where
  "keeps expr st used x \<longleftrightarrow> (case x of
     Done (t, r, st1) \<Rightarrow> length (case r of None \<Rightarrow> expr | Some e \<Rightarrow> e) \<le> length expr
       \<and> cal_nodes st1 = cal_nodes st - int used + int (size_tree t)
   | _ \<Rightarrow> True)"

lemma keeps_simps:
  "keeps expr st used Fault" "keeps expr st used No_fuel"
  "keeps expr st used (Done (t, r, st1)) \<longleftrightarrow> length (case r of None \<Rightarrow> expr | Some e \<Rightarrow> e) \<le> length expr
       \<and> cal_nodes st1 = cal_nodes st - int used + int (size_tree t)"
  by (simp_all add: keeps_def)

lemma rest_length: "length (dropWhile P (drop n (skip_blank s))) \<le> length s" "length (dropWhile P (skip_blank s)) \<le> length s"
  using length_dropWhile_le [of P "drop n (skip_blank s)"] length_dropWhile_le [of P "skip_blank s"] skip_blank_length [of s]
  by simp_all

lemma get_operand_keeps: "keeps expr st 0 (get_operand_node ok expr st)"
  by (auto simp: get_operand_node_def Let_def calloc_node_def keeps_simps free_node_def rest_length)

lemma get_operator_cases:
  assumes "get_operator_node ok expr st = (t, r, st1)"
  shows "(\<exists>c. t = Node [c] Null Null \<and> (\<exists>e. r = Some e \<and> length e < length expr \<and> skip_blank expr = c # e)
      \<and> cal_nodes st1 = cal_nodes st + 1)
    \<or> t = Null \<and> length (case r of None \<Rightarrow> expr | Some e \<Rightarrow> e) \<le> length expr \<and> cal_nodes st1 = cal_nodes st"
  using assms skip_blank_length [of expr]
  by (cases "skip_blank expr") (auto simp: get_operator_node_def Let_def calloc_node_def split: if_splits)

lemma split_bracket_length: "split_bracket n s = Some (a, b) \<Longrightarrow> s = a @ 41 # b"
  by (induction n s arbitrary: a rule: split_bracket.induct) (auto split: if_splits)

lemma keeps_bind:
  assumes "keeps expr st u x"
    and "\<And>t r st1. x = Done (t, r, st1) \<Longrightarrow> length (case r of None \<Rightarrow> expr | Some e \<Rightarrow> e) \<le> length expr
      \<Longrightarrow> cal_nodes st1 = cal_nodes st - int u + int (size_tree t) \<Longrightarrow> keeps expr' st' u' (f (t, r, st1))"
  shows "keeps expr' st' u' (run_bind x f)"
  using assms by (cases x) (auto simp: keeps_simps)

text \<open>A call of the parser with the rest of the text, after \<open>t\<close> was added to the tree.\<close>

lemma keeps_next:
  "keeps e1 st1 u1 x \<Longrightarrow> length e1 \<le> length expr \<Longrightarrow> cal_nodes st1 - int u1 = cal_nodes st - int u \<Longrightarrow> keeps expr st u x"
  by (auto simp: keeps_def split: run.splits option.splits)

lemma parser_keeps:
  "keeps expr st 0 (get_prim ok n expr st)"
  "keeps expr st 0 (get_term_tree ok n expr st)"
  "keeps expr st (size_tree p) (term_loop ok n p expr st)"
  "keeps expr st 0 (get_expr_tree ok n expr st)"
  "keeps expr st (size_tree p) (expr_loop ok n p expr st)"
proof (induction n arbitrary: expr st p and expr st p and expr st p and expr st p and expr st p)
  case 0
  show "keeps expr st 0 (get_prim ok 0 expr st)" "keeps expr st 0 (get_term_tree ok 0 expr st)"
    "keeps expr st (size_tree p) (term_loop ok 0 p expr st)" "keeps expr st 0 (get_expr_tree ok 0 expr st)"
    "keeps expr st (size_tree p) (expr_loop ok 0 p expr st)" for expr st p
    by (simp_all add: parser_simps keeps_simps)
next
  case (Suc n)
  {
    case 1
    show ?case
    proof (cases "expr \<noteq> [] \<and> hd expr = 40")
      case True
      show ?thesis
      proof (cases "split_bracket 1 (tl expr)")
        case None
        then show ?thesis using True by (simp add: get_prim.simps keeps_simps)
      next
        case (Some sa)
        obtain sub after where sa: "sa = (sub, after)" by fastforce
        have len: "length expr = length sub + length after + 2"
          using split_bracket_length [of 1 "tl expr" sub after] Some sa True by (cases expr) auto
        have "keeps expr st 0 (run_bind (get_expr_tree ok n sub st) (\<lambda>(pNode, r, st1).
            Done (pNode, Some (tl (case r of None \<Rightarrow> expr | Some e \<Rightarrow> e @ 41 # after)), st1)))"
          by (rule keeps_bind [OF Suc.IH(4)]) (auto simp: keeps_simps len split: option.splits)
        then show ?thesis using True Some sa by (simp add: get_prim.simps)
      qed
    next
      case False
      have "keeps expr st 0 (run_bind (get_operand_node ok expr st) (\<lambda>(pNode, r, st1). Done (pNode, Some (case r of None \<Rightarrow> expr | Some e \<Rightarrow> e), st1)))"
        by (rule keeps_bind [OF get_operand_keeps]) (auto simp: keeps_simps)
      then show ?thesis unfolding get_prim.simps nat.case if_not_P [OF False] .
    qed
  next
    case 2
    show ?case unfolding get_term_tree.simps nat.case
    proof (rule keeps_bind [OF Suc.IH(1)], simp add: Let_def, intro conjI impI)
      fix t r and st1 :: cal_state
      let ?e = "case r of None \<Rightarrow> expr | Some e \<Rightarrow> e"
      assume "length ?e \<le> length expr" and nodes: "cal_nodes st1 = cal_nodes st + int (size_tree t)"
      then show "keeps expr st 0 (term_loop ok n t (skip_blank ?e) st1)"
        using skip_blank_length [of ?e] by (intro keeps_next [OF Suc.IH(3)]) simp_all
    qed (auto simp: keeps_simps)
  next
    case 3
    obtain op r st1 where op: "get_operator_node ok expr st = (op, r, st1)" by (metis prod_cases3)
    let ?e1 = "case r of None \<Rightarrow> expr | Some e \<Rightarrow> e"
    have e1: "length ?e1 \<le> length expr" and op_nodes: "cal_nodes (free_operator op st2) = cal_nodes st2 - (cal_nodes st1 - cal_nodes st)" for st2 :: cal_state
      using get_operator_cases [OF op] by (auto simp: free_operator_def free_node_def)
    have opd: "cal_nodes st1 = cal_nodes st + 1" if "op = Node d l r3" for d l r3 using get_operator_cases [OF op] that by auto
    have "keeps expr st (size_tree p) (run_bind (get_prim ok n ?e1 st1) (\<lambda>(pRight, r2, st2).
        let expr2 = (case r2 of None \<Rightarrow> ?e1 | Some e \<Rightarrow> e)
        in if pRight = Null then Done (Null, Some expr2, destory_tree p (free_operator op st2))
           else (case op of Null \<Rightarrow> Fault | Node d l r3 \<Rightarrow> term_loop ok n (Node d p pRight) expr2 st2)))"
    proof (rule keeps_bind [OF Suc.IH(1)], simp add: Let_def, intro conjI impI)
      fix t r2 and st2 :: cal_state
      assume "length (case r2 of None \<Rightarrow> ?e1 | Some e \<Rightarrow> e) \<le> length ?e1" "cal_nodes st2 = cal_nodes st1 + int (size_tree t)"
      then show "keeps expr st (size_tree p) (case op of Null \<Rightarrow> Fault | Node d l r3 \<Rightarrow>
          term_loop ok n (Node d p t) (case r2 of None \<Rightarrow> ?e1 | Some e \<Rightarrow> e) st2)"
        using e1 opd by (cases op) (auto simp: keeps_simps intro!: keeps_next [OF Suc.IH(3)])
    qed (use e1 op_nodes in \<open>auto simp: keeps_simps destory_tree_frees\<close>)
    then show ?case by (simp add: term_loop.simps op keeps_simps Let_def)
  next
    case 4
    show ?case unfolding get_expr_tree.simps nat.case
    proof (rule keeps_bind [OF Suc.IH(2)], simp add: Let_def, intro conjI impI)
      fix t r and st1 :: cal_state
      assume "length (case r of None \<Rightarrow> expr | Some e \<Rightarrow> e) \<le> length expr" and "cal_nodes st1 = cal_nodes st + int (size_tree t)"
      then show "keeps expr st 0 (expr_loop ok n t (case r of None \<Rightarrow> expr | Some e \<Rightarrow> e) st1)"
        by (intro keeps_next [OF Suc.IH(5)]) simp_all
    qed (auto simp: keeps_simps)
  next
    case 5
    obtain op r st1 where op: "get_operator_node ok expr st = (op, r, st1)" by (metis prod_cases3)
    let ?e1 = "case r of None \<Rightarrow> expr | Some e \<Rightarrow> e"
    have e1: "length ?e1 \<le> length expr" and op_nodes: "cal_nodes (free_operator op st2) = cal_nodes st2 - (cal_nodes st1 - cal_nodes st)" for st2 :: cal_state
      using get_operator_cases [OF op] by (auto simp: free_operator_def free_node_def)
    show ?case
    proof (cases op)
      case Null
      then show ?thesis using get_operator_cases [OF op] by (simp add: expr_loop.simps op keeps_simps)
    next
      case (Node d l r3)
      then have opd: "cal_nodes st1 = cal_nodes st + 1" using get_operator_cases [OF op] by auto
      have "keeps expr st (size_tree p) (run_bind (get_term_tree ok n ?e1 st1) (\<lambda>(pRight, r2, st2).
          let expr2 = (case r2 of None \<Rightarrow> ?e1 | Some e \<Rightarrow> e)
          in if pRight = Null then Done (Null, Some expr2, destory_tree p (free_operator (Node d l r3) st2))
             else expr_loop ok n (Node d p pRight) expr2 st2))"
      proof (rule keeps_bind [OF Suc.IH(2)], simp add: Let_def, intro conjI impI)
        fix t r2 and st2 :: cal_state
        assume "length (case r2 of None \<Rightarrow> ?e1 | Some e \<Rightarrow> e) \<le> length ?e1" "cal_nodes st2 = cal_nodes st1 + int (size_tree t)"
        then show "keeps expr st (size_tree p) (expr_loop ok n (Node d p t) (case r2 of None \<Rightarrow> ?e1 | Some e \<Rightarrow> e) st2)"
          using e1 opd by (auto intro!: keeps_next [OF Suc.IH(5)])
      qed (use e1 op_nodes [unfolded Node] in \<open>auto simp: keeps_simps destory_tree_frees\<close>)
      then show ?thesis by (simp add: expr_loop.simps op Node Let_def)
    qed
  }
qed

text \<open>Three units of fuel for each character are enough.\<close>

lemma parser_rest:
  "get_prim ok n expr st = Done (t, r, st1) \<Longrightarrow> length (case r of None \<Rightarrow> expr | Some e \<Rightarrow> e) \<le> length expr"
  "get_term_tree ok n expr st = Done (t, r, st1) \<Longrightarrow> length (case r of None \<Rightarrow> expr | Some e \<Rightarrow> e) \<le> length expr"
  using parser_keeps(1,2) [of expr st ok n] by (simp_all add: keeps_simps)

lemma run_bind_fuel: "run_bind x f = No_fuel \<longleftrightarrow> x = No_fuel \<or> (\<exists>t r st1. x = Done (t, r, st1) \<and> f (t, r, st1) = No_fuel)"
  by (cases x) auto

lemma operand_fuel: "get_operand_node ok expr st \<noteq> No_fuel"
  by (simp add: get_operand_node_def Let_def split: prod.split)

lemma parser_fuel:
  "3 * length expr < n \<Longrightarrow> get_prim ok n expr st \<noteq> No_fuel"
  "3 * length expr + 2 < n \<Longrightarrow> get_term_tree ok n expr st \<noteq> No_fuel"
  "3 * length expr + 1 < n \<Longrightarrow> term_loop ok n p expr st \<noteq> No_fuel"
  "3 * length expr + 3 < n \<Longrightarrow> get_expr_tree ok n expr st \<noteq> No_fuel"
  "3 * length expr < n \<Longrightarrow> expr_loop ok n p expr st \<noteq> No_fuel"
proof (induction n arbitrary: expr st p and expr st p and expr st p and expr st p and expr st p)
  case (Suc n)
  {
    case 1
    have sub: "get_expr_tree ok n sub st \<noteq> No_fuel" if "split_bracket (Suc 0) (tl expr) = Some (sub, after)" "expr \<noteq> []" for sub after
      by (rule Suc.IH(4)) (use split_bracket_length [OF that(1)] that(2) 1 in \<open>cases expr, auto\<close>)
    show ?case
      by (auto simp: get_prim.simps run_bind_fuel operand_fuel split: option.split dest: sub)
  next
    case 2
    show ?case
    proof
      assume "get_term_tree ok (Suc n) expr st = No_fuel"
      then obtain t r st1 where t: "get_prim ok n expr st = Done (t, r, st1)"
        "term_loop ok n t (skip_blank (case r of None \<Rightarrow> expr | Some e \<Rightarrow> e)) st1 = No_fuel"
        using Suc.IH(1) [of expr st] 2 by (auto simp: get_term_tree.simps run_bind_fuel split: if_splits)
      have "3 * length (skip_blank (case r of None \<Rightarrow> expr | Some e \<Rightarrow> e)) + 1 < n"
        using parser_rest(1) [OF t(1)] skip_blank_length [of "case r of None \<Rightarrow> expr | Some e \<Rightarrow> e"] 2 by linarith
      from Suc.IH(3) [OF this] t(2) show False by blast
    qed
  next
    case 3
    obtain op r st1 where op: "get_operator_node ok expr st = (op, r, st1)" by (metis prod_cases3)
    let ?e1 = "case r of None \<Rightarrow> expr | Some e \<Rightarrow> e"
    have e1: "3 * length ?e1 < n" using get_operator_cases [OF op] 3 by auto
    show ?case
    proof
      assume "term_loop ok (Suc n) p expr st = No_fuel"
      then obtain t r2 st2 d l r3 where t: "get_prim ok n ?e1 st1 = Done (t, r2, st2)" and node: "op = Node d l r3"
        and no: "term_loop ok n (Node d p t) (case r2 of None \<Rightarrow> ?e1 | Some e \<Rightarrow> e) st2 = No_fuel"
        using Suc.IH(1) [OF e1] by (auto simp: term_loop.simps op run_bind_fuel Let_def split: if_splits BTREE.splits)
      have "length ?e1 < length expr" using get_operator_cases [OF op] node by auto
      then have "3 * length (case r2 of None \<Rightarrow> ?e1 | Some e \<Rightarrow> e) + 1 < n" using parser_rest(1) [OF t] 3 by linarith
      from Suc.IH(3) [OF this] no show False by blast
    qed
  next
    case 4
    show ?case
    proof
      assume "get_expr_tree ok (Suc n) expr st = No_fuel"
      then obtain t r st1 where t: "get_term_tree ok n expr st = Done (t, r, st1)"
        "expr_loop ok n t (case r of None \<Rightarrow> expr | Some e \<Rightarrow> e) st1 = No_fuel"
        using Suc.IH(2) [of expr st] 4 by (auto simp: get_expr_tree.simps run_bind_fuel split: if_splits)
      have "3 * length (case r of None \<Rightarrow> expr | Some e \<Rightarrow> e) < n" using parser_rest(2) [OF t(1)] 4 by linarith
      from Suc.IH(5) [OF this] t(2) show False by blast
    qed
  next
    case 5
    obtain op r st1 where op: "get_operator_node ok expr st = (op, r, st1)" by (metis prod_cases3)
    let ?e1 = "case r of None \<Rightarrow> expr | Some e \<Rightarrow> e"
    show ?case
    proof (cases op)
      case (Node d l r3)
      then have less: "length ?e1 < length expr" using get_operator_cases [OF op] by auto
      show ?thesis
      proof
        assume "expr_loop ok (Suc n) p expr st = No_fuel"
        then obtain t r2 st2 where t: "get_term_tree ok n ?e1 st1 = Done (t, r2, st2)"
          and no: "expr_loop ok n (Node d p t) (case r2 of None \<Rightarrow> ?e1 | Some e \<Rightarrow> e) st2 = No_fuel"
          using Suc.IH(2) [of ?e1 st1] less 5 by (auto simp: expr_loop.simps op Node run_bind_fuel Let_def split: if_splits)
        have "3 * length (case r2 of None \<Rightarrow> ?e1 | Some e \<Rightarrow> e) < n" using parser_rest(2) [OF t] less 5 by linarith
        from Suc.IH(5) [OF this] no show False by blast
      qed
    qed (simp add: expr_loop.simps op)
  }
qed simp_all

text \<open>More fuel does not change a result.\<close>

lemma run_bind_mono:
  assumes "run_bind x f \<noteq> No_fuel" and "x \<noteq> No_fuel \<Longrightarrow> x' = x" and "\<And>v. f v \<noteq> No_fuel \<Longrightarrow> f' v = f v"
  shows "run_bind x' f' = run_bind x f"
  using assms by (cases x) auto

lemma parser_mono_Suc:
  "get_prim ok n expr st \<noteq> No_fuel \<Longrightarrow> get_prim ok (Suc n) expr st = get_prim ok n expr st"
  "get_term_tree ok n expr st \<noteq> No_fuel \<Longrightarrow> get_term_tree ok (Suc n) expr st = get_term_tree ok n expr st"
  "term_loop ok n p expr st \<noteq> No_fuel \<Longrightarrow> term_loop ok (Suc n) p expr st = term_loop ok n p expr st"
  "get_expr_tree ok n expr st \<noteq> No_fuel \<Longrightarrow> get_expr_tree ok (Suc n) expr st = get_expr_tree ok n expr st"
  "expr_loop ok n p expr st \<noteq> No_fuel \<Longrightarrow> expr_loop ok (Suc n) p expr st = expr_loop ok n p expr st"
proof (induction n arbitrary: expr st p and expr st p and expr st p and expr st p and expr st p)
  case (Suc n)
  {
    case 1
    then show ?case
      unfolding get_prim.simps [of ok "Suc (Suc n)" expr st] get_prim.simps [of ok "Suc n" expr st] nat.case
      by (auto split: option.splits intro!: run_bind_mono Suc.IH(4))
  next
    case 2
    then show ?case
      unfolding get_term_tree.simps [of ok "Suc (Suc n)" expr st] get_term_tree.simps [of ok "Suc n" expr st] nat.case
      by (auto intro!: run_bind_mono Suc.IH(1,3))
  next
    case 3
    then show ?case
      unfolding term_loop.simps [of ok "Suc (Suc n)" p expr st] term_loop.simps [of ok "Suc n" p expr st] nat.case
      by (auto simp: Let_def split: prod.splits BTREE.splits intro!: run_bind_mono Suc.IH(1,3))
  next
    case 4
    then show ?case
      unfolding get_expr_tree.simps [of ok "Suc (Suc n)" expr st] get_expr_tree.simps [of ok "Suc n" expr st] nat.case
      by (auto intro!: run_bind_mono Suc.IH(2,5))
  next
    case 5
    then show ?case
      unfolding expr_loop.simps [of ok "Suc (Suc n)" p expr st] expr_loop.simps [of ok "Suc n" p expr st] nat.case
      by (auto simp: Let_def split: prod.splits BTREE.splits intro!: run_bind_mono Suc.IH(2,5))
  }
qed (simp_all add: parser_simps [of _ 0])

lemma get_expr_mono: "get_expr_tree ok n expr st \<noteq> No_fuel \<Longrightarrow> n \<le> m \<Longrightarrow> get_expr_tree ok m expr st = get_expr_tree ok n expr st"
  by (rotate_tac, induction m rule: dec_induct) (simp_all add: parser_mono_Suc(4))

section \<open>Arithmetic expressions\<close>

text \<open>An expression, its text with no more brackets than needed, and its value.\<close>

datatype aop = Add | Sub | Mul | Div

datatype arith = Num chars | Bin aop arith arith

primrec op_char :: "aop \<Rightarrow> uint8" where
  "op_char Add = 43"
| "op_char Sub = 45"
| "op_char Mul = 42"
| "op_char Div = 47"

primrec level :: "aop \<Rightarrow> nat" where
  "level Add = 0"
| "level Sub = 0"
| "level Mul = 1"
| "level Div = 1"

primrec show_arith :: "nat \<Rightarrow> arith \<Rightarrow> chars" where
  "show_arith l (Num t) = t"
| "show_arith l (Bin op a b) =
     (let s = show_arith (level op) a @ op_char op # show_arith (level op + 1) b in if l > level op then 40 # s @ [41] else s)"

primrec arith_value :: "'v CAL_TYPE \<Rightarrow> arith \<Rightarrow> 'v" where
  "arith_value C (Num t) = cal_of C t"
| "arith_value C (Bin op a b) =
     (case op of Add \<Rightarrow> cal_add C (arith_value C a) (arith_value C b)
      | Sub \<Rightarrow> cal_sub C (arith_value C a) (arith_value C b)
      | Mul \<Rightarrow> cal_mul C (arith_value C a) (arith_value C b)
      | Div \<Rightarrow> if cal_is_zero C (arith_value C b) then cal_zero C else cal_div C (arith_value C a) (arith_value C b))"

definition number_char :: "uint8 \<Rightarrow> bool" where
  "number_char c \<longleftrightarrow> is_digit c \<or> c = 46"

definition valid_number :: "chars \<Rightarrow> bool" where
  "valid_number t \<longleftrightarrow> length t < CAL_DATA_MAX_LEN \<and> (1 < length t \<or> list_all is_digit t)
     \<and> (let ds = (if t \<noteq> [] \<and> (hd t = 43 \<or> hd t = 45) then tl t else t) in ds \<noteq> [] \<and> list_all number_char ds)"

primrec valid_arith :: "arith \<Rightarrow> bool" where
  "valid_arith (Num t) = valid_number t"
| "valid_arith (Bin op a b) = (valid_arith a \<and> valid_arith b)"

primrec tree_of :: "arith \<Rightarrow> BTREE" where
  "tree_of (Num t) = Node t Null Null"
| "tree_of (Bin op a b) = Node [op_char op] (tree_of a) (tree_of b)"

definition grow :: "nat \<Rightarrow> cal_state \<Rightarrow> cal_state" where
  "grow k st = st\<lparr>cal_calls := cal_calls st + k, cal_nodes := cal_nodes st + int k\<rparr>"

lemma grow_grow: "grow a (grow b st) = grow (b + a) st"
  by (simp add: grow_def)

abbreviation calloc_works :: "nat \<Rightarrow> bool" where "calloc_works \<equiv> \<lambda>_. True"

definition follow :: "chars \<Rightarrow> bool" where
  "follow rest \<longleftrightarrow> rest = [] \<or> hd rest = 42 \<or> hd rest = 43 \<or> hd rest = 45 \<or> hd rest = 47"

lemma operator_chars: "\<not> is_space (op_char op)" "\<not> number_char (op_char op)" "op_char op \<noteq> 40" "op_char op \<noteq> 41" "follow (op_char op # s)"
  by (cases op; simp add: is_space_iff number_char_def is_digit_iff follow_def)+

lemma number_char_range: "number_char c \<Longrightarrow> \<not> is_space c \<and> c \<noteq> 40 \<and> c \<noteq> 41 \<and> c \<noteq> 43 \<and> c \<noteq> 45"
  by (auto simp: number_char_def is_digit_iff is_space_iff)

lemma follow_rest: "follow rest \<Longrightarrow> skip_blank rest = rest \<and> (rest = [] \<or> \<not> number_char (hd rest) \<and> hd rest \<noteq> 40)"
  by (cases rest) (auto simp: follow_def is_space_iff number_char_def is_digit_iff)

lemma valid_number_parts:
  assumes "valid_number t"
  obtains sign ds where "t = sign @ ds" and "sign = [] \<or> sign = [43] \<or> sign = [45]" and "ds \<noteq> []" and "\<forall>c \<in> set ds. number_char c"
    and "length t < 20" and "1 < length t \<or> is_digit (hd t)"
proof (cases "hd t = 43 \<or> hd t = 45")
  case True
  then show ?thesis using assms that [of "[hd t]" "tl t"]
    by (cases t) (auto simp: valid_number_def Let_def list_all_iff CAL_DATA_MAX_LEN_def split: if_splits)
next
  case False
  then show ?thesis using assms that [of "[]" t]
    by (cases t) (auto simp: valid_number_def Let_def list_all_iff CAL_DATA_MAX_LEN_def split: if_splits)
qed

lemma operand_number:
  assumes "valid_number t" and "follow rest"
  shows "get_operand_node calloc_works (t @ rest) st = Done (Node t Null Null, Some rest, grow 1 st)"
proof -
  obtain sign ds where p: "t = sign @ ds" "sign = [] \<or> sign = [43] \<or> sign = [45]" "ds \<noteq> []" "\<forall>c \<in> set ds. number_char c" "length t < 20"
    by (rule valid_number_parts [OF assms(1)])
  have first: "\<not> is_space (hd (t @ rest))" using p(2-4) number_char_range [of "hd ds"] by (auto simp: p(1) is_space_iff hd_append)
  then have skip: "skip_blank (t @ rest) = t @ rest" by (simp add: skip_blank_id)
  have sign: "(if hd (t @ rest) = 43 \<or> hd (t @ rest) = 45 then [hd (t @ rest)] else []) = sign"
    using p(2-4) number_char_range [of "hd ds"] by (auto simp: p(1) hd_append)
  have split: "takeWhile number_char (ds @ rest) = ds \<and> dropWhile number_char (ds @ rest) = rest"
    using p(4) follow_rest [OF assms(2)] by (cases rest) (auto simp: takeWhile_append dropWhile_append)
  have tst: "(\<lambda>c. is_digit c \<or> c = 46) = number_char" by (simp add: number_char_def fun_eq_iff)
  have lst: "last (sign @ ds) \<noteq> 43 \<and> last (sign @ ds) \<noteq> 45" using p(3,4) number_char_range [of "last ds"] by simp
  have "drop (length sign) (t @ rest) = ds @ rest" by (simp add: p(1))
  moreover have "t @ rest \<noteq> []" using p(1,3) by simp
  ultimately show ?thesis
    unfolding get_operand_node_def Let_def skip sign tst using p(3,5) split lst
    by (simp add: calloc_node_def grow_def CAL_DATA_MAX_LEN_def p(1))
qed

text \<open>What enough fuel gives, and the three claims about the text of an expression.\<close>

definition gives :: "(nat \<Rightarrow> 'a run) \<Rightarrow> 'a run \<Rightarrow> bool" where
  "gives f x \<longleftrightarrow> (\<exists>N. \<forall>n \<ge> N. f n = x)"

lemma gives_Suc: "gives f x \<Longrightarrow> (\<And>n. f n = x \<Longrightarrow> g (Suc n) = y) \<Longrightarrow> gives g y"
  unfolding gives_def by (metis Suc_le_D Suc_le_mono)

lemma gives_Suc2: "gives f x \<Longrightarrow> gives f' x' \<Longrightarrow> (\<And>n. f n = x \<Longrightarrow> f' n = x' \<Longrightarrow> g (Suc n) = y) \<Longrightarrow> gives g y"
  unfolding gives_def by (metis Suc_le_D Suc_le_mono le_trans nat_le_linear)

lemma gives_always: "(\<And>n. g (Suc n) = y) \<Longrightarrow> gives g y"
  unfolding gives_def by (metis Suc_le_D)

definition prim_claim :: "arith \<Rightarrow> bool" where
  "prim_claim e \<longleftrightarrow> (\<forall>rest st. follow rest \<longrightarrow>
     gives (\<lambda>n. get_prim calloc_works n (show_arith 2 e @ rest) st) (Done (tree_of e, Some rest, grow (size_tree (tree_of e)) st)))"

definition term_claim :: "arith \<Rightarrow> bool" where
  "term_claim e \<longleftrightarrow> (\<forall>rest st R. follow rest
     \<longrightarrow> gives (\<lambda>n. term_loop calloc_works n (tree_of e) rest (grow (size_tree (tree_of e)) st)) R
     \<longrightarrow> gives (\<lambda>n. get_term_tree calloc_works n (show_arith 1 e @ rest) st) R)"

definition expr_claim :: "arith \<Rightarrow> bool" where
  "expr_claim e \<longleftrightarrow> (\<forall>rest st R. follow rest \<longrightarrow> (rest \<noteq> [] \<longrightarrow> hd rest \<noteq> 42 \<and> hd rest \<noteq> 47)
     \<longrightarrow> gives (\<lambda>n. expr_loop calloc_works n (tree_of e) rest (grow (size_tree (tree_of e)) st)) R
     \<longrightarrow> gives (\<lambda>n. get_expr_tree calloc_works n (show_arith 0 e @ rest) st) R)"

lemma tree_not_Null: "tree_of e \<noteq> Null"
  by (cases e) simp_all

lemma term_loop_stops:
  "rest = [] \<or> hd rest \<noteq> 42 \<and> hd rest \<noteq> 47 \<Longrightarrow> gives (\<lambda>n. term_loop ok n t rest st) (Done (t, Some rest, st))"
  by (rule gives_always) (auto simp: term_loop.simps)

lemma expr_loop_stops: "gives (\<lambda>n. expr_loop ok n t [] st) (Done (t, Some [], st))"
  by (rule gives_always) (simp add: expr_loop.simps get_operator_node_def)

lemma term_from_prim: "prim_claim e \<Longrightarrow> show_arith 1 e = show_arith 2 e \<Longrightarrow> term_claim e"
  unfolding term_claim_def
proof (intro allI impI)
  fix rest st R
  assume p: "prim_claim e" and same: "show_arith 1 e = show_arith 2 e" and rest: "follow rest"
    and loop: "gives (\<lambda>n. term_loop calloc_works n (tree_of e) rest (grow (size_tree (tree_of e)) st)) R"
  have "gives (\<lambda>n. get_prim calloc_works n (show_arith 2 e @ rest) st) (Done (tree_of e, Some rest, grow (size_tree (tree_of e)) st))"
    using p rest by (simp add: prim_claim_def)
  from this loop show "gives (\<lambda>n. get_term_tree calloc_works n (show_arith 1 e @ rest) st) R"
    by (rule gives_Suc2) (simp only: get_term_tree.simps nat.case same, simp add: tree_not_Null follow_rest [OF rest])
qed

lemma expr_from_term: "term_claim e \<Longrightarrow> show_arith 0 e = show_arith 1 e \<Longrightarrow> expr_claim e"
  unfolding expr_claim_def term_claim_def
proof (intro allI impI)
  fix rest st R
  assume t: "\<forall>rest st R. follow rest
     \<longrightarrow> gives (\<lambda>n. term_loop calloc_works n (tree_of e) rest (grow (size_tree (tree_of e)) st)) R
     \<longrightarrow> gives (\<lambda>n. get_term_tree calloc_works n (show_arith 1 e @ rest) st) R"
    and same: "show_arith 0 e = show_arith 1 e" and rest: "follow rest" "rest \<noteq> [] \<longrightarrow> hd rest \<noteq> 42 \<and> hd rest \<noteq> 47"
    and loop: "gives (\<lambda>n. expr_loop calloc_works n (tree_of e) rest (grow (size_tree (tree_of e)) st)) R"
  have "gives (\<lambda>n. get_term_tree calloc_works n (show_arith 1 e @ rest) st) (Done (tree_of e, Some rest, grow (size_tree (tree_of e)) st))"
    using t rest term_loop_stops by blast
  from this loop show "gives (\<lambda>n. get_expr_tree calloc_works n (show_arith 0 e @ rest) st) R"
    by (rule gives_Suc2) (simp add: get_expr_tree.simps same tree_not_Null)
qed

lemma split_bracket_number: "\<forall>c \<in> set t. c \<noteq> 40 \<and> c \<noteq> 41 \<Longrightarrow> split_bracket n (t @ s) = map_option (apfst ((@) t)) (split_bracket n s)"
proof (induction t)
  case Nil
  show ?case by (cases "split_bracket n s") (simp_all add: prod_eq_iff)
next
  case (Cons c t)
  then show ?case by (cases "split_bracket n s") (simp_all add: prod_eq_iff)
qed

lemma split_bracket_show:
  "valid_arith e \<Longrightarrow> 0 < n \<Longrightarrow> split_bracket n (show_arith l e @ s) = map_option (apfst ((@) (show_arith l e))) (split_bracket n s)"
proof (induction e arbitrary: l n s)
  case (Num t)
  obtain sign ds where p: "t = sign @ ds" "sign = [] \<or> sign = [43] \<or> sign = [45]" "\<forall>c \<in> set ds. number_char c"
    using Num(1) valid_number_parts [of t] by (metis valid_arith.simps(1))
  then have "\<forall>c \<in> set t. c \<noteq> 40 \<and> c \<noteq> 41" using number_char_range by auto
  then show ?case by (simp add: split_bracket_number)
next
  case (Bin op a b)
  let ?s = "show_arith (level op) a @ op_char op # show_arith (level op + 1) b"
  have body: "split_bracket n (?s @ u) = map_option (apfst ((@) ?s)) (split_bracket n u)" if "0 < n" for n u
    using Bin that operator_chars(3,4) [of op] by (cases "split_bracket n u") (simp_all add: prod_eq_iff)
  show ?case
  proof (cases "l > level op")
    case True
    have "split_bracket n ((40 # ?s @ [41]) @ s) = map_option (apfst ((#) 40)) (split_bracket (n + 1) (?s @ 41 # s))" by simp
    also have "\<dots> = map_option (apfst ((@) (40 # ?s @ [41]))) (split_bracket n s)"
      using body [of "n + 1" "41 # s"] Bin.prems(2) by (cases "split_bracket n s") (simp_all add: prod_eq_iff)
    finally have "split_bracket n ((40 # ?s @ [41]) @ s) = map_option (apfst ((@) (40 # ?s @ [41]))) (split_bracket n s)" .
    moreover have "show_arith l (Bin op a b) = 40 # ?s @ [41]" using True by (simp add: Let_def)
    ultimately show ?thesis by (simp only:)
  next
    case False
    then have "show_arith l (Bin op a b) = ?s" by (simp add: Let_def)
    then show ?thesis using body [OF Bin.prems(2), of s] by (simp only:)
  qed
qed

lemma prim_from_expr:
  assumes e: "expr_claim e" "valid_arith e" and brackets: "show_arith 2 e = 40 # show_arith 0 e @ [41]"
  shows "prim_claim e"
  unfolding prim_claim_def
proof (intro allI impI)
  fix rest st
  assume "follow rest"
  have "gives (\<lambda>n. get_expr_tree calloc_works n (show_arith 0 e @ []) st) (Done (tree_of e, Some [], grow (size_tree (tree_of e)) st))"
    using e(1) expr_loop_stops unfolding expr_claim_def by (simp add: follow_def)
  moreover have "split_bracket 1 (show_arith 0 e @ 41 # rest) = Some (show_arith 0 e, rest)"
    using split_bracket_show [OF e(2), of 1 0 "41 # rest"] by simp
  ultimately show "gives (\<lambda>n. get_prim calloc_works n (show_arith 2 e @ rest) st) (Done (tree_of e, Some rest, grow (size_tree (tree_of e)) st))"
    by (elim gives_Suc) (simp add: get_prim.simps brackets)
qed

lemma operator_read:
  "get_operator_node calloc_works (op_char op # s) st = (Node [op_char op] Null Null, Some s, grow 1 st)"
  using operator_chars(1) [of op] by (simp add: get_operator_node_def calloc_node_def grow_def Let_def)

lemma term_claim_Bin:
  assumes "term_claim a" and "prim_claim b" and "level op = 1"
  shows "term_claim (Bin op a b)"
  unfolding term_claim_def
proof (intro allI impI)
  fix rest st R
  let ?sa = "size_tree (tree_of a)" and ?sb = "size_tree (tree_of b)"
  assume rest: "follow rest" and loop: "gives (\<lambda>n. term_loop calloc_works n (tree_of (Bin op a b)) rest (grow (size_tree (tree_of (Bin op a b))) st)) R"
  have op: "op_char op = 42 \<or> op_char op = 47" using assms(3) by (cases op) simp_all
  have "gives (\<lambda>n. get_prim calloc_works n (show_arith 2 b @ rest) (grow (?sa + 1) st)) (Done (tree_of b, Some rest, grow (?sa + 1 + ?sb) st))"
    using assms(2) rest unfolding prim_claim_def by (metis grow_grow)
  from this loop have "gives (\<lambda>n. term_loop calloc_works n (tree_of a) (op_char op # show_arith 2 b @ rest) (grow ?sa st)) R"
    by (rule gives_Suc2) (use op in \<open>simp add: term_loop.simps operator_read grow_grow tree_not_Null algebra_simps\<close>)
  then show "gives (\<lambda>n. get_term_tree calloc_works n (show_arith 1 (Bin op a b) @ rest) st) R"
    using assms(1) operator_chars(5) [of op] by (simp add: term_claim_def assms(3) numeral_2_eq_2)
qed

lemma expr_claim_Bin:
  assumes "expr_claim a" and "term_claim b" and "level op = 0"
  shows "expr_claim (Bin op a b)"
  unfolding expr_claim_def
proof (intro allI impI)
  fix rest st R
  let ?sa = "size_tree (tree_of a)" and ?sb = "size_tree (tree_of b)"
  assume rest: "follow rest" "rest \<noteq> [] \<longrightarrow> hd rest \<noteq> 42 \<and> hd rest \<noteq> 47"
    and loop: "gives (\<lambda>n. expr_loop calloc_works n (tree_of (Bin op a b)) rest (grow (size_tree (tree_of (Bin op a b))) st)) R"
  have op: "op_char op \<noteq> 42 \<and> op_char op \<noteq> 47" using assms(3) by (cases op) simp_all
  have "gives (\<lambda>n. get_term_tree calloc_works n (show_arith 1 b @ rest) (grow (?sa + 1) st)) (Done (tree_of b, Some rest, grow (?sa + 1 + ?sb) st))"
    using assms(2) rest term_loop_stops [of rest calloc_works "tree_of b" "grow ?sb (grow (?sa + 1) st)"] unfolding term_claim_def
    by (metis grow_grow)
  from this loop have "gives (\<lambda>n. expr_loop calloc_works n (tree_of a) (op_char op # show_arith 1 b @ rest) (grow ?sa st)) R"
    by (rule gives_Suc2) (simp add: expr_loop.simps operator_read grow_grow tree_not_Null algebra_simps)
  then show "gives (\<lambda>n. get_expr_tree calloc_works n (show_arith 0 (Bin op a b) @ rest) st) R"
    using assms(1) operator_chars(5) [of op] op by (simp add: expr_claim_def assms(3))
qed

lemma show_claims: "valid_arith e \<Longrightarrow> prim_claim e \<and> term_claim e \<and> expr_claim e"
proof (induction e)
  case (Num t)
  obtain sign ds where p: "t = sign @ ds" "sign = [] \<or> sign = [43] \<or> sign = [45]" "ds \<noteq> []" "\<forall>c \<in> set ds. number_char c"
    using Num valid_number_parts [of t] by (metis valid_arith.simps(1))
  have first: "hd (t @ rest) \<noteq> 40" for rest using p number_char_range [of "hd ds"] by (auto simp: hd_append)
  have "prim_claim (Num t)"
    unfolding prim_claim_def
    by (intro allI impI gives_always) (use Num first in \<open>simp add: get_prim.simps operand_number\<close>)
  then show ?case using term_from_prim [of "Num t"] expr_from_term [of "Num t"] by simp
next
  case (Bin op a b)
  show ?case
  proof (cases "level op = 1")
    case True
    have t: "term_claim (Bin op a b)" using Bin True by (intro term_claim_Bin) simp_all
    have e: "expr_claim (Bin op a b)" using True by (intro expr_from_term [OF t]) simp
    have "prim_claim (Bin op a b)" using True Bin.prems by (intro prim_from_expr [OF e]) (simp_all add: Let_def)
    with t e show ?thesis by simp
  next
    case False
    then have zero: "level op = 0" by (cases op) simp_all
    have e: "expr_claim (Bin op a b)" using Bin zero by (intro expr_claim_Bin) simp_all
    have p: "prim_claim (Bin op a b)" using zero Bin.prems by (intro prim_from_expr [OF e]) (simp_all add: Let_def)
    have "term_claim (Bin op a b)" using zero by (intro term_from_prim [OF p]) (simp add: Let_def)
    with p e show ?thesis by simp
  qed
qed

lemma tree_of_value: "valid_arith e \<Longrightarrow> fst (cal_btree_value C (tree_of e)) = arith_value C e"
proof (induction e)
  case (Num t)
  then have "t \<noteq> []" "1 < length t \<or> is_digit (hd t)"
    by (cases t; auto simp: valid_number_def Let_def)+
  then show ?case by simp
next
  case (Bin op a b)
  obtain x m y m' where "cal_btree_value C (tree_of a) = (x, m)" "cal_btree_value C (tree_of b) = (y, m')" by fastforce
  with Bin show ?case by (cases op) (simp_all add: is_digit_iff)
qed

text \<open>C32: The text of an arithmetic expression, written without blanks and with the brackets that precedence and
  association to the left need, is calculated to the value of the expression: products bind closer than sums, equal
  operators associate to the left, a division by zero counts as 0; and all nodes are free again.\<close>

theorem calculate_expression:
  assumes "valid_arith e"
  shows "\<exists>st1. calculate calloc_works C (show_arith 0 e) st = Done (arith_value C e, st1) \<and> cal_nodes st1 = cal_nodes st"
proof -
  let ?s = "show_arith 0 e" and ?R = "Done (tree_of e, Some [], grow (size_tree (tree_of e)) st)"
  have "gives (\<lambda>n. get_expr_tree calloc_works n (?s @ []) st) ?R"
    using show_claims [OF assms] expr_loop_stops unfolding expr_claim_def by (simp add: follow_def)
  then obtain N where N: "\<And>n. N \<le> n \<Longrightarrow> get_expr_tree calloc_works n ?s st = ?R" by (auto simp: gives_def)
  have "get_expr_tree calloc_works (cal_fuel ?s) ?s st \<noteq> No_fuel" by (rule parser_fuel(4)) (simp add: cal_fuel_def)
  from get_expr_mono [OF this, of "max N (cal_fuel ?s)"] have "get_expr_tree calloc_works (cal_fuel ?s) ?s st = ?R" using N by simp
  then show ?thesis
    by (simp add: calculate_def tree_not_Null tree_of_value [OF assms, symmetric] destory_tree_frees grow_def split: prod.split)
qed

text \<open>The text \<open>2-3*(4--5)\<close>.\<close>

theorem calculate_expression_witness:
  "\<forall>(C :: int CAL_TYPE) st. \<exists>st1. calculate calloc_works C [50, 45, 51, 42, 40, 52, 45, 45, 53, 41] st
    = Done (cal_sub C (cal_of C [50]) (cal_mul C (cal_of C [51]) (cal_sub C (cal_of C [52]) (cal_of C [45, 53]))), st1)
    \<and> cal_nodes st1 = cal_nodes st"
proof (intro allI)
  fix C :: "int CAL_TYPE" and st
  show "\<exists>st1. calculate calloc_works C [50, 45, 51, 42, 40, 52, 45, 45, 53, 41] st
    = Done (cal_sub C (cal_of C [50]) (cal_mul C (cal_of C [51]) (cal_sub C (cal_of C [52]) (cal_of C [45, 53]))), st1)
    \<and> cal_nodes st1 = cal_nodes st"
    using calculate_expression [of "Bin Sub (Num [50]) (Bin Mul (Num [51]) (Bin Sub (Num [52]) (Num [45, 53])))" C st]
    by (simp add: valid_number_def number_char_def is_digit_iff CAL_DATA_MAX_LEN_def)
qed

section \<open>No lost nodes\<close>

text \<open>No run of digits and points is longer than a node has room for behind a sign.\<close>

definition numbers_fit :: "chars \<Rightarrow> bool" where
  "numbers_fit s \<longleftrightarrow> (\<forall>b. sublist b s \<longrightarrow> list_all number_char b \<longrightarrow> length b + 1 < CAL_DATA_MAX_LEN)"

lemma numbers_fit_sub: "numbers_fit s \<Longrightarrow> sublist b s \<Longrightarrow> numbers_fit b"
  unfolding numbers_fit_def using sublist_order.order_trans by blast

lemma numbers_fit_suffix: "numbers_fit s \<Longrightarrow> suffix b s \<Longrightarrow> numbers_fit b"
  using numbers_fit_sub suffix_imp_sublist by blast

text \<open>No illegal access, and the text that is left is an end of the text that was given.\<close>

definition legal :: "chars \<Rightarrow> (BTREE \<times> chars option \<times> cal_state) run \<Rightarrow> bool" where
  "legal expr x \<longleftrightarrow> (case x of Done (t, r, st1) \<Rightarrow> suffix (case r of None \<Rightarrow> expr | Some e \<Rightarrow> e) expr | Fault \<Rightarrow> False | No_fuel \<Rightarrow> True)"

lemma legal_simps:
  "\<not> legal expr Fault" "legal expr No_fuel"
  "legal expr (Done (t, r, st1)) \<longleftrightarrow> suffix (case r of None \<Rightarrow> expr | Some e \<Rightarrow> e) expr"
  by (simp_all add: legal_def)

lemma legal_bind:
  assumes "legal expr x"
    and "\<And>t r st1. suffix (case r of None \<Rightarrow> expr | Some e \<Rightarrow> e) expr \<Longrightarrow> legal expr' (f (t, r, st1))"
  shows "legal expr' (run_bind x f)"
  using assms by (cases x) (auto simp: legal_simps)

lemma legal_next: "legal e1 x \<Longrightarrow> suffix e1 expr \<Longrightarrow> legal expr x"
  by (auto simp: legal_def split: run.splits option.splits intro: suffix_order.order_trans)

lemma suffix_skip_blank: "suffix (skip_blank s) s"
  by (induction s) (auto intro: suffix_ConsI)

lemma operand_legal:
  assumes "numbers_fit expr"
  shows "legal expr (get_operand_node calloc_works expr st)"
proof -
  let ?e = "skip_blank expr"
  define sign where "sign = (if hd ?e = 43 \<or> hd ?e = 45 then [hd ?e] else [])"
  let ?e1 = "drop (length sign) ?e"
  have e1: "suffix ?e1 expr" using suffix_drop suffix_skip_blank by (rule suffix_order.order_trans)
  have tst: "(\<lambda>c. is_digit c \<or> c = 46) = number_char" by (simp add: number_char_def fun_eq_iff)
  have "sublist (takeWhile number_char ?e1) expr"
    using e1 takeWhile_is_prefix prefix_imp_sublist suffix_imp_sublist sublist_order.order_trans by blast
  moreover have "list_all number_char (takeWhile number_char ?e1)" by (auto simp: list_all_iff dest: set_takeWhileD)
  ultimately have "length (sign @ takeWhile number_char ?e1) < CAL_DATA_MAX_LEN"
    using assms unfolding numbers_fit_def by (fastforce simp: sign_def)
  moreover have "suffix (dropWhile number_char ?e1) expr" using suffix_dropWhile e1 by (rule suffix_order.order_trans)
  ultimately show ?thesis
    unfolding get_operand_node_def Let_def tst calloc_node_def sign_def [symmetric] by (simp add: legal_simps)
qed

lemma operator_legal:
  assumes "get_operator_node calloc_works expr st = (t, r, st1)"
  shows "suffix (case r of None \<Rightarrow> expr | Some e \<Rightarrow> e) expr" and "skip_blank expr \<noteq> [] \<Longrightarrow> t \<noteq> Null"
proof -
  have "suffix (tl (skip_blank expr)) expr" using suffix_tl suffix_skip_blank by (rule suffix_order.order_trans)
  then show "suffix (case r of None \<Rightarrow> expr | Some e \<Rightarrow> e) expr" "skip_blank expr \<noteq> [] \<Longrightarrow> t \<noteq> Null"
    using assms by (auto simp: get_operator_node_def calloc_node_def Let_def split: if_splits)
qed

lemma parser_legal:
  "numbers_fit expr \<Longrightarrow> legal expr (get_prim calloc_works n expr st)"
  "numbers_fit expr \<Longrightarrow> legal expr (get_term_tree calloc_works n expr st)"
  "numbers_fit expr \<Longrightarrow> legal expr (term_loop calloc_works n p expr st)"
  "numbers_fit expr \<Longrightarrow> legal expr (get_expr_tree calloc_works n expr st)"
  "numbers_fit expr \<Longrightarrow> legal expr (expr_loop calloc_works n p expr st)"
proof (induction n arbitrary: expr st p and expr st p and expr st p and expr st p and expr st p)
  case (Suc n)
  {
    case 1
    show ?case
    proof (cases "expr \<noteq> [] \<and> hd expr = 40")
      case True
      then obtain u where u: "expr = 40 # u" by (cases expr) auto
      show ?thesis
      proof (cases "split_bracket 1 u")
        case None
        then show ?thesis by (simp add: get_prim.simps u legal_simps)
      next
        case (Some sa)
        obtain sub after where sa: "sa = (sub, after)" by fastforce
        have split: "u = sub @ 41 # after" using split_bracket_length Some sa by blast
        have "sublist sub expr" unfolding u split by (metis append_Cons append_Nil sublist_appendI)
        then have "legal sub (get_expr_tree calloc_works n sub st)" using Suc.IH(4) numbers_fit_sub [OF 1] by blast
        then have "legal expr (run_bind (get_expr_tree calloc_works n sub st) (\<lambda>(pNode, r, st1).
            Done (pNode, Some (tl (case r of None \<Rightarrow> expr | Some e \<Rightarrow> e @ 41 # after)), st1)))"
        proof (rule legal_bind)
          fix t r and st1 :: cal_state
          assume r: "suffix (case r of None \<Rightarrow> sub | Some e \<Rightarrow> e) sub"
          have "suffix (case r of None \<Rightarrow> expr | Some e \<Rightarrow> e @ 41 # after) expr"
            using r by (auto simp: u split suffix_def split: option.splits)
          then have "suffix (tl (case r of None \<Rightarrow> expr | Some e \<Rightarrow> e @ 41 # after)) expr"
            using suffix_tl suffix_order.order_trans by blast
          then show "legal expr (case (t, r, st1) of (pNode, r, st1) \<Rightarrow>
              Done (pNode, Some (tl (case r of None \<Rightarrow> expr | Some e \<Rightarrow> e @ 41 # after)), st1))"
            by (simp add: legal_simps)
        qed
        moreover have "tl expr = u" by (simp add: u)
        ultimately show ?thesis using True Some sa by (simp add: get_prim.simps)
      qed
    next
      case False
      have "legal expr (run_bind (get_operand_node calloc_works expr st) (\<lambda>(pNode, r, st1).
          Done (pNode, Some (case r of None \<Rightarrow> expr | Some e \<Rightarrow> e), st1)))"
        by (rule legal_bind [OF operand_legal [OF 1]]) (simp add: legal_simps)
      then show ?thesis unfolding get_prim.simps nat.case if_not_P [OF False] .
    qed
  next
    case 2
    show ?case unfolding get_term_tree.simps nat.case
    proof (rule legal_bind [OF Suc.IH(1) [OF 2]], simp add: legal_simps, intro impI)
      fix r :: "chars option" and t and st1 :: cal_state
      let ?e = "case r of None \<Rightarrow> expr | Some e \<Rightarrow> e"
      assume "suffix ?e expr"
      then have "suffix (skip_blank ?e) expr" using suffix_skip_blank suffix_order.order_trans by blast
      then show "legal expr (term_loop calloc_works n t (skip_blank ?e) st1)"
        using Suc.IH(3) numbers_fit_suffix [OF 2] legal_next by blast
    qed
  next
    case 3
    obtain op r st1 where op: "get_operator_node calloc_works expr st = (op, r, st1)" by (metis prod_cases3)
    let ?e1 = "case r of None \<Rightarrow> expr | Some e \<Rightarrow> e"
    note e1 = operator_legal(1) [OF op]
    have "legal expr (run_bind (get_prim calloc_works n ?e1 st1) (\<lambda>(pRight, r2, st2).
        let expr2 = (case r2 of None \<Rightarrow> ?e1 | Some e \<Rightarrow> e)
        in if pRight = Null then Done (Null, Some expr2, destory_tree p (free_operator op st2))
           else (case op of Null \<Rightarrow> Fault | Node d l r3 \<Rightarrow> term_loop calloc_works n (Node d p pRight) expr2 st2)))"
      if "op \<noteq> Null"
    proof (rule legal_bind [OF Suc.IH(1) [OF numbers_fit_suffix [OF 3 e1]]], simp add: legal_simps Let_def, intro conjI impI)
      fix r2 :: "chars option" and t and st2 :: cal_state
      let ?e2 = "case r2 of None \<Rightarrow> ?e1 | Some e \<Rightarrow> e"
      assume "suffix ?e2 ?e1"
      then show e2: "suffix ?e2 expr" using e1 by (rule suffix_order.order_trans)
      show "legal expr (case op of Null \<Rightarrow> Fault | Node d l r3 \<Rightarrow> term_loop calloc_works n (Node d p t) ?e2 st2)"
        using that legal_next [OF Suc.IH(3) [OF numbers_fit_suffix [OF 3 e2]] e2] by (auto split: BTREE.split)
    qed
    moreover have "op \<noteq> Null" if "expr \<noteq> []" "hd expr = 42 \<or> hd expr = 47"
      using that operator_legal(2) [OF op] skip_blank_id [of expr] by (auto simp: is_space_iff)
    ultimately show ?case by (auto simp: term_loop.simps op legal_simps Let_def)
  next
    case 4
    show ?case unfolding get_expr_tree.simps nat.case
    proof (rule legal_bind [OF Suc.IH(2) [OF 4]], simp add: legal_simps, intro impI)
      fix r :: "chars option" and t and st1 :: cal_state
      let ?e = "case r of None \<Rightarrow> expr | Some e \<Rightarrow> e"
      assume "suffix ?e expr"
      then show "legal expr (expr_loop calloc_works n t ?e st1)"
        using Suc.IH(5) numbers_fit_suffix [OF 4] legal_next by blast
    qed
  next
    case 5
    obtain op r st1 where op: "get_operator_node calloc_works expr st = (op, r, st1)" by (metis prod_cases3)
    let ?e1 = "case r of None \<Rightarrow> expr | Some e \<Rightarrow> e"
    note e1 = operator_legal(1) [OF op]
    have "legal expr (run_bind (get_term_tree calloc_works n ?e1 st1) (\<lambda>(pRight, r2, st2).
        let expr2 = (case r2 of None \<Rightarrow> ?e1 | Some e \<Rightarrow> e)
        in if pRight = Null then Done (Null, Some expr2, destory_tree p (free_operator op' st2))
           else expr_loop calloc_works n (Node d p pRight) expr2 st2))" for d op'
    proof (rule legal_bind [OF Suc.IH(2) [OF numbers_fit_suffix [OF 5 e1]]], simp add: legal_simps Let_def, intro conjI impI)
      fix r2 :: "chars option" and t and st2 :: cal_state
      let ?e2 = "case r2 of None \<Rightarrow> ?e1 | Some e \<Rightarrow> e"
      assume "suffix ?e2 ?e1"
      then show e2: "suffix ?e2 expr" using e1 by (rule suffix_order.order_trans)
      show "legal expr (expr_loop calloc_works n (Node d p t) ?e2 st2)"
        by (rule legal_next [OF Suc.IH(5) [OF numbers_fit_suffix [OF 5 e2]] e2])
    qed
    then show ?case using e1 by (cases op) (simp_all add: expr_loop.simps op legal_simps Let_def)
  }
qed (simp_all add: parser_simps [of _ 0] legal_simps)

text \<open>Whatever the fuel and the behaviour of \<^verbatim>\<open>calloc\<close>: a calculation that returns has freed its nodes.\<close>

lemma calculate_returns_or_faults:
  "calculate ok C s st \<noteq> No_fuel \<and> (case calculate ok C s st of Done (v, st1) \<Rightarrow> cal_nodes st1 = cal_nodes st | _ \<Rightarrow> True)"
proof -
  have "3 * length s + 3 < cal_fuel s" by (simp add: cal_fuel_def)
  note fuel = parser_fuel(4) [OF this, of ok st]
  show ?thesis
  proof (cases "get_expr_tree ok (cal_fuel s) s st")
    case (Done x)
    obtain t r st1 where x: "x = (t, r, st1)" by (cases x) auto
    have "cal_nodes st1 = cal_nodes st + int (size_tree t)"
      using parser_keeps(4) [of s st ok "cal_fuel s"] Done x by (simp add: keeps_simps)
    then show ?thesis by (simp add: calculate_def Done x destory_tree_frees split: prod.split)
  qed (use fuel in \<open>simp_all add: calculate_def\<close>)
qed

text \<open>C33: The calculator returns for every text, well formed or not, whose numbers have at most 18 digits and points,
  when \<^verbatim>\<open>calloc\<close> does not fail: it makes no access outside of a node or through a null pointer, three units of fuel
  for each character are enough, and every node it has allocated is free again.\<close>

theorem calculate_frees_nodes:
  assumes "numbers_fit s"
  shows "\<exists>v st1. calculate calloc_works C s st = Done (v, st1) \<and> cal_nodes st1 = cal_nodes st"
proof -
  have "get_expr_tree calloc_works (cal_fuel s) s st \<noteq> Fault"
    using parser_legal(4) [OF assms, of "cal_fuel s" st] by (auto simp: legal_def)
  then have "calculate calloc_works C s st \<noteq> Fault"
    by (cases "get_expr_tree calloc_works (cal_fuel s) s st") (auto simp: calculate_def Let_def split: prod.split)
  then show ?thesis using calculate_returns_or_faults [of calloc_works C s st]
    by (cases "calculate calloc_works C s st") auto
qed

text \<open>The text \<open>1+(2*\<close>, which is no expression.\<close>

theorem calculate_frees_nodes_witness:
  "\<forall>(C :: int CAL_TYPE) st. \<exists>v st1. calculate calloc_works C [49, 43, 40, 50, 42] st = Done (v, st1) \<and> cal_nodes st1 = cal_nodes st"
proof (intro allI)
  fix C :: "int CAL_TYPE" and st
  have "numbers_fit [49, 43, 40, 50, 42]"
    unfolding numbers_fit_def CAL_DATA_MAX_LEN_def by (auto dest: sublist_length_le)
  then show "\<exists>v st1. calculate calloc_works C [49, 43, 40, 50, 42] st = Done (v, st1) \<and> cal_nodes st1 = cal_nodes st"
    by (rule calculate_frees_nodes)
qed

section \<open>Texts that the parser gets wrong\<close>

text \<open>
  A blank after a product is not skipped. In \<open>1+2*3 *4\<close> the second product is therefore taken for an operator of the
  sum, and \<open>(1*2 )\<close> leaves its closing bracket in the text.
\<close>

lemma run_bind_weak: "x = x' \<Longrightarrow> run_bind x f = run_bind x' f"
  by simp

lemmas parse_by_hand = parser_simps get_operand_node_def get_operator_node_def calloc_node_def is_space_iff is_digit_iff CAL_DATA_MAX_LEN_def

lemma blank_after_product:
  "run_bind (get_expr_tree calloc_works 33 [49, 43, 50, 42, 51, 32, 42, 52] st) (\<lambda>(t, r, st1). Done t)
    = Done (Node [42] (Node [43] (Node [49] Null Null) (Node [42] (Node [50] Null Null) (Node [51] Null Null))) (Node [52] Null Null))"
  by (simp add: parse_by_hand Let_def cong: run_bind_weak let_weak_cong)

lemma blank_after_product_in_brackets:
  "run_bind (get_expr_tree calloc_works 33 [40, 49, 42, 50, 32, 41] st) (\<lambda>(t, r, st1). Done (t, r)) = Done (Null, Some [])"
  by (simp add: parse_by_hand Let_def cong: run_bind_weak let_weak_cong)

text \<open>A bracket after a blank is read as an operand, which fails: \<open>2 + (3)\<close>.\<close>

lemma blank_before_bracket:
  "run_bind (get_expr_tree calloc_works 33 [50, 32, 43, 32, 40, 51, 41] st) (\<lambda>(t, r, st1). Done (t, r)) = Done (Null, Some [32, 40, 51, 41])"
  by (simp add: parse_by_hand Let_def cong: run_bind_weak let_weak_cong)

text \<open>Twenty digits do not fit into a node.\<close>

lemma long_number_overflows: "get_operand_node calloc_works (replicate 20 49) st = Fault"
proof -
  have "skip_blank (replicate 20 49) = replicate 20 49" by (rule skip_blank_id) (simp add: is_space_iff hd_replicate)
  then show ?thesis
    by (simp add: get_operand_node_def Let_def calloc_node_def CAL_DATA_MAX_LEN_def hd_replicate is_digit_iff takeWhile_replicate)
qed

text \<open>When memory runs out after an operand, the rest of the text is silently ignored, or the null pointer is written.\<close>

lemma no_memory_truncates:
  "run_bind (get_expr_tree (\<lambda>n. n < 1) 33 [49, 43, 50] \<lparr>cal_calls = 0, cal_nodes = 0, cal_out = []\<rparr>) (\<lambda>(t, r, st1). Done t)
    = Done (Node [49] Null Null)"
  by (simp add: parse_by_hand Let_def cong: run_bind_weak let_weak_cong)

end
