(* ===== verification/Cmd.thy ===== *)
theory Cmd
  imports Dlist MemH CNumber
begin

text \<open>
  The command line: \<^verbatim>\<open>src/cmd.c\<close>. Commands are nodes of a list in the heap that point to static records; a line
  is cut into words in place, and the command of the first word is called. The routines of the commands are
  function pointers; \<open>call f argc argv\<close>, an argument of the definitions that use it, is what the routine at \<open>f\<close> does.

  What is written to the serial line (\<^verbatim>\<open>src/serial.c\<close>) is collected in the state. \<open>None\<close> as a result: the code
  does not return, or uses a pointer that is \<^verbatim>\<open>NULL\<close>.
\<close>

section \<open>State\<close>

record CMD_INF =
  cmd_name :: addr
  cmd_desc :: addr
  cmd_op_func :: addr

datatype cmd_list = G_cmd_list

record cmd_state =
  cheap :: heap
  cmd_mem :: "cmd_list dl_mem"
  cmd_info :: "addr \<Rightarrow> addr"
  cmd_infs :: "addr \<Rightarrow> CMD_INF"
  G_command :: addr
  G_argc :: nat
  G_argv :: "nat \<Rightarrow> addr"
  last_prefix :: addr
  pLast :: ptr
  serial_out :: "uint8 list"

abbreviation (input) ARG_NUM_MAX :: nat where "ARG_NUM_MAX \<equiv> 10"
abbreviation (input) sizeof_CMD_NODE :: uint32 where "sizeof_CMD_NODE \<equiv> 12"

definition CMD_BAD :: int where "CMD_BAD = -2"

abbreviation smem :: "cmd_state \<Rightarrow> cmem" where "smem s \<equiv> bytes (cheap s)"

definition set_mem :: "cmem \<Rightarrow> cmd_state \<Rightarrow> cmd_state" where
  "set_mem m s = s\<lparr>cheap := (cheap s)\<lparr>bytes := m\<rparr>\<rparr>"

definition node_name :: "addr \<Rightarrow> cmd_state \<Rightarrow> addr" where
  "node_name n s = cmd_name (cmd_infs s (cmd_info s n))"

section \<open>Output\<close>

definition serial_putc :: "uint8 \<Rightarrow> cmd_state \<Rightarrow> cmd_state" where
  "serial_putc c s = s\<lparr>serial_out := serial_out s @ [c]\<rparr>"

definition put_text :: "uint8 list \<Rightarrow> cmd_state \<Rightarrow> cmd_state" where
  "put_text t s = fold serial_putc t s"

partial_function (option) serial_puts :: "addr \<Rightarrow> cmd_state \<Rightarrow> cmd_state option" where
  "serial_puts a s = (if smem s a \<noteq> 0 then serial_puts (a + 1) (serial_putc (smem s a) s) else Some s)"

text \<open>\<^verbatim>\<open>COLOR_FG_RED\<close>, \<^verbatim>\<open>COLOR_FG_WHITE\<close> and the text of the warning.\<close>

definition COLOR_FG_RED :: "uint8 list" where "COLOR_FG_RED = [27, 91, 51, 49, 109]"
definition COLOR_FG_WHITE :: "uint8 list" where "COLOR_FG_WHITE = [27, 91, 51, 55, 109]"

definition sorry_text :: "uint8 list" where
  "sorry_text = [83, 111, 114, 114, 121, 33, 32, 73, 32, 100, 111, 110, 39, 116, 32, 107, 110, 111, 119, 32, 58, 32]"

definition cmd_unknown_warning :: "addr \<Rightarrow> cmd_state \<Rightarrow> cmd_state option" where
  "cmd_unknown_warning nm s =
     map_option (put_text COLOR_FG_WHITE) (serial_puts nm (put_text COLOR_FG_RED (put_text sorry_text s)))"

section \<open>Commands\<close>

definition cmd_add :: "ptr \<Rightarrow> ptr \<Rightarrow> cmd_state \<Rightarrow> cmd_state option" where
  "cmd_add new_cmd_info current s =
     (case malloc sizeof_CMD_NODE current (cheap s) of
        None \<Rightarrow> None
      | Some (p, h) \<Rightarrow>
          let s1 = s\<lparr>cheap := h\<rparr>
          in case new_cmd_info of
               None \<Rightarrow> Some s1
             | Some i \<Rightarrow> Some (s1\<lparr>cmd_info := (cmd_info s1)(p := i), cmd_mem := dlist_add G_cmd_list p (cmd_mem s1)\<rparr>))"

definition cmd_find_one :: "addr \<Rightarrow> addr \<Rightarrow> cmd_state \<Rightarrow> (OS_STATUS \<times> cmd_state) option" where
  "cmd_find_one cmd_to_find n s =
     map_option (\<lambda>r. (if r = 0 then OS_STATUS_ERROR else OS_STATUS_OK, s)) (strcmp cmd_to_find (node_name n s) (smem s))"

partial_function (option) dispatch_loop ::
  "addr \<Rightarrow> bool \<Rightarrow> nat \<Rightarrow> (nat \<Rightarrow> addr) \<Rightarrow> cmem \<Rightarrow> (nat \<times> (nat \<Rightarrow> addr) \<times> cmem) option" where
  "dispatch_loop cmd_line after_blank argc argv m =
     (if m cmd_line \<noteq> 0 then
        if is_space (m cmd_line) then dispatch_loop (cmd_line + 1) True argc argv (m(cmd_line := 0))
        else if after_blank then
          if argc + 1 = ARG_NUM_MAX then Some (argc + 1, argv(argc := cmd_line), m)
          else dispatch_loop (cmd_line + 1) False (argc + 1) (argv(argc := cmd_line)) m
        else dispatch_loop (cmd_line + 1) False argc argv m
      else Some (argc, argv, m))"

definition cmd_dispatch_arg :: "addr \<Rightarrow> cmd_state \<Rightarrow> cmd_state option" where
  "cmd_dispatch_arg cmd_line s =
     map_option (\<lambda>(argc, argv, m). set_mem m (s\<lparr>G_command := cmd_line, G_argc := argc, G_argv := argv\<rparr>))
       (dispatch_loop cmd_line True 0 (G_argv s) (smem s))"

definition cmd_do ::
  "(addr \<Rightarrow> nat \<Rightarrow> (nat \<Rightarrow> addr) \<Rightarrow> cmd_state \<Rightarrow> (int \<times> cmd_state) option) \<Rightarrow> addr \<Rightarrow> cmd_state \<Rightarrow> (int \<times> cmd_state) option" where
  "cmd_do call cmd_line s =
     Option.bind (cmd_dispatch_arg cmd_line s) (\<lambda>s1.
     Option.bind (dlist_each cmd_mem G_cmd_list (cmd_find_one (G_command s1)) s1) (\<lambda>(cmd_node, s2).
       case cmd_node of
         Some n \<Rightarrow> call (cmd_op_func (cmd_infs s2 (cmd_info s2 n))) (G_argc s2) (G_argv s2) s2
       | None \<Rightarrow> map_option (\<lambda>s3. (CMD_BAD, s3)) (cmd_unknown_warning (G_command s2) s2)))"

text \<open>\<^verbatim>\<open>serial_printf("%s\t : %s\n", ...)\<close> in \<^verbatim>\<open>_cmd_show_one\<close>.\<close>

definition cmd_show_one :: "addr \<Rightarrow> cmd_state \<Rightarrow> (OS_STATUS \<times> cmd_state) option" where
  "cmd_show_one n s =
     Option.bind (serial_puts (node_name n s) s) (\<lambda>s1.
     map_option (\<lambda>s2. (OS_STATUS_OK, serial_putc 10 s2))
       (serial_puts (cmd_desc (cmd_infs s1 (cmd_info s1 n))) (put_text [9, 32, 58, 32] s1)))"

text \<open>\<open>k\<close> rounds of the loop over the arguments are left.\<close>

fun show_loop :: "nat \<Rightarrow> nat \<Rightarrow> (nat \<Rightarrow> addr) \<Rightarrow> cmd_state \<Rightarrow> cmd_state option" where
  "show_loop 0 i argv s = Some s"
| "show_loop (Suc k) i argv s =
     Option.bind (dlist_each cmd_mem G_cmd_list (cmd_find_one (argv i)) s) (\<lambda>(cmd_node, s1).
     Option.bind (case cmd_node of
                    Some n \<Rightarrow> map_option snd (cmd_show_one n s1)
                  | None \<Rightarrow> map_option (serial_putc 10) (cmd_unknown_warning (argv i) s1))
       (\<lambda>s2. show_loop k (i + 1) argv s2))"

definition cmd_show :: "nat \<Rightarrow> (nat \<Rightarrow> addr) \<Rightarrow> cmd_state \<Rightarrow> (int \<times> cmd_state) option" where
  "cmd_show argc argv s =
     map_option (\<lambda>s1. (0, s1))
       (if argc = 1 then map_option snd (dlist_each cmd_mem G_cmd_list cmd_show_one s) else show_loop (argc - 1) 1 argv s)"

section \<open>Completion\<close>

partial_function (option) tab_loop :: "addr \<Rightarrow> addr \<Rightarrow> ptr \<Rightarrow> cmd_state \<Rightarrow> (ptr \<times> cmd_state) option" where
  "tab_loop pfx cmd_line p s =
     (case p of
        None \<Rightarrow> Some (None, s)
      | Some n \<Rightarrow>
          Option.bind (strlen pfx (smem s)) (\<lambda>len.
            if strncmp pfx (node_name n s) len (smem s) = 0
            then map_option (\<lambda>(_, m). (Some n, set_mem m s)) (strcpy cmd_line (node_name n s) (smem s))
            else tab_loop pfx cmd_line (DL_NEXT n (cmd_mem s)) s))"

definition cmd_tab :: "addr \<Rightarrow> addr \<Rightarrow> cmd_state \<Rightarrow> (nat \<times> cmd_state) option" where
  "cmd_tab pfx cmd_line s =
     Option.bind (strcmp (last_prefix s) pfx (smem s)) (\<lambda>r.
     Option.bind (if r \<noteq> 0 then map_option (\<lambda>(_, m). (DL_FIRST G_cmd_list (cmd_mem s), set_mem m s)) (strcpy (last_prefix s) pfx (smem s))
                  else Some (case pLast s of None \<Rightarrow> DL_FIRST G_cmd_list (cmd_mem s) | Some n \<Rightarrow> DL_NEXT n (cmd_mem s), s)) (\<lambda>(p, s1).
     Option.bind (tab_loop pfx cmd_line p s1) (\<lambda>(p2, s2).
     Option.bind (if p2 = None then map_option (\<lambda>(_, m). set_mem m s2) (strcpy cmd_line pfx (smem s2)) else Some s2) (\<lambda>s3.
       map_option (\<lambda>len. (len, s3\<lparr>pLast := p2\<rparr>)) (strlen cmd_line (smem s3))))))"

declare serial_puts.simps [code] dispatch_loop.simps [code] tab_loop.simps [code]

section \<open>Words of a line\<close>

definition word_of :: "uint8 list \<Rightarrow> uint8 list" where
  "word_of xs = takeWhile (\<lambda>c. \<not> is_space c) xs"

definition after_word :: "uint8 list \<Rightarrow> uint8 list" where
  "after_word xs = dropWhile (\<lambda>c. \<not> is_space c) xs"

lemma length_after_word: "length (after_word xs) \<le> length xs"
  by (simp add: after_word_def length_dropWhile_le)

text \<open>The specification: the maximal runs of characters that are not white space.\<close>

function line_words :: "uint8 list \<Rightarrow> uint8 list list" where
  "line_words [] = []"
| "line_words (c # xs) = (if is_space c then line_words xs else word_of (c # xs) # line_words (after_word (c # xs)))"
  by pat_completeness auto
termination
  by (relation "measure length") (auto simp: after_word_def less_Suc_eq_le length_dropWhile_le)

declare line_words.simps [simp del]

lemma line_words_simps:
  "line_words [] = []"
  "is_space c \<Longrightarrow> line_words (c # xs) = line_words xs"
  "\<not> is_space c \<Longrightarrow> line_words (c # xs) = (c # word_of xs) # line_words (after_word xs)"
  by (simp_all add: line_words.simps word_of_def after_word_def)

text \<open>What the \<open>n\<close> places of an array get: a word each, and the last one the whole rest of the line
  from the start of its word.\<close>

function line_args :: "nat \<Rightarrow> uint8 list \<Rightarrow> uint8 list list" where
  "line_args n [] = []"
| "line_args n (c # xs) =
     (if is_space c then line_args n xs
      else if n \<le> 1 then [c # xs]
      else word_of (c # xs) # line_args (n - 1) (after_word (c # xs)))"
  by pat_completeness auto
termination
  by (relation "measure (\<lambda>(n, xs). length xs)") (auto simp: after_word_def less_Suc_eq_le length_dropWhile_le)

declare line_args.simps [simp del]

lemma line_args_simps:
  "line_args n [] = []"
  "is_space c \<Longrightarrow> line_args n (c # xs) = line_args n xs"
  "\<not> is_space c \<Longrightarrow> line_args (Suc 0) (c # xs) = [c # xs]"
  "\<not> is_space c \<Longrightarrow> 1 < n \<Longrightarrow> line_args n (c # xs) = (c # word_of xs) # line_args (n - 1) (after_word xs)"
  by (simp_all add: line_args.simps word_of_def after_word_def)

text \<open>All but the last are the words of the line.\<close>

lemma line_args_words:
  "0 < n \<Longrightarrow> length (line_args n xs) = min n (length (line_words xs)) \<and> take (n - 1) (line_args n xs) = take (n - 1) (line_words xs)"
proof (induction n xs rule: line_args.induct)
  case (2 n c xs)
  show ?case
  proof (cases "is_space c \<or> n \<le> 1")
    case True
    then show ?thesis using 2 by (auto simp: line_args.simps line_words_simps)
  next
    case False
    then obtain m where m: "n = Suc (Suc m)" by (metis One_nat_def Suc_le_eq not_less_eq_eq not0_implies_Suc le0)
    have "after_word (c # xs) = after_word xs" "word_of (c # xs) = c # word_of xs" using False by (simp_all add: after_word_def word_of_def)
    then show ?thesis using 2(2) False by (simp add: line_args_simps line_words_simps m)
  qed
qed (simp add: line_args_simps line_words_simps)

text \<open>The loop from a position inside of a word or between words.\<close>

definition args_from :: "bool \<Rightarrow> nat \<Rightarrow> uint8 list \<Rightarrow> uint8 list list" where
  "args_from after_blank n xs = line_args n (if after_blank then xs else after_word xs)"

lemma dispatch_loop_words:
  assumes "cstr m a xs" and "argc < 10"
  shows "\<exists>argc' argv' m'. dispatch_loop a ab argc argv m = Some (argc', argv', m')
    \<and> argc' = argc + length (args_from ab (10 - argc) xs)
    \<and> (\<forall>i < argc. argv' i = argv i)
    \<and> (\<forall>j < length (args_from ab (10 - argc) xs). cstr m' (argv' (argc + j)) (args_from ab (10 - argc) xs ! j))
    \<and> (\<not> ab \<longrightarrow> cstr m' a (word_of xs))
    \<and> (\<forall>b. b < a \<or> a + length xs \<le> b \<longrightarrow> m' b = m b)"
  using assms
proof (induction xs arbitrary: a ab argc argv m)
  case Nil
  then show ?case
    by (subst dispatch_loop.simps) (simp add: args_from_def line_args_simps after_word_def word_of_def)
next
  case (Cons c xs)
  have c: "m a = c" "c \<noteq> 0" and rest: "cstr m (a + 1) xs" using Cons.prems by auto
  show ?case
  proof (cases "is_space c")
    case True
    have "cstr (m(a := 0)) (a + 1) xs" using rest by (subst cstr_frame [where m = m]) auto
    from Cons.IH [OF this Cons.prems(2), of True argv] obtain argc' argv' m' where
      r: "dispatch_loop (a + 1) True argc argv (m(a := 0)) = Some (argc', argv', m')" "argc' = argc + length (line_args (10 - argc) xs)"
      "\<forall>i < argc. argv' i = argv i" "\<forall>j < length (line_args (10 - argc) xs). cstr m' (argv' (argc + j)) (line_args (10 - argc) xs ! j)"
      "\<forall>b. b < a + 1 \<or> a + 1 + length xs \<le> b \<longrightarrow> m' b = (m(a := 0)) b"
      unfolding args_from_def by (auto simp del: fun_upd_apply One_nat_def add_Suc_right)
    have "args_from ab (10 - argc) (c # xs) = line_args (10 - argc) xs" using True by (simp add: args_from_def line_args_simps after_word_def)
    moreover have "cstr m' a (word_of (c # xs))" using True r(5) by (simp add: word_of_def)
    ultimately show ?thesis using r True c by (subst dispatch_loop.simps) auto
  next
    case False
    show ?thesis
    proof (cases "ab \<and> argc = 9")
      case True
      then have "args_from ab (10 - argc) (c # xs) = [c # xs]" using False by (simp add: args_from_def line_args_simps)
      then show ?thesis using True False Cons.prems(1) by (subst dispatch_loop.simps) auto
    next
      case no: False
      let ?argc = "if ab then argc + 1 else argc" and ?argv = "if ab then argv(argc := a) else argv"
      let ?ws = "line_args (10 - ?argc) (after_word xs)"
      have less: "?argc < 10" using no Cons.prems(2) by (auto split: if_splits)
      from Cons.IH [OF rest less, of False ?argv] obtain argc' argv' m' where
        r: "dispatch_loop (a + 1) False ?argc ?argv m = Some (argc', argv', m')" "argc' = ?argc + length ?ws"
        "\<forall>i < ?argc. argv' i = ?argv i" "\<forall>j < length ?ws. cstr m' (argv' (?argc + j)) (?ws ! j)"
        "cstr m' (a + 1) (word_of xs)" "\<forall>b. b < a + 1 \<or> a + 1 + length xs \<le> b \<longrightarrow> m' b = m b"
        unfolding args_from_def by (auto simp del: fun_upd_apply One_nat_def add_Suc_right)
      have word: "cstr m' a (c # word_of xs)" using r(5,6) c by simp
      have run: "dispatch_loop a ab argc argv m = Some (argc', argv', m')" using r(1) c False no by (subst dispatch_loop.simps) auto
      show ?thesis
      proof (cases ab)
        case True
        then have "10 - argc - 1 = 10 - ?argc" "1 < 10 - argc" using less by auto
        then have "args_from ab (10 - argc) (c # xs) = (c # word_of xs) # ?ws"
          using line_args_simps(4) [OF False, of "10 - argc" xs] True by (simp only: args_from_def if_True)
        then show ?thesis using run r True word by (auto simp: nth_Cons split: nat.split)
      next
        case nab: False
        have "args_from ab (10 - argc) (c # xs) = ?ws" "word_of (c # xs) = c # word_of xs"
          using nab False by (simp_all add: args_from_def after_word_def word_of_def)
        then show ?thesis using run r nab word by auto
      qed
    qed
  qed
qed

section \<open>The list of commands\<close>

text \<open>\<open>ns\<close> are the nodes in the order of the list, each in a region of the heap, and \<open>N n\<close> the name of the command of \<open>n\<close>.\<close>

definition cmds_ok :: "cmd_state \<Rightarrow> addr list \<Rightarrow> (addr \<Rightarrow> uint8 list) \<Rightarrow> region set \<Rightarrow> bool" where
  "cmds_ok s ns N R \<longleftrightarrow>
     dl_holds (cmd_mem s) (\<lambda>_. ns) \<and> heap_uses (cheap s) R \<and>
     (\<forall>n \<in> set ns. cstr (smem s) (node_name n s) (N n) \<and> (\<exists>k t. (n, k, t) \<in> R \<and> 12 \<le> k))"

lemma cmds_ok_D:
  assumes "cmds_ok s ns N R"
  shows "dl_holds (cmd_mem s) (\<lambda>_. ns)" "heap_uses (cheap s) R" "n \<in> set ns \<Longrightarrow> cstr (smem s) (node_name n s) (N n)"
    "n \<in> set ns \<Longrightarrow> \<exists>k t. (n, k, t) \<in> R \<and> 12 \<le> k"
    "distinct ns" "DL_FIRST G_cmd_list (cmd_mem s) = first ns" "links (nodes (cmd_mem s)) None ns None"
  using assms dl_rep_D [OF dl_holds_D(1) [of "cmd_mem s" "\<lambda>_. ns" G_cmd_list]] by (auto simp: cmds_ok_def DL_FIRST_def)

text \<open>cmd_add puts the new command behind the others, in a node of its own; a command without a record costs
  the memory of a node that no list holds.\<close>

lemma cmd_add_appends:
  assumes ok: "cmds_ok s ns N R" and m: "malloc sizeof_CMD_NODE t (cheap s) = Some (p, h)"
    and i: "cstr (smem s) (cmd_name (cmd_infs s i)) w"
  shows "\<exists>k s1. cmd_add (Some i) t s = Some s1 \<and> cmds_ok s1 (ns @ [p]) (N(p := w)) (insert (p, k, t) R)
      \<and> cmd_info s1 p = i \<and> (\<forall>n \<in> set ns. cmd_info s1 n = cmd_info s n)"
    and "\<exists>k s1. cmd_add None t s = Some s1 \<and> cmds_ok s1 ns N (insert (p, k, t) R) \<and> (p, k, t) \<notin> R"
proof -
  note D = cmds_ok_D [OF ok]
  from hp.alloc_law [OF D(2) m] obtain k where k: "12 \<le> k" "heap_uses h (insert (p, k, t) R)" "(p, k, t) \<notin> R"
    and apart: "\<forall>r \<in> R. apart (p, k, t) r" by auto
  have new: "p \<notin> set ns"
  proof
    assume "p \<in> set ns"
    from D(4) [OF this] obtain k' t' where "(p, k', t') \<in> R" "12 \<le> k'" by blast
    then show False using apart k(1) by (force simp: apart_def)
  qed
  have bytes: "bytes h = smem s" by (rule malloc_bytes [OF m])
  have region: "\<exists>k' t'. (n, k', t') \<in> insert (p, k, t) R \<and> 12 \<le> k'" if "n \<in> set ns \<or> n = p" for n
    using D(4) [of n] that k(1) by blast
  let ?s1 = "s\<lparr>cheap := h, cmd_info := (cmd_info s)(p := i), cmd_mem := dlist_add G_cmd_list p (cmd_mem s)\<rparr>"
  have only: "(\<lambda>_. ns)(G_cmd_list := ns @ [p]) = (\<lambda>_. ns @ [p])"
    by (rule ext) (metis cmd_list.exhaust fun_upd_same)
  have "dl_holds (dlist_add G_cmd_list p (cmd_mem s)) (\<lambda>_. ns @ [p])"
    using dl.add_law [OF D(1), of p G_cmd_list] new unfolding dl.add_def dlist_add_def only by (simp add: only dlist_add_def)
  then have "cmds_ok ?s1 (ns @ [p]) (N(p := w)) (insert (p, k, t) R)"
    using k(2) i new D(3) region unfolding cmds_ok_def by (auto simp: bytes node_name_def simp del: insert_iff)
  then show "\<exists>k s1. cmd_add (Some i) t s = Some s1 \<and> cmds_ok s1 (ns @ [p]) (N(p := w)) (insert (p, k, t) R)
      \<and> cmd_info s1 p = i \<and> (\<forall>n \<in> set ns. cmd_info s1 n = cmd_info s n)"
    using m new by (intro exI [of _ k] exI [of _ ?s1]) (auto simp: cmd_add_def)
  have "cmds_ok (s\<lparr>cheap := h\<rparr>) ns N (insert (p, k, t) R)"
    using k(2) D(1,3) region unfolding cmds_ok_def by (auto simp: bytes node_name_def simp del: insert_iff)
  then show "\<exists>k s1. cmd_add None t s = Some s1 \<and> cmds_ok s1 ns N (insert (p, k, t) R) \<and> (p, k, t) \<notin> R"
    using m k(3) by (intro exI [of _ k] exI [of _ "s\<lparr>cheap := h\<rparr>"]) (auto simp: cmd_add_def)
qed

section \<open>Running a line\<close>

lemma put_text_simps [simp]:
  "cheap (put_text t s) = cheap s" "cmd_mem (put_text t s) = cmd_mem s" "serial_out (put_text t s) = serial_out s @ t"
  "put_text t (put_text u s) = put_text (u @ t) s"
  by (induction t arbitrary: s) (simp_all add: put_text_def serial_putc_def)

lemma serial_puts_cstr: "cstr (smem s) a w \<Longrightarrow> serial_puts a s = Some (put_text w s)"
proof (induction w arbitrary: a s)
  case (Cons c w)
  have "cstr (smem (serial_putc c s)) (a + 1) w" using Cons.prems by (simp add: serial_putc_def)
  from Cons.IH [OF this] show ?case using Cons.prems by (subst serial_puts.simps) (simp add: put_text_def)
qed (simp add: serial_puts.simps put_text_def)

lemma find_one_hits:
  assumes "cstr (smem s) a w" and "cstr (smem s) (node_name n s) v"
  shows "cmd_find_one a n s = Some (if v = w then OS_STATUS_ERROR else OS_STATUS_OK, s)"
  using strcmp_cstr [OF assms] cmp_bytes_0 [of w v] cstr_no0 [OF assms(1)] cstr_no0 [OF assms(2)]
  by (auto simp: cmd_find_one_def)

lemma each_find:
  assumes "cstr (smem s) a w"
  shows "links (nodes (cmd_mem s)) p ns None \<Longrightarrow> (\<forall>n \<in> set ns. cstr (smem s) (node_name n s) (N n)) \<Longrightarrow>
    each_loop cmd_mem (cmd_find_one a) (first ns) s = Some (List.find (\<lambda>n. N n = w) ns, s)"
proof (induction ns arbitrary: p)
  case (Cons n ns)
  have "DL_NEXT n (cmd_mem s) = first ns" using Cons.prems(1) by (simp add: DL_NEXT_def)
  moreover have "each_loop cmd_mem (cmd_find_one a) (first ns) s = Some (List.find (\<lambda>n. N n = w) ns, s)"
    by (rule Cons.IH [of "Some n"]) (use Cons.prems in simp_all)
  ultimately show ?case using find_one_hits [OF assms, of n "N n"] Cons.prems(2)
    by (simp add: each_loop.simps [of cmd_mem _ "Some n"])
qed (simp add: each_loop.simps)

text \<open>C34: cmd_do cuts the line in place and calls the routine of the first command whose name is the first word.
  The routine gets the words of the line as arguments, each a string of its own; with ten words or more there
  are ten arguments, and the tenth is the uncut rest of the line from the tenth word on. For any other first word
  it warns with that word and answers CMD_BAD.\<close>

theorem cmd_do_first_match:
  assumes ok: "cmds_ok s ns N R" and line: "cstr (smem s) l (c # xs)" "\<not> is_space c"
    and apart: "\<forall>n \<in> set ns. node_name n s + length (N n) < l \<or> l + length (c # xs) < node_name n s"
  defines "ws \<equiv> line_args 10 (c # xs)"
  shows "length ws = min 10 (length (line_words (c # xs))) \<and> take 9 ws = take 9 (line_words (c # xs))
    \<and> (\<exists>s1. G_command s1 = l \<and> G_argv s1 0 = l \<and> G_argc s1 = length ws
    \<and> (\<forall>j < length ws. cstr (smem s1) (G_argv s1 j) (ws ! j)) \<and> serial_out s1 = serial_out s
    \<and> cmd_do call l s =
        (case List.find (\<lambda>n. N n = hd ws) ns of
           Some n \<Rightarrow> call (cmd_op_func (cmd_infs s (cmd_info s n))) (G_argc s1) (G_argv s1) s1
         | None \<Rightarrow> Some (CMD_BAD, put_text (sorry_text @ COLOR_FG_RED @ hd ws @ COLOR_FG_WHITE) s1)))"
proof -
  note D = cmds_ok_D [OF ok]
  let ?rest = "line_args 9 (after_word xs)"
  have ws: "ws = (c # word_of xs) # ?rest" unfolding ws_def using line(2) by (simp add: line_args_simps)
  have spec: "length ws = min 10 (length (line_words (c # xs)))" "take 9 ws = take 9 (line_words (c # xs))"
    using line_args_words [of 10 "c # xs"] by (simp_all add: ws_def)
  have first: "smem s l = c" "c \<noteq> 0" and rest: "cstr (smem s) (l + 1) xs" using line(1) by auto
  from dispatch_loop_words [OF rest, of 1 False "(G_argv s)(0 := l)"] obtain argc argv m where
    r: "dispatch_loop (l + 1) False 1 ((G_argv s)(0 := l)) (smem s) = Some (argc, argv, m)" "argc = length ws" "argv 0 = l"
    "\<forall>j < length ?rest. cstr m (argv (1 + j)) (?rest ! j)"
    "cstr m (l + 1) (word_of xs)" "\<forall>b. b < l + 1 \<or> l + 1 + length xs \<le> b \<longrightarrow> m b = smem s b"
    by (auto simp: args_from_def ws)
  define s1 where "s1 = set_mem m (s\<lparr>G_command := l, G_argc := argc, G_argv := argv\<rparr>)"
  have dispatch: "cmd_dispatch_arg l s = Some s1"
    unfolding cmd_dispatch_arg_def s1_def using r(1) first line(2) by (subst dispatch_loop.simps) simp
  have mem: "smem s1 = m" "cmd_mem s1 = cmd_mem s" "node_name n s1 = node_name n s" "cmd_infs s1 = cmd_infs s" "cmd_info s1 = cmd_info s" for n
    by (simp_all add: s1_def set_mem_def node_name_def)
  have args: "G_command s1 = l" "G_argc s1 = argc" "G_argv s1 = argv" "serial_out s1 = serial_out s" by (simp_all add: s1_def set_mem_def)
  have word: "cstr m l (c # word_of xs)" using r(5,6) first by simp
  have names: "\<forall>n \<in> set ns. cstr (smem s1) (node_name n s1) (N n)"
  proof
    fix n assume n: "n \<in> set ns"
    have "cstr m (node_name n s) (N n) = cstr (smem s) (node_name n s) (N n)"
      by (rule cstr_frame) (use bspec [OF apart n] r(6) in auto)
    then show "cstr (smem s1) (node_name n s1) (N n)" using D(3) [OF n] mem by simp
  qed
  have found: "dlist_each cmd_mem G_cmd_list (cmd_find_one l) s1 = Some (List.find (\<lambda>n. N n = hd ws) ns, s1)"
    using each_find [of s1 l "c # word_of xs" None ns N] word names D(6,7) by (simp add: dlist_each_def mem ws)
  have "cstr m (argv j) (ws ! j)" if "j < length ws" for j
    using that r(3,4) word by (cases j) (auto simp: ws)
  moreover have "cmd_unknown_warning l s1 = Some (put_text (sorry_text @ COLOR_FG_RED @ hd ws @ COLOR_FG_WHITE) s1)"
    using serial_puts_cstr [of "put_text (sorry_text @ COLOR_FG_RED) s1" l "c # word_of xs"] word
    by (simp add: cmd_unknown_warning_def mem ws)
  ultimately show ?thesis using r(2,3) spec
    by (intro conjI exI [of _ s1]) (simp_all add: cmd_do_def dispatch found mem args split: option.split)
qed

section \<open>Completing a prefix\<close>

text \<open>\<open>n\<close> bytes from \<open>a\<close> and \<open>k\<close> bytes from \<open>b\<close> have none in common.\<close>

definition away :: "addr \<Rightarrow> nat \<Rightarrow> addr \<Rightarrow> nat \<Rightarrow> bool" where
  "away a n b k \<longleftrightarrow> a + n \<le> b \<or> b + k \<le> a"

lemma cstr_put_away: "away b (length xs + 1) a (length ys) \<Longrightarrow> cstr (put_bytes a ys m) b xs = cstr m b xs"
  by (rule cstr_frame) (auto simp: away_def put_bytes_other)

lemma strcpy_away: "cstr m b xs \<Longrightarrow> away b (length xs + 1) a (length xs + 1) \<Longrightarrow> strcpy a b m = Some (a, put_bytes a (xs @ [0]) m)"
  using strcpy_loop_cstr [of m b xs a] by (auto simp: strcpy_def away_def)

lemma find_first_filter: "List.find P xs = first (filter P xs)"
  by (induction xs) auto

lemma filter_nth_split:
  "i < length (filter P xs) \<Longrightarrow> \<exists>as bs. xs = as @ filter P xs ! i # bs \<and> filter P bs = drop (Suc i) (filter P xs)"
proof (induction xs arbitrary: i)
  case (Cons x xs)
  show ?case
  proof (cases "P x")
    case True
    show ?thesis
    proof (cases i)
      case 0
      then show ?thesis using True by (intro exI [of _ "[]"] exI [of _ xs]) simp
    next
      case (Suc j)
      then obtain as bs where "xs = as @ filter P xs ! j # bs" "filter P bs = drop (Suc j) (filter P xs)"
        using Cons.IH [of j] Cons.prems True by auto
      then show ?thesis using Suc True by (intro exI [of _ "x # as"] exI [of _ bs]) simp
    qed
  next
    case False
    then obtain as bs where "xs = as @ filter P xs ! i # bs" "filter P bs = drop (Suc i) (filter P xs)"
      using Cons.IH [of i] Cons.prems by auto
    then show ?thesis using False by (intro exI [of _ "x # as"] exI [of _ bs]) simp
  qed
qed simp

lemma set_mem_simps [simp]:
  "smem (set_mem m s) = m" "cmd_mem (set_mem m s) = cmd_mem s" "node_name n (set_mem m s) = node_name n s"
  "last_prefix (set_mem m s) = last_prefix s" "pLast (set_mem m s) = pLast s" "cmd_info (set_mem m s) = cmd_info s"
  by (simp_all add: set_mem_def node_name_def)

lemma tab_loop_finds:
  assumes pf: "cstr (smem s) pf ys"
  shows "links (nodes (cmd_mem s)) p bs None \<Longrightarrow>
      (\<forall>n \<in> set bs. cstr (smem s) (node_name n s) (N n) \<and> away (node_name n s) (length (N n) + 1) q (length (N n) + 1)) \<Longrightarrow>
    tab_loop pf q (first bs) s =
      (case first (filter (\<lambda>n. prefix ys (N n)) bs) of
         None \<Rightarrow> Some (None, s)
       | Some n \<Rightarrow> Some (Some n, set_mem (put_bytes q (N n @ [0]) (smem s)) s))"
proof (induction bs arbitrary: p)
  case (Cons n bs)
  have len: "strlen pf (smem s) = Some (length ys)" using strlen_loop_cstr [OF pf] by (simp add: strlen_def)
  have n: "cstr (smem s) (node_name n s) (N n)" and q: "away (node_name n s) (length (N n) + 1) q (length (N n) + 1)" using Cons.prems(2) by auto
  have "strncmp pf (node_name n s) (length ys) (smem s) = 0 \<longleftrightarrow> ys = take (length ys) (N n)"
    using strncmp_loop_cstr [OF pf n, of "length ys"] cmp_bytes_0 [of ys "take (length ys) (N n)"] cstr_no0 [OF pf] cstr_no0 [OF n]
    by (auto simp: strncmp_def dest: in_set_takeD)
  then have hit: "strncmp pf (node_name n s) (length ys) (smem s) = 0 \<longleftrightarrow> prefix ys (N n)"
    by (metis append_take_drop_id prefixI prefix_def append_eq_conv_conj)
  have "DL_NEXT n (cmd_mem s) = first bs" using Cons.prems(1) by (simp add: DL_NEXT_def)
  moreover have "tab_loop pf q (first bs) s = (case first (filter (\<lambda>n. prefix ys (N n)) bs) of
         None \<Rightarrow> Some (None, s) | Some n \<Rightarrow> Some (Some n, set_mem (put_bytes q (N n @ [0]) (smem s)) s))"
    by (rule Cons.IH [of "Some n"]) (use Cons.prems in simp_all)
  ultimately show ?case using hit strcpy_away [OF n q] len by (subst tab_loop.simps) simp
qed (simp add: tab_loop.simps)

text \<open>Where the search goes on after \<open>i\<close> hits.\<close>

lemma tab_start:
  assumes "cmds_ok s ns N R" and "i \<le> length (filter P ns)"
  shows "\<exists>as bs. ns = as @ bs \<and> filter P bs = drop i (filter P ns)
    \<and> (case if i = 0 then None else Some (filter P ns ! (i - 1)) of
         None \<Rightarrow> DL_FIRST G_cmd_list (cmd_mem s) | Some n \<Rightarrow> DL_NEXT n (cmd_mem s)) = first bs"
proof (cases i)
  case 0
  then show ?thesis using cmds_ok_D(6) [OF assms(1)] by (intro exI [of _ "[]"] exI [of _ ns]) simp
next
  case (Suc j)
  then obtain as bs where split: "ns = as @ filter P ns ! j # bs" "filter P bs = drop (Suc j) (filter P ns)"
    using filter_nth_split [of j P ns] assms(2) by auto
  have "links (nodes (cmd_mem s)) None (as @ filter P ns ! j # bs) None" using cmds_ok_D(7) [OF assms(1)] split(1) by simp
  then have "DL_NEXT (filter P ns ! j) (cmd_mem s) = first bs" by (simp add: DL_NEXT_def links_Cons_next)
  then show ?thesis using Suc split by (intro exI [of _ "as @ [filter P ns ! j]"] exI [of _ bs]) simp
qed

text \<open>Writing a string away from the names of the records keeps the list of commands.\<close>

lemma cmds_ok_put:
  assumes "cmds_ok s ns N R" "\<forall>n \<in> set ns. away (node_name n s) (length (N n) + 1) p K" "length w < K"
  shows "cmds_ok (set_mem (put_bytes p (w @ [0]) (smem s)) s) ns N R"
proof -
  have "cstr (put_bytes p (w @ [0]) (smem s)) (node_name n s) (N n)" if n: "n \<in> set ns" for n
  proof -
    have "away (node_name n s) (length (N n) + 1) p (length (w @ [0]))" using bspec [OF assms(2) n] assms(3) by (auto simp: away_def)
    then show ?thesis using cmds_ok_D(3) [OF assms(1) n] by (simp add: cstr_put_away)
  qed
  then show ?thesis using assms(1) by (auto simp: cmds_ok_def set_mem_def node_name_def heap_uses_def heap_holds_def)
qed

lemma cmds_ok_maybe_put:
  assumes "cmds_ok s ns N R" "\<forall>n \<in> set ns. away (node_name n s) (length (N n) + 1) p K" "length w < K"
  shows "cmds_ok (if b then s else set_mem (put_bytes p (w @ [0]) (smem s)) s) ns N R"
  using cmds_ok_put [OF assms] assms(1) by simp

lemma cmds_ok_pLast: "cmds_ok (s\<lparr>pLast := v\<rparr>) ns N R = cmds_ok s ns N R"
  by (simp add: cmds_ok_def node_name_def heap_uses_def heap_holds_def)

text \<open>C35: cmd_tab offers the commands that begin with the prefix one after the other, in the order of the list, then the
  prefix itself, and starts again; a new prefix starts at the first one. Here \<open>i\<close> commands have been offered for it.
\<close>

theorem cmd_tab_cycles:
  assumes ok: "cmds_ok s ns N R" and pf: "cstr (smem s) pf ys" "length ys < 20" and lp: "cstr (smem s) (last_prefix s) zs"
    and i: "i \<le> length ms" "if zs = ys then pLast s = (if i = 0 then None else Some (ms ! (i - 1))) else i = 0"
    and away_lp: "away pf (length ys + 1) (last_prefix s) 20" "\<forall>n \<in> set ns. away (node_name n s) (length (N n) + 1) (last_prefix s) 20"
    and away_q: "away pf (length ys + 1) q K" "away (last_prefix s) 20 q K" "\<forall>n \<in> set ns. away (node_name n s) (length (N n) + 1) q K"
    and room: "length ys < K" "\<forall>n \<in> set ns. length (N n) < K"
    and ms: "ms = filter (\<lambda>n. prefix ys (N n)) ns"
  shows "\<exists>s1. cmd_tab pf q s = Some (length (if i < length ms then N (ms ! i) else ys), s1)
    \<and> cstr (smem s1) q (if i < length ms then N (ms ! i) else ys)
    \<and> pLast s1 = (if i < length ms then Some (ms ! i) else None)
    \<and> last_prefix s1 = last_prefix s \<and> cstr (smem s1) (last_prefix s) ys \<and> cstr (smem s1) pf ys \<and> cmds_ok s1 ns N R"
proof -
  note D = cmds_ok_D [OF ok]
  let ?m0 = "put_bytes (last_prefix s) (ys @ [0]) (smem s)"
  define s1 where "s1 = (if zs = ys then s else set_mem ?m0 s)"
  obtain r where r: "strcmp (last_prefix s) pf (smem s) = Some r" "r = 0 \<longleftrightarrow> zs = ys"
    using strcmp_cstr [OF lp pf(1)] cmp_bytes_0 [of zs ys] cstr_no0 [OF lp] cstr_no0 [OF pf(1)] by auto
  have room_lp: "away pf (length ys + 1) (last_prefix s) (length ys + 1)" using away_lp(1) pf(2) by (auto simp: away_def)
  have s1: "cmd_mem s1 = cmd_mem s" "last_prefix s1 = last_prefix s" by (auto simp: s1_def set_mem_def)
  have pf1: "cstr (smem s1) pf ys" using pf away_lp(1) by (auto simp: s1_def cstr_put_away away_def)
  have lp1: "cstr (smem s1) (last_prefix s) ys" using lp cstr_put [OF cstr_no0 [OF pf(1)]] by (auto simp: s1_def)
  have ok1: "cmds_ok s1 ns N R"
    unfolding s1_def by (rule cmds_ok_maybe_put [OF ok]) (use away_lp(2) pf(2) in auto)
  have name1: "node_name n s1 = node_name n s" for n by (simp add: s1_def set_mem_def node_name_def)
  note names1 = cmds_ok_D(3) [OF ok1, unfolded name1]
  obtain as bs where ns: "ns = as @ bs" and rest: "filter (\<lambda>n. prefix ys (N n)) bs = drop i ms"
    and at: "(case if i = 0 then None else Some (ms ! (i - 1)) of None \<Rightarrow> DL_FIRST G_cmd_list (cmd_mem s) | Some n \<Rightarrow> DL_NEXT n (cmd_mem s)) = first bs"
    using tab_start [OF ok i(1) [unfolded ms]] unfolding ms [symmetric] by blast
  have start: "(if r \<noteq> 0 then map_option (\<lambda>(_, m). (DL_FIRST G_cmd_list (cmd_mem s), set_mem m s)) (strcpy (last_prefix s) pf (smem s))
      else Some (case pLast s of None \<Rightarrow> DL_FIRST G_cmd_list (cmd_mem s) | Some n \<Rightarrow> DL_NEXT n (cmd_mem s), s)) = Some (first bs, s1)"
    using at i(2) r(2) strcpy_away [OF pf(1) room_lp] by (cases "zs = ys") (simp_all add: s1_def)
  have links: "\<exists>p. links (nodes (cmd_mem s)) p bs None" using D(7) by (auto simp: ns links_append)
  have q_names: "away (node_name n s) (length (N n) + 1) q (length (N n) + 1)" if "n \<in> set ns" for n
    using bspec [OF away_q(3) that] bspec [OF room(2) that] by (auto simp: away_def)
  have loop: "tab_loop pf q (first bs) s1 =
      (case first (drop i ms) of None \<Rightarrow> Some (None, s1) | Some n \<Rightarrow> Some (Some n, set_mem (put_bytes q (N n @ [0]) (smem s1)) s1))"
    using tab_loop_finds [OF pf1, of _ bs N q] links names1 q_names by (simp add: s1 name1 rest ns) blast
  define w where "w = (if i < length ms then N (ms ! i) else ys)"
  define s2 where "s2 = set_mem (put_bytes q (w @ [0]) (smem s1)) s1"
  have sub: "ms ! i \<in> set ns" if "i < length ms" using nth_mem [OF that] ms by auto
  have w: "length w < K" "0 \<notin> set w"
    using room sub cstr_no0 [OF names1] cstr_no0 [OF pf(1)] by (auto simp: w_def)
  have keep: "cstr (smem s2) a v" if "cstr (smem s1) a v" "away a (length v + 1) q K" for a v
    using that w by (auto simp: s2_def cstr_put_away away_def)
  have copied: "cstr (smem s2) q w" using cstr_put [OF w(2)] by (simp add: s2_def)
  have pq: "away pf (length ys + 1) q (length ys + 1)" using away_q(1) room(1) by (auto simp: away_def)
  have run: "cmd_tab pf q s = Some (length w, s2\<lparr>pLast := if i < length ms then Some (ms ! i) else None\<rparr>)"
  proof (cases "i < length ms")
    case True
    then have "first (drop i ms) = Some (ms ! i)" by (cases "drop i ms") (auto simp: Cons_nth_drop_Suc [symmetric])
    then show ?thesis using True strlen_loop_cstr [OF copied]
      by (simp add: cmd_tab_def r(1) start loop w_def s2_def strlen_def)
  next
    case False
    then show ?thesis using strcpy_away [OF pf1 pq] strlen_loop_cstr [OF copied]
      by (simp add: cmd_tab_def r(1) start loop w_def s2_def strlen_def)
  qed
  have lq: "away (last_prefix s) (length ys + 1) q K" using away_q(2) pf(2) by (auto simp: away_def)
  have "cmds_ok s2 ns N R"
    unfolding s2_def by (rule cmds_ok_put [OF ok1]) (use away_q(3) w(1) in \<open>auto simp: name1\<close>)
  then show ?thesis using run copied keep [OF lp1 lq] keep [OF pf1 away_q(1)]
    by (intro exI [of _ "s2\<lparr>pLast := if i < length ms then Some (ms ! i) else None\<rparr>"]) (simp add: w_def s2_def s1 cmds_ok_pLast)
qed

section \<open>An example\<close>

text \<open>The line \<open>ab x\<close> is at 100, the name \<open>ab\<close> of the only record at 200, the prefix \<open>a\<close> at 300.\<close>

definition cmd_demo :: cmd_state where
  "cmd_demo = \<lparr>cheap = fresh_heap\<lparr>bytes := put_bytes 100 [97, 98, 32, 120] (put_bytes 200 [97, 98] (put_bytes 300 [97] (\<lambda>_. 0)))\<rparr>,
     cmd_mem = \<lparr>nodes = (\<lambda>_. \<lparr>dl_next = None, dl_previous = None\<rparr>), lists = (\<lambda>_. \<lparr>dl_head = None, dl_tail = None\<rparr>)\<rparr>,
     cmd_info = (\<lambda>_. 0), cmd_infs = (\<lambda>_. \<lparr>cmd_name = 200, cmd_desc = 200, cmd_op_func = 7\<rparr>),
     G_command = 0, G_argc = 0, G_argv = (\<lambda>_. 0), last_prefix = 400, pLast = None, serial_out = []\<rparr>"

lemma cmd_demo_strings:
  "cstr (smem cmd_demo) 100 [97, 98, 32, 120]" "cstr (smem cmd_demo) 200 [97, 98]" "cstr (smem cmd_demo) 300 [97]" "cstr (smem cmd_demo) 400 []"
  by (simp_all add: cmd_demo_def put_bytes_def)

lemma cmd_demo_added:
  obtains s p R where "cmds_ok s [p] (\<lambda>n. [97, 98]) R" and "smem s = smem cmd_demo" and "last_prefix s = 400" and "pLast s = None"
    and "cmd_infs s = cmd_infs cmd_demo"
proof -
  have h: "heap_holds (cheap cmd_demo) whole" using fresh_heap_holds by (simp add: cmd_demo_def heap_holds_def)
  then have "heap_uses (cheap cmd_demo) {}" by (auto simp: heap_uses_def whole_def intro!: exI [of _ "[Blk 0x4ffffec False None]"])
  then have ok: "cmds_ok cmd_demo [] (\<lambda>n. [97, 98]) {}" by (simp add: cmds_ok_def cmd_demo_def dl_holds_def dl_rep_def)
  obtain p h' where m: "malloc sizeof_CMD_NODE None (cheap cmd_demo) = Some (p, h')"
    using malloc_refines_fit [of "cheap cmd_demo" "[]" "Blk 0x4ffffec False None" "[]" 12 None] h
    by (auto simp: whole_def fits_def align_up_nat)
  have name: "cstr (smem cmd_demo) (cmd_name (cmd_infs cmd_demo 0)) [97, 98]" using cmd_demo_strings(2) by (simp add: cmd_demo_def)
  from cmd_add_appends(1) [OF ok m name] obtain k s1 where
    added: "cmd_add (Some 0) None cmd_demo = Some s1" and ok1: "cmds_ok s1 [p] (\<lambda>n. [97, 98]) (insert (p, k, None) {})" by (auto simp: fun_upd_idem)
  have s1: "s1 = cmd_demo\<lparr>cheap := h', cmd_info := (cmd_info cmd_demo)(p := 0), cmd_mem := dlist_add G_cmd_list p (cmd_mem cmd_demo)\<rparr>"
    using added by (simp add: cmd_add_def m Let_def)
  have "smem s1 = smem cmd_demo" using malloc_bytes [OF m] by (simp add: s1)
  moreover have "last_prefix s1 = 400" "pLast s1 = None" "cmd_infs s1 = cmd_infs cmd_demo" by (simp_all add: s1) (simp_all add: cmd_demo_def)
  ultimately show ?thesis using that ok1 by blast
qed

lemma cmd_demo_words: "line_args 10 [97, 98, 32, 120] = [[97, 98], [120]]"
  by (simp add: line_args_simps word_of_def after_word_def is_space_iff)

theorem cmd_do_first_match_witness:
  "\<exists>s s1. cmd_do (\<lambda>f argc argv s. Some (int (f + argc), s)) 100 s = Some (9, s1) \<and> cstr (smem s1) (G_argv s1 0) [97, 98] \<and> cstr (smem s1) (G_argv s1 1) [120]"
proof -
  obtain s p R where s: "cmds_ok s [p] (\<lambda>n. [97, 98]) R" "smem s = smem cmd_demo" "cmd_infs s = cmd_infs cmd_demo" by (rule cmd_demo_added)
  have line: "cstr (smem s) 100 [97, 98, 32, 120]" and sp: "\<not> is_space 97" using s(2) cmd_demo_strings(1) by (simp_all add: is_space_iff)
  have apart: "\<forall>n \<in> set [p]. node_name n s + length [97 :: uint8, 98] < 100 \<or> 100 + length [97 :: uint8, 98, 32, 120] < node_name n s"
    by (simp add: node_name_def s(3) cmd_demo_def)
  from cmd_do_first_match [OF s(1) line sp apart, unfolded cmd_demo_words, where call = "\<lambda>f argc argv s. Some (int (f + argc), s)"]
  obtain s1 where "cmd_do (\<lambda>f argc argv s. Some (int (f + argc), s)) 100 s = Some (9, s1)"
    "\<forall>j < 2. cstr (smem s1) (G_argv s1 j) ([[97, 98], [120]] ! j)"
    by (auto simp: s(3) cmd_demo_def numeral_2_eq_2)
  then show ?thesis by (intro exI [of _ s] exI [of _ s1]) (auto simp: numeral_2_eq_2 All_less_Suc)
qed

theorem cmd_tab_cycles_witness:
  "\<exists>s s1. cmd_tab 300 500 s = Some (2, s1) \<and> cstr (smem s1) 500 [97, 98]"
proof -
  obtain s p R where s: "cmds_ok s [p] (\<lambda>n. [97, 98]) R" "smem s = smem cmd_demo" "cmd_infs s = cmd_infs cmd_demo" "last_prefix s = 400"
    by (rule cmd_demo_added)
  have name: "node_name n s = 200" for n by (simp add: node_name_def s(3) cmd_demo_def)
  have "\<exists>s1. cmd_tab 300 500 s = Some (length (if 0 < length [p] then (\<lambda>n. [97, 98]) ([p] ! 0) else [97 :: uint8]), s1)
    \<and> cstr (smem s1) 500 (if 0 < length [p] then (\<lambda>n. [97, 98]) ([p] ! 0) else [97])
    \<and> pLast s1 = (if 0 < length [p] then Some ([p] ! 0) else None)
    \<and> last_prefix s1 = last_prefix s \<and> cstr (smem s1) (last_prefix s) [97] \<and> cstr (smem s1) 300 [97] \<and> cmds_ok s1 [p] (\<lambda>n. [97, 98]) R"
    by (rule cmd_tab_cycles [OF s(1), where K = 10 and zs = "[]"])
      (use cmd_demo_strings in \<open>simp_all add: s name away_def\<close>)
  then show ?thesis by (auto simp: numeral_2_eq_2)
qed

end
