(* ===== verification/Shell.thy ===== *)
theory Shell
  imports Cmd
begin

text \<open>
  The shell: \<^verbatim>\<open>src/shell.c\<close>. A line is read key by key into a buffer, with backspace, completion by the tabulator
  and the last lines on the arrow keys, and then run as a command.

  The input of the serial line is the list of bytes that will arrive; the flag of a byte says whether it has
  arrived already when the code polls for it. \<open>None\<close> as a result: the code waits for ever, or goes wrong as in theory
  Cmd. The completion of file names, \<^verbatim>\<open>yaffs_tab\<close>, belongs to the file system and is a parameter.
\<close>

section \<open>State\<close>

datatype hist_list = history_list

record shell_state =
  shcmd :: cmd_state
  hist_mem :: "hist_list dl_mem"
  history_num :: nat
  input :: "(uint8 \<times> bool) list"

text \<open>The local variables of \<^verbatim>\<open>_get_cmd_line\<close>.\<close>

record edit_state =
  ed_i :: int
  have_tab :: bool
  p_history_index :: ptr

abbreviation (input) CMD_LEN_MAX :: int where "CMD_LEN_MAX \<equiv> 1024"
abbreviation (input) HISTORY_MAX :: nat where "HISTORY_MAX \<equiv> 3"
abbreviation (input) sizeof_HISTORY_NODE :: uint32 where "sizeof_HISTORY_NODE \<equiv> 1032"
abbreviation (input) PATH_LEN_MAX :: nat where "PATH_LEN_MAX \<equiv> 256"

text \<open>The text of a node behind its two pointers.\<close>

definition hist_line :: "addr \<Rightarrow> addr" where "hist_line p = p + 8"

abbreviation shmem :: "shell_state \<Rightarrow> cmem" where "shmem s \<equiv> smem (shcmd s)"

definition upd_cmd :: "(cmd_state \<Rightarrow> cmd_state) \<Rightarrow> shell_state \<Rightarrow> shell_state" where
  "upd_cmd f s = s\<lparr>shcmd := f (shcmd s)\<rparr>"

definition store :: "addr \<Rightarrow> uint8 \<Rightarrow> shell_state \<Rightarrow> shell_state" where
  "store a c s = upd_cmd (set_mem ((shmem s)(a := c))) s"

definition serial_getc :: "shell_state \<Rightarrow> (uint8 \<times> shell_state) option" where
  "serial_getc s = (case input s of [] \<Rightarrow> None | (c, _) # r \<Rightarrow> Some (c, s\<lparr>input := r\<rparr>))"

definition serial_tstc :: "shell_state \<Rightarrow> bool" where
  "serial_tstc s = (case input s of [] \<Rightarrow> False | (_, arrived) # _ \<Rightarrow> arrived)"

definition puts :: "addr \<Rightarrow> shell_state \<Rightarrow> shell_state option" where
  "puts a s = map_option (\<lambda>c. s\<lparr>shcmd := c\<rparr>) (serial_puts a (shcmd s))"

definition copy_str :: "addr \<Rightarrow> addr \<Rightarrow> shell_state \<Rightarrow> shell_state option" where
  "copy_str d a s = map_option (\<lambda>(_, m). upd_cmd (set_mem m) s) (strcpy d a (shmem s))"

text \<open>\<^verbatim>\<open>while (n--) serial_puts("\b \b")\<close>; a negative \<open>n\<close> would have to wrap around.\<close>

definition erase :: "int \<Rightarrow> shell_state \<Rightarrow> shell_state option" where
  "erase n s = (if n < 0 then None else Some (upd_cmd (put_text (concat (replicate (nat n) [8, 32, 8]))) s))"

section \<open>Reading a line\<close>

partial_function (option) del_front_space :: "addr \<Rightarrow> cmem \<Rightarrow> addr option" where
  "del_front_space cmd_line m = (if is_space (m cmd_line) then del_front_space (cmd_line + 1) m else Some cmd_line)"

definition get_last_cmd_len :: "addr \<Rightarrow> cmem \<Rightarrow> int option" where
  "get_last_cmd_len cmd_line m =
     map_option (\<lambda>len. case memrchr cmd_line 32 (of_nat len) m of
                   None \<Rightarrow> int len
                 | Some pblank \<Rightarrow> int len - (int pblank - int cmd_line + 1))
       (strlen cmd_line m)"

definition load_history :: "addr \<Rightarrow> int \<Rightarrow> ptr \<Rightarrow> shell_state \<Rightarrow> (int \<times> shell_state) option" where
  "load_history cmd_line old_len p_history_node s =
     (case p_history_node of
        None \<Rightarrow> Some (old_len, s)
      | Some p \<Rightarrow>
          Option.bind (erase old_len s) (\<lambda>s1.
          Option.bind (copy_str cmd_line (hist_line p) s1) (\<lambda>s2.
          Option.bind (puts cmd_line s2) (\<lambda>s3.
            map_option (\<lambda>len. (int len, s3)) (strlen cmd_line (shmem s3))))))"

text \<open>The first other key after tabulators: the completed word takes the place of the prefix.\<close>

definition take_tab :: "addr \<Rightarrow> addr \<Rightarrow> edit_state \<Rightarrow> shell_state \<Rightarrow> (edit_state \<times> shell_state) option" where
  "take_tab buf tab e s =
     Option.bind (strlen buf (shmem s)) (\<lambda>s_len.
     Option.bind (get_last_cmd_len buf (shmem s)) (\<lambda>prefix_len.
     Option.bind (copy_str (nat (int buf + int s_len - prefix_len)) tab s) (\<lambda>s1.
       map_option (\<lambda>len. (e\<lparr>ed_i := int len, have_tab := False\<rparr>, s1)) (strlen buf (shmem s1)))))"

type_synonym yaffs_tab = "addr \<Rightarrow> addr \<Rightarrow> cmd_state \<Rightarrow> (int \<times> cmd_state) option"

definition tab_key :: "yaffs_tab \<Rightarrow> addr \<Rightarrow> addr \<Rightarrow> edit_state \<Rightarrow> shell_state \<Rightarrow> (edit_state \<times> shell_state) option" where
  "tab_key ytab buf tab e s =
     (let s1 = store (buf + nat (ed_i e)) 0 s
      in Option.bind (get_last_cmd_len buf (shmem s1)) (\<lambda>prefix_len.
         Option.bind (strlen buf (shmem s1)) (\<lambda>len.
           let erase_chars = ed_i e - (int len - prefix_len)
           in Option.bind
                (if erase_chars = ed_i e
                 then map_option (\<lambda>(n, c). (int n, s1\<lparr>shcmd := c\<rparr>)) (cmd_tab buf tab (shcmd s1))
                 else map_option (\<lambda>(n, c). (ed_i e - erase_chars + n, s1\<lparr>shcmd := c\<rparr>))
                        (ytab (buf + nat (ed_i e - erase_chars)) tab (shcmd s1))) (\<lambda>(i, s2).
              Option.bind (erase erase_chars s2) (\<lambda>s3.
                map_option (\<lambda>s4. (e\<lparr>ed_i := i, have_tab := True\<rparr>, s4)) (puts tab s3))))))"

text \<open>After an escape character; the bytes of an arrow key are read only when they have arrived.\<close>

definition escape_key :: "addr \<Rightarrow> edit_state \<Rightarrow> shell_state \<Rightarrow> (edit_state \<times> shell_state) option" where
  "escape_key buf e s =
     (if \<not> serial_tstc s then Some (e, s)
      else Option.bind (serial_getc s) (\<lambda>(c1, s1).
        if c1 \<noteq> 91 \<or> \<not> serial_tstc s1 then Some (e, s1)
        else Option.bind (serial_getc s1) (\<lambda>(c2, s2).
          let p = (if c2 = 65 then case p_history_index e of
                                     None \<Rightarrow> DL_LAST history_list (hist_mem s2)
                                   | Some q \<Rightarrow> DL_PREVIOUS q (hist_mem s2)
                   else if c2 = 66 then case p_history_index e of None \<Rightarrow> None | Some q \<Rightarrow> DL_NEXT q (hist_mem s2)
                   else p_history_index e)
          in if c2 = 65 \<or> c2 = 66
             then map_option (\<lambda>(i, s3). (e\<lparr>ed_i := i, p_history_index := p\<rparr>, s3)) (load_history buf (ed_i e) p s2)
             else Some (e, s2))))"

text \<open>One key: whether the line is finished, and the new state.\<close>

definition line_key :: "yaffs_tab \<Rightarrow> addr \<Rightarrow> addr \<Rightarrow> uint8 \<Rightarrow> edit_state \<Rightarrow> shell_state \<Rightarrow> (bool \<times> edit_state \<times> shell_state) option" where
  "line_key ytab buf tab c e0 s0 =
     Option.bind (if c \<noteq> 9 \<and> have_tab e0 then take_tab buf tab e0 s0 else Some (e0, s0)) (\<lambda>(e, s).
       if c = 13 then Some (True, e, upd_cmd (serial_putc 10) (store (buf + nat (ed_i e)) 0 s))
       else if c = 8 then
         Some (False, if ed_i e \<ge> 1 then (e\<lparr>ed_i := ed_i e - 1\<rparr>, upd_cmd (put_text [8, 32, 8]) s) else (e, s))
       else if c = 9 then map_option (\<lambda>es. (False, es)) (tab_key ytab buf tab e s)
       else if c = 27 then map_option (\<lambda>es. (False, es)) (escape_key buf e s)
       else Some (False, e\<lparr>ed_i := ed_i e + 1\<rparr>, upd_cmd (serial_putc c) (store (buf + nat (ed_i e)) c s)))"

partial_function (option) line_loop ::
  "yaffs_tab \<Rightarrow> addr \<Rightarrow> addr \<Rightarrow> edit_state \<Rightarrow> shell_state \<Rightarrow> (bool \<times> edit_state \<times> shell_state) option" where
  "line_loop ytab buf tab e s =
     (if ed_i e < CMD_LEN_MAX then
        Option.bind (serial_getc s) (\<lambda>(c, s1).
        Option.bind (line_key ytab buf tab c e s1) (\<lambda>(finished, e2, s2).
          if finished then Some (True, e2, s2) else line_loop ytab buf tab e2 s2))
      else Some (False, e, s))"

section \<open>History\<close>

text \<open>At \<^verbatim>\<open>got_it\<close>: a line that is not empty and not the last one again is kept, in the place of the oldest when there are three.\<close>

definition remember :: "addr \<Rightarrow> int \<Rightarrow> ptr \<Rightarrow> shell_state \<Rightarrow> shell_state option" where
  "remember buf i current s =
     Option.bind (case DL_LAST history_list (hist_mem s) of
                    None \<Rightarrow> Some True
                  | Some p \<Rightarrow> map_option (\<lambda>r. r \<noteq> 0) (strcmp buf (hist_line p) (shmem s))) (\<lambda>differs.
       if i \<noteq> 0 \<and> (DL_EMPTY history_list (hist_mem s) \<or> differs) then
         Option.bind (if history_num s < HISTORY_MAX
                      then map_option (\<lambda>(p, h). (Some p, s\<lparr>shcmd := (shcmd s)\<lparr>cheap := h\<rparr>, history_num := history_num s + 1\<rparr>))
                             (malloc sizeof_HISTORY_NODE current (cheap (shcmd s)))
                      else case dlist_get history_list (hist_mem s) of (p, m) \<Rightarrow> Some (p, s\<lparr>hist_mem := m\<rparr>)) (\<lambda>(p, s1).
           case p of
             None \<Rightarrow> None
           | Some p_history_node \<Rightarrow>
               map_option (\<lambda>s2. s2\<lparr>hist_mem := dlist_add history_list p_history_node (hist_mem s2)\<rparr>)
                 (copy_str (hist_line p_history_node) buf s1))
       else Some s)"

definition get_cmd_line :: "yaffs_tab \<Rightarrow> addr \<Rightarrow> addr \<Rightarrow> ptr \<Rightarrow> shell_state \<Rightarrow> (int \<times> shell_state) option" where
  "get_cmd_line ytab buf tab current s =
     Option.bind (line_loop ytab buf tab \<lparr>ed_i = 0, have_tab = False, p_history_index = None\<rparr>
                    (upd_cmd (set_mem (put_bytes tab (replicate PATH_LEN_MAX 0) (shmem s))) s)) (\<lambda>(finished, e, s1).
       let (i, s2) = (if \<not> finished \<and> ed_i e = CMD_LEN_MAX then (ed_i e - 1, store (buf + nat (CMD_LEN_MAX - 1)) 0 s1) else (ed_i e, s1))
       in map_option (\<lambda>s3. (i, s3)) (remember buf i current s2))"

section \<open>The task\<close>

definition CMD_EXIT :: int where "CMD_EXIT = -1"

definition prompt :: "uint8 list" where "prompt = [45, 62, 32]"

definition au_revoir :: "uint8 list" where
  "au_revoir = [10, 65, 117, 32, 82, 101, 118, 111, 105, 114, 33, 10]"

partial_function (option) T_shell_loop ::
  "(addr \<Rightarrow> nat \<Rightarrow> (nat \<Rightarrow> addr) \<Rightarrow> cmd_state \<Rightarrow> (int \<times> cmd_state) option) \<Rightarrow> yaffs_tab \<Rightarrow> addr \<Rightarrow> addr \<Rightarrow> ptr \<Rightarrow> shell_state \<Rightarrow> shell_state option" where
  "T_shell_loop call ytab buf tab current s =
     Option.bind (get_cmd_line ytab buf tab current s) (\<lambda>(_, s1).
     Option.bind (del_front_space buf (shmem s1)) (\<lambda>start_cmd.
     Option.bind (strlen start_cmd (shmem s1)) (\<lambda>len.
       if len = 0 then T_shell_loop call ytab buf tab current (upd_cmd (put_text prompt) s1)
       else Option.bind (cmd_do call start_cmd (shcmd s1)) (\<lambda>(r, c).
         if r = CMD_EXIT then Some (s1\<lparr>shcmd := put_text au_revoir c\<rparr>)
         else T_shell_loop call ytab buf tab current (s1\<lparr>shcmd := put_text (10 # prompt) c\<rparr>)))))"

declare del_front_space.simps [code] line_loop.simps [code] T_shell_loop.simps [code]

section \<open>Typing a line\<close>

text \<open>The specification: what a key does to the line, and what is shown for it.\<close>

definition edit_key :: "uint8 list \<Rightarrow> uint8 \<Rightarrow> uint8 list" where
  "edit_key line c = (if c = 8 then butlast line else line @ [c])"

fun echo :: "uint8 list \<Rightarrow> uint8 list \<Rightarrow> uint8 list" where
  "echo line [] = []"
| "echo line (c # ks) = (if c = 8 then if line = [] then [] else [8, 32, 8] else [c]) @ echo (edit_key line c) ks"

definition plain_key :: "uint8 \<Rightarrow> bool" where
  "plain_key c \<longleftrightarrow> c \<noteq> 0 \<and> c \<noteq> 9 \<and> c \<noteq> 13 \<and> c \<noteq> 27"

text \<open>The state during editing: memory, output and input differ from those of \<open>b\<close>.\<close>

definition editing :: "shell_state \<Rightarrow> cmem \<Rightarrow> uint8 list \<Rightarrow> (uint8 \<times> bool) list \<Rightarrow> shell_state" where
  "editing b m t inp = b\<lparr>shcmd := put_text t (set_mem m (shcmd b)), input := inp\<rparr>"

lemma put_text_eq: "put_text t c = c\<lparr>serial_out := serial_out c @ t\<rparr>"
  by (induction t arbitrary: c) (simp_all add: put_text_def serial_putc_def)

lemma set_mem_put_text [simp]: "set_mem m (put_text t c) = put_text t (set_mem m c)" "set_mem m (set_mem m' c) = set_mem m c"
  by (simp_all add: put_text_eq set_mem_def)

lemma serial_putc_text: "serial_putc c = put_text [c]"
  by (simp add: put_text_def fun_eq_iff)

lemma editing_simps:
  "shmem (editing b m t inp) = m"
  "serial_getc (editing b m t ((c, f) # inp)) = Some (c, editing b m t inp)"
  "store a c (editing b m t inp) = editing b (m(a := c)) t inp"
  "upd_cmd (put_text u) (editing b m t inp) = editing b m (t @ u) inp"
  by (simp_all add: editing_def serial_getc_def store_def upd_cmd_def)

lemma line_key_plain:
  assumes "plain_key c" and "ed_i e = int (length line)" and "\<not> have_tab e"
  shows "\<exists>m'. line_key ytab buf tab c e (editing b m t inp)
      = Some (False, e\<lparr>ed_i := int (length (edit_key line c))\<rparr>, editing b m' (t @ echo line [c]) inp)
    \<and> m' = (if c = 8 then m else m(buf + length line := c))"
  using assms by (cases "line = []") (auto simp: line_key_def plain_key_def edit_key_def editing_simps serial_putc_text Suc_le_eq)

lemma line_loop_edits:
  assumes "map fst zs = ks @ [13]" and "\<forall>c \<in> set ks. plain_key c" and "\<forall>j < length line. m (buf + j) = line ! j" and "0 \<notin> set line"
    and "length line + length ks < 1024"
  shows "\<exists>m'. line_loop ytab buf tab \<lparr>ed_i = int (length line), have_tab = False, p_history_index = p\<rparr> (editing b m t (zs @ rest))
      = Some (True, \<lparr>ed_i = int (length (foldl edit_key line ks)), have_tab = False, p_history_index = p\<rparr>,
          editing b m' (t @ echo line ks @ [10]) rest)
    \<and> cstr m' buf (foldl edit_key line ks) \<and> (\<forall>a. a < buf \<or> buf + 1024 \<le> a \<longrightarrow> m' a = m a)"
  using assms
proof (induction ks arbitrary: line m t zs)
  case Nil
  then obtain f where "zs = [(13, f)]" by (cases zs) auto
  then show ?case using Nil.prems(3-5)
    by (subst line_loop.simps) (auto simp: editing_simps line_key_def serial_putc_text cstr_iff)
next
  case (Cons c ks)
  then obtain f zs' where zs: "zs = (c, f) # zs'" "map fst zs' = ks @ [13]" by (cases zs) auto
  have c: "plain_key c" using Cons.prems(2) by simp
  obtain m1 where key: "line_key ytab buf tab c \<lparr>ed_i = int (length line), have_tab = False, p_history_index = p\<rparr> (editing b m t (zs' @ rest))
      = Some (False, \<lparr>ed_i = int (length (edit_key line c)), have_tab = False, p_history_index = p\<rparr>, editing b m1 (t @ echo line [c]) (zs' @ rest))"
    and m1: "m1 = (if c = 8 then m else m(buf + length line := c))"
    using line_key_plain [OF c, of "\<lparr>ed_i = int (length line), have_tab = False, p_history_index = p\<rparr>" line] by auto
  have "\<forall>j < length (edit_key line c). m1 (buf + j) = edit_key line c ! j" "0 \<notin> set (edit_key line c)"
    "length (edit_key line c) + length ks < 1024"
    using Cons.prems(3-5) c by (auto simp: m1 edit_key_def nth_append nth_butlast plain_key_def dest: in_set_butlastD)
  from Cons.IH [OF zs(2) _ this, of "t @ echo line [c]"] Cons.prems(2) obtain m' where
    loop: "line_loop ytab buf tab \<lparr>ed_i = int (length (edit_key line c)), have_tab = False, p_history_index = p\<rparr> (editing b m1 (t @ echo line [c]) (zs' @ rest))
      = Some (True, \<lparr>ed_i = int (length (foldl edit_key (edit_key line c) ks)), have_tab = False, p_history_index = p\<rparr>,
          editing b m' ((t @ echo line [c]) @ echo (edit_key line c) ks @ [10]) rest)"
    and m': "cstr m' buf (foldl edit_key (edit_key line c) ks)" "\<forall>a. a < buf \<or> buf + 1024 \<le> a \<longrightarrow> m' a = m1 a"
    by auto
  have "\<forall>a. a < buf \<or> buf + 1024 \<le> a \<longrightarrow> m' a = m a" using m'(2) Cons.prems(5) by (auto simp: m1)
  then show ?case using key loop m'(1) Cons.prems(5) by (intro exI [of _ m'], subst line_loop.simps) (simp add: zs editing_simps)
qed

section \<open>The kept lines\<close>

text \<open>The specification: at most three lines, the oldest one goes first, no line twice in a row.\<close>

definition keep_line :: "uint8 list list \<Rightarrow> uint8 list \<Rightarrow> uint8 list list" where
  "keep_line hs w =
     (if w = [] \<or> hs \<noteq> [] \<and> last hs = w then hs else if length hs < HISTORY_MAX then hs @ [w] else tl hs @ [w])"

text \<open>\<open>L p\<close> is the text of the node \<open>p\<close>, each node is in a region of the heap of its own.\<close>

definition hist_node_ok :: "cmem \<Rightarrow> region set \<Rightarrow> (addr \<Rightarrow> uint8 list) \<Rightarrow> addr \<Rightarrow> bool" where
  "hist_node_ok m R L p \<longleftrightarrow>
     (\<exists>k t. (p, k, t) \<in> R \<and> 1032 \<le> k) \<and> CONFIG_MEM_HEAP_LOW \<le> p \<and> p + 1032 \<le> CONFIG_MEM_HEAP_HIGH
     \<and> cstr m (hist_line p) (L p) \<and> length (L p) < 1024"

definition hist_ok :: "shell_state \<Rightarrow> addr list \<Rightarrow> (addr \<Rightarrow> uint8 list) \<Rightarrow> region set \<Rightarrow> bool" where
  "hist_ok s hs L R \<longleftrightarrow>
     dl_holds (hist_mem s) (\<lambda>_. hs) \<and> heap_uses (cheap (shcmd s)) R \<and> pairwise apart R
     \<and> history_num s = length hs \<and> length hs \<le> HISTORY_MAX \<and> (\<forall>p \<in> set hs. hist_node_ok (shmem s) R L p)"

lemma hist_ok_D:
  assumes "hist_ok s hs L R"
  shows "dl_holds (hist_mem s) (\<lambda>_. hs)" "heap_uses (cheap (shcmd s)) R" "pairwise apart R" "history_num s = length hs"
    "length hs \<le> HISTORY_MAX" "p \<in> set hs \<Longrightarrow> hist_node_ok (shmem s) R L p" "distinct hs"
    "DL_LAST history_list (hist_mem s) = final hs" "DL_EMPTY history_list (hist_mem s) \<longleftrightarrow> hs = []"
  using assms dl_rep_D [OF dl_holds_D(1) [of "hist_mem s" "\<lambda>_. hs" history_list]]
  by (auto simp: hist_ok_def DL_LAST_def DL_EMPTY_def first_eq_None)

lemma one_list: "(\<lambda>_ :: hist_list. hs)(history_list := xs) = (\<lambda>_. xs)"
  by (rule ext) (metis hist_list.exhaust fun_upd_same)

lemma add_hist: "dl_holds m (\<lambda>_ :: hist_list. hs) \<Longrightarrow> p \<notin> set hs \<Longrightarrow> dl_holds (dlist_add history_list p m) (\<lambda>_. hs @ [p])"
  using dl.add_law [of m "\<lambda>_. hs" p history_list] by (simp add: one_list)

text \<open>Writing one node leaves the others and the buffer as they are.\<close>

lemma hist_node_other:
  assumes "hist_node_ok m R L q" and "\<exists>k t. (p, k, t) \<in> R \<and> 1032 \<le> k" and "pairwise apart R" and "p \<noteq> q"
    and "length w < 1024"
  shows "hist_node_ok (put_bytes (hist_line p) (w @ [0]) m) R (L(p := w)) q"
proof -
  obtain k t k' t' where r: "(q, k, t) \<in> R" "1032 \<le> k" "(p, k', t') \<in> R" "1032 \<le> k'" using assms(1,2) by (auto simp: hist_node_ok_def)
  have "apart (q, k, t) (p, k', t')" by (rule pairwiseD [OF assms(3) r(1,3)]) (use assms(4) in simp)
  then have "cstr (put_bytes (hist_line p) (w @ [0]) m) (hist_line q) (L q) = cstr m (hist_line q) (L q)"
    using r assms(1,5) by (intro cstr_put_away) (auto simp: away_def apart_def hist_line_def hist_node_ok_def)
  then show ?thesis using assms(1,4) by (auto simp: hist_node_ok_def)
qed

lemma hist_node_written:
  assumes "(p, k, t) \<in> R" "1032 \<le> k" and "CONFIG_MEM_HEAP_LOW \<le> p" "p + 1032 \<le> CONFIG_MEM_HEAP_HIGH" and "0 \<notin> set w" "length w < 1024"
  shows "hist_node_ok (put_bytes (hist_line p) (w @ [0]) m) R (L(p := w)) p"
  using assms cstr_put [OF assms(5)] by (auto simp: hist_node_ok_def)

text \<open>The line goes into the node \<open>p\<close>, which is taken out of the list or new, and the node behind the others.\<close>

lemma store_line:
  assumes hs: "dl_holds (hist_mem s) (\<lambda>_. hs)" "p \<notin> set hs" "\<forall>q \<in> set hs. hist_node_ok (shmem s) R L q"
    and heap: "heap_uses (cheap (shcmd s)) R" "pairwise apart R" and n: "history_num s = length hs + 1" "length hs < HISTORY_MAX"
    and p: "(p, k, t) \<in> R" "1032 \<le> k" "CONFIG_MEM_HEAP_LOW \<le> p" "p + 1032 \<le> CONFIG_MEM_HEAP_HIGH"
    and w: "cstr (shmem s) buf w" "length w < 1024" and buf: "buf + 1024 \<le> CONFIG_MEM_HEAP_LOW \<or> CONFIG_MEM_HEAP_HIGH \<le> buf"
  shows "\<exists>s'. map_option (\<lambda>s2. s2\<lparr>hist_mem := dlist_add history_list p (hist_mem s2)\<rparr>) (copy_str (hist_line p) buf s) = Some s'
    \<and> hist_ok s' (hs @ [p]) (L(p := w)) R \<and> cstr (shmem s') buf w \<and> input s' = input s \<and> serial_out (shcmd s') = serial_out (shcmd s)"
proof -
  let ?m = "put_bytes (hist_line p) (w @ [0]) (shmem s)"
  let ?s = "upd_cmd (set_mem ?m) s\<lparr>hist_mem := dlist_add history_list p (hist_mem s)\<rparr>"
  have sep: "away buf (length w + 1) (hist_line p) (length w + 1)" using buf p(3,4) w(2) by (auto simp: away_def hist_line_def)
  have "map_option (\<lambda>s2. s2\<lparr>hist_mem := dlist_add history_list p (hist_mem s2)\<rparr>) (copy_str (hist_line p) buf s) = Some ?s"
    using strcpy_away [OF w(1) sep] by (simp add: copy_str_def upd_cmd_def)
  moreover have "cstr (shmem ?s) buf w" using w(1) cstr_put_away [of buf w "hist_line p" "w @ [0]"] sep by (simp add: upd_cmd_def)
  moreover have "hist_node_ok ?m R (L(p := w)) q" if "q \<in> set (hs @ [p])" for q
  proof (cases "q = p")
    case True
    then show ?thesis using hist_node_written [OF p cstr_no0 [OF w(1)] w(2)] by simp
  next
    case False
    then show ?thesis using that hs(3) p(1,2) heap(2) w(2) by (intro hist_node_other) auto
  qed
  then have "hist_ok ?s (hs @ [p]) (L(p := w)) R"
    using add_hist [OF hs(1,2)] heap n by (simp add: hist_ok_def upd_cmd_def) (simp add: set_mem_def)
  ultimately show ?thesis by (intro exI [of _ ?s]) (simp add: upd_cmd_def set_mem_def)
qed

lemma line_differs:
  assumes ok: "hist_ok s hs L R" and w: "cstr (shmem s) buf w"
  shows "(case DL_LAST history_list (hist_mem s) of None \<Rightarrow> Some True
      | Some p \<Rightarrow> map_option (\<lambda>r. r \<noteq> 0) (strcmp buf (hist_line p) (shmem s))) = Some (hs = [] \<or> last (map L hs) \<noteq> w)"
proof (cases hs rule: rev_cases)
  case (snoc as p)
  have l: "cstr (shmem s) (hist_line p) (L p)" using hist_ok_D(6) [OF ok, of p] snoc by (simp add: hist_node_ok_def)
  show ?thesis using strcmp_cstr [OF w l] cmp_bytes_0 [OF cstr_no0 [OF w] cstr_no0 [OF l]] snoc by (auto simp: hist_ok_D(8) [OF ok])
qed (simp add: hist_ok_D(8) [OF ok])

lemma remember_keeps:
  assumes ok: "hist_ok s hs L R" and w: "cstr (shmem s) buf w" "length w < 1024"
    and buf: "buf + 1024 \<le> CONFIG_MEM_HEAP_LOW \<or> CONFIG_MEM_HEAP_HIGH \<le> buf"
    and space: "length hs < HISTORY_MAX \<Longrightarrow> malloc sizeof_HISTORY_NODE current (cheap (shcmd s)) \<noteq> None"
  shows "\<exists>s' hs' L' R'. remember buf (int (length w)) current s = Some s' \<and> hist_ok s' hs' L' R'
    \<and> map L' hs' = keep_line (map L hs) w \<and> cstr (shmem s') buf w \<and> input s' = input s
    \<and> serial_out (shcmd s') = serial_out (shcmd s)"
proof -
  note D = hist_ok_D [OF ok]
  note differs = line_differs [OF ok w(1)]
  show ?thesis
  proof (cases "w = [] \<or> hs \<noteq> [] \<and> last (map L hs) = w")
    case True
    then have "remember buf (int (length w)) current s = Some s" using differs by (auto simp: remember_def D(9))
    then show ?thesis using ok True w(1) by (intro exI [of _ s] exI [of _ hs] exI [of _ L] exI [of _ R]) (auto simp: keep_line_def)
  next
    case new: False
    show ?thesis
    proof (cases "length hs < HISTORY_MAX")
      case True
      then obtain p h where m: "malloc sizeof_HISTORY_NODE current (cheap (shcmd s)) = Some (p, h)" using space by auto
      obtain k where k: "1032 \<le> k" "heap_uses h (insert (p, k, current) R)" "\<forall>r \<in> R. apart (p, k, current) r"
        "CONFIG_MEM_HEAP_LOW < p" "p + k \<le> CONFIG_MEM_HEAP_HIGH"
        using malloc_region_law [OF D(2) m] by auto
      let ?R = "insert (p, k, current) R" and ?s = "s\<lparr>shcmd := (shcmd s)\<lparr>cheap := h\<rparr>, history_num := history_num s + 1\<rparr>"
      have pw: "pairwise apart ?R" using D(3) k(3) by (auto simp: pairwise_insert apart_def)
      have fresh: "p \<notin> set hs" using D(6) [of p] k(1,3) by (fastforce simp: hist_node_ok_def apart_def)
      have nodes: "\<forall>q \<in> set hs. hist_node_ok (shmem ?s) ?R L q"
        using D(6) malloc_bytes [OF m] by (force simp: hist_node_ok_def)
      from store_line [of ?s hs p ?R L k current buf w] obtain s' where
        "map_option (\<lambda>s2. s2\<lparr>hist_mem := dlist_add history_list p (hist_mem s2)\<rparr>) (copy_str (hist_line p) buf ?s) = Some s'"
        "hist_ok s' (hs @ [p]) (L(p := w)) ?R" "cstr (shmem s') buf w" "input s' = input s" "serial_out (shcmd s') = serial_out (shcmd s)"
        using D(1,4) True fresh nodes k pw w malloc_bytes [OF m] buf by auto
      moreover from this(1) have "remember buf (int (length w)) current s = Some s'"
        using new differs m True by (simp add: remember_def D(4,9))
      moreover have "map (L(p := w)) (hs @ [p]) = keep_line (map L hs) w" using new True fresh by (auto simp: keep_line_def)
      ultimately show ?thesis by blast
    next
      case False
      then obtain p hs1 where hs: "hs = p # hs1" "length hs1 = 2" using D(5) by (cases hs) auto
      have get: "dlist_get history_list (hist_mem s) = (Some p, dlist_remove history_list p (hist_mem s))"
        and rest: "dl_holds (dlist_remove history_list p (hist_mem s)) (\<lambda>_. hs1)"
        using dl.get_holds [where l = history_list and a = p and xs = hs1, OF D(1)] hs(1) by (simp_all add: one_list)
      obtain k t where k: "(p, k, t) \<in> R" "1032 \<le> k" and bounds: "CONFIG_MEM_HEAP_LOW \<le> p" "p + 1032 \<le> CONFIG_MEM_HEAP_HIGH"
        using D(6) [of p] hs(1) by (auto simp: hist_node_ok_def)
      let ?s = "s\<lparr>hist_mem := dlist_remove history_list p (hist_mem s)\<rparr>"
      from store_line [of ?s hs1 p R L k t buf w] obtain s' where
        "map_option (\<lambda>s2. s2\<lparr>hist_mem := dlist_add history_list p (hist_mem s2)\<rparr>) (copy_str (hist_line p) buf ?s) = Some s'"
        "hist_ok s' (hs1 @ [p]) (L(p := w)) R" "cstr (shmem s') buf w" "input s' = input s" "serial_out (shcmd s') = serial_out (shcmd s)"
        using rest D(2-7) hs k bounds w buf by auto
      moreover from this(1) have "remember buf (int (length w)) current s = Some s'"
        using new differs get False by (simp add: remember_def D(4,9))
      moreover have "map (L(p := w)) (hs1 @ [p]) = keep_line (map L hs) w" using new False D(7) by (auto simp: keep_line_def hs)
      ultimately show ?thesis by blast
    qed
  qed
qed

lemma hist_node_frame:
  assumes "hist_node_ok m R L p" and "\<And>a. CONFIG_MEM_HEAP_LOW \<le> a \<Longrightarrow> a < CONFIG_MEM_HEAP_HIGH \<Longrightarrow> m' a = m a"
  shows "hist_node_ok m' R L p"
proof -
  have "cstr m' (hist_line p) (L p) = cstr m (hist_line p) (L p)"
    by (rule cstr_frame, rule assms(2)) (use assms(1) in \<open>auto simp: hist_node_ok_def hist_line_def\<close>)
  then show ?thesis using assms(1) by (simp add: hist_node_ok_def)
qed

text \<open>C36: Plain keys and backspaces, ended by a return, are read into the buffer as the line they edit, and echoed; the
  line is kept as the last one of the history, unless it is empty or was the last one already, and the oldest
  of three gives way for it. Buffer and completion array are outside of the heap.
\<close>

theorem get_cmd_line_edits:
  assumes ok: "hist_ok s hs L R" and inp: "input s = zs @ rest" "map fst zs = ks @ [13]" and ks: "\<forall>c \<in> set ks. plain_key c" "length ks < 1024"
    and buf: "buf + 1024 \<le> CONFIG_MEM_HEAP_LOW \<or> CONFIG_MEM_HEAP_HIGH \<le> buf"
    and tab: "tab + PATH_LEN_MAX \<le> CONFIG_MEM_HEAP_LOW \<or> CONFIG_MEM_HEAP_HIGH \<le> tab"
    and space: "length hs < HISTORY_MAX \<Longrightarrow> malloc sizeof_HISTORY_NODE current (cheap (shcmd s)) \<noteq> None"
  defines "line \<equiv> foldl edit_key [] ks"
  shows "\<exists>s' hs' L' R'. get_cmd_line ytab buf tab current s = Some (int (length line), s') \<and> cstr (shmem s') buf line
    \<and> hist_ok s' hs' L' R' \<and> map L' hs' = keep_line (map L hs) line
    \<and> input s' = rest \<and> serial_out (shcmd s') = serial_out (shcmd s) @ echo [] ks @ [10]"
proof -
  note D = hist_ok_D [OF ok]
  let ?m = "put_bytes tab (replicate PATH_LEN_MAX 0) (shmem s)"
  have start: "upd_cmd (set_mem ?m) s = editing s ?m [] (zs @ rest)"
    using inp(1) by (simp add: upd_cmd_def editing_def put_text_def)
  from line_loop_edits [OF inp(2) ks(1), of "[]" ?m buf ytab tab None s "[]" rest] ks(2) obtain m' where
    loop: "line_loop ytab buf tab \<lparr>ed_i = 0, have_tab = False, p_history_index = None\<rparr> (editing s ?m [] (zs @ rest))
      = Some (True, \<lparr>ed_i = int (length line), have_tab = False, p_history_index = None\<rparr>, editing s m' (echo [] ks @ [10]) rest)"
    and m': "cstr m' buf line" "\<forall>a. a < buf \<or> buf + 1024 \<le> a \<longrightarrow> m' a = ?m a"
    by (auto simp: line_def)
  let ?s1 = "editing s m' (echo [] ks @ [10]) rest"
  have len: "length (foldl edit_key l xs) \<le> length l + length xs" for l xs
  proof (induction xs arbitrary: l)
    case (Cons c xs)
    show ?case using Cons [of "edit_key l c"] by (auto simp: edit_key_def)
  qed simp
  have "hist_node_ok m' R L p" if "p \<in> set hs" for p
    using D(6) [OF that] by (rule hist_node_frame) (use m'(2) buf tab in \<open>auto simp: put_bytes_other\<close>)
  then have "hist_ok ?s1 hs L R"
    using D(1-5) by (simp add: hist_ok_def editing_simps) (simp add: editing_def set_mem_def)
  moreover have "malloc sizeof_HISTORY_NODE current (cheap (shcmd ?s1)) \<noteq> None" if "length hs < HISTORY_MAX"
    using space [OF that] by (auto simp: editing_def set_mem_def malloc_def Let_def split: option.splits)
  moreover have "length line < 1024" using len [of "[]" ks] ks(2) by (simp add: line_def)
  ultimately obtain s' hs' L' R' where "remember buf (int (length line)) current ?s1 = Some s'" "hist_ok s' hs' L' R'"
    "map L' hs' = keep_line (map L hs) line" "cstr (shmem s') buf line" "input s' = input ?s1" "serial_out (shcmd s') = serial_out (shcmd ?s1)"
    using remember_keeps [of ?s1 hs L R buf line current] m'(1) buf by (auto simp: editing_simps)
  then show ?thesis
    by (intro exI [of _ s'] exI [of _ hs'] exI [of _ L'] exI [of _ R'])
      (simp add: get_cmd_line_def start loop, simp add: editing_def set_mem_def)
qed

text \<open>Three keys are typed, the second one is taken back.\<close>

definition shell_demo :: shell_state where
  "shell_demo = \<lparr>shcmd = cmd_demo, hist_mem = \<lparr>nodes = (\<lambda>_. \<lparr>dl_next = None, dl_previous = None\<rparr>), lists = (\<lambda>_. \<lparr>dl_head = None, dl_tail = None\<rparr>)\<rparr>,
     history_num = 0, input = [(97, True), (98, True), (8, False), (99, True), (13, True)]\<rparr>"

theorem get_cmd_line_edits_witness:
  "\<exists>s' (hs' :: addr list) (L' :: addr \<Rightarrow> uint8 list). get_cmd_line (\<lambda>_ _ _. None) 1000 3000 None shell_demo = Some (2, s') \<and> cstr (shmem s') 1000 [97, 99] \<and> map L' hs' = [[97, 99]]
    \<and> serial_out (shcmd s') = [97, 98, 8, 32, 8, 99, 10]"
proof -
  have h: "heap_holds (cheap cmd_demo) whole" using fresh_heap_holds by (simp add: cmd_demo_def heap_holds_def)
  then have "heap_uses (cheap cmd_demo) {}" by (auto simp: heap_uses_def whole_def intro!: exI [of _ "[Blk 0x4ffffec False None]"])
  then have ok: "hist_ok shell_demo [] (\<lambda>_. []) {}" by (simp add: hist_ok_def shell_demo_def dl_holds_def dl_rep_def)
  have m: "malloc sizeof_HISTORY_NODE None (cheap (shcmd shell_demo)) \<noteq> None"
    using malloc_refines_fit [of "cheap cmd_demo" "[]" "Blk 0x4ffffec False None" "[]" 1032 None] h
    by (auto simp: whole_def fits_def align_up_nat shell_demo_def)
  let ?ks = "[97, 98, 8, 99] :: uint8 list"
  have inp: "input shell_demo = input shell_demo @ []" "map fst (input shell_demo) = ?ks @ [13]" by (simp_all add: shell_demo_def)
  have ks: "\<forall>c \<in> set ?ks. plain_key c" "length ?ks < 1024" by (simp_all add: plain_key_def)
  have line: "foldl edit_key [] ?ks = [97, 99]" and out: "echo [] ?ks = [97, 98, 8, 32, 8, 99]" by (simp_all add: edit_key_def)
  have old: "serial_out (shcmd shell_demo) = []" by (simp add: shell_demo_def cmd_demo_def)
  have keep: "keep_line (map (\<lambda>_. []) []) [97, 99] = [[97, 99]]" and len: "int (length [97 :: uint8, 99]) = 2" by (simp_all add: keep_line_def)
  have buf: "(1000 :: nat) + 1024 \<le> CONFIG_MEM_HEAP_LOW \<or> CONFIG_MEM_HEAP_HIGH \<le> 1000"
    and tab: "(3000 :: nat) + PATH_LEN_MAX \<le> CONFIG_MEM_HEAP_LOW \<or> CONFIG_MEM_HEAP_HIGH \<le> 3000" by simp_all
  from get_cmd_line_edits [OF ok inp ks buf tab m, of "\<lambda>_ _ _. None", unfolded line out old keep len append_Nil append_Cons]
  show ?thesis by (elim exE conjE) (intro exI conjI; assumption)
qed

end
