(* ===== verification/Spec2Isabelle.thy ===== *)
theory Spec2Isabelle
  imports System CPrint Fifo Atomic TimeLib IoSystem Wuzi Lian Tetris_Auto Nongli Calculator Cmd Shell
begin

text \<open>
  DfewOS: a verification development of its kernel, its run time library and its I/O system.

  \<^bold>\<open>The program.\<close> DfewOS is a real time operating system for one ARM processor. Tasks of 256
  priorities are scheduled preemptively, with round robin inside of a priority at every clock
  tick; they synchronise by binary semaphores, counting semaphores, mutexes with priority
  inheritance and message queues, whose waiters sit in doubly linked lists and time out by
  counting ticks. A first fit heap serves all of it. On top there are a small C library, a
  layer of devices and file descriptors, a calendar, a shell and some games.

  \<^bold>\<open>How the code is modelled.\<close> Each C function is a definition of the same name (a leading
  underscore is dropped, a name that clashes is suffixed) on an explicit state: the records of
  the C structures in stores indexed by addresses (natural numbers; \<^verbatim>\<open>NULL\<close> is \<open>None\<close>), byte
  memory as a function from addresses to 8 bit words, C integers as 32 or 8 bit words wherever
  they can wrap. A loop over pointers is a \<open>partial_function (option)\<close> or returns an option, so
  that \<open>None\<close> stands for a run that does not return or leaves the memory it may use; that it does
  return is part of what is proved. Other loops are \<open>function\<close>s with a measure, and fuel is used only in
  the calculator.
  Interrupts are disabled in kernel code, so that a kernel call is one step; a call that blocks
  ends with the result \<open>Switch\<close>, and what it does when the task runs again is a definition of
  its own, with the suffix \<open>_resume\<close>.

  \<^bold>\<open>The parts\<close> (theory: source).
  \<^item> Prelude: types, ends of lists, words. Dlist: \<^verbatim>\<open>dlist.c\<close>, \<^verbatim>\<open>dlist.h\<close>; the locale \<open>list_store\<close>
    is what the kernel relies on, and \<open>dl\<close> its interpretation by the pointer code.
  \<^item> CMemory: the \<^verbatim>\<open>mem*\<close> routines of \<^verbatim>\<open>string.c\<close> with their word loops, shown to be block copies
    and fills. CString: the \<^verbatim>\<open>str*\<close> routines. CNumber: the character table, \<^verbatim>\<open>_Stoul\<close>, \<^verbatim>\<open>atoi\<close>,
    \<^verbatim>\<open>rand\<close>. CPrint: \<^verbatim>\<open>sprintf\<close> and \<^verbatim>\<open>sscanf\<close>.
  \<^item> MemH: \<^verbatim>\<open>memH.c\<close>, the heap as a chain of blocks; the locale \<open>allocator\<close> is its contract, and
    \<open>hp\<close> the interpretation.
  \<^item> Kernel_State: the kernel as one record. ReadyQ: \<^verbatim>\<open>readyQ.c\<close> and \<^verbatim>\<open>bsp/scheduler.S\<close>, with the
    locale \<open>task_queues\<close>. Waiting: \<^verbatim>\<open>delayQ.c\<close> and the walk of a tick over a list of waiters.
  \<^item> SemB, SemC, SemM, MsgQ: \<^verbatim>\<open>semB.c\<close>, \<^verbatim>\<open>semC.c\<close>, \<^verbatim>\<open>semM.c\<close>, \<^verbatim>\<open>msgQ.c\<close>.
  \<^item> Task_Store, Task: \<^verbatim>\<open>task.c\<close>: the bit maps of control blocks and stack pages, creation and
    deletion of tasks. Tick: \<^verbatim>\<open>tick.c\<close> and the timer interrupt.
  \<^item> Objects, Kernel_Steps: the invariant of the kernel state (queues, tasks, mutexes, heap, registered
    objects) and its preservation, one lemma for each kernel call. System: \<^verbatim>\<open>main.c\<close> up to the first task, and the
    inductive step relation \<open>kstep\<close>: the operations of semaphores, mutexes and message queues from \<^verbatim>\<open>init\<close>
    to \<^verbatim>\<open>delete\<close> but for \<^verbatim>\<open>msgQ_delete\<close>, the continuations of blocked calls, delays, ticks, the creation, deletion and
    end of tasks, \<^verbatim>\<open>malloc\<close>, \<^verbatim>\<open>free\<close> and writes to memory by tasks, with the guards on the caller stated there.
  \<^item> Fifo: \<^verbatim>\<open>fifo.c\<close>, with the locale \<open>bounded_queue\<close>. Atomic: \<^verbatim>\<open>atomic.c\<close> and interleavings.
  \<^item> Kernel_Lock: a mutex around a library's data (locale \<open>critical_section\<close>). TimeLib:
    \<^verbatim>\<open>date/timeLib.c\<close>. IoSystem: \<^verbatim>\<open>ios/lib/iosLib.c\<close> and \<^verbatim>\<open>ioLib.c\<close>; drivers are a parameter.
  \<^item> Wuzi: \<^verbatim>\<open>wuzi/wuzi.c\<close>, five in a row against the computer. Lian: \<^verbatim>\<open>lianliankan/src/lian.c\<close>,
    pairs of equal blocks joined by three straight lines. Tetris, Tetris_Auto: \<^verbatim>\<open>tetris/src/tetris.c\<close>
    and \<^verbatim>\<open>auto.c\<close>, the game and the player that plays it by itself.
  \<^item> Nongli: \<^verbatim>\<open>date/nongli.c\<close>, the lunar calendar; the specification is the list of all lunar days that
    the table describes. Calculator: \<^verbatim>\<open>calculator/calculator.c\<close>; its parser takes fuel, three units for a
    character are shown to be enough. Cmd: \<^verbatim>\<open>cmd.c\<close>. Shell: the line editor and the history of \<^verbatim>\<open>shell.c\<close>.

  \<^bold>\<open>What is shown.\<close> The invariant of the kernel machine (\<open>kernel_reachable_ok\<close>): in every state
  that the steps of \<open>kstep\<close> reach, the linked lists are well formed, each live task is in
  exactly one of them, the bit maps agree with the ready lists, control blocks and stacks
  of live tasks are disjoint, the running task is ready and a step that changes it dispatches the first task of the highest
  priority, owners of mutexes are live, message queues count their messages, and the heap is intact.
  Two behaviours of the code break it and are excluded by the steps: \<^verbatim>\<open>msgQ_delete\<close> loses a waiter, and a task that
  ends while it owns a mutex stays its owner.
  For each operation: what it does on every branch, errors and time outs included. For the heap:
  first fit, regions in use never overlap, release undoes allocation. For the library: the
  optimised loops equal the plain ones, printing and reading round trips, capacity and order of
  the ring buffer, no lost update for interleaved atomic operations, the calendar counts seconds
  exactly. Several theorems describe behaviour that the code hardly intends: the count of a mutex
  that was handed over, the waiter that \<^verbatim>\<open>msgQ_delete\<close> loses, the walk of a tick that stops at
  the first task it wakes, the capacity of a FIFO, the value of \<^verbatim>\<open>open\<close> that is not kept.

  \<^bold>\<open>Not modelled.\<close> Vendored code (LibJPEG, ffmpeg, yaffs, lwip, the MTD and NAND layers, vi),
  device drivers and boot code, which act on hardware registers; the graphical interface; the
  functions that only print (the \<^verbatim>\<open>*_show\<close> routines and shell commands); \<^verbatim>\<open>stat\<close>, \<^verbatim>\<open>link\<close>, \<^verbatim>\<open>lseek\<close>
  and their kin, which pass on to yaffs; \<^verbatim>\<open>atof\<close>, which uses floating point (the values of the
  calculator are a parameter). \<^verbatim>\<open>1 << 32\<close> in the tetris code for 32 columns is undefined in C; the model has its value on
  ARM, and the theorems on whole games exclude it.
  Kernel calls are atomic: nested use of \<^verbatim>\<open>CPU_LOCK\<close> with its single saved status word, which
  enables interrupts too early in \<^verbatim>\<open>memH_free\<close>, is outside of the model.
\<close>

end
